(* ===== verification/Rust_Prelude.thy ===== *)
theory Rust_Prelude
  imports Main "HOL-Library.Word"
begin

text \<open>
  The vocabulary the component theories share: the machine integers of a 64-bit target, the
  checked and saturating operations of Rust's standard library on them, the two ways a call
  can end badly (an error value and a panic), power-of-two rounding, and the byte-addressed
  memory that allocators hand out and write their own bookkeeping into.

  \<open>usize\<close> is a 64-bit word, so every plain addition below wraps as a release build's does and
  every checked one says so. A range of memory is the set \<open>span p n\<close> of the addresses \<open>a\<close> with
  \<open>a - p < n\<close> in wrapping arithmetic, the test the crate itself uses in \<open>FixedRange::contains\<close>.
\<close>

unbundle bit_operations_syntax

named_theorems frame_simps \<open>reads of memory at an address a write did not touch\<close>
named_theorems trait_simps \<open>the dictionaries of the allocator models, field by field\<close>

section \<open>Machine integers\<close>

type_synonym u8 = "8 word"
type_synonym u32 = "32 word"
type_synonym u64 = "64 word"
type_synonym usize = "64 word"
type_synonym addr = "64 word"

abbreviation usize_max :: usize where
  "usize_max \<equiv> - 1"

definition isize_max :: usize where
  "isize_max = 9223372036854775807"

definition checked_add :: "'w::len word \<Rightarrow> 'w word \<Rightarrow> 'w word option" where
  "checked_add a b = (if unat a + unat b < 2 ^ LENGTH('w) then Some (a + b) else None)"

definition checked_sub :: "'w::len word \<Rightarrow> 'w word \<Rightarrow> 'w word option" where
  "checked_sub a b = (if b \<le> a then Some (a - b) else None)"

definition checked_mul :: "'w::len word \<Rightarrow> 'w word \<Rightarrow> 'w word option" where
  "checked_mul a b = (if unat a * unat b < 2 ^ LENGTH('w) then Some (a * b) else None)"

definition saturating_add :: "'w::len word \<Rightarrow> 'w word \<Rightarrow> 'w word" where
  "saturating_add a b = (if unat a + unat b < 2 ^ LENGTH('w) then a + b else - 1)"

definition saturating_sub :: "'w::len word \<Rightarrow> 'w word \<Rightarrow> 'w word" where
  "saturating_sub a b = (if b \<le> a then a - b else 0)"

definition saturating_mul :: "'w::len word \<Rightarrow> 'w word \<Rightarrow> 'w word" where
  "saturating_mul a b = (if unat a * unat b < 2 ^ LENGTH('w) then a * b else - 1)"

lemma checked_add_Some:
  "checked_add a b = Some (c :: 'w::len word) \<longleftrightarrow>
     unat a + unat b < 2 ^ LENGTH('w) \<and> c = a + b"
  by (auto simp: checked_add_def)

lemma checked_add_unat:
  "checked_add a b = Some (c :: 'w::len word) \<Longrightarrow> unat c = unat a + unat b"
  by (auto simp: checked_add_Some unat_plus_if')

lemma checked_mul_unat:
  "checked_mul a b = Some (c :: 'w::len word) \<Longrightarrow> unat c = unat a * unat b"
  using unat_mult_lem by (fastforce simp: checked_mul_def split: if_splits)

lemma checked_sub_unat:
  "checked_sub a b = Some (c :: 'w::len word) \<Longrightarrow> unat b \<le> unat a \<and> unat c = unat a - unat b"
  by (auto simp: checked_sub_def unat_sub word_le_nat_alt split: if_splits)

lemma unat_minus_one_word: "unat (- 1 :: 'w::len word) = 2 ^ LENGTH('w) - 1"
  by (simp add: unsigned_minus_1_eq_mask mask_eq_exp_minus_1)

lemma unat_usize_max: "unat (usize_max) = 2 ^ 64 - 1"
  by (simp add: unat_minus_one_word)

lemma unat_saturating_add:
  "unat (saturating_add a b :: 'w::len word) = min (unat a + unat b) (2 ^ LENGTH('w) - 1)"
  by (auto simp: saturating_add_def unat_plus_if' unat_minus_one_word min_def)

lemma unat_saturating_mul:
  "unat (saturating_mul a b :: 'w::len word) = min (unat a * unat b) (2 ^ LENGTH('w) - 1)"
proof (cases "unat a * unat b < 2 ^ LENGTH('w)")
  case True
  then show ?thesis using unat_mult_lem [of a b] by (simp add: saturating_mul_def)
next
  case False
  then show ?thesis by (simp add: saturating_mul_def unat_minus_one_word)
qed

lemma unat_saturating_sub: "unat (saturating_sub a b :: 'w::len word) = unat a - unat b"
  by (auto simp: saturating_sub_def unat_sub word_le_nat_alt)

lemma unat_64_less: "unat (x :: 64 word) < 2 ^ 64"
  using unsigned_less [of x] by simp

lemma unat_32_less: "unat (x :: 32 word) < 2 ^ 32"
  using unsigned_less [of x] by simp

text \<open>Widening casts \<open>u32 as usize\<close> lose nothing.\<close>

lemma unat_u32_as_usize [simp]: "unat (ucast (x :: u32) :: usize) = unat x"
  using unat_32_less [of x] by (simp add: unsigned_ucast_eq take_bit_nat_eq_self_iff)

lemma unat_word_of_nat: "n < 2 ^ LENGTH('w) \<Longrightarrow> unat (word_of_nat n :: 'w::len word) = n"
  by (simp add: unat_of_nat)

section \<open>Errors and panics\<close>

text \<open>
  \<open>AllocError\<close> is the crate's unit error; \<open>'a res\<close> is \<open>Result<'a, AllocError>\<close>. A release-mode
  \<open>panic!\<close>, or an \<open>expect\<close> on an error value, is the outcome \<open>Panicked\<close>. The \<open>debug_assert!\<close>s of
  the source are compiled out of the modelled (release) build; where they matter a lemma shows
  that their condition holds.
\<close>

datatype alloc_error = AllocError

type_synonym 'a res = "alloc_error + 'a"

datatype 'a outcome = Done 'a | Panicked

definition ok_or :: "'a option \<Rightarrow> 'a res" where
  "ok_or x = (case x of None \<Rightarrow> Inl AllocError | Some v \<Rightarrow> Inr v)"

lemma ok_or_Inr [simp]: "ok_or x = Inr v \<longleftrightarrow> x = Some v"
  by (auto simp: ok_or_def split: option.splits)

lemma alloc_error_eq [simp]: "(e :: alloc_error) = AllocError"
  by (cases e) simp

fun outcome_bind :: "'a outcome \<Rightarrow> ('a \<Rightarrow> 'b outcome) \<Rightarrow> 'b outcome" where
  "outcome_bind (Done a) f = f a"
| "outcome_bind Panicked f = Panicked"

lemma outcome_bind_Done [simp]:
  "outcome_bind x f = Done b \<longleftrightarrow> (\<exists>a. x = Done a \<and> f a = Done b)"
  by (cases x) auto

section \<open>Powers of two and alignment\<close>

text \<open>\<open>usize::is_power_of_two\<close>.\<close>

definition is_pow2 :: "usize \<Rightarrow> bool" where
  "is_pow2 w \<longleftrightarrow> (\<exists>k \<in> set [0..<64]. w = 2 ^ k)"

lemma is_pow2E:
  assumes "is_pow2 w"
  obtains k where "k < 64" and "w = 2 ^ k" and "unat w = 2 ^ k"
proof -
  from assms obtain k where k: "k < 64" "w = 2 ^ k"
    by (auto simp: is_pow2_def)
  have "(2::nat) ^ k < 2 ^ 64"
    using k(1) by (rule power_strict_increasing) simp
  then have "unat (word_of_nat (2 ^ k) :: usize) = 2 ^ k"
    by (intro unat_word_of_nat) simp
  then have "unat w = 2 ^ k"
    by (simp add: k(2))
  with k that show thesis by blast
qed

lemma is_pow2I: "k < 64 \<Longrightarrow> w = 2 ^ k \<Longrightarrow> is_pow2 w"
  by (auto simp: is_pow2_def)

lemma is_pow2_pos: "is_pow2 w \<Longrightarrow> 0 < unat w"
  by (erule is_pow2E) simp

lemma is_pow2_le: "is_pow2 w \<Longrightarrow> unat w \<le> 2 ^ 63"
proof (erule is_pow2E)
  fix k assume "k < 64" "unat w = 2 ^ k"
  then show "unat w \<le> 2 ^ 63" using power_increasing [of k 63 "2::nat"] by simp
qed

lemma is_pow2_nz: "is_pow2 w \<Longrightarrow> w \<noteq> 0"
  using is_pow2_pos by (metis less_irrefl unat_0)

lemma is_pow2_dvd:
  assumes "is_pow2 a" "is_pow2 b" "a \<le> b"
  shows "unat a dvd unat b"
proof -
  obtain i where i: "unat a = 2 ^ i" using assms(1) by (rule is_pow2E)
  obtain j where j: "unat b = 2 ^ j" using assms(2) by (rule is_pow2E)
  from assms(3) i j have "(2::nat) ^ i \<le> 2 ^ j" by (simp add: word_le_nat_alt)
  then have "i \<le> j" by simp
  then show ?thesis by (simp add: i j le_imp_power_dvd)
qed

text \<open>The mask idiom \<open>x & !(align - 1)\<close>.\<close>

definition align_down :: "usize \<Rightarrow> usize \<Rightarrow> usize" where
  "align_down x a = x AND NOT (a - 1)"

lemma and_not_mask_word:
  fixes w :: "'w::len word"
  shows "w AND NOT (mask k) = w - take_bit k w"
proof -
  have "w = (w AND NOT (mask k)) OR (w AND mask k)"
    by (rule bit_word_eqI) (auto simp: bit_simps)
  also have "\<dots> = (w AND NOT (mask k)) + (w AND mask k)"
    by (subst disjunctive_add_eq_or) (auto intro!: bit_word_eqI simp: bit_simps)
  finally show ?thesis
    by (simp add: take_bit_eq_mask algebra_simps)
qed

lemma unat_align_down:
  assumes "is_pow2 a"
  shows "unat (align_down x a) = unat x - unat x mod unat a"
proof -
  obtain k where k: "k < 64" "a = 2 ^ k" "unat a = 2 ^ k"
    using assms by (rule is_pow2E)
  have "unat (take_bit k x) = unat x mod 2 ^ k"
    by (simp add: unsigned_take_bit_eq take_bit_nat_def)
  moreover have "take_bit k x \<le> x"
    using calculation by (simp add: word_le_nat_alt)
  ultimately show ?thesis
    using k by (simp add: align_down_def and_not_mask_word unat_sub flip: mask_eq_decr_exp)
qed

lemma align_down_dvd: "is_pow2 a \<Longrightarrow> unat a dvd unat (align_down x a)"
  by (simp add: unat_align_down dvd_minus_mod)

lemma align_down_le: "is_pow2 a \<Longrightarrow> unat (align_down x a) \<le> unat x"
  by (simp add: unat_align_down)

lemma align_down_gt: "is_pow2 a \<Longrightarrow> unat x < unat (align_down x a) + unat a"
  using is_pow2_pos [of a] mod_less_divisor [of "unat a" "unat x"] mod_less_eq_dividend [of "unat x" "unat a"]
  unfolding unat_align_down by linarith

lemma unat_minus_one_pow2: "is_pow2 a \<Longrightarrow> unat (a - 1) = unat a - 1"
  by (simp add: unat_minus_one is_pow2_nz)

text \<open>
  Rounding up with the overflow checks of the source:
  \<open>raw.checked_add(align - 1).ok_or(AllocError)? & !(align - 1)\<close>.
\<close>

definition align_up_checked :: "usize \<Rightarrow> usize \<Rightarrow> usize option" where
  "align_up_checked raw a = map_option (\<lambda>v. align_down v a) (checked_add raw (a - 1))"

lemma align_up_checkedD:
  assumes "align_up_checked raw a = Some r" "is_pow2 a"
  shows "unat raw \<le> unat r" "unat r < unat raw + unat a" "unat a dvd unat r"
    "unat r \<le> unat raw + unat a - 1"
proof -
  obtain v where v: "checked_add raw (a - 1) = Some v" and r: "r = align_down v a"
    using assms(1) by (auto simp: align_up_checked_def)
  have uv: "unat v = unat raw + (unat a - 1)"
    using checked_add_unat [OF v] assms(2) by (simp add: unat_minus_one_pow2)
  show "unat raw \<le> unat r" "unat r < unat raw + unat a" "unat a dvd unat r"
    "unat r \<le> unat raw + unat a - 1"
    using align_down_gt [OF assms(2), of v] align_down_le [OF assms(2), of v]
      align_down_dvd [OF assms(2), of v] is_pow2_pos [OF assms(2)]
    by (auto simp: uv r)
qed

lemma align_up_checked_least:
  assumes "align_up_checked raw a = Some r" "is_pow2 a" "unat a dvd q" "unat raw \<le> q"
  shows "unat r \<le> q"
proof (rule ccontr)
  assume "\<not> unat r \<le> q"
  then have "q < unat r" by simp
  moreover have "unat a dvd unat r" by (rule align_up_checkedD(3) [OF assms(1,2)])
  ultimately have "unat a \<le> unat r - q"
    using assms(3) by (metis dvd_diff_nat dvd_imp_le zero_less_diff)
  with align_up_checkedD(2) [OF assms(1,2)] assms(4) \<open>q < unat r\<close> show False by linarith
qed

section \<open>Ranges of addresses\<close>

definition span :: "addr \<Rightarrow> usize \<Rightarrow> addr set" where
  "span p n = {a. a - p < n}"

text \<open>A range that does not run past the end of the address space.\<close>

definition no_wrap :: "addr \<Rightarrow> usize \<Rightarrow> bool" where
  "no_wrap p n \<longleftrightarrow> unat p + unat n \<le> 2 ^ 64"

lemma in_span_iff:
  assumes "no_wrap p n"
  shows "a \<in> span p n \<longleftrightarrow> unat p \<le> unat a \<and> unat a < unat p + unat n"
  using assms unat_64_less [of a] unat_64_less [of p]
  by (auto simp: span_def no_wrap_def word_less_nat_alt unat_sub_if')

lemma span_base: "n \<noteq> 0 \<Longrightarrow> p \<in> span p n"
  by (simp add: span_def word_gt_0)

lemma span_disjoint_iff:
  assumes "no_wrap p n" "no_wrap q k" "n \<noteq> 0" "k \<noteq> 0"
  shows "span p n \<inter> span q k = {} \<longleftrightarrow>
    unat p + unat n \<le> unat q \<or> unat q + unat k \<le> unat p"
proof
  assume *: "span p n \<inter> span q k = {}"
  have "p \<in> span p n" "q \<in> span q k" using assms by (auto intro: span_base)
  with * have "p \<notin> span q k" "q \<notin> span p n" by auto
  then show "unat p + unat n \<le> unat q \<or> unat q + unat k \<le> unat p"
    by (auto simp: in_span_iff assms)
next
  assume "unat p + unat n \<le> unat q \<or> unat q + unat k \<le> unat p"
  then show "span p n \<inter> span q k = {}"
    by (auto simp: in_span_iff assms)
qed

lemma span_disjointI:
  assumes "no_wrap p n" "no_wrap q k"
    and "unat p + unat n \<le> unat q \<or> unat q + unat k \<le> unat p"
  shows "span p n \<inter> span q k = {}"
  using assms by (auto simp: in_span_iff)

lemma span_subset:
  assumes "no_wrap p n" "no_wrap q k"
    and "unat q \<le> unat p" "unat p + unat n \<le> unat q + unat k"
  shows "span p n \<subseteq> span q k"
  using assms by (auto simp: in_span_iff)

lemma span_mono: "n \<le> k \<Longrightarrow> span p n \<subseteq> span p k"
  by (auto simp: span_def)

section \<open>Memory\<close>

text \<open>Bytes are read and written little-endian, as on the targets the crate supports first.\<close>

type_synonym mem = "addr \<Rightarrow> u8"

definition same_on :: "addr set \<Rightarrow> mem \<Rightarrow> mem \<Rightarrow> bool" where
  "same_on S m m' \<longleftrightarrow> (\<forall>a \<in> S. m' a = m a)"

text \<open>\<open>core::ptr::write_bytes(p, v, n)\<close> and \<open>core::ptr::copy_nonoverlapping(src, dst, n)\<close>.\<close>

definition write_bytes :: "mem \<Rightarrow> addr \<Rightarrow> u8 \<Rightarrow> usize \<Rightarrow> mem" where
  "write_bytes m p v n = (\<lambda>a. if a - p < n then v else m a)"

definition copy_nonoverlapping :: "mem \<Rightarrow> addr \<Rightarrow> addr \<Rightarrow> usize \<Rightarrow> mem" where
  "copy_nonoverlapping m src dst n = (\<lambda>a. if a - dst < n then m (src + (a - dst)) else m a)"

definition write_list :: "mem \<Rightarrow> addr \<Rightarrow> u8 list \<Rightarrow> mem" where
  "write_list m p bs = (\<lambda>a. if a - p < word_of_nat (length bs) then bs ! unat (a - p) else m a)"

definition read_list :: "mem \<Rightarrow> addr \<Rightarrow> nat \<Rightarrow> u8 list" where
  "read_list m p k = map (\<lambda>i. m (p + word_of_nat i)) [0..<k]"

fun le_bytes :: "nat \<Rightarrow> 'w::len word \<Rightarrow> u8 list" where
  "le_bytes 0 w = []"
| "le_bytes (Suc k) w = ucast w # le_bytes k (drop_bit 8 w)"

fun of_le_bytes :: "u8 list \<Rightarrow> 'w::len word" where
  "of_le_bytes [] = 0"
| "of_le_bytes (b # bs) = ucast b OR push_bit 8 (of_le_bytes bs)"

definition read_u32 :: "mem \<Rightarrow> addr \<Rightarrow> u32" where
  "read_u32 m p = of_le_bytes (read_list m p 4)"

definition write_u32 :: "mem \<Rightarrow> addr \<Rightarrow> u32 \<Rightarrow> mem" where
  "write_u32 m p v = write_list m p (le_bytes 4 v)"

definition read_u64 :: "mem \<Rightarrow> addr \<Rightarrow> u64" where
  "read_u64 m p = of_le_bytes (read_list m p 8)"

definition write_u64 :: "mem \<Rightarrow> addr \<Rightarrow> u64 \<Rightarrow> mem" where
  "write_u64 m p v = write_list m p (le_bytes 8 v)"

lemma same_on_refl [simp]: "same_on S m m"
  by (simp add: same_on_def)

lemma same_on_trans: "same_on S m m' \<Longrightarrow> same_on S m' m'' \<Longrightarrow> same_on S m m''"
  by (simp add: same_on_def)

lemma same_on_mono: "same_on T m m' \<Longrightarrow> S \<subseteq> T \<Longrightarrow> same_on S m m'"
  by (auto simp: same_on_def)

lemma length_le_bytes [simp]: "length (le_bytes k w) = k"
  by (induction k w rule: le_bytes.induct) auto

lemma length_read_list [simp]: "length (read_list m p k) = k"
  by (simp add: read_list_def)

lemma of_le_bytes_le_bytes: "of_le_bytes (le_bytes k w) = take_bit (8 * k) (w :: 'w::len word)"
proof (induction k w rule: le_bytes.induct)
  case (1 w)
  then show ?case by simp
next
  case (2 k w)
  have "ucast (ucast w :: u8) OR push_bit 8 (take_bit (8 * k) (drop_bit 8 w)) =
        take_bit (8 * Suc k) w"
    by (rule bit_word_eqI)
      (auto simp: bit_simps le_diff_conv less_diff_conv dest: bit_imp_le_length)
  then show ?case by (simp add: "2.IH")
qed

lemma read_write_list:
  assumes "length bs < 2 ^ 64"
  shows "read_list (write_list m p bs) p (length bs) = bs"
proof (rule nth_equalityI)
  fix i assume "i < length (read_list (write_list m p bs) p (length bs))"
  then have i: "i < length bs" by simp
  then have "unat (word_of_nat i :: addr) = i"
    using assms by (simp add: unat_word_of_nat)
  moreover have "(word_of_nat i :: addr) < word_of_nat (length bs)"
    using i assms by (simp add: word_less_nat_alt unat_word_of_nat)
  ultimately show "read_list (write_list m p bs) p (length bs) ! i = bs ! i"
    using i by (simp add: read_list_def write_list_def)
qed simp

lemma write_list_other [frame_simps]:
  "a \<notin> span p (word_of_nat (length bs)) \<Longrightarrow> write_list m p bs a = m a"
  by (simp add: write_list_def span_def)

lemma write_bytes_other [frame_simps]: "a \<notin> span p n \<Longrightarrow> write_bytes m p v n a = m a"
  by (simp add: write_bytes_def span_def)

lemma write_bytes_in: "a \<in> span p n \<Longrightarrow> write_bytes m p v n a = v"
  by (simp add: write_bytes_def span_def)

lemma copy_other [frame_simps]: "a \<notin> span dst n \<Longrightarrow> copy_nonoverlapping m src dst n a = m a"
  by (simp add: copy_nonoverlapping_def span_def)

lemma copy_in:
  "a \<in> span dst n \<Longrightarrow> copy_nonoverlapping m src dst n a = m (src + (a - dst))"
  by (simp add: copy_nonoverlapping_def span_def)

lemma write_u32_other [frame_simps]: "a \<notin> span p 4 \<Longrightarrow> write_u32 m p v a = m a"
  by (simp add: write_u32_def write_list_other)

lemma write_u64_other [frame_simps]: "a \<notin> span p 8 \<Longrightarrow> write_u64 m p v a = m a"
  by (simp add: write_u64_def write_list_other)

lemma read_list_cong:
  assumes "same_on (span p (word_of_nat k)) m m'" "k < 2 ^ 64"
  shows "read_list m' p k = read_list m p k"
proof -
  have "p + word_of_nat i \<in> span p (word_of_nat k)" if "i < k" for i
    using that assms(2) by (simp add: span_def word_less_nat_alt unat_word_of_nat)
  then show ?thesis
    using assms(1) by (auto simp: read_list_def same_on_def)
qed

lemma read_u32_cong: "same_on (span p 4) m m' \<Longrightarrow> read_u32 m' p = read_u32 m p"
  using read_list_cong [of p 4 m m'] by (simp add: read_u32_def)

lemma read_u64_cong: "same_on (span p 8) m m' \<Longrightarrow> read_u64 m' p = read_u64 m p"
  using read_list_cong [of p 8 m m'] by (simp add: read_u64_def)

lemma read_write_u32 [simp]: "read_u32 (write_u32 m p v) p = v"
proof -
  have "read_list (write_list m p (le_bytes 4 v)) p 4 = le_bytes 4 v"
    using read_write_list [of "le_bytes 4 v" m p] by simp
  then show ?thesis
    using take_bit_word_eq_self [of 32 v]
    by (simp add: read_u32_def write_u32_def of_le_bytes_le_bytes)
qed

lemma read_write_u64 [simp]: "read_u64 (write_u64 m p v) p = v"
proof -
  have "read_list (write_list m p (le_bytes 8 v)) p 8 = le_bytes 8 v"
    using read_write_list [of "le_bytes 8 v" m p] by simp
  then show ?thesis
    using take_bit_word_eq_self [of 64 v]
    by (simp add: read_u64_def write_u64_def of_le_bytes_le_bytes)
qed

end
