(* ===== verification/NonZero_Layout.thy ===== *)
theory NonZero_Layout
  imports Rust_Prelude
begin

text \<open>
  \<open>forge-alloc-core/src/traits/non_zero_layout.rs\<close>: the layout every allocator of the crate
  takes, a non-zero size with a power-of-two alignment. \<open>valid_layout\<close> is the type's invariant;
  the lemmas show that every constructor establishes it and that the rounding of \<open>pad_to_align\<close>
  neither overflows nor leaves the bound \<open>isize::MAX\<close>.
\<close>

record layout =
  lay_size :: usize
  lay_align :: usize

datatype layout_error = LayoutError

text \<open>\<open>core::alloc::Layout\<close>, and the size and alignment the compiler gives a type.\<close>

record std_layout =
  std_size :: usize
  std_align :: usize

record type_layout =
  ty_size :: usize
  ty_align :: usize

section \<open>Constructors and accessors\<close>

definition nzl_new :: "usize \<Rightarrow> usize \<Rightarrow> layout_error + layout" where
  "nzl_new sz align =
     (if \<not> is_pow2 align then Inl LayoutError
      else let max = isize_max - (align - 1)
           in if sz > max then Inl LayoutError
              else Inr \<lparr>lay_size = sz, lay_align = align\<rparr>)"

definition from_size_align :: "usize \<Rightarrow> usize \<Rightarrow> layout_error + layout" where
  "from_size_align sz align =
     (if sz = 0 then Inl LayoutError
      else if align = 0 then Inl LayoutError
      else nzl_new sz align)"

definition for_type :: "type_layout \<Rightarrow> layout option" where
  "for_type T =
     (if ty_size T = 0 then None
      else if ty_align T = 0 then None
      else case nzl_new (ty_size T) (ty_align T) of Inr l \<Rightarrow> Some l | Inl _ \<Rightarrow> None)"

definition pad_to_align :: "layout \<Rightarrow> layout" where
  "pad_to_align l =
     (let align = lay_align l;
          padded = (lay_size l + align - 1) AND NOT (align - 1);
          sz = (if padded \<noteq> 0 then padded else lay_size l)
      in \<lparr>lay_size = sz, lay_align = lay_align l\<rparr>)"

definition array_layout :: "type_layout \<Rightarrow> usize \<Rightarrow> layout option" where
  "array_layout T n =
     (case for_type T of None \<Rightarrow> None
      | Some elem \<Rightarrow>
          let padded = pad_to_align elem
          in case checked_mul (lay_size padded) n of None \<Rightarrow> None
             | Some tot \<Rightarrow>
                 if tot = 0 then None
                 else case nzl_new tot (lay_align padded) of Inr l \<Rightarrow> Some l | Inl _ \<Rightarrow> None)"

definition to_layout :: "layout \<Rightarrow> std_layout" where
  "to_layout l = \<lparr>std_size = lay_size l, std_align = lay_align l\<rparr>"

definition try_from_layout :: "std_layout \<Rightarrow> layout_error + layout" where
  "try_from_layout v = from_size_align (std_size v) (std_align v)"

section \<open>The invariant\<close>

definition valid_layout :: "layout \<Rightarrow> bool" where
  "valid_layout l \<longleftrightarrow> lay_size l \<noteq> 0 \<and> is_pow2 (lay_align l) \<and>
     unat (lay_size l) + (unat (lay_align l) - 1) \<le> 2 ^ 63 - 1"

text \<open>What the compiler guarantees of every type's size and alignment.\<close>

definition type_ok :: "type_layout \<Rightarrow> bool" where
  "type_ok T \<longleftrightarrow> is_pow2 (ty_align T) \<and> unat (ty_align T) dvd unat (ty_size T) \<and>
     unat (ty_size T) + (unat (ty_align T) - 1) \<le> 2 ^ 63 - 1"

lemma valid_layoutD:
  assumes "valid_layout l"
  shows "lay_size l \<noteq> 0" "0 < unat (lay_size l)" "is_pow2 (lay_align l)"
    "0 < unat (lay_align l)" "unat (lay_size l) < 2 ^ 63"
  using assms is_pow2_pos [of "lay_align l"]
  by (auto simp: valid_layout_def unat_gt_0)

lemma layout_error_eq [simp]: "(e :: layout_error) = LayoutError"
  by (cases e) simp

lemma unat_isize_max: "unat isize_max = 2 ^ 63 - 1"
  by (simp add: isize_max_def)

lemma unat_layout_bound:
  assumes "is_pow2 a"
  shows "unat (isize_max - (a - 1)) = 2 ^ 63 - 1 - (unat a - 1)"
proof -
  have "a - 1 \<le> isize_max"
    using is_pow2_le [OF assms] is_pow2_pos [OF assms]
    by (simp add: word_le_nat_alt unat_minus_one_pow2 [OF assms] unat_isize_max)
  then show ?thesis
    by (simp add: unat_sub unat_minus_one_pow2 [OF assms] unat_isize_max)
qed

lemma nzl_new_eq:
  "nzl_new sz align =
     (if is_pow2 align \<and> unat sz + (unat align - 1) \<le> 2 ^ 63 - 1
      then Inr \<lparr>lay_size = sz, lay_align = align\<rparr> else Inl LayoutError)"
proof (cases "is_pow2 align")
  case True
  have "unat align - 1 \<le> 2 ^ 63 - 1"
    using is_pow2_le [OF True] by simp
  then have "sz > isize_max - (align - 1) \<longleftrightarrow> \<not> unat sz + (unat align - 1) \<le> 2 ^ 63 - 1"
    using unat_layout_bound [OF True] by (auto simp: word_less_nat_alt)
  then show ?thesis
    using True by (simp add: nzl_new_def Let_def)
qed (simp add: nzl_new_def)

lemma from_size_align_Inr:
  "from_size_align s a = Inr l \<longleftrightarrow>
     valid_layout l \<and> lay_size l = s \<and> lay_align l = a"
  by (cases l) (auto simp: from_size_align_def nzl_new_eq valid_layout_def dest: is_pow2_nz)

lemma from_size_align_valid:
  "valid_layout l \<Longrightarrow> from_size_align (lay_size l) (lay_align l) = Inr l"
  by (simp add: from_size_align_Inr)

lemma try_from_to_layout: "valid_layout l \<Longrightarrow> try_from_layout (to_layout l) = Inr l"
  by (simp add: try_from_layout_def to_layout_def from_size_align_valid)

lemma for_type_Some:
  "for_type T = Some l \<longleftrightarrow> valid_layout l \<and> lay_size l = ty_size T \<and> lay_align l = ty_align T"
  by (cases l) (auto simp: for_type_def nzl_new_eq valid_layout_def dest: is_pow2_nz split: if_splits)

section \<open>Padding\<close>

lemma pad_to_align_eq:
  assumes "valid_layout l"
  shows "lay_size (pad_to_align l) = align_down (lay_size l + (lay_align l - 1)) (lay_align l)"
    and "unat (lay_size l + (lay_align l - 1)) = unat (lay_size l) + (unat (lay_align l) - 1)"
proof -
  note v = valid_layoutD [OF assms]
  have b: "unat (lay_size l) + (unat (lay_align l) - 1) \<le> 2 ^ 63 - 1"
    using assms by (simp add: valid_layout_def)
  show u: "unat (lay_size l + (lay_align l - 1)) = unat (lay_size l) + (unat (lay_align l) - 1)"
    using b by (simp add: unat_plus_if' unat_minus_one_pow2 v)
  let ?d = "align_down (lay_size l + (lay_align l - 1)) (lay_align l)"
  have "unat (lay_size l) + (unat (lay_align l) - 1) < unat ?d + unat (lay_align l)"
    using align_down_gt [OF v(3), of "lay_size l + (lay_align l - 1)"] u by simp
  then have "0 < unat ?d" using v by linarith
  then have nz: "?d \<noteq> 0" by auto
  have eq: "lay_size l + lay_align l - 1 = lay_size l + (lay_align l - 1)"
    by simp
  show "lay_size (pad_to_align l) = ?d"
    using nz unfolding pad_to_align_def Let_def align_down_def eq by simp
qed

lemma pad_to_align_align [simp]: "lay_align (pad_to_align l) = lay_align l"
  by (simp add: pad_to_align_def Let_def)

lemma pad_to_align_bounds:
  assumes "valid_layout l"
  shows "unat (lay_size l) \<le> unat (lay_size (pad_to_align l))"
    "unat (lay_size (pad_to_align l)) < unat (lay_size l) + unat (lay_align l)"
    "unat (lay_align l) dvd unat (lay_size (pad_to_align l))"
proof -
  note v = valid_layoutD [OF assms] and p = pad_to_align_eq [OF assms]
  show "unat (lay_align l) dvd unat (lay_size (pad_to_align l))"
    using align_down_dvd [OF v(3)] p(1) by simp
  show "unat (lay_size l) \<le> unat (lay_size (pad_to_align l))"
    "unat (lay_size (pad_to_align l)) < unat (lay_size l) + unat (lay_align l)"
    using align_down_gt [OF v(3), of "lay_size l + (lay_align l - 1)"]
      align_down_le [OF v(3), of "lay_size l + (lay_align l - 1)"] p v(4)
    by auto
qed

text \<open>
  The \<open>debug_assert!\<close> of the source: padding never leaves the bound that \<open>new\<close> checks. The
  bound \<open>2 ^ 63 - 1 - (align - 1)\<close> is a multiple of the alignment, so rounding up a smaller
  size stays below it.
\<close>

lemma pad_to_align_valid:
  assumes "valid_layout l"
  shows "valid_layout (pad_to_align l)"
proof -
  note v = valid_layoutD [OF assms] and b = pad_to_align_bounds [OF assms]
  let ?a = "unat (lay_align l)" and ?s = "unat (lay_size (pad_to_align l))"
  obtain k where k: "k < 64" "?a = 2 ^ k"
    using v(3) by (rule is_pow2E)
  have d: "?a dvd (2 ^ 63 :: nat)"
    unfolding k(2) by (rule le_imp_power_dvd) (use k(1) in simp)
  have "unat (lay_size l) + (?a - 1) \<le> 2 ^ 63 - 1"
    using assms by (simp add: valid_layout_def)
  then have "?s < 2 ^ 63" using b(2) v(4) by simp
  then obtain q where q: "(2 ^ 63 :: nat) = ?s + ?a * q" and "q \<noteq> 0"
    using dvd_diff_nat [OF d b(3)]
    by (metis add_diff_inverse_nat dvdE less_imp_le_nat linorder_not_less mult_0_right
        add.right_neutral less_irrefl)
  then have "?a \<le> ?a * q" by (cases q) auto
  then have "?s + ?a \<le> 2 ^ 63" using q by linarith
  moreover have "lay_size (pad_to_align l) \<noteq> 0" using b(1) v(2) by auto
  ultimately show ?thesis
    using v(3,4) by (simp add: valid_layout_def)
qed

lemma array_layout_Some:
  assumes "array_layout T n = Some l"
  shows "valid_layout l" "lay_align l = ty_align T"
    "\<exists>elem. for_type T = Some elem \<and>
       unat (lay_size l) = unat (lay_size (pad_to_align elem)) * unat n"
proof -
  obtain elem tot where e: "for_type T = Some elem"
    and t: "checked_mul (lay_size (pad_to_align elem)) n = Some tot" "tot \<noteq> 0"
    and l: "nzl_new tot (lay_align elem) = Inr l"
    using assms by (auto simp: array_layout_def Let_def split: option.splits if_splits sum.splits)
  have "valid_layout elem" "lay_align elem = ty_align T"
    using e by (auto simp: for_type_Some)
  have l': "l = \<lparr>lay_size = tot, lay_align = lay_align elem\<rparr>"
    "is_pow2 (lay_align elem)" "unat tot + (unat (lay_align elem) - 1) \<le> 2 ^ 63 - 1"
    using l by (auto simp: nzl_new_eq split: if_splits)
  then show "valid_layout l" "lay_align l = ty_align T"
    using t \<open>lay_align elem = ty_align T\<close> by (auto simp: valid_layout_def)
  show "\<exists>elem. for_type T = Some elem \<and>
       unat (lay_size l) = unat (lay_size (pad_to_align elem)) * unat n"
    using e checked_mul_unat [OF t(1)] l' by auto
qed

lemma array_layout_iff:
  "array_layout T n = Some l \<longleftrightarrow>
     (\<exists>elem. for_type T = Some elem \<and> valid_layout l \<and> lay_align l = lay_align elem \<and>
        unat (lay_size l) = unat (lay_size (pad_to_align elem)) * unat n)"
proof
  assume "array_layout T n = Some l"
  from array_layout_Some [OF this] show "\<exists>elem. for_type T = Some elem \<and> valid_layout l \<and>
      lay_align l = lay_align elem \<and>
      unat (lay_size l) = unat (lay_size (pad_to_align elem)) * unat n"
    by (auto simp: for_type_Some)
next
  assume "\<exists>elem. for_type T = Some elem \<and> valid_layout l \<and> lay_align l = lay_align elem \<and>
      unat (lay_size l) = unat (lay_size (pad_to_align elem)) * unat n"
  then obtain elem where e: "for_type T = Some elem" "valid_layout l" "lay_align l = lay_align elem"
    "unat (lay_size l) = unat (lay_size (pad_to_align elem)) * unat n" by blast
  have "lay_size (pad_to_align elem) * n = lay_size l"
    unfolding word_unat_eq_iff
    using unsigned_less [of "lay_size l", where ?'a = nat] by (simp add: unat_word_ariths flip: e(4))
  moreover have "unat (lay_size (pad_to_align elem)) * unat n < 2 ^ 64"
    using unsigned_less [of "lay_size l", where ?'a = nat] by (simp add: e(4))
  ultimately show "array_layout T n = Some l"
    using e valid_layoutD(1) [OF e(2)]
    by (cases l) (auto simp: array_layout_def Let_def checked_mul_def nzl_new_eq valid_layout_def)
qed

end
