(* ===== verification/Alloc_Traits.thy ===== *)
theory Alloc_Traits
  imports NonZero_Layout
begin

text \<open>
  \<open>forge-alloc-core/src/traits/allocator.rs\<close>, \<open>fixed_range.rs\<close> and \<open>os_backed.rs\<close>. A trait is
  a record of its methods over the implementor's state, and an \<open>impl\<close> of it is a value of that
  record; a generic wrapper \<open>W<I>\<close> is a function from the record of \<open>I\<close> to the record of \<open>W<I>\<close>,
  so the type-level composition of the crate is function application here. Methods take \<open>&self\<close>
  and mutate through cells; they are modelled as functions on the implementor's state and the
  memory.

  The second half states the safety contract of the traits (the numbered invariants of the
  trait's documentation) as locales over a ghost set of live blocks.
\<close>

section \<open>The traits\<close>

text \<open>\<open>NonNull<[u8]>\<close>: the address of a block and the length of the slice.\<close>

type_synonym block = "addr \<times> usize"

type_synonym 'a alloc_fun = "layout \<Rightarrow> 'a \<times> mem \<Rightarrow> block res \<times> 'a \<times> mem"
type_synonym 'a dealloc_fun = "addr \<Rightarrow> layout \<Rightarrow> 'a \<times> mem \<Rightarrow> ('a \<times> mem) outcome"
type_synonym 'a resize_fun =
  "addr \<Rightarrow> layout \<Rightarrow> layout \<Rightarrow> 'a \<times> mem \<Rightarrow> (block res \<times> 'a \<times> mem) outcome"

record 'a allocator =
  al_allocate :: "'a alloc_fun"
  al_allocate_zeroed :: "'a alloc_fun"
  al_deallocate :: "'a dealloc_fun"
  al_grow :: "'a resize_fun"
  al_shrink :: "'a resize_fun"
  al_reset :: "'a \<Rightarrow> unit res \<times> 'a"
  al_usable_size :: "'a \<Rightarrow> addr \<Rightarrow> layout \<Rightarrow> usize option"
  al_capacity_bytes :: "'a \<Rightarrow> usize option"
  al_corruption_events :: "'a \<Rightarrow> u64"

record 'b fixed_range =
  fr_base :: "'b \<Rightarrow> addr"
  fr_size :: "'b \<Rightarrow> usize"
  fr_commit :: "'b \<Rightarrow> usize \<Rightarrow> usize \<Rightarrow> unit res \<times> 'b"

record protect_flags =
  pf_read :: bool
  pf_write :: bool
  pf_exec :: bool

definition PROT_FLAGS_NONE :: protect_flags where
  "PROT_FLAGS_NONE = \<lparr>pf_read = False, pf_write = False, pf_exec = False\<rparr>"

definition PROT_FLAGS_RW :: protect_flags where
  "PROT_FLAGS_RW = \<lparr>pf_read = True, pf_write = True, pf_exec = False\<rparr>"

definition PROT_FLAGS_READ :: protect_flags where
  "PROT_FLAGS_READ = \<lparr>pf_read = True, pf_write = False, pf_exec = False\<rparr>"

definition PROT_FLAGS_RX :: protect_flags where
  "PROT_FLAGS_RX = \<lparr>pf_read = True, pf_write = False, pf_exec = True\<rparr>"

text \<open>\<open>OsBacked\<close> without its supertrait: the page-level operations.\<close>

record 'b os_backed =
  os_base_ptr :: "'b \<Rightarrow> addr"
  os_region_size :: "'b \<Rightarrow> usize"
  os_release_pages :: "addr \<Rightarrow> usize \<Rightarrow> 'b \<times> mem \<Rightarrow> 'b \<times> mem"
  os_protect :: "addr \<Rightarrow> usize \<Rightarrow> protect_flags \<Rightarrow> 'b \<times> mem \<Rightarrow> 'b \<times> mem"

section \<open>Default method bodies\<close>

definition default_allocate_zeroed :: "'a alloc_fun \<Rightarrow> 'a alloc_fun" where
  "default_allocate_zeroed alloc lay s =
     (case alloc lay s of
        (Inl e, s') \<Rightarrow> (Inl e, s')
      | (Inr (p, n), a, m) \<Rightarrow> (Inr (p, n), a, write_bytes m p 0 (lay_size lay)))"

definition default_grow :: "'a alloc_fun \<Rightarrow> 'a dealloc_fun \<Rightarrow> 'a resize_fun" where
  "default_grow alloc dealloc p old new s =
     (case alloc new s of
        (Inl e, s') \<Rightarrow> Done (Inl e, s')
      | (Inr (q, n), a, m) \<Rightarrow>
          outcome_bind (dealloc p old (a, copy_nonoverlapping m p q (lay_size old)))
            (\<lambda>s''. Done (Inr (q, n), s'')))"

definition default_shrink :: "'a alloc_fun \<Rightarrow> 'a dealloc_fun \<Rightarrow> 'a resize_fun" where
  "default_shrink alloc dealloc p old new s =
     (case alloc new s of
        (Inl e, s') \<Rightarrow> Done (Inl e, s')
      | (Inr (q, n), a, m) \<Rightarrow>
          outcome_bind (dealloc p old (a, copy_nonoverlapping m p q (lay_size new)))
            (\<lambda>s''. Done (Inr (q, n), s'')))"

text \<open>Only the free of the old block, once its contents are copied, matters to a resize.\<close>

lemma default_resize_cong:
  assumes "\<And>r a m m'. alloc new s = (r, a, m) \<Longrightarrow> dealloc p old (a, m') = dealloc' p old (a, m')"
  shows "default_grow alloc dealloc p old new s = default_grow alloc dealloc' p old new s"
    "default_shrink alloc dealloc p old new s = default_shrink alloc dealloc' p old new s"
  using assms by (auto simp: default_grow_def default_shrink_def split: sum.splits prod.splits)

definition default_reset :: "'a \<Rightarrow> unit res \<times> 'a" where
  "default_reset a = (Inl AllocError, a)"

definition default_usable_size :: "'a \<Rightarrow> addr \<Rightarrow> layout \<Rightarrow> usize option" where
  "default_usable_size a p lay = None"

definition default_capacity_bytes :: "'a \<Rightarrow> usize option" where
  "default_capacity_bytes a = None"

definition default_corruption_events :: "'a \<Rightarrow> u64" where
  "default_corruption_events a = 0"

definition default_commit :: "'b \<Rightarrow> usize \<Rightarrow> usize \<Rightarrow> unit res \<times> 'b" where
  "default_commit b off len = (Inr (), b)"

definition fr_contains :: "'b fixed_range \<Rightarrow> 'b \<Rightarrow> addr \<Rightarrow> bool" where
  "fr_contains R b p \<longleftrightarrow> p - fr_base R b < fr_size R b"

text \<open>
  The blanket impl for \<open>&A\<close>: every method forwards to the referent except \<open>reset\<close>, which needs
  \<open>&mut self\<close> and keeps its default.
\<close>

definition ref_allocator :: "'a allocator \<Rightarrow> 'a allocator" where
  "ref_allocator A =
     \<lparr>al_allocate = al_allocate A,
      al_allocate_zeroed = al_allocate_zeroed A,
      al_deallocate = al_deallocate A,
      al_grow = al_grow A,
      al_shrink = al_shrink A,
      al_reset = default_reset,
      al_usable_size = al_usable_size A,
      al_capacity_bytes = al_capacity_bytes A,
      al_corruption_events = al_corruption_events A\<rparr>"

lemma fr_contains_span: "fr_contains R b p \<longleftrightarrow> p \<in> span (fr_base R b) (fr_size R b)"
  by (simp add: fr_contains_def span_def)

section \<open>Live blocks\<close>

text \<open>
  A live block is its address, the layout it was requested with and its usable extent, the
  length of the slice the allocator returned.
\<close>

type_synonym live = "(addr \<times> layout \<times> usize) set"

fun blk :: "addr \<times> layout \<times> usize \<Rightarrow> addr set" where
  "blk (p, lay, n) = span p n"

definition footprint :: "live \<Rightarrow> addr set" where
  "footprint L = (\<Union>b \<in> L. blk b)"

definition block_ok :: "layout \<Rightarrow> addr \<Rightarrow> usize \<Rightarrow> bool" where
  "block_ok lay p n \<longleftrightarrow> valid_layout lay \<and> p \<noteq> 0 \<and> no_wrap p n \<and> lay_size lay \<le> n \<and>
     unat (lay_align lay) dvd unat p"

definition live_ok :: "live \<Rightarrow> bool" where
  "live_ok L \<longleftrightarrow> (\<forall>p lay n. (p, lay, n) \<in> L \<longrightarrow> block_ok lay p n) \<and>
     (\<forall>b \<in> L. \<forall>c \<in> L. b \<noteq> c \<longrightarrow> blk b \<inter> blk c = {})"

lemma footprint_empty [simp]: "footprint {} = {}"
  by (simp add: footprint_def)

lemma footprint_insert [simp]: "footprint (insert (p, lay, n) L) = span p n \<union> footprint L"
  by (simp add: footprint_def)

lemma footprint_Un [simp]: "footprint (L \<union> K) = footprint L \<union> footprint K"
  by (auto simp: footprint_def)

lemma footprint_mono: "K \<subseteq> L \<Longrightarrow> footprint K \<subseteq> footprint L"
  unfolding footprint_def by (rule UN_mono) auto

lemma span_footprint: "(p, lay, n) \<in> L \<Longrightarrow> span p n \<subseteq> footprint L"
  unfolding footprint_def using UN_upper [of "(p, lay, n)" L blk] by simp

lemma block_okD:
  assumes "block_ok lay p n"
  shows "valid_layout lay" "p \<noteq> 0" "no_wrap p n" "unat (lay_size lay) \<le> unat n"
    "unat (lay_align lay) dvd unat p" "0 < unat n" "n \<noteq> 0"
  using assms valid_layoutD(2) [of lay]
  by (auto simp: block_ok_def word_le_nat_alt)

lemma block_ok_prefix:
  assumes "block_ok lay p n"
  shows "no_wrap p (lay_size lay)" "span p (lay_size lay) \<subseteq> span p n"
proof -
  have le: "lay_size lay \<le> n" using assms by (simp add: block_ok_def)
  then show "span p (lay_size lay) \<subseteq> span p n" by (rule span_mono)
  have "unat p + unat n \<le> 2 ^ 64" using assms by (simp add: block_ok_def no_wrap_def)
  then show "no_wrap p (lay_size lay)"
    using le unfolding no_wrap_def word_le_nat_alt by linarith
qed

lemma fresh_block: "block_ok lay p n \<Longrightarrow> span p n \<inter> footprint K = {} \<Longrightarrow> (p, lay, n) \<notin> K"
  using span_base [of n p] span_footprint [of p lay n K] by (auto dest: block_okD)

lemma live_ok_empty [simp]: "live_ok {}"
  by (simp add: live_ok_def)

lemma live_okD: "live_ok L \<Longrightarrow> (p, lay, n) \<in> L \<Longrightarrow> block_ok lay p n"
  unfolding live_ok_def by blast

lemma live_ok_disjoint:
  assumes "live_ok L" "(p, lay, n) \<in> L" "(q, lay', k) \<in> L" "(p, lay, n) \<noteq> (q, lay', k)"
  shows "span p n \<inter> span q k = {}"
proof -
  have "blk (p, lay, n) \<inter> blk (q, lay', k) = {}"
    using assms unfolding live_ok_def by blast
  then show ?thesis by simp
qed

lemma live_ok_same_addr:
  assumes "live_ok L" "(p, lay, n) \<in> L" "(p, lay', k) \<in> L"
  shows "lay' = lay" "k = n"
proof -
  have "p \<in> span p n" "p \<in> span p k"
    using live_okD [OF assms(1,2)] live_okD [OF assms(1,3)]
    by (auto dest!: block_okD(7) intro: span_base)
  then have "span p n \<inter> span p k \<noteq> {}" by auto
  then have "(p, lay, n) = (p, lay', k)"
    using live_ok_disjoint [OF assms] by auto
  then show "lay' = lay" "k = n" by auto
qed

text \<open>What an allocator is told of a block when it is freed: the address and the layout.\<close>

fun block_key :: "addr \<times> layout \<times> usize \<Rightarrow> addr \<times> layout" where
  "block_key (p, lay, n) = (p, lay)"

lemma live_ok_inj_key: "live_ok L \<Longrightarrow> inj_on block_key L"
  by (rule inj_onI) (auto dest: live_ok_same_addr)

text \<open>Freeing a block removes exactly its key.\<close>

lemma block_key_remove:
  assumes "live_ok L" "K \<subseteq> L" "(p, lay, n) \<in> K"
  shows "block_key ` (K - {(p, lay, n)}) = block_key ` K - {(p, lay)}"
  using inj_on_image_set_diff [OF inj_on_subset [OF live_ok_inj_key [OF assms(1)] assms(2)],
      of K "{(p, lay, n)}"] assms(3) by simp

lemma live_ok_mono: "live_ok L \<Longrightarrow> K \<subseteq> L \<Longrightarrow> live_ok K"
  unfolding live_ok_def by blast

lemma live_ok_insert:
  assumes "live_ok L" "block_ok lay p n" "span p n \<inter> footprint L = {}"
  shows "live_ok (insert (p, lay, n) L)"
proof -
  have d: "blk (p, lay, n) \<inter> blk b = {}" if "b \<in> L" for b
    using assms(3) that by (auto simp: footprint_def)
  have "blk b \<inter> blk c = {}" if "b \<in> insert (p, lay, n) L" "c \<in> insert (p, lay, n) L" "b \<noteq> c" for b c
    using that d assms(1) unfolding live_ok_def by (metis Int_commute insertE)
  moreover have "block_ok lay' q k" if "(q, lay', k) \<in> insert (p, lay, n) L" for q lay' k
    using that assms(1,2) by (auto dest: live_okD)
  ultimately show ?thesis
    unfolding live_ok_def by blast
qed

lemma footprint_remove:
  assumes "live_ok L" "(p, lay, n) \<in> L"
  shows "footprint L = span p n \<union> footprint (L - {(p, lay, n)})"
    and "span p n \<inter> footprint (L - {(p, lay, n)}) = {}"
proof -
  show "footprint L = span p n \<union> footprint (L - {(p, lay, n)})"
    using assms(2) footprint_insert [of p lay n "L - {(p, lay, n)}"] by (simp add: insert_absorb)
  have "blk (p, lay, n) \<inter> blk c = {}" if "c \<in> L - {(p, lay, n)}" for c
    using that assms unfolding live_ok_def by blast
  then show "span p n \<inter> footprint (L - {(p, lay, n)}) = {}"
    by (auto simp: footprint_def)
qed

text \<open>Union of live sets with separate footprints.\<close>

lemma live_ok_UN:
  assumes "\<And>i. i \<in> I \<Longrightarrow> live_ok (Ls i)"
    and "\<And>i j. i \<in> I \<Longrightarrow> j \<in> I \<Longrightarrow> i \<noteq> j \<Longrightarrow> footprint (Ls i) \<inter> footprint (Ls j) = {}"
  shows "live_ok (\<Union>i \<in> I. Ls i)"
proof -
  have "blk b \<inter> blk c = {}" if "i \<in> I" "b \<in> Ls i" "j \<in> I" "c \<in> Ls j" "b \<noteq> c" for b c i j
  proof (cases "i = j")
    case True
    then show ?thesis using assms(1) that unfolding live_ok_def by blast
  next
    case False
    then show ?thesis using assms(2) [OF that(1,3)] that unfolding footprint_def by blast
  qed
  moreover have "block_ok lay p n" if "i \<in> I" "(p, lay, n) \<in> Ls i" for p lay n i
    using assms(1) [OF that(1)] that(2) by (rule live_okD)
  ultimately show ?thesis unfolding live_ok_def by blast
qed

lemma footprint_UN: "footprint (\<Union>i \<in> I. Ls i) = (\<Union>i \<in> I. footprint (Ls i))"
  by (auto simp: footprint_def)

lemma live_ok_Un:
  assumes "live_ok L" "live_ok K" "footprint L \<inter> footprint K = {}"
  shows "live_ok (L \<union> K)"
proof -
  have "live_ok (\<Union>b \<in> UNIV. if b then L else K)"
    by (rule live_ok_UN) (use assms in \<open>auto split: if_splits\<close>)
  moreover have "(\<Union>b \<in> UNIV. if b then L else K) = L \<union> K" by (auto simp: UNIV_bool)
  ultimately show ?thesis by simp
qed

section \<open>The contract\<close>

text \<open>What a call that issues a block promises, given the live blocks \<open>L\<close> before it.\<close>

definition alloc_post ::
  "('a \<Rightarrow> mem \<Rightarrow> live \<Rightarrow> bool) \<Rightarrow> live \<Rightarrow> layout \<Rightarrow> mem \<Rightarrow> block res \<times> 'a \<times> mem \<Rightarrow> bool" where
  "alloc_post ainv L lay m r \<longleftrightarrow>
     (case r of
        (Inl e, s', m') \<Rightarrow> ainv s' m' L \<and> same_on (footprint L) m m'
      | (Inr (p, n), s', m') \<Rightarrow>
          block_ok lay p n \<and> span p n \<inter> footprint L = {} \<and>
          ainv s' m' (insert (p, lay, n) L) \<and> same_on (footprint L) m m')"

definition zeroed_post :: "layout \<Rightarrow> block res \<times> 'a \<times> mem \<Rightarrow> bool" where
  "zeroed_post lay r \<longleftrightarrow>
     (case r of
        (Inl e, s', m') \<Rightarrow> True
      | (Inr (p, n), s', m') \<Rightarrow> (\<forall>a \<in> span p (lay_size lay). m' a = 0))"

definition dealloc_post ::
  "('a \<Rightarrow> mem \<Rightarrow> live \<Rightarrow> bool) \<Rightarrow> live \<Rightarrow> mem \<Rightarrow> ('a \<times> mem) outcome \<Rightarrow> bool" where
  "dealloc_post ainv K m r \<longleftrightarrow>
     (case r of Panicked \<Rightarrow> False
      | Done (s', m') \<Rightarrow> ainv s' m' K \<and> same_on (footprint K) m m')"

text \<open>\<open>keep\<close> is the number of bytes a resize carries over from the old block at \<open>p\<close>.\<close>

definition resize_post ::
  "('a \<Rightarrow> mem \<Rightarrow> live \<Rightarrow> bool) \<Rightarrow> live \<Rightarrow> live \<Rightarrow> addr \<Rightarrow> usize \<Rightarrow> layout \<Rightarrow> mem \<Rightarrow>
     (block res \<times> 'a \<times> mem) outcome \<Rightarrow> bool" where
  "resize_post ainv L K p keep new m r \<longleftrightarrow>
     (case r of
        Panicked \<Rightarrow> False
      | Done (Inl e, s', m') \<Rightarrow> ainv s' m' L \<and> same_on (footprint L) m m'
      | Done (Inr (q, n), s', m') \<Rightarrow>
          block_ok new q n \<and> span q n \<inter> footprint K = {} \<and>
          ainv s' m' (insert (q, new, n) K) \<and> same_on (footprint K) m m' \<and>
          (\<forall>i < keep. m' (q + i) = m (p + i)))"

locale allocator_core =
  fixes alloc :: "'a alloc_fun"
    and dealloc :: "'a dealloc_fun"
    and usable :: "'a \<Rightarrow> addr \<Rightarrow> layout \<Rightarrow> usize option"
    and ainv :: "'a \<Rightarrow> mem \<Rightarrow> live \<Rightarrow> bool"
  assumes inv_live: "ainv s m L \<Longrightarrow> live_ok L"
    and user_write: "ainv s m L \<Longrightarrow> same_on (- footprint L) m m' \<Longrightarrow> ainv s m' L"
    and allocate: "ainv s m L \<Longrightarrow> valid_layout lay \<Longrightarrow> alloc_post ainv L lay m (alloc lay (s, m))"
    and deallocate: "ainv s m L \<Longrightarrow> (p, lay, n) \<in> L \<Longrightarrow>
      dealloc_post ainv (L - {(p, lay, n)}) m (dealloc p lay (s, m))"
    and usable_size: "ainv s m L \<Longrightarrow> (p, lay, n) \<in> L \<Longrightarrow> usable s p lay = Some k \<Longrightarrow>
      lay_size lay \<le> k \<and> k \<le> n"
begin

lemma inv_block: "ainv s m L \<Longrightarrow> (p, lay, n) \<in> L \<Longrightarrow> block_ok lay p n"
  by (rule live_okD [OF inv_live])

text \<open>Writing inside a live block keeps the invariant.\<close>

lemma write_inside:
  assumes "ainv s m L" "S \<subseteq> footprint L" "\<And>a. a \<notin> S \<Longrightarrow> m' a = m a"
  shows "ainv s m' L"
  using assms by (intro user_write [OF assms(1)]) (auto simp: same_on_def)

lemma default_zeroed:
  assumes "ainv s m L" "valid_layout lay"
  shows "alloc_post ainv L lay m (default_allocate_zeroed alloc lay (s, m))"
    and "zeroed_post lay (default_allocate_zeroed alloc lay (s, m))"
proof -
  have post: "alloc_post ainv L lay m (alloc lay (s, m))"
    by (rule allocate [OF assms])
  have "alloc_post ainv L lay m (default_allocate_zeroed alloc lay (s, m)) \<and>
        zeroed_post lay (default_allocate_zeroed alloc lay (s, m))"
  proof (cases "alloc lay (s, m)")
    case (fields r s' m')
    show ?thesis
    proof (cases r)
      case (Inl e)
      with fields post show ?thesis
        by (simp add: default_allocate_zeroed_def alloc_post_def zeroed_post_def)
    next
      case (Inr b)
      obtain p n where b: "b = (p, n)" by (cases b)
      let ?m = "write_bytes m' p 0 (lay_size lay)"
      have ok: "block_ok lay p n" "span p n \<inter> footprint L = {}"
        "ainv s' m' (insert (p, lay, n) L)" "same_on (footprint L) m m'"
        using post fields Inr b by (auto simp: alloc_post_def)
      have sub: "span p (lay_size lay) \<subseteq> span p n"
        by (rule block_ok_prefix(2) [OF ok(1)])
      have "ainv s' ?m (insert (p, lay, n) L)"
        by (rule write_inside [OF ok(3), of "span p (lay_size lay)"])
          (use sub in \<open>auto simp: write_bytes_other\<close>)
      moreover have "same_on (footprint L) m ?m"
        using ok(2,4) sub by (auto simp: same_on_def write_bytes_def span_def)
      ultimately show ?thesis
        using fields Inr b ok
        by (simp add: default_allocate_zeroed_def alloc_post_def zeroed_post_def write_bytes_in)
    qed
  qed
  then show "alloc_post ainv L lay m (default_allocate_zeroed alloc lay (s, m))"
    and "zeroed_post lay (default_allocate_zeroed alloc lay (s, m))" by auto
qed

text \<open>Allocate, copy \<open>keep\<close> bytes, free: the common shape of the default resizes.\<close>

lemma relocate:
  assumes ainv: "ainv s m L" and mem: "(p, old, n) \<in> L" and new: "valid_layout new"
    and keep: "keep \<le> lay_size old" "keep \<le> lay_size new"
  shows "resize_post ainv L (L - {(p, old, n)}) p keep new m
    (case alloc new (s, m) of
       (Inl e, s') \<Rightarrow> Done (Inl e, s')
     | (Inr (q, k), a, m1) \<Rightarrow>
         outcome_bind (dealloc p old (a, copy_nonoverlapping m1 p q keep))
           (\<lambda>s''. Done (Inr (q, k), s'')))"
proof -
  have post: "alloc_post ainv L new m (alloc new (s, m))"
    by (rule allocate [OF ainv new])
  obtain r s1 m1 where a: "alloc new (s, m) = (r, s1, m1)"
    by (cases "alloc new (s, m)") auto
  show ?thesis
  proof (cases r)
    case (Inl e)
    with a post show ?thesis by (simp add: alloc_post_def resize_post_def)
  next
    case (Inr b)
    obtain q k where b: "b = (q, k)" by (cases b)
    let ?L1 = "insert (q, new, k) L" and ?K = "L - {(p, old, n)}"
    let ?m2 = "copy_nonoverlapping m1 p q keep"
    have ok: "block_ok new q k" "span q k \<inter> footprint L = {}" "ainv s1 m1 ?L1"
      "same_on (footprint L) m m1"
      using post a Inr b by (auto simp: alloc_post_def)
    have sub: "span q keep \<subseteq> span q k"
      using keep(2) ok(1) by (intro span_mono) (auto simp: block_ok_def)
    have inv2: "ainv s1 ?m2 ?L1"
      by (rule write_inside [OF ok(3), of "span q keep"]) (use sub in \<open>auto simp: copy_other\<close>)
    have neq: "(q, new, k) \<noteq> (p, old, n)"
    proof
      assume "(q, new, k) = (p, old, n)"
      then show False
        using ok(1,2) span_footprint [OF mem] span_base [of n p] by (auto dest: block_okD(7))
    qed
    have post2: "dealloc_post ainv (?L1 - {(p, old, n)}) ?m2 (dealloc p old (s1, ?m2))"
      by (rule deallocate [OF inv2]) (simp add: mem)
    have L1: "?L1 - {(p, old, n)} = insert (q, new, k) ?K" using neq by auto
    obtain s3 m3 where d: "dealloc p old (s1, ?m2) = Done (s3, m3)"
      and inv3: "ainv s3 m3 (insert (q, new, k) ?K)"
      and same3: "same_on (span q k \<union> footprint ?K) ?m2 m3"
      using post2 unfolding L1
      by (auto simp: dealloc_post_def split: outcome.splits prod.splits)
    have K: "footprint ?K \<subseteq> footprint L" by (rule footprint_mono) auto
    have "same_on (footprint ?K) m m3"
      using same3 ok(2,4) K sub by (auto simp: same_on_def copy_nonoverlapping_def span_def)
    moreover have "m3 (q + i) = m (p + i)" if "i < keep" for i
    proof -
      have "q + i \<in> span q keep" using that by (simp add: span_def)
      then have "m3 (q + i) = m1 (p + i)"
        using same3 sub by (auto simp: same_on_def copy_in)
      moreover have "p + i \<in> span p n"
        using that keep(1) inv_block [OF ainv mem]
        by (auto simp: span_def block_ok_def)
      ultimately show ?thesis
        using ok(4) span_footprint [OF mem] by (auto simp: same_on_def)
    qed
    ultimately show ?thesis
      using a Inr b d inv3 ok(1,2) K by (auto simp: resize_post_def)
  qed
qed

lemma default_grow:
  assumes "ainv s m L" "(p, old, n) \<in> L" "valid_layout new" "lay_size old \<le> lay_size new"
  shows "resize_post ainv L (L - {(p, old, n)}) p (lay_size old) new m
    (default_grow alloc dealloc p old new (s, m))"
  unfolding default_grow_def by (rule relocate [OF assms(1-3)]) (use assms(4) in auto)

lemma default_shrink:
  assumes "ainv s m L" "(p, old, n) \<in> L" "valid_layout new" "lay_size new \<le> lay_size old"
  shows "resize_post ainv L (L - {(p, old, n)}) p (lay_size new) new m
    (default_shrink alloc dealloc p old new (s, m))"
  unfolding default_shrink_def by (rule relocate [OF assms(1-3)]) (use assms(4) in auto)

end

locale allocator_contract =
  allocator_core "al_allocate A" "al_deallocate A" "al_usable_size A" ainv
  for A :: "'a allocator" and ainv :: "'a \<Rightarrow> mem \<Rightarrow> live \<Rightarrow> bool" +
  assumes allocate_zeroed: "ainv s m L \<Longrightarrow> valid_layout lay \<Longrightarrow>
      alloc_post ainv L lay m (al_allocate_zeroed A lay (s, m)) \<and>
      zeroed_post lay (al_allocate_zeroed A lay (s, m))"
    and grow: "ainv s m L \<Longrightarrow> (p, old, n) \<in> L \<Longrightarrow> valid_layout new \<Longrightarrow>
      lay_size old \<le> lay_size new \<Longrightarrow> lay_align new = lay_align old \<Longrightarrow>
      resize_post ainv L (L - {(p, old, n)}) p (lay_size old) new m (al_grow A p old new (s, m))"
    and shrink: "ainv s m L \<Longrightarrow> (p, old, n) \<in> L \<Longrightarrow> valid_layout new \<Longrightarrow>
      lay_size new \<le> lay_size old \<Longrightarrow> lay_align new = lay_align old \<Longrightarrow>
      resize_post ainv L (L - {(p, old, n)}) p (lay_size new) new m (al_shrink A p old new (s, m))"
    and reset: "ainv s m L \<Longrightarrow> al_reset A s = (r, s') \<Longrightarrow>
      ainv s' m (case r of Inl e \<Rightarrow> L | Inr u \<Rightarrow> {})"

text \<open>An implementor that keeps the default bodies owes only the core.\<close>

lemma allocator_contractI:
  assumes "allocator_core (al_allocate A) (al_deallocate A) (al_usable_size A) ainv"
    and "al_allocate_zeroed A = default_allocate_zeroed (al_allocate A)"
    and "al_grow A = default_grow (al_allocate A) (al_deallocate A)"
    and "al_shrink A = default_shrink (al_allocate A) (al_deallocate A)"
    and "al_reset A = default_reset"
  shows "allocator_contract A ainv"
  using assms
  by (auto simp: allocator_contract_def allocator_contract_axioms_def default_reset_def
      allocator_core.default_zeroed allocator_core.default_grow allocator_core.default_shrink)

text \<open>
  \<open>FixedRange\<close>: a stable non-null range that \<open>commit\<close> does not move. The predicate \<open>rinv\<close> is the
  backing's own invariant.
\<close>

locale fixed_range_contract =
  fixes R :: "'b fixed_range" and rinv :: "'b \<Rightarrow> bool"
  assumes base_nonnull: "rinv b \<Longrightarrow> fr_base R b \<noteq> 0"
    and range_no_wrap: "rinv b \<Longrightarrow> no_wrap (fr_base R b) (fr_size R b)"
    and commit_frame: "rinv b \<Longrightarrow> fr_commit R b off len = (r, b') \<Longrightarrow>
      rinv b' \<and> fr_base R b' = fr_base R b \<and> fr_size R b' = fr_size R b"

text \<open>
  An allocator that is also a \<open>FixedRange\<close> issues only blocks inside its range, and no
  operation moves the range.
\<close>

locale ranged_contract =
  allocator_contract A ainv + fixed_range_contract R "\<lambda>s. \<exists>m L. ainv s m L"
  for A :: "'a allocator" and ainv :: "'a \<Rightarrow> mem \<Rightarrow> live \<Rightarrow> bool" and R :: "'a fixed_range" +
  assumes in_range: "ainv s m L \<Longrightarrow> footprint L \<subseteq> span (fr_base R s) (fr_size R s)"
    and allocate_range: "ainv s m L \<Longrightarrow> valid_layout lay \<Longrightarrow>
      al_allocate A lay (s, m) = (r, s', m') \<Longrightarrow>
      fr_base R s' = fr_base R s \<and> fr_size R s' = fr_size R s"
    and deallocate_range: "ainv s m L \<Longrightarrow> (p, lay, n) \<in> L \<Longrightarrow>
      al_deallocate A p lay (s, m) = Done (s', m') \<Longrightarrow>
      fr_base R s' = fr_base R s \<and> fr_size R s' = fr_size R s"

end
