(* ===== verification/Bump_Carve.thy ===== *)
theory Bump_Carve
  imports Alloc_Traits
begin

text \<open>
  The cursor arithmetic that \<open>BumpArena\<close>, \<open>StackAlloc\<close>, \<open>SharedBumpArena\<close>, \<open>InlineBacked\<close>,
  \<open>MmapBacked\<close> and \<open>GuardPage\<close> repeat line for line: round the absolute address of the cursor up
  to the requested alignment, add the size, and compare with the capacity, every step checked.
  \<open>bump_carve\<close> is that computation; \<open>bump_live\<close> is the invariant the cursor keeps.
\<close>

definition bump_carve :: "addr \<Rightarrow> usize \<Rightarrow> usize \<Rightarrow> usize \<Rightarrow> usize \<Rightarrow> (usize \<times> usize) res" where
  "bump_carve base capacity cur align sz =
     (case checked_add base cur of None \<Rightarrow> Inl AllocError
      | Some raw \<Rightarrow>
          case align_up_checked raw align of None \<Rightarrow> Inl AllocError
          | Some aligned \<Rightarrow>
              let aligned_off = aligned - base
              in case checked_add aligned_off sz of None \<Rightarrow> Inl AllocError
                 | Some end_off \<Rightarrow>
                     if end_off > capacity then Inl AllocError
                     else Inr (aligned_off, end_off))"

definition bump_live :: "addr \<Rightarrow> usize \<Rightarrow> live \<Rightarrow> bool" where
  "bump_live base cur L \<longleftrightarrow> live_ok L \<and>
     (\<forall>p lay n. (p, lay, n) \<in> L \<longrightarrow>
        unat base \<le> unat p \<and> unat p + unat n \<le> unat base + unat cur)"

lemma bump_carve_Inr:
  assumes "bump_carve base capacity cur align sz = Inr (off, fin)" "is_pow2 align"
  shows "unat (base + off) = unat base + unat off" "unat cur \<le> unat off"
    "unat fin = unat off + unat sz" "unat fin \<le> unat capacity"
    "unat align dvd unat (base + off)" "unat off < unat cur + unat align"
proof -
  obtain raw aligned where raw: "checked_add base cur = Some raw"
    and al: "align_up_checked raw align = Some aligned"
    and off: "off = aligned - base" and fin: "checked_add off sz = Some fin"
    and cap: "\<not> fin > capacity"
    using assms(1) by (auto simp: bump_carve_def Let_def split: option.splits if_splits)
  have r: "unat raw = unat base + unat cur" by (rule checked_add_unat [OF raw])
  note a = align_up_checkedD [OF al assms(2)]
  have bo: "base + off = aligned" by (simp add: off)
  have uo: "unat off = unat aligned - unat base"
    using a(1) r by (simp add: off unat_sub word_le_nat_alt)
  show "unat (base + off) = unat base + unat off" "unat cur \<le> unat off"
    "unat off < unat cur + unat align" "unat align dvd unat (base + off)"
    using a r uo by (auto simp: bo)
  show "unat fin = unat off + unat sz" by (rule checked_add_unat [OF fin])
  show "unat fin \<le> unat capacity" using cap by (simp add: word_less_nat_alt)
qed

text \<open>
  The search never fails while an aligned block fits: an error means that the first aligned
  address after the cursor leaves too little room (or that rounding it up runs off the address
  space).
\<close>

lemma bump_carve_complete:
  assumes "no_wrap base capacity" "is_pow2 align"
    and room: "unat base + unat cur + (unat align - 1) < 2 ^ 64"
    and fit: "unat align dvd q" "unat base + unat cur \<le> q"
      "q + unat sz \<le> unat base + unat capacity"
  shows "\<exists>off fin. bump_carve base capacity cur align sz = Inr (off, fin) \<and>
    unat (base + off) \<le> q"
proof -
  obtain raw where raw: "checked_add base cur = Some raw"
    using room by (auto simp: checked_add_def)
  have r: "unat raw = unat base + unat cur" by (rule checked_add_unat [OF raw])
  have "checked_add raw (align - 1) = Some (raw + (align - 1))"
    using room r by (simp add: checked_add_def unat_minus_one_pow2 [OF assms(2)])
  then obtain aligned where al: "align_up_checked raw align = Some aligned"
    by (simp add: align_up_checked_def)
  note a = align_up_checkedD [OF al assms(2)]
  have least: "unat aligned \<le> q"
    by (rule align_up_checked_least [OF al assms(2) fit(1)]) (use r fit(2) in simp)
  let ?off = "aligned - base"
  have uo: "unat ?off = unat aligned - unat base"
    using a(1) r by (simp add: unat_sub word_le_nat_alt)
  have sum: "unat ?off + unat sz \<le> unat capacity"
    using uo least fit(3) a(1) r by linarith
  then have "unat ?off + unat sz < 2 ^ 64"
    using unat_64_less [of capacity] by linarith
  then have "checked_add ?off sz = Some (?off + sz)" "unat (?off + sz) = unat ?off + unat sz"
    by (auto simp: checked_add_def unat_plus_if')
  then have "bump_carve base capacity cur align sz = Inr (?off, ?off + sz)"
    using raw al sum by (simp add: bump_carve_def Let_def word_less_nat_alt)
  then show ?thesis using least by auto
qed

lemma bump_live_empty [simp]: "bump_live base cur {}"
  by (simp add: bump_live_def)

lemma bump_live_mono: "bump_live base cur L \<Longrightarrow> K \<subseteq> L \<Longrightarrow> bump_live base cur K"
  unfolding bump_live_def using live_ok_mono by blast

lemma bump_live_span:
  assumes "bump_live base cur L" "no_wrap base cap" "unat cur \<le> unat cap"
  shows "footprint L \<subseteq> span base cap"
proof
  fix a assume "a \<in> footprint L"
  then obtain p lay n where b: "(p, lay, n) \<in> L" "a \<in> span p n"
    by (force simp: footprint_def)
  have "no_wrap p n" using assms(1) b(1) by (auto simp: bump_live_def dest: live_okD block_okD(3))
  then have "unat p \<le> unat a" "unat a < unat p + unat n"
    using b(2) by (auto simp: in_span_iff)
  moreover have "unat base \<le> unat p" "unat p + unat n \<le> unat base + unat cur"
    using assms(1) b(1) by (auto simp: bump_live_def)
  ultimately show "a \<in> span base cap"
    using assms(2,3) by (simp add: in_span_iff)
qed

text \<open>Everything past the cursor is disjoint from every live block.\<close>

lemma bump_live_fresh:
  assumes "bump_live base cur L" "no_wrap p n" "unat base + unat cur \<le> unat p"
  shows "span p n \<inter> footprint L = {}"
proof -
  have "span p n \<inter> blk b = {}" if "b \<in> L" for b
  proof -
    obtain q lay k where b: "b = (q, lay, k)" by (cases b)
    have "no_wrap q k" "unat q + unat k \<le> unat base + unat cur"
      using assms(1) that b by (auto simp: bump_live_def dest: live_okD block_okD(3))
    then show ?thesis
      using assms(2,3) b span_disjointI [of p n q k] by simp
  qed
  then show ?thesis by (auto simp: footprint_def)
qed

lemma bump_carve_live:
  assumes carve: "bump_carve base capacity cur (lay_align lay) (lay_size lay) = Inr (off, fin)"
    and lay: "valid_layout lay" and base: "base \<noteq> 0" "no_wrap base capacity"
    and live: "bump_live base cur L"
  shows "block_ok lay (base + off) (lay_size lay)"
    "span (base + off) (lay_size lay) \<inter> footprint L = {}"
    "bump_live base fin (insert (base + off, lay, lay_size lay) L)"
    "unat fin \<le> unat capacity"
proof -
  note v = valid_layoutD [OF lay] and c = bump_carve_Inr [OF carve v(3)]
  have nw: "no_wrap (base + off) (lay_size lay)"
    using c base(2) by (simp add: no_wrap_def)
  have "0 < unat base" using base(1) by (simp add: unat_gt_0)
  then have "base + off \<noteq> 0" using c(1) by (metis add_gr_0 less_irrefl unat_0)
  then show ok: "block_ok lay (base + off) (lay_size lay)"
    using lay nw c by (simp add: block_ok_def)
  show dis: "span (base + off) (lay_size lay) \<inter> footprint L = {}"
    by (rule bump_live_fresh [OF live nw]) (use c in simp)
  have "live_ok (insert (base + off, lay, lay_size lay) L)"
    using live ok dis by (simp add: live_ok_insert bump_live_def)
  then show "bump_live base fin (insert (base + off, lay, lay_size lay) L)"
    using live c unfolding bump_live_def by fastforce
  show "unat fin \<le> unat capacity" by (rule c(4))
qed

end
