(* ===== verification/Bump_Arena.thy ===== *)
theory Bump_Arena
  imports Bump_Carve
begin

text \<open>
  \<open>forge-alloc/src/layout/bump.rs\<close>: the bump arena over any \<open>FixedRange\<close> backing, its RAII scope
  and the no-op deallocator token. The arena caches only the capacity and the cursor; the base
  is asked of the backing at every call, as in the source.
\<close>

section \<open>State and operations\<close>

record 'b bump_arena =
  ba_backing :: 'b
  ba_capacity :: usize
  ba_cursor :: usize

definition bump_new :: "'b fixed_range \<Rightarrow> 'b \<Rightarrow> 'b bump_arena res" where
  "bump_new R backing =
     (let base_addr = fr_base R backing; sz = fr_size R backing
      in if sz = 0 then Inl AllocError
         else case checked_add base_addr sz of None \<Rightarrow> Inl AllocError
              | Some end_addr \<Rightarrow>
                  if end_addr = 0 then Inl AllocError
                  else Inr \<lparr>ba_backing = backing, ba_capacity = sz, ba_cursor = 0\<rparr>)"

definition bump_allocated :: "'b bump_arena \<Rightarrow> usize" where
  "bump_allocated a = ba_cursor a"

definition bump_capacity :: "'b bump_arena \<Rightarrow> usize" where
  "bump_capacity a = ba_capacity a"

definition bump_remaining :: "'b bump_arena \<Rightarrow> usize" where
  "bump_remaining a = bump_capacity a - bump_allocated a"

definition bump_reset :: "'b bump_arena \<Rightarrow> 'b bump_arena" where
  "bump_reset a = a\<lparr>ba_cursor := 0\<rparr>"

definition bump_rewind_to :: "usize \<Rightarrow> 'b bump_arena \<Rightarrow> 'b bump_arena" where
  "bump_rewind_to mark a = a\<lparr>ba_cursor := mark\<rparr>"

text \<open>
  Carve, commit the block's pages, publish the cursor, in that order; the memory is untouched.
\<close>

definition bump_reserve ::
  "'b fixed_range \<Rightarrow> usize \<Rightarrow> usize \<Rightarrow> 'b bump_arena \<Rightarrow> addr res \<times> 'b bump_arena" where
  "bump_reserve R align sz a =
     (let base = fr_base R (ba_backing a)
      in case bump_carve base (bump_capacity a) (ba_cursor a) align sz of
           Inl e \<Rightarrow> (Inl e, a)
         | Inr (aligned_off, end_off) \<Rightarrow>
             (case fr_commit R (ba_backing a) aligned_off sz of
                (Inl e, b) \<Rightarrow> (Inl e, a\<lparr>ba_backing := b\<rparr>)
              | (Inr _, b) \<Rightarrow>
                  (Inr (base + aligned_off), a\<lparr>ba_backing := b, ba_cursor := end_off\<rparr>)))"

definition bump_allocate :: "'b fixed_range \<Rightarrow> 'b bump_arena alloc_fun" where
  "bump_allocate R lay s =
     (case s of (a, m) \<Rightarrow>
        case bump_reserve R (lay_align lay) (lay_size lay) a of
          (Inl e, a') \<Rightarrow> (Inl e, a', m)
        | (Inr p, a') \<Rightarrow> (Inr (p, lay_size lay), a', m))"

definition bump_deallocate :: "'b bump_arena dealloc_fun" where
  "bump_deallocate p lay s = Done s"

text \<open>\<open>NonNull::dangling()\<close> is the address equal to the type's alignment.\<close>

definition bump_alloc_uninit ::
  "'b fixed_range \<Rightarrow> type_layout \<Rightarrow> 'b bump_arena \<Rightarrow> addr res \<times> 'b bump_arena" where
  "bump_alloc_uninit R T a =
     (if ty_size T = 0 then (Inr (ty_align T), a)
      else bump_reserve R (ty_align T) (ty_size T) a)"

text \<open>A value of type \<open>T\<close> is the list of its \<open>size_of::<T>()\<close> bytes.\<close>

definition bump_alloc ::
  "'b fixed_range \<Rightarrow> type_layout \<Rightarrow> u8 list \<Rightarrow> 'b bump_arena \<times> mem \<Rightarrow>
     addr res \<times> 'b bump_arena \<times> mem" where
  "bump_alloc R T value s =
     (case s of (a, m) \<Rightarrow>
        case bump_alloc_uninit R T a of
          (Inl e, a') \<Rightarrow> (Inl e, a', m)
        | (Inr p, a') \<Rightarrow> (Inr p, a', write_list m p value))"

text \<open>\<open>src\<close> is the source slice as the list of its elements' bytes; the result is the
  address and the element count.\<close>

definition bump_alloc_slice_copy ::
  "'b fixed_range \<Rightarrow> type_layout \<Rightarrow> u8 list list \<Rightarrow> 'b bump_arena \<times> mem \<Rightarrow>
     (addr \<times> nat) res \<times> 'b bump_arena \<times> mem" where
  "bump_alloc_slice_copy R T src s =
     (let n = length src
      in if n = 0 \<or> ty_size T = 0 then (Inr (ty_align T, n), s)
         else case array_layout T (word_of_nat n) of
                None \<Rightarrow> (Inl AllocError, s)
              | Some lay \<Rightarrow>
                  (case bump_allocate R lay s of
                     (Inl e, s') \<Rightarrow> (Inl e, s')
                   | (Inr (dst, k), a, m) \<Rightarrow> (Inr (dst, n), a, write_list m dst (concat src))))"

definition u8_layout :: type_layout where
  "u8_layout = \<lparr>ty_size = 1, ty_align = 1\<rparr>"

definition bump_alloc_str ::
  "'b fixed_range \<Rightarrow> u8 list \<Rightarrow> 'b bump_arena \<times> mem \<Rightarrow> (addr \<times> nat) res \<times> 'b bump_arena \<times> mem" where
  "bump_alloc_str R bytes s = bump_alloc_slice_copy R u8_layout (map (\<lambda>b. [b]) bytes) s"

definition bump_capacity_bytes :: "'b bump_arena \<Rightarrow> usize option" where
  "bump_capacity_bytes a = Some (bump_capacity a)"

text \<open>
  \<open>grow\<close> extends the block in place when it ends exactly at the cursor and the new end fits;
  otherwise it allocates and copies, leaving the old block to the next \<open>reset\<close>.
\<close>

definition bump_relocate :: "'b fixed_range \<Rightarrow> 'b bump_arena resize_fun" where
  "bump_relocate R p old new s =
     (case bump_allocate R new s of
        (Inl e, s') \<Rightarrow> Done (Inl e, s')
      | (Inr (dst, k), a, m) \<Rightarrow> Done (Inr (dst, k), a, copy_nonoverlapping m p dst (lay_size old)))"

definition bump_grow :: "'b fixed_range \<Rightarrow> 'b bump_arena resize_fun" where
  "bump_grow R p old new s =
     (case s of (a, m) \<Rightarrow>
        let off = p - fr_base R (ba_backing a)
        in if checked_add off (lay_size old) = Some (ba_cursor a)
           then case checked_add off (lay_size new) of
                  None \<Rightarrow> Done (Inl AllocError, s)
                | Some new_end \<Rightarrow>
                    if new_end \<le> bump_capacity a
                    then case fr_commit R (ba_backing a) off (lay_size new) of
                           (Inl e, b) \<Rightarrow> Done (Inl e, a\<lparr>ba_backing := b\<rparr>, m)
                         | (Inr _, b) \<Rightarrow>
                             Done (Inr (p, lay_size new),
                                   a\<lparr>ba_backing := b, ba_cursor := new_end\<rparr>, m)
                    else bump_relocate R p old new s
           else bump_relocate R p old new s)"

text \<open>The same in a debug build, where the two assertions on the layouts are checked.\<close>

definition bump_grow_debug :: "'b fixed_range \<Rightarrow> 'b bump_arena resize_fun" where
  "bump_grow_debug R p old new s =
     (if \<not> lay_size new \<ge> lay_size old then Panicked
      else if lay_align old \<noteq> lay_align new then Panicked
      else bump_grow R p old new s)"

definition bump_allocator :: "'b fixed_range \<Rightarrow> 'b bump_arena allocator" where
  "bump_allocator R =
     \<lparr>al_allocate = bump_allocate R,
      al_allocate_zeroed = default_allocate_zeroed (bump_allocate R),
      al_deallocate = bump_deallocate,
      al_grow = bump_grow R,
      al_shrink = default_shrink (bump_allocate R) bump_deallocate,
      al_reset = (\<lambda>a. (Inr (), bump_reset a)),
      al_usable_size = default_usable_size,
      al_capacity_bytes = bump_capacity_bytes,
      al_corruption_events = default_corruption_events\<rparr>"

definition bump_allocator_debug :: "'b fixed_range \<Rightarrow> 'b bump_arena allocator" where
  "bump_allocator_debug R = (bump_allocator R)\<lparr>al_grow := bump_grow_debug R\<rparr>"

definition bump_range :: "'b fixed_range \<Rightarrow> 'b bump_arena fixed_range" where
  "bump_range R =
     \<lparr>fr_base = (\<lambda>a. fr_base R (ba_backing a)),
      fr_size = bump_capacity,
      fr_commit = default_commit\<rparr>"

definition bump_os :: "'b os_backed \<Rightarrow> 'b bump_arena os_backed" where
  "bump_os B =
     \<lparr>os_base_ptr = (\<lambda>a. os_base_ptr B (ba_backing a)),
      os_region_size = (\<lambda>a. os_region_size B (ba_backing a)),
      os_release_pages = (\<lambda>p n (a, m). case os_release_pages B p n (ba_backing a, m) of
          (b, m') \<Rightarrow> (a\<lparr>ba_backing := b\<rparr>, m')),
      os_protect = (\<lambda>p n f (a, m). case os_protect B p n f (ba_backing a, m) of
          (b, m') \<Rightarrow> (a\<lparr>ba_backing := b\<rparr>, m'))\<rparr>"

text \<open>The deallocator token: \<open>deallocate\<close> does nothing and \<open>allocate\<close> always refuses.\<close>

definition bump_token_allocator :: "unit allocator" where
  "bump_token_allocator =
     (let alloc = (\<lambda>lay s. (Inl AllocError, s)); dealloc = (\<lambda>p lay s. Done s)
      in \<lparr>al_allocate = alloc,
          al_allocate_zeroed = default_allocate_zeroed alloc,
          al_deallocate = dealloc,
          al_grow = default_grow alloc dealloc,
          al_shrink = default_shrink alloc dealloc,
          al_reset = default_reset,
          al_usable_size = default_usable_size,
          al_capacity_bytes = default_capacity_bytes,
          al_corruption_events = default_corruption_events\<rparr>)"

lemmas bump_trait_simps [trait_simps] =
  bump_allocator_def allocator.simps bump_range_def fixed_range.simps

section \<open>The invariant\<close>

definition bump_inv ::
  "'b fixed_range \<Rightarrow> ('b \<Rightarrow> bool) \<Rightarrow> 'b bump_arena \<Rightarrow> mem \<Rightarrow> live \<Rightarrow> bool" where
  "bump_inv R rinv a m L \<longleftrightarrow> rinv (ba_backing a) \<and>
     ba_capacity a = fr_size R (ba_backing a) \<and> ba_cursor a \<le> ba_capacity a \<and>
     bump_live (fr_base R (ba_backing a)) (ba_cursor a) L"

context fixed_range_contract
begin

lemma bump_new_inv: "rinv b \<Longrightarrow> bump_new R b = Inr a \<Longrightarrow> bump_inv R rinv a m {}"
  by (auto simp: bump_new_def bump_inv_def Let_def split: option.splits if_splits)

lemma bump_reserve_cases:
  assumes "bump_inv R rinv a m L" "valid_layout lay"
    "bump_reserve R (lay_align lay) (lay_size lay) a = (r, a')"
  shows "fr_base R (ba_backing a') = fr_base R (ba_backing a) \<and> ba_capacity a' = ba_capacity a \<and>
    (case r of Inl e \<Rightarrow> bump_inv R rinv a' m L
     | Inr p \<Rightarrow> block_ok lay p (lay_size lay) \<and> span p (lay_size lay) \<inter> footprint L = {} \<and>
         bump_inv R rinv a' m (insert (p, lay, lay_size lay) L))"
proof -
  let ?base = "fr_base R (ba_backing a)"
  have i: "rinv (ba_backing a)" "ba_capacity a = fr_size R (ba_backing a)"
    "ba_cursor a \<le> ba_capacity a" "bump_live ?base (ba_cursor a) L"
    using assms(1) by (auto simp: bump_inv_def)
  note base = base_nonnull [OF i(1)] range_no_wrap [OF i(1), folded i(2)]
  show ?thesis
  proof (cases "bump_carve ?base (ba_capacity a) (ba_cursor a) (lay_align lay) (lay_size lay)")
    case (Inl e)
    then show ?thesis
      using assms by (auto simp: bump_reserve_def bump_capacity_def Let_def)
  next
    case (Inr x)
    obtain off fin where x: "x = (off, fin)" by (cases x)
    note carve = Inr [unfolded x]
    note c = bump_carve_live [OF carve assms(2) base i(4)]
    obtain cr b where cm: "fr_commit R (ba_backing a) off (lay_size lay) = (cr, b)"
      by (cases "fr_commit R (ba_backing a) off (lay_size lay)") auto
    note f = commit_frame [OF i(1) cm]
    show ?thesis
    proof (cases cr)
      case (Inl e)
      then show ?thesis
        using assms(3) carve cm f i
        by (auto simp: bump_reserve_def bump_capacity_def Let_def bump_inv_def)
    next
      case (Inr u)
      then show ?thesis
        using assms(3) carve cm f i c
        by (auto simp: bump_reserve_def bump_capacity_def Let_def bump_inv_def word_le_nat_alt)
    qed
  qed
qed

lemma bump_allocate_post:
  assumes "bump_inv R rinv a m L" "valid_layout lay"
  shows "alloc_post (bump_inv R rinv) L lay m (bump_allocate R lay (a, m))"
  using bump_reserve_cases [OF assms]
  by (cases "bump_reserve R (lay_align lay) (lay_size lay) a")
    (auto simp: alloc_post_def bump_allocate_def split: sum.splits)

lemma bump_inv_mono: "bump_inv R rinv a m L \<Longrightarrow> K \<subseteq> L \<Longrightarrow> bump_inv R rinv a m' K"
  by (auto simp: bump_inv_def intro: bump_live_mono)

lemma bump_core: "allocator_core (bump_allocate R) bump_deallocate default_usable_size (bump_inv R rinv)"
proof
  fix a m L assume "bump_inv R rinv a m L"
  then show "live_ok L" by (simp add: bump_inv_def bump_live_def)
next
  fix a m L m' assume "bump_inv R rinv a m L"
  then show "bump_inv R rinv a m' L" by (rule bump_inv_mono) simp
next
  fix a m L lay assume "bump_inv R rinv a m L" "valid_layout lay"
  then show "alloc_post (bump_inv R rinv) L lay m (bump_allocate R lay (a, m))"
    by (rule bump_allocate_post)
next
  fix a m L p lay n assume "bump_inv R rinv a m L"
  then show "dealloc_post (bump_inv R rinv) (L - {(p, lay, n)}) m (bump_deallocate p lay (a, m))"
    by (auto simp: dealloc_post_def bump_deallocate_def intro: bump_inv_mono)
qed (simp add: default_usable_size_def)

text \<open>A block that ends at the cursor is the last one: all others end before it.\<close>

lemma bump_last_block:
  assumes "bump_live base cur L" "(p, old, n) \<in> L" "unat p + unat (lay_size old) = unat base + unat cur"
  shows "lay_size old = n"
    and "(q, lay, k) \<in> L - {(p, old, n)} \<Longrightarrow> unat q + unat k \<le> unat p"
proof -
  have ok: "block_ok old p n" and le: "unat p + unat n \<le> unat base + unat cur" and live: "live_ok L"
    using assms(1,2) by (auto simp: bump_live_def dest: live_okD)
  then show "lay_size old = n"
    using assms(3) block_okD(4) [OF ok] by (simp add: word_unat_eq_iff)
  assume q: "(q, lay, k) \<in> L - {(p, old, n)}"
  then have okq: "block_ok lay q k" and leq: "unat q + unat k \<le> unat base + unat cur"
    using assms(1) by (auto simp: bump_live_def dest: live_okD)
  have "span p n \<inter> span q k = {}"
    using q live_ok_disjoint [OF live assms(2), of q lay k] by auto
  then have "unat p + unat n \<le> unat q \<or> unat q + unat k \<le> unat p"
    using ok okq by (simp add: span_disjoint_iff block_okD)
  then show "unat q + unat k \<le> unat p"
    using leq assms(3) \<open>lay_size old = n\<close> block_okD(6) [OF okq] by auto
qed

lemma bump_relocate_post:
  assumes "bump_inv R rinv a m L" "(p, old, n) \<in> L" "valid_layout new" "lay_size old \<le> lay_size new"
  shows "resize_post (bump_inv R rinv) L (L - {(p, old, n)}) p (lay_size old) new m
    (bump_relocate R p old new (a, m))"
proof -
  have post: "alloc_post (bump_inv R rinv) L new m (bump_allocate R new (a, m))"
    by (rule bump_allocate_post [OF assms(1,3)])
  obtain r a' m' where al: "bump_allocate R new (a, m) = (r, a', m')"
    by (cases "bump_allocate R new (a, m)") auto
  have m': "m' = m"
    using al by (auto simp: bump_allocate_def split: prod.splits sum.splits)
  show ?thesis
  proof (cases r)
    case (Inl e)
    then show ?thesis
      using post al m' by (simp add: bump_relocate_def resize_post_def alloc_post_def)
  next
    case (Inr b)
    obtain q k where b: "b = (q, k)" by (cases b)
    have ok: "block_ok new q k" "span q k \<inter> footprint L = {}"
      "bump_inv R rinv a' m (insert (q, new, k) L)"
      using post al Inr b m' by (auto simp: alloc_post_def)
    let ?m = "copy_nonoverlapping m p q (lay_size old)"
    have K: "footprint (L - {(p, old, n)}) \<subseteq> footprint L" by (rule footprint_mono) auto
    have sub: "span q (lay_size old) \<subseteq> span q k"
      using assms(4) ok(1) by (intro span_mono) (auto simp: block_ok_def)
    have "bump_inv R rinv a' ?m (insert (q, new, k) (L - {(p, old, n)}))"
      by (rule bump_inv_mono [OF ok(3)]) auto
    moreover have "same_on (footprint (L - {(p, old, n)})) m ?m"
      using ok(2) K sub by (auto simp: same_on_def copy_nonoverlapping_def span_def)
    ultimately show ?thesis
      using al Inr b m' ok(1,2) K
      by (auto simp: bump_relocate_def resize_post_def copy_nonoverlapping_def)
  qed
qed

lemma bump_grow_in_place:
  assumes inv: "bump_inv R rinv a m L" and mem: "(p, old, n) \<in> L"
    and new: "valid_layout new" "lay_align new = lay_align old" "lay_size old \<le> lay_size new"
    and off: "off = p - fr_base R (ba_backing a)"
    and last: "checked_add off (lay_size old) = Some (ba_cursor a)"
    and new_end: "checked_add off (lay_size new) = Some e" "e \<le> ba_capacity a"
    and backing: "rinv b" "fr_base R b = fr_base R (ba_backing a)" "fr_size R b = fr_size R (ba_backing a)"
  shows "block_ok new p (lay_size new)"
    "span p (lay_size new) \<inter> footprint (L - {(p, old, n)}) = {}"
    "bump_inv R rinv (a\<lparr>ba_backing := b, ba_cursor := e\<rparr>) m
       (insert (p, new, lay_size new) (L - {(p, old, n)}))"
proof -
  let ?base = "fr_base R (ba_backing a)" and ?K = "L - {(p, old, n)}"
  have i: "rinv (ba_backing a)" "ba_capacity a = fr_size R (ba_backing a)"
    "bump_live ?base (ba_cursor a) L"
    using inv by (auto simp: bump_inv_def)
  have ok: "block_ok old p n" and ge: "unat ?base \<le> unat p"
    using i(3) mem by (auto simp: bump_live_def dest: live_okD)
  have po: "unat p = unat ?base + unat off"
    using ge by (simp add: off unat_sub word_le_nat_alt)
  have "unat p + unat (lay_size old) = unat ?base + unat (ba_cursor a)"
    using checked_add_unat [OF last] po by simp
  note lb = bump_last_block [OF i(3) mem this]
  have ue: "unat p + unat (lay_size new) = unat ?base + unat e"
    using checked_add_unat [OF new_end(1)] po by simp
  moreover have "unat ?base + unat (ba_capacity a) \<le> 2 ^ 64"
    using range_no_wrap [OF i(1)] i(2) by (simp add: no_wrap_def)
  ultimately have nw: "no_wrap p (lay_size new)"
    using new_end(2) by (simp add: no_wrap_def word_le_nat_alt)
  then show ok': "block_ok new p (lay_size new)"
    using ok new by (simp add: block_ok_def)
  have liveK: "live_ok ?K" using i(3) by (auto simp: bump_live_def intro: live_ok_mono)
  have before: "bump_live ?base off ?K"
    using lb(2) i(3) po liveK unfolding bump_live_def by fastforce
  show dis: "span p (lay_size new) \<inter> footprint ?K = {}"
    by (rule bump_live_fresh [OF before nw]) (simp add: po)
  have "off \<le> e" using checked_add_unat [OF new_end(1)] by (simp add: word_le_nat_alt)
  then have "bump_live ?base e (insert (p, new, lay_size new) ?K)"
    using before ue ge live_ok_insert [OF liveK ok' dis] unfolding bump_live_def
    by (fastforce simp: word_le_nat_alt)
  then show "bump_inv R rinv (a\<lparr>ba_backing := b, ba_cursor := e\<rparr>) m
       (insert (p, new, lay_size new) ?K)"
    using i backing new_end(2) by (simp add: bump_inv_def)
qed

text \<open>The last block grows in place whenever there is room, whatever alignment is asked for.\<close>

lemma bump_grow_last:
  assumes inv: "bump_inv R rinv a m L" and mem: "(p, old, n) \<in> L"
    and last: "unat p + unat (lay_size old) = unat (fr_base R (ba_backing a)) + unat (ba_cursor a)"
    and room: "unat p + unat (lay_size new) \<le> unat (fr_base R (ba_backing a)) + unat (ba_capacity a)"
    and commit: "fst (fr_commit R (ba_backing a) (p - fr_base R (ba_backing a)) (lay_size new)) = Inr ()"
  shows "\<exists>a'. bump_grow R p old new (a, m) = Done (Inr (p, lay_size new), a', m)" "no_wrap p (lay_size new)"
proof -
  let ?base = "fr_base R (ba_backing a)" and ?off = "p - fr_base R (ba_backing a)"
  have i: "rinv (ba_backing a)" "ba_capacity a = fr_size R (ba_backing a)" "bump_live ?base (ba_cursor a) L"
    using inv by (auto simp: bump_inv_def)
  have ge: "unat ?base \<le> unat p" using i(3) mem by (auto simp: bump_live_def)
  then have po: "unat p = unat ?base + unat ?off" by (simp add: unat_sub word_le_nat_alt)
  have old: "checked_add ?off (lay_size old) = Some (ba_cursor a)"
    using last po unat_64_less [of "ba_cursor a"]
    by (auto simp: checked_add_def word_unat_eq_iff unat_plus_if')
  have e: "unat ?off + unat (lay_size new) \<le> unat (ba_capacity a)" using room po by simp
  then have sum: "unat (?off + lay_size new) = unat ?off + unat (lay_size new)"
    using unat_64_less [of "ba_capacity a"] by (simp add: unat_plus_if')
  have new: "checked_add ?off (lay_size new) = Some (?off + lay_size new)" "?off + lay_size new \<le> ba_capacity a"
    using e sum unat_64_less [of "ba_capacity a"] by (auto simp: checked_add_def word_le_nat_alt)
  show "\<exists>a'. bump_grow R p old new (a, m) = Done (Inr (p, lay_size new), a', m)"
    using old new commit by (cases "fr_commit R (ba_backing a) ?off (lay_size new)") (simp add: bump_grow_def bump_capacity_def Let_def)
  show "no_wrap p (lay_size new)"
    using room range_no_wrap [OF i(1)] i(2) by (simp add: no_wrap_def)
qed

lemma bump_grow_post:
  assumes inv: "bump_inv R rinv a m L" and mem: "(p, old, n) \<in> L"
    and new: "valid_layout new" "lay_size old \<le> lay_size new" "lay_align new = lay_align old"
  shows "resize_post (bump_inv R rinv) L (L - {(p, old, n)}) p (lay_size old) new m
    (bump_grow R p old new (a, m))"
proof -
  define off where "off = p - fr_base R (ba_backing a)"
  note reloc = bump_relocate_post [OF inv mem new(1,2)]
  have i: "rinv (ba_backing a)" using inv by (simp add: bump_inv_def)
  show ?thesis
  proof (cases "checked_add off (lay_size old) = Some (ba_cursor a)")
    case False
    then show ?thesis using reloc by (simp add: bump_grow_def Let_def off_def)
  next
    case last: True
    show ?thesis
    proof (cases "checked_add off (lay_size new)")
      case None
      then show ?thesis
        using last inv by (simp add: bump_grow_def Let_def off_def resize_post_def)
    next
      case (Some e)
      obtain r b where cm: "fr_commit R (ba_backing a) off (lay_size new) = (r, b)"
        by (cases "fr_commit R (ba_backing a) off (lay_size new)") auto
      note f = commit_frame [OF i cm]
      have fail: "bump_inv R rinv (a\<lparr>ba_backing := b\<rparr>) m L"
        using inv f by (auto simp: bump_inv_def)
      show ?thesis
      proof (cases "e \<le> ba_capacity a")
        case True
        note g = bump_grow_in_place [OF inv mem new(1,3,2) off_def last Some True]
        show ?thesis
          using last Some True cm fail g [of b] f
          by (cases r) (auto simp: bump_grow_def bump_capacity_def Let_def off_def resize_post_def)
      next
        case False
        then show ?thesis
          using last Some reloc by (simp add: bump_grow_def bump_capacity_def Let_def off_def)
      qed
    qed
  qed
qed

lemma bump_reset_inv: "bump_inv R rinv a m L \<Longrightarrow> bump_inv R rinv (bump_reset a) m {}"
  by (simp add: bump_inv_def bump_reset_def)

lemma bump_contract: "allocator_contract (bump_allocator R) (bump_inv R rinv)"
  using bump_core bump_grow_post allocator_core.default_zeroed [OF bump_core]
    allocator_core.default_shrink [OF bump_core]
  by (auto simp: allocator_contract_def allocator_contract_axioms_def bump_allocator_def
      intro: bump_reset_inv)

lemma bump_range_contract:
  "fixed_range_contract (bump_range R) (\<lambda>a. \<exists>m L. bump_inv R rinv a m L)"
  by unfold_locales
    (auto simp: bump_range_def default_commit_def bump_capacity_def bump_inv_def
      dest: base_nonnull range_no_wrap)

lemma bump_ranged: "ranged_contract (bump_allocator R) (bump_inv R rinv) (bump_range R)"
proof (rule ranged_contract.intro [OF bump_contract bump_range_contract], unfold_locales)
  fix a m L assume "bump_inv R rinv a m L"
  then show "footprint L \<subseteq> span (fr_base (bump_range R) a) (fr_size (bump_range R) a)"
    using range_no_wrap [of "ba_backing a"]
    by (auto simp: bump_inv_def bump_range_def bump_capacity_def word_le_nat_alt
        dest: bump_live_span)
next
  fix a m L lay r a' m'
  assume "bump_inv R rinv a m L" "valid_layout lay"
    "al_allocate (bump_allocator R) lay (a, m) = (r, a', m')"
  then show "fr_base (bump_range R) a' = fr_base (bump_range R) a \<and>
      fr_size (bump_range R) a' = fr_size (bump_range R) a"
    by (auto simp: bump_allocator_def bump_allocate_def bump_range_def bump_capacity_def
        split: prod.splits sum.splits dest: bump_reserve_cases)
qed (auto simp: bump_allocator_def bump_deallocate_def)

end

end
