(* ===== verification/Backings.thy ===== *)
theory Backings
  imports Bump_Carve
begin

text \<open>
  The memory sources of \<open>forge-alloc/src/backing/\<close> that do not talk to the operating system:
  \<open>InlineBacked<N>\<close> (\<open>inline.rs\<close>), \<open>StaticBacked\<close> (\<open>static_buf.rs\<close>), \<open>HeapBytes\<close> (\<open>heap.rs\<close>) and
  \<open>System\<close> (\<open>system.rs\<close>). The global allocator behind the last two is code outside the repository
  and stays a parameter.
\<close>

section \<open>InlineBacked\<close>

text \<open>
  The buffer is a field of the struct, so its address \<open>ib_addr\<close> is that of the struct and
  changes when the struct moves; \<open>N\<close> is the const generic.
\<close>

definition MAX_ALIGN :: usize where
  "MAX_ALIGN = 16"

record inline_backed =
  ib_addr :: addr
  ib_cursor :: usize

definition inline_new :: "addr \<Rightarrow> inline_backed" where
  "inline_new at = \<lparr>ib_addr = at, ib_cursor = 0\<rparr>"

definition inline_allocated :: "inline_backed \<Rightarrow> usize" where
  "inline_allocated b = ib_cursor b"

definition inline_remaining :: "usize \<Rightarrow> inline_backed \<Rightarrow> usize" where
  "inline_remaining N b = N - inline_allocated b"

definition inline_reset :: "inline_backed \<Rightarrow> inline_backed" where
  "inline_reset b = b\<lparr>ib_cursor := 0\<rparr>"

definition inline_allocate :: "usize \<Rightarrow> inline_backed alloc_fun" where
  "inline_allocate N lay s =
     (case s of (b, m) \<Rightarrow>
        let align = lay_align lay
        in if align > MAX_ALIGN then (Inl AllocError, b, m)
           else let sz = lay_size lay; cur = ib_cursor b; base = ib_addr b
                in case bump_carve base N cur align sz of
                     Inl e \<Rightarrow> (Inl e, b, m)
                   | Inr (aligned_off, end_off) \<Rightarrow>
                       (Inr (base + aligned_off, sz), b\<lparr>ib_cursor := end_off\<rparr>, m))"

definition inline_deallocate :: "inline_backed dealloc_fun" where
  "inline_deallocate p lay s = Done s"

definition inline_allocator :: "usize \<Rightarrow> inline_backed allocator" where
  "inline_allocator N =
     \<lparr>al_allocate = inline_allocate N,
      al_allocate_zeroed = default_allocate_zeroed (inline_allocate N),
      al_deallocate = inline_deallocate,
      al_grow = default_grow (inline_allocate N) inline_deallocate,
      al_shrink = default_shrink (inline_allocate N) inline_deallocate,
      al_reset = default_reset,
      al_usable_size = default_usable_size,
      al_capacity_bytes = (\<lambda>b. Some N),
      al_corruption_events = default_corruption_events\<rparr>"

definition inline_range :: "usize \<Rightarrow> inline_backed fixed_range" where
  "inline_range N =
     \<lparr>fr_base = ib_addr, fr_size = (\<lambda>b. N), fr_commit = default_commit\<rparr>"

text \<open>Where the struct may sit: a non-null address with room for the buffer.\<close>

definition inline_placed :: "usize \<Rightarrow> inline_backed \<Rightarrow> bool" where
  "inline_placed N b \<longleftrightarrow> ib_addr b \<noteq> 0 \<and> no_wrap (ib_addr b) N"

definition inline_inv :: "usize \<Rightarrow> inline_backed \<Rightarrow> mem \<Rightarrow> live \<Rightarrow> bool" where
  "inline_inv N b m L \<longleftrightarrow> inline_placed N b \<and> ib_cursor b \<le> N \<and>
     bump_live (ib_addr b) (ib_cursor b) L"

lemma inline_allocate_cases:
  assumes "inline_inv N b m L" "valid_layout lay"
  shows "alloc_post (inline_inv N) L lay m (inline_allocate N lay (b, m))"
    "ib_addr (fst (snd (inline_allocate N lay (b, m)))) = ib_addr b"
proof -
  have i: "ib_addr b \<noteq> 0" "no_wrap (ib_addr b) N" "ib_cursor b \<le> N"
    "bump_live (ib_addr b) (ib_cursor b) L"
    using assms(1) by (auto simp: inline_inv_def inline_placed_def)
  show "alloc_post (inline_inv N) L lay m (inline_allocate N lay (b, m))"
  proof (cases "bump_carve (ib_addr b) N (ib_cursor b) (lay_align lay) (lay_size lay)")
    case (Inl e)
    then show ?thesis using assms by (simp add: inline_allocate_def alloc_post_def Let_def)
  next
    case (Inr x)
    obtain off fin where x: "x = (off, fin)" by (cases x)
    note c = bump_carve_live [OF Inr [unfolded x] assms(2) i(1,2,4)]
    show ?thesis
      using assms(1) c i Inr x
      by (simp add: inline_allocate_def alloc_post_def Let_def inline_inv_def inline_placed_def
          word_le_nat_alt)
  qed
  show "ib_addr (fst (snd (inline_allocate N lay (b, m)))) = ib_addr b"
    by (auto simp: inline_allocate_def Let_def split: sum.splits)
qed

lemma inline_inv_mono: "inline_inv N b m L \<Longrightarrow> K \<subseteq> L \<Longrightarrow> inline_inv N b m' K"
  by (auto simp: inline_inv_def intro: bump_live_mono)

interpretation inline_core:
  allocator_core "inline_allocate N" inline_deallocate default_usable_size "inline_inv N"
proof
  fix b m L assume "inline_inv N b m L"
  then show "live_ok L" by (simp add: inline_inv_def bump_live_def)
next
  fix b m L m' assume "inline_inv N b m L"
  then show "inline_inv N b m' L" by (rule inline_inv_mono) simp
next
  fix b m L lay assume "inline_inv N b m L" "valid_layout lay"
  then show "alloc_post (inline_inv N) L lay m (inline_allocate N lay (b, m))"
    by (rule inline_allocate_cases)
next
  fix b m L p lay n assume "inline_inv N b m L"
  then show "dealloc_post (inline_inv N) (L - {(p, lay, n)}) m (inline_deallocate p lay (b, m))"
    by (auto simp: dealloc_post_def inline_deallocate_def intro: inline_inv_mono)
qed (simp add: default_usable_size_def)

lemma inline_contract: "allocator_contract (inline_allocator N) (inline_inv N)"
  by (rule allocator_contractI) (auto simp: inline_allocator_def inline_core.allocator_core_axioms)

interpretation inline_range: fixed_range_contract "inline_range N" "inline_placed N"
  by unfold_locales (auto simp: inline_range_def inline_placed_def default_commit_def)

interpretation inline: ranged_contract "inline_allocator N" "inline_inv N" "inline_range N"
proof (rule ranged_contract.intro [OF inline_contract])
  show "fixed_range_contract (inline_range N) (\<lambda>b. \<exists>m L. inline_inv N b m L)"
    by unfold_locales
      (auto simp: inline_range_def inline_inv_def inline_placed_def default_commit_def)
  show "ranged_contract_axioms (inline_allocator N) (inline_inv N) (inline_range N)"
  proof
    fix b m L assume "inline_inv N b m L"
    then show "footprint L \<subseteq> span (fr_base (inline_range N) b) (fr_size (inline_range N) b)"
      using bump_live_span
      by (fastforce simp: inline_inv_def inline_placed_def inline_range_def word_le_nat_alt)
  next
    fix b m L lay r b' m'
    assume "inline_inv N b m L" "valid_layout lay"
      "al_allocate (inline_allocator N) lay (b, m) = (r, b', m')"
    then show "fr_base (inline_range N) b' = fr_base (inline_range N) b \<and>
        fr_size (inline_range N) b' = fr_size (inline_range N) b"
      using inline_allocate_cases(2) [of N b m L lay]
      by (simp add: inline_allocator_def inline_range_def)
  qed (auto simp: inline_allocator_def inline_deallocate_def)
qed

section \<open>StaticBacked\<close>

text \<open>\<open>new\<close> takes a \<open>&mut [u8]\<close>: its address and length.\<close>

record static_backed =
  sb_ptr :: addr
  sb_len :: usize

definition static_new :: "addr \<times> usize \<Rightarrow> static_backed" where
  "static_new buf = \<lparr>sb_ptr = fst buf, sb_len = snd buf\<rparr>"

definition static_capacity :: "static_backed \<Rightarrow> usize" where
  "static_capacity b = sb_len b"

definition static_range :: "static_backed fixed_range" where
  "static_range = \<lparr>fr_base = sb_ptr, fr_size = sb_len, fr_commit = default_commit\<rparr>"

text \<open>What Rust guarantees of the slice the constructor is given.\<close>

definition static_ok :: "static_backed \<Rightarrow> bool" where
  "static_ok b \<longleftrightarrow> sb_ptr b \<noteq> 0 \<and> no_wrap (sb_ptr b) (sb_len b)"

interpretation static: fixed_range_contract static_range static_ok
  by unfold_locales (auto simp: static_range_def static_ok_def default_commit_def)

section \<open>The global allocator, HeapBytes and System\<close>

text \<open>
  \<open>allocator_api2::alloc::Global\<close>: the methods of the standard allocator trait over the heap's
  own state \<open>'g\<close>.
\<close>

record 'g global_alloc =
  gl_allocate :: "std_layout \<Rightarrow> 'g \<times> mem \<Rightarrow> block res \<times> 'g \<times> mem"
  gl_allocate_zeroed :: "std_layout \<Rightarrow> 'g \<times> mem \<Rightarrow> block res \<times> 'g \<times> mem"
  gl_deallocate :: "addr \<Rightarrow> std_layout \<Rightarrow> 'g \<times> mem \<Rightarrow> 'g \<times> mem"
  gl_grow :: "addr \<Rightarrow> std_layout \<Rightarrow> std_layout \<Rightarrow> 'g \<times> mem \<Rightarrow> block res \<times> 'g \<times> mem"
  gl_shrink :: "addr \<Rightarrow> std_layout \<Rightarrow> std_layout \<Rightarrow> 'g \<times> mem \<Rightarrow> block res \<times> 'g \<times> mem"

record heap_bytes =
  hb_ptr :: addr
  hb_block_layout :: layout

definition heap_with_align ::
  "'g global_alloc \<Rightarrow> usize \<Rightarrow> usize \<Rightarrow> 'g \<times> mem \<Rightarrow> heap_bytes res \<times> 'g \<times> mem" where
  "heap_with_align G sz align s =
     (if sz = 0 \<or> align = 0 \<or> \<not> is_pow2 align then (Inl AllocError, s)
      else case from_size_align sz align of
             Inl e \<Rightarrow> (Inl AllocError, s)
           | Inr block_layout \<Rightarrow>
               (case gl_allocate G (to_layout block_layout) s of
                  (Inl e, s') \<Rightarrow> (Inl e, s')
                | (Inr (p, n), s') \<Rightarrow>
                    (Inr \<lparr>hb_ptr = p, hb_block_layout = block_layout\<rparr>, s')))"

definition heap_with_align_zeroed ::
  "'g global_alloc \<Rightarrow> usize \<Rightarrow> usize \<Rightarrow> 'g \<times> mem \<Rightarrow> heap_bytes res \<times> 'g \<times> mem" where
  "heap_with_align_zeroed G sz align s =
     (if sz = 0 \<or> align = 0 \<or> \<not> is_pow2 align then (Inl AllocError, s)
      else case from_size_align sz align of
             Inl e \<Rightarrow> (Inl AllocError, s)
           | Inr block_layout \<Rightarrow>
               (case gl_allocate_zeroed G (to_layout block_layout) s of
                  (Inl e, s') \<Rightarrow> (Inl e, s')
                | (Inr (p, n), s') \<Rightarrow>
                    (Inr \<lparr>hb_ptr = p, hb_block_layout = block_layout\<rparr>, s')))"

definition heap_new :: "'g global_alloc \<Rightarrow> usize \<Rightarrow> 'g \<times> mem \<Rightarrow> heap_bytes res \<times> 'g \<times> mem" where
  "heap_new G sz s = heap_with_align G sz MAX_ALIGN s"

definition heap_new_zeroed :: "'g global_alloc \<Rightarrow> usize \<Rightarrow> 'g \<times> mem \<Rightarrow> heap_bytes res \<times> 'g \<times> mem" where
  "heap_new_zeroed G sz s = heap_with_align_zeroed G sz MAX_ALIGN s"

definition heap_capacity :: "heap_bytes \<Rightarrow> usize" where
  "heap_capacity h = lay_size (hb_block_layout h)"

definition heap_drop :: "'g global_alloc \<Rightarrow> heap_bytes \<Rightarrow> 'g \<times> mem \<Rightarrow> 'g \<times> mem" where
  "heap_drop G h s = gl_deallocate G (hb_ptr h) (to_layout (hb_block_layout h)) s"

definition heap_range :: "heap_bytes fixed_range" where
  "heap_range = \<lparr>fr_base = hb_ptr, fr_size = heap_capacity, fr_commit = default_commit\<rparr>"

definition heap_ok :: "heap_bytes \<Rightarrow> bool" where
  "heap_ok h \<longleftrightarrow> block_ok (hb_block_layout h) (hb_ptr h) (heap_capacity h)"

interpretation heap: fixed_range_contract heap_range heap_ok
  by unfold_locales (auto simp: heap_range_def heap_ok_def block_ok_def default_commit_def)

definition system_allocator :: "'g global_alloc \<Rightarrow> 'g allocator" where
  "system_allocator G =
     \<lparr>al_allocate = (\<lambda>lay. gl_allocate G (to_layout lay)),
      al_allocate_zeroed = (\<lambda>lay. gl_allocate_zeroed G (to_layout lay)),
      al_deallocate = (\<lambda>p lay s. Done (gl_deallocate G p (to_layout lay) s)),
      al_grow = (\<lambda>p old new s. Done (gl_grow G p (to_layout old) (to_layout new) s)),
      al_shrink = (\<lambda>p old new s. Done (gl_shrink G p (to_layout old) (to_layout new) s)),
      al_reset = default_reset,
      al_usable_size = default_usable_size,
      al_capacity_bytes = default_capacity_bytes,
      al_corruption_events = default_corruption_events\<rparr>"

end
