(* ===== verification/Slot_Region.thy ===== *)
theory Slot_Region
  imports Alloc_Traits
begin

text \<open>
  A region cut into equal slots, some live, some on a free list threaded through them by 1-based
  indices, the rest never carved: the common core of \<open>Slab\<close> (\<open>slab.rs\<close>), of the size classes of
  \<open>SizeClassed\<close> (\<open>size_classed.rs\<close>) and of the segments of \<open>ExtendableSlab\<close>. \<open>slot_addr\<close> is the
  \<open>slot_ptr\<close> of those files, \<open>slots_live\<close> the accounting that their \<open>allocate\<close> and \<open>deallocate\<close>
  keep, and \<open>free_chain\<close> the shape of the list in memory.
\<close>

definition slot_addr :: "addr \<Rightarrow> usize \<Rightarrow> u32 \<Rightarrow> addr" where
  "slot_addr base stride idx = base + ucast idx * stride"

definition trailing_zeros :: "usize \<Rightarrow> nat" where
  "trailing_zeros w = length (takeWhile (\<lambda>i. \<not> bit w i) [0..<64])"

lemma trailing_zeros_pow2:
  assumes "k < 64"
  shows "trailing_zeros (2 ^ k) = k"
proof -
  have b: "bit (2 ^ k :: usize) i \<longleftrightarrow> i = k" for i
    using assms by (auto simp: bit_simps)
  have "[0..<64] = [0..<k] @ k # [Suc k..<64]"
    using assms upt_add_eq_append [of 0 k "64 - k"] upt_conv_Cons [of k 64] by simp
  then have "takeWhile (\<lambda>i. \<not> bit (2 ^ k :: usize) i) [0..<64] =
      takeWhile (\<lambda>i. i \<noteq> k) ([0..<k] @ k # [Suc k..<64])"
    by (simp only: b)
  also have "\<dots> = [0..<k]" by (subst takeWhile_append2) auto
  finally have "takeWhile (\<lambda>i. \<not> bit (2 ^ k :: usize) i) [0..<64] = [0..<k]" .
  then show ?thesis by (simp add: trailing_zeros_def)
qed

section \<open>Geometry\<close>

definition region_ok :: "addr \<Rightarrow> usize \<Rightarrow> u32 \<Rightarrow> bool" where
  "region_ok base stride cap \<longleftrightarrow> base \<noteq> 0 \<and> 4 \<le> unat stride \<and>
     unat base + unat cap * unat stride \<le> 2 ^ 64"

definition region_bytes :: "addr \<Rightarrow> usize \<Rightarrow> u32 \<Rightarrow> addr set" where
  "region_bytes base stride cap =
     {a. unat base \<le> unat a \<and> unat a < unat base + unat cap * unat stride}"

lemma mult_Suc_le: "i < (c::nat) \<Longrightarrow> i * s + s \<le> c * s"
  by (metis Suc_leI add.commute mult_Suc mult_le_mono1)

lemma slot_addr_unat:
  assumes "region_ok base stride cap" "i < cap"
  shows "unat (slot_addr base stride i) = unat base + unat i * unat stride"
    "unat (slot_addr base stride i) + unat stride \<le> unat base + unat cap * unat stride"
proof -
  have s: "0 < unat stride" and b: "0 < unat base"
    using assms(1) by (auto simp: region_ok_def unat_gt_0)
  have le: "unat i * unat stride + unat stride \<le> unat cap * unat stride"
    using assms(2) by (intro mult_Suc_le) (simp add: word_less_nat_alt)
  then have lt: "unat base + unat i * unat stride < 2 ^ 64"
    using assms(1) s unfolding region_ok_def by linarith
  then have "unat (ucast i * stride :: usize) = unat i * unat stride"
    using unat_mult_lem [of "ucast i :: usize" stride] by simp
  then show u: "unat (slot_addr base stride i) = unat base + unat i * unat stride"
    using lt by (simp add: slot_addr_def unat_plus_if')
  show "unat (slot_addr base stride i) + unat stride \<le> unat base + unat cap * unat stride"
    using u le by simp
qed

lemma slot_addr_no_wrap:
  assumes "region_ok base stride cap" "i < cap"
  shows "no_wrap (slot_addr base stride i) stride" "slot_addr base stride i \<noteq> 0"
proof -
  have b: "0 < unat base" using assms(1) by (auto simp: region_ok_def unat_gt_0)
  show "no_wrap (slot_addr base stride i) stride"
    using slot_addr_unat(2) [OF assms] assms(1) by (simp add: no_wrap_def region_ok_def)
  show "slot_addr base stride i \<noteq> 0"
    using slot_addr_unat(1) [OF assms] b by auto
qed

lemma slot_addr_inj:
  assumes "region_ok base stride cap" "i < cap" "j < cap"
    "slot_addr base stride i = slot_addr base stride j"
  shows "i = j"
proof -
  have "unat i * unat stride = unat j * unat stride"
    using slot_addr_unat(1) [OF assms(1,2)] slot_addr_unat(1) [OF assms(1,3)] assms(4)
    by (metis add_left_cancel)
  moreover have "unat stride \<noteq> 0" using assms(1) by (simp add: region_ok_def)
  ultimately have "unat i = unat j" by (metis mult_cancel2)
  then show ?thesis by (simp add: word_unat_eq_iff)
qed

lemma slot_disjoint:
  assumes "region_ok base stride cap" "i < cap" "j < cap" "i \<noteq> j"
  shows "span (slot_addr base stride i) stride \<inter> span (slot_addr base stride j) stride = {}"
proof (rule span_disjointI)
  show "no_wrap (slot_addr base stride i) stride" "no_wrap (slot_addr base stride j) stride"
    using slot_addr_no_wrap assms by auto
  note u = slot_addr_unat(1) [OF assms(1,2)] slot_addr_unat(1) [OF assms(1,3)]
  have "unat i < unat j \<or> unat j < unat i"
    using assms(4) by (metis nat_neq_iff word_unat_eq_iff)
  then show "unat (slot_addr base stride i) + unat stride \<le> unat (slot_addr base stride j) \<or>
    unat (slot_addr base stride j) + unat stride \<le> unat (slot_addr base stride i)"
    unfolding u using mult_Suc_le by fastforce
qed

lemma slot_in_region:
  assumes "region_ok base stride cap" "i < cap"
  shows "span (slot_addr base stride i) stride \<subseteq> region_bytes base stride cap"
  using slot_addr_unat [OF assms] slot_addr_no_wrap(1) [OF assms]
  by (auto simp: region_bytes_def in_span_iff)

lemma slot_aligned:
  assumes "region_ok base stride cap" "i < cap" "k dvd unat base" "k dvd unat stride"
  shows "k dvd unat (slot_addr base stride i)"
  using assms by (simp add: slot_addr_unat(1))

lemma slot_word_spans:
  assumes "8 \<le> unat stride"
  shows "span p 4 \<subseteq> span p stride" "no_wrap p stride \<Longrightarrow> span (p + 4) 4 \<subseteq> span p stride"
    "no_wrap p stride \<Longrightarrow> span p 4 \<inter> span (p + 4) 4 = {}"
proof -
  show "span p 4 \<subseteq> span p stride"
    using assms by (intro span_mono) (simp add: word_le_nat_alt)
  assume nw: "no_wrap p stride"
  then have b: "unat p + 8 \<le> 2 ^ 64" using assms by (simp add: no_wrap_def)
  then have u: "unat (p + 4) = unat p + 4" by (simp add: unat_plus_if')
  have nw4: "no_wrap p 4" "no_wrap (p + 4) 4"
    using b u by (auto simp: no_wrap_def)
  show "span (p + 4) 4 \<subseteq> span p stride"
    by (rule span_subset [OF nw4(2) nw]) (use u assms in auto)
  show "span p 4 \<inter> span (p + 4) 4 = {}"
    by (rule span_disjointI [OF nw4]) (use u in auto)
qed

section \<open>From addresses back to slots\<close>

text \<open>The two ways the code divides an offset by the stride agree.\<close>

lemma div_by_shift:
  assumes "stride = (2::usize) ^ k" "k < 64"
  shows "drop_bit k off = off div stride" "off AND (stride - 1) = off mod stride"
  using assms
  by (simp_all add: drop_bit_eq_div take_bit_eq_mod flip: mask_eq_decr_exp take_bit_eq_mask)

lemma slot_offset:
  assumes "region_ok base stride cap" "i < cap"
  shows "base \<le> slot_addr base stride i"
    "(slot_addr base stride i - base) div stride = ucast i"
    "(slot_addr base stride i - base) mod stride = 0"
proof -
  note u = slot_addr_unat(1) [OF assms]
  show "base \<le> slot_addr base stride i" by (simp add: word_le_nat_alt u)
  then have off: "unat (slot_addr base stride i - base) = unat i * unat stride"
    by (simp add: unat_sub word_le_nat_alt u)
  have s: "0 < unat stride" using assms(1) by (auto simp: region_ok_def)
  show "(slot_addr base stride i - base) div stride = ucast i"
    using s by (simp add: word_unat_eq_iff unat_div_distrib off)
  show "(slot_addr base stride i - base) mod stride = 0"
    by (simp add: word_unat_eq_iff unat_mod_distrib off)
qed

lemma slot_of_offset:
  assumes "base \<le> p" "(p - base) mod stride = 0" "(p - base) div stride = ucast (i :: u32)"
  shows "p = slot_addr base stride i"
proof -
  have "(p - base) div stride * stride + (p - base) mod stride = p - base"
    by (rule div_mult_mod_eq)
  then have "ucast i * stride = p - base" by (simp add: assms(2,3))
  then show ?thesis by (simp add: slot_addr_def)
qed

text \<open>The 0-based index of a slot address, as \<open>UntypedSlab::slot_index\<close> computes it.\<close>

definition find_slot :: "addr \<Rightarrow> usize \<Rightarrow> u32 \<Rightarrow> addr \<Rightarrow> u32 option" where
  "find_slot base stride cap p =
     (if p < base then None
      else let offset = p - base
           in if offset mod stride \<noteq> 0 then None
              else let idx = offset div stride
                   in if idx \<ge> ucast cap then None else Some (ucast idx))"

lemma ucast_down_up: "x < ucast (cap :: u32) \<Longrightarrow> ucast (ucast (x :: usize) :: u32) = x"
proof -
  assume "x < ucast cap"
  then have "unat x < 2 ^ 32" using unat_32_less [of cap] by (simp add: word_less_nat_alt)
  then have "unat (ucast x :: u32) = unat x"
    by (simp add: unsigned_ucast_eq take_bit_nat_eq_self_iff)
  then show ?thesis by (simp add: word_unat_eq_iff)
qed

lemma find_slot_slot_addr:
  assumes "region_ok base stride cap" "i < cap"
  shows "find_slot base stride cap (slot_addr base stride i) = Some i"
proof -
  have "\<not> ucast cap \<le> (ucast i :: usize)"
    using assms(2) by (simp add: word_le_nat_alt word_less_nat_alt)
  moreover have "ucast (ucast i :: usize) = i"
    by (rule bit_word_eqI) (auto simp: bit_simps)
  ultimately show ?thesis
    using slot_offset [OF assms] by (simp add: find_slot_def Let_def)
qed

lemma find_slot_Some:
  assumes "find_slot base stride cap p = Some i"
  shows "i < cap" "p = slot_addr base stride i"
proof -
  have b: "base \<le> p" "(p - base) mod stride = 0" "(p - base) div stride < ucast cap"
    and i: "i = ucast ((p - base) div stride)"
    using assms by (auto simp: find_slot_def Let_def split: if_splits)
  have "ucast i = (p - base) div stride" unfolding i by (rule ucast_down_up [OF b(3)])
  then show "p = slot_addr base stride i" "i < cap"
    using b slot_of_offset [OF b(1,2)] by (auto simp: word_less_nat_alt dest: sym)
qed

section \<open>The free list in memory\<close>

fun free_chain :: "(u32 \<Rightarrow> u32) \<Rightarrow> u32 \<Rightarrow> u32 list \<Rightarrow> bool" where
  "free_chain nxt head [] \<longleftrightarrow> head = 0"
| "free_chain nxt head (i # is) \<longleftrightarrow> head = i + 1 \<and> head \<noteq> 0 \<and> free_chain nxt (nxt i) is"

lemma free_chain_cong:
  "free_chain nxt head is \<Longrightarrow> (\<And>i. i \<in> set is \<Longrightarrow> nxt' i = nxt i) \<Longrightarrow> free_chain nxt' head is"
  by (induction nxt head "is" rule: free_chain.induct) auto

lemma free_chain_head:
  "free_chain nxt head is \<Longrightarrow> \<forall>i \<in> set is. i < cap \<Longrightarrow> head \<le> cap"
  by (cases "is") (auto simp: word_le_nat_alt word_less_nat_alt unat_plus_if' split: if_splits)

section \<open>Slot accounting\<close>

text \<open>
  With \<open>strict\<close>, every carved slot is live or on the free list, so no slot is lost; without it,
  carved slots may have been abandoned, which is what the code does when it detects corruption.
\<close>

definition slots_live ::
  "bool \<Rightarrow> addr \<Rightarrow> usize \<Rightarrow> u32 \<Rightarrow> u32 \<Rightarrow> u32 list \<Rightarrow> live \<Rightarrow> bool" where
  "slots_live strict base stride cap nu fs L \<longleftrightarrow> live_ok L \<and> nu \<le> cap \<and> distinct fs \<and>
     (\<forall>i \<in> set fs. i < nu) \<and>
     (\<forall>p lay n. (p, lay, n) \<in> L \<longrightarrow>
        n = stride \<and> (\<exists>i < nu. i \<notin> set fs \<and> p = slot_addr base stride i)) \<and>
     (strict \<longrightarrow>
        (\<forall>i < nu. i \<notin> set fs \<longrightarrow> (\<exists>lay. (slot_addr base stride i, lay, stride) \<in> L)))"

lemma slots_live_empty [simp]: "slots_live strict base stride cap 0 [] {}"
  by (simp add: slots_live_def)

lemma slots_live_slot:
  assumes "slots_live strict base stride cap nu fs L" "(p, lay, n) \<in> L"
  obtains i where "n = stride" "i < nu" "i < cap" "i \<notin> set fs" "p = slot_addr base stride i"
  using assms unfolding slots_live_def by (meson order_less_le_trans)

lemma slots_liveD:
  assumes "slots_live strict base stride cap nu fs L"
  shows "live_ok L" "nu \<le> cap" "distinct fs" "i \<in> set fs \<Longrightarrow> i < nu"
    "strict \<Longrightarrow> i < nu \<Longrightarrow> i \<notin> set fs \<Longrightarrow> \<exists>lay. (slot_addr base stride i, lay, stride) \<in> L"
  using assms unfolding slots_live_def by blast+

lemma slots_liveI:
  assumes "live_ok L" "nu \<le> cap" "distinct fs" "\<And>i. i \<in> set fs \<Longrightarrow> i < nu"
    "\<And>p lay n. (p, lay, n) \<in> L \<Longrightarrow>
       n = stride \<and> (\<exists>i < nu. i \<notin> set fs \<and> p = slot_addr base stride i)"
    "\<And>i. strict \<Longrightarrow> i < nu \<Longrightarrow> i \<notin> set fs \<Longrightarrow> \<exists>lay. (slot_addr base stride i, lay, stride) \<in> L"
  shows "slots_live strict base stride cap nu fs L"
  using assms unfolding slots_live_def by blast

lemma slots_live_footprint:
  assumes "region_ok base stride cap" "slots_live strict base stride cap nu fs L"
  shows "footprint L \<subseteq> region_bytes base stride cap"
proof
  fix a assume "a \<in> footprint L"
  then obtain p lay n where b: "(p, lay, n) \<in> L" "a \<in> span p n"
    by (force simp: footprint_def)
  from slots_live_slot [OF assms(2) b(1)]
  obtain i where "n = stride" "i < cap" "p = slot_addr base stride i" by blast
  then show "a \<in> region_bytes base stride cap"
    using b(2) slot_in_region [OF assms(1)] by blast
qed

text \<open>A slot on the free list, or not yet carved, is outside every live block.\<close>

lemma slots_live_free:
  assumes "region_ok base stride cap" "slots_live strict base stride cap nu fs L" "i < cap"
    "i \<in> set fs \<or> nu \<le> i"
  shows "span (slot_addr base stride i) stride \<inter> footprint L = {}"
proof -
  have "span (slot_addr base stride i) stride \<inter> blk b = {}" if b: "b \<in> L" for b
  proof -
    obtain p lay n where p: "b = (p, lay, n)" by (cases b)
    with b have "(p, lay, n) \<in> L" by simp
    from slots_live_slot [OF assms(2) this]
    obtain j where j: "n = stride" "j < nu" "j < cap" "j \<notin> set fs" "p = slot_addr base stride j"
      by blast
    then have "i \<noteq> j" using assms(4) by auto
    then show ?thesis using slot_disjoint [OF assms(1,3) j(3)] j p by simp
  qed
  then show ?thesis by (auto simp: footprint_def)
qed

lemma slots_live_pop:
  assumes "region_ok base stride cap" "slots_live strict base stride cap nu (i # fs) L"
    "block_ok lay (slot_addr base stride i) stride"
  shows "slots_live strict base stride cap nu fs (insert (slot_addr base stride i, lay, stride) L)"
    "span (slot_addr base stride i) stride \<inter> footprint L = {}"
proof -
  note D = slots_liveD [OF assms(2)]
  have i: "i < nu" "i < cap" "i \<notin> set fs"
    using D(2,3) D(4) [of i] by auto
  show d: "span (slot_addr base stride i) stride \<inter> footprint L = {}"
    by (rule slots_live_free [OF assms(1,2) i(2)]) simp
  show "slots_live strict base stride cap nu fs (insert (slot_addr base stride i, lay, stride) L)"
  proof (rule slots_liveI)
    show "live_ok (insert (slot_addr base stride i, lay, stride) L)"
      by (rule live_ok_insert [OF D(1) assms(3) d])
    show "nu \<le> cap" "distinct fs" using D(2,3) by auto
    show "j < nu" if "j \<in> set fs" for j using D(4) that by simp
    show "n = stride \<and> (\<exists>j < nu. j \<notin> set fs \<and> p = slot_addr base stride j)"
      if "(p, lay', n) \<in> insert (slot_addr base stride i, lay, stride) L" for p lay' n
    proof (cases "(p, lay', n) \<in> L")
      case True
      obtain j where "n = stride" "j < nu" "j \<notin> set (i # fs)" "p = slot_addr base stride j"
        using slots_live_slot [OF assms(2) True] by blast
      then show ?thesis by auto
    next
      case False
      then show ?thesis using that i by auto
    qed
    show "\<exists>lay'. (slot_addr base stride j, lay', stride) \<in> insert (slot_addr base stride i, lay, stride) L"
      if strict "j < nu" "j \<notin> set fs" for j
      using that D(5) [of j] by (cases "j = i") auto
  qed
qed

lemma slots_live_carve:
  assumes "region_ok base stride cap" "slots_live strict base stride cap nu fs L" "nu < cap"
    "block_ok lay (slot_addr base stride nu) stride"
  shows "slots_live strict base stride cap (nu + 1) fs (insert (slot_addr base stride nu, lay, stride) L)"
    "span (slot_addr base stride nu) stride \<inter> footprint L = {}"
proof -
  note D = slots_liveD [OF assms(2)]
  show d: "span (slot_addr base stride nu) stride \<inter> footprint L = {}"
    by (rule slots_live_free [OF assms(1,2,3)]) simp
  have u: "unat (nu + 1) = unat nu + 1"
    using assms(3) unat_32_less [of cap] by (simp add: unat_plus_if' word_less_nat_alt)
  then have lt: "i < nu + 1 \<longleftrightarrow> i < nu \<or> i = nu" for i
    by (auto simp: word_less_nat_alt word_unat_eq_iff)
  show "slots_live strict base stride cap (nu + 1) fs (insert (slot_addr base stride nu, lay, stride) L)"
  proof (rule slots_liveI)
    show "live_ok (insert (slot_addr base stride nu, lay, stride) L)"
      by (rule live_ok_insert [OF D(1) assms(4) d])
    show "nu + 1 \<le> cap" using u assms(3) by (simp add: word_le_nat_alt word_less_nat_alt)
    show "distinct fs" by (rule D(3))
    show "j < nu + 1" if "j \<in> set fs" for j using D(4) that lt by simp
    show "n = stride \<and> (\<exists>j < nu + 1. j \<notin> set fs \<and> p = slot_addr base stride j)"
      if "(p, lay', n) \<in> insert (slot_addr base stride nu, lay, stride) L" for p lay' n
    proof (cases "(p, lay', n) \<in> L")
      case True
      then show ?thesis using slots_live_slot [OF assms(2) True] lt by metis
    next
      case False
      then have "p = slot_addr base stride nu" "n = stride" using that by auto
      moreover have "nu \<notin> set fs" using D(4) [of nu] by auto
      ultimately show ?thesis using lt [of nu] by auto
    qed
    show "\<exists>lay'. (slot_addr base stride j, lay', stride) \<in> insert (slot_addr base stride nu, lay, stride) L"
      if strict "j < nu + 1" "j \<notin> set fs" for j
      using that D(5) [of j] lt [of j] by auto
  qed
qed

lemma slots_live_push:
  assumes "region_ok base stride cap" "slots_live strict base stride cap nu fs L"
    "(slot_addr base stride i, lay, n) \<in> L" "i < cap"
  shows "slots_live strict base stride cap nu (i # fs) (L - {(slot_addr base stride i, lay, n)})"
    "n = stride" "i \<notin> set fs" "i < nu"
proof -
  note D = slots_liveD [OF assms(2)]
  let ?L = "L - {(slot_addr base stride i, lay, n)}"
  from slots_live_slot [OF assms(2,3)]
  obtain j where j: "n = stride" "j < nu" "j < cap" "j \<notin> set fs"
    "slot_addr base stride i = slot_addr base stride j" by blast
  then have "i = j" using slot_addr_inj [OF assms(1,4) j(3)] by simp
  with j show n: "n = stride" and i: "i \<notin> set fs" "i < nu" by auto
  show "slots_live strict base stride cap nu (i # fs) ?L"
  proof (rule slots_liveI)
    show "live_ok ?L" by (rule live_ok_mono [OF D(1)]) auto
    show "nu \<le> cap" "distinct (i # fs)" using D(2,3) i by auto
    show "k < nu" if "k \<in> set (i # fs)" for k using D(4) that i by auto
    show "k = stride \<and> (\<exists>j < nu. j \<notin> set (i # fs) \<and> p = slot_addr base stride j)"
      if b: "(p, lay', k) \<in> ?L" for p lay' k
    proof -
      from b have bL: "(p, lay', k) \<in> L" by simp
      from slots_live_slot [OF assms(2) bL]
      obtain j where j: "k = stride" "j < nu" "j \<notin> set fs" "p = slot_addr base stride j" by blast
      moreover have "j \<noteq> i"
      proof
        assume "j = i"
        then have "lay' = lay" "k = n"
          using live_ok_same_addr [OF D(1) assms(3)] bL j(4) by auto
        then show False using b j(4) \<open>j = i\<close> by simp
      qed
      ultimately show ?thesis by auto
    qed
    show "\<exists>lay'. (slot_addr base stride k, lay', stride) \<in> ?L"
      if k: strict "k < nu" "k \<notin> set (i # fs)" for k
    proof -
      from k obtain lay' where "(slot_addr base stride k, lay', stride) \<in> L"
        using D(5) [of k] by auto
      moreover have "slot_addr base stride k \<noteq> slot_addr base stride i"
        using slot_addr_inj [OF assms(1) order_less_le_trans [OF k(2) D(2)] assms(4)] k(3) by auto
      ultimately show ?thesis by auto
    qed
  qed
qed

text \<open>Abandoning the free list keeps everything but the strict accounting.\<close>

lemma slots_live_drop_chain:
  "slots_live strict base stride cap nu fs L \<Longrightarrow> slots_live False base stride cap nu [] L"
  by (rule slots_liveI) (auto dest: slots_liveD(1,2) elim: slots_live_slot)

text \<open>\<open>u32::try_from\<close> accepted the capacity, so the cast keeps it.\<close>

lemma unat_ucast_capacity:
  assumes "capacity \<le> ucast (- 1 :: u32)"
  shows "unat (ucast (capacity :: usize) :: u32) = unat capacity"
proof -
  have "unat capacity \<le> unat (ucast (- 1 :: u32) :: usize)" using assms by (simp add: word_le_nat_alt)
  then have "unat capacity < 2 ^ 32" by (simp add: unat_minus_one_word)
  then show ?thesis by (simp add: unsigned_ucast_eq take_bit_nat_eq_self_iff)
qed

end
