(* ===== verification/Freelist_Protection.thy ===== *)
theory Freelist_Protection
  imports Rust_Prelude
begin

text \<open>
  \<open>forge-alloc-core/src/traits/freelist_protection.rs\<close>: the policy that signs the links of a
  free list. SipHash itself is code of another crate: \<open>sip key msg\<close> is the 64-bit digest of the
  bytes \<open>msg\<close> under the 16-byte \<open>key\<close>, a parameter of every definition that uses it.
\<close>

datatype freelist_corruption = FreelistCorruption

record protection =
  pr_sign :: "u32 \<Rightarrow> usize \<Rightarrow> u32"
  pr_verify :: "u32 \<Rightarrow> u32 \<Rightarrow> usize \<Rightarrow> freelist_corruption + unit"

definition NoProtection :: protection where
  "NoProtection =
     \<lparr>pr_sign = (\<lambda>next_idx slot_addr. 0),
      pr_verify = (\<lambda>next_idx stored_mac slot_addr. Inr ())\<rparr>"

record siphash_mac =
  sm_key :: "u8 list"

definition siphash_with_key :: "u8 list \<Rightarrow> siphash_mac" where
  "siphash_with_key key = \<lparr>sm_key = key\<rparr>"

text \<open>\<open>RandomState\<close> supplies two 64-bit words of entropy, one per half of the key.\<close>

definition siphash_new :: "u64 \<Rightarrow> u64 \<Rightarrow> siphash_mac" where
  "siphash_new a b = siphash_with_key (le_bytes 8 a @ le_bytes 8 b)"

definition siphash_clone :: "siphash_mac \<Rightarrow> siphash_mac" where
  "siphash_clone M = \<lparr>sm_key = map (\<lambda>i. sm_key M ! i) [0..<16]\<rparr>"

definition siphash_drop :: "siphash_mac \<Rightarrow> siphash_mac" where
  "siphash_drop M = M\<lparr>sm_key := map (\<lambda>_. 0) (sm_key M)\<rparr>"

text \<open>
  The digest input is the link index as four bytes and the slot nonce as eight, whatever the
  width of \<open>usize\<close>; the MAC is the digest's low 32 bits.
\<close>

definition siphash_msg :: "u32 \<Rightarrow> usize \<Rightarrow> u8 list" where
  "siphash_msg next_idx slot_addr = le_bytes 4 next_idx @ le_bytes 8 slot_addr"

definition siphash_digest ::
  "(u8 list \<Rightarrow> u8 list \<Rightarrow> u64) \<Rightarrow> siphash_mac \<Rightarrow> u32 \<Rightarrow> usize \<Rightarrow> u32" where
  "siphash_digest sip M next_idx slot_addr = ucast (sip (sm_key M) (siphash_msg next_idx slot_addr))"

definition SipHashMAC :: "(u8 list \<Rightarrow> u8 list \<Rightarrow> u64) \<Rightarrow> siphash_mac \<Rightarrow> protection" where
  "SipHashMAC sip M =
     \<lparr>pr_sign = siphash_digest sip M,
      pr_verify = (\<lambda>next_idx stored_mac slot_addr.
        if siphash_digest sip M next_idx slot_addr = stored_mac then Inr ()
        else Inl FreelistCorruption)\<rparr>"

section \<open>The contract\<close>

text \<open>What every slab relies on: a link just signed verifies.\<close>

locale freelist_protection =
  fixes P :: protection
  assumes verify_sign: "pr_verify P next_idx (pr_sign P next_idx a) a = Inr ()"

interpretation no_protection: freelist_protection NoProtection
  by unfold_locales (simp add: NoProtection_def)

text \<open>
  A keyed policy accepts nothing else: a stored tag that is not the signature of the link for
  this very slot is rejected.
\<close>

locale keyed_protection = freelist_protection +
  assumes verify_only: "pr_verify P next_idx mac a = Inr () \<Longrightarrow> mac = pr_sign P next_idx a"
begin

lemma verify_iff: "pr_verify P next_idx mac a = Inr () \<longleftrightarrow> mac = pr_sign P next_idx a"
  using verify_only verify_sign by blast

end

interpretation siphash: keyed_protection "SipHashMAC sip M"
  by unfold_locales (auto simp: SipHashMAC_def split: if_splits)

lemma siphash_msg_inj:
  assumes "siphash_msg x a = siphash_msg y b"
  shows "x = y" "a = b"
proof -
  have e: "le_bytes 4 x = le_bytes 4 y" "le_bytes 8 a = le_bytes 8 b"
    using assms by (auto simp: siphash_msg_def)
  show "x = y"
    using arg_cong [OF e(1), of "of_le_bytes :: _ \<Rightarrow> u32"]
    by (simp add: of_le_bytes_le_bytes take_bit_word_eq_self)
  show "a = b"
    using arg_cong [OF e(2), of "of_le_bytes :: _ \<Rightarrow> usize"]
    by (simp add: of_le_bytes_le_bytes take_bit_word_eq_self)
qed

end
