(* ===== verification/Slab.thy ===== *)
theory Slab
  imports Slot_Region Freelist_Protection
begin

text \<open>
  \<open>forge-alloc/src/layout/slab.rs\<close>: the typed fixed-stride slab \<open>Slab<T, B, M>\<close>. A free slot holds
  its \<open>FreeLink\<close> (1-based index of the next free slot, and a MAC over that index and the slot's
  own index) in the memory the slab hands out, so the free list lives in \<open>mem\<close>, where a client
  that writes out of bounds can reach it. \<open>B\<close> and \<open>R\<close> are the backing's \<open>Allocator\<close> and
  \<open>FixedRange\<close> impls, \<open>P\<close> the protection policy \<open>M\<close>, \<open>T\<close> the layout of the element type.
\<close>

section \<open>State and operations\<close>

record free_link =
  fl_next_idx :: u32
  fl_mac :: u32

definition read_link :: "mem \<Rightarrow> addr \<Rightarrow> free_link" where
  "read_link m p = \<lparr>fl_next_idx = read_u32 m p, fl_mac = read_u32 m (p + 4)\<rparr>"

definition write_link :: "mem \<Rightarrow> addr \<Rightarrow> free_link \<Rightarrow> mem" where
  "write_link m p l = write_u32 (write_u32 m p (fl_next_idx l)) (p + 4) (fl_mac l)"

record 'b slab =
  sl_backing :: 'b
  sl_base_offset :: usize
  sl_free_head :: u32
  sl_next_uncarved :: u32
  sl_block_stride :: usize
  sl_stride_shift :: u32
  sl_capacity :: u32
  sl_backing_layout :: layout
  sl_corruption_events :: usize

definition slot_align :: "type_layout \<Rightarrow> usize" where
  "slot_align T = max (ty_align T) 4"

definition slab_stride :: "type_layout \<Rightarrow> usize option" where
  "slab_stride T = align_up_checked (max (ty_size T) 8) (slot_align T)"

definition slab_with_protection ::
  "'b allocator \<Rightarrow> 'b fixed_range \<Rightarrow> type_layout \<Rightarrow> usize \<Rightarrow> 'b \<times> mem \<Rightarrow> 'b slab res \<times> 'b \<times> mem" where
  "slab_with_protection B R T capacity s =
     (if capacity = 0 then (Inl AllocError, s)
      else if ty_size T = 0 then (Inl AllocError, s)
      else if capacity > ucast (- 1 :: u32) then (Inl AllocError, s)
      else case slab_stride T of None \<Rightarrow> (Inl AllocError, s)
      | Some block_stride \<Rightarrow>
      case checked_mul block_stride capacity of None \<Rightarrow> (Inl AllocError, s)
      | Some tot \<Rightarrow>
      case from_size_align tot (slot_align T) of Inl e \<Rightarrow> (Inl AllocError, s)
      | Inr backing_layout \<Rightarrow>
      case al_allocate B backing_layout s of (Inl e, s') \<Rightarrow> (Inl e, s')
      | (Inr (block_addr, n), b, m) \<Rightarrow>
      case checked_sub block_addr (fr_base R b) of None \<Rightarrow> (Inl AllocError, b, m)
      | Some base_offset \<Rightarrow>
          let stride_shift = (if is_pow2 block_stride
                then word_of_nat (trailing_zeros block_stride) else 0)
          in (Inr \<lparr>sl_backing = b, sl_base_offset = base_offset, sl_free_head = 0,
                   sl_next_uncarved = 0, sl_block_stride = block_stride,
                   sl_stride_shift = stride_shift, sl_capacity = ucast capacity,
                   sl_backing_layout = backing_layout, sl_corruption_events = 0\<rparr>, b, m))"

definition slab_base_ptr :: "'b fixed_range \<Rightarrow> 'b slab \<Rightarrow> addr" where
  "slab_base_ptr R s = fr_base R (sl_backing s) + sl_base_offset s"

definition slab_slot_ptr :: "'b fixed_range \<Rightarrow> 'b slab \<Rightarrow> u32 \<Rightarrow> addr" where
  "slab_slot_ptr R s idx = slot_addr (slab_base_ptr R s) (sl_block_stride s) idx"

definition slab_slot_index :: "'b fixed_range \<Rightarrow> 'b slab \<Rightarrow> addr \<Rightarrow> u32 option" where
  "slab_slot_index R s p =
     (let base = slab_base_ptr R s
      in if p < base then None
         else let offset = p - base;
                  (idx, rem) =
                    (if sl_stride_shift s \<noteq> 0
                     then (drop_bit (unat (sl_stride_shift s)) offset,
                           offset AND (sl_block_stride s - 1))
                     else (offset div sl_block_stride s, offset mod sl_block_stride s))
              in if rem \<noteq> 0 then None
                 else if idx \<ge> ucast (sl_capacity s) then None
                 else Some (ucast idx))"

definition slab_deallocate :: "'b fixed_range \<Rightarrow> protection \<Rightarrow> 'b slab dealloc_fun" where
  "slab_deallocate R P p lay st =
     (case st of (s, m) \<Rightarrow>
        case slab_slot_index R s p of
          None \<Rightarrow> Done (s, m)
        | Some idx \<Rightarrow>
            let old_head = sl_free_head s;
                mac = pr_sign P old_head (ucast idx);
                link = \<lparr>fl_next_idx = old_head, fl_mac = mac\<rparr>
            in Done (s\<lparr>sl_free_head := idx + 1\<rparr>, write_link m (slab_slot_ptr R s idx) link))"

definition slab_carve ::
  "'b fixed_range \<Rightarrow> 'b slab \<times> mem \<Rightarrow> block res \<times> 'b slab \<times> mem" where
  "slab_carve R st =
     (case st of (s, m) \<Rightarrow>
        let nxt = sl_next_uncarved s
        in if nxt \<ge> sl_capacity s then (Inl AllocError, s, m)
           else (Inr (slab_slot_ptr R s nxt, sl_block_stride s),
                 s\<lparr>sl_next_uncarved := nxt + 1\<rparr>, m))"

definition slab_allocate ::
  "'b fixed_range \<Rightarrow> protection \<Rightarrow> type_layout \<Rightarrow> 'b slab alloc_fun" where
  "slab_allocate R P T lay st =
     (case st of (s, m) \<Rightarrow>
        if lay_align lay > slot_align T then (Inl AllocError, s, m)
        else if lay_size lay > sl_block_stride s then (Inl AllocError, s, m)
        else let head = sl_free_head s
             in if head \<noteq> 0
                then let slot_idx = head - 1;
                         slot = slab_slot_ptr R s slot_idx;
                         link = read_link m slot;
                         mac_ok = (pr_verify P (fl_next_idx link) (fl_mac link) (ucast slot_idx) = Inr ())
                     in if mac_ok \<and> fl_next_idx link \<le> sl_capacity s
                        then (Inr (slot, sl_block_stride s), s\<lparr>sl_free_head := fl_next_idx link\<rparr>, m)
                        else slab_carve R (s\<lparr>sl_corruption_events := sl_corruption_events s + 1,
                                              sl_free_head := 0\<rparr>, m)
                else slab_carve R (s, m))"

definition slab_usable_size :: "'b slab \<Rightarrow> addr \<Rightarrow> layout \<Rightarrow> usize option" where
  "slab_usable_size s p lay = Some (sl_block_stride s)"

definition slab_size :: "'b slab \<Rightarrow> usize" where
  "slab_size s = ucast (sl_capacity s) * sl_block_stride s"

definition slab_drop :: "'b allocator \<Rightarrow> 'b fixed_range \<Rightarrow> 'b slab \<times> mem \<Rightarrow> ('b \<times> mem) outcome" where
  "slab_drop B R st =
     (case st of (s, m) \<Rightarrow> al_deallocate B (slab_base_ptr R s) (sl_backing_layout s) (sl_backing s, m))"

definition slab_allocator ::
  "'b fixed_range \<Rightarrow> protection \<Rightarrow> type_layout \<Rightarrow> 'b slab allocator" where
  "slab_allocator R P T =
     \<lparr>al_allocate = slab_allocate R P T,
      al_allocate_zeroed = default_allocate_zeroed (slab_allocate R P T),
      al_deallocate = slab_deallocate R P,
      al_grow = default_grow (slab_allocate R P T) (slab_deallocate R P),
      al_shrink = default_shrink (slab_allocate R P T) (slab_deallocate R P),
      al_reset = default_reset,
      al_usable_size = slab_usable_size,
      al_capacity_bytes = (\<lambda>s. Some (slab_size s)),
      al_corruption_events = (\<lambda>s. sl_corruption_events s)\<rparr>"

definition slab_range :: "'b fixed_range \<Rightarrow> 'b slab fixed_range" where
  "slab_range R = \<lparr>fr_base = slab_base_ptr R, fr_size = slab_size, fr_commit = default_commit\<rparr>"

section \<open>The invariant\<close>

text \<open>
  The geometry fixed at construction: the slot region is the block the backing issued, aligned
  and sized for every slot, and the shift, when set, is that of the stride.
\<close>

definition slab_geom :: "'b fixed_range \<Rightarrow> type_layout \<Rightarrow> 'b slab \<Rightarrow> bool" where
  "slab_geom R T s \<longleftrightarrow>
     region_ok (slab_base_ptr R s) (sl_block_stride s) (sl_capacity s) \<and>
     8 \<le> unat (sl_block_stride s) \<and> is_pow2 (slot_align T) \<and>
     unat (slot_align T) dvd unat (slab_base_ptr R s) \<and>
     unat (slot_align T) dvd unat (sl_block_stride s) \<and>
     unat (slab_size s) = unat (sl_capacity s) * unat (sl_block_stride s) \<and>
     lay_size (sl_backing_layout s) = slab_size s \<and>
     (sl_stride_shift s \<noteq> 0 \<longrightarrow>
        unat (sl_stride_shift s) < 64 \<and> sl_block_stride s = 2 ^ unat (sl_stride_shift s))"

text \<open>The free list: the chain of links from the head, each of them signed for its own slot.\<close>

definition slab_links ::
  "'b fixed_range \<Rightarrow> protection \<Rightarrow> 'b slab \<Rightarrow> mem \<Rightarrow> u32 list \<Rightarrow> bool" where
  "slab_links R P s m fs \<longleftrightarrow>
     free_chain (\<lambda>i. fl_next_idx (read_link m (slab_slot_ptr R s i))) (sl_free_head s) fs \<and>
     (\<forall>i \<in> set fs. let l = read_link m (slab_slot_ptr R s i)
        in pr_verify P (fl_next_idx l) (fl_mac l) (ucast i) = Inr ())"

definition slab_inv ::
  "bool \<Rightarrow> ('b \<Rightarrow> mem \<Rightarrow> live \<Rightarrow> bool) \<Rightarrow> 'b fixed_range \<Rightarrow> protection \<Rightarrow> type_layout \<Rightarrow>
     'b slab \<Rightarrow> mem \<Rightarrow> live \<Rightarrow> bool" where
  "slab_inv strict binv R P T s m L \<longleftrightarrow> slab_geom R T s \<and>
     (\<exists>n. binv (sl_backing s) m {(slab_base_ptr R s, sl_backing_layout s, n)}) \<and>
     (\<exists>fs. slots_live strict (slab_base_ptr R s) (sl_block_stride s) (sl_capacity s)
             (sl_next_uncarved s) fs L \<and> slab_links R P s m fs)"

lemma slot_align_pow2: "is_pow2 (ty_align T) \<Longrightarrow> is_pow2 (slot_align T)"
  using is_pow2I [of 2 4] by (auto simp: slot_align_def max_def)

lemma read_link_cong:
  assumes "same_on (span p stride) m m'" "8 \<le> unat stride" "no_wrap p stride"
  shows "read_link m' p = read_link m p"
  using assms slot_word_spans [of stride p]
  by (simp add: read_link_def read_u32_cong same_on_mono)

lemma write_link_other:
  assumes "8 \<le> unat stride" "no_wrap p stride" "a \<notin> span p stride"
  shows "write_link m p l a = m a"
proof -
  have "a \<notin> span p 4" "a \<notin> span (p + 4) 4"
    using slot_word_spans(1,2) [OF assms(1), of p] assms(2,3) by blast+
  then show ?thesis by (simp add: write_link_def write_u32_other)
qed

lemma read_write_link:
  assumes "8 \<le> unat stride" "no_wrap p stride"
  shows "read_link (write_link m p l) p = l"
proof -
  have "same_on (span p 4) (write_u32 m p (fl_next_idx l)) (write_link m p l)"
    using slot_word_spans(3) [OF assms]
    by (auto simp: same_on_def write_link_def intro!: write_u32_other)
  from read_u32_cong [OF this]
  have "read_u32 (write_link m p l) p = fl_next_idx l" by simp
  moreover have "read_u32 (write_link m p l) (p + 4) = fl_mac l" by (simp add: write_link_def)
  ultimately show ?thesis by (simp add: read_link_def)
qed

section \<open>Slot indices\<close>

text \<open>The shift-and-mask path computes what the division computes.\<close>

lemma slab_slot_index_eq:
  assumes "slab_geom R T s"
  shows "slab_slot_index R s p = find_slot (slab_base_ptr R s) (sl_block_stride s) (sl_capacity s) p"
  using assms div_by_shift [of "sl_block_stride s" "unat (sl_stride_shift s)" "p - slab_base_ptr R s"]
  by (cases "sl_stride_shift s = 0")
    (simp_all add: slab_slot_index_def find_slot_def Let_def slab_geom_def)

lemma slab_geomD:
  assumes "slab_geom R T s"
  shows "region_ok (slab_base_ptr R s) (sl_block_stride s) (sl_capacity s)"
    "8 \<le> unat (sl_block_stride s)" "is_pow2 (slot_align T)"
    "i < sl_capacity s \<Longrightarrow> unat (slot_align T) dvd unat (slab_slot_ptr R s i)"
    "i < sl_capacity s \<Longrightarrow> no_wrap (slab_slot_ptr R s i) (sl_block_stride s)"
    "i < sl_capacity s \<Longrightarrow> slab_slot_ptr R s i \<noteq> 0"
proof -
  show r: "region_ok (slab_base_ptr R s) (sl_block_stride s) (sl_capacity s)"
    and "8 \<le> unat (sl_block_stride s)" "is_pow2 (slot_align T)"
    using assms by (auto simp: slab_geom_def)
  assume i: "i < sl_capacity s"
  show "unat (slot_align T) dvd unat (slab_slot_ptr R s i)"
    using assms slot_aligned [OF r i] by (simp add: slab_geom_def slab_slot_ptr_def)
  show "no_wrap (slab_slot_ptr R s i) (sl_block_stride s)" "slab_slot_ptr R s i \<noteq> 0"
    using slot_addr_no_wrap [OF r i] by (simp_all add: slab_slot_ptr_def)
qed

lemma slab_region_span:
  assumes "slab_geom R T s"
  shows "region_bytes (slab_base_ptr R s) (sl_block_stride s) (sl_capacity s) =
    span (slab_base_ptr R s) (slab_size s)" "no_wrap (slab_base_ptr R s) (slab_size s)"
proof -
  show nw: "no_wrap (slab_base_ptr R s) (slab_size s)"
    using assms by (simp add: slab_geom_def region_ok_def no_wrap_def)
  show "region_bytes (slab_base_ptr R s) (sl_block_stride s) (sl_capacity s) =
    span (slab_base_ptr R s) (slab_size s)"
    using assms by (auto simp: region_bytes_def in_span_iff [OF nw] slab_geom_def)
qed

text \<open>A request that passes the size and alignment tests fits any slot.\<close>

lemma slab_slot_block_ok:
  assumes "slab_geom R T s" "i < sl_capacity s" "valid_layout lay"
    "lay_align lay \<le> slot_align T" "lay_size lay \<le> sl_block_stride s"
  shows "block_ok lay (slab_slot_ptr R s i) (sl_block_stride s)"
proof -
  have "unat (lay_align lay) dvd unat (slot_align T)"
    using assms(3,4) slab_geomD(3) [OF assms(1)] by (intro is_pow2_dvd) (auto dest: valid_layoutD(3))
  then have "unat (lay_align lay) dvd unat (slab_slot_ptr R s i)"
    using slab_geomD(4) [OF assms(1,2)] by (rule dvd_trans)
  then show ?thesis
    using assms slab_geomD(5,6) [OF assms(1,2)] by (simp add: block_ok_def)
qed

text \<open>The link of a slot survives writes outside that slot.\<close>

lemma slab_links_cong:
  assumes "slab_links R P s m fs" "slab_geom R T s" "\<forall>i \<in> set fs. i < sl_capacity s"
    "\<And>i. i \<in> set fs \<Longrightarrow> same_on (span (slab_slot_ptr R s i) (sl_block_stride s)) m m'"
  shows "slab_links R P s m' fs"
proof -
  have "read_link m' (slab_slot_ptr R s i) = read_link m (slab_slot_ptr R s i)" if "i \<in> set fs" for i
    using assms(3) that slab_geomD(2,5) [OF assms(2)]
    by (intro read_link_cong [OF assms(4)]) auto
  then show ?thesis
    using assms(1) by (auto simp: slab_links_def intro: free_chain_cong)
qed

lemma slab_links_off_live:
  assumes "slab_links R P s m fs" "slab_geom R T s"
    "slots_live strict (slab_base_ptr R s) (sl_block_stride s) (sl_capacity s) nu fs L"
    "same_on (- footprint L) m m'"
  shows "slab_links R P s m' fs"
proof (rule slab_links_cong [OF assms(1,2)])
  show lt: "\<forall>i \<in> set fs. i < sl_capacity s"
    using slots_liveD(2,4) [OF assms(3)] by fastforce
  show "same_on (span (slab_slot_ptr R s i) (sl_block_stride s)) m m'" if "i \<in> set fs" for i
    using slots_live_free [OF slab_geomD(1) [OF assms(2)] assms(3)] lt that assms(4)
    by (auto simp: slab_slot_ptr_def same_on_def)
qed

section \<open>Correctness\<close>

lemma slab_geom_update [simp]:
  "slab_geom R T (s\<lparr>sl_free_head := h\<rparr>) = slab_geom R T s"
  "slab_geom R T (s\<lparr>sl_next_uncarved := k\<rparr>) = slab_geom R T s"
  "slab_base_ptr R (s\<lparr>sl_free_head := h\<rparr>) = slab_base_ptr R s"
  "slab_base_ptr R (s\<lparr>sl_next_uncarved := k\<rparr>) = slab_base_ptr R s"
  "slab_slot_ptr R (s\<lparr>sl_free_head := h\<rparr>) = slab_slot_ptr R s"
  "slab_slot_ptr R (s\<lparr>sl_next_uncarved := k\<rparr>) = slab_slot_ptr R s"
  "slab_size (s\<lparr>sl_free_head := h\<rparr>) = slab_size s"
  "slab_size (s\<lparr>sl_next_uncarved := k\<rparr>) = slab_size s"
  by (auto simp: slab_geom_def slab_base_ptr_def slab_size_def slab_slot_ptr_def fun_eq_iff)

lemma slab_invE:
  assumes "slab_inv strict binv R P T s m L"
  obtains n fs where "slab_geom R T s"
    "binv (sl_backing s) m {(slab_base_ptr R s, sl_backing_layout s, n)}"
    "slots_live strict (slab_base_ptr R s) (sl_block_stride s) (sl_capacity s) (sl_next_uncarved s) fs L"
    "slab_links R P s m fs" "\<forall>i \<in> set fs. i < sl_capacity s"
proof -
  from assms obtain n fs where *: "slab_geom R T s"
    "binv (sl_backing s) m {(slab_base_ptr R s, sl_backing_layout s, n)}"
    "slots_live strict (slab_base_ptr R s) (sl_block_stride s) (sl_capacity s) (sl_next_uncarved s) fs L"
    "slab_links R P s m fs"
    by (auto simp: slab_inv_def)
  moreover have "\<forall>i \<in> set fs. i < sl_capacity s"
    using slots_liveD(2,4) [OF *(3)] by fastforce
  ultimately show thesis by (rule that)
qed

lemma slab_carve_post:
  assumes inv: "slab_inv strict binv R P T s m L" and lay: "valid_layout lay"
    and fit: "lay_align lay \<le> slot_align T" "lay_size lay \<le> sl_block_stride s"
  shows "alloc_post (slab_inv strict binv R P T) L lay m (slab_carve R (s, m))"
proof (cases "sl_next_uncarved s \<ge> sl_capacity s")
  case True
  then show ?thesis
    using inv by (simp add: slab_carve_def alloc_post_def)
next
  case False
  obtain n fs where g: "slab_geom R T s"
    and b: "binv (sl_backing s) m {(slab_base_ptr R s, sl_backing_layout s, n)}"
    and sl: "slots_live strict (slab_base_ptr R s) (sl_block_stride s) (sl_capacity s) (sl_next_uncarved s) fs L"
    and ln: "slab_links R P s m fs"
    using inv by (rule slab_invE)
  from False have lt: "sl_next_uncarved s < sl_capacity s" by simp
  note ok = slab_slot_block_ok [OF g lt lay fit]
  note c = slots_live_carve [OF slab_geomD(1) [OF g] sl lt ok [unfolded slab_slot_ptr_def]]
  have "slab_links R P (s\<lparr>sl_next_uncarved := sl_next_uncarved s + 1\<rparr>) m fs"
    using ln by (simp add: slab_links_def)
  then show ?thesis
    using g b False ok c
    by (auto simp: slab_carve_def Let_def alloc_post_def slab_inv_def slab_slot_ptr_def)
qed

lemma slab_allocate_post:
  assumes inv: "slab_inv strict binv R P T s m L" and lay: "valid_layout lay"
  shows "alloc_post (slab_inv strict binv R P T) L lay m (slab_allocate R P T lay (s, m))"
proof -
  obtain n fs where g: "slab_geom R T s"
    and b: "binv (sl_backing s) m {(slab_base_ptr R s, sl_backing_layout s, n)}"
    and sl: "slots_live strict (slab_base_ptr R s) (sl_block_stride s) (sl_capacity s) (sl_next_uncarved s) fs L"
    and ln: "slab_links R P s m fs" and lt: "\<forall>i \<in> set fs. i < sl_capacity s"
    using inv by (rule slab_invE)
  show ?thesis
  proof (cases "lay_align lay > slot_align T \<or> lay_size lay > sl_block_stride s")
    case True
    then show ?thesis using inv by (auto simp: slab_allocate_def alloc_post_def)
  next
    case False
    then have fit: "lay_align lay \<le> slot_align T" "lay_size lay \<le> sl_block_stride s" by auto
    show ?thesis
    proof (cases fs)
      case Nil
      then have "sl_free_head s = 0" using ln by (simp add: slab_links_def)
      then show ?thesis
        using slab_carve_post [OF inv lay fit] fit [THEN leD]
        by (simp add: slab_allocate_def Let_def)
    next
      case (Cons i fs')
      let ?slot = "slab_slot_ptr R s i"
      let ?next = "fl_next_idx (read_link m ?slot)"
      have h: "sl_free_head s = i + 1" "i + 1 \<noteq> 0"
        and ch: "free_chain (\<lambda>i. fl_next_idx (read_link m (slab_slot_ptr R s i))) ?next fs'"
        and ver: "pr_verify P ?next (fl_mac (read_link m ?slot)) (ucast i) = Inr ()"
        using ln by (auto simp: slab_links_def Cons Let_def)
      have le: "?next \<le> sl_capacity s"
        by (rule free_chain_head [OF ch]) (use lt Cons in auto)
      have i: "i < sl_capacity s" using lt Cons by simp
      note ok = slab_slot_block_ok [OF g i lay fit]
      note p = slots_live_pop [OF slab_geomD(1) [OF g] sl [unfolded Cons] ok [unfolded slab_slot_ptr_def]]
      have "slab_links R P (s\<lparr>sl_free_head := ?next\<rparr>) m fs'"
        using ln ch by (simp add: slab_links_def Cons)
      then show ?thesis
        using g b p ok h ver le fit
        by (auto simp: slab_allocate_def Let_def alloc_post_def slab_inv_def slab_slot_ptr_def)
    qed
  qed
qed

text \<open>What the operations leave alone.\<close>

lemma slab_allocate_frame:
  assumes "slab_allocate R P T lay (s, m) = (r, s', m')"
  shows "m' = m" "slab_base_ptr R s' = slab_base_ptr R s" "slab_size s' = slab_size s"
    "sl_block_stride s' = sl_block_stride s" "slab_slot_ptr R s' = slab_slot_ptr R s"
    "sl_capacity s' = sl_capacity s" "sl_backing s' = sl_backing s"
  using assms
  by (auto simp: slab_allocate_def slab_carve_def Let_def slab_base_ptr_def slab_size_def
      slab_slot_ptr_def fun_eq_iff split: if_splits)

lemma slab_allocate_rest:
  assumes "slab_allocate R P T lay (s, m) = (r, s', m')"
  shows "sl_stride_shift s' = sl_stride_shift s" "sl_backing_layout s' = sl_backing_layout s"
  using assms
  by (auto simp: slab_allocate_def slab_carve_def Let_def split: if_splits)

lemma slab_slot_ptr_update:
  "slab_slot_ptr R (s\<lparr>sl_corruption_events := e\<rparr>) = slab_slot_ptr R s"
  by (simp add: fun_eq_iff slab_slot_ptr_def slab_base_ptr_def)

lemma slab_deallocate_frame:
  assumes "slab_deallocate R P p lay (s, m) = Done (s', m')"
  shows "slab_base_ptr R s' = slab_base_ptr R s" "slab_size s' = slab_size s"
    "sl_corruption_events s' = sl_corruption_events s"
  using assms by (auto simp: slab_deallocate_def Let_def split: option.splits)

context ranged_contract
begin

text \<open>Inside the backing's block, only the live slots are the client's to write.\<close>

lemma slab_user_write:
  assumes inv: "slab_inv strict ainv R P T s m L" and same: "same_on (- footprint L) m m'"
  shows "slab_inv strict ainv R P T s m' L"
proof -
  obtain n fs where g: "slab_geom R T s"
    and b: "ainv (sl_backing s) m {(slab_base_ptr R s, sl_backing_layout s, n)}"
    and sl: "slots_live strict (slab_base_ptr R s) (sl_block_stride s) (sl_capacity s) (sl_next_uncarved s) fs L"
    and ln: "slab_links R P s m fs"
    using inv by (rule slab_invE)
  have sub: "footprint L \<subseteq> footprint {(slab_base_ptr R s, sl_backing_layout s, n)}"
    using slots_live_footprint [OF slab_geomD(1) [OF g] sl] slab_region_span(1) [OF g]
      block_ok_prefix(2) [OF inv_block [OF b, of "slab_base_ptr R s"]] g
    by (auto simp: slab_geom_def)
  have "ainv (sl_backing s) m' {(slab_base_ptr R s, sl_backing_layout s, n)}"
    by (rule user_write [OF b]) (use same sub in \<open>auto simp: same_on_def\<close>)
  then show ?thesis
    using g sl slab_links_off_live [OF ln g sl same] by (auto simp: slab_inv_def)
qed

lemma slab_deallocate_post:
  assumes P: "freelist_protection P"
    and inv: "slab_inv strict ainv R P T s m L" and mem: "(p, lay, n) \<in> L"
  shows "dealloc_post (slab_inv strict ainv R P T) (L - {(p, lay, n)}) m (slab_deallocate R P p lay (s, m))"
    "\<exists>i. slab_slot_index R s p = Some i \<and> slab_slot_ptr R s i = p \<and> i + 1 \<noteq> 0"
proof -
  obtain k fs where g: "slab_geom R T s"
    and b: "ainv (sl_backing s) m {(slab_base_ptr R s, sl_backing_layout s, k)}"
    and sl: "slots_live strict (slab_base_ptr R s) (sl_block_stride s) (sl_capacity s) (sl_next_uncarved s) fs L"
    and ln: "slab_links R P s m fs" and lt: "\<forall>i \<in> set fs. i < sl_capacity s"
    using inv by (rule slab_invE)
  note rg = slab_geomD(1) [OF g]
  obtain i where i: "n = sl_block_stride s" "i < sl_capacity s" "i \<notin> set fs"
    and p: "p = slab_slot_ptr R s i"
    using slots_live_slot [OF sl mem] by (metis slab_slot_ptr_def)
  have ix: "slab_slot_index R s p = Some i"
    by (simp add: slab_slot_index_eq [OF g] p slab_slot_ptr_def find_slot_slot_addr [OF rg i(2)])
  let ?link = "\<lparr>fl_next_idx = sl_free_head s, fl_mac = pr_sign P (sl_free_head s) (ucast i)\<rparr>"
  let ?m = "write_link m p ?link" and ?s = "s\<lparr>sl_free_head := i + 1\<rparr>"
  let ?K = "L - {(p, lay, n)}"
  note w = slab_geomD(2) [OF g] slab_geomD(5) [OF g i(2), folded p]
  have push: "slots_live strict (slab_base_ptr R s) (sl_block_stride s) (sl_capacity s)
      (sl_next_uncarved s) (i # fs) ?K"
    using slots_live_push(1) [OF rg sl, of i lay n] mem i p by (simp add: slab_slot_ptr_def)
  have inside: "span p n \<subseteq> footprint {(slab_base_ptr R s, sl_backing_layout s, k)}"
    using span_footprint [OF mem] slots_live_footprint [OF rg sl] slab_region_span(1) [OF g]
      block_ok_prefix(2) [OF inv_block [OF b, of "slab_base_ptr R s"]] g
    by (auto simp: slab_geom_def)
  have off: "?m a = m a" if "a \<notin> span p n" for a
    using that i(1) by (intro write_link_other [OF w]) simp
  have b': "ainv (sl_backing s) ?m {(slab_base_ptr R s, sl_backing_layout s, k)}"
    by (rule write_inside [OF b inside off])
  have i0: "i + 1 \<noteq> 0"
    using i(2) by (metis add.commute add_diff_cancel_right' diff_0 word_order.extremum_strict)
  have "slab_links R P s ?m fs"
  proof (rule slab_links_cong [OF ln g lt])
    fix j assume "j \<in> set fs"
    then have "span (slab_slot_ptr R s j) (sl_block_stride s) \<inter> span p n = {}"
      using slot_disjoint [OF rg _ i(2), of j] lt i(1,3) p by (auto simp: slab_slot_ptr_def)
    then show "same_on (span (slab_slot_ptr R s j) (sl_block_stride s)) m ?m"
      using off by (auto simp: same_on_def)
  qed
  moreover have "read_link ?m p = ?link" by (rule read_write_link [OF w])
  ultimately have "slab_links R P ?s ?m (i # fs)"
    using i0 p freelist_protection.verify_sign [OF P] by (simp add: slab_links_def Let_def)
  then have "slab_inv strict ainv R P T ?s ?m ?K"
    using g b' push by (auto simp: slab_inv_def)
  moreover have "same_on (footprint ?K) m ?m"
  proof -
    have "live_ok L" using sl by (rule slots_liveD)
    from footprint_remove(2) [OF this mem] show ?thesis
      using off by (auto simp: same_on_def)
  qed
  ultimately show "dealloc_post (slab_inv strict ainv R P T) ?K m (slab_deallocate R P p lay (s, m))"
    using ix p by (simp add: slab_deallocate_def dealloc_post_def Let_def)
  show "\<exists>i. slab_slot_index R s p = Some i \<and> slab_slot_ptr R s i = p \<and> i + 1 \<noteq> 0"
    using ix i0 p by auto
qed

lemma slab_core:
  assumes "freelist_protection P"
  shows "allocator_core (slab_allocate R P T) (slab_deallocate R P) slab_usable_size
    (slab_inv strict ainv R P T)"
proof
  fix s m L assume "slab_inv strict ainv R P T s m L"
  then show "live_ok L" by (elim slab_invE) (rule slots_liveD)
next
  fix s m L p lay n k
  assume inv: "slab_inv strict ainv R P T s m L" and mem: "(p, lay, n) \<in> L"
    and k: "slab_usable_size s p lay = Some k"
  from inv obtain fs where
    sl: "slots_live strict (slab_base_ptr R s) (sl_block_stride s) (sl_capacity s) (sl_next_uncarved s) fs L"
    by (elim slab_invE)
  have "n = sl_block_stride s" using slots_live_slot [OF sl mem] by blast
  moreover have "lay_size lay \<le> n"
    using live_okD [OF slots_liveD(1) [OF sl] mem] by (simp add: block_ok_def)
  ultimately show "lay_size lay \<le> k \<and> k \<le> n"
    using k by (simp add: slab_usable_size_def)
qed (use assms slab_user_write slab_allocate_post slab_deallocate_post(1) in auto)

lemma slab_contract:
  "freelist_protection P \<Longrightarrow> allocator_contract (slab_allocator R P T) (slab_inv strict ainv R P T)"
  by (rule allocator_contractI) (simp_all add: slab_allocator_def slab_core)

text \<open>Construction, range and drop.\<close>

lemma slab_stride_Some:
  assumes "slab_stride T = Some stride" "type_ok T"
  shows "8 \<le> unat stride" "unat (slot_align T) dvd unat stride" "unat (ty_size T) \<le> unat stride"
    "is_pow2 (slot_align T)"
proof -
  show p: "is_pow2 (slot_align T)" using assms(2) by (simp add: type_ok_def slot_align_pow2)
  note a = align_up_checkedD [OF assms(1) [unfolded slab_stride_def] p]
  show "unat (slot_align T) dvd unat stride" by (rule a(3))
  have "unat (max (ty_size T) 8) = max (unat (ty_size T)) 8"
    by (simp add: max_def word_le_nat_alt)
  then show "8 \<le> unat stride" "unat (ty_size T) \<le> unat stride" using a(1) by auto
qed

lemma slab_new_inv:
  assumes "slab_with_protection A R T capacity (b, m) = (Inr s, b', m')" "ainv b m {}" "type_ok T"
  shows "slab_inv strict ainv R P T s m' {}" "sl_backing s = b'" "unat (sl_capacity s) = unat capacity"
    "unat (ty_size T) \<le> unat (sl_block_stride s)" "sl_corruption_events s = 0"
proof -
  obtain stride tot lay p n off where st: "slab_stride T = Some stride"
    and tot: "checked_mul stride capacity = Some tot"
    and lay: "from_size_align tot (slot_align T) = Inr lay"
    and al: "al_allocate A lay (b, m) = (Inr (p, n), b', m')"
    and off: "checked_sub p (fr_base R b') = Some off"
    and cap: "capacity \<noteq> 0" "capacity \<le> ucast (- 1 :: u32)"
    and s: "s = \<lparr>sl_backing = b', sl_base_offset = off, sl_free_head = 0, sl_next_uncarved = 0,
      sl_block_stride = stride,
      sl_stride_shift = (if is_pow2 stride then word_of_nat (trailing_zeros stride) else 0),
      sl_capacity = ucast capacity, sl_backing_layout = lay, sl_corruption_events = 0\<rparr>"
    using assms(1)
    by (auto simp: slab_with_protection_def Let_def split: if_splits option.splits sum.splits prod.splits)
  note S = slab_stride_Some [OF st assms(3)]
  have v: "valid_layout lay" "lay_size lay = tot" "lay_align lay = slot_align T"
    using lay by (auto simp: from_size_align_Inr)
  have post: "block_ok lay p n" "ainv b' m' {(p, lay, n)}"
    using allocate [OF assms(2) v(1)] al by (auto simp: alloc_post_def)
  have base: "fr_base R b' + off = p"
    using off by (auto simp: checked_sub_def split: if_splits)
  have c: "unat (ucast capacity :: u32) = unat capacity" by (rule unat_ucast_capacity [OF cap(2)])
  then have c': "ucast (ucast capacity :: u32) = capacity" by (simp add: word_unat_eq_iff)
  have t: "unat tot = unat capacity * unat stride"
    using checked_mul_unat [OF tot] by (simp add: mult.commute)
  have tot': "capacity * stride = tot"
    using tot by (auto simp: checked_mul_def mult.commute split: if_splits)
  have shift: "unat (sl_stride_shift s) < 64 \<and> stride = 2 ^ unat (sl_stride_shift s)"
    if "sl_stride_shift s \<noteq> 0"
  proof -
    from that have "is_pow2 stride" by (auto simp: s split: if_splits)
    then obtain k where k: "k < 64" "stride = 2 ^ k" by (rule is_pow2E)
    then have "unat (word_of_nat k :: u32) = k" by (simp add: unat_word_of_nat)
    then show ?thesis using k \<open>is_pow2 stride\<close> by (simp add: s trailing_zeros_pow2)
  qed
  have nw: "unat p + unat tot \<le> 2 ^ 64"
    using block_ok_prefix(1) [OF post(1)] v(2) by (simp add: no_wrap_def)
  have f: "sl_block_stride s = stride" "unat (sl_capacity s) = unat capacity" "slab_base_ptr R s = p"
    "slab_size s = tot" "sl_backing_layout s = lay"
    using tot' c c' base by (simp_all add: s slab_base_ptr_def slab_size_def)
  have f2: "sl_backing s = b'" "sl_next_uncarved s = 0" "sl_free_head s = 0"
    "sl_corruption_events s = 0" by (simp_all add: s)
  have p: "p \<noteq> 0" "unat (slot_align T) dvd unat p" using block_okD(2,5) [OF post(1)] v(3) by auto
  have g: "slab_geom R T s"
    unfolding slab_geom_def region_ok_def f using S nw v(2) t p shift by simp
  then show "slab_inv strict ainv R P T s m' {}"
    using post(2) f2 by (auto simp: slab_inv_def f(3,5) f2 slab_links_def intro!: exI [of _ "[]"])
  show "sl_backing s = b'" "unat (sl_capacity s) = unat capacity"
    "unat (ty_size T) \<le> unat (sl_block_stride s)" "sl_corruption_events s = 0"
    using S f f2 by auto
qed

lemma slab_ranged:
  assumes P: "freelist_protection P"
  shows "ranged_contract (slab_allocator R P T) (slab_inv strict ainv R P T) (slab_range R)"
proof (rule ranged_contract.intro [OF slab_contract [OF P]])
  show "fixed_range_contract (slab_range R) (\<lambda>s. \<exists>m L. slab_inv strict ainv R P T s m L)"
    using slab_region_span(2)
    by unfold_locales
      (auto simp: slab_range_def default_commit_def slab_inv_def slab_geom_def region_ok_def)
  show "ranged_contract_axioms (slab_allocator R P T) (slab_inv strict ainv R P T) (slab_range R)"
  proof
    fix s m L assume "slab_inv strict ainv R P T s m L"
    then obtain fs where g: "slab_geom R T s" and sl: "slots_live strict (slab_base_ptr R s)
        (sl_block_stride s) (sl_capacity s) (sl_next_uncarved s) fs L"
      by (rule slab_invE)
    show "footprint L \<subseteq> span (fr_base (slab_range R) s) (fr_size (slab_range R) s)"
      using slots_live_footprint [OF slab_geomD(1) [OF g] sl] slab_region_span(1) [OF g]
      by (simp add: slab_range_def)
  qed (auto simp: slab_allocator_def slab_range_def dest: slab_allocate_frame slab_deallocate_frame)
qed

text \<open>Dropping the slab returns its one block, whatever is still live in it.\<close>

lemma slab_drop_post:
  assumes "slab_inv strict ainv R P T s m L"
  shows "\<exists>b m'. slab_drop A R (s, m) = Done (b, m') \<and> ainv b m' {}"
proof -
  obtain n where "ainv (sl_backing s) m {(slab_base_ptr R s, sl_backing_layout s, n)}"
    using assms by (rule slab_invE)
  from deallocate [OF this, of "slab_base_ptr R s" "sl_backing_layout s" n]
  show ?thesis
    by (auto simp: slab_drop_def dealloc_post_def split: outcome.splits)
qed

end

section \<open>Reuse, exhaustion and corruption\<close>

lemma slab_lifo:
  assumes R: "ranged_contract A ainv R" and P: "freelist_protection P"
    and inv: "slab_inv strict ainv R P T s m L" and mem: "(p, lay, n) \<in> L"
    and lay: "valid_layout lay'" "lay_align lay' \<le> slot_align T" "lay_size lay' \<le> sl_block_stride s"
  shows "\<exists>s' m'. slab_deallocate R P p lay (s, m) = Done (s', m') \<and>
    slab_allocate R P T lay' (s', m') = (Inr (p, sl_block_stride s), s, m')"
proof -
  obtain i where i: "slab_slot_index R s p = Some i" "slab_slot_ptr R s i = p" "i + 1 \<noteq> 0"
    using ranged_contract.slab_deallocate_post(2) [OF R P inv mem] by blast
  obtain fs where g: "slab_geom R T s" and ln: "slab_links R P s m fs"
    and lt: "\<forall>i \<in> set fs. i < sl_capacity s"
    using inv by (rule slab_invE)
  have "i < sl_capacity s"
    using i(1) find_slot_Some(1) by (auto simp: slab_slot_index_eq [OF g])
  note w = slab_geomD(2) [OF g] slab_geomD(5) [OF g this]
  have le: "sl_free_head s \<le> sl_capacity s"
    using ln lt free_chain_head unfolding slab_links_def by blast
  show ?thesis
    using i le lay freelist_protection.verify_sign [OF P]
      read_write_link [OF w, of m "\<lparr>fl_next_idx = sl_free_head s, fl_mac = pr_sign P (sl_free_head s) (ucast i)\<rparr>"]
    by (auto simp: slab_deallocate_def slab_allocate_def Let_def)
qed

text \<open>With strict accounting an allocation fails only when every slot is live.\<close>

lemma slab_full:
  assumes inv: "slab_inv True binv R P T s m L"
    and lay: "lay_align lay \<le> slot_align T" "lay_size lay \<le> sl_block_stride s"
    and err: "slab_allocate R P T lay (s, m) = (Inl e, s', m')" and i: "i < sl_capacity s"
  shows "\<exists>lay. (slab_slot_ptr R s i, lay, sl_block_stride s) \<in> L" "s' = s"
proof -
  obtain n fs where sl: "slots_live True (slab_base_ptr R s) (sl_block_stride s) (sl_capacity s)
      (sl_next_uncarved s) fs L"
    and ln: "slab_links R P s m fs" and lt: "\<forall>i \<in> set fs. i < sl_capacity s"
    using inv by (rule slab_invE)
  have fs: "fs = []"
  proof (cases fs)
    case (Cons j fs')
    have ch: "free_chain (\<lambda>i. fl_next_idx (read_link m (slab_slot_ptr R s i)))
        (fl_next_idx (read_link m (slab_slot_ptr R s j))) fs'"
      using ln by (simp add: slab_links_def Cons)
    have "fl_next_idx (read_link m (slab_slot_ptr R s j)) \<le> sl_capacity s"
      by (rule free_chain_head [OF ch]) (use lt Cons in auto)
    then show ?thesis
      using ln lay err by (auto simp: slab_links_def Cons slab_allocate_def Let_def split: if_splits)
  qed simp
  then have h: "sl_free_head s = 0" using ln by (simp add: slab_links_def)
  then have "sl_next_uncarved s \<ge> sl_capacity s" and s': "s' = s"
    using err lay by (auto simp: slab_allocate_def slab_carve_def Let_def split: if_splits)
  then have "i < sl_next_uncarved s" using i by simp
  then show "\<exists>lay. (slab_slot_ptr R s i, lay, sl_block_stride s) \<in> L"
    using slots_liveD(5) [OF sl] fs by (simp add: slab_slot_ptr_def)
  show "s' = s" by (rule s')
qed

text \<open>
  What holds whatever an attacker has written into the slots: the head and the carve index stay
  in bounds, so every address handed out is that of a slot.
\<close>

definition slab_bounded :: "'b fixed_range \<Rightarrow> type_layout \<Rightarrow> 'b slab \<Rightarrow> bool" where
  "slab_bounded R T s \<longleftrightarrow> slab_geom R T s \<and> sl_free_head s \<le> sl_capacity s \<and>
     sl_next_uncarved s \<le> sl_capacity s"

lemma slab_inv_bounded: "slab_inv strict binv R P T s m L \<Longrightarrow> slab_bounded R T s"
  by (elim slab_invE)
    (auto simp: slab_bounded_def slab_links_def dest: slots_liveD(2) free_chain_head)

lemma word_less_inc_le: "(x :: u32) < c \<Longrightarrow> x + 1 \<le> c"
  by (rule inc_le)

lemma slab_head_slot: "h \<noteq> 0 \<Longrightarrow> h \<le> c \<Longrightarrow> h - 1 < (c :: u32)"
  using unat_gt_0 [of h] by (simp add: word_less_nat_alt word_le_nat_alt unat_minus_one)

lemma slab_bounded_allocate:
  assumes b: "slab_bounded R T s" and a: "slab_allocate R P T lay (s, m) = (r, s', m')"
  shows "slab_bounded R T s' \<and> m' = m \<and>
    (case r of Inl e \<Rightarrow> True
     | Inr (p, n) \<Rightarrow> n = sl_block_stride s \<and> (\<exists>i < sl_capacity s. p = slab_slot_ptr R s i))"
proof -
  have head: "sl_free_head s - 1 < sl_capacity s" if "sl_free_head s \<noteq> 0"
    using b that by (simp add: slab_bounded_def slab_head_slot)
  have slot: "slab_slot_ptr R s' = slab_slot_ptr R s" by (rule slab_allocate_frame(5) [OF a])
  have geom: "slab_geom R T s'"
    using b slab_allocate_frame [OF a] slab_allocate_rest [OF a]
    by (simp add: slab_bounded_def slab_geom_def)
  have bounds: "sl_free_head s' \<le> sl_capacity s' \<and> sl_next_uncarved s' \<le> sl_capacity s'"
    using a b
    by (auto simp: slab_allocate_def slab_carve_def slab_bounded_def Let_def not_le word_less_inc_le
        split: if_splits)
  have block: "n = sl_block_stride s \<and> (\<exists>i < sl_capacity s. p = slab_slot_ptr R s i)"
    if "r = Inr (p, n)" for p n
    using a head that slab_slot_ptr_update [of R _ s]
    by (auto simp: slab_allocate_def slab_carve_def Let_def not_le split: if_splits)
  show ?thesis
    using geom bounds block slab_allocate_frame(1) [OF a]
    by (cases r) (auto simp: slab_bounded_def)
qed

lemma slab_bounded_deallocate:
  assumes "slab_bounded R T s" "slab_deallocate R P p lay (s, m) = Done (s', m')"
  shows "slab_bounded R T s'"
  using assms find_slot_Some(1) slab_slot_index_eq
  by (fastforce simp: slab_deallocate_def slab_bounded_def Let_def word_less_inc_le
      split: option.splits)

text \<open>A rejected head link: one event is counted, the whole chain dropped, a fresh slot served.\<close>

definition slab_head_rejected :: "'b fixed_range \<Rightarrow> protection \<Rightarrow> 'b slab \<Rightarrow> mem \<Rightarrow> bool" where
  "slab_head_rejected R P s m \<longleftrightarrow> sl_free_head s \<noteq> 0 \<and>
     (let idx = sl_free_head s - 1; l = read_link m (slab_slot_ptr R s idx)
      in pr_verify P (fl_next_idx l) (fl_mac l) (ucast idx) \<noteq> Inr () \<or> fl_next_idx l > sl_capacity s)"

lemma slab_rejected_eq:
  assumes "slab_head_rejected R P s m" "lay_align lay \<le> slot_align T" "lay_size lay \<le> sl_block_stride s"
  shows "slab_allocate R P T lay (s, m) =
    slab_carve R (s\<lparr>sl_corruption_events := sl_corruption_events s + 1, sl_free_head := 0\<rparr>, m)"
  using assms(1) assms(2,3) [THEN leD] by (auto simp: slab_allocate_def slab_head_rejected_def Let_def)

text \<open>The slot of a rejected link is below the uncarved ones, so it is not the one served.\<close>

lemma slab_uncarved_fresh:
  assumes "slab_inv strict binv R P T s m L" "sl_free_head s \<noteq> 0" "sl_next_uncarved s < sl_capacity s"
  shows "slab_slot_ptr R s (sl_next_uncarved s) \<noteq> slab_slot_ptr R s (sl_free_head s - 1)"
proof -
  obtain fs where g: "slab_geom R T s" and fs: "\<forall>i \<in> set fs. i < sl_next_uncarved s"
    and ch: "slab_links R P s m fs"
    using assms(1) by (elim slab_invE) (blast dest: slots_liveD(4))
  from ch assms(2) have "sl_free_head s - 1 \<in> set fs" by (cases fs) (auto simp: slab_links_def)
  then have "sl_free_head s - 1 < sl_next_uncarved s" using fs by blast
  moreover from this have "sl_free_head s - 1 < sl_capacity s" using assms(3) by simp
  ultimately show ?thesis
    using slot_addr_inj [OF slab_geomD(1) [OF g] assms(3), of "sl_free_head s - 1"]
    by (auto simp: slab_slot_ptr_def)
qed

lemma slab_rejected_allocate:
  assumes R: "ranged_contract A ainv R" and inv: "slab_inv strict ainv R P T s m L"
    and tamper: "same_on (- span (slab_base_ptr R s) (slab_size s)) m m'"
    and rej: "slab_head_rejected R P s m'"
    and lay: "valid_layout lay" "lay_align lay \<le> slot_align T" "lay_size lay \<le> sl_block_stride s"
    and a: "slab_allocate R P T lay (s, m') = (r, s', m'')"
  shows "alloc_post (slab_inv False ainv R P T) L lay m' (r, s', m'')"
proof -
  obtain n fs where g: "slab_geom R T s"
    and b: "ainv (sl_backing s) m {(slab_base_ptr R s, sl_backing_layout s, n)}"
    and sl: "slots_live strict (slab_base_ptr R s) (sl_block_stride s) (sl_capacity s)
      (sl_next_uncarved s) fs L"
    using inv by (rule slab_invE)
  let ?s = "s\<lparr>sl_corruption_events := sl_corruption_events s + 1, sl_free_head := 0\<rparr>"
  note eq = slab_rejected_eq [OF rej lay(2,3)]
  have core: "allocator_core (al_allocate A) (al_deallocate A) (al_usable_size A) ainv"
    using R by (simp add: ranged_contract_def allocator_contract_def)
  have "span (slab_base_ptr R s) (slab_size s) \<subseteq> footprint {(slab_base_ptr R s, sl_backing_layout s, n)}"
    using block_ok_prefix(2) [OF allocator_core.inv_block [OF core b, of "slab_base_ptr R s"]] g
    by (simp add: slab_geom_def)
  then have "ainv (sl_backing s) m' {(slab_base_ptr R s, sl_backing_layout s, n)}"
    using tamper by (intro allocator_core.user_write [OF core b]) (auto simp: same_on_def)
  moreover have "slots_live False (slab_base_ptr R s) (sl_block_stride s) (sl_capacity s)
      (sl_next_uncarved s) [] L"
    using slots_live_drop_chain [OF sl] .
  moreover have "slab_geom R T ?s" "slab_base_ptr R ?s = slab_base_ptr R s"
    using g by (simp_all add: slab_geom_def slab_base_ptr_def slab_size_def)
  ultimately have inv': "slab_inv False ainv R P T ?s m' L"
    by (auto simp: slab_inv_def slab_links_def intro!: exI [of _ "[]"])
  from slab_carve_post [OF inv' lay(1)] lay(2,3) eq a
  show "alloc_post (slab_inv False ainv R P T) L lay m' (r, s', m'')" by simp
qed

lemma slab_slot_index_iff:
  assumes "slab_geom R T s"
  shows "slab_slot_index R s p = Some i \<longleftrightarrow> i < sl_capacity s \<and> p = slab_slot_ptr R s i"
  unfolding slab_slot_index_eq [OF assms] slab_slot_ptr_def
  using find_slot_Some find_slot_slot_addr [OF slab_geomD(1) [OF assms]] by blast

text \<open>
  Any sequence of calls on the slab, with any pointers, any layouts and, before each call, any
  memory whatsoever; the list collects the blocks handed out.
\<close>

inductive tampered_run ::
  "'b fixed_range \<Rightarrow> protection \<Rightarrow> type_layout \<Rightarrow> 'b slab \<Rightarrow> block list \<Rightarrow> 'b slab \<Rightarrow> bool"
  for R P T where
  t_nil: "tampered_run R P T s [] s"
| t_alloc: "slab_allocate R P T lay (s, m) = (r, s', m') \<Longrightarrow> tampered_run R P T s' bs s'' \<Longrightarrow>
    tampered_run R P T s ((case r of Inl e \<Rightarrow> [] | Inr b \<Rightarrow> [b]) @ bs) s''"
| t_free: "slab_deallocate R P p lay (s, m) = Done (s', m') \<Longrightarrow> tampered_run R P T s' bs s'' \<Longrightarrow>
    tampered_run R P T s bs s''"

lemma slab_deallocate_geom:
  assumes "slab_deallocate R P p lay (s, m) = Done (s', m')"
  shows "sl_block_stride s' = sl_block_stride s" "sl_capacity s' = sl_capacity s"
    "slab_slot_ptr R s' = slab_slot_ptr R s"
  using assms
  by (auto simp: slab_deallocate_def Let_def slab_slot_ptr_def slab_base_ptr_def fun_eq_iff
      split: option.splits)

lemma tampered_run_blocks:
  "tampered_run R P T s bs s' \<Longrightarrow> slab_bounded R T s \<Longrightarrow>
     slab_bounded R T s' \<and>
     (\<forall>(p, n) \<in> set bs. n = sl_block_stride s \<and> (\<exists>i < sl_capacity s. p = slab_slot_ptr R s i))"
proof (induction rule: tampered_run.induct)
  case (t_alloc lay s m r s' m' bs s'')
  note a = slab_bounded_allocate [OF t_alloc.prems t_alloc.hyps(1)]
    slab_allocate_frame [OF t_alloc.hyps(1)]
  show ?case using t_alloc.IH a by (cases r) auto
next
  case (t_free p lay s m s' m' bs s'')
  then show ?case
    using slab_bounded_deallocate [OF t_free.prems t_free.hyps(1)]
      slab_deallocate_geom [OF t_free.hyps(1)] by auto
qed simp

end
