(* ===== verification/Ownership.thy ===== *)
theory Ownership
  imports Bump_Arena Backings Slab
begin

text \<open>
  Rust's ownership, for allocators that live side by side: each one reads and writes only the
  memory it owns. The contract of a single allocator says nothing of the bytes outside the live
  blocks; two allocators in one program need this extension of it. \<open>InlineBacked\<close>, \<open>BumpArena\<close>
  and \<open>Slab\<close> own the range of their backing.
\<close>

locale owned_contract = allocator_contract A ainv
  for A :: "'a allocator" and ainv :: "'a \<Rightarrow> mem \<Rightarrow> live \<Rightarrow> bool" +
  fixes own :: "'a \<Rightarrow> addr set"
  assumes own_live: "ainv s m L \<Longrightarrow> footprint L \<subseteq> own s"
    and own_local: "ainv s m L \<Longrightarrow> same_on (own s) m m' \<Longrightarrow> ainv s m' L"
    and own_allocate: "ainv s m L \<Longrightarrow> valid_layout lay \<Longrightarrow>
      al_allocate A lay (s, m) = (r, s', m') \<Longrightarrow> own s' = own s \<and> same_on (- own s) m m'"
    and own_zeroed: "ainv s m L \<Longrightarrow> valid_layout lay \<Longrightarrow>
      al_allocate_zeroed A lay (s, m) = (r, s', m') \<Longrightarrow> own s' = own s \<and> same_on (- own s) m m'"
    and own_deallocate: "ainv s m L \<Longrightarrow> (p, lay, n) \<in> L \<Longrightarrow>
      al_deallocate A p lay (s, m) = Done (s', m') \<Longrightarrow> own s' = own s \<and> same_on (- own s) m m'"
begin

text \<open>What happens in a disjoint part of memory is no business of this allocator.\<close>

lemma own_elsewhere:
  assumes "ainv s m L" "same_on (- T) m m'" "own s \<inter> T = {}"
  shows "ainv s m' L"
  using assms by (intro own_local [OF assms(1)]) (auto simp: same_on_def)

end

text \<open>An implementor with the default \<open>allocate_zeroed\<close> owes nothing more for it.\<close>

lemma default_zeroed_owned:
  assumes A: "allocator_contract A ainv"
    and live: "\<And>s m L. ainv s m L \<Longrightarrow> footprint L \<subseteq> own s"
    and alloc: "\<And>s m L lay r s' m'. ainv s m L \<Longrightarrow> valid_layout lay \<Longrightarrow>
      al_allocate A lay (s, m) = (r, s', m') \<Longrightarrow> own s' = own s \<and> same_on (- own s) m m'"
    and inv: "ainv s m L" and lay: "valid_layout lay"
    and z: "default_allocate_zeroed (al_allocate A) lay (s, m) = (r, s', m')"
  shows "own s' = own s \<and> same_on (- own s) m m'"
proof -
  have core: "allocator_core (al_allocate A) (al_deallocate A) (al_usable_size A) ainv"
    using A by (simp add: allocator_contract_def)
  obtain r1 s1 m1 where al: "al_allocate A lay (s, m) = (r1, s1, m1)"
    by (cases "al_allocate A lay (s, m)") auto
  note o = alloc [OF inv lay al]
  show ?thesis
  proof (cases r1)
    case (Inl e)
    then show ?thesis using z al o by (simp add: default_allocate_zeroed_def)
  next
    case (Inr b)
    obtain p n where b: "b = (p, n)" by (cases b)
    have "block_ok lay p n" "ainv s1 m1 (insert (p, lay, n) L)"
      using allocator_core.allocate [OF core inv lay] al Inr b by (auto simp: alloc_post_def)
    then have "span p (lay_size lay) \<subseteq> own s"
      using live [of s1 m1 "insert (p, lay, n) L"] block_ok_prefix(2) [of lay p n] o by auto
    then have "same_on (- own s) m1 (write_bytes m1 p 0 (lay_size lay))"
      by (auto simp: same_on_def intro!: write_bytes_other)
    then show ?thesis
      using z al o Inr b by (auto simp: default_allocate_zeroed_def intro: same_on_trans)
  qed
qed

section \<open>InlineBacked, BumpArena and Slab\<close>

definition inline_own :: "usize \<Rightarrow> inline_backed \<Rightarrow> addr set" where
  "inline_own N b = span (ib_addr b) N"

definition bump_own :: "'b fixed_range \<Rightarrow> 'b bump_arena \<Rightarrow> addr set" where
  "bump_own R a = span (fr_base R (ba_backing a)) (ba_capacity a)"

definition slab_own :: "('b \<Rightarrow> addr set) \<Rightarrow> 'b slab \<Rightarrow> addr set" where
  "slab_own own s = own (sl_backing s)"

lemma inline_owned: "owned_contract (inline_allocator N) (inline_inv N) (inline_own N)"
proof -
  have alloc: "inline_own N b' = inline_own N b \<and> same_on (- inline_own N b) m m'"
    if "al_allocate (inline_allocator N) lay (b, m) = (r, b', m')" for lay r m m' and b b' :: inline_backed
    using that
    by (auto simp: inline_allocator_def inline_allocate_def Let_def inline_own_def split: if_splits sum.splits)
  have live: "footprint L \<subseteq> inline_own N b" if "inline_inv N b m L" for b m L
    using inline.in_range [OF that] by (simp add: inline_own_def inline_range_def)
  show ?thesis
  proof (rule owned_contract.intro [OF inline_contract owned_contract_axioms.intro])
    fix b m L lay r b' m'
    assume i: "inline_inv N b m L" and lay: "valid_layout lay"
    show "inline_own N b' = inline_own N b \<and> same_on (- inline_own N b) m m'"
      if "al_allocate_zeroed (inline_allocator N) lay (b, m) = (r, b', m')"
      by (rule default_zeroed_owned [where r = r, OF inline_contract live alloc i lay])
        (use that in \<open>simp_all add: inline_allocator_def\<close>)
  qed (use live alloc inline_inv_mono in \<open>auto simp: inline_allocator_def inline_deallocate_def\<close>)
qed

interpretation inline_owned: owned_contract "inline_allocator N" "inline_inv N" "inline_own N"
  by (rule inline_owned)

context fixed_range_contract
begin

lemma bump_owned: "owned_contract (bump_allocator R) (bump_inv R rinv) (bump_own R)"
proof -
  have alloc: "bump_own R a' = bump_own R a \<and> same_on (- bump_own R a) m m'"
    if "bump_inv R rinv a m L" "valid_layout lay" "al_allocate (bump_allocator R) lay (a, m) = (r, a', m')"
    for lay r m m' L and a a' :: "'b bump_arena"
    using that
    by (auto simp: bump_allocator_def bump_allocate_def bump_own_def split: prod.splits sum.splits
        dest: bump_reserve_cases)
  have live: "footprint L \<subseteq> bump_own R a" if "bump_inv R rinv a m L" for a m L
    using ranged_contract.in_range [OF bump_ranged that]
    by (simp add: bump_own_def bump_range_def bump_capacity_def)
  show ?thesis
  proof (rule owned_contract.intro [OF bump_contract owned_contract_axioms.intro])
    fix a m L lay r a' m'
    assume i: "bump_inv R rinv a m L" and lay: "valid_layout lay"
    show "bump_own R a' = bump_own R a \<and> same_on (- bump_own R a) m m'"
      if "al_allocate_zeroed (bump_allocator R) lay (a, m) = (r, a', m')"
      by (rule default_zeroed_owned [where r = r, OF bump_contract live alloc i lay])
        (use that in \<open>simp_all add: bump_allocator_def\<close>)
  qed (use live alloc bump_inv_mono in \<open>auto simp: bump_allocator_def bump_deallocate_def\<close>)
qed

end

text \<open>A slab owns what its backing owns: its slot region is one of the backing's live blocks.\<close>

locale owned_ranged = owned_contract A ainv own + ranged_contract A ainv R
  for A :: "'a allocator" and ainv :: "'a \<Rightarrow> mem \<Rightarrow> live \<Rightarrow> bool" and own :: "'a \<Rightarrow> addr set"
    and R :: "'a fixed_range" +
  assumes range_own: "ainv s m L \<Longrightarrow> span (fr_base R s) (fr_size R s) \<subseteq> own s"
begin

lemma slab_live_owned:
  assumes "slab_inv strict ainv R P T s m L"
  shows "footprint L \<subseteq> slab_own own s" "span (slab_base_ptr R s) (slab_size s) \<subseteq> slab_own own s"
proof -
  obtain n fs where g: "slab_geom R T s"
    and b: "ainv (sl_backing s) m {(slab_base_ptr R s, sl_backing_layout s, n)}"
    and sl: "slots_live strict (slab_base_ptr R s) (sl_block_stride s) (sl_capacity s)
      (sl_next_uncarved s) fs L"
    using assms by (rule slab_invE)
  show r: "span (slab_base_ptr R s) (slab_size s) \<subseteq> slab_own own s"
    using own_live [OF b] block_ok_prefix(2) [OF inv_block [OF b, of "slab_base_ptr R s"]] g
    by (auto simp: slab_own_def slab_geom_def)
  show "footprint L \<subseteq> slab_own own s"
    using slots_live_footprint [OF slab_geomD(1) [OF g] sl] slab_region_span(1) [OF g] r by simp
qed

lemma slab_owned:
  assumes P: "freelist_protection P"
  shows "owned_contract (slab_allocator R P T) (slab_inv strict ainv R P T) (slab_own own)"
proof (rule owned_contract.intro [OF slab_contract [OF P] owned_contract_axioms.intro])
  have alloc: "slab_own own s' = slab_own own s \<and> same_on (- slab_own own s) m m'"
    if "al_allocate (slab_allocator R P T) lay (s, m) = (r, s', m')" for s s' m m' lay r
    using slab_allocate_frame(1,7) [of R P T lay s m r s' m'] that
    by (simp add: slab_allocator_def slab_own_def)
  fix s m L assume inv: "slab_inv strict ainv R P T s m L"
  show "footprint L \<subseteq> slab_own own s" by (rule slab_live_owned [OF inv])
  show "slab_inv strict ainv R P T s m' L" if same: "same_on (slab_own own s) m m'" for m'
  proof -
    obtain n fs where g: "slab_geom R T s"
      and b: "ainv (sl_backing s) m {(slab_base_ptr R s, sl_backing_layout s, n)}"
      and sl: "slots_live strict (slab_base_ptr R s) (sl_block_stride s) (sl_capacity s)
        (sl_next_uncarved s) fs L"
      and ln: "slab_links R P s m fs" and lt: "\<forall>i \<in> set fs. i < sl_capacity s"
      using inv by (rule slab_invE)
    have "same_on (span (slab_slot_ptr R s i) (sl_block_stride s)) m m'" if "i \<in> set fs" for i
    proof (rule same_on_mono [OF same])
      show "span (slab_slot_ptr R s i) (sl_block_stride s) \<subseteq> slab_own own s"
        using slot_in_region [OF slab_geomD(1) [OF g], of i] lt that slab_region_span(1) [OF g]
          slab_live_owned(2) [OF inv] by (auto simp: slab_slot_ptr_def)
    qed
    from slab_links_cong [OF ln g lt this]
    show ?thesis
      using g sl own_local [OF b] same by (auto simp: slab_inv_def slab_own_def)
  qed
  show "slab_own own s' = slab_own own s \<and> same_on (- slab_own own s) m m'"
    if "al_allocate (slab_allocator R P T) lay (s, m) = (r, s', m')" for lay r s' m'
    by (rule alloc [OF that])
  show "slab_own own s' = slab_own own s \<and> same_on (- slab_own own s) m m'"
    if "valid_layout lay" "al_allocate_zeroed (slab_allocator R P T) lay (s, m) = (r, s', m')" for lay r s' m'
    by (rule default_zeroed_owned [where r = r, OF slab_contract [OF P] slab_live_owned(1) alloc inv that(1)])
      (use that(2) in \<open>simp_all add: slab_allocator_def\<close>)
  show "slab_own own s' = slab_own own s \<and> same_on (- slab_own own s) m m'"
    if mem: "(p, lay, n) \<in> L" and d: "al_deallocate (slab_allocator R P T) p lay (s, m) = Done (s', m')"
    for p lay n s' m'
  proof -
    obtain i where i: "slab_slot_index R s p = Some i" "slab_slot_ptr R s i = p"
      using slab_deallocate_post(2) [OF P inv mem] by blast
    obtain k fs where g: "slab_geom R T s" using inv by (rule slab_invE)
    have lt: "i < sl_capacity s"
      using i(1) find_slot_Some(1) by (auto simp: slab_slot_index_eq [OF g])
    have sub: "span p (sl_block_stride s) \<subseteq> slab_own own s"
      using slot_in_region [OF slab_geomD(1) [OF g] lt] slab_region_span(1) [OF g]
        slab_live_owned(2) [OF inv] i(2) by (auto simp: slab_slot_ptr_def)
    have w: "write_link m p l a = m a" if "a \<notin> slab_own own s" for a l
      by (rule write_link_other [OF slab_geomD(2) [OF g] slab_geomD(5) [OF g lt, unfolded i(2)]])
        (use that sub in auto)
    show ?thesis
      using d i w by (auto simp: slab_allocator_def slab_deallocate_def Let_def slab_own_def same_on_def)
  qed
qed

end

interpretation inline_owned_ranged:
  owned_ranged "inline_allocator N" "inline_inv N" "inline_own N" "inline_range N"
  by unfold_locales (simp add: inline_own_def inline_range_def)

lemma bump_owned_ranged:
  assumes "fixed_range_contract R rinv"
  shows "owned_ranged (bump_allocator R) (bump_inv R rinv) (bump_own R) (bump_range R)"
  by (intro owned_ranged.intro owned_ranged_axioms.intro
      fixed_range_contract.bump_owned [OF assms] fixed_range_contract.bump_ranged [OF assms])
    (simp add: bump_own_def bump_range_def bump_capacity_def)

lemma slab_owned_ranged:
  assumes "owned_ranged A ainv own R" "freelist_protection P"
  shows "owned_ranged (slab_allocator R P T) (slab_inv strict ainv R P T) (slab_own own) (slab_range R)"
proof (intro owned_ranged.intro owned_ranged_axioms.intro)
  show "owned_contract (slab_allocator R P T) (slab_inv strict ainv R P T) (slab_own own)"
    by (rule owned_ranged.slab_owned [OF assms])
  show "ranged_contract (slab_allocator R P T) (slab_inv strict ainv R P T) (slab_range R)"
    by (rule ranged_contract.slab_ranged [OF owned_ranged.axioms(2) [OF assms(1)] assms(2)])
  show "slab_inv strict ainv R P T s m L \<Longrightarrow>
      span (fr_base (slab_range R) s) (fr_size (slab_range R) s) \<subseteq> slab_own own s" for s m L
    using owned_ranged.slab_live_owned(2) [OF assms(1)] by (simp add: slab_range_def)
qed

end
