(* ===== verification/Stack_Allocator.thy ===== *)
theory Stack_Allocator
  imports Bump_Carve
begin

text \<open>
  \<open>forge-alloc/src/layout/stack_alloc.rs\<close>: a LIFO arena. Each allocation pushes a frame with its
  offset and the cursor before it; a free that matches the top frame pops it and restores that
  cursor, alignment padding included. The head of \<open>st_frames\<close> is the end of the source's \<open>Vec\<close>.
  In a release build a free out of order is ignored, which leaks the block and is safe.
\<close>

record 'b stack_alloc =
  st_backing :: 'b
  st_capacity :: usize
  st_cursor :: usize
  st_frames :: "(usize \<times> usize) list"

text \<open>\<open>reserve_ok\<close> is the answer of \<open>Vec::try_reserve_exact\<close>.\<close>

definition stack_with_max_depth ::
  "'b fixed_range \<Rightarrow> (usize \<Rightarrow> bool) \<Rightarrow> 'b \<Rightarrow> usize \<Rightarrow> 'b stack_alloc res" where
  "stack_with_max_depth R reserve_ok backing max_depth =
     (let capacity = fr_size R backing
      in if capacity = 0 then Inl AllocError
         else if max_depth > 0 \<and> \<not> reserve_ok max_depth then Inl AllocError
         else Inr \<lparr>st_backing = backing, st_capacity = capacity, st_cursor = 0, st_frames = []\<rparr>)"

definition stack_new :: "'b fixed_range \<Rightarrow> (usize \<Rightarrow> bool) \<Rightarrow> 'b \<Rightarrow> 'b stack_alloc res" where
  "stack_new R reserve_ok backing = stack_with_max_depth R reserve_ok backing 0"

definition stack_allocated :: "'b stack_alloc \<Rightarrow> usize" where
  "stack_allocated a = st_cursor a"

definition stack_remaining :: "'b stack_alloc \<Rightarrow> usize" where
  "stack_remaining a = st_capacity a - stack_allocated a"

definition stack_deallocate :: "'b fixed_range \<Rightarrow> 'b stack_alloc dealloc_fun" where
  "stack_deallocate R p lay s =
     (case s of (a, m) \<Rightarrow>
        let p_off = p - fr_base R (st_backing a)
        in case st_frames a of
             [] \<Rightarrow> Done (a, m)
           | (top_off, prev_cursor) # fs \<Rightarrow>
               if top_off \<noteq> p_off then Done (a, m)
               else Done (a\<lparr>st_frames := fs, st_cursor := prev_cursor\<rparr>, m))"

definition stack_allocate :: "'b fixed_range \<Rightarrow> 'b stack_alloc alloc_fun" where
  "stack_allocate R lay s =
     (case s of (a, m) \<Rightarrow>
        let align = lay_align lay; sz = lay_size lay; base = fr_base R (st_backing a);
            cur = st_cursor a
        in case bump_carve base (st_capacity a) cur align sz of
             Inl e \<Rightarrow> (Inl e, a, m)
           | Inr (aligned_off, end_off) \<Rightarrow>
               (case fr_commit R (st_backing a) aligned_off sz of
                  (Inl e, b) \<Rightarrow> (Inl e, a\<lparr>st_backing := b\<rparr>, m)
                | (Inr _, b) \<Rightarrow>
                    (Inr (base + aligned_off, sz),
                     a\<lparr>st_backing := b, st_frames := (aligned_off, cur) # st_frames a,
                       st_cursor := end_off\<rparr>, m)))"

definition stack_allocator :: "'b fixed_range \<Rightarrow> 'b stack_alloc allocator" where
  "stack_allocator R =
     \<lparr>al_allocate = stack_allocate R,
      al_allocate_zeroed = default_allocate_zeroed (stack_allocate R),
      al_deallocate = stack_deallocate R,
      al_grow = default_grow (stack_allocate R) (stack_deallocate R),
      al_shrink = default_shrink (stack_allocate R) (stack_deallocate R),
      al_reset = default_reset,
      al_usable_size = default_usable_size,
      al_capacity_bytes = (\<lambda>a. Some (st_capacity a)),
      al_corruption_events = default_corruption_events\<rparr>"

definition stack_range :: "'b fixed_range \<Rightarrow> 'b stack_alloc fixed_range" where
  "stack_range R =
     \<lparr>fr_base = (\<lambda>a. fr_base R (st_backing a)), fr_size = st_capacity, fr_commit = default_commit\<rparr>"

section \<open>The invariant\<close>

text \<open>
  The live blocks sit in frames: below every frame the blocks end at the cursor it recorded, and
  the frame's own block, when still live, starts at its offset.
\<close>

fun stack_live :: "addr \<Rightarrow> usize \<Rightarrow> (usize \<times> usize) list \<Rightarrow> live \<Rightarrow> bool" where
  "stack_live base cur [] L \<longleftrightarrow> L = {}"
| "stack_live base cur ((off, prev) # fs) L \<longleftrightarrow>
     prev \<le> off \<and> off \<le> cur \<and> unat (base + off) = unat base + unat off \<and>
     (\<exists>K. stack_live base prev fs K \<and>
        (L = K \<or> (\<exists>lay n. L = insert (base + off, lay, n) K \<and> unat off + unat n \<le> unat cur)))"

definition stack_inv ::
  "'b fixed_range \<Rightarrow> ('b \<Rightarrow> bool) \<Rightarrow> 'b stack_alloc \<Rightarrow> mem \<Rightarrow> live \<Rightarrow> bool" where
  "stack_inv R rinv a m L \<longleftrightarrow> rinv (st_backing a) \<and>
     st_capacity a = fr_size R (st_backing a) \<and> st_cursor a \<le> st_capacity a \<and>
     live_ok L \<and> stack_live (fr_base R (st_backing a)) (st_cursor a) (st_frames a) L"

lemma stack_live_bounds:
  "stack_live base cur fs L \<Longrightarrow> (p, lay, n) \<in> L \<Longrightarrow>
     unat base \<le> unat p \<and> unat p + unat n \<le> unat base + unat cur"
proof (induction base cur fs L arbitrary: p lay n rule: stack_live.induct)
  case (2 base cur off prev fs L)
  then obtain K where K: "stack_live base prev fs K" "prev \<le> off" "off \<le> cur"
    "unat (base + off) = unat base + unat off"
    "L = K \<or> (\<exists>lay n. L = insert (base + off, lay, n) K \<and> unat off + unat n \<le> unat cur)"
    by auto
  show ?case
  proof (cases "(p, lay, n) \<in> K")
    case True
    then have "unat base \<le> unat p \<and> unat p + unat n \<le> unat base + unat prev"
      using "2.IH" K(1) by blast
    then show ?thesis using K(2,3) by (auto simp: word_le_nat_alt)
  next
    case False
    then have "p = base + off" "unat off + unat n \<le> unat cur"
      using K(5) "2.prems"(2) by auto
    then show ?thesis using K(4) by simp
  qed
qed auto

lemma stack_live_bump: "stack_live base cur fs L \<Longrightarrow> live_ok L \<Longrightarrow> bump_live base cur L"
  by (auto simp: bump_live_def dest: stack_live_bounds)

lemma stack_live_mono: "stack_live base cur fs L \<Longrightarrow> K \<subseteq> L \<Longrightarrow> stack_live base cur fs K"
proof (induction base cur fs L arbitrary: K rule: stack_live.induct)
  case (2 base cur off prev fs L)
  then obtain M where M: "stack_live base prev fs M"
    and L: "L = M \<or> (\<exists>lay n. L = insert (base + off, lay, n) M \<and> unat off + unat n \<le> unat cur)"
    by auto
  show ?case
  proof (cases "K \<subseteq> M")
    case True
    then have "stack_live base prev fs K" using "2.IH" M by blast
    then show ?thesis using "2.prems"(1) by auto
  next
    case False
    then obtain lay n where ln: "L = insert (base + off, lay, n) M" "unat off + unat n \<le> unat cur"
      using L "2.prems"(2) by auto
    have "(base + off, lay, n) \<in> K" using False ln(1) "2.prems"(2) by auto
    then have "K = insert (base + off, lay, n) (K - {(base + off, lay, n)})" by auto
    moreover have "stack_live base prev fs (K - {(base + off, lay, n)})"
      using "2.IH" [OF M] "2.prems"(2) ln(1) by blast
    ultimately show ?thesis using "2.prems"(1) ln(2) by auto
  qed
qed auto

text \<open>Freeing the top frame's block leaves exactly the blocks below the frame.\<close>

lemma stack_live_pop:
  assumes "stack_live base cur ((off, prev) # fs) L" "live_ok L" "(base + off, lay, n) \<in> L"
  shows "stack_live base prev fs (L - {(base + off, lay, n)})"
proof -
  obtain K where K: "stack_live base prev fs K" "prev \<le> off"
    "unat (base + off) = unat base + unat off"
    "L = K \<or> (\<exists>lay n. L = insert (base + off, lay, n) K)"
    using assms(1) by auto
  have "(base + off, lay', n') \<notin> K" if "(base + off, lay', n') \<in> L" for lay' n'
  proof
    assume "(base + off, lay', n') \<in> K"
    then have "unat (base + off) + unat n' \<le> unat base + unat prev"
      using stack_live_bounds [OF K(1)] by blast
    then have "unat n' = 0" using K(2,3) by (simp add: word_le_nat_alt)
    then show False using block_okD(6) [OF live_okD [OF assms(2) that]] by simp
  qed
  then have "L - {(base + off, lay, n)} = K"
    using K(4) assms(3) by auto
  then show ?thesis using K(1) by simp
qed

context fixed_range_contract
begin

lemma stack_allocate_post:
  assumes "stack_inv R rinv a m L" "valid_layout lay"
  shows "alloc_post (stack_inv R rinv) L lay m (stack_allocate R lay (a, m))"
proof -
  let ?base = "fr_base R (st_backing a)"
  have i: "rinv (st_backing a)" "st_capacity a = fr_size R (st_backing a)"
    "st_cursor a \<le> st_capacity a" "live_ok L" "stack_live ?base (st_cursor a) (st_frames a) L"
    using assms(1) by (auto simp: stack_inv_def)
  note base = base_nonnull [OF i(1)] range_no_wrap [OF i(1), folded i(2)]
  have bl: "bump_live ?base (st_cursor a) L" by (rule stack_live_bump [OF i(5,4)])
  show ?thesis
  proof (cases "bump_carve ?base (st_capacity a) (st_cursor a) (lay_align lay) (lay_size lay)")
    case (Inl e)
    then show ?thesis
      using assms by (simp add: stack_allocate_def alloc_post_def Let_def)
  next
    case (Inr x)
    obtain off fin where x: "x = (off, fin)" by (cases x)
    note carve = Inr [unfolded x]
    note c = bump_carve_live [OF carve assms(2) base bl]
      and n = bump_carve_Inr [OF carve valid_layoutD(3) [OF assms(2)]]
    obtain r b where cm: "fr_commit R (st_backing a) off (lay_size lay) = (r, b)"
      by (cases "fr_commit R (st_backing a) off (lay_size lay)") auto
    note f = commit_frame [OF i(1) cm]
    have "stack_live ?base fin ((off, st_cursor a) # st_frames a)
        (insert (?base + off, lay, lay_size lay) L)"
      using i(5) n by (auto simp: word_le_nat_alt)
    then show ?thesis
      using assms(1) carve cm f i c live_ok_insert [OF i(4) c(1,2)]
      by (cases r) (auto simp: stack_allocate_def alloc_post_def Let_def stack_inv_def word_le_nat_alt)
  qed
qed

lemma stack_deallocate_post:
  assumes "stack_inv R rinv a m L" "(p, lay, n) \<in> L"
  shows "dealloc_post (stack_inv R rinv) (L - {(p, lay, n)}) m (stack_deallocate R p lay (a, m))"
proof -
  let ?base = "fr_base R (st_backing a)" and ?K = "L - {(p, lay, n)}"
  have i: "rinv (st_backing a)" "st_capacity a = fr_size R (st_backing a)"
    "st_cursor a \<le> st_capacity a" "live_ok L" "stack_live ?base (st_cursor a) (st_frames a) L"
    using assms(1) by (auto simp: stack_inv_def)
  have same: "stack_inv R rinv a m ?K"
    using i stack_live_mono [OF i(5), of ?K] live_ok_mono [OF i(4), of ?K]
    by (auto simp: stack_inv_def)
  show ?thesis
  proof (cases "\<exists>prev fs. st_frames a = (p - ?base, prev) # fs")
    case True
    then obtain prev fs where fs: "st_frames a = (p - ?base, prev) # fs" by blast
    have "stack_live ?base prev fs ?K"
      using stack_live_pop [OF i(5) [unfolded fs] i(4), of lay n] assms(2) by simp
    moreover have "prev \<le> st_cursor a" using i(5) fs by auto
    ultimately have "stack_inv R rinv (a\<lparr>st_frames := fs, st_cursor := prev\<rparr>) m ?K"
      using i same by (auto simp: stack_inv_def)
    then show ?thesis using fs by (simp add: stack_deallocate_def dealloc_post_def)
  next
    case False
    then show ?thesis
      using same by (auto simp: stack_deallocate_def dealloc_post_def Let_def split: list.splits)
  qed
qed

lemma stack_contract: "allocator_contract (stack_allocator R) (stack_inv R rinv)"
proof (rule allocator_contractI)
  show "allocator_core (al_allocate (stack_allocator R)) (al_deallocate (stack_allocator R))
      (al_usable_size (stack_allocator R)) (stack_inv R rinv)"
    by unfold_locales
      (auto simp: stack_allocator_def stack_allocate_post stack_deallocate_post stack_inv_def
        default_usable_size_def)
qed (simp_all add: stack_allocator_def)

text \<open>
  Strict LIFO use: allocate a list of layouts, skipping those that fail, then free the blocks in
  the reverse order.
\<close>

end

fun stack_push_all ::
  "'b fixed_range \<Rightarrow> layout list \<Rightarrow> 'b stack_alloc \<times> mem \<Rightarrow> (addr \<times> layout) list \<times> 'b stack_alloc \<times> mem" where
  "stack_push_all R [] s = ([], s)"
| "stack_push_all R (lay # lays) s =
     (case stack_allocate R lay s of
        (Inl e, s') \<Rightarrow> stack_push_all R lays s'
      | (Inr (p, n), s') \<Rightarrow> (case stack_push_all R lays s' of (bs, s'') \<Rightarrow> ((p, lay) # bs, s'')))"

fun stack_pop_all ::
  "'b fixed_range \<Rightarrow> (addr \<times> layout) list \<Rightarrow> 'b stack_alloc \<times> mem \<Rightarrow> ('b stack_alloc \<times> mem) outcome" where
  "stack_pop_all R [] s = Done s"
| "stack_pop_all R ((p, lay) # bs) s =
     outcome_bind (stack_deallocate R p lay s) (stack_pop_all R bs)"

lemma stack_pop_all_append:
  "stack_pop_all R (bs @ cs) s = outcome_bind (stack_pop_all R bs s) (stack_pop_all R cs)"
proof (induction bs arbitrary: s)
  case (Cons b bs)
  obtain p lay where [simp]: "b = (p, lay)" by (cases b)
  show ?case using Cons by (cases "stack_deallocate R p lay s") simp_all
qed simp

context fixed_range_contract
begin

lemma stack_push_all_pop_all:
  assumes "stack_push_all R lays (a, m) = (bs, a1, m1)" "rinv (st_backing a)"
    "st_frames a2 = st_frames a1" "fr_base R (st_backing a2) = fr_base R (st_backing a1)"
    "st_cursor a2 = st_cursor a1"
  shows "rinv (st_backing a1) \<and> fr_base R (st_backing a1) = fr_base R (st_backing a) \<and>
    (\<exists>a3. stack_pop_all R (rev bs) (a2, m2) = Done (a3, m2) \<and> st_cursor a3 = st_cursor a \<and>
       st_frames a3 = st_frames a \<and> st_backing a3 = st_backing a2)"
  using assms
proof (induction lays arbitrary: a m bs a1 m1 a2)
  case Nil
  then show ?case by simp
next
  case (Cons lay lays)
  obtain r b k where al: "stack_allocate R lay (a, m) = (r, b, k)"
    by (cases "stack_allocate R lay (a, m)") auto
  have b: "rinv (st_backing b)" "fr_base R (st_backing b) = fr_base R (st_backing a)"
    using al Cons.prems(2)
    by (auto simp: stack_allocate_def Let_def dest: commit_frame split: sum.splits prod.splits)
  show ?case
  proof (cases r)
    case (Inl e)
    have "st_cursor b = st_cursor a" "st_frames b = st_frames a"
      using al Inl by (auto simp: stack_allocate_def Let_def split: sum.splits prod.splits)
    then show ?thesis
      using Cons.IH [of b k bs a1 m1 a2] Cons.prems al Inl b by simp
  next
    case (Inr pn)
    obtain p n where [simp]: "pn = (p, n)" by (cases pn)
    obtain off where st: "p = fr_base R (st_backing a) + off" "st_frames b = (off, st_cursor a) # st_frames a"
      using al Inr by (auto simp: stack_allocate_def Let_def split: sum.splits prod.splits)
    obtain cs where cs: "stack_push_all R lays (b, k) = (cs, a1, m1)" "bs = (p, lay) # cs"
      using Cons.prems(1) al Inr by (auto split: prod.splits)
    obtain a3 where a3: "rinv (st_backing a1)" "fr_base R (st_backing a1) = fr_base R (st_backing b)"
      "stack_pop_all R (rev cs) (a2, m2) = Done (a3, m2)" "st_frames a3 = st_frames b"
      "st_backing a3 = st_backing a2"
      using Cons.IH [OF cs(1) b(1) Cons.prems(3-5)] by blast
    then show ?thesis
      using cs(2) st b(2) Cons.prems(4)
      by (simp add: stack_pop_all_append stack_deallocate_def)
  qed
qed

lemma stack_lifo:
  assumes "stack_push_all R lays (a, m) = (bs, a', m')" "rinv (st_backing a)"
  shows "\<exists>a''. stack_pop_all R (rev bs) (a', m') = Done (a'', m') \<and>
    st_cursor a'' = st_cursor a \<and> st_frames a'' = st_frames a"
  using stack_push_all_pop_all [OF assms, of a' m'] by auto

end

end
