(* ===== verification/Examples.thy ===== *)
theory Examples
  imports Ownership Stack_Allocator
begin

text \<open>
  Concrete values on which the hypotheses of the properties are discharged: a 256-byte inline
  buffer at address 4096, a 64-byte static one, a slab of four 16-byte slots over the first and
  arenas over both.
\<close>

abbreviation zero_mem :: mem where
  "zero_mem \<equiv> \<lambda>a. 0"

definition demo_inline :: inline_backed where
  "demo_inline = inline_new 4096"

definition demo_buf :: static_backed where
  "demo_buf = static_new (4096, 64)"

definition demo_type :: type_layout where
  "demo_type = \<lparr>ty_size = 16, ty_align = 8\<rparr>"

definition demo_layout :: layout where
  "demo_layout = \<lparr>lay_size = 8, lay_align = 8\<rparr>"

definition demo_arena :: "static_backed bump_arena" where
  "demo_arena = \<lparr>ba_backing = demo_buf, ba_capacity = 64, ba_cursor = 0\<rparr>"

definition demo_stack :: "static_backed stack_alloc" where
  "demo_stack = \<lparr>st_backing = demo_buf, st_capacity = 64, st_cursor = 0, st_frames = []\<rparr>"

lemmas bump_defs = bump_reserve_def bump_capacity_def bump_carve_def align_up_checked_def checked_add_def
  align_down_def Let_def

lemma demo_inline_ok: "inline_inv 256 demo_inline m {}"
  by (simp add: inline_inv_def inline_placed_def demo_inline_def inline_new_def no_wrap_def)

lemma demo_buf_ok: "static_ok demo_buf"
  by (simp add: demo_buf_def static_ok_def static_new_def no_wrap_def)

lemma demo_arena_ok: "bump_inv static_range static_ok demo_arena m {}"
  by (simp add: bump_inv_def demo_arena_def demo_buf_ok)
    (simp add: demo_buf_def static_range_def static_new_def)

lemma demo_stack_ok: "stack_inv static_range static_ok demo_stack m {}"
  by (simp add: stack_inv_def demo_stack_def demo_buf_ok live_ok_def)
    (simp add: demo_buf_def static_range_def static_new_def)

lemma is_pow2_numerals [simp]: "is_pow2 1" "is_pow2 2" "is_pow2 4" "is_pow2 8" "is_pow2 16"
  using is_pow2I [of 0 1] is_pow2I [of 1 2] is_pow2I [of 2 4] is_pow2I [of 3 8] is_pow2I [of 4 16]
  by simp_all

lemma demo_type_ok: "type_ok demo_type"
  by (simp add: type_ok_def demo_type_def)

lemma demo_layout_ok: "valid_layout demo_layout"
  by (simp add: valid_layout_def demo_layout_def)

definition demo_slab :: "inline_backed slab" where
  "demo_slab = \<lparr>sl_backing = \<lparr>ib_addr = 4096, ib_cursor = 64\<rparr>, sl_base_offset = 0,
     sl_free_head = 0, sl_next_uncarved = 0, sl_block_stride = 16, sl_stride_shift = 4,
     sl_capacity = 4, sl_backing_layout = \<lparr>lay_size = 64, lay_align = 8\<rparr>,
     sl_corruption_events = 0\<rparr>"

lemma demo_slab_new:
  "slab_with_protection (inline_allocator 256) (inline_range 256) demo_type 4 (demo_inline, m) =
     (Inr demo_slab, \<lparr>ib_addr = 4096, ib_cursor = 64\<rparr>, m)"
proof -
  have t: "trailing_zeros 16 = 4" using trailing_zeros_pow2 [of 4] by simp
  have sa: "slot_align demo_type = 8" "ty_size demo_type = 16"
    by (simp_all add: demo_type_def slot_align_def)
  have st: "slab_stride demo_type = Some 16"
    by (simp add: slab_stride_def sa align_up_checked_def checked_add_def align_down_def)
  have l: "from_size_align 64 8 = Inr \<lparr>lay_size = 64, lay_align = 8\<rparr>"
    by (simp add: from_size_align_def nzl_new_eq)
  have c: "bump_carve 4096 256 0 8 64 = Inr (0, 64)"
    by (simp add: bump_carve_def align_up_checked_def checked_add_def align_down_def)
  have al: "al_allocate (inline_allocator 256) \<lparr>lay_size = 64, lay_align = 8\<rparr> (demo_inline, m) =
      (Inr (4096, 64), \<lparr>ib_addr = 4096, ib_cursor = 64\<rparr>, m)"
    by (simp add: inline_allocator_def inline_allocate_def MAX_ALIGN_def demo_inline_def inline_new_def c)
  have m: "\<not> (ucast (- 1 :: u32) :: usize) < 4"
    by (simp add: word_less_nat_alt unat_minus_one_word)
  show ?thesis
    by (simp add: m slab_with_protection_def st l t al sa checked_mul_def checked_sub_def inline_range_def
        demo_slab_def)
qed

lemma demo_slab_ok:
  "slab_inv strict (inline_inv 256) (inline_range 256) P demo_type demo_slab m {}"
  by (rule ranged_contract.slab_new_inv(1) [OF inline.ranged_contract_axioms
      demo_slab_new demo_inline_ok demo_type_ok])

text \<open>The slab after its first allocation, and a one-slot slab that is full.\<close>

definition demo_slab1 :: "inline_backed slab" where
  "demo_slab1 = demo_slab\<lparr>sl_next_uncarved := 1\<rparr>"

definition demo_live :: live where
  "demo_live = {(4096, demo_layout, 16)}"

lemmas slab_eval = slab_allocate_def slab_carve_def slab_slot_ptr_def slab_base_ptr_def slot_addr_def
  slot_align_def inline_range_def Let_def

lemma demo_slab1_allocate:
  "slab_allocate (inline_range 256) P demo_type demo_layout (demo_slab, m) =
     (Inr (4096, 16), demo_slab1, m)"
  by (simp add: slab_eval demo_slab_def demo_slab1_def demo_type_def demo_layout_def)

lemma demo_slab1_ok:
  "slab_inv strict (inline_inv 256) (inline_range 256) P demo_type demo_slab1 m demo_live"
  using slab_allocate_post [OF demo_slab_ok [of strict P m] demo_layout_ok]
  by (simp add: demo_slab1_allocate alloc_post_def demo_live_def)

definition tiny_slab :: "inline_backed slab" where
  "tiny_slab = \<lparr>sl_backing = \<lparr>ib_addr = 4096, ib_cursor = 16\<rparr>, sl_base_offset = 0,
     sl_free_head = 0, sl_next_uncarved = 0, sl_block_stride = 16, sl_stride_shift = 4,
     sl_capacity = 1, sl_backing_layout = \<lparr>lay_size = 16, lay_align = 8\<rparr>,
     sl_corruption_events = 0\<rparr>"

definition tiny_full :: "inline_backed slab" where
  "tiny_full = tiny_slab\<lparr>sl_next_uncarved := 1\<rparr>"

lemma tiny_slab_new:
  "slab_with_protection (inline_allocator 256) (inline_range 256) demo_type 1 (demo_inline, m) =
     (Inr tiny_slab, \<lparr>ib_addr = 4096, ib_cursor = 16\<rparr>, m)"
proof -
  have t: "trailing_zeros 16 = 4" using trailing_zeros_pow2 [of 4] by simp
  have m: "(ucast (- 1 :: u32) :: usize) \<noteq> 0"
    by (simp add: word_unat_eq_iff unat_minus_one_word)
  show ?thesis
    by (simp add: m t slab_with_protection_def slab_stride_def slot_align_def demo_type_def
        align_up_checked_def checked_add_def align_down_def checked_mul_def checked_sub_def
        from_size_align_def nzl_new_eq inline_allocator_def inline_allocate_def MAX_ALIGN_def
        demo_inline_def inline_new_def bump_carve_def inline_range_def tiny_slab_def)
qed

lemma tiny_full_ok:
  "slab_inv strict (inline_inv 256) (inline_range 256) P demo_type tiny_full m demo_live"
proof -
  have "slab_inv strict (inline_inv 256) (inline_range 256) P demo_type tiny_slab m {}"
    by (rule ranged_contract.slab_new_inv(1) [OF inline.ranged_contract_axioms
        tiny_slab_new demo_inline_ok demo_type_ok])
  moreover have "slab_allocate (inline_range 256) P demo_type demo_layout (tiny_slab, m) =
      (Inr (4096, 16), tiny_full, m)"
    by (simp add: slab_eval tiny_slab_def tiny_full_def demo_type_def demo_layout_def)
  ultimately show ?thesis
    using slab_allocate_post [where lay = demo_layout and s = tiny_slab and L = "{}" and m = m and
        strict = strict and binv = "inline_inv 256" and R = "inline_range 256" and P = P and
        T = demo_type] demo_layout_ok
    by (simp add: alloc_post_def demo_live_def)
qed

text \<open>A keyed protection with a stand-in for SipHash, and the slab after freeing its slot.\<close>

definition demo_mac :: protection where
  "demo_mac = SipHashMAC (\<lambda>key msg. 7) (siphash_new 1 2)"

lemma demo_mac_ok: "freelist_protection demo_mac"
  unfolding demo_mac_def by (rule siphash.freelist_protection_axioms)

definition demo_freed :: "inline_backed slab" where
  "demo_freed = demo_slab1\<lparr>sl_free_head := 1\<rparr>"

definition demo_freed_mem :: mem where
  "demo_freed_mem = write_link zero_mem 4096 \<lparr>fl_next_idx = 0, fl_mac = 7\<rparr>"

lemma demo_free:
  "slab_deallocate (inline_range 256) demo_mac 4096 demo_layout (demo_slab1, zero_mem) =
     Done (demo_freed, demo_freed_mem)"
  by (simp add: slab_deallocate_def slab_slot_index_def slab_slot_ptr_def slab_base_ptr_def
      slot_addr_def inline_range_def demo_slab1_def demo_slab_def demo_freed_def demo_freed_mem_def
      demo_mac_def SipHashMAC_def siphash_digest_def Let_def)

lemma demo_freed_ok:
  "slab_inv strict (inline_inv 256) (inline_range 256) demo_mac demo_type demo_freed demo_freed_mem {}"
  using ranged_contract.slab_deallocate_post(1) [OF inline.ranged_contract_axioms demo_mac_ok
      demo_slab1_ok [of strict demo_mac zero_mem], of 4096 demo_layout 16]
  by (simp add: demo_live_def demo_free dealloc_post_def)

lemma demo_write_beyond: "a \<notin> span 4096 64 \<Longrightarrow> write_link m 4096 l a = m a"
  by (rule write_link_other [of 64]) (simp_all add: no_wrap_def)

lemma read_u32_zero_mem: "read_u32 zero_mem p = 0"
proof -
  have "read_list zero_mem p 4 = [0, 0, 0, 0]"
    by (simp add: read_list_def upt_rec)
  then show ?thesis by (simp add: read_u32_def)
qed

text \<open>The inline buffer after one allocation.\<close>

definition demo_inline1 :: inline_backed where
  "demo_inline1 = \<lparr>ib_addr = 4096, ib_cursor = 8\<rparr>"

definition demo_block :: live where
  "demo_block = {(4096, demo_layout, 8)}"

lemmas inline_eval = inline_allocate_def demo_inline_def inline_new_def MAX_ALIGN_def bump_carve_def
  align_up_checked_def checked_add_def align_down_def demo_layout_def Let_def

lemma demo_inline1_allocate:
  "inline_allocate 256 demo_layout (demo_inline, m) = (Inr (4096, 8), demo_inline1, m)"
  by (simp add: inline_eval demo_inline1_def)

lemma demo_inline1_ok: "inline_inv 256 demo_inline1 m demo_block"
  using inline_core.allocate [OF demo_inline_ok [of m] demo_layout_ok]
  by (simp add: demo_inline1_allocate alloc_post_def demo_block_def)

end
