(* ===== verification/Bump_Scope.thy ===== *)
theory Bump_Scope
  imports Bump_Arena
begin

text \<open>
  The RAII checkpoint of \<open>bump.rs\<close>: \<open>BumpArena::scope\<close>, the \<open>Scope\<close> methods and its \<open>Drop\<close>. A
  scope body is a list of commands; leaving it early, by a return or a panic, runs a prefix of
  the list and then the same \<open>Drop\<close>, so a statement about every list covers unwinding too.
\<close>

record 'b scope =
  sc_arena :: "'b bump_arena"
  sc_mark :: usize

definition scope_open :: "'b bump_arena \<Rightarrow> 'b scope" where
  "scope_open a = \<lparr>sc_arena = a, sc_mark = bump_allocated a\<rparr>"

definition scope_alloc_uninit ::
  "'b fixed_range \<Rightarrow> type_layout \<Rightarrow> 'b scope \<Rightarrow> addr res \<times> 'b scope" where
  "scope_alloc_uninit R T sc =
     (case bump_alloc_uninit R T (sc_arena sc) of (r, a) \<Rightarrow> (r, sc\<lparr>sc_arena := a\<rparr>))"

definition scope_allocate ::
  "'b fixed_range \<Rightarrow> layout \<Rightarrow> 'b scope \<times> mem \<Rightarrow> block res \<times> 'b scope \<times> mem" where
  "scope_allocate R lay s =
     (case s of (sc, m) \<Rightarrow>
        case bump_allocate R lay (sc_arena sc, m) of (r, a, m') \<Rightarrow> (r, sc\<lparr>sc_arena := a\<rparr>, m'))"

definition scope_alloc ::
  "'b fixed_range \<Rightarrow> type_layout \<Rightarrow> u8 list \<Rightarrow> 'b scope \<times> mem \<Rightarrow> addr res \<times> 'b scope \<times> mem" where
  "scope_alloc R T value s =
     (case s of (sc, m) \<Rightarrow>
        case scope_alloc_uninit R T sc of
          (Inl e, sc') \<Rightarrow> (Inl e, sc', m)
        | (Inr p, sc') \<Rightarrow> (Inr p, sc', write_list m p value))"

definition scope_alloc_slice_copy ::
  "'b fixed_range \<Rightarrow> type_layout \<Rightarrow> u8 list list \<Rightarrow> 'b scope \<times> mem \<Rightarrow>
     (addr \<times> nat) res \<times> 'b scope \<times> mem" where
  "scope_alloc_slice_copy R T src s =
     (case s of (sc, m) \<Rightarrow>
        case bump_alloc_slice_copy R T src (sc_arena sc, m) of
          (r, a, m') \<Rightarrow> (r, sc\<lparr>sc_arena := a\<rparr>, m'))"

definition scope_alloc_str ::
  "'b fixed_range \<Rightarrow> u8 list \<Rightarrow> 'b scope \<times> mem \<Rightarrow> (addr \<times> nat) res \<times> 'b scope \<times> mem" where
  "scope_alloc_str R bytes s =
     (case s of (sc, m) \<Rightarrow>
        case bump_alloc_str R bytes (sc_arena sc, m) of (r, a, m') \<Rightarrow> (r, sc\<lparr>sc_arena := a\<rparr>, m'))"

definition scope_arena_allocated :: "'b scope \<Rightarrow> usize" where
  "scope_arena_allocated sc = bump_allocated (sc_arena sc)"

definition scope_scope :: "'b scope \<Rightarrow> 'b scope" where
  "scope_scope sc = scope_open (sc_arena sc)"

definition scope_drop :: "'b scope \<Rightarrow> 'b bump_arena" where
  "scope_drop sc = bump_rewind_to (sc_mark sc) (sc_arena sc)"

datatype scope_cmd =
    AllocBlock layout
  | AllocUninit type_layout
  | AllocValue type_layout "u8 list"
  | AllocSlice type_layout "u8 list list"
  | AllocStr "u8 list"
  | Nested "scope_cmd list"

fun scope_step :: "'b fixed_range \<Rightarrow> scope_cmd \<Rightarrow> 'b scope \<times> mem \<Rightarrow> 'b scope \<times> mem"
and scope_body :: "'b fixed_range \<Rightarrow> scope_cmd list \<Rightarrow> 'b scope \<times> mem \<Rightarrow> 'b scope \<times> mem" where
  "scope_step R (AllocBlock lay) s = snd (scope_allocate R lay s)"
| "scope_step R (AllocUninit T) s = (snd (scope_alloc_uninit R T (fst s)), snd s)"
| "scope_step R (AllocValue T v) s = snd (scope_alloc R T v s)"
| "scope_step R (AllocSlice T src) s = snd (scope_alloc_slice_copy R T src s)"
| "scope_step R (AllocStr bytes) s = snd (scope_alloc_str R bytes s)"
| "scope_step R (Nested cs) (sc, m) =
     (case scope_body R cs (scope_scope sc, m) of (inner, m') \<Rightarrow>
        (sc\<lparr>sc_arena := scope_drop inner\<rparr>, m'))"
| "scope_body R [] s = s"
| "scope_body R (c # cs) s = scope_body R cs (scope_step R c s)"

section \<open>What the type system guarantees of the commands\<close>

fun cmd_ok :: "scope_cmd \<Rightarrow> bool" where
  "cmd_ok (AllocBlock lay) = valid_layout lay"
| "cmd_ok (AllocUninit T) = type_ok T"
| "cmd_ok (AllocValue T v) = (type_ok T \<and> length v = unat (ty_size T))"
| "cmd_ok (AllocSlice T src) = (type_ok T \<and> length src < 2 ^ 64 \<and>
     (\<forall>e \<in> set src. length e = unat (ty_size T)))"
| "cmd_ok (AllocStr bytes) = (length bytes < 2 ^ 64)"
| "cmd_ok (Nested cs) = (\<forall>c \<in> set cs. cmd_ok c)"

lemma pad_to_align_multiple:
  assumes "valid_layout l" "unat (lay_align l) dvd unat (lay_size l)"
  shows "lay_size (pad_to_align l) = lay_size l"
proof -
  note b = pad_to_align_bounds [OF assms(1)]
  have "unat (lay_align l) dvd unat (lay_size (pad_to_align l)) - unat (lay_size l)"
    by (rule dvd_diff_nat [OF b(3) assms(2)])
  moreover have "unat (lay_size (pad_to_align l)) - unat (lay_size l) < unat (lay_align l)"
    using b(1,2) by linarith
  ultimately have "unat (lay_size (pad_to_align l)) - unat (lay_size l) = 0"
    using nat_dvd_not_less by blast
  then show ?thesis using b(1) by (simp add: word_unat_eq_iff)
qed

lemma array_layout_size:
  assumes "type_ok T" "array_layout T n = Some lay"
  shows "valid_layout lay" "lay_align lay = ty_align T"
    "unat (lay_size lay) = unat (ty_size T) * unat n"
proof -
  note a = array_layout_Some [OF assms(2)]
  show "valid_layout lay" "lay_align lay = ty_align T" by (fact a(1)) (fact a(2))
  obtain elem where e: "for_type T = Some elem"
    "unat (lay_size lay) = unat (lay_size (pad_to_align elem)) * unat n"
    using a(3) by blast
  then have "lay_size (pad_to_align elem) = ty_size T"
    using assms(1) pad_to_align_multiple [of elem] by (simp add: for_type_Some type_ok_def)
  then show "unat (lay_size lay) = unat (ty_size T) * unat n" using e(2) by simp
qed

lemma length_concat_const: "\<forall>e \<in> set xs. length e = k \<Longrightarrow> length (concat xs) = k * length xs"
  by (induction xs) auto

lemma write_list_inside:
  assumes "length bs \<le> unat n" "span p n \<inter> S = {}"
  shows "same_on S m (write_list m p bs)"
proof -
  have "word_of_nat (length bs) \<le> n"
    using assms(1) unat_64_less [of n] by (simp add: word_le_nat_alt unat_word_of_nat)
  then have "span p (word_of_nat (length bs)) \<inter> S = {}"
    using span_mono assms(2) by blast
  then have "a \<notin> span p (word_of_nat (length bs))" if "a \<in> S" for a
    using that by auto
  then show ?thesis by (simp add: same_on_def write_list_other)
qed

section \<open>The invariant of an open scope\<close>

text \<open>
  Relative to the arena \<open>a\<close> and memory \<open>m\<close> at the time the scope was opened, with live blocks
  \<open>L\<close>: the scope's arena is a well-formed arena in which \<open>L\<close> is still live and lies below the
  mark, and the bytes of \<open>L\<close> are untouched.
\<close>

definition scope_inv ::
  "'b fixed_range \<Rightarrow> ('b \<Rightarrow> bool) \<Rightarrow> addr \<Rightarrow> usize \<Rightarrow> usize \<Rightarrow> mem \<Rightarrow> live \<Rightarrow> 'b scope \<times> mem \<Rightarrow> bool" where
  "scope_inv R rinv base cap mark m L s \<longleftrightarrow>
     bump_inv R rinv (sc_arena (fst s)) (snd s) L \<and>
     fr_base R (ba_backing (sc_arena (fst s))) = base \<and> ba_capacity (sc_arena (fst s)) = cap \<and>
     sc_mark (fst s) = mark \<and> mark \<le> ba_cursor (sc_arena (fst s)) \<and>
     bump_live base mark L \<and> same_on (footprint L) m (snd s)"

context fixed_range_contract
begin

lemma bump_reserve_scope:
  assumes "scope_inv R rinv base cap mark m0 L (sc, m)" "valid_layout lay"
    "bump_reserve R (lay_align lay) (lay_size lay) (sc_arena sc) = (r, a')"
  shows "scope_inv R rinv base cap mark m0 L (sc\<lparr>sc_arena := a'\<rparr>, m)"
    "r = Inr p \<Longrightarrow> length bs \<le> unat (lay_size lay) \<Longrightarrow>
       scope_inv R rinv base cap mark m0 L (sc\<lparr>sc_arena := a'\<rparr>, write_list m p bs)"
proof -
  have i: "bump_inv R rinv (sc_arena sc) m L" "mark \<le> ba_cursor (sc_arena sc)"
    using assms(1) by (auto simp: scope_inv_def)
  note c = bump_reserve_cases [OF i(1) assms(2,3)]
  have inv': "bump_inv R rinv a' m L"
    using c by (cases r) (auto intro: bump_inv_mono)
  have "ba_cursor (sc_arena sc) \<le> ba_cursor a'"
  proof (cases "bump_carve (fr_base R (ba_backing (sc_arena sc))) (ba_capacity (sc_arena sc))
      (ba_cursor (sc_arena sc)) (lay_align lay) (lay_size lay)")
    case (Inl e)
    then show ?thesis using assms(3) by (auto simp: bump_reserve_def bump_capacity_def Let_def)
  next
    case (Inr x)
    obtain off fin where x: "x = (off, fin)" by (cases x)
    have "ba_cursor (sc_arena sc) \<le> fin"
      using bump_carve_Inr(2,3) [OF Inr [unfolded x] valid_layoutD(3) [OF assms(2)]]
      by (simp add: word_le_nat_alt)
    then show ?thesis
      using assms(3) Inr x
      by (auto simp: bump_reserve_def bump_capacity_def Let_def split: prod.splits sum.splits)
  qed
  with i(2) have mark: "mark \<le> ba_cursor a'" by (rule order_trans)
  show s1: "scope_inv R rinv base cap mark m0 L (sc\<lparr>sc_arena := a'\<rparr>, m)"
    using assms(1) inv' mark c by (simp add: scope_inv_def)
  assume p: "r = Inr p" and len: "length bs \<le> unat (lay_size lay)"
  have "same_on (footprint L) m (write_list m p bs)"
    by (rule write_list_inside [OF len]) (use c p in auto)
  then have "same_on (footprint L) m0 (write_list m p bs)"
    using s1 by (auto simp: scope_inv_def intro: same_on_trans)
  moreover have "bump_inv R rinv a' (write_list m p bs) L"
    using inv' by (rule bump_inv_mono) simp
  ultimately show "scope_inv R rinv base cap mark m0 L (sc\<lparr>sc_arena := a'\<rparr>, write_list m p bs)"
    using s1 by (simp add: scope_inv_def)
qed

lemma scope_alloc_uninit_inv:
  assumes "scope_inv R rinv base cap mark m0 L (sc, m)" "type_ok T"
    "scope_alloc_uninit R T sc = (r, sc')"
  shows "scope_inv R rinv base cap mark m0 L (sc', m)"
    "r = Inr p \<Longrightarrow> length bs \<le> unat (ty_size T) \<Longrightarrow>
       scope_inv R rinv base cap mark m0 L (sc', write_list m p bs)"
proof -
  let ?lay = "\<lparr>lay_size = ty_size T, lay_align = ty_align T\<rparr>"
  have "scope_inv R rinv base cap mark m0 L (sc', m) \<and>
    (r = Inr p \<longrightarrow> length bs \<le> unat (ty_size T) \<longrightarrow>
       scope_inv R rinv base cap mark m0 L (sc', write_list m p bs))"
  proof (cases "ty_size T = 0")
    case True
    have nil: "write_list m p [] = m" by (rule ext) (simp add: write_list_def)
    from True show ?thesis
      using assms nil by (auto simp: scope_alloc_uninit_def bump_alloc_uninit_def)
  next
    case False
    then have v: "valid_layout ?lay" using assms(2) by (simp add: valid_layout_def type_ok_def)
    obtain a' where a': "bump_reserve R (ty_align T) (ty_size T) (sc_arena sc) = (r, a')"
      and sc': "sc' = sc\<lparr>sc_arena := a'\<rparr>"
      using assms(3) False
      by (auto simp: scope_alloc_uninit_def bump_alloc_uninit_def split: prod.splits)
    show ?thesis
      using bump_reserve_scope(1) [OF assms(1) v, of r a']
        bump_reserve_scope(2) [OF assms(1) v, of r a' p bs] a' sc' by simp
  qed
  then show "scope_inv R rinv base cap mark m0 L (sc', m)"
    "r = Inr p \<Longrightarrow> length bs \<le> unat (ty_size T) \<Longrightarrow>
       scope_inv R rinv base cap mark m0 L (sc', write_list m p bs)" by auto
qed

lemma scope_slice_inv:
  assumes "scope_inv R rinv base cap mark m0 L (sc, m)" "type_ok T" "length src < 2 ^ 64"
    "\<forall>e \<in> set src. length e = unat (ty_size T)"
    "scope_alloc_slice_copy R T src (sc, m) = (r, s')"
  shows "scope_inv R rinv base cap mark m0 L s'"
proof (cases "src = [] \<or> ty_size T = 0")
  case True
  then show ?thesis
    using assms by (auto simp: scope_alloc_slice_copy_def bump_alloc_slice_copy_def)
next
  case False
  show ?thesis
  proof (cases "array_layout T (word_of_nat (length src))")
    case None
    then show ?thesis
      using assms False by (auto simp: scope_alloc_slice_copy_def bump_alloc_slice_copy_def)
  next
    case (Some lay)
    note l = array_layout_size [OF assms(2) Some]
    have len: "length (concat src) \<le> unat (lay_size lay)"
      using l(3) assms(3) length_concat_const [OF assms(4)] by (simp add: unat_word_of_nat)
    obtain r1 a' where a': "bump_reserve R (lay_align lay) (lay_size lay) (sc_arena sc) = (r1, a')"
      by (cases "bump_reserve R (lay_align lay) (lay_size lay) (sc_arena sc)") auto
    have "s' = (sc\<lparr>sc_arena := a'\<rparr>, case r1 of Inl e \<Rightarrow> m | Inr p \<Rightarrow> write_list m p (concat src))"
      using assms(5) False Some a'
      by (auto simp: scope_alloc_slice_copy_def bump_alloc_slice_copy_def bump_allocate_def
          split: sum.splits)
    then show ?thesis
      using bump_reserve_scope [OF assms(1) l(1) a'] len by (cases r1) auto
  qed
qed

lemma scope_inv_nested:
  assumes "scope_inv R rinv base cap mark m0 L (sc, m)"
  shows "scope_inv R rinv base cap (ba_cursor (sc_arena sc)) m0 L (scope_scope sc, m)"
    "scope_inv R rinv base cap (ba_cursor (sc_arena sc)) m0 L (inner, m') \<Longrightarrow>
       scope_inv R rinv base cap mark m0 L (sc\<lparr>sc_arena := scope_drop inner\<rparr>, m')"
  using assms
  by (auto simp: scope_inv_def scope_scope_def scope_open_def bump_allocated_def scope_drop_def
      bump_rewind_to_def bump_inv_def intro: order_trans)

lemma scope_body_induct:
  assumes "\<And>c s. c \<in> set cs \<Longrightarrow> P s \<Longrightarrow> P (scope_step R c s)" "P s"
  shows "P (scope_body R cs s)"
  using assms by (induction cs arbitrary: s) auto

lemma scope_step_inv:
  "cmd_ok c \<Longrightarrow> scope_inv R rinv base cap mark m0 L s \<Longrightarrow>
     scope_inv R rinv base cap mark m0 L (scope_step R c s)"
proof (induction c arbitrary: mark s)
  case (AllocBlock lay)
  obtain sc m where s: "s = (sc, m)" by (cases s)
  obtain r a' where a': "bump_reserve R (lay_align lay) (lay_size lay) (sc_arena sc) = (r, a')"
    by (cases "bump_reserve R (lay_align lay) (lay_size lay) (sc_arena sc)") auto
  have "scope_inv R rinv base cap mark m0 L (sc\<lparr>sc_arena := a'\<rparr>, m)"
    using AllocBlock s by (intro bump_reserve_scope(1) [OF _ _ a']) auto
  then show ?case
    using s a' by (cases r) (simp_all add: scope_allocate_def bump_allocate_def)
next
  case (AllocUninit T)
  then show ?case
    by (cases s; cases "scope_alloc_uninit R T (fst s)") (auto dest: scope_alloc_uninit_inv(1))
next
  case (AllocValue T v)
  obtain sc m where s: "s = (sc, m)" by (cases s)
  obtain r sc' where u: "scope_alloc_uninit R T sc = (r, sc')"
    by (cases "scope_alloc_uninit R T sc") auto
  show ?case
    using AllocValue s u scope_alloc_uninit_inv(1) [OF _ _ u, of base cap mark m0 L m]
      scope_alloc_uninit_inv(2) [OF _ _ u, of base cap mark m0 L m _ v]
    by (cases r) (simp_all add: scope_alloc_def)
next
  case (AllocSlice T src)
  then show ?case
    by (cases s; cases "scope_alloc_slice_copy R T src s") (auto dest: scope_slice_inv)
next
  case (AllocStr bytes)
  have "type_ok u8_layout"
    using is_pow2I [of 0 1] by (simp add: type_ok_def u8_layout_def)
  moreover have "scope_alloc_str R bytes = scope_alloc_slice_copy R u8_layout (map (\<lambda>b. [b]) bytes)"
    by (rule ext) (simp add: scope_alloc_str_def scope_alloc_slice_copy_def bump_alloc_str_def)
  ultimately show ?case
    using AllocStr scope_slice_inv [of base cap mark m0 L "fst s" "snd s" u8_layout
        "map (\<lambda>b. [b]) bytes"]
    by (cases "scope_alloc_str R bytes s") (auto simp: u8_layout_def)
next
  case (Nested cs)
  obtain sc m where s: "s = (sc, m)" by (cases s)
  obtain inner m' where b: "scope_body R cs (scope_scope sc, m) = (inner, m')"
    by (cases "scope_body R cs (scope_scope sc, m)") auto
  let ?mark = "ba_cursor (sc_arena sc)"
  have sc: "scope_inv R rinv base cap mark m0 L (sc, m)" using Nested.prems s by simp
  have "scope_inv R rinv base cap ?mark m0 L (scope_body R cs (scope_scope sc, m))"
    by (rule scope_body_induct) (use Nested scope_inv_nested(1) [OF sc] in auto)
  then show ?case
    using scope_inv_nested(2) [OF sc] s b by simp
qed

lemma scope_body_inv:
  assumes "scope_inv R rinv base cap mark m0 L s" "\<forall>c \<in> set cs. cmd_ok c"
  shows "scope_inv R rinv base cap mark m0 L (scope_body R cs s)"
  by (rule scope_body_induct) (use assms scope_step_inv in auto)

lemma scope_round_trip:
  assumes inv: "bump_inv R rinv a m L" and cs: "\<forall>c \<in> set cs. cmd_ok c"
    and body: "scope_body R cs (scope_open a, m) = (sc, m')"
  shows "bump_allocated (scope_drop sc) = bump_allocated a"
    "bump_inv R rinv (scope_drop sc) m' L" "same_on (footprint L) m m'"
    "fr_base R (ba_backing (scope_drop sc)) = fr_base R (ba_backing a)"
proof -
  let ?base = "fr_base R (ba_backing a)"
  have "scope_inv R rinv ?base (ba_capacity a) (ba_cursor a) m L (scope_open a, m)"
    using inv by (auto simp: scope_inv_def scope_open_def bump_allocated_def bump_inv_def)
  from scope_body_inv [OF this cs] body
  have i: "scope_inv R rinv ?base (ba_capacity a) (ba_cursor a) m L (sc, m')" by simp
  show "bump_allocated (scope_drop sc) = bump_allocated a"
    "bump_inv R rinv (scope_drop sc) m' L" "same_on (footprint L) m m'"
    "fr_base R (ba_backing (scope_drop sc)) = ?base"
    using i by (auto simp: scope_inv_def scope_drop_def bump_rewind_to_def bump_allocated_def
        bump_inv_def)
qed

end

end
