(* ===== verification/Layout_Properties.thy ===== *)
theory Layout_Properties
  imports Examples Bump_Scope
begin

text \<open>
  The properties of the layout allocators: the layout arithmetic, the bump arena and its scopes,
  the stack allocator and the slab, each with a concrete instance of its hypotheses.
\<close>

section \<open>Layouts\<close>

text \<open>
  C40. The constructors of \<open>NonZeroLayout\<close> are exact. \<open>from_size_align\<close> succeeds on just the layouts the
  standard library accepts, less those of size zero, and returns what it was given; \<open>pad_to_align\<close> of
  a valid layout is the valid layout of the least multiple of the alignment that holds the size; and
  \<open>array\<close> returns a layout just when the padded element size times the count, taken without
  wrapping, is a valid size for the element's alignment.
\<close>

theorem layout_constructors_exact:
  "(from_size_align s a = Inr l \<longleftrightarrow>
      l = \<lparr>lay_size = s, lay_align = a\<rparr> \<and> s \<noteq> 0 \<and> is_pow2 a \<and> unat s + (unat a - 1) \<le> 2 ^ 63 - 1) \<and>
   (valid_layout k \<longrightarrow> valid_layout (pad_to_align k) \<and> lay_align (pad_to_align k) = lay_align k \<and>
      unat (lay_align k) dvd unat (lay_size (pad_to_align k)) \<and>
      unat (lay_size k) \<le> unat (lay_size (pad_to_align k)) \<and>
      unat (lay_size (pad_to_align k)) < unat (lay_size k) + unat (lay_align k)) \<and>
   (array_layout T n = Some l \<longleftrightarrow>
      (\<exists>elem. for_type T = Some elem \<and> valid_layout l \<and> lay_align l = lay_align elem \<and>
         unat (lay_size l) = unat (lay_size (pad_to_align elem)) * unat n))"
  using pad_to_align_valid [of k] pad_to_align_bounds [of k] array_layout_iff [of T n l]
  by (cases l) (auto simp: from_size_align_Inr valid_layout_def)

theorem layout_constructors_exact_witness:
  "valid_layout (pad_to_align \<lparr>lay_size = 12, lay_align = 8\<rparr>) \<and>
   lay_size (pad_to_align \<lparr>lay_size = 12, lay_align = 8\<rparr>) = 16"
  using layout_constructors_exact [of 0 0 undefined "\<lparr>lay_size = 12, lay_align = 8\<rparr>"]
  by (simp add: valid_layout_def) (simp add: pad_to_align_def)

section \<open>Bump arena\<close>

text \<open>
  C3. Over any backing that keeps its range fixed, \<open>BumpArena\<close> meets the whole \<open>Allocator\<close>
  contract (every block it issues is aligned, large enough and disjoint from all live blocks, no
  call touches a live block's bytes, \<open>grow\<close> and \<open>shrink\<close> carry the contents over, \<open>reset\<close> frees
  everything) and issues blocks only inside the backing's range.
\<close>

theorem bump_arena_correct:
  assumes "fixed_range_contract R rinv"
  shows "ranged_contract (bump_allocator R) (bump_inv R rinv) (bump_range R)"
  using assms by (rule fixed_range_contract.bump_ranged)

theorem bump_arena_correct_witness:
  "ranged_contract (bump_allocator static_range) (bump_inv static_range static_ok)
     (bump_range static_range) \<and>
   bump_new static_range demo_buf = Inr demo_arena \<and>
   bump_inv static_range static_ok demo_arena (\<lambda>a. 0) {}"
  using bump_arena_correct [OF static.fixed_range_contract_axioms] demo_arena_ok
  by (simp add: bump_new_def demo_arena_def demo_buf_def static_range_def static_new_def
      checked_add_def)

text \<open>
  C9. A scope is transparent: after any nest of allocations and inner scopes it runs, dropping it
  puts the arena's watermark back where it was on entry, leaves every block that was live before
  it live, valid and with its bytes unchanged, and keeps the arena's invariant.
\<close>

theorem bump_scope_transparent:
  assumes "fixed_range_contract R rinv" "bump_inv R rinv a m L" "\<forall>c \<in> set cs. cmd_ok c"
    "scope_body R cs (scope_open a, m) = (sc, m')"
  shows "bump_allocated (scope_drop sc) = bump_allocated a \<and>
    bump_inv R rinv (scope_drop sc) m' L \<and> same_on (footprint L) m m'"
  using fixed_range_contract.scope_round_trip(1-3) [OF assms] by blast

theorem bump_scope_transparent_witness:
  "\<exists>sc m'. scope_body static_range
       [AllocBlock demo_layout, Nested [AllocValue demo_type (replicate 16 7)]]
       (scope_open demo_arena, zero_mem) = (sc, m') \<and>
     sc_arena sc \<noteq> demo_arena \<and> bump_allocated (scope_drop sc) = bump_allocated demo_arena"
proof -
  let ?cs = "[AllocBlock demo_layout, Nested [AllocValue demo_type (replicate 16 7)]]"
  obtain sc m' where b: "scope_body static_range ?cs (scope_open demo_arena, zero_mem) = (sc, m')"
    by (cases "scope_body static_range ?cs (scope_open demo_arena, zero_mem)")
  have ok: "\<forall>c \<in> set ?cs. cmd_ok c"
    using demo_layout_ok demo_type_ok by (simp add: demo_type_def)
  have "ba_cursor (sc_arena sc) = 8"
    using b [symmetric]
    by (simp add: scope_open_def scope_allocate_def bump_allocate_def demo_layout_def demo_arena_def
        demo_buf_def static_range_def static_new_def bump_defs default_commit_def scope_drop_def scope_scope_def
        scope_alloc_def scope_alloc_uninit_def bump_alloc_uninit_def bump_rewind_to_def
        bump_allocated_def demo_type_def)
  then show ?thesis
    using b bump_scope_transparent [OF static.fixed_range_contract_axioms demo_arena_ok ok b]
    by (auto simp: demo_arena_def)
qed

section \<open>Stack\<close>

text \<open>
  Over any backing that keeps its range fixed, \<open>StackAlloc\<close> meets the whole \<open>Allocator\<close>
  contract, frees in any order included: a free of anything but the top frame changes nothing, and
  the frames above it keep their blocks.
\<close>

theorem stack_alloc_correct:
  assumes "fixed_range_contract R rinv"
  shows "allocator_contract (stack_allocator R) (stack_inv R rinv)"
  using assms by (rule fixed_range_contract.stack_contract)

theorem stack_alloc_correct_witness:
  "allocator_contract (stack_allocator static_range) (stack_inv static_range static_ok) \<and>
   stack_new static_range (\<lambda>n. True) demo_buf = Inr demo_stack \<and>
   stack_inv static_range static_ok demo_stack zero_mem {}"
  using stack_alloc_correct [OF static.fixed_range_contract_axioms] demo_stack_ok
  by (simp add: stack_new_def stack_with_max_depth_def demo_stack_def demo_buf_def static_range_def
      static_new_def)

text \<open>
  LIFO use of \<open>StackAlloc\<close> reclaims everything: allocating any list of layouts (the ones that
  do not fit fail) and freeing the blocks in the reverse order restores cursor and frames.
\<close>

theorem stack_alloc_lifo:
  assumes "fixed_range_contract R rinv" "rinv (st_backing a)"
    "stack_push_all R lays (a, m) = (bs, a', m')"
  shows "\<exists>a''. stack_pop_all R (rev bs) (a', m') = Done (a'', m') \<and>
    st_cursor a'' = st_cursor a \<and> st_frames a'' = st_frames a"
  using fixed_range_contract.stack_lifo [OF assms(1,3,2)] .

theorem stack_alloc_lifo_witness:
  "\<exists>bs a' m' a''. stack_push_all static_range [demo_layout, demo_layout] (demo_stack, zero_mem) = (bs, a', m') \<and>
     length bs = 2 \<and> stack_pop_all static_range (rev bs) (a', m') = Done (a'', m') \<and> st_cursor a'' = 0"
proof -
  obtain bs a' m' where b:
    "stack_push_all static_range [demo_layout, demo_layout] (demo_stack, zero_mem) = (bs, a', m')"
    by (cases "stack_push_all static_range [demo_layout, demo_layout] (demo_stack, zero_mem)") auto
  have "length bs = 2"
    using b [symmetric]
    by (simp add: stack_allocate_def demo_layout_def demo_stack_def demo_buf_def static_range_def
        static_new_def bump_defs default_commit_def split: prod.splits)
  then show ?thesis
    using b stack_alloc_lifo [OF static.fixed_range_contract_axioms _ b] demo_buf_ok
    by (auto simp: demo_stack_def simp del: stack_push_all.simps)
qed

section \<open>Slab\<close>

text \<open>
  C1. A slab over any ranged backing, with any protection whose signatures verify, meets the whole
  \<open>Allocator\<close> contract: every block it hands out is a slot of its own, aligned and of the stride's
  size, disjoint from every live block, whether carved or popped off the free list; freeing and
  allocating touch no live byte; and it serves blocks only inside its own region.
\<close>

theorem slab_correct:
  assumes "ranged_contract A ainv R" "freelist_protection P"
  shows "ranged_contract (slab_allocator R P T) (slab_inv True ainv R P T) (slab_range R)"
  using assms by (rule ranged_contract.slab_ranged)

theorem slab_correct_witness:
  "ranged_contract (slab_allocator (inline_range 256) demo_mac demo_type)
     (slab_inv True (inline_inv 256) (inline_range 256) demo_mac demo_type)
     (slab_range (inline_range 256)) \<and>
   slab_inv True (inline_inv 256) (inline_range 256) demo_mac demo_type demo_slab1 zero_mem demo_live"
  using slab_correct [OF inline.ranged_contract_axioms demo_mac_ok, where T = demo_type] demo_slab1_ok
  by blast

text \<open>
  The life of a slab: a constructor call that succeeds establishes the invariant with no live
  block, the requested number of slots and a stride that holds the element type, and \<open>Drop\<close> gives
  the backing block back without panicking, whatever is still live.
\<close>

theorem slab_lifecycle:
  assumes "ranged_contract A ainv R" "type_ok T" "ainv b m {}"
    "slab_with_protection A R T capacity (b, m) = (Inr s, b', m')"
  shows "slab_inv True ainv R P T s m' {} \<and> unat (sl_capacity s) = unat capacity \<and>
    unat (ty_size T) \<le> unat (sl_block_stride s) \<and>
    (\<forall>s1 m1 L. slab_inv True ainv R P T s1 m1 L \<longrightarrow>
       (\<exists>b1 m2. slab_drop A R (s1, m1) = Done (b1, m2) \<and> ainv b1 m2 {}))"
  using ranged_contract.slab_new_inv [OF assms(1,4,3,2)] ranged_contract.slab_drop_post [OF assms(1)]
  by blast

theorem slab_lifecycle_witness:
  "slab_with_protection (inline_allocator 256) (inline_range 256) demo_type 4 (demo_inline, zero_mem) =
     (Inr demo_slab, \<lparr>ib_addr = 4096, ib_cursor = 64\<rparr>, zero_mem) \<and>
   unat (sl_capacity demo_slab) = unat (4 :: usize) \<and>
   (\<exists>b1 m2. slab_drop (inline_allocator 256) (inline_range 256) (demo_slab1, zero_mem) = Done (b1, m2) \<and>
      inline_inv 256 b1 m2 {})"
  using slab_lifecycle [OF inline.ranged_contract_axioms demo_type_ok demo_inline_ok demo_slab_new,
      of demo_mac zero_mem]
    demo_slab_new demo_slab1_ok [of True demo_mac zero_mem] by blast

text \<open>
  C37. An intact slab leaks nothing: a request that fits a slot is refused only when every one of the
  slots is live, and a refused request changes nothing.
\<close>

theorem slab_refuses_only_when_full:
  assumes "slab_inv True binv R P T s m L"
    "lay_align lay \<le> slot_align T" "lay_size lay \<le> sl_block_stride s"
    "slab_allocate R P T lay (s, m) = (Inl e, s', m')" "i < sl_capacity s"
  shows "(\<exists>lay. (slab_slot_ptr R s i, lay, sl_block_stride s) \<in> L) \<and> s' = s \<and> m' = m"
  using slab_full [OF assms] slab_allocate_frame(1) [OF assms(4)] by simp

theorem slab_refuses_only_when_full_witness:
  "slab_allocate (inline_range 256) demo_mac demo_type demo_layout (tiny_full, zero_mem) =
     (Inl AllocError, tiny_full, zero_mem) \<and>
   (\<exists>lay. (slab_slot_ptr (inline_range 256) tiny_full 0, lay, 16) \<in> demo_live)"
proof -
  have a: "slab_allocate (inline_range 256) demo_mac demo_type demo_layout (tiny_full, zero_mem) =
      (Inl AllocError, tiny_full, zero_mem)"
    by (simp add: slab_eval tiny_slab_def tiny_full_def demo_type_def demo_layout_def)
  have fit: "lay_align demo_layout \<le> slot_align demo_type" "lay_size demo_layout \<le> sl_block_stride tiny_full"
    "(0 :: u32) < sl_capacity tiny_full" "sl_block_stride tiny_full = 16"
    by (simp_all add: slot_align_def tiny_slab_def tiny_full_def demo_type_def demo_layout_def)
  show ?thesis
    using a slab_refuses_only_when_full [OF tiny_full_ok fit(1,2) a fit(3)] fit(4) by simp
qed

text \<open>
  The free list is last-in first-out: a request served right after a free returns exactly the
  freed slot and leaves the slab as it was before the free.
\<close>

theorem slab_reuses_last_freed:
  assumes "ranged_contract A ainv R" "freelist_protection P"
    "slab_inv strict ainv R P T s m L" "(p, lay, n) \<in> L"
    "valid_layout lay'" "lay_align lay' \<le> slot_align T" "lay_size lay' \<le> sl_block_stride s"
  shows "\<exists>s' m'. slab_deallocate R P p lay (s, m) = Done (s', m') \<and>
    slab_allocate R P T lay' (s', m') = (Inr (p, sl_block_stride s), s, m')"
  using assms by (rule slab_lifo)

theorem slab_reuses_last_freed_witness:
  "\<exists>s' m'. slab_deallocate (inline_range 256) demo_mac 4096 demo_layout (demo_slab1, zero_mem) = Done (s', m') \<and>
     slab_allocate (inline_range 256) demo_mac demo_type demo_layout (s', m') = (Inr (4096, 16), demo_slab1, m')"
proof -
  have "sl_block_stride demo_slab1 = 16" "slot_align demo_type = 8"
    by (simp_all add: demo_slab1_def demo_slab_def slot_align_def demo_type_def)
  then show ?thesis
    using slab_reuses_last_freed [OF inline.ranged_contract_axioms demo_mac_ok demo_slab1_ok [of True],
        of 4096 demo_layout 16 demo_layout] demo_layout_ok
    by (simp add: demo_live_def demo_layout_def)
qed

text \<open>
  C4. Corruption is contained: when a write into the slab's region, live blocks included, makes the
  head link fail its MAC or its bounds check, the next fitting request counts one corruption event,
  abandons the whole free list and, without touching the memory, is served the next uncarved slot,
  which is not the one whose link was rejected, or is refused when every slot has been carved. Either
  way the block is disjoint from all live ones and the slab stays sound, short of the abandoned slots.
\<close>

theorem slab_contains_corruption:
  assumes "ranged_contract A ainv R" "slab_inv strict ainv R P T s m L"
    "same_on (- span (slab_base_ptr R s) (slab_size s)) m m'" "slab_head_rejected R P s m'"
    "valid_layout lay" "lay_align lay \<le> slot_align T" "lay_size lay \<le> sl_block_stride s"
    "slab_allocate R P T lay (s, m') = (r, s', m'')"
  shows "alloc_post (slab_inv False ainv R P T) L lay m' (r, s', m'') \<and> m'' = m' \<and>
    (if sl_next_uncarved s < sl_capacity s
     then r = Inr (slab_slot_ptr R s (sl_next_uncarved s), sl_block_stride s) \<and>
       slab_slot_ptr R s (sl_next_uncarved s) \<noteq> slab_slot_ptr R s (sl_free_head s - 1) \<and>
       s' = s\<lparr>sl_corruption_events := sl_corruption_events s + 1, sl_free_head := 0,
         sl_next_uncarved := sl_next_uncarved s + 1\<rparr>
     else r = Inl AllocError \<and>
       s' = s\<lparr>sl_corruption_events := sl_corruption_events s + 1, sl_free_head := 0\<rparr>)"
proof (rule conjI [OF slab_rejected_allocate [OF assms]])
  have "sl_free_head s \<noteq> 0" using assms(4) by (simp add: slab_head_rejected_def)
  from slab_uncarved_fresh [OF assms(2) this] show "m'' = m' \<and>
    (if sl_next_uncarved s < sl_capacity s
     then r = Inr (slab_slot_ptr R s (sl_next_uncarved s), sl_block_stride s) \<and>
       slab_slot_ptr R s (sl_next_uncarved s) \<noteq> slab_slot_ptr R s (sl_free_head s - 1) \<and>
       s' = s\<lparr>sl_corruption_events := sl_corruption_events s + 1, sl_free_head := 0,
         sl_next_uncarved := sl_next_uncarved s + 1\<rparr>
     else r = Inl AllocError \<and>
       s' = s\<lparr>sl_corruption_events := sl_corruption_events s + 1, sl_free_head := 0\<rparr>)"
    using assms(8) slab_rejected_eq [OF assms(4,6,7)]
    by (auto simp: slab_carve_def Let_def slab_slot_ptr_def slab_base_ptr_def split: if_splits)
qed

theorem slab_contains_corruption_witness:
  "\<exists>r s' m''. slab_allocate (inline_range 256) demo_mac demo_type demo_layout (demo_freed, zero_mem) = (r, s', m'') \<and>
     alloc_post (slab_inv False (inline_inv 256) (inline_range 256) demo_mac demo_type) {} demo_layout
       zero_mem (r, s', m'') \<and>
     r = Inr (slab_slot_ptr (inline_range 256) demo_freed (sl_next_uncarved demo_freed), 16) \<and>
     sl_corruption_events s' = 1"
proof -
  obtain r s' m'' where a:
    "slab_allocate (inline_range 256) demo_mac demo_type demo_layout (demo_freed, zero_mem) = (r, s', m'')"
    by (cases "slab_allocate (inline_range 256) demo_mac demo_type demo_layout (demo_freed, zero_mem)")
  have g: "slab_base_ptr (inline_range 256) demo_freed = 4096" "slab_size demo_freed = 64"
    "sl_block_stride demo_freed = 16" "sl_corruption_events demo_freed = 0"
    "sl_next_uncarved demo_freed < sl_capacity demo_freed"
    by (simp_all add: slab_base_ptr_def inline_range_def slab_size_def demo_freed_def demo_slab1_def
        demo_slab_def)
  have "same_on (- span (slab_base_ptr (inline_range 256) demo_freed) (slab_size demo_freed))
      demo_freed_mem zero_mem"
    unfolding demo_freed_mem_def g same_on_def
    by (simp add: demo_write_beyond)
  moreover have "slab_head_rejected (inline_range 256) demo_mac demo_freed zero_mem"
    by (simp add: slab_head_rejected_def demo_freed_def demo_mac_def SipHashMAC_def siphash_digest_def
        read_link_def read_u32_zero_mem Let_def)
  ultimately show ?thesis
    using slab_contains_corruption [OF inline.ranged_contract_axioms demo_freed_ok [of True] _ _
        demo_layout_ok _ _ a] a g
    by (auto simp: demo_layout_def demo_type_def slot_align_def)
qed

text \<open>
  C7. Memory safety against any attacker: from a sound slab, after any sequence of calls with any
  pointers and layouts, with the whole memory overwritten at will before each of them and with any
  protection, every block handed out is one of the slab's slots.
\<close>

theorem slab_bounded_under_attack:
  assumes "slab_inv strict ainv R P T s m L" "tampered_run R P T s bs s'" "(p, n) \<in> set bs"
  shows "n = sl_block_stride s \<and> (\<exists>i < sl_capacity s. p = slab_slot_ptr R s i)"
  using tampered_run_blocks [OF assms(2) slab_inv_bounded [OF assms(1)]] assms(3) by blast

theorem slab_bounded_under_attack_witness:
  "tampered_run (inline_range 256) demo_mac demo_type demo_slab [(4096, 16)] demo_slab1 \<and>
   (\<exists>i < sl_capacity demo_slab. 4096 = slab_slot_ptr (inline_range 256) demo_slab i)"
proof -
  have r: "tampered_run (inline_range 256) demo_mac demo_type demo_slab [(4096, 16)] demo_slab1"
    using t_alloc [OF demo_slab1_allocate [of demo_mac zero_mem] t_nil] by simp
  show ?thesis
    using r slab_bounded_under_attack [OF demo_slab_ok [of True demo_mac zero_mem] r, of 4096 16] by simp
qed

text \<open>
  The slot lookup of \<open>deallocate\<close>, with its shift-and-mask path for power-of-two strides, is
  the division-based one: on every address it finds the slot that starts there, and only that.
\<close>

theorem slab_slot_index_correct:
  assumes "slab_geom R T s"
  shows "slab_slot_index R s p = Some i \<longleftrightarrow> i < sl_capacity s \<and> p = slab_slot_ptr R s i"
  by (rule slab_slot_index_iff [OF assms])

theorem slab_slot_index_correct_witness:
  "slab_slot_index (inline_range 256) demo_slab 4112 = Some 1"
  using slab_slot_index_correct [of "inline_range 256" demo_type demo_slab 4112 1]
    demo_slab_ok [of True demo_mac zero_mem]
  by (simp add: slab_inv_def)
    (simp add: slab_slot_ptr_def slab_base_ptr_def slot_addr_def inline_range_def demo_slab_def)

end
