(* ===== verification/Client_Runs.thy ===== *)
theory Client_Runs
  imports Alloc_Traits
begin

text \<open>
  What the \<open>unsafe trait Allocator\<close> contract buys a whole program: a client that frees only what
  it was given, with the layout it asked for, and writes only inside its live blocks. A run of
  such a client is a sequence of labelled steps over the allocator, the memory and the set of
  live blocks; the label counts the blocks the step gives back. The invariants of the trait's
  documentation hold in every state of a run.
\<close>

type_synonym 'a world = "'a \<times> mem \<times> live"

inductive client_step :: "'a allocator \<Rightarrow> 'a world \<Rightarrow> nat \<Rightarrow> 'a world \<Rightarrow> bool" for A where
  alloc_ok: "valid_layout lay \<Longrightarrow> al_allocate A lay (s, m) = (Inr (p, n), s', m') \<Longrightarrow>
    client_step A (s, m, L) 0 (s', m', insert (p, lay, n) L)"
| alloc_err: "valid_layout lay \<Longrightarrow> al_allocate A lay (s, m) = (Inl e, s', m') \<Longrightarrow>
    client_step A (s, m, L) 0 (s', m', L)"
| zeroed_ok: "valid_layout lay \<Longrightarrow> al_allocate_zeroed A lay (s, m) = (Inr (p, n), s', m') \<Longrightarrow>
    client_step A (s, m, L) 0 (s', m', insert (p, lay, n) L)"
| zeroed_err: "valid_layout lay \<Longrightarrow> al_allocate_zeroed A lay (s, m) = (Inl e, s', m') \<Longrightarrow>
    client_step A (s, m, L) 0 (s', m', L)"
| free: "(p, lay, n) \<in> L \<Longrightarrow> al_deallocate A p lay (s, m) = Done (s', m') \<Longrightarrow>
    client_step A (s, m, L) 1 (s', m', L - {(p, lay, n)})"
| grow_ok: "(p, old, n) \<in> L \<Longrightarrow> valid_layout new \<Longrightarrow> lay_size old \<le> lay_size new \<Longrightarrow>
    lay_align new = lay_align old \<Longrightarrow>
    al_grow A p old new (s, m) = Done (Inr (q, k), s', m') \<Longrightarrow>
    client_step A (s, m, L) 1 (s', m', insert (q, new, k) (L - {(p, old, n)}))"
| grow_err: "(p, old, n) \<in> L \<Longrightarrow> valid_layout new \<Longrightarrow> lay_size old \<le> lay_size new \<Longrightarrow>
    lay_align new = lay_align old \<Longrightarrow> al_grow A p old new (s, m) = Done (Inl e, s', m') \<Longrightarrow>
    client_step A (s, m, L) 0 (s', m', L)"
| shrink_ok: "(p, old, n) \<in> L \<Longrightarrow> valid_layout new \<Longrightarrow> lay_size new \<le> lay_size old \<Longrightarrow>
    lay_align new = lay_align old \<Longrightarrow>
    al_shrink A p old new (s, m) = Done (Inr (q, k), s', m') \<Longrightarrow>
    client_step A (s, m, L) 1 (s', m', insert (q, new, k) (L - {(p, old, n)}))"
| shrink_err: "(p, old, n) \<in> L \<Longrightarrow> valid_layout new \<Longrightarrow> lay_size new \<le> lay_size old \<Longrightarrow>
    lay_align new = lay_align old \<Longrightarrow> al_shrink A p old new (s, m) = Done (Inl e, s', m') \<Longrightarrow>
    client_step A (s, m, L) 0 (s', m', L)"
| user_write: "same_on (- footprint L) m m' \<Longrightarrow> client_step A (s, m, L) 0 (s, m', L)"

inductive client_run :: "'a allocator \<Rightarrow> 'a world \<Rightarrow> nat \<Rightarrow> 'a world \<Rightarrow> bool" for A where
  nil: "client_run A w 0 w"
| snoc: "client_run A w k w' \<Longrightarrow> client_step A w' j w'' \<Longrightarrow> client_run A w (k + j) w''"

inductive_cases client_stepE: "client_step A (s, m, L) k (s', m', L')"

text \<open>
  The allocator a client has in mind: it knows only the memory and the live blocks. A new block may
  lie anywhere clear of the live ones, a resize carries the common prefix over, and nothing but
  the client's own writes changes a live byte. A concrete allocator refines it when each of its
  steps, with its state forgotten, is one of these.
\<close>

inductive spec_step :: "mem \<times> live \<Rightarrow> nat \<Rightarrow> mem \<times> live \<Rightarrow> bool" where
  spec_alloc: "block_ok lay p n \<Longrightarrow> span p n \<inter> footprint L = {} \<Longrightarrow> same_on (footprint L) m m' \<Longrightarrow>
    spec_step (m, L) 0 (m', insert (p, lay, n) L)"
| spec_refuse: "same_on (footprint L) m m' \<Longrightarrow> spec_step (m, L) 0 (m', L)"
| spec_free: "b \<in> L \<Longrightarrow> same_on (footprint (L - {b})) m m' \<Longrightarrow> spec_step (m, L) 1 (m', L - {b})"
| spec_resize: "(p, old, n) \<in> L \<Longrightarrow> K = L - {(p, old, n)} \<Longrightarrow> block_ok new q k \<Longrightarrow>
    span q k \<inter> footprint K = {} \<Longrightarrow> same_on (footprint K) m m' \<Longrightarrow>
    \<forall>i < min (lay_size old) (lay_size new). m' (q + i) = m (p + i) \<Longrightarrow>
    spec_step (m, L) 1 (m', insert (q, new, k) K)"
| spec_write: "same_on (- footprint L) m m' \<Longrightarrow> spec_step (m, L) 0 (m', L)"

inductive spec_run :: "mem \<times> live \<Rightarrow> nat \<Rightarrow> mem \<times> live \<Rightarrow> bool" where
  spec_nil: "spec_run w 0 w"
| spec_snoc: "spec_run w k w' \<Longrightarrow> spec_step w' j w'' \<Longrightarrow> spec_run w (k + j) w''"

context allocator_contract
begin

lemma client_step_inv:
  "client_step A (s, m, L) k (s', m', L') \<Longrightarrow> ainv s m L \<Longrightarrow> ainv s' m' L'"
proof (erule client_stepE, goal_cases)
  case (1 lay p n)
  then show ?case using allocate [of s m L lay] by (auto simp: alloc_post_def)
next
  case (2 lay e)
  then show ?case using allocate [of s m L lay] by (auto simp: alloc_post_def)
next
  case (3 lay p n)
  then show ?case using allocate_zeroed [of s m L lay] by (auto simp: alloc_post_def)
next
  case (4 lay e)
  then show ?case using allocate_zeroed [of s m L lay] by (auto simp: alloc_post_def)
next
  case (5 p lay n)
  then show ?case using deallocate [of s m L p lay n] by (auto simp: dealloc_post_def)
next
  case (6 p old n new q j)
  then show ?case using grow [of s m L p old n new] by (auto simp: resize_post_def)
next
  case (7 p old n new e)
  then show ?case using grow [of s m L p old n new] by (auto simp: resize_post_def)
next
  case (8 p old n new q j)
  then show ?case using shrink [of s m L p old n new] by (auto simp: resize_post_def)
next
  case (9 p old n new e)
  then show ?case using shrink [of s m L p old n new] by (auto simp: resize_post_def)
next
  case 10
  then show ?case by (auto intro: user_write)
qed

lemma client_run_inv:
  assumes "client_run A (s, m, L) k w" "ainv s m L"
  shows "case w of (s', m', L') \<Rightarrow> ainv s' m' L'"
  using assms
proof (induction "(s, m, L)" k w rule: client_run.induct)
  case (snoc k w' j w'')
  then show ?case
    using client_step_inv by (cases w'; cases w'') auto
qed simp

text \<open>In every reachable state the live blocks are valid and pairwise disjoint.\<close>

lemma client_run_safe:
  assumes "client_run A (s, m, L) k (s', m', L')" "ainv s m L"
  shows "live_ok L'"
  using client_run_inv [OF assms] inv_live by simp

text \<open>Forgetting the allocator's own state turns every step into a step of the specification.\<close>

lemma client_step_refines:
  "client_step A (s, m, L) k (s', m', L') \<Longrightarrow> ainv s m L \<Longrightarrow> spec_step (m, L) k (m', L')"
proof (erule client_stepE, goal_cases)
  case (1 lay p n)
  then show ?case using allocate [of s m L lay] by (auto simp: alloc_post_def intro: spec_step.intros)
next
  case (2 lay e)
  then show ?case using allocate [of s m L lay] by (auto simp: alloc_post_def intro: spec_step.intros)
next
  case (3 lay p n)
  then show ?case
    using allocate_zeroed [of s m L lay] by (auto simp: alloc_post_def intro: spec_step.intros)
next
  case (4 lay e)
  then show ?case
    using allocate_zeroed [of s m L lay] by (auto simp: alloc_post_def intro: spec_step.intros)
next
  case (5 p lay n)
  then show ?case
    using deallocate [of s m L p lay n] spec_free [of "(p, lay, n)" L m m']
    by (auto simp: dealloc_post_def)
next
  case (6 p old n new q j)
  then show ?case
    using grow [of s m L p old n new] spec_resize [of p old n L _ new q j m m']
    by (auto simp: resize_post_def min_absorb1)
next
  case (7 p old n new e)
  then show ?case
    using grow [of s m L p old n new] by (auto simp: resize_post_def intro: spec_step.intros)
next
  case (8 p old n new q j)
  then show ?case
    using shrink [of s m L p old n new] spec_resize [of p old n L _ new q j m m']
    by (auto simp: resize_post_def min_absorb2)
next
  case (9 p old n new e)
  then show ?case
    using shrink [of s m L p old n new] by (auto simp: resize_post_def intro: spec_step.intros)
next
  case 10
  then show ?case by (auto intro: spec_write)
qed

lemma client_run_refines:
  assumes "client_run A (s, m, L) k w" "ainv s m L"
  shows "case w of (s', m', L') \<Rightarrow> ainv s' m' L' \<and> spec_run (m, L) k (m', L')"
  using assms
proof (induction "(s, m, L)" k w rule: client_run.induct)
  case (snoc k w' j w'')
  then show ?case
    using client_step_inv client_step_refines by (cases w'; cases w'') (auto intro: spec_snoc)
qed (simp add: spec_nil)

text \<open>No well-behaved call panics, so every one of them is a step of the run.\<close>

lemma client_never_panics:
  assumes "ainv s m L"
  shows "(p, lay, n) \<in> L \<Longrightarrow> al_deallocate A p lay (s, m) \<noteq> Panicked"
    "(p, old, n) \<in> L \<Longrightarrow> valid_layout new \<Longrightarrow> lay_size old \<le> lay_size new \<Longrightarrow>
       lay_align new = lay_align old \<Longrightarrow> al_grow A p old new (s, m) \<noteq> Panicked"
    "(p, old, n) \<in> L \<Longrightarrow> valid_layout new \<Longrightarrow> lay_size new \<le> lay_size old \<Longrightarrow>
       lay_align new = lay_align old \<Longrightarrow> al_shrink A p old new (s, m) \<noteq> Panicked"
  using deallocate [OF assms, of p lay n] grow [OF assms, of p old n new]
    shrink [OF assms, of p old n new]
  by (auto simp: dealloc_post_def resize_post_def)

end

end
