(* ===== verification/Quarantine.thy ===== *)
theory Quarantine
  imports Client_Runs
begin

text \<open>
  \<open>forge-alloc/src/hardening/quarantine.rs\<close>: \<open>Quarantine<I, EPOCHS>\<close> delays the reuse of freed
  blocks. A free puts the block into a ring and hands the block it displaces to the inner
  allocator, so that a freed block stays the inner allocator's live block, out of anybody's
  reach, for the next \<open>EPOCHS - 1\<close> frees.
\<close>

section \<open>State and operations\<close>

type_synonym quarantined_block = "addr \<times> layout"

record 'i quarantine =
  qu_inner :: 'i
  qu_ring :: "quarantined_block option list"
  qu_count :: usize

definition quarantine_new :: "nat \<Rightarrow> 'i \<Rightarrow> 'i quarantine" where
  "quarantine_new EPOCHS inner =
     \<lparr>qu_inner = inner, qu_ring = replicate EPOCHS None, qu_count = 0\<rparr>"

definition quarantine_deallocate_count :: "'i quarantine \<Rightarrow> usize" where
  "quarantine_deallocate_count q = qu_count q"

text \<open>A call of the inner allocator: its state is the wrapper's field.\<close>

definition quarantine_lift ::
  "('i \<times> mem \<Rightarrow> 'r \<times> 'i \<times> mem) \<Rightarrow> 'i quarantine \<times> mem \<Rightarrow> 'r \<times> 'i quarantine \<times> mem" where
  "quarantine_lift f st =
     (case st of (q, m) \<Rightarrow>
        case f (qu_inner q, m) of (r, i, m') \<Rightarrow> (r, q\<lparr>qu_inner := i\<rparr>, m'))"

definition quarantine_deallocate :: "nat \<Rightarrow> 'i allocator \<Rightarrow> 'i quarantine dealloc_fun" where
  "quarantine_deallocate EPOCHS I p lay st =
     (case st of (q, m) \<Rightarrow>
        let cnt = qu_count q;
            idx = unat cnt mod EPOCHS;
            evicted = qu_ring q ! idx;
            q' = q\<lparr>qu_count := cnt + 1, qu_ring := (qu_ring q)[idx := Some (p, lay)]\<rparr>
        in case evicted of
             None \<Rightarrow> Done (q', m)
           | Some (pp, pl) \<Rightarrow>
               outcome_bind (al_deallocate I pp pl (qu_inner q', m))
                 (\<lambda>(i, m'). Done (q'\<lparr>qu_inner := i\<rparr>, m')))"

definition quarantine_allocator :: "nat \<Rightarrow> 'i allocator \<Rightarrow> 'i quarantine allocator" where
  "quarantine_allocator EPOCHS I =
     (let alloc = (\<lambda>lay. quarantine_lift (al_allocate I lay));
          dealloc = quarantine_deallocate EPOCHS I
      in \<lparr>al_allocate = alloc,
          al_allocate_zeroed = (\<lambda>lay. quarantine_lift (al_allocate_zeroed I lay)),
          al_deallocate = dealloc,
          al_grow = default_grow alloc dealloc,
          al_shrink = default_shrink alloc dealloc,
          al_reset = default_reset,
          al_usable_size = (\<lambda>q. al_usable_size I (qu_inner q)),
          al_capacity_bytes = (\<lambda>q. al_capacity_bytes I (qu_inner q)),
          al_corruption_events = (\<lambda>q. al_corruption_events I (qu_inner q))\<rparr>)"

definition quarantine_range :: "'i fixed_range \<Rightarrow> 'i quarantine fixed_range" where
  "quarantine_range R =
     \<lparr>fr_base = (\<lambda>q. fr_base R (qu_inner q)),
      fr_size = (\<lambda>q. fr_size R (qu_inner q)),
      fr_commit = (\<lambda>q off len. case fr_commit R (qu_inner q) off len of
        (r, i) \<Rightarrow> (r, q\<lparr>qu_inner := i\<rparr>))\<rparr>"

text \<open>\<open>Drop\<close>: take each slot's block out of the ring and free it.\<close>

fun quarantine_drain ::
  "'i allocator \<Rightarrow> quarantined_block option list \<Rightarrow> 'i \<times> mem \<Rightarrow> ('i \<times> mem) outcome" where
  "quarantine_drain I [] s = Done s"
| "quarantine_drain I (None # ring) s = quarantine_drain I ring s"
| "quarantine_drain I (Some (p, lay) # ring) s =
     outcome_bind (al_deallocate I p lay s) (quarantine_drain I ring)"

definition quarantine_drop :: "'i allocator \<Rightarrow> 'i quarantine \<times> mem \<Rightarrow> ('i \<times> mem) outcome" where
  "quarantine_drop I st = (case st of (q, m) \<Rightarrow> quarantine_drain I (qu_ring q) (qu_inner q, m))"

section \<open>The invariant\<close>

definition ring_blocks :: "quarantined_block option list \<Rightarrow> quarantined_block list" where
  "ring_blocks ring = concat (map (\<lambda>slot. case slot of None \<Rightarrow> [] | Some b \<Rightarrow> [b]) ring)"

text \<open>The inner allocator's live blocks are the client's and, apart from them, the ring's.\<close>

definition quarantine_inv ::
  "nat \<Rightarrow> ('i \<Rightarrow> mem \<Rightarrow> live \<Rightarrow> bool) \<Rightarrow> 'i quarantine \<Rightarrow> mem \<Rightarrow> live \<Rightarrow> bool" where
  "quarantine_inv EPOCHS iinv q m L \<longleftrightarrow> length (qu_ring q) = EPOCHS \<and>
     (\<exists>Q. iinv (qu_inner q) m (L \<union> Q) \<and> L \<inter> Q = {} \<and>
        distinct (ring_blocks (qu_ring q)) \<and>
        block_key ` Q = set (ring_blocks (qu_ring q)))"

lemma ring_blocks_set: "set (ring_blocks ring) = {b. Some b \<in> set ring}"
  by (induction ring) (auto simp: ring_blocks_def split: option.splits)

lemma ring_blocks_simps [simp]:
  "ring_blocks [] = []" "ring_blocks (None # r) = ring_blocks r"
  "ring_blocks (Some b # r) = b # ring_blocks r"
  "ring_blocks (r @ r') = ring_blocks r @ ring_blocks r'"
  by (simp_all add: ring_blocks_def)

lemma ring_blocks_replicate [simp]: "ring_blocks (replicate n None) = []"
  by (induction n) auto

lemma ring_blocks_update:
  assumes "i < length ring" "distinct (ring_blocks ring)" "b \<notin> set (ring_blocks ring)"
  shows "distinct (ring_blocks (ring[i := Some b]))"
    "set (ring_blocks (ring[i := Some b])) = insert b (set (ring_blocks ring) - set_option (ring ! i))"
proof -
  have r: "ring = take i ring @ ring ! i # drop (Suc i) ring"
    using assms(1) by (rule id_take_nth_drop)
  have u: "ring[i := Some b] = take i ring @ Some b # drop (Suc i) ring"
    using assms(1) by (rule upd_conv_take_nth_drop)
  let ?a = "ring_blocks (take i ring)" and ?c = "ring_blocks (drop (Suc i) ring)"
  have "ring_blocks ring = ?a @ (case ring ! i of None \<Rightarrow> [] | Some x \<Rightarrow> [x]) @ ?c"
    by (subst r) (auto split: option.splits)
  then show "distinct (ring_blocks (ring[i := Some b]))"
    "set (ring_blocks (ring[i := Some b])) = insert b (set (ring_blocks ring) - set_option (ring ! i))"
    using assms(2,3) unfolding u by (auto split: option.splits)
qed

context allocator_contract
begin

lemma quarantine_alloc_post:
  assumes post: "alloc_post ainv (L \<union> Q) lay m (f (qu_inner q, m))"
    and inv: "quarantine_inv E ainv q m L" and Q: "L \<inter> Q = {}"
    "distinct (ring_blocks (qu_ring q))"
    "block_key ` Q = set (ring_blocks (qu_ring q))"
  shows "alloc_post (quarantine_inv E ainv) L lay m (quarantine_lift f (q, m))"
proof -
  have len: "length (qu_ring q) = E" using inv by (simp add: quarantine_inv_def)
  obtain r i m' where f: "f (qu_inner q, m) = (r, i, m')" by (cases "f (qu_inner q, m)") auto
  have fp: "footprint (L \<union> Q) = footprint L \<union> footprint Q" by (auto simp: footprint_def)
  have same: "same_on (footprint L) m m'"
    using post f fp by (cases r) (auto simp: alloc_post_def intro: same_on_mono)
  show ?thesis
  proof (cases r)
    case (Inl e)
    then show ?thesis
      using post f len Q same
      by (auto simp: quarantine_lift_def alloc_post_def quarantine_inv_def)
  next
    case (Inr x)
    obtain p n where x: "x = (p, n)" by (cases x)
    have p: "block_ok lay p n" "span p n \<inter> footprint (L \<union> Q) = {}"
      "ainv i m' (insert (p, lay, n) L \<union> Q)"
      using post f Inr x by (auto simp: alloc_post_def)
    have "(p, lay, n) \<notin> Q"
      using p(1,2) span_base [of n p] fp span_footprint [of p lay n Q] by (auto dest: block_okD(7))
    then have "quarantine_inv E ainv (q\<lparr>qu_inner := i\<rparr>) m' (insert (p, lay, n) L)"
      using len Q p(3) by (auto simp: quarantine_inv_def)
    then show ?thesis
      using f Inr x p same fp by (auto simp: quarantine_lift_def alloc_post_def)
  qed
qed

lemma quarantine_deallocate_post:
  assumes E: "0 < E" and inv: "quarantine_inv E ainv q m L" and mem: "(p, lay, n) \<in> L"
  shows "dealloc_post (quarantine_inv E ainv) (L - {(p, lay, n)}) m
    (quarantine_deallocate E A p lay (q, m))"
proof -
  obtain Q where len: "length (qu_ring q) = E" and i: "ainv (qu_inner q) m (L \<union> Q)"
    and dj: "L \<inter> Q = {}" and d: "distinct (ring_blocks (qu_ring q))"
    and Q: "block_key ` Q = set (ring_blocks (qu_ring q))"
    using inv by (auto simp: quarantine_inv_def)
  let ?idx = "unat (qu_count q) mod E" and ?K = "L - {(p, lay, n)}"
  let ?q = "q\<lparr>qu_count := qu_count q + 1, qu_ring := (qu_ring q)[?idx := Some (p, lay)]\<rparr>"
  note live = inv_live [OF i]
  have idx: "?idx < length (qu_ring q)" using E len by simp
  have fresh: "(p, lay) \<notin> set (ring_blocks (qu_ring q))"
  proof
    assume "(p, lay) \<in> set (ring_blocks (qu_ring q))"
    then obtain k where "(p, lay, k) \<in> Q" unfolding Q [symmetric] by auto
    then show False
      using live_ok_same_addr(2) [OF live, of p lay n lay k] mem dj by auto
  qed
  note u = ring_blocks_update [OF idx d fresh]
  show ?thesis
  proof (cases "qu_ring q ! ?idx")
    case None
    have "block_key ` insert (p, lay, n) Q = set (ring_blocks (qu_ring ?q))"
      using u(2) Q None by simp
    moreover have "?K \<union> insert (p, lay, n) Q = L \<union> Q" "?K \<inter> insert (p, lay, n) Q = {}"
      using mem dj by auto
    ultimately have "quarantine_inv E ainv ?q m ?K"
      using len i u(1) by (auto simp: quarantine_inv_def intro!: exI [of _ "insert (p, lay, n) Q"])
    then show ?thesis
      using None by (simp add: quarantine_deallocate_def dealloc_post_def Let_def)
  next
    case (Some b)
    obtain pp pl where b: "b = (pp, pl)" by (cases b)
    have "b \<in> set (ring_blocks (qu_ring q))"
      using Some idx by (auto simp: ring_blocks_set in_set_conv_nth)
    then obtain k where k: "(pp, pl, k) \<in> Q" unfolding Q [symmetric] b by auto
    let ?Q = "insert (p, lay, n) (Q - {(pp, pl, k)})"
    have neq: "(pp, pl, k) \<noteq> (p, lay, n)" using k mem dj by auto
    have K: "L \<union> Q - {(pp, pl, k)} = ?K \<union> ?Q" "?K \<inter> ?Q = {}"
      using mem dj k neq by auto
    have "dealloc_post ainv (L \<union> Q - {(pp, pl, k)}) m (al_deallocate A pp pl (qu_inner q, m))"
      by (rule deallocate [OF i]) (use k in simp)
    then obtain s' m' where s': "al_deallocate A pp pl (qu_inner q, m) = Done (s', m')"
      "ainv s' m' (?K \<union> ?Q)" "same_on (footprint (?K \<union> ?Q)) m m'"
      unfolding K(1) by (auto simp: dealloc_post_def split: outcome.splits)
    have "block_key ` (Q - {(pp, pl, k)}) = set (ring_blocks (qu_ring q)) - {(pp, pl)}"
      using block_key_remove [OF live _ k] Q by simp
    then have "block_key ` ?Q = set (ring_blocks (qu_ring ?q))"
      using u(2) Some b by simp
    then have "quarantine_inv E ainv (?q\<lparr>qu_inner := s'\<rparr>) m' ?K"
      using len s'(2) u(1) K(2)
      unfolding quarantine_inv_def by (intro conjI exI [of _ ?Q]) simp_all
    moreover have "same_on (footprint ?K) m m'"
      using s'(3) by (rule same_on_mono) (rule footprint_mono, rule Un_upper1)
    ultimately show ?thesis
      using Some b s'(1) by (simp add: quarantine_deallocate_def dealloc_post_def Let_def)
  qed
qed

lemma quarantine_invE:
  assumes "quarantine_inv E ainv q m L"
  obtains Q where "ainv (qu_inner q) m (L \<union> Q)" "L \<inter> Q = {}" "distinct (ring_blocks (qu_ring q))"
    "block_key ` Q = set (ring_blocks (qu_ring q))"
  using assms by (auto simp: quarantine_inv_def)

lemma quarantine_core:
  assumes "0 < E"
  shows "allocator_core (\<lambda>lay. quarantine_lift (al_allocate A lay)) (quarantine_deallocate E A)
    (\<lambda>q. al_usable_size A (qu_inner q)) (quarantine_inv E ainv)"
proof
  fix q m L assume "quarantine_inv E ainv q m L"
  then show "live_ok L"
    by (elim quarantine_invE) (blast intro: live_ok_mono inv_live)
next
  fix q m L m' assume inv: "quarantine_inv E ainv q m L" and same: "same_on (- footprint L) m m'"
  then obtain Q where "ainv (qu_inner q) m (L \<union> Q)" and Q: "L \<inter> Q = {}"
    "distinct (ring_blocks (qu_ring q))"
    "block_key ` Q = set (ring_blocks (qu_ring q))"
    by (elim quarantine_invE)
  then have "ainv (qu_inner q) m' (L \<union> Q)"
    using same by (elim user_write) (auto simp: same_on_def footprint_def)
  then show "quarantine_inv E ainv q m' L"
    using Q inv by (auto simp: quarantine_inv_def)
next
  fix q m L lay assume inv: "quarantine_inv E ainv q m L" and lay: "valid_layout lay"
  from inv obtain Q where Q: "ainv (qu_inner q) m (L \<union> Q)" "L \<inter> Q = {}"
    "distinct (ring_blocks (qu_ring q))"
    "block_key ` Q = set (ring_blocks (qu_ring q))"
    by (elim quarantine_invE)
  show "alloc_post (quarantine_inv E ainv) L lay m (quarantine_lift (al_allocate A lay) (q, m))"
    by (rule quarantine_alloc_post [where f = "al_allocate A lay", OF allocate [OF Q(1) lay] inv Q(2-4)])
next
  fix q m L p lay n k
  assume "quarantine_inv E ainv q m L" "(p, lay, n) \<in> L" "al_usable_size A (qu_inner q) p lay = Some k"
  then show "lay_size lay \<le> k \<and> k \<le> n"
    by (elim quarantine_invE) (blast dest: usable_size)
qed (use assms quarantine_deallocate_post in auto)

lemma quarantine_contract:
  assumes "0 < E"
  shows "allocator_contract (quarantine_allocator E A) (quarantine_inv E ainv)"
proof (intro allocator_contract.intro allocator_contract_axioms.intro)
  note core = quarantine_core [OF assms]
  show "allocator_core (al_allocate (quarantine_allocator E A)) (al_deallocate (quarantine_allocator E A))
      (al_usable_size (quarantine_allocator E A)) (quarantine_inv E ainv)"
    using core by (simp add: quarantine_allocator_def Let_def)
  fix q m L
  assume inv: "quarantine_inv E ainv q m L"
  show "quarantine_inv E ainv q' m (case r of Inl e \<Rightarrow> L | Inr u \<Rightarrow> {})"
    if "al_reset (quarantine_allocator E A) q = (r, q')" for r q'
    using that inv by (auto simp: quarantine_allocator_def Let_def default_reset_def)
  show "alloc_post (quarantine_inv E ainv) L lay m (al_allocate_zeroed (quarantine_allocator E A) lay (q, m)) \<and>
      zeroed_post lay (al_allocate_zeroed (quarantine_allocator E A) lay (q, m))"
    if lay: "valid_layout lay" for lay
  proof -
    from inv obtain Q where Q: "ainv (qu_inner q) m (L \<union> Q)" "L \<inter> Q = {}"
      "distinct (ring_blocks (qu_ring q))"
      "block_key ` Q = set (ring_blocks (qu_ring q))"
      by (elim quarantine_invE)
    note z = allocate_zeroed [OF Q(1) lay]
    then have "zeroed_post lay (quarantine_lift (al_allocate_zeroed A lay) (q, m))"
      by (auto simp: zeroed_post_def quarantine_lift_def split: prod.splits sum.splits)
    with quarantine_alloc_post [where f = "al_allocate_zeroed A lay", OF z [THEN conjunct1] inv Q(2-4)]
    show ?thesis
      by (simp add: quarantine_allocator_def Let_def)
  qed
  show "resize_post (quarantine_inv E ainv) L (L - {(p, old, n)}) p (lay_size old) new m
      (al_grow (quarantine_allocator E A) p old new (q, m))"
    if "(p, old, n) \<in> L" "valid_layout new" "lay_size old \<le> lay_size new" for p old n new
    using allocator_core.default_grow [OF core inv that] by (simp add: quarantine_allocator_def Let_def)
  show "resize_post (quarantine_inv E ainv) L (L - {(p, old, n)}) p (lay_size new) new m
      (al_shrink (quarantine_allocator E A) p old new (q, m))"
    if "(p, old, n) \<in> L" "valid_layout new" "lay_size new \<le> lay_size old" for p old n new
    using allocator_core.default_shrink [OF core inv that] by (simp add: quarantine_allocator_def Let_def)
qed

text \<open>Dropping the wrapper gives every quarantined block back to the inner allocator.\<close>

lemma quarantine_drain_post:
  assumes "ainv s m (L \<union> Q)" "L \<inter> Q = {}" "distinct (ring_blocks ring)"
    "block_key ` Q = set (ring_blocks ring)"
  shows "\<exists>s' m'. quarantine_drain A ring (s, m) = Done (s', m') \<and> ainv s' m' L \<and>
    same_on (footprint L) m m'"
  using assms
proof (induction ring arbitrary: s m Q)
  case Nil
  then show ?case by simp
next
  case (Cons slot ring)
  show ?case
  proof (cases slot)
    case None
    then show ?thesis using Cons by simp
  next
    case (Some b)
    obtain p lay where b: "b = (p, lay)" by (cases b)
    have "(p, lay) \<in> block_key ` Q" using Cons.prems(4) Some b by simp
    then obtain n where n: "(p, lay, n) \<in> Q" by auto
    have dj: "L \<union> Q - {(p, lay, n)} = L \<union> (Q - {(p, lay, n)})"
      using n Cons.prems(2) by auto
    have "dealloc_post ainv (L \<union> Q - {(p, lay, n)}) m (al_deallocate A p lay (s, m))"
      by (rule deallocate [OF Cons.prems(1)]) (use n in simp)
    then obtain s1 m1 where s1: "al_deallocate A p lay (s, m) = Done (s1, m1)"
      "ainv s1 m1 (L \<union> (Q - {(p, lay, n)}))" "same_on (footprint (L \<union> (Q - {(p, lay, n)}))) m m1"
      unfolding dj by (auto simp: dealloc_post_def split: outcome.splits)
    have "block_key ` (Q - {(p, lay, n)}) = set (ring_blocks ring)"
      using block_key_remove [OF inv_live [OF Cons.prems(1)] _ n] Cons.prems(3,4) Some b by simp
    then obtain s' m' where s': "quarantine_drain A ring (s1, m1) = Done (s', m')" "ainv s' m' L"
      "same_on (footprint L) m1 m'"
      using Cons.IH [OF s1(2)] Cons.prems(2,3) Some by auto
    have "same_on (footprint L) m m1"
      using s1(3) by (rule same_on_mono) (rule footprint_mono, rule Un_upper1)
    then show ?thesis
      using s1(1) s' Some b by (auto intro: same_on_trans)
  qed
qed

lemma quarantine_drop_post:
  assumes "quarantine_inv E ainv q m L"
  shows "\<exists>s' m'. quarantine_drop A (q, m) = Done (s', m') \<and> ainv s' m' L \<and> same_on (footprint L) m m'"
  using assms quarantine_drain_post by (auto simp: quarantine_inv_def quarantine_drop_def)

end

section \<open>How long a block stays out of circulation\<close>

text \<open>
  \<open>quarantined_at E q j b\<close>: the block \<open>b\<close> sits in ring slot \<open>j\<close>. The next free writes slot
  \<open>count mod E\<close> and no operation writes another one.
\<close>

definition next_slot :: "nat \<Rightarrow> 'i quarantine \<Rightarrow> nat" where
  "next_slot E q = unat (qu_count q) mod E"

lemma quarantine_lift_ring:
  "quarantine_lift f (q, m) = (r, q', m') \<Longrightarrow> qu_ring q' = qu_ring q \<and> qu_count q' = qu_count q"
  by (auto simp: quarantine_lift_def split: prod.splits)

lemma quarantine_deallocate_ring:
  "quarantine_deallocate E I p lay (q, m) = Done (q', m') \<Longrightarrow>
     qu_count q' = qu_count q + 1 \<and> qu_ring q' = (qu_ring q)[next_slot E q := Some (p, lay)]"
  by (auto simp: quarantine_deallocate_def Let_def next_slot_def split: option.splits)

text \<open>Every step advances the counter by its label and touches no slot but the next one.\<close>

lemma quarantine_step_ring:
  assumes "client_step (quarantine_allocator E I) (q, m, L) k (q', m', L')"
  shows "qu_count q' = qu_count q + word_of_nat k \<and>
    (\<forall>j. k = 0 \<or> j \<noteq> next_slot E q \<longrightarrow> qu_ring q' ! j = qu_ring q ! j) \<and>
    length (qu_ring q') = length (qu_ring q) \<and> k \<le> 1"
  using assms
  by (cases rule: client_stepE)
    (auto simp: quarantine_allocator_def Let_def default_grow_def default_shrink_def
      next_slot_def dest!: quarantine_lift_ring quarantine_deallocate_ring
      split: prod.splits sum.splits)

lemma unat_plus_small: "unat (c :: usize) + k < 2 ^ 64 \<Longrightarrow> unat (c + word_of_nat k) = unat c + k"
  by (simp add: unat_plus_if' unat_word_of_nat)

lemma mod_window:
  assumes "a < b" "b < a + E"
  shows "(b :: nat) mod E \<noteq> a mod E"
proof
  assume "b mod E = a mod E"
  then have "E dvd b - a" by (rule mod_eq_dvd_iff_nat [THEN iffD1, rotated]) (use assms in simp)
  then show False using assms by (auto dest: dvd_imp_le)
qed

lemma quarantine_run_slot:
  assumes "client_run (quarantine_allocator E I) w k w'"
    "w = (q, m, L)" "w' = (q', m', L')"
    "unat (qu_count q) + k < 2 ^ 64" "0 < unat (qu_count q)" "k < E"
    "j = (unat (qu_count q) - 1) mod E"
  shows "qu_ring q' ! j = qu_ring q ! j \<and> qu_count q' = qu_count q + word_of_nat k"
  using assms
proof (induction arbitrary: q' m' L' rule: client_run.induct)
  case (nil w)
  then show ?case by simp
next
  case (snoc w k w' i w'')
  obtain q1 m1 L1 where w': "w' = (q1, m1, L1)" by (cases w')
  note st = quarantine_step_ring [OF snoc.hyps(2) [unfolded w' snoc.prems(2)]]
  have ih: "qu_ring q1 ! j = qu_ring q ! j" "qu_count q1 = qu_count q + word_of_nat k"
    using snoc.IH [OF snoc.prems(1) w'] snoc.prems by auto
  have u: "unat (qu_count q1) = unat (qu_count q) + k"
    unfolding ih(2) by (rule unat_plus_small) (use snoc.prems in simp)
  have "next_slot E q1 \<noteq> j" if "i \<noteq> 0"
    unfolding next_slot_def u snoc.prems(6)
    by (rule mod_window) (use snoc.prems that st in auto)
  then have "i = 0 \<or> j \<noteq> next_slot E q1" by auto
  then have "qu_ring q' ! j = qu_ring q1 ! j" using st by blast
  then show ?case using st ih by (simp add: algebra_simps)
qed

context allocator_contract
begin

text \<open>A block in the ring is beyond the reach of any allocation.\<close>

lemma quarantine_ring_unreachable:
  assumes inv: "quarantine_inv E ainv q m L" and j: "j < E" "qu_ring q ! j = Some (p, lay)"
    and lay: "valid_layout lay'" and al: "quarantine_lift (al_allocate A lay') (q, m) = (Inr (p', n'), q', m')"
  shows "span p' n' \<inter> span p (lay_size lay) = {}"
proof -
  obtain Q where Q: "ainv (qu_inner q) m (L \<union> Q)" and k: "block_key ` Q = set (ring_blocks (qu_ring q))"
    using inv by (rule quarantine_invE)
  have "(p, lay) \<in> set (ring_blocks (qu_ring q))"
    using inv j by (force simp: ring_blocks_set in_set_conv_nth quarantine_inv_def)
  then obtain n where n: "(p, lay, n) \<in> Q" unfolding k [symmetric] by auto
  obtain i where "al_allocate A lay' (qu_inner q, m) = (Inr (p', n'), i, m')"
    using al by (auto simp: quarantine_lift_def split: prod.splits)
  then have "span p' n' \<inter> footprint (L \<union> Q) = {}"
    using allocate [OF Q lay] by (simp add: alloc_post_def)
  moreover have "span p (lay_size lay) \<subseteq> footprint (L \<union> Q)"
    using block_ok_prefix(2) [OF inv_block [OF Q, of p lay n]] span_footprint [of p lay n "L \<union> Q"] n
    by auto
  ultimately show ?thesis by blast
qed

lemma quarantine_delay:
  assumes E: "0 < E" and inv: "quarantine_inv E ainv q m L" and mem: "(p, lay, n) \<in> L"
    and free: "quarantine_deallocate E A p lay (q, m) = Done (q1, m1)"
    and run: "client_run (quarantine_allocator E A) (q1, m1, L - {(p, lay, n)}) k (q2, m2, L2)"
    and k: "k < E" "unat (qu_count q) + 1 + k < 2 ^ 64"
    and lay: "valid_layout lay'"
    and al: "quarantine_lift (al_allocate A lay') (q2, m2) = (Inr (p', n'), q', m')"
  shows "span p' n' \<inter> span p (lay_size lay) = {}"
proof -
  have r: "qu_count q1 = qu_count q + 1" "qu_ring q1 = (qu_ring q)[next_slot E q := Some (p, lay)]"
    using quarantine_deallocate_ring [OF free] by auto
  have u: "unat (qu_count q1) = unat (qu_count q) + 1"
    using unat_plus_small [of "qu_count q" 1] k(2) r(1) by simp
  have inv1: "quarantine_inv E ainv q1 m1 (L - {(p, lay, n)})"
    using quarantine_deallocate_post [OF E inv mem] free by (simp add: dealloc_post_def)
  have inv2: "quarantine_inv E ainv q2 m2 L2"
    using allocator_contract.client_run_inv [OF quarantine_contract [OF E] run inv1] by simp
  have "qu_ring q2 ! next_slot E q = qu_ring q1 ! next_slot E q"
    using quarantine_run_slot [OF run refl refl, of "next_slot E q"] k u by (simp add: next_slot_def)
  also have "\<dots> = Some (p, lay)"
    using E inv by (simp add: r(2) next_slot_def quarantine_inv_def)
  finally show ?thesis
    unfolding next_slot_def
    by (rule quarantine_ring_unreachable [OF inv2 mod_less_divisor [OF E] _ lay al])
qed

end

end
