(* ===== verification/Hosted_Blocks.thy ===== *)
theory Hosted_Blocks
  imports Alloc_Traits
begin

text \<open>
  What \<open>Canary\<close> and \<open>CacheJitter\<close> share: every block the wrapper hands out lies, with the wrapper's own
  bytes around it, in a block of the inner allocator, its host. The wrapper says when a host holds a
  block with those bytes intact; this theory carries that over every call.
\<close>

type_synonym block3 = "addr \<times> layout \<times> usize"

definition hosted_inv ::
  "(mem \<Rightarrow> block3 \<Rightarrow> block3 \<Rightarrow> bool) \<Rightarrow> ('i \<Rightarrow> mem \<Rightarrow> live \<Rightarrow> bool) \<Rightarrow> 'i \<Rightarrow> mem \<Rightarrow> live \<Rightarrow> bool" where
  "hosted_inv hosted iinv i m L \<longleftrightarrow>
     (\<exists>host. iinv i m (host ` L) \<and> inj_on host L \<and> (\<forall>b \<in> L. hosted m b (host b)))"

lemma hosted_inv_empty [simp]: "hosted_inv hosted iinv i m {} \<longleftrightarrow> iinv i m {}"
  by (simp add: hosted_inv_def)

lemma live_ok_blk_disjoint: "live_ok L \<Longrightarrow> b \<in> L \<Longrightarrow> c \<in> L \<Longrightarrow> b \<noteq> c \<Longrightarrow> blk b \<inter> blk c = {}"
  unfolding live_ok_def by blast

lemma inj_on_upd: "inj_on f S \<Longrightarrow> x \<notin> S \<Longrightarrow> y \<notin> f ` S \<Longrightarrow> inj_on (f(x := y)) (insert x S)"
  by (auto simp: inj_on_def)

lemma blk_footprint: "b \<in> L \<Longrightarrow> blk b \<subseteq> footprint L"
  unfolding footprint_def by blast

locale hosted_blocks = allocator_contract A ainv for A :: "'a allocator" and ainv +
  fixes hosted :: "mem \<Rightarrow> block3 \<Rightarrow> block3 \<Rightarrow> bool"
  assumes fits: "hosted m (p, lay, n) (q, il, k) \<Longrightarrow> block_ok il q k \<Longrightarrow> block_ok lay p n \<and> span p n \<subseteq> span q k"
    and intact: "hosted m (p, lay, n) (q, il, k) \<Longrightarrow> block_ok il q k \<Longrightarrow> same_on (span q k - span p n) m m' \<Longrightarrow>
      hosted m' (p, lay, n) (q, il, k)"
begin

text \<open>Facts about one choice of hosts.\<close>

lemma host_fits:
  assumes "ainv i m (host ` L)" "\<forall>b \<in> L. hosted m b (host b)" "(p, lay, n) \<in> L"
  shows "block_ok lay p n" "span p n \<subseteq> blk (host (p, lay, n))"
proof -
  obtain q il k where h: "host (p, lay, n) = (q, il, k)" by (cases "host (p, lay, n)")
  have "(q, il, k) \<in> host ` L" using assms(3) h by force
  from inv_block [OF assms(1) this] show "block_ok lay p n" "span p n \<subseteq> blk (host (p, lay, n))"
    using fits [of m p lay n q il k] bspec [OF assms(2,3)] h by auto
qed

lemma host_footprint:
  assumes "ainv i m (host ` L)" "\<forall>b \<in> L. hosted m b (host b)"
  shows "footprint L \<subseteq> footprint (host ` L)"
proof
  fix a assume "a \<in> footprint L"
  then obtain p lay n where b: "(p, lay, n) \<in> L" "a \<in> span p n" by (force simp: footprint_def)
  then show "a \<in> footprint (host ` L)"
    using host_fits(2) [OF assms b(1)] blk_footprint [of "host (p, lay, n)"] by blast
qed

lemma host_distinct:
  assumes "ainv i m (host ` L)" "inj_on host L" "b \<in> L" "c \<in> L" "b \<noteq> c"
  shows "blk (host b) \<inter> blk (host c) = {}"
  by (rule live_ok_blk_disjoint [OF inv_live [OF assms(1)]]) (use assms(2-5) in \<open>auto dest: inj_onD\<close>)

lemma host_off:
  assumes "ainv i m (host ` L)" "inj_on host L" "\<forall>b \<in> L. hosted m b (host b)" "b \<in> L"
  shows "(blk (host b) - blk b) \<inter> footprint L = {}"
proof -
  have "(blk (host b) - blk b) \<inter> blk c = {}" if "c \<in> L" for c
  proof (cases "c = b")
    case False
    obtain p lay n where c: "c = (p, lay, n)" by (cases c)
    show ?thesis
      using host_distinct [OF assms(1,2,4) that] host_fits(2) [OF assms(1,3) that [unfolded c]] False c by auto
  qed auto
  then show ?thesis unfolding footprint_def by blast
qed

lemma host_keep:
  assumes "ainv i m (host ` L)" "hosted m b (host b)" "b \<in> L" "same_on (blk (host b) - blk b) m m'"
  shows "hosted m' b (host b)"
proof -
  obtain p lay n q il k where b: "b = (p, lay, n)" and h: "host b = (q, il, k)" by (cases b, cases "host b")
  have "(q, il, k) \<in> host ` L" using assms(3) h by (metis imageI)
  from intact [OF _ inv_block [OF assms(1) this], of m p lay n m'] assms(2,4) show ?thesis
    by (simp add: b h [unfolded b])
qed

text \<open>What a wrapper's own lemmas need.\<close>

lemma hosted_live_ok:
  assumes "hosted_inv hosted ainv i m L"
  shows "live_ok L"
proof -
  obtain host where h: "ainv i m (host ` L)" "inj_on host L" "\<forall>b \<in> L. hosted m b (host b)"
    using assms by (auto simp: hosted_inv_def)
  have "blk b \<inter> blk c = {}" if bc: "b \<in> L" "c \<in> L" "b \<noteq> c" for b c
  proof -
    obtain p lay n p' lay' n' where b: "b = (p, lay, n)" and c: "c = (p', lay', n')" by (cases b, cases c)
    show ?thesis
      using host_distinct [OF h(1,2) bc] host_fits(2) [OF h(1,3)] bc(1,2) b c by fastforce
  qed
  then show ?thesis using host_fits(1) [OF h(1,3)] unfolding live_ok_def by blast
qed

lemma hosted_user_write:
  assumes inv: "hosted_inv hosted ainv i m L" and same: "same_on (- footprint L) m m'"
  shows "hosted_inv hosted ainv i m' L"
proof -
  obtain host where h: "ainv i m (host ` L)" "inj_on host L" "\<forall>b \<in> L. hosted m b (host b)"
    using inv by (auto simp: hosted_inv_def)
  have "ainv i m' (host ` L)"
    by (rule user_write [OF h(1) same_on_mono [OF same]]) (use host_footprint [OF h(1,3)] in blast)
  moreover have "hosted m' b (host b)" if b: "b \<in> L" for b
    by (rule host_keep [OF h(1) bspec [OF h(3) b] b same_on_mono [OF same]])
      (use host_off [OF h b] in blast)
  ultimately show ?thesis using h(2) unfolding hosted_inv_def by blast
qed

text \<open>An inner refusal.\<close>

lemma hosted_refused:
  assumes inv: "hosted_inv hosted ainv i m L" and il: "valid_layout il"
    and al: "al_allocate A il (i, m) = (Inl e, i', m')"
  shows "hosted_inv hosted ainv i' m' L \<and> same_on (footprint L) m m'"
proof -
  obtain host where h: "ainv i m (host ` L)" "inj_on host L" "\<forall>b \<in> L. hosted m b (host b)"
    using inv by (auto simp: hosted_inv_def)
  have a: "ainv i' m' (host ` L)" "same_on (footprint (host ` L)) m m'"
    using allocate [OF h(1) il] al by (auto simp: alloc_post_def)
  have "hosted m' b (host b)" if b: "b \<in> L" for b
    by (rule host_keep [OF h(1) bspec [OF h(3) b] b same_on_mono [OF a(2)]])
      (use blk_footprint [of "host b" "host ` L"] b in blast)
  moreover have "same_on (footprint L) m m'" by (rule same_on_mono [OF a(2) host_footprint [OF h(1,3)]])
  ultimately show ?thesis using a(1) h(2) unfolding hosted_inv_def by blast
qed

text \<open>A fresh host, into which the wrapper writes its bytes.\<close>

lemma hosted_allocate:
  assumes inv: "hosted_inv hosted ainv i m L" and il: "valid_layout il"
    and al: "al_allocate A il (i, m) = (Inr (q, k), i', m1)"
    and m2: "same_on (- span q k) m1 m2" and new: "block_ok il q k \<Longrightarrow> hosted m2 (p, lay, n) (q, il, k)"
  shows "block_ok lay p n \<and> span p n \<inter> footprint L = {} \<and> same_on (footprint L) m m2 \<and>
    hosted_inv hosted ainv i' m2 (insert (p, lay, n) L)"
proof -
  obtain host where h: "ainv i m (host ` L)" "inj_on host L" "\<forall>b \<in> L. hosted m b (host b)"
    using inv by (auto simp: hosted_inv_def)
  have a: "block_ok il q k" "span q k \<inter> footprint (host ` L) = {}" "ainv i' m1 (insert (q, il, k) (host ` L))"
    "same_on (footprint (host ` L)) m m1"
    using allocate [OF h(1) il] al by (auto simp: alloc_post_def)
  let ?x = "(p, lay, n)"
  note f = fits [OF new [OF a(1)] a(1)]
  have same: "same_on (footprint (host ` L)) m m2"
    using a(2,4) m2 unfolding same_on_def by (metis ComplI disjoint_iff)
  have sub: "footprint L \<subseteq> footprint (host ` L)" by (rule host_footprint [OF h(1,3)])
  have d: "span p n \<inter> footprint L = {}" using f a(2) sub by blast
  have p: "p \<in> span p n" using f span_base block_okD(7) by blast
  have x: "?x \<notin> L" using d p span_footprint [of p lay n L] by blast
  have q: "(q, il, k) \<notin> host ` L"
    using a(1,2) span_footprint [of q il k "host ` L"] span_base [OF block_okD(7) [OF a(1)]] by blast
  define host' where "host' = host(?x := (q, il, k))"
  have img: "host' ` insert ?x L = insert (q, il, k) (host ` L)"
    using x by (auto simp: host'_def)
  have "inj_on host' (insert ?x L)"
    unfolding host'_def by (rule inj_on_upd [OF h(2) x q])
  moreover have "ainv i' m2 (host' ` insert ?x L)"
    unfolding img by (rule user_write [OF a(3) same_on_mono [OF m2]]) auto
  moreover have "hosted m2 b (host b)" if b: "b \<in> L" for b
    by (rule host_keep [OF h(1) bspec [OF h(3) b] b same_on_mono [OF same]])
      (use blk_footprint [of "host b" "host ` L"] b in blast)
  then have "\<forall>b \<in> insert ?x L. hosted m2 b (host' b)"
    using new [OF a(1)] x by (auto simp: host'_def)
  ultimately have "hosted_inv hosted ainv i' m2 (insert ?x L)" unfolding hosted_inv_def by blast
  then show ?thesis using f d same_on_mono [OF same sub] by blast
qed

text \<open>The host of a block to free: the wrapper may first write anything into it.\<close>

lemma hosted_deallocate:
  assumes inv: "hosted_inv hosted ainv i m L" and mem: "(p, lay, n) \<in> L"
  shows "\<exists>q il k. block_ok il q k \<and> hosted m (p, lay, n) (q, il, k) \<and>
    (\<forall>m1. same_on (- span q k) m m1 \<longrightarrow>
       (\<exists>i' m'. al_deallocate A q il (i, m1) = Done (i', m') \<and>
          hosted_inv hosted ainv i' m' (L - {(p, lay, n)}) \<and> same_on (footprint (L - {(p, lay, n)})) m m'))"
proof -
  obtain host where h: "ainv i m (host ` L)" "inj_on host L" "\<forall>b \<in> L. hosted m b (host b)"
    using inv by (auto simp: hosted_inv_def)
  let ?x = "(p, lay, n)"
  let ?K = "L - {?x}"
  obtain q il k where q: "host ?x = (q, il, k)" by (cases "host ?x")
  have qm: "(q, il, k) \<in> host ` L" using mem q by force
  have K: "host ` ?K = host ` L - {(q, il, k)}"
    using inj_on_image_set_diff [OF h(2), of L "{?x}"] mem q by auto
  have freed: "\<exists>i' m'. al_deallocate A q il (i, m1) = Done (i', m') \<and> hosted_inv hosted ainv i' m' ?K \<and>
      same_on (footprint ?K) m m'" if m1: "same_on (- span q k) m m1" for m1
  proof -
    have "ainv i m1 (host ` L)"
      by (rule user_write [OF h(1) same_on_mono [OF m1]]) (use span_footprint [OF qm] in blast)
    from deallocate [OF this qm]
    obtain i' m' where d: "al_deallocate A q il (i, m1) = Done (i', m')" "ainv i' m' (host ` ?K)"
      "same_on (footprint (host ` ?K)) m1 m'"
      unfolding K by (auto simp: dealloc_post_def split: outcome.splits)
    have "footprint (host ` ?K) \<subseteq> - span q k"
      using footprint_remove(2) [OF inv_live [OF h(1)] qm] unfolding K by blast
    from same_on_mono [OF m1 this] have same: "same_on (footprint (host ` ?K)) m m'" by (rule same_on_trans [OF _ d(3)])
    have keep: "\<forall>b \<in> ?K. hosted m' b (host b)"
    proof
      fix b assume b: "b \<in> ?K"
      have "blk (host b) - blk b \<subseteq> footprint (host ` ?K)" using blk_footprint [OF imageI [OF b]] by blast
      from host_keep [OF h(1) _ _ same_on_mono [OF same this]] show "hosted m' b (host b)" using h(3) b by simp
    qed
    have "inj_on host ?K" using h(2) by (rule inj_on_subset) blast
    then have inv': "hosted_inv hosted ainv i' m' ?K"
      unfolding hosted_inv_def by (intro exI [of _ host] conjI d(2) keep)
    have "footprint ?K \<subseteq> footprint (host ` ?K)" by (rule host_footprint [OF d(2) keep])
    then show ?thesis using d(1) inv' same_on_mono [OF same] by blast
  qed
  have "hosted m ?x (q, il, k)" using bspec [OF h(3) mem] q by simp
  then show ?thesis
    by (intro exI [of _ q] exI [of _ il] exI [of _ k] conjI allI impI inv_block [OF h(1) qm] freed)
qed

end

end
