(* ===== verification/Canary.thy ===== *)
theory Canary
  imports Client_Runs Hosted_Blocks Backings
begin

text \<open>
  \<open>forge-alloc/src/hardening/canary.rs\<close>: \<open>Canary<I>\<close> surrounds every user block with a secret
  64-bit word, checked when the block is freed. The inner block holds, in this order, the pre-pad
  (whose last eight bytes are the pre-canary), the user bytes and the post-canary. A failed check
  is the release build's panic.
\<close>

section \<open>State and operations\<close>

record 'i canary =
  ca_inner :: 'i
  ca_value :: u64

definition canary_new_with_seed :: "'i \<Rightarrow> u64 \<Rightarrow> 'i canary" where
  "canary_new_with_seed inner seed =
     \<lparr>ca_inner = inner, ca_value = (if seed = 0 then 0xCAFEBABEDEADBEEF else seed)\<rparr>"

text \<open>\<open>entropy\<close> is what \<open>RandomState\<close> hashes the number 0 to.\<close>

definition canary_new :: "'i \<Rightarrow> u64 \<Rightarrow> 'i canary" where
  "canary_new inner entropy = canary_new_with_seed inner entropy"

definition canary_pre_pad :: "usize \<Rightarrow> usize" where
  "canary_pre_pad align = (if align < 8 then 8 else align)"

definition canary_inner_layout :: "layout \<Rightarrow> layout res" where
  "canary_inner_layout lay =
     (let pre = canary_pre_pad (lay_align lay); sz = lay_size lay
      in case checked_add pre sz of None \<Rightarrow> Inl AllocError
         | Some v \<Rightarrow>
             case checked_add v 8 of None \<Rightarrow> Inl AllocError
             | Some tot \<Rightarrow>
                 let align = max 8 (lay_align lay)
                 in case from_size_align tot align of
                      Inl e \<Rightarrow> Inl AllocError | Inr il \<Rightarrow> Inr il)"

text \<open>The comparison of \<open>verify\<close>; a mismatch is the panic.\<close>

definition canary_verify :: "'i canary \<Rightarrow> mem \<Rightarrow> addr \<Rightarrow> unit outcome" where
  "canary_verify c m p = (if read_u64 m p = ca_value c then Done () else Panicked)"

definition volatile_zero_canary :: "mem \<Rightarrow> addr \<Rightarrow> mem" where
  "volatile_zero_canary m p = write_bytes m p 0 8"

definition canary_drop :: "'i canary \<Rightarrow> 'i canary" where
  "canary_drop c = c\<lparr>ca_value := 0\<rparr>"

definition canary_deallocate :: "'i allocator \<Rightarrow> 'i canary dealloc_fun" where
  "canary_deallocate I p lay st =
     (case st of (c, m) \<Rightarrow>
        let pre = canary_pre_pad (lay_align lay); inner_ptr = p - pre
        in outcome_bind (canary_verify c m (p - 8)) (\<lambda>_.
           outcome_bind (canary_verify c m (p + lay_size lay)) (\<lambda>_.
             let m1 = volatile_zero_canary m (p - 8);
                 m2 = volatile_zero_canary m1 (p + lay_size lay)
             in case canary_inner_layout lay of
                  Inl e \<Rightarrow> Panicked
                | Inr inner_layout \<Rightarrow>
                    outcome_bind (al_deallocate I inner_ptr inner_layout (ca_inner c, m2))
                      (\<lambda>(i, m'). Done (c\<lparr>ca_inner := i\<rparr>, m')))))"

definition canary_allocate :: "'i allocator \<Rightarrow> 'i canary alloc_fun" where
  "canary_allocate I lay st =
     (case st of (c, m) \<Rightarrow>
        let pre = canary_pre_pad (lay_align lay)
        in case canary_inner_layout lay of
             Inl e \<Rightarrow> (Inl e, c, m)
           | Inr inner_layout \<Rightarrow>
               (case al_allocate I inner_layout (ca_inner c, m) of
                  (Inl e, i, m') \<Rightarrow> (Inl e, c\<lparr>ca_inner := i\<rparr>, m')
                | (Inr (inner_ptr, n), i, m') \<Rightarrow>
                    let user_ptr = inner_ptr + pre;
                        m1 = write_u64 m' (user_ptr - 8) (ca_value c);
                        m2 = write_u64 m1 (user_ptr + lay_size lay) (ca_value c)
                    in (Inr (user_ptr, lay_size lay), c\<lparr>ca_inner := i\<rparr>, m2)))"

definition canary_allocator :: "'i allocator \<Rightarrow> 'i canary allocator" where
  "canary_allocator I =
     \<lparr>al_allocate = canary_allocate I,
      al_allocate_zeroed = default_allocate_zeroed (canary_allocate I),
      al_deallocate = canary_deallocate I,
      al_grow = default_grow (canary_allocate I) (canary_deallocate I),
      al_shrink = default_shrink (canary_allocate I) (canary_deallocate I),
      al_reset = default_reset,
      al_usable_size = default_usable_size,
      al_capacity_bytes = (\<lambda>c. al_capacity_bytes I (ca_inner c)),
      al_corruption_events = (\<lambda>c. al_corruption_events I (ca_inner c))\<rparr>"

definition canary_range :: "'i fixed_range \<Rightarrow> 'i canary fixed_range" where
  "canary_range R =
     \<lparr>fr_base = (\<lambda>c. fr_base R (ca_inner c)),
      fr_size = (\<lambda>c. fr_size R (ca_inner c)),
      fr_commit = (\<lambda>c off len. case fr_commit R (ca_inner c) off len of
        (r, i) \<Rightarrow> (r, c\<lparr>ca_inner := i\<rparr>))\<rparr>"

section \<open>Geometry of a guarded block\<close>

lemma canary_pre_pad_eq: "canary_pre_pad a = max 8 a"
  by (auto simp: canary_pre_pad_def max_def)

lemma canary_inner_layout_Inr:
  assumes "canary_inner_layout lay = Inr il" "valid_layout lay"
  shows "valid_layout il" "lay_align il = max 8 (lay_align lay)"
    "unat (lay_size il) = unat (lay_align il) + unat (lay_size lay) + 8"
    "8 \<le> unat (lay_align il)" "unat (lay_align lay) dvd unat (lay_align il)"
proof -
  obtain v tot where v: "checked_add (max 8 (lay_align lay)) (lay_size lay) = Some v"
    and tot: "checked_add v 8 = Some tot" and il: "from_size_align tot (max 8 (lay_align lay)) = Inr il"
    using assms(1)
    by (auto simp: canary_inner_layout_def Let_def canary_pre_pad_eq split: option.splits sum.splits)
  have i: "valid_layout il" "lay_size il = tot" "lay_align il = max 8 (lay_align lay)"
    using il by (auto simp: from_size_align_Inr)
  then show "valid_layout il" and al: "lay_align il = max 8 (lay_align lay)" by auto
  show "unat (lay_size il) = unat (lay_align il) + unat (lay_size lay) + 8"
    using checked_add_unat [OF v] checked_add_unat [OF tot] i by simp
  show "8 \<le> unat (lay_align il)" by (simp add: al max_def word_le_nat_alt)
  show "unat (lay_align lay) dvd unat (lay_align il)"
    using is_pow2_dvd [OF valid_layoutD(3) [OF assms(2)] valid_layoutD(3) [OF i(1)]] al by simp
qed

lemma canary_geometry:
  assumes il: "canary_inner_layout lay = Inr il" and lay: "valid_layout lay"
    and q: "block_ok il q k" and p: "p = q + canary_pre_pad (lay_align lay)"
  shows "block_ok lay p (lay_size lay)" "span p (lay_size lay) \<subseteq> span q k"
    "span (p - 8) 8 \<subseteq> span q k" "span (p + lay_size lay) 8 \<subseteq> span q k"
    "span (p - 8) 8 \<inter> span p (lay_size lay) = {}"
    "span (p + lay_size lay) 8 \<inter> span p (lay_size lay) = {}"
    "span (p - 8) 8 \<inter> span (p + lay_size lay) 8 = {}"
proof -
  note i = canary_inner_layout_Inr [OF il lay] and b = block_okD [OF q]
  have pre: "canary_pre_pad (lay_align lay) = lay_align il" by (simp add: canary_pre_pad_eq i(2))
  have top: "unat q + (unat (lay_align il) + unat (lay_size lay) + 8) \<le> unat q + unat k"
    "unat q + unat k \<le> 2 ^ 64"
    using b(3,4) i(3) by (auto simp: no_wrap_def)
  have up: "unat p = unat q + unat (lay_align il)"
    unfolding p pre using top by (simp add: unat_plus_if')
  have um: "unat (p - 8) = unat p - 8" using up i(4) by (simp add: unat_sub_if' word_le_nat_alt)
  have us: "unat (p + lay_size lay) = unat p + unat (lay_size lay)"
    using up top by (simp add: unat_plus_if')
  have nw: "no_wrap p (lay_size lay)" "no_wrap (p - 8) 8" "no_wrap (p + lay_size lay) 8"
    using up um us top i(4) by (auto simp: no_wrap_def)
  have "unat (lay_align lay) dvd unat p"
    using b(5) i(5) unfolding up by (meson dvd_add dvd_trans)
  moreover have "p \<noteq> 0" using up i(4) by auto
  ultimately show "block_ok lay p (lay_size lay)"
    using lay nw(1) by (simp add: block_ok_def)
  show "span p (lay_size lay) \<subseteq> span q k" "span (p - 8) 8 \<subseteq> span q k"
    "span (p + lay_size lay) 8 \<subseteq> span q k"
    by (rule span_subset [OF _ b(3)]; use nw up um us top i(4) in simp)+
  show "span (p - 8) 8 \<inter> span p (lay_size lay) = {}"
    "span (p + lay_size lay) 8 \<inter> span p (lay_size lay) = {}"
    "span (p - 8) 8 \<inter> span (p + lay_size lay) 8 = {}"
    by (rule span_disjointI; use nw up um us top i(4) in simp)+
qed

section \<open>The invariant\<close>

definition canary_intact :: "'i canary \<Rightarrow> mem \<Rightarrow> addr \<Rightarrow> layout \<Rightarrow> bool" where
  "canary_intact c m p lay \<longleftrightarrow>
     read_u64 m (p - 8) = ca_value c \<and> read_u64 m (p + lay_size lay) = ca_value c"

text \<open>The host of a user block has it after the pre-pad, between the two canaries.\<close>

fun canary_hosted :: "'i canary \<Rightarrow> mem \<Rightarrow> block3 \<Rightarrow> block3 \<Rightarrow> bool" where
  "canary_hosted c m (p, lay, n) (q, il, k) \<longleftrightarrow> n = lay_size lay \<and> valid_layout lay \<and>
     canary_inner_layout lay = Inr il \<and> p = q + canary_pre_pad (lay_align lay) \<and> canary_intact c m p lay"

definition canary_inv ::
  "('i \<Rightarrow> mem \<Rightarrow> live \<Rightarrow> bool) \<Rightarrow> 'i canary \<Rightarrow> mem \<Rightarrow> live \<Rightarrow> bool" where
  "canary_inv iinv c m L \<longleftrightarrow> hosted_inv (canary_hosted c) iinv (ca_inner c) m L"

lemma canary_hosted_inner [simp]: "canary_hosted (c\<lparr>ca_inner := i\<rparr>) = canary_hosted c"
  by (intro ext) (auto simp: canary_intact_def split: prod.splits)

lemma canary_inv_intact:
  assumes "canary_inv iinv c m L" "(p, lay, n) \<in> L"
  shows "canary_intact c m p lay"
proof -
  obtain host where "\<forall>b \<in> L. canary_hosted c m b (host b)"
    using assms(1) by (auto simp: canary_inv_def hosted_inv_def)
  then show ?thesis using assms(2) by (cases "host (p, lay, n)") fastforce
qed

context allocator_contract
begin

lemma canary_hosts: "hosted_blocks A ainv (canary_hosted c)"
proof
  fix m m' p lay n q il k
  assume h: "canary_hosted c m (p, lay, n) (q, il, k)" and q: "block_ok il q k"
  then have c: "canary_inner_layout lay = Inr il" "valid_layout lay" "p = q + canary_pre_pad (lay_align lay)"
    "n = lay_size lay" "canary_intact c m p lay" unfolding canary_hosted.simps by blast+
  note g = canary_geometry [OF c(1,2) q c(3)]
  show "block_ok lay p n \<and> span p n \<subseteq> span q k" using g(1,2) c(4) by simp
  show "canary_hosted c m' (p, lay, n) (q, il, k)" if same: "same_on (span q k - span p n) m m'"
  proof -
    have "same_on (span (p - 8) 8) m m'" "same_on (span (p + lay_size lay) 8) m m'"
      using g(3-6) c(4) by (auto intro!: same_on_mono [OF same])
    then show ?thesis
      using c read_u64_cong [of "p - 8" m m'] read_u64_cong [of "p + lay_size lay" m m']
      by (simp add: canary_intact_def)
  qed
qed

lemma canary_allocate_post:
  assumes inv: "canary_inv ainv c m L" and lay: "valid_layout lay"
  shows "alloc_post (canary_inv ainv) L lay m (canary_allocate A lay (c, m))"
proof (cases "canary_inner_layout lay")
  case (Inl e)
  then show ?thesis using inv by (simp add: canary_allocate_def alloc_post_def)
next
  case il: (Inr il)
  note v = canary_inner_layout_Inr(1) [OF il lay] and I = inv [unfolded canary_inv_def]
  obtain r i m1 where al: "al_allocate A il (ca_inner c, m) = (r, i, m1)"
    by (cases "al_allocate A il (ca_inner c, m)") auto
  show ?thesis
  proof (cases r)
    case (Inl e)
    then show ?thesis
      using hosted_blocks.hosted_refused [OF canary_hosts I v al [unfolded Inl]] al il
      by (simp add: canary_allocate_def alloc_post_def canary_inv_def)
  next
    case (Inr x)
    obtain q k where x: "x = (q, k)" by (cases x)
    define p where "p = q + canary_pre_pad (lay_align lay)"
    let ?m2 = "write_u64 m1 (p - 8) (ca_value c)"
    let ?m3 = "write_u64 ?m2 (p + lay_size lay) (ca_value c)"
    have ok: "block_ok il q k"
      using inv al Inr x v by (auto simp: canary_inv_def hosted_inv_def alloc_post_def dest: allocate)
    note g = canary_geometry [OF il lay ok p_def]
    have off: "same_on (- span q k) m1 ?m3"
      using g(3,4) by (auto simp: same_on_def intro!: trans [OF write_u64_other write_u64_other])
    have "same_on (span (p - 8) 8) ?m2 ?m3"
      using g(7) by (auto simp: same_on_def intro!: write_u64_other)
    then have new: "canary_hosted c ?m3 (p, lay, lay_size lay) (q, il, k)"
      using lay il read_u64_cong [of "p - 8" ?m2 ?m3] by (simp add: canary_intact_def p_def)
    show ?thesis
      using hosted_blocks.hosted_allocate [OF canary_hosts I v al [unfolded Inr x] off new] al il Inr x
      by (simp add: canary_allocate_def alloc_post_def canary_inv_def Let_def p_def)
  qed
qed

lemma canary_deallocate_post:
  assumes inv: "canary_inv ainv c m L" and mem: "(p, lay, n) \<in> L"
  shows "dealloc_post (canary_inv ainv) (L - {(p, lay, n)}) m (canary_deallocate A p lay (c, m))"
proof -
  obtain q il k where q: "block_ok il q k" "canary_hosted c m (p, lay, n) (q, il, k)"
    and d: "\<And>m1. same_on (- span q k) m m1 \<Longrightarrow> \<exists>i' m'. al_deallocate A q il (ca_inner c, m1) = Done (i', m') \<and>
        hosted_inv (canary_hosted c) ainv i' m' (L - {(p, lay, n)}) \<and> same_on (footprint (L - {(p, lay, n)})) m m'"
    using hosted_blocks.hosted_deallocate [OF canary_hosts inv [unfolded canary_inv_def] mem] by blast
  have c: "canary_inner_layout lay = Inr il" "valid_layout lay" "p = q + canary_pre_pad (lay_align lay)"
    "canary_intact c m p lay" using q(2) unfolding canary_hosted.simps by blast+
  note g = canary_geometry [OF c(1,2) q(1) c(3)]
  let ?m = "volatile_zero_canary (volatile_zero_canary m (p - 8)) (p + lay_size lay)"
  have "same_on (- span q k) m ?m"
    using g(3,4) unfolding volatile_zero_canary_def
    by (auto simp: same_on_def intro!: trans [OF write_bytes_other write_bytes_other])
  from d [OF this] show ?thesis
    using c by (auto simp: canary_deallocate_def dealloc_post_def canary_verify_def canary_intact_def canary_inv_def Let_def)
qed

lemma canary_contract: "allocator_contract (canary_allocator A) (canary_inv ainv)"
proof (rule allocator_contractI)
  show "allocator_core (al_allocate (canary_allocator A)) (al_deallocate (canary_allocator A))
      (al_usable_size (canary_allocator A)) (canary_inv ainv)"
    by unfold_locales
      (use hosted_blocks.hosted_live_ok [OF canary_hosts] hosted_blocks.hosted_user_write [OF canary_hosts]
        canary_allocate_post canary_deallocate_post
        in \<open>auto simp: canary_allocator_def default_usable_size_def canary_inv_def\<close>)
qed (simp_all add: canary_allocator_def)

end

interpretation canary_inline: hosted_blocks "inline_allocator N" "inline_inv N" "canary_hosted c"
  by (rule inline.canary_hosts)

section \<open>Detection\<close>

lemma canary_detects:
  assumes "\<not> canary_intact c m p lay"
  shows "canary_deallocate I p lay (c, m) = Panicked"
  using assms by (auto simp: canary_deallocate_def canary_verify_def canary_intact_def Let_def)

text \<open>A word with a byte changed is another word.\<close>

lemma of_le_bytes_inj:
  "length xs = length ys \<Longrightarrow> 8 * length xs \<le> LENGTH('w) \<Longrightarrow>
     (of_le_bytes xs :: 'w::len word) = of_le_bytes ys \<Longrightarrow> xs = ys"
proof (induction xs ys rule: list_induct2)
  case (Cons x xs y ys)
  have w: "8 \<le> LENGTH('w)" using Cons.prems(1) by simp
  have e: "bit (ucast x OR push_bit 8 (of_le_bytes xs) :: 'w word) i =
      bit (ucast y OR push_bit 8 (of_le_bytes ys) :: 'w word) i" for i
    using Cons.prems(2) by simp
  have "x = y"
  proof (rule bit_word_eqI)
    fix i assume "i < LENGTH(8)"
    then show "bit x i = bit y i" using e [of i] w by (simp add: bit_simps)
  qed
  moreover have "(of_le_bytes xs :: 'w word) = of_le_bytes ys"
  proof (rule bit_word_eqI)
    fix i assume i: "i < LENGTH('w)"
    have small: "\<not> bit (of_le_bytes zs :: 'w word) i" if "8 * length zs \<le> i" for zs
      using that
    proof (induction zs arbitrary: i)
      case (Cons z zs)
      then show ?case by (auto simp: bit_simps dest: bit_imp_le_length)
    qed simp
    show "bit (of_le_bytes xs :: 'w word) i = bit (of_le_bytes ys :: 'w word) i"
    proof (cases "i + 8 < LENGTH('w)")
      case True
      then show ?thesis using e [of "i + 8"] by (auto simp: bit_simps dest: bit_imp_le_length)
    next
      case False
      then show ?thesis using small [of xs] small [of ys] Cons by simp
    qed
  qed
  ultimately show ?case using Cons by simp
qed simp

lemma read_u64_changed:
  assumes "a \<in> span p 8" "m' a \<noteq> m a"
  shows "read_u64 m' p \<noteq> read_u64 m p"
proof
  assume "read_u64 m' p = read_u64 m p"
  then have "read_list m' p 8 = read_list m p 8"
    unfolding read_u64_def by (intro of_le_bytes_inj) auto
  then have "m' (p + word_of_nat i) = m (p + word_of_nat i)" if "i < 8" for i
    using that by (auto simp: read_list_def map_eq_conv)
  from this [of "unat (a - p)"] show False
    using assms by (simp add: span_def word_less_nat_alt)
qed

text \<open>An overrun that changes any byte of either canary is caught when the block is freed.\<close>

lemma canary_catches_write:
  assumes "canary_intact c m p lay" "a \<in> span (p - 8) 8 \<union> span (p + lay_size lay) 8" "m' a \<noteq> m a"
  shows "canary_deallocate I p lay (c, m') = Panicked"
proof -
  from assms(2) have "\<not> canary_intact c m' p lay"
  proof
    assume "a \<in> span (p - 8) 8"
    from read_u64_changed [where m = m and m' = m', OF this assms(3)] show ?thesis
      using assms(1) by (auto simp: canary_intact_def)
  next
    assume "a \<in> span (p + lay_size lay) 8"
    from read_u64_changed [where m = m and m' = m', OF this assms(3)] show ?thesis
      using assms(1) by (auto simp: canary_intact_def)
  qed
  then show ?thesis by (rule canary_detects)
qed

end
