(* ===== verification/Pass_Through.thy ===== *)
theory Pass_Through
  imports Alloc_Traits
begin

text \<open>
  What the thin wrappers of \<open>forge-alloc/src/hardening/\<close> share: they hold the inner allocator in a
  field, call it, and store its state back. \<open>via get put f\<close> is such a call. The live blocks of the
  wrapper are those of the inner allocator, so its invariant is that of the field, and the
  obligations of the contract carry over call by call.
\<close>

definition via ::
  "('w \<Rightarrow> 'i) \<Rightarrow> ('i \<Rightarrow> 'w \<Rightarrow> 'w) \<Rightarrow> ('i \<times> mem \<Rightarrow> 'r \<times> 'i \<times> mem) \<Rightarrow>
     'w \<times> mem \<Rightarrow> 'r \<times> 'w \<times> mem" where
  "via get put f st = (case st of (w, m) \<Rightarrow> case f (get w, m) of (r, i, m') \<Rightarrow> (r, put i w, m'))"

definition via_out ::
  "('w \<Rightarrow> 'i) \<Rightarrow> ('i \<Rightarrow> 'w \<Rightarrow> 'w) \<Rightarrow> ('i \<times> mem \<Rightarrow> ('i \<times> mem) outcome) \<Rightarrow>
     'w \<times> mem \<Rightarrow> ('w \<times> mem) outcome" where
  "via_out get put f st =
     (case st of (w, m) \<Rightarrow> outcome_bind (f (get w, m)) (\<lambda>(i, m'). Done (put i w, m')))"

definition via_range :: "('w \<Rightarrow> 'i) \<Rightarrow> ('i \<Rightarrow> 'w \<Rightarrow> 'w) \<Rightarrow> 'i fixed_range \<Rightarrow> 'w fixed_range" where
  "via_range get put R =
     \<lparr>fr_base = (\<lambda>w. fr_base R (get w)),
      fr_size = (\<lambda>w. fr_size R (get w)),
      fr_commit = (\<lambda>w off len. case fr_commit R (get w) off len of (r, i) \<Rightarrow> (r, put i w))\<rparr>"

abbreviation field_inv ::
  "('w \<Rightarrow> 'i) \<Rightarrow> ('i \<Rightarrow> mem \<Rightarrow> live \<Rightarrow> bool) \<Rightarrow> 'w \<Rightarrow> mem \<Rightarrow> live \<Rightarrow> bool" where
  "field_inv get iinv \<equiv> (\<lambda>w m L. iinv (get w) m L)"

lemma via_alloc_post:
  assumes "\<And>i w. get (put i w) = i" "alloc_post iinv L lay m (f (get w, m))"
  shows "alloc_post (field_inv get iinv) L lay m (via get put f (w, m))"
  using assms(2) by (cases "f (get w, m)") (auto simp: via_def alloc_post_def assms(1) split: sum.splits)

lemma via_zeroed_post:
  "zeroed_post lay (f (get w, m)) \<Longrightarrow> zeroed_post lay (via get put f (w, m))"
  by (cases "f (get w, m)") (auto simp: via_def zeroed_post_def)

lemma via_dealloc_post:
  assumes "\<And>i w. get (put i w) = i" "dealloc_post iinv K m (f (get w, m))"
  shows "dealloc_post (field_inv get iinv) K m (via_out get put f (w, m))"
  using assms(2) by (cases "f (get w, m)") (auto simp: via_out_def dealloc_post_def assms(1))

text \<open>Memory changed inside the block about to be freed does not matter to the others.\<close>

lemma dealloc_post_scrub:
  assumes "live_ok L" "(p, lay, n) \<in> L" "dealloc_post iinv (L - {(p, lay, n)}) m1 r"
    and "\<And>a. a \<notin> span p n \<Longrightarrow> m1 a = m a"
  shows "dealloc_post iinv (L - {(p, lay, n)}) m r"
  using assms(3,4) footprint_remove(2) [OF assms(1,2)]
  by (fastforce simp: dealloc_post_def same_on_def split: outcome.splits)

lemma dealloc_post_scrub_via:
  "(\<And>i w. get (put i w) = i) \<Longrightarrow> dealloc_post iinv K m (f (get w, m1)) \<Longrightarrow>
     dealloc_post (field_inv get iinv) K m (via_out get put f (w, m1))"
  by (cases "f (get w, m1)") (auto simp: via_out_def dealloc_post_def)

text \<open>A wrapper whose calls all go through the field inherits the core laws.\<close>

lemma via_core:
  assumes A: "allocator_contract A ainv" and gp: "\<And>i w. get (put i w) = i"
    and dealloc: "\<And>w m L p lay n. ainv (get w) m L \<Longrightarrow> (p, lay, n) \<in> L \<Longrightarrow>
      dealloc_post (field_inv get ainv) (L - {(p, lay, n)}) m (dealloc p lay (w, m))"
  shows "allocator_core (\<lambda>lay. via get put (al_allocate A lay)) dealloc
    (\<lambda>w. al_usable_size A (get w)) (field_inv get ainv)"
proof -
  have core: "allocator_core (al_allocate A) (al_deallocate A) (al_usable_size A) ainv"
    using A by (simp add: allocator_contract_def)
  show ?thesis
  proof
    fix w m L assume "field_inv get ainv w m L"
    then show "live_ok L" by (rule allocator_core.inv_live [OF core])
  next
    fix w m L m' assume "field_inv get ainv w m L" "same_on (- footprint L) m m'"
    then show "field_inv get ainv w m' L" by (rule allocator_core.user_write [OF core])
  next
    fix w m L lay assume "field_inv get ainv w m L" "valid_layout lay"
    then show "alloc_post (field_inv get ainv) L lay m (via get put (al_allocate A lay) (w, m))"
      by (intro via_alloc_post gp allocator_core.allocate [OF core])
  next
    fix w m L p lay n k
    assume "field_inv get ainv w m L" "(p, lay, n) \<in> L" "al_usable_size A (get w) p lay = Some k"
    then show "lay_size lay \<le> k \<and> k \<le> n" by (rule allocator_core.usable_size [OF core])
  qed (rule dealloc)
qed

lemma via_zeroed:
  assumes A: "allocator_contract A ainv" and gp: "\<And>i w. get (put i w) = i"
    and inv: "ainv (get w) m L" and lay: "valid_layout lay"
  shows "alloc_post (field_inv get ainv) L lay m (via get put (al_allocate_zeroed A lay) (w, m)) \<and>
    zeroed_post lay (via get put (al_allocate_zeroed A lay) (w, m))"
  using allocator_contract.allocate_zeroed [OF A inv lay]
    via_alloc_post [of get put ainv L lay m "al_allocate_zeroed A lay" w, OF gp]
    via_zeroed_post [of lay "al_allocate_zeroed A lay" get w m put]
  by blast

text \<open>
  A wrapper that keeps the default resizes owes the core laws, the zeroed allocation and the
  reset.
\<close>

lemma wrapper_contractI:
  assumes core: "allocator_core (al_allocate W) (al_deallocate W) (al_usable_size W) winv"
    and zero: "\<And>w m L lay. winv w m L \<Longrightarrow> valid_layout lay \<Longrightarrow>
      alloc_post winv L lay m (al_allocate_zeroed W lay (w, m)) \<and>
      zeroed_post lay (al_allocate_zeroed W lay (w, m))"
    and resize: "al_grow W = default_grow (al_allocate W) (al_deallocate W)"
      "al_shrink W = default_shrink (al_allocate W) (al_deallocate W)"
    and reset: "\<And>w m L r w'. winv w m L \<Longrightarrow> al_reset W w = (r, w') \<Longrightarrow>
      winv w' m (case r of Inl e \<Rightarrow> L | Inr u \<Rightarrow> {})"
  shows "allocator_contract W winv"
  using assms allocator_core.default_grow [OF core] allocator_core.default_shrink [OF core]
  by (auto simp: allocator_contract_def allocator_contract_axioms_def)

end
