(* ===== verification/Scrubbing.thy ===== *)
theory Scrubbing
  imports Pass_Through Slab
begin

text \<open>
  \<open>forge-alloc/src/hardening/poison.rs\<close> and \<open>zeroize.rs\<close>: the wrappers that overwrite a freed
  block, \<open>PoisonOnFree\<close> with a pattern and \<open>ZeroizeOnFree\<close> with volatile zeros, over the extent
  the inner allocator reports as usable, before the inner allocator sees the block again.
\<close>

section \<open>PoisonOnFree\<close>

definition DEFAULT_POISON :: u8 where
  "DEFAULT_POISON = 0xDE"

record 'i poison =
  po_inner :: 'i
  po_pattern :: u8

definition poison_new :: "'i \<Rightarrow> 'i poison" where
  "poison_new inner = \<lparr>po_inner = inner, po_pattern = DEFAULT_POISON\<rparr>"

definition poison_with_pattern :: "'i \<Rightarrow> u8 \<Rightarrow> 'i poison" where
  "poison_with_pattern inner pattern = \<lparr>po_inner = inner, po_pattern = pattern\<rparr>"

definition scrub_len :: "'i allocator \<Rightarrow> 'i \<Rightarrow> addr \<Rightarrow> layout \<Rightarrow> usize" where
  "scrub_len I i p lay = (case al_usable_size I i p lay of Some k \<Rightarrow> k | None \<Rightarrow> lay_size lay)"

definition poison_put :: "'i \<Rightarrow> 'i poison \<Rightarrow> 'i poison" where
  "poison_put i w = w\<lparr>po_inner := i\<rparr>"

definition poison_deallocate :: "'i allocator \<Rightarrow> 'i poison dealloc_fun" where
  "poison_deallocate I p lay st =
     (case st of (w, m) \<Rightarrow>
        via_out po_inner poison_put (al_deallocate I p lay)
          (w, write_bytes m p (po_pattern w) (scrub_len I (po_inner w) p lay)))"

definition poison_allocator :: "'i allocator \<Rightarrow> 'i poison allocator" where
  "poison_allocator I =
     (let alloc = (\<lambda>lay. via po_inner poison_put (al_allocate I lay)); dealloc = poison_deallocate I
      in \<lparr>al_allocate = alloc,
          al_allocate_zeroed = (\<lambda>lay. via po_inner poison_put (al_allocate_zeroed I lay)),
          al_deallocate = dealloc,
          al_grow = default_grow alloc dealloc,
          al_shrink = default_shrink alloc dealloc,
          al_reset = (\<lambda>w. case al_reset I (po_inner w) of (r, i) \<Rightarrow> (r, poison_put i w)),
          al_usable_size = (\<lambda>w. al_usable_size I (po_inner w)),
          al_capacity_bytes = (\<lambda>w. al_capacity_bytes I (po_inner w)),
          al_corruption_events = (\<lambda>w. al_corruption_events I (po_inner w))\<rparr>)"

definition poison_range :: "'i fixed_range \<Rightarrow> 'i poison fixed_range" where
  "poison_range R = via_range po_inner poison_put R"

section \<open>ZeroizeOnFree\<close>

record 'i zeroize =
  ze_inner :: 'i

definition zeroize_new :: "'i \<Rightarrow> 'i zeroize" where
  "zeroize_new inner = \<lparr>ze_inner = inner\<rparr>"

text \<open>The byte loop of volatile writes.\<close>

fun volatile_zeroize_from :: "nat \<Rightarrow> addr \<Rightarrow> mem \<Rightarrow> mem" where
  "volatile_zeroize_from 0 p m = m"
| "volatile_zeroize_from (Suc k) p m = volatile_zeroize_from k (p + 1) (m(p := 0))"

definition volatile_zeroize :: "mem \<Rightarrow> addr \<Rightarrow> usize \<Rightarrow> mem" where
  "volatile_zeroize m p len = volatile_zeroize_from (unat len) p m"

definition zeroize_put :: "'i \<Rightarrow> 'i zeroize \<Rightarrow> 'i zeroize" where
  "zeroize_put i w = w\<lparr>ze_inner := i\<rparr>"

definition zeroize_deallocate :: "'i allocator \<Rightarrow> 'i zeroize dealloc_fun" where
  "zeroize_deallocate I p lay st =
     (case st of (w, m) \<Rightarrow>
        via_out ze_inner zeroize_put (al_deallocate I p lay)
          (w, volatile_zeroize m p (scrub_len I (ze_inner w) p lay)))"

definition zeroize_allocator :: "'i allocator \<Rightarrow> 'i zeroize allocator" where
  "zeroize_allocator I =
     (let alloc = (\<lambda>lay. via ze_inner zeroize_put (al_allocate I lay)); dealloc = zeroize_deallocate I
      in \<lparr>al_allocate = alloc,
          al_allocate_zeroed = (\<lambda>lay. via ze_inner zeroize_put (al_allocate_zeroed I lay)),
          al_deallocate = dealloc,
          al_grow = default_grow alloc dealloc,
          al_shrink = default_shrink alloc dealloc,
          al_reset = (\<lambda>w. case al_reset I (ze_inner w) of (r, i) \<Rightarrow> (r, zeroize_put i w)),
          al_usable_size = (\<lambda>w. al_usable_size I (ze_inner w)),
          al_capacity_bytes = (\<lambda>w. al_capacity_bytes I (ze_inner w)),
          al_corruption_events = (\<lambda>w. al_corruption_events I (ze_inner w))\<rparr>)"

definition zeroize_range :: "'i fixed_range \<Rightarrow> 'i zeroize fixed_range" where
  "zeroize_range R = via_range ze_inner zeroize_put R"

section \<open>The loop writes what one block write would\<close>

lemma volatile_zeroize_from_eq:
  "k \<le> 2 ^ 64 - 1 \<Longrightarrow> volatile_zeroize_from k p m = write_bytes m p 0 (word_of_nat k)"
proof (induction k p m rule: volatile_zeroize_from.induct)
  case (1 p m)
  then show ?case by (simp add: write_bytes_def fun_eq_iff)
next
  case (2 k p m)
  have k: "unat (word_of_nat k :: usize) = k" "unat (word_of_nat (Suc k) :: usize) = Suc k"
    using "2.prems" unat_word_of_nat [of k, where 'w = 64] unat_word_of_nat [of "Suc k", where 'w = 64]
    by simp_all
  have "a - (p + 1) < word_of_nat k \<or> a = p \<longleftrightarrow> a - p < word_of_nat (Suc k)" for a
  proof (cases "a = p")
    case True
    then show ?thesis using k by (simp add: word_less_nat_alt)
  next
    case False
    then have "unat (a - p - 1) = unat (a - p) - 1" "0 < unat (a - p)"
      by (simp_all add: unat_minus_one unat_gt_0)
    then show ?thesis using False k by (auto simp: word_less_nat_alt diff_diff_eq)
  qed
  note window = this
  show ?case
  proof
    fix a
    have ih: "volatile_zeroize_from k (p + 1) (m(p := 0)) =
        write_bytes (m(p := 0)) (p + 1) 0 (word_of_nat k)"
      by (rule "2.IH") (use "2.prems" in simp)
    have "volatile_zeroize_from (Suc k) p m a =
        (if a - (p + 1) < word_of_nat k \<or> a = p then 0 else m a)"
      by (simp only: volatile_zeroize_from.simps ih) (simp add: write_bytes_def)
    then show "volatile_zeroize_from (Suc k) p m a = write_bytes m p 0 (word_of_nat (Suc k)) a"
      unfolding window write_bytes_def .
  qed
qed

lemma volatile_zeroize_eq: "volatile_zeroize m p len = write_bytes m p 0 len"
  using volatile_zeroize_from_eq [of "unat len" p m] unat_64_less [of len]
  by (simp add: volatile_zeroize_def)

section \<open>Contracts\<close>

context allocator_contract
begin

lemma scrub_len_bounds:
  assumes "ainv i m L" "(p, lay, n) \<in> L"
  shows "lay_size lay \<le> scrub_len A i p lay" "scrub_len A i p lay \<le> n"
  using usable_size [OF assms] inv_block [OF assms]
  by (auto simp: scrub_len_def block_ok_def split: option.splits)

text \<open>Overwriting the freed block up to its usable extent and then freeing it.\<close>

lemma scrub_then_free:
  assumes inv: "ainv i m L" and mem: "(p, lay, n) \<in> L"
  shows "dealloc_post ainv (L - {(p, lay, n)}) m
    (al_deallocate A p lay (i, write_bytes m p v (scrub_len A i p lay)))"
proof (rule dealloc_post_scrub [OF inv_live [OF inv] mem])
  let ?m = "write_bytes m p v (scrub_len A i p lay)"
  have off: "?m a = m a" if "a \<notin> span p n" for a
    using that span_mono [OF scrub_len_bounds(2) [OF inv mem], of p] by (auto intro: write_bytes_other)
  show "\<And>a. a \<notin> span p n \<Longrightarrow> ?m a = m a" by (fact off)
  have "ainv i ?m L" by (rule write_inside [OF inv span_footprint [OF mem] off])
  then show "dealloc_post ainv (L - {(p, lay, n)}) ?m (al_deallocate A p lay (i, ?m))"
    by (rule deallocate [OF _ mem])
qed

lemma poison_contract: "allocator_contract (poison_allocator A) (field_inv po_inner ainv)"
proof -
  have gp: "po_inner (poison_put i w) = i" for i and w :: "'a poison" by (simp add: poison_put_def)
  have A: "allocator_contract A ainv" by unfold_locales
  have d: "dealloc_post (field_inv po_inner ainv) (L - {(p, lay, n)}) m (poison_deallocate A p lay (w, m))"
    if "ainv (po_inner w) m L" "(p, lay, n) \<in> L" for w m L p lay n
    using scrub_then_free [OF that, of "po_pattern w"]
    by (auto simp: poison_deallocate_def intro!: dealloc_post_scrub_via gp)
  show ?thesis
  proof (rule wrapper_contractI)
    show "allocator_core (al_allocate (poison_allocator A)) (al_deallocate (poison_allocator A))
        (al_usable_size (poison_allocator A)) (field_inv po_inner ainv)"
      using via_core [of A ainv po_inner poison_put, OF A gp d] by (simp add: poison_allocator_def Let_def)
  qed (use via_zeroed [of A ainv po_inner poison_put, OF A gp] in
      \<open>auto simp: poison_allocator_def Let_def gp dest: reset split: prod.splits\<close>)
qed

lemma zeroize_contract: "allocator_contract (zeroize_allocator A) (field_inv ze_inner ainv)"
proof -
  have gp: "ze_inner (zeroize_put i w) = i" for i and w :: "'a zeroize" by (simp add: zeroize_put_def)
  have A: "allocator_contract A ainv" by unfold_locales
  have d: "dealloc_post (field_inv ze_inner ainv) (L - {(p, lay, n)}) m (zeroize_deallocate A p lay (w, m))"
    if "ainv (ze_inner w) m L" "(p, lay, n) \<in> L" for w m L p lay n
    using scrub_then_free [OF that, of 0]
    by (auto simp: zeroize_deallocate_def volatile_zeroize_eq intro!: dealloc_post_scrub_via gp)
  show ?thesis
  proof (rule wrapper_contractI)
    show "allocator_core (al_allocate (zeroize_allocator A)) (al_deallocate (zeroize_allocator A))
        (al_usable_size (zeroize_allocator A)) (field_inv ze_inner ainv)"
      using via_core [of A ainv ze_inner zeroize_put, OF A gp d] by (simp add: zeroize_allocator_def Let_def)
  qed (use via_zeroed [of A ainv ze_inner zeroize_put, OF A gp] in
      \<open>auto simp: zeroize_allocator_def Let_def gp dest: reset split: prod.splits\<close>)
qed

end

section \<open>What is left in a freed slot\<close>

text \<open>
  Over a slab, the scrub covers the whole stride: after the free, every byte of the slot past the
  eight of its free-list link is the pattern, the padding beyond the requested size included.
\<close>

lemma write_link_beyond:
  assumes "8 \<le> unat stride" "no_wrap p stride" "a \<notin> span p 8"
  shows "write_link m p l a = m a"
proof (rule write_link_other [of 8])
  show "no_wrap p 8" using assms(1,2) by (simp add: no_wrap_def)
qed (use assms(3) in simp_all)

lemma slab_scrubbed:
  assumes "ranged_contract B binv R" "freelist_protection P"
    and inv: "slab_inv strict binv R P T s m L" and mem: "(p, lay, n) \<in> L"
    and free: "slab_deallocate R P p lay (s, write_bytes m p v (sl_block_stride s)) = Done (s', m')"
    and a: "a \<in> span p (sl_block_stride s)" "a \<notin> span p 8"
  shows "m' a = v"
proof -
  obtain i where i: "slab_slot_index R s p = Some i" "slab_slot_ptr R s i = p"
    using ranged_contract.slab_deallocate_post(2) [OF assms(1-4)] by blast
  obtain k fs where g: "slab_geom R T s" using inv by (rule slab_invE)
  have "i < sl_capacity s"
    using i(1) find_slot_Some(1) by (auto simp: slab_slot_index_eq [OF g])
  note w = slab_geomD(2) [OF g] slab_geomD(5) [OF g this, unfolded i(2)]
  have "m' a = write_bytes m p v (sl_block_stride s) a"
    using free i write_link_beyond [OF w a(2)] by (auto simp: slab_deallocate_def Let_def)
  then show ?thesis using a(1) by (simp add: write_bytes_in)
qed

lemma slab_scrub_both:
  assumes B: "ranged_contract B binv R" "freelist_protection P"
    and inv: "slab_inv strict binv R P T s m L" "(p, lay, n) \<in> L"
    and a: "a \<in> span p (sl_block_stride s)" "a \<notin> span p 8"
  shows "\<exists>s1 m1 m2.
    poison_deallocate (slab_allocator R P T) p lay (\<lparr>po_inner = s, po_pattern = v\<rparr>, m) =
      Done (\<lparr>po_inner = s1, po_pattern = v\<rparr>, m1) \<and> m1 a = v \<and>
    zeroize_deallocate (slab_allocator R P T) p lay (\<lparr>ze_inner = s\<rparr>, m) =
      Done (\<lparr>ze_inner = s1\<rparr>, m2) \<and> m2 a = 0"
proof -
  obtain s1 f where f: "\<And>m. slab_deallocate R P p lay (s, m) = Done (s1, f m)"
    by (cases "slab_slot_index R s p") (auto simp: slab_deallocate_def Let_def)
  have e: "al_deallocate (slab_allocator R P T) = slab_deallocate R P"
    "al_usable_size (slab_allocator R P T) = slab_usable_size"
    by (simp_all add: slab_allocator_def)
  show ?thesis
    using slab_scrubbed [OF B inv f a]
    by (auto simp: e poison_deallocate_def zeroize_deallocate_def volatile_zeroize_eq scrub_len_def
        slab_usable_size_def via_out_def poison_put_def zeroize_put_def f)
qed

end
