(* ===== verification/Faulty.thy ===== *)
theory Faulty
  imports Pass_Through
begin

text \<open>
  \<open>forge-alloc-core/src/traits/alloc_fault_policy.rs\<close> and \<open>forge-alloc/src/hardening/faulty.rs\<close>:
  deterministic injection of allocation failures. A policy is a function from its state and the
  layout to the verdict and its next state; the interior atomics of the source are that state.
\<close>

section \<open>Policies\<close>

type_synonym 'p fault_policy = "'p \<Rightarrow> layout \<Rightarrow> bool \<times> 'p"

definition NeverFail :: "unit fault_policy" where
  "NeverFail p lay = (False, p)"

definition AlwaysFail :: "unit fault_policy" where
  "AlwaysFail p lay = (True, p)"

record fail_after =
  fa_successes_left :: usize

definition fail_after_new :: "usize \<Rightarrow> fail_after" where
  "fail_after_new successes = \<lparr>fa_successes_left = successes\<rparr>"

definition fail_after_remaining :: "fail_after \<Rightarrow> usize" where
  "fail_after_remaining p = fa_successes_left p"

text \<open>\<open>fetch_update\<close> with \<open>checked_sub(1)\<close>: at zero the update is refused and the call fails.\<close>

definition FailAfter :: "fail_after fault_policy" where
  "FailAfter p lay =
     (case checked_sub (fa_successes_left p) 1 of
        None \<Rightarrow> (True, p)
      | Some n \<Rightarrow> (False, p\<lparr>fa_successes_left := n\<rparr>))"

record fail_every_nth =
  fe_period :: usize
  fe_count :: usize

definition fail_every_nth_new :: "usize \<Rightarrow> fail_every_nth outcome" where
  "fail_every_nth_new period =
     (if period \<ge> 1 then Done \<lparr>fe_period = period, fe_count = 0\<rparr> else Panicked)"

definition FailEveryNth :: "fail_every_nth fault_policy" where
  "FailEveryNth p lay =
     (let prev = fe_count p
      in (prev mod fe_period p = fe_period p - 1, p\<lparr>fe_count := prev + 1\<rparr>))"

record fail_on_size =
  fs_min_fail_bytes :: usize

definition fail_on_size_new :: "usize \<Rightarrow> fail_on_size" where
  "fail_on_size_new min_fail_bytes = \<lparr>fs_min_fail_bytes = min_fail_bytes\<rparr>"

definition FailOnSize :: "fail_on_size fault_policy" where
  "FailOnSize p lay = (lay_size lay \<ge> fs_min_fail_bytes p, p)"

text \<open>The verdicts of a policy on a sequence of requests.\<close>

fun verdicts :: "'p fault_policy \<Rightarrow> 'p \<Rightarrow> layout list \<Rightarrow> bool list" where
  "verdicts P p [] = []"
| "verdicts P p (lay # lays) = (case P p lay of (b, p') \<Rightarrow> b # verdicts P p' lays)"

lemma fail_after_verdicts:
  "verdicts FailAfter (fail_after_new n) lays = map (\<lambda>i. unat n \<le> i) [0..<length lays]"
proof (induction lays arbitrary: n)
  case (Cons lay lays)
  have m: "map (\<lambda>i. unat n \<le> i) [0..<length (lay # lays)] =
      (unat n = 0) # map (\<lambda>i. unat n - 1 \<le> i) [0..<length lays]"
    by (rule nth_equalityI) (auto simp: nth_Cons simp del: upt_Suc split: nat.splits)
  show ?case
  proof (cases "n = 0")
    case True
    then show ?thesis using Cons.IH [of 0] unfolding m
      by (simp add: FailAfter_def checked_sub_def fail_after_new_def)
  next
    case False
    then have n: "0 < unat n" by (simp add: unat_gt_0)
    then have "1 \<le> n" by (simp add: word_le_nat_alt)
    then have "FailAfter (fail_after_new n) lay = (False, fail_after_new (n - 1))"
      by (simp add: FailAfter_def checked_sub_def fail_after_new_def)
    moreover have "unat (n - 1) = unat n - 1" using False by (rule unat_minus_one)
    ultimately show ?thesis using Cons.IH [of "n - 1"] n unfolding m by simp
  qed
qed simp

lemma fail_every_nth_verdicts:
  assumes "1 \<le> unat (fe_period p)" "unat (fe_count p) + length lays < 2 ^ 64"
  shows "verdicts FailEveryNth p lays =
    map (\<lambda>i. (unat (fe_count p) + i + 1) mod unat (fe_period p) = 0) [0..<length lays]"
  using assms
proof (induction lays arbitrary: p)
  case (Cons lay lays)
  let ?c = "unat (fe_count p)" and ?k = "unat (fe_period p)"
  let ?p = "p\<lparr>fe_count := fe_count p + 1\<rparr>"
  have c: "unat (fe_count p + 1) = ?c + 1" using Cons.prems(2) by (simp add: unat_plus_if')
  have "fe_period p \<noteq> 0" using Cons.prems(1) by auto
  then have "unat (fe_period p - 1) = ?k - 1" by (rule unat_minus_one)
  then have "fe_count p mod fe_period p = fe_period p - 1 \<longleftrightarrow> ?c mod ?k = ?k - 1"
    by (simp only: word_unat_eq_iff unat_mod_distrib)
  also have "\<dots> \<longleftrightarrow> (?c + 1) mod ?k = 0"
    using Cons.prems(1) mod_Suc [of ?c ?k] by auto
  finally have h: "(fe_count p mod fe_period p = fe_period p - 1) = ((?c + 1) mod ?k = 0)" .
  have "verdicts FailEveryNth ?p lays =
      map (\<lambda>i. (unat (fe_count ?p) + i + 1) mod unat (fe_period ?p) = 0) [0..<length lays]"
    by (rule Cons.IH) (use Cons.prems c in simp_all)
  moreover have "FailEveryNth p lay = ((?c + 1) mod ?k = 0, ?p)"
    by (simp only: FailEveryNth_def Let_def h)
  ultimately have "verdicts FailEveryNth p (lay # lays) =
      ((?c + 1) mod ?k = 0) # map (\<lambda>i. (?c + 1 + i + 1) mod ?k = 0) [0..<length lays]"
    using c by simp
  also have "\<dots> = map (\<lambda>i. (?c + i + 1) mod ?k = 0) [0..<length (lay # lays)]"
    by (rule nth_equalityI) (auto simp: nth_Cons simp del: upt_Suc split: nat.splits)
  finally show ?case .
qed simp

section \<open>The wrapper\<close>

record ('i, 'p) faulty =
  fy_inner :: 'i
  fy_policy :: 'p

definition faulty_new :: "'i \<Rightarrow> 'p \<Rightarrow> ('i, 'p) faulty" where
  "faulty_new inner policy = \<lparr>fy_inner = inner, fy_policy = policy\<rparr>"

definition faulty_put :: "'i \<Rightarrow> ('i, 'p) faulty \<Rightarrow> ('i, 'p) faulty" where
  "faulty_put i w = w\<lparr>fy_inner := i\<rparr>"

definition faulty_allocate :: "'i allocator \<Rightarrow> 'p fault_policy \<Rightarrow> ('i, 'p) faulty alloc_fun" where
  "faulty_allocate I P lay st =
     (case st of (w, m) \<Rightarrow>
        case P (fy_policy w) lay of (should_fail, p) \<Rightarrow>
          if should_fail then (Inl AllocError, w\<lparr>fy_policy := p\<rparr>, m)
          else via fy_inner faulty_put (al_allocate I lay) (w\<lparr>fy_policy := p\<rparr>, m))"

definition faulty_deallocate :: "'i allocator \<Rightarrow> ('i, 'p) faulty dealloc_fun" where
  "faulty_deallocate I p lay = via_out fy_inner faulty_put (al_deallocate I p lay)"

definition faulty_allocator :: "'i allocator \<Rightarrow> 'p fault_policy \<Rightarrow> ('i, 'p) faulty allocator" where
  "faulty_allocator I P =
     \<lparr>al_allocate = faulty_allocate I P,
      al_allocate_zeroed = default_allocate_zeroed (faulty_allocate I P),
      al_deallocate = faulty_deallocate I,
      al_grow = default_grow (faulty_allocate I P) (faulty_deallocate I),
      al_shrink = default_shrink (faulty_allocate I P) (faulty_deallocate I),
      al_reset = (\<lambda>w. case al_reset I (fy_inner w) of (r, i) \<Rightarrow> (r, faulty_put i w)),
      al_usable_size = (\<lambda>w. al_usable_size I (fy_inner w)),
      al_capacity_bytes = (\<lambda>w. al_capacity_bytes I (fy_inner w)),
      al_corruption_events = (\<lambda>w. al_corruption_events I (fy_inner w))\<rparr>"

definition faulty_range :: "'i fixed_range \<Rightarrow> ('i, 'p) faulty fixed_range" where
  "faulty_range R = via_range fy_inner faulty_put R"

text \<open>
  An injected failure leaves the inner allocator alone, and every entry point that issues memory
  is subject to it.
\<close>

lemma faulty_injects:
  assumes "P (fy_policy w) lay = (True, p)"
  shows "al_allocate (faulty_allocator I P) lay (w, m) = (Inl AllocError, w\<lparr>fy_policy := p\<rparr>, m)"
    "al_allocate_zeroed (faulty_allocator I P) lay (w, m) = (Inl AllocError, w\<lparr>fy_policy := p\<rparr>, m)"
    "al_grow (faulty_allocator I P) q old lay (w, m) = Done (Inl AllocError, w\<lparr>fy_policy := p\<rparr>, m)"
    "al_shrink (faulty_allocator I P) q old lay (w, m) = Done (Inl AllocError, w\<lparr>fy_policy := p\<rparr>, m)"
  using assms
  by (simp_all add: faulty_allocator_def faulty_allocate_def default_allocate_zeroed_def
      default_grow_def default_shrink_def)

lemma faulty_contract:
  assumes A: "allocator_contract I iinv"
  shows "allocator_contract (faulty_allocator I P) (field_inv fy_inner iinv)"
proof -
  have gp: "fy_inner (faulty_put i w) = i" for i and w :: "('a, 'b) faulty" by (simp add: faulty_put_def)
  have core: "allocator_core (al_allocate I) (al_deallocate I) (al_usable_size I) iinv"
    using A by (simp add: allocator_contract_def)
  have c: "allocator_core (faulty_allocate I P) (faulty_deallocate I)
      (\<lambda>w. al_usable_size I (fy_inner w)) (field_inv fy_inner iinv)"
  proof
    fix w :: "('a, 'b) faulty" and m L
    assume inv: "field_inv fy_inner iinv w m L"
    then show "live_ok L" by (rule allocator_core.inv_live [OF core])
    show "field_inv fy_inner iinv w m' L" if "same_on (- footprint L) m m'" for m'
      using allocator_core.user_write [OF core inv that] .
    show "alloc_post (field_inv fy_inner iinv) L lay m (faulty_allocate I P lay (w, m))"
      if lay: "valid_layout lay" for lay
    proof -
      obtain b p where v: "P (fy_policy w) lay = (b, p)" by (cases "P (fy_policy w) lay")
      have "alloc_post (field_inv fy_inner iinv) L lay m
          (via fy_inner faulty_put (al_allocate I lay) (w\<lparr>fy_policy := p\<rparr>, m))"
        by (intro via_alloc_post gp) (use allocator_core.allocate [OF core inv lay] in simp)
      then show ?thesis using v inv by (simp add: faulty_allocate_def alloc_post_def)
    qed
    show "dealloc_post (field_inv fy_inner iinv) (L - {(p, lay, n)}) m (faulty_deallocate I p lay (w, m))"
      if "(p, lay, n) \<in> L" for p lay n
      unfolding faulty_deallocate_def
      by (intro via_dealloc_post gp allocator_core.deallocate [OF core inv that])
    show "lay_size lay \<le> k \<and> k \<le> n"
      if "(p, lay, n) \<in> L" "al_usable_size I (fy_inner w) p lay = Some k" for p lay n k
      using allocator_core.usable_size [OF core inv that] .
  qed
  show ?thesis
    by (rule wrapper_contractI)
      (use c allocator_core.default_zeroed [OF c] allocator_contract.reset [OF A] gp in
        \<open>auto simp: faulty_allocator_def split: prod.splits\<close>)
qed

end
