(* ===== verification/Instrumentation.thy ===== *)
theory Instrumentation
  imports Pass_Through
begin

text \<open>
  \<open>forge-alloc/src/hardening/statistics.rs\<close> and \<open>watermark.rs\<close>: the two wrappers that count bytes.
  Their counters are 64-bit atomics that wrap; the lemmas on \<open>live_bytes\<close> show that for a client
  that keeps the contract they never do, because disjoint live blocks fit the address space.
\<close>

section \<open>Live bytes\<close>

definition live_bytes :: "live \<Rightarrow> nat" where
  "live_bytes L = (\<Sum>(p, lay, n) \<in> L. unat (lay_size lay))"

lemma card_span: "card (span p n) = unat n"
proof -
  have "bij_betw (\<lambda>a. unat (a - p)) (span p n) {..<unat n}"
  proof (rule bij_betw_byWitness [where f' = "\<lambda>i. word_of_nat i + p"])
    have small: "i < 2 ^ 64" if "i < unat n" for i
      using that unat_64_less [of n] by linarith
    show "\<forall>i \<in> {..<unat n}. unat (word_of_nat i + p - p) = i"
      using small by (simp add: unat_word_of_nat)
    show "(\<lambda>i. word_of_nat i + p) ` {..<unat n} \<subseteq> span p n"
      using small by (auto simp: span_def word_less_nat_alt unat_word_of_nat)
  qed (auto simp: span_def word_less_nat_alt)
  then show ?thesis using bij_betw_same_card by fastforce
qed

lemma live_ok_finite:
  assumes "live_ok L"
  shows "finite L"
proof -
  have "inj_on fst L"
    using assms by (auto intro!: inj_onI dest: live_ok_same_addr)
  then show ?thesis by (rule inj_on_finite [of _ _ "UNIV :: addr set"]) auto
qed

lemma live_bytes_footprint:
  assumes "live_ok L"
  shows "live_bytes L \<le> card (footprint L)"
proof -
  have fin: "finite L" by (rule live_ok_finite [OF assms])
  have "unat (lay_size lay) \<le> card (blk (p, lay, n))" if "(p, lay, n) \<in> L" for p lay n
    using live_okD [OF assms that] by (simp add: card_span block_ok_def word_le_nat_alt)
  then have "live_bytes L \<le> (\<Sum>b \<in> L. card (blk b))"
    unfolding live_bytes_def by (intro sum_mono) auto
  also have "\<dots> = card (footprint L)"
    unfolding footprint_def
    by (rule card_UN_disjoint [symmetric])
      (use fin assms in \<open>auto simp: live_ok_def\<close>)
  finally show ?thesis .
qed

lemma live_bytes_bound:
  assumes "live_ok L"
  shows "live_bytes L < 2 ^ 64"
proof -
  have "0 \<notin> footprint L"
  proof
    assume "0 \<in> footprint L"
    then obtain p lay n where b: "(p, lay, n) \<in> L" "0 \<in> span p n" by (force simp: footprint_def)
    then show False
      using block_okD(2,3) [OF live_okD [OF assms b(1)]] unat_gt_0 [of p] by (auto simp: in_span_iff)
  qed
  then have "footprint L \<subset> (UNIV :: addr set)" by blast
  then have "card (footprint L) < card (UNIV :: addr set)"
    by (rule psubset_card_mono [rotated]) simp
  then show ?thesis
    using live_bytes_footprint [OF assms] by (simp add: card_word)
qed

lemma live_bytes_insert:
  assumes "live_ok (insert (p, lay, n) L)" "(p, lay, n) \<notin> L"
  shows "live_bytes (insert (p, lay, n) L) = live_bytes L + unat (lay_size lay)"
proof -
  have "finite L" using live_ok_finite [OF assms(1)] by simp
  then show ?thesis using assms(2) by (simp add: live_bytes_def)
qed

lemma live_bytes_remove:
  assumes "live_ok L" "(p, lay, n) \<in> L"
  shows "live_bytes L = live_bytes (L - {(p, lay, n)}) + unat (lay_size lay)"
  using live_ok_finite [OF assms(1)] assms(2)
  by (simp add: live_bytes_def sum.remove)

section \<open>Statistics\<close>

record alloc_stats =
  as_total_allocations :: usize
  as_total_deallocations :: usize
  as_bytes_allocated :: usize
  as_bytes_peak :: usize
  as_failures :: usize
  as_corruption_events :: usize

definition alloc_stats_new :: alloc_stats where
  "alloc_stats_new =
     \<lparr>as_total_allocations = 0, as_total_deallocations = 0, as_bytes_allocated = 0,
      as_bytes_peak = 0, as_failures = 0, as_corruption_events = 0\<rparr>"

definition stats_current_bytes :: "alloc_stats \<Rightarrow> u64" where
  "stats_current_bytes t = as_bytes_allocated t"

definition stats_peak_bytes :: "alloc_stats \<Rightarrow> u64" where
  "stats_peak_bytes t = as_bytes_peak t"

text \<open>The difference of two counters cast to \<open>i64\<close>.\<close>

definition stats_live_count :: "alloc_stats \<Rightarrow> int" where
  "stats_live_count t = sint (as_total_allocations t - as_total_deallocations t)"

record 'i statistics =
  sx_inner :: 'i
  sx_stats :: alloc_stats

definition statistics_new :: "'i \<Rightarrow> 'i statistics" where
  "statistics_new inner = \<lparr>sx_inner = inner, sx_stats = alloc_stats_new\<rparr>"

definition mirror_corruption :: "u64 \<Rightarrow> usize \<Rightarrow> usize" where
  "mirror_corruption inner_val mirror =
     (let inner_clamped = min inner_val usize_max
      in if inner_clamped > mirror then max mirror inner_clamped else mirror)"

definition statistics_put :: "'i \<Rightarrow> 'i statistics \<Rightarrow> 'i statistics" where
  "statistics_put i w = w\<lparr>sx_inner := i\<rparr>"

definition statistics_mirror :: "'i allocator \<Rightarrow> 'i statistics \<Rightarrow> 'i statistics" where
  "statistics_mirror I w =
     w\<lparr>sx_stats := (sx_stats w)\<lparr>as_corruption_events :=
        mirror_corruption (al_corruption_events I (sx_inner w)) (as_corruption_events (sx_stats w))\<rparr>\<rparr>"

definition statistics_deallocate :: "'i allocator \<Rightarrow> 'i statistics dealloc_fun" where
  "statistics_deallocate I p lay st =
     (case st of (w, m) \<Rightarrow>
        let t = sx_stats w;
            t' = t\<lparr>as_total_deallocations := as_total_deallocations t + 1,
                   as_bytes_allocated := as_bytes_allocated t - lay_size lay\<rparr>
        in via_out sx_inner statistics_put (al_deallocate I p lay)
             (statistics_mirror I (w\<lparr>sx_stats := t'\<rparr>), m))"

definition record_allocation :: "layout \<Rightarrow> alloc_stats \<Rightarrow> alloc_stats" where
  "record_allocation lay t =
     (let prev = as_bytes_allocated t;
          new = saturating_add prev (lay_size lay);
          peak_now = as_bytes_peak t
      in t\<lparr>as_total_allocations := as_total_allocations t + 1,
           as_bytes_allocated := prev + lay_size lay,
           as_bytes_peak := (if new > peak_now then max peak_now new else peak_now)\<rparr>)"

definition statistics_allocate :: "'i allocator \<Rightarrow> 'i statistics alloc_fun" where
  "statistics_allocate I lay st =
     (case via sx_inner statistics_put (al_allocate I lay) st of (r, w, m) \<Rightarrow>
        let w1 = statistics_mirror I w; t = sx_stats w1
        in case r of
             Inr b \<Rightarrow> (Inr b, w1\<lparr>sx_stats := record_allocation lay t\<rparr>, m)
           | Inl e \<Rightarrow> (Inl e, w1\<lparr>sx_stats := t\<lparr>as_failures := as_failures t + 1\<rparr>\<rparr>, m))"

definition statistics_allocator :: "'i allocator \<Rightarrow> 'i statistics allocator" where
  "statistics_allocator I =
     \<lparr>al_allocate = statistics_allocate I,
      al_allocate_zeroed = default_allocate_zeroed (statistics_allocate I),
      al_deallocate = statistics_deallocate I,
      al_grow = default_grow (statistics_allocate I) (statistics_deallocate I),
      al_shrink = default_shrink (statistics_allocate I) (statistics_deallocate I),
      al_reset = default_reset,
      al_usable_size = (\<lambda>w. al_usable_size I (sx_inner w)),
      al_capacity_bytes = (\<lambda>w. al_capacity_bytes I (sx_inner w)),
      al_corruption_events = (\<lambda>w. al_corruption_events I (sx_inner w))\<rparr>"

definition statistics_range :: "'i fixed_range \<Rightarrow> 'i statistics fixed_range" where
  "statistics_range R = via_range sx_inner statistics_put R"

text \<open>
  The counters are exact: the bytes are those of the live blocks, as numbers and not only modulo
  the word, the peak is never below them, and the two totals differ by the number of blocks.
\<close>

definition stats_exact :: "alloc_stats \<Rightarrow> live \<Rightarrow> bool" where
  "stats_exact t L \<longleftrightarrow> unat (as_bytes_allocated t) = live_bytes L \<and>
     as_bytes_allocated t \<le> as_bytes_peak t \<and>
     as_total_allocations t - as_total_deallocations t = word_of_nat (card L)"

definition statistics_inv ::
  "('i \<Rightarrow> mem \<Rightarrow> live \<Rightarrow> bool) \<Rightarrow> 'i statistics \<Rightarrow> mem \<Rightarrow> live \<Rightarrow> bool" where
  "statistics_inv iinv w m L \<longleftrightarrow> iinv (sx_inner w) m L \<and> stats_exact (sx_stats w) L"

lemma stats_exact_mirror [simp]:
  "stats_exact (sx_stats (statistics_mirror I w)) L = stats_exact (sx_stats w) L"
  "sx_inner (statistics_mirror I w) = sx_inner w"
  by (simp_all add: statistics_mirror_def stats_exact_def)

lemma record_allocation_exact:
  assumes "stats_exact t L" "live_ok (insert (p, lay, n) L)" "(p, lay, n) \<notin> L"
  shows "stats_exact (record_allocation lay t) (insert (p, lay, n) L)"
proof -
  have b: "live_bytes (insert (p, lay, n) L) = unat (as_bytes_allocated t) + unat (lay_size lay)"
    using live_bytes_insert [OF assms(2,3)] assms(1) by (simp add: stats_exact_def)
  then have small: "unat (as_bytes_allocated t) + unat (lay_size lay) < 2 ^ 64"
    using live_bytes_bound [OF assms(2)] by simp
  then have u: "unat (as_bytes_allocated t + lay_size lay) = live_bytes (insert (p, lay, n) L)"
    using b by (simp add: unat_plus_if')
  have "finite L" using live_ok_finite [OF assms(2)] by simp
  then have "card (insert (p, lay, n) L) = card L + 1" using assms(3) by simp
  moreover have sat: "saturating_add (as_bytes_allocated t) (lay_size lay) =
      as_bytes_allocated t + lay_size lay"
    using small by (simp add: saturating_add_def)
  have "as_total_allocations t + 1 - as_total_deallocations t = word_of_nat (card L) + 1"
    using assms(1) by (simp add: stats_exact_def diff_add_eq)
  moreover have "as_bytes_allocated t + lay_size lay \<le>
      (if as_bytes_allocated t + lay_size lay > as_bytes_peak t
       then max (as_bytes_peak t) (as_bytes_allocated t + lay_size lay) else as_bytes_peak t)"
    by (simp add: not_less)
  ultimately show ?thesis
    unfolding stats_exact_def record_allocation_def Let_def sat using u by (simp add: add.commute)
qed

lemma stats_exact_remove:
  assumes "stats_exact t L" "live_ok L" "(p, lay, n) \<in> L"
  shows "stats_exact (t\<lparr>as_total_deallocations := as_total_deallocations t + 1,
      as_bytes_allocated := as_bytes_allocated t - lay_size lay\<rparr>) (L - {(p, lay, n)})"
    "lay_size lay \<le> as_bytes_allocated t"
proof -
  have b: "unat (as_bytes_allocated t) = live_bytes (L - {(p, lay, n)}) + unat (lay_size lay)"
    using live_bytes_remove [OF assms(2,3)] assms(1) by (simp add: stats_exact_def)
  then show le: "lay_size lay \<le> as_bytes_allocated t" by (simp add: word_le_nat_alt)
  then have u: "unat (as_bytes_allocated t - lay_size lay) = live_bytes (L - {(p, lay, n)})"
    using b by (simp add: unat_sub)
  then have "as_bytes_allocated t - lay_size lay \<le> as_bytes_allocated t"
    using b by (simp add: word_le_nat_alt)
  also have "\<dots> \<le> as_bytes_peak t" using assms(1) by (simp add: stats_exact_def)
  finally have peak: "as_bytes_allocated t - lay_size lay \<le> as_bytes_peak t" .
  have "card L = card (L - {(p, lay, n)}) + 1"
    using card_Suc_Diff1 [OF live_ok_finite [OF assms(2)] assms(3)] by simp
  moreover have "as_total_allocations t - as_total_deallocations t = word_of_nat (card L)"
    using assms(1) by (simp add: stats_exact_def)
  ultimately have "as_total_allocations t - (as_total_deallocations t + 1) =
      word_of_nat (card (L - {(p, lay, n)}))"
    by (simp add: diff_diff_eq [symmetric])
  then show "stats_exact (t\<lparr>as_total_deallocations := as_total_deallocations t + 1,
      as_bytes_allocated := as_bytes_allocated t - lay_size lay\<rparr>) (L - {(p, lay, n)})"
    using u peak by (simp add: stats_exact_def)
qed

text \<open>A fresh block is not one of the live ones.\<close>

lemma fresh_notin: "block_ok lay p n \<Longrightarrow> span p n \<inter> footprint L = {} \<Longrightarrow> (p, lay, n) \<notin> L"
  using span_base [of n p] span_footprint [of p lay n L] by (auto dest: block_okD(7))

context allocator_contract
begin

lemma statistics_core:
  "allocator_core (statistics_allocate A) (statistics_deallocate A)
     (\<lambda>w. al_usable_size A (sx_inner w)) (statistics_inv ainv)"
proof
  fix w :: "'a statistics" and m L
  assume inv: "statistics_inv ainv w m L"
  then have i: "ainv (sx_inner w) m L" and t: "stats_exact (sx_stats w) L"
    by (auto simp: statistics_inv_def)
  show "live_ok L" by (rule inv_live [OF i])
  show "statistics_inv ainv w m' L" if "same_on (- footprint L) m m'" for m'
    using user_write [OF i that] t by (simp add: statistics_inv_def)
  show "alloc_post (statistics_inv ainv) L lay m (statistics_allocate A lay (w, m))"
    if lay: "valid_layout lay" for lay
  proof -
    obtain r i' m' where al: "al_allocate A lay (sx_inner w, m) = (r, i', m')"
      by (cases "al_allocate A lay (sx_inner w, m)") auto
    have post: "alloc_post ainv L lay m (r, i', m')" using allocate [OF i lay] al by simp
    have t': "stats_exact (sx_stats (statistics_mirror A (statistics_put i' w))) L"
      using t by (simp add: statistics_put_def)
    show ?thesis
    proof (cases r)
      case (Inl e)
      then show ?thesis
        using post al t'
        by (auto simp: statistics_allocate_def via_def alloc_post_def statistics_inv_def Let_def
            statistics_put_def stats_exact_def)
    next
      case (Inr b)
      obtain p n where b: "b = (p, n)" by (cases b)
      have p: "block_ok lay p n" "span p n \<inter> footprint L = {}" "ainv i' m' (insert (p, lay, n) L)"
        using post Inr b by (auto simp: alloc_post_def)
      note rec = record_allocation_exact [OF t' inv_live [OF p(3)] fresh_notin [OF p(1,2)]]
      show ?thesis
        using post al rec Inr b
        by (auto simp: statistics_allocate_def via_def alloc_post_def statistics_inv_def Let_def
            statistics_put_def)
    qed
  qed
  show "dealloc_post (statistics_inv ainv) (L - {(p, lay, n)}) m (statistics_deallocate A p lay (w, m))"
    if mem: "(p, lay, n) \<in> L" for p lay n
    using deallocate [OF i mem] stats_exact_remove(1) [OF t inv_live [OF i] mem]
    by (cases "al_deallocate A p lay (sx_inner w, m)")
      (auto simp: statistics_deallocate_def via_out_def dealloc_post_def statistics_inv_def Let_def
        statistics_put_def statistics_mirror_def stats_exact_def)
  show "lay_size lay \<le> k \<and> k \<le> n"
    if "(p, lay, n) \<in> L" "al_usable_size A (sx_inner w) p lay = Some k" for p lay n k
    using usable_size [OF i that] .
qed

lemma statistics_contract: "allocator_contract (statistics_allocator A) (statistics_inv ainv)"
  by (rule allocator_contractI) (simp_all add: statistics_allocator_def statistics_core)

end

end
