(* ===== verification/Watermark.thy ===== *)
theory Watermark
  imports Instrumentation Client_Runs
begin

text \<open>
  \<open>forge-alloc/src/hardening/watermark.rs\<close>: usage callbacks. The handler is user code; what the
  wrapper owes it is the sequence of calls it makes, kept here in \<open>wm_handled\<close>, latest first.
  The percentages are computed in \<open>u128\<close> in the source and in \<open>nat\<close> here; both are exact, as
  \<open>usize::MAX * 100\<close> fits 128 bits.
\<close>

section \<open>State and operations\<close>

datatype watermark_level = Warn | Critical | Oom

record watermark_thresholds =
  wt_warn_pct :: u8
  wt_critical_pct :: u8

definition default_thresholds :: watermark_thresholds where
  "default_thresholds = \<lparr>wt_warn_pct = 75, wt_critical_pct = 90\<rparr>"

record watermark_event =
  we_level :: watermark_level
  we_allocated_bytes :: usize
  we_capacity_bytes :: usize
  we_requested_layout :: "layout option"

record 'i watermark =
  wm_inner :: 'i
  wm_thresholds :: watermark_thresholds
  wm_capacity_bytes :: usize
  wm_warn_threshold_bytes :: usize
  wm_allocated :: usize
  wm_fired :: usize
  wm_handled :: "watermark_event list"

definition FIRED_WARN :: usize where "FIRED_WARN = 1"

definition FIRED_CRITICAL :: usize where "FIRED_CRITICAL = 2"

definition watermark_with_thresholds ::
  "'i allocator \<Rightarrow> 'i \<Rightarrow> watermark_thresholds \<Rightarrow> 'i watermark" where
  "watermark_with_thresholds I inner thresholds =
     (let capacity_bytes = (case al_capacity_bytes I inner of Some c \<Rightarrow> c | None \<Rightarrow> usize_max);
          warn_threshold_bytes =
            (if capacity_bytes = usize_max then usize_max
             else let warn_pct = min (unat (wt_warn_pct thresholds)) 100;
                      critical_pct = min (unat (wt_critical_pct thresholds)) 100;
                      pct = min warn_pct critical_pct
                  in word_of_nat (unat capacity_bytes * pct div 100))
      in \<lparr>wm_inner = inner, wm_thresholds = thresholds, wm_capacity_bytes = capacity_bytes,
          wm_warn_threshold_bytes = warn_threshold_bytes, wm_allocated = 0, wm_fired = 0,
          wm_handled = []\<rparr>)"

definition watermark_new :: "'i allocator \<Rightarrow> 'i \<Rightarrow> 'i watermark" where
  "watermark_new I inner = watermark_with_thresholds I inner default_thresholds"

definition watermark_allocated_bytes :: "'i watermark \<Rightarrow> usize" where
  "watermark_allocated_bytes w = wm_allocated w"

definition watermark_rearm :: "'i watermark \<Rightarrow> 'i watermark" where
  "watermark_rearm w = w\<lparr>wm_fired := 0\<rparr>"

definition current_capacity :: "'i allocator \<Rightarrow> 'i watermark \<Rightarrow> usize" where
  "current_capacity I w =
     (case al_capacity_bytes I (wm_inner w) of Some c \<Rightarrow> c | None \<Rightarrow> wm_capacity_bytes w)"

definition handle :: "watermark_event \<Rightarrow> 'i watermark \<Rightarrow> 'i watermark" where
  "handle ev w = w\<lparr>wm_handled := ev # wm_handled w\<rparr>"

definition check_and_fire ::
  "'i allocator \<Rightarrow> usize \<Rightarrow> layout option \<Rightarrow> 'i watermark \<Rightarrow> 'i watermark" where
  "check_and_fire I new_bytes requested w =
     (let capacity = current_capacity I w
      in if capacity = 0 then w
         else let pct = min (unat new_bytes * 100 div unat capacity) 255;
                  event = (\<lambda>level. \<lparr>we_level = level, we_allocated_bytes = new_bytes,
                    we_capacity_bytes = capacity, we_requested_layout = requested\<rparr>);
                  prev = wm_fired w
              in if pct \<ge> unat (wt_critical_pct (wm_thresholds w))
                 then let w' = w\<lparr>wm_fired := prev OR (FIRED_CRITICAL OR FIRED_WARN)\<rparr>
                      in if prev AND FIRED_CRITICAL = 0 then handle (event Critical) w' else w'
                 else if pct \<ge> unat (wt_warn_pct (wm_thresholds w))
                 then let w' = w\<lparr>wm_fired := prev OR FIRED_WARN\<rparr>
                      in if prev AND FIRED_WARN = 0 then handle (event Warn) w' else w'
                 else w)"

definition watermark_put :: "'i \<Rightarrow> 'i watermark \<Rightarrow> 'i watermark" where
  "watermark_put i w = w\<lparr>wm_inner := i\<rparr>"

definition watermark_deallocate :: "'i allocator \<Rightarrow> 'i watermark dealloc_fun" where
  "watermark_deallocate I p lay st =
     (case st of (w, m) \<Rightarrow>
        via_out wm_inner watermark_put (al_deallocate I p lay)
          (w\<lparr>wm_allocated := wm_allocated w - lay_size lay\<rparr>, m))"

definition watermark_allocate :: "'i allocator \<Rightarrow> 'i watermark alloc_fun" where
  "watermark_allocate I lay st =
     (case via wm_inner watermark_put (al_allocate I lay) st of
        (Inr block, w, m) \<Rightarrow>
          let prev = wm_allocated w;
              new_bytes = saturating_add prev (lay_size lay);
              w1 = w\<lparr>wm_allocated := prev + lay_size lay\<rparr>;
              w2 = (if new_bytes \<ge> wm_warn_threshold_bytes w1
                    then check_and_fire I new_bytes None w1 else w1)
          in (Inr block, w2, m)
      | (Inl e, w, m) \<Rightarrow>
          (Inl e,
           handle \<lparr>we_level = Oom, we_allocated_bytes = watermark_allocated_bytes w,
             we_capacity_bytes = current_capacity I w, we_requested_layout = Some lay\<rparr> w, m))"

definition watermark_allocator :: "'i allocator \<Rightarrow> 'i watermark allocator" where
  "watermark_allocator I =
     \<lparr>al_allocate = watermark_allocate I,
      al_allocate_zeroed = default_allocate_zeroed (watermark_allocate I),
      al_deallocate = watermark_deallocate I,
      al_grow = default_grow (watermark_allocate I) (watermark_deallocate I),
      al_shrink = default_shrink (watermark_allocate I) (watermark_deallocate I),
      al_reset = default_reset,
      al_usable_size = (\<lambda>w. al_usable_size I (wm_inner w)),
      al_capacity_bytes = (\<lambda>w. al_capacity_bytes I (wm_inner w)),
      al_corruption_events = (\<lambda>w. al_corruption_events I (wm_inner w))\<rparr>"

definition watermark_range :: "'i fixed_range \<Rightarrow> 'i watermark fixed_range" where
  "watermark_range R = via_range wm_inner watermark_put R"

section \<open>Accounting\<close>

definition watermark_inv ::
  "('i \<Rightarrow> mem \<Rightarrow> live \<Rightarrow> bool) \<Rightarrow> 'i watermark \<Rightarrow> mem \<Rightarrow> live \<Rightarrow> bool" where
  "watermark_inv iinv w m L \<longleftrightarrow>
     iinv (wm_inner w) m L \<and> unat (wm_allocated w) = live_bytes L"

lemma check_and_fire_frame [simp]:
  "wm_inner (check_and_fire I b q w) = wm_inner w"
  "wm_allocated (check_and_fire I b q w) = wm_allocated w"
  "wm_thresholds (check_and_fire I b q w) = wm_thresholds w"
  "wm_capacity_bytes (check_and_fire I b q w) = wm_capacity_bytes w"
  "wm_warn_threshold_bytes (check_and_fire I b q w) = wm_warn_threshold_bytes w"
  by (simp_all add: check_and_fire_def handle_def Let_def)

lemma handle_frame [simp]:
  "wm_inner (handle ev w) = wm_inner w" "wm_allocated (handle ev w) = wm_allocated w"
  "wm_fired (handle ev w) = wm_fired w" "wm_handled (handle ev w) = ev # wm_handled w"
  by (simp_all add: handle_def)

context allocator_contract
begin

lemma watermark_core:
  "allocator_core (watermark_allocate A) (watermark_deallocate A)
     (\<lambda>w. al_usable_size A (wm_inner w)) (watermark_inv ainv)"
proof
  fix w :: "'a watermark" and m L
  assume inv: "watermark_inv ainv w m L"
  then have i: "ainv (wm_inner w) m L" and t: "unat (wm_allocated w) = live_bytes L"
    by (auto simp: watermark_inv_def)
  show "live_ok L" by (rule inv_live [OF i])
  show "watermark_inv ainv w m' L" if "same_on (- footprint L) m m'" for m'
    using user_write [OF i that] t by (simp add: watermark_inv_def)
  show "alloc_post (watermark_inv ainv) L lay m (watermark_allocate A lay (w, m))"
    if lay: "valid_layout lay" for lay
  proof -
    obtain r i' m' where al: "al_allocate A lay (wm_inner w, m) = (r, i', m')"
      by (cases "al_allocate A lay (wm_inner w, m)") auto
    have post: "alloc_post ainv L lay m (r, i', m')" using allocate [OF i lay] al by simp
    show ?thesis
    proof (cases r)
      case (Inl e)
      then show ?thesis
        using post al t
        by (simp add: watermark_allocate_def via_def alloc_post_def watermark_inv_def watermark_put_def)
    next
      case (Inr b)
      obtain p n where b: "b = (p, n)" by (cases b)
      have p: "block_ok lay p n" "span p n \<inter> footprint L = {}" "ainv i' m' (insert (p, lay, n) L)"
        using post Inr b by (auto simp: alloc_post_def)
      note live = inv_live [OF p(3)]
      have lb: "live_bytes (insert (p, lay, n) L) = unat (wm_allocated w) + unat (lay_size lay)"
        using live_bytes_insert [OF live fresh_notin [OF p(1,2)]] t by simp
      then have "unat (wm_allocated w + lay_size lay) = live_bytes (insert (p, lay, n) L)"
        using live_bytes_bound [OF live] by (simp add: unat_plus_if')
      then show ?thesis
        using post al Inr b
        by (simp add: watermark_allocate_def via_def alloc_post_def watermark_inv_def Let_def
            watermark_put_def)
    qed
  qed
  show "dealloc_post (watermark_inv ainv) (L - {(p, lay, n)}) m (watermark_deallocate A p lay (w, m))"
    if mem: "(p, lay, n) \<in> L" for p lay n
  proof -
    have b: "unat (wm_allocated w) = live_bytes (L - {(p, lay, n)}) + unat (lay_size lay)"
      using live_bytes_remove [OF inv_live [OF i] mem] t by simp
    then have "unat (wm_allocated w - lay_size lay) = live_bytes (L - {(p, lay, n)})"
      by (simp add: unat_sub word_le_nat_alt)
    then show ?thesis
      using deallocate [OF i mem]
      by (cases "al_deallocate A p lay (wm_inner w, m)")
        (auto simp: watermark_deallocate_def via_out_def dealloc_post_def watermark_inv_def
          watermark_put_def)
  qed
  show "lay_size lay \<le> k \<and> k \<le> n"
    if "(p, lay, n) \<in> L" "al_usable_size A (wm_inner w) p lay = Some k" for p lay n k
    using usable_size [OF i that] .
qed

lemma watermark_contract: "allocator_contract (watermark_allocator A) (watermark_inv ainv)"
  by (rule allocator_contractI) (simp_all add: watermark_allocator_def watermark_core)

end

section \<open>The gate of the hot path\<close>

text \<open>
  Below the precomputed threshold the out-of-line check would do nothing, as long as the inner
  allocator's capacity has not shrunk since construction.
\<close>

lemma pct_below:
  assumes "b < c * p div (100 :: nat)" "c \<le> cap"
  shows "b * 100 div cap < p"
proof -
  have "Suc b * 100 \<le> (c * p div 100) * 100" using assms(1) by (intro mult_le_mono1) simp
  also have "\<dots> \<le> c * p" by simp
  also have "\<dots> \<le> cap * p" using assms(2) by simp
  finally have "b * 100 < p * cap" by (simp add: mult.commute)
  then show ?thesis by (rule less_mult_imp_div_less)
qed

lemma watermark_gate:
  assumes w0: "w0 = watermark_with_thresholds I i0 th" and c: "al_capacity_bytes I i0 = Some c" "c \<noteq> usize_max"
    and w: "wm_thresholds w = th" "wm_warn_threshold_bytes w = wm_warn_threshold_bytes w0"
    and cap: "c \<le> current_capacity I w" and below: "b < wm_warn_threshold_bytes w"
  shows "check_and_fire I b q w = w"
proof -
  let ?p = "min (min (unat (wt_warn_pct th)) 100) (min (unat (wt_critical_pct th)) 100)"
  have "unat c * ?p div 100 \<le> unat c"
  proof -
    have "unat c * ?p \<le> unat c * 100" by (intro mult_le_mono2) simp
    then have "unat c * ?p div 100 \<le> unat c * 100 div 100" by (rule div_le_mono)
    then show ?thesis by simp
  qed
  then have "unat c * ?p div 100 < 2 ^ 64" using unat_64_less [of c] by linarith
  then have "unat (wm_warn_threshold_bytes w) = unat c * ?p div 100"
    using c w(2) unat_word_of_nat [of "unat c * ?p div 100", where 'w = 64]
    by (simp add: w0 watermark_with_thresholds_def Let_def)
  then have "unat b < unat c * ?p div 100" using below by (simp add: word_less_nat_alt)
  then have "unat b * 100 div unat (current_capacity I w) < ?p"
    by (rule pct_below) (use cap in \<open>simp add: word_le_nat_alt\<close>)
  then show ?thesis
    using w(1) by (auto simp: check_and_fire_def Let_def)
qed

section \<open>Rising edges\<close>

text \<open>
  \<open>fires_once k w\<close>: of the handler calls made since there were \<open>k\<close> of them, at most one is a
  warning and at most one a critical event, and the fired bits remember which.
\<close>

definition calls_since :: "nat \<Rightarrow> watermark_level \<Rightarrow> 'i watermark \<Rightarrow> nat" where
  "calls_since k lv w =
     length (filter (\<lambda>ev. we_level ev = lv) (take (length (wm_handled w) - k) (wm_handled w)))"

definition fires_once :: "nat \<Rightarrow> 'i watermark \<Rightarrow> bool" where
  "fires_once k w \<longleftrightarrow> k \<le> length (wm_handled w) \<and>
     calls_since k Warn w \<le> (if wm_fired w AND FIRED_WARN = 0 then 0 else 1) \<and>
     calls_since k Critical w \<le> (if wm_fired w AND FIRED_CRITICAL = 0 then 0 else 1)"

lemma fires_once_rearm: "fires_once (length (wm_handled w)) (watermark_rearm w)"
  by (simp add: fires_once_def calls_since_def watermark_rearm_def)

lemma calls_since_handle:
  "k \<le> length (wm_handled w) \<Longrightarrow>
     calls_since k lv (handle ev w) = calls_since k lv w + (if we_level ev = lv then 1 else 0)"
  by (simp add: calls_since_def Suc_diff_le)

lemma fired_bits:
  "FIRED_WARN \<noteq> 0" "FIRED_CRITICAL \<noteq> 0"
  "(x OR (FIRED_CRITICAL OR FIRED_WARN)) AND FIRED_CRITICAL \<noteq> 0"
  "(x OR (FIRED_CRITICAL OR FIRED_WARN)) AND FIRED_WARN \<noteq> 0"
  "(x OR FIRED_WARN) AND FIRED_WARN \<noteq> 0"
  "(x OR FIRED_WARN) AND FIRED_CRITICAL = x AND FIRED_CRITICAL"
proof -
  have b: "bit FIRED_WARN n \<longleftrightarrow> n = 0" "bit FIRED_CRITICAL n \<longleftrightarrow> n = 1" for n
    by (auto simp: FIRED_WARN_def FIRED_CRITICAL_def bit_1_iff bit_2_iff)
  have nz: "y \<noteq> 0" if "bit y n" for y :: usize and n using that by auto
  show "FIRED_WARN \<noteq> 0" "FIRED_CRITICAL \<noteq> 0"
    by (simp_all add: FIRED_WARN_def FIRED_CRITICAL_def)
  show "(x OR (FIRED_CRITICAL OR FIRED_WARN)) AND FIRED_CRITICAL \<noteq> 0"
    by (rule nz [of _ 1]) (simp add: bit_simps b)
  show "(x OR (FIRED_CRITICAL OR FIRED_WARN)) AND FIRED_WARN \<noteq> 0"
    by (rule nz [of _ 0]) (simp add: bit_simps b)
  show "(x OR FIRED_WARN) AND FIRED_WARN \<noteq> 0"
    by (rule nz [of _ 0]) (simp add: bit_simps b)
  show "(x OR FIRED_WARN) AND FIRED_CRITICAL = x AND FIRED_CRITICAL"
    by (rule bit_word_eqI) (auto simp: bit_simps b)
qed

lemma calls_since_fired [simp]: "calls_since k lv (w\<lparr>wm_fired := f\<rparr>) = calls_since k lv w"
  by (simp add: calls_since_def)

lemma check_and_fire_once:
  assumes "fires_once k w"
  shows "fires_once k (check_and_fire I b q w)"
proof -
  have k: "k \<le> length (wm_handled w)" using assms by (simp add: fires_once_def)
  show ?thesis
    using assms k
    by (auto simp: check_and_fire_def Let_def fires_once_def calls_since_handle fired_bits
        split: if_splits)
qed

lemma fires_once_cong:
  "fires_once k w \<Longrightarrow> wm_handled w' = wm_handled w \<Longrightarrow> wm_fired w' = wm_fired w \<Longrightarrow> fires_once k w'"
  by (simp add: fires_once_def calls_since_def)

lemma watermark_allocate_once:
  assumes "watermark_allocate I lay (w, m) = (r, w', m')" "fires_once k w"
  shows "fires_once k w'"
proof -
  obtain r0 i m0 where al: "al_allocate I lay (wm_inner w, m) = (r0, i, m0)"
    by (cases "al_allocate I lay (wm_inner w, m)") auto
  let ?w = "watermark_put i w"
  have once: "fires_once k (?w\<lparr>wm_allocated := b\<rparr>)" for b
    using assms(2) by (rule fires_once_cong) (simp_all add: watermark_put_def)
  show ?thesis
  proof (cases r0)
    case (Inl e)
    have k: "k \<le> length (wm_handled w)" using assms(2) by (simp add: fires_once_def)
    then show ?thesis
      using assms al Inl calls_since_handle [of k ?w]
      by (auto simp: watermark_allocate_def via_def fires_once_def watermark_put_def
          calls_since_def Suc_diff_le)
  next
    case (Inr b)
    then show ?thesis
      using assms(1) al once check_and_fire_once [OF once]
      by (auto simp: watermark_allocate_def via_def Let_def split: if_splits)
  qed
qed

lemma watermark_deallocate_once:
  "watermark_deallocate I p lay (w, m) = Done (w', m') \<Longrightarrow> fires_once k w \<Longrightarrow> fires_once k w'"
  by (auto simp: watermark_deallocate_def via_out_def watermark_put_def elim!: fires_once_cong)

lemma watermark_step_once:
  assumes "client_step (watermark_allocator I) (w, m, L) j (w', m', L')" "fires_once k w"
  shows "fires_once k w'"
  using assms
  by (auto simp: watermark_allocator_def default_allocate_zeroed_def default_grow_def
      default_shrink_def elim!: client_stepE split: prod.splits sum.splits
      intro: watermark_allocate_once watermark_deallocate_once
        watermark_deallocate_once [OF _ watermark_allocate_once])

lemma watermark_run_once:
  assumes "client_run (watermark_allocator I) W j W'"
  shows "fires_once k (fst W) \<Longrightarrow> fires_once k (fst W')"
  using assms
proof (induction rule: client_run.induct)
  case (snoc W j W' i W'')
  then show ?case
    using watermark_step_once by (cases W', cases W'') auto
qed simp

end
