(* ===== verification/Hardening_Properties.thy ===== *)
theory Hardening_Properties
  imports Examples Quarantine Canary Scrubbing Faulty Watermark
begin

text \<open>
  The properties of the hardening and instrumentation wrappers, over any inner allocator that
  meets the contract, each with a concrete instance of its hypotheses.
\<close>

section \<open>Concrete wrapper states\<close>

definition demo_quarantine :: "inline_backed quarantine" where
  "demo_quarantine = quarantine_new 4 demo_inline1"

lemma demo_quarantine_ok: "quarantine_inv 4 (inline_inv 256) demo_quarantine m demo_block"
  using demo_inline1_ok
  by (auto simp: quarantine_inv_def demo_quarantine_def quarantine_new_def ring_blocks_def
      numeral_eq_Suc intro!: exI [of _ "{}"])

lemma replicate_4: "replicate 4 x = [x, x, x, x]"
  by (simp add: numeral_eq_Suc)

definition demo_canary :: "inline_backed canary" where
  "demo_canary = canary_new_with_seed demo_inline 7"

definition demo_canary1 :: "inline_backed canary" where
  "demo_canary1 = demo_canary\<lparr>ca_inner := \<lparr>ib_addr = 4096, ib_cursor = 24\<rparr>\<rparr>"

definition demo_canary_mem :: mem where
  "demo_canary_mem = write_u64 (write_u64 zero_mem 4096 7) 4112 7"

lemma demo_canary_new_ok: "canary_inv (inline_inv 256) demo_canary m {}"
  using demo_inline_ok by (simp add: canary_inv_def demo_canary_def canary_new_with_seed_def)

lemma demo_canary_ok:
  "canary_inv (inline_inv 256) demo_canary1 demo_canary_mem {(4104, demo_layout, 8)}"
proof -
  have "from_size_align 24 8 = Inr \<lparr>lay_size = 24, lay_align = 8\<rparr>"
    by (simp add: from_size_align_def nzl_new_eq)
  then have "canary_inner_layout demo_layout = Inr \<lparr>lay_size = 24, lay_align = 8\<rparr>"
    by (simp add: canary_inner_layout_def canary_pre_pad_def demo_layout_def checked_add_def Let_def)
  then have "canary_allocate (inline_allocator 256) demo_layout (demo_canary, zero_mem) =
      (Inr (4104, 8), demo_canary1, demo_canary_mem)"
    by (simp add: canary_allocate_def canary_pre_pad_def demo_canary_def demo_canary1_def
        demo_canary_mem_def canary_new_with_seed_def inline_allocator_def inline_eval)
  then show ?thesis
    using allocator_contract.canary_allocate_post [OF inline.allocator_contract_axioms
        demo_canary_new_ok [of zero_mem] demo_layout_ok]
    by (simp add: alloc_post_def)
qed

section \<open>Quarantine\<close>

text \<open>
  \<open>Quarantine\<close> with at least one slot meets the \<open>Allocator\<close> contract over any inner allocator
  that does: a freed block stays allocated below, is in the ring exactly once, and an eviction
  frees it once, with its own layout.
\<close>

theorem quarantine_correct:
  assumes "allocator_contract A ainv" "0 < E"
  shows "allocator_contract (quarantine_allocator E A) (quarantine_inv E ainv)"
  using assms by (rule allocator_contract.quarantine_contract)

theorem quarantine_correct_witness:
  "allocator_contract (quarantine_allocator 4 (inline_allocator 256)) (quarantine_inv 4 (inline_inv 256)) \<and>
   quarantine_inv 4 (inline_inv 256) (quarantine_new 4 demo_inline) zero_mem {}"
  using quarantine_correct [OF inline.allocator_contract_axioms, of 4 256] demo_inline_ok
  by (simp add: quarantine_inv_def quarantine_new_def ring_blocks_def numeral_eq_Suc)

text \<open>
  C5. Freed memory is not reused for a full turn of the ring: after a block is freed, through any
  run of a well-behaved client that frees fewer than \<open>EPOCHS\<close> further blocks, every block the
  allocator issues is disjoint from it (as long as the 64-bit free counter does not wrap).
\<close>

theorem quarantine_delays_reuse:
  assumes "allocator_contract A ainv" "0 < E" "quarantine_inv E ainv q m L" "(p, lay, n) \<in> L"
    "quarantine_deallocate E A p lay (q, m) = Done (q1, m1)"
    "client_run (quarantine_allocator E A) (q1, m1, L - {(p, lay, n)}) k (q2, m2, L2)"
    "k < E" "unat (qu_count q) + 1 + k < 2 ^ 64" "valid_layout lay'"
    "al_allocate (quarantine_allocator E A) lay' (q2, m2) = (Inr (p', n'), q', m')"
  shows "span p' n' \<inter> span p (lay_size lay) = {}"
  using allocator_contract.quarantine_delay [OF assms(1-9), of p' n' q' m'] assms(10)
  by (simp add: quarantine_allocator_def Let_def)

theorem quarantine_delays_reuse_witness:
  "\<exists>q1 m1 q2 m2. quarantine_deallocate 4 (inline_allocator 256) 4096 demo_layout (demo_quarantine, zero_mem) =
       Done (q1, m1) \<and>
     al_allocate (quarantine_allocator 4 (inline_allocator 256)) demo_layout (q1, m1) =
       (Inr (4104, 8), q2, m2) \<and>
     span (4104 :: addr) 8 \<inter> span 4096 8 = {}"
proof -
  let ?q1 = "demo_quarantine\<lparr>qu_count := 1,
    qu_ring := [Some (4096, demo_layout), None, None, None]\<rparr>"
  have f: "quarantine_deallocate 4 (inline_allocator 256) 4096 demo_layout (demo_quarantine, zero_mem) =
      Done (?q1, zero_mem)"
    by (simp add: quarantine_deallocate_def demo_quarantine_def quarantine_new_def replicate_4 Let_def)
  obtain q2 where a: "al_allocate (quarantine_allocator 4 (inline_allocator 256)) demo_layout (?q1, zero_mem) =
      (Inr (4104, 8), q2, zero_mem)"
    by (simp add: quarantine_allocator_def quarantine_lift_def inline_allocator_def demo_quarantine_def
        quarantine_new_def demo_inline1_def inline_eval)
  have l: "(4096, demo_layout, 8) \<in> demo_block" by (simp add: demo_block_def)
  have "span (4104 :: addr) 8 \<inter> span 4096 (lay_size demo_layout) = {}"
    by (rule quarantine_delays_reuse [OF inline.allocator_contract_axioms _ demo_quarantine_ok l f
          client_run.nil _ _ demo_layout_ok a])
      (simp_all add: demo_quarantine_def quarantine_new_def)
  then have "span (4104 :: addr) 8 \<inter> span 4096 8 = {}" by (simp add: demo_layout_def)
  with f a show ?thesis by blast
qed

text \<open>
  Dropping a quarantine frees every block still in the ring and nothing else, without a panic:
  the inner allocator is left with exactly the client's live blocks, their bytes unchanged.
\<close>

theorem quarantine_drop_frees_ring:
  assumes "allocator_contract A ainv" "quarantine_inv E ainv q m L"
  shows "\<exists>s' m'. quarantine_drop A (q, m) = Done (s', m') \<and> ainv s' m' L \<and> same_on (footprint L) m m'"
  using allocator_contract.quarantine_drop_post [OF assms] .

theorem quarantine_drop_frees_ring_witness:
  "\<exists>s' m'. quarantine_drop (inline_allocator 256) (demo_quarantine, zero_mem) = Done (s', m') \<and>
     inline_inv 256 s' m' demo_block"
  using quarantine_drop_frees_ring [OF inline.allocator_contract_axioms demo_quarantine_ok] by blast

section \<open>Canary\<close>

text \<open>
  \<open>Canary\<close> meets the \<open>Allocator\<close> contract over any inner allocator that does: both canary words
  lie in the inner block, outside the client's; a client that stays inside its blocks never makes
  \<open>deallocate\<close>, \<open>grow\<close> or \<open>shrink\<close> panic.
\<close>

theorem canary_correct:
  assumes "allocator_contract A ainv"
  shows "allocator_contract (canary_allocator A) (canary_inv ainv)"
  using assms by (rule allocator_contract.canary_contract)

theorem canary_correct_witness:
  "allocator_contract (canary_allocator (inline_allocator 256)) (canary_inv (inline_inv 256)) \<and>
   canary_inv (inline_inv 256) (canary_new_with_seed demo_inline 7) zero_mem {}"
  using canary_correct [OF inline.allocator_contract_axioms, of 256] demo_inline_ok
  by (simp add: canary_inv_def canary_new_with_seed_def)

text \<open>
  C6. Every change of a canary byte of a live block, by an overflow or an underflow of whatever
  length, makes the block's \<open>deallocate\<close> panic.
\<close>

theorem canary_catches_overflow:
  assumes "canary_inv iinv c m L" "(p, lay, n) \<in> L"
    "a \<in> span (p - 8) 8 \<union> span (p + lay_size lay) 8" "m' a \<noteq> m a"
  shows "canary_deallocate I p lay (c, m') = Panicked"
proof (rule canary_catches_write)
  show "canary_intact c m p lay" using assms(1,2) by (rule canary_inv_intact)
qed (use assms(3,4) in blast)+

theorem canary_catches_overflow_witness:
  "canary_deallocate (inline_allocator 256) 4104 demo_layout (demo_canary1, demo_canary_mem(4112 := demo_canary_mem 4112 + 1)) =
     Panicked"
proof -
  have l: "(4104, demo_layout, 8) \<in> {(4104, demo_layout, 8)}" by simp
  have "(4112 :: addr) \<in> span (4104 - 8) 8 \<union> span (4104 + lay_size demo_layout) 8"
    by (simp add: span_def demo_layout_def)
  moreover have "(demo_canary_mem(4112 := demo_canary_mem 4112 + 1)) 4112 \<noteq> demo_canary_mem 4112"
    by simp
  ultimately show ?thesis
    by (rule canary_catches_overflow [OF demo_canary_ok l])
qed

section \<open>Scrubbing\<close>

text \<open>
  \<open>PoisonOnFree\<close> and \<open>ZeroizeOnFree\<close> meet the \<open>Allocator\<close> contract over any inner allocator that
  does: the scrub stays inside the freed block. The volatile byte loop writes zeros over exactly
  the given range.
\<close>

theorem scrubbers_correct:
  assumes "allocator_contract A ainv"
  shows "allocator_contract (poison_allocator A) (field_inv po_inner ainv) \<and>
    allocator_contract (zeroize_allocator A) (field_inv ze_inner ainv) \<and>
    volatile_zeroize m p len = write_bytes m p 0 len"
  using allocator_contract.poison_contract [OF assms] allocator_contract.zeroize_contract [OF assms]
    volatile_zeroize_eq by blast

theorem scrubbers_correct_witness:
  "allocator_contract (poison_allocator (inline_allocator 256)) (field_inv po_inner (inline_inv 256)) \<and>
   field_inv po_inner (inline_inv 256) (poison_new demo_inline) zero_mem {} \<and>
   volatile_zeroize zero_mem 4096 8 = write_bytes zero_mem 4096 0 8"
  using scrubbers_correct [OF inline.allocator_contract_axioms, of 256 zero_mem 4096 8] demo_inline_ok
  by (simp add: poison_new_def)

text \<open>
  Over a slab, both scrubbers reach the whole slot and not only the bytes requested: after a
  free every byte of the slot but the eight of the free-list link holds the pattern (zero for
  \<open>ZeroizeOnFree\<close>).
\<close>

theorem scrub_covers_slot:
  assumes "ranged_contract B binv R" "freelist_protection P"
    "slab_inv strict binv R P T s m L" "(p, lay, n) \<in> L"
    "a \<in> span p (sl_block_stride s)" "a \<notin> span p 8"
  shows "\<exists>s1 m1 m2.
    poison_deallocate (slab_allocator R P T) p lay (\<lparr>po_inner = s, po_pattern = v\<rparr>, m) =
      Done (\<lparr>po_inner = s1, po_pattern = v\<rparr>, m1) \<and> m1 a = v \<and>
    zeroize_deallocate (slab_allocator R P T) p lay (\<lparr>ze_inner = s\<rparr>, m) =
      Done (\<lparr>ze_inner = s1\<rparr>, m2) \<and> m2 a = 0"
  by (rule slab_scrub_both [OF assms])

theorem scrub_covers_slot_witness:
  "\<exists>s1 m1. poison_deallocate (slab_allocator (inline_range 256) demo_mac demo_type) 4096 demo_layout
       (\<lparr>po_inner = demo_slab1, po_pattern = 0xDE\<rparr>, zero_mem) =
       Done (\<lparr>po_inner = s1, po_pattern = 0xDE\<rparr>, m1) \<and> m1 4111 = 0xDE"
proof -
  have "(4096, demo_layout, 16) \<in> demo_live" "(4111 :: addr) \<in> span 4096 (sl_block_stride demo_slab1)"
    "(4111 :: addr) \<notin> span 4096 8"
    by (simp_all add: demo_live_def span_def demo_slab1_def demo_slab_def)
  then show ?thesis
    using scrub_covers_slot [OF inline.ranged_contract_axioms demo_mac_ok demo_slab1_ok [of True],
        of 4096 demo_layout 16 4111 "0xDE" zero_mem] by blast
qed

section \<open>Fault injection\<close>

text \<open>
  The counting fault policies are exact: \<open>FailAfter::new(n)\<close> lets exactly the first \<open>n\<close> requests
  through and fails all the rest, and \<open>FailEveryNth::new(k)\<close>, when it does not panic, fails exactly
  the requests number \<open>k\<close>, \<open>2k\<close> and so on, counted from one, until the counter wraps.
\<close>

theorem fault_schedules_exact:
  "verdicts FailAfter (fail_after_new n) lays = map (\<lambda>i. unat n \<le> i) [0..<length lays] \<and>
   (fail_every_nth_new k = Done p \<longrightarrow> length lays < 2 ^ 64 \<longrightarrow>
      verdicts FailEveryNth p lays = map (\<lambda>i. (i + 1) mod unat k = 0) [0..<length lays])"
proof -
  have "1 \<le> unat (fe_period p) \<and> fe_period p = k \<and> fe_count p = 0" if "fail_every_nth_new k = Done p"
    using that by (auto simp: fail_every_nth_new_def word_le_nat_alt split: if_splits)
  then show ?thesis using fail_every_nth_verdicts [of p lays] fail_after_verdicts by auto
qed

theorem fault_schedules_exact_witness:
  "verdicts FailAfter (fail_after_new 1) (replicate 3 demo_layout) = [False, True, True] \<and>
   verdicts FailEveryNth \<lparr>fe_period = 3, fe_count = 0\<rparr> (replicate 4 demo_layout) = [False, False, True, False]"
proof -
  have "fail_every_nth_new 3 = Done \<lparr>fe_period = 3, fe_count = 0\<rparr>" by (simp add: fail_every_nth_new_def)
  then show ?thesis
    using fault_schedules_exact [of 1 "replicate 3 demo_layout"]
      fault_schedules_exact [of 1 "replicate 4 demo_layout" 3 "\<lparr>fe_period = 3, fe_count = 0\<rparr>"]
    by (simp add: upt_rec)
qed

text \<open>
  \<open>Faulty\<close> meets the \<open>Allocator\<close> contract over any inner allocator that does, whatever the
  policy, and a verdict to fail turns every entry point that issues memory into a refusal that
  touches neither the inner allocator nor the memory.
\<close>

theorem faulty_correct:
  assumes "allocator_contract I iinv"
  shows "allocator_contract (faulty_allocator I P) (field_inv fy_inner iinv) \<and>
    (\<forall>w lay p m q old. P (fy_policy w) lay = (True, p) \<longrightarrow>
       al_allocate (faulty_allocator I P) lay (w, m) = (Inl AllocError, w\<lparr>fy_policy := p\<rparr>, m) \<and>
       al_allocate_zeroed (faulty_allocator I P) lay (w, m) = (Inl AllocError, w\<lparr>fy_policy := p\<rparr>, m) \<and>
       al_grow (faulty_allocator I P) q old lay (w, m) = Done (Inl AllocError, w\<lparr>fy_policy := p\<rparr>, m) \<and>
       al_shrink (faulty_allocator I P) q old lay (w, m) = Done (Inl AllocError, w\<lparr>fy_policy := p\<rparr>, m))"
  by (simp add: faulty_contract [OF assms] faulty_injects)

theorem faulty_correct_witness:
  "allocator_contract (faulty_allocator (inline_allocator 256) AlwaysFail) (field_inv fy_inner (inline_inv 256)) \<and>
   al_allocate (faulty_allocator (inline_allocator 256) AlwaysFail) demo_layout
     (faulty_new demo_inline (), zero_mem) = (Inl AllocError, faulty_new demo_inline (), zero_mem)"
proof -
  note c = faulty_correct [OF inline.allocator_contract_axioms, of 256 AlwaysFail]
  have "AlwaysFail (fy_policy (faulty_new demo_inline ())) demo_layout = (True, ())"
    by (simp add: AlwaysFail_def)
  from c [THEN conjunct2, THEN spec, THEN spec, THEN spec, THEN spec, THEN spec, THEN spec,
      THEN mp, OF this, THEN conjunct1] c [THEN conjunct1]
  show ?thesis by (simp add: faulty_new_def)
qed

end
