(* ===== verification/Fallback.thy ===== *)
theory Fallback
  imports Ownership Pass_Through
begin

text \<open>
  \<open>forge-alloc/src/layout/fallback.rs\<close>: \<open>WithFallback<P, S>\<close> tries a primary allocator first and a
  secondary one when it fails, and routes a free by asking whether the address lies in the
  primary's range. \<open>P\<close>, \<open>RP\<close> are the primary's \<open>Allocator\<close> and \<open>FixedRange\<close> impls, \<open>S\<close> the
  secondary's \<open>Allocator\<close>.
\<close>

record ('p, 's) fallback =
  wf_primary :: 'p
  wf_secondary :: 's

definition fallback_new :: "'p \<Rightarrow> 's \<Rightarrow> ('p, 's) fallback" where
  "fallback_new primary secondary = \<lparr>wf_primary = primary, wf_secondary = secondary\<rparr>"

definition ranges_disjoint ::
  "'p fixed_range \<Rightarrow> 's fixed_range \<Rightarrow> ('p, 's) fallback \<Rightarrow> bool" where
  "ranges_disjoint RP RS w =
     (let p_start = fr_base RP (wf_primary w); s_start = fr_base RS (wf_secondary w)
      in case checked_add p_start (fr_size RP (wf_primary w)) of None \<Rightarrow> False
         | Some p_end \<Rightarrow>
             case checked_add s_start (fr_size RS (wf_secondary w)) of None \<Rightarrow> False
             | Some s_end \<Rightarrow> p_end \<le> s_start \<or> s_end \<le> p_start)"

definition fallback_try_new ::
  "'p fixed_range \<Rightarrow> 's fixed_range \<Rightarrow> 'p \<Rightarrow> 's \<Rightarrow> ('p, 's) fallback res" where
  "fallback_try_new RP RS primary secondary =
     (let wf = fallback_new primary secondary
      in if ranges_disjoint RP RS wf then Inr wf else Inl AllocError)"

definition primary_put :: "'p \<Rightarrow> ('p, 's) fallback \<Rightarrow> ('p, 's) fallback" where
  "primary_put p w = w\<lparr>wf_primary := p\<rparr>"

definition secondary_put :: "'s \<Rightarrow> ('p, 's) fallback \<Rightarrow> ('p, 's) fallback" where
  "secondary_put s w = w\<lparr>wf_secondary := s\<rparr>"

text \<open>Primary first; its error, whatever state it leaves behind, turns to the secondary.\<close>

definition fallback_try ::
  "('p \<times> mem \<Rightarrow> block res \<times> 'p \<times> mem) \<Rightarrow> ('s \<times> mem \<Rightarrow> block res \<times> 's \<times> mem) \<Rightarrow>
     ('p, 's) fallback \<times> mem \<Rightarrow> block res \<times> ('p, 's) fallback \<times> mem" where
  "fallback_try f g st =
     (case via wf_primary primary_put f st of
        (Inr block, st') \<Rightarrow> (Inr block, st')
      | (Inl e, st') \<Rightarrow> via wf_secondary secondary_put g st')"

definition fallback_allocate ::
  "'p allocator \<Rightarrow> 's allocator \<Rightarrow> ('p, 's) fallback alloc_fun" where
  "fallback_allocate P S lay = fallback_try (al_allocate P lay) (al_allocate S lay)"

definition fallback_allocate_zeroed ::
  "'p allocator \<Rightarrow> 's allocator \<Rightarrow> ('p, 's) fallback alloc_fun" where
  "fallback_allocate_zeroed P S lay =
     fallback_try (al_allocate_zeroed P lay) (al_allocate_zeroed S lay)"

definition fallback_deallocate ::
  "'p allocator \<Rightarrow> 'p fixed_range \<Rightarrow> 's allocator \<Rightarrow> ('p, 's) fallback dealloc_fun" where
  "fallback_deallocate P RP S p lay st =
     (if fr_contains RP (wf_primary (fst st)) p
      then via_out wf_primary primary_put (al_deallocate P p lay) st
      else via_out wf_secondary secondary_put (al_deallocate S p lay) st)"

definition fallback_usable_size ::
  "'p allocator \<Rightarrow> 'p fixed_range \<Rightarrow> 's allocator \<Rightarrow> ('p, 's) fallback \<Rightarrow> addr \<Rightarrow> layout \<Rightarrow>
     usize option" where
  "fallback_usable_size P RP S w p lay =
     (if fr_contains RP (wf_primary w) p then al_usable_size P (wf_primary w) p lay
      else al_usable_size S (wf_secondary w) p lay)"

definition fallback_allocator ::
  "'p allocator \<Rightarrow> 'p fixed_range \<Rightarrow> 's allocator \<Rightarrow> ('p, 's) fallback allocator" where
  "fallback_allocator P RP S =
     \<lparr>al_allocate = fallback_allocate P S,
      al_allocate_zeroed = fallback_allocate_zeroed P S,
      al_deallocate = fallback_deallocate P RP S,
      al_grow = default_grow (fallback_allocate P S) (fallback_deallocate P RP S),
      al_shrink = default_shrink (fallback_allocate P S) (fallback_deallocate P RP S),
      al_reset = default_reset,
      al_usable_size = fallback_usable_size P RP S,
      al_capacity_bytes = (\<lambda>w. al_capacity_bytes P (wf_primary w)),
      al_corruption_events = (\<lambda>w. saturating_add (al_corruption_events P (wf_primary w))
        (al_corruption_events S (wf_secondary w)))\<rparr>"

section \<open>The range check\<close>

text \<open>The constructor's test is exact on ranges that stay clear of the top of memory.\<close>

lemma checked_add_end:
  "unat a + unat n < 2 ^ 64 \<Longrightarrow> checked_add a n = Some (a + n) \<and> unat (a + n) = unat a + unat (n :: usize)"
  by (simp add: checked_add_def unat_plus_if')

lemma ranges_disjoint_iff:
  fixes RP :: "'p fixed_range" and RS :: "'s fixed_range"
  assumes "unat (fr_base RP (wf_primary w)) + unat (fr_size RP (wf_primary w)) < 2 ^ 64"
    "unat (fr_base RS (wf_secondary w)) + unat (fr_size RS (wf_secondary w)) < 2 ^ 64"
    "fr_size RP (wf_primary w) \<noteq> 0" "fr_size RS (wf_secondary w) \<noteq> 0"
  shows "ranges_disjoint RP RS w \<longleftrightarrow>
    (\<forall>p. \<not> (fr_contains RP (wf_primary w) p \<and> fr_contains RS (wf_secondary w) p))"
proof -
  note e = checked_add_end [OF assms(1)] checked_add_end [OF assms(2)]
  have "ranges_disjoint RP RS w \<longleftrightarrow>
      span (fr_base RP (wf_primary w)) (fr_size RP (wf_primary w)) \<inter>
      span (fr_base RS (wf_secondary w)) (fr_size RS (wf_secondary w)) = {}"
    using e assms
    by (subst span_disjoint_iff) (auto simp: no_wrap_def ranges_disjoint_def word_le_nat_alt)
  then show ?thesis by (auto simp: fr_contains_span)
qed

text \<open>Whatever the ranges, a pair that passes the test never shares an address.\<close>

lemma ranges_disjoint_sound:
  assumes "ranges_disjoint RP RS w"
  shows "\<not> (fr_contains RP (wf_primary w) p \<and> fr_contains RS (wf_secondary w) p)"
proof -
  obtain pe se where pe: "checked_add (fr_base RP (wf_primary w)) (fr_size RP (wf_primary w)) = Some pe"
    and se: "checked_add (fr_base RS (wf_secondary w)) (fr_size RS (wf_secondary w)) = Some se"
    and d: "pe \<le> fr_base RS (wf_secondary w) \<or> se \<le> fr_base RP (wf_primary w)"
    using assms by (auto simp: ranges_disjoint_def Let_def split: option.splits)
  have "span (fr_base RP (wf_primary w)) (fr_size RP (wf_primary w)) \<inter>
      span (fr_base RS (wf_secondary w)) (fr_size RS (wf_secondary w)) = {}"
    using checked_add_unat [OF pe] checked_add_unat [OF se] d unat_64_less [of pe] unat_64_less [of se]
    by (intro span_disjointI) (auto simp: no_wrap_def word_le_nat_alt)
  then show ?thesis by (auto simp: fr_contains_span)
qed

section \<open>Two allocators side by side\<close>

text \<open>A free that goes to one of the two, whatever the routing test says.\<close>

definition primary_free :: "'p allocator \<Rightarrow> ('p, 's) fallback dealloc_fun" where
  "primary_free P p lay = via_out wf_primary primary_put (al_deallocate P p lay)"

definition secondary_free :: "'s allocator \<Rightarrow> ('p, 's) fallback dealloc_fun" where
  "secondary_free S p lay = via_out wf_secondary secondary_put (al_deallocate S p lay)"

text \<open>
  All that concerns the block at \<open>q\<close> goes to the allocator that \<open>free\<close> and \<open>usable\<close> belong to; a
  resize, which is the trait's default, allocates anew and frees the block there.
\<close>

definition routed_to ::
  "'p allocator \<Rightarrow> 'p fixed_range \<Rightarrow> 's allocator \<Rightarrow> ('p, 's) fallback dealloc_fun \<Rightarrow>
     (addr \<Rightarrow> layout \<Rightarrow> usize option) \<Rightarrow> ('p, 's) fallback \<times> mem \<Rightarrow> addr \<Rightarrow> layout \<Rightarrow> bool" where
  "routed_to P RP S free usable st q lay \<longleftrightarrow>
     al_deallocate (fallback_allocator P RP S) q lay st = free q lay st \<and>
     al_usable_size (fallback_allocator P RP S) (fst st) q lay = usable q lay \<and>
     (\<forall>new. valid_layout new \<longrightarrow>
        al_grow (fallback_allocator P RP S) q lay new st =
          default_grow (fallback_allocate P S) free q lay new st \<and>
        al_shrink (fallback_allocator P RP S) q lay new st =
          default_shrink (fallback_allocate P S) free q lay new st)"

text \<open>An allocation goes to the primary, and to the secondary when the primary refuses.\<close>

lemma fallback_allocate_order:
  "al_allocate (fallback_allocator P RP S) lay (w, m) =
     (case al_allocate P lay (wf_primary w, m) of
        (Inr b, p', m1) \<Rightarrow> (Inr b, w\<lparr>wf_primary := p'\<rparr>, m1)
      | (Inl e, p', m1) \<Rightarrow>
          (case al_allocate S lay (wf_secondary w, m1) of
             (r, s', m2) \<Rightarrow> (r, w\<lparr>wf_primary := p', wf_secondary := s'\<rparr>, m2)))"
  by (simp add: fallback_allocator_def fallback_allocate_def fallback_try_def via_def primary_put_def secondary_put_def
      split: prod.split sum.split)

definition fallback_inv ::
  "('p \<Rightarrow> mem \<Rightarrow> live \<Rightarrow> bool) \<Rightarrow> ('p \<Rightarrow> addr set) \<Rightarrow> ('s \<Rightarrow> mem \<Rightarrow> live \<Rightarrow> bool) \<Rightarrow> ('s \<Rightarrow> addr set) \<Rightarrow>
     ('p, 's) fallback \<Rightarrow> mem \<Rightarrow> live \<Rightarrow> bool" where
  "fallback_inv pinv pown sinv sown w m L \<longleftrightarrow>
     pown (wf_primary w) \<inter> sown (wf_secondary w) = {} \<and>
     (\<exists>LP LS. L = LP \<union> LS \<and> pinv (wf_primary w) m LP \<and> sinv (wf_secondary w) m LS)"

locale fallback_pair =
  P: owned_ranged P pinv pown RP + S: owned_contract S sinv sown
  for P :: "'p allocator" and pinv and pown and RP :: "'p fixed_range"
    and S :: "'s allocator" and sinv and sown
begin

lemma pair_footprints:
  assumes "pinv p m LP" "sinv s m LS" "pown p \<inter> sown s = {}"
  shows "footprint LP \<inter> footprint LS = {}" "LP \<inter> LS = {}"
proof -
  show d: "footprint LP \<inter> footprint LS = {}"
    using P.own_live [OF assms(1)] S.own_live [OF assms(2)] assms(3) by blast
  show "LP \<inter> LS = {}"
  proof (rule ccontr)
    assume "LP \<inter> LS \<noteq> {}"
    then obtain q lay n where b: "(q, lay, n) \<in> LP" "(q, lay, n) \<in> LS" by auto
    have "q \<in> span q n" by (rule span_base) (rule block_okD(7) [OF P.inv_block [OF assms(1) b(1)]])
    then show False using d span_footprint [OF b(1)] span_footprint [OF b(2)] by blast
  qed
qed

lemma pair_live_ok:
  assumes "pinv p m LP" "sinv s m LS" "pown p \<inter> sown s = {}"
  shows "live_ok (LP \<union> LS)"
  using live_ok_Un P.inv_live [OF assms(1)] S.inv_live [OF assms(2)] pair_footprints(1) [OF assms]
  by blast

text \<open>The routing test is right about every live block.\<close>

lemma routes_primary:
  assumes "pinv p m LP" "(q, lay, n) \<in> LP"
  shows "fr_contains RP p q"
  using P.in_range [OF assms(1)] span_footprint [OF assms(2)]
    span_base [of n q] block_okD(7) [OF P.inv_block [OF assms]]
  by (auto simp: fr_contains_span)

lemma routes_secondary:
  assumes "pinv p m LP" "sinv s m LS" "pown p \<inter> sown s = {}" "(q, lay, n) \<in> LS"
  shows "\<not> fr_contains RP p q"
  using P.range_own [OF assms(1)] S.own_live [OF assms(2)] span_footprint [OF assms(4)] assms(3)
    span_base [of n q] block_okD(7) [OF S.inv_block [OF assms(2,4)]]
  by (auto simp: fr_contains_span)

abbreviation winv where
  "winv \<equiv> fallback_inv pinv pown sinv sown"

text \<open>One allocation attempt, given what each half's attempt promises.\<close>

lemma fallback_try_post:
  assumes inv: "pinv (wf_primary w) m LP" "sinv (wf_secondary w) m LS"
    and dj: "pown (wf_primary w) \<inter> sown (wf_secondary w) = {}"
    and p: "alloc_post pinv LP lay m (f (wf_primary w, m))"
      "\<And>r p' m'. f (wf_primary w, m) = (r, p', m') \<Longrightarrow>
        pown p' = pown (wf_primary w) \<and> same_on (- pown (wf_primary w)) m m'"
    and s: "\<And>m. sinv (wf_secondary w) m LS \<Longrightarrow> alloc_post sinv LS lay m (g (wf_secondary w, m))"
      "\<And>m r s' m'. sinv (wf_secondary w) m LS \<Longrightarrow> g (wf_secondary w, m) = (r, s', m') \<Longrightarrow>
        sown s' = sown (wf_secondary w) \<and> same_on (- sown (wf_secondary w)) m m'"
  shows "alloc_post winv (LP \<union> LS) lay m (fallback_try f g (w, m))"
proof -
  obtain r p' m1 where f: "f (wf_primary w, m) = (r, p', m1)"
    by (cases "f (wf_primary w, m)") auto
  note po = p(2) [OF f]
  have s1: "sinv (wf_secondary w) m1 LS"
    by (rule S.own_elsewhere [OF inv(2), of "pown (wf_primary w)"]) (use po dj in auto)
  have fp: "footprint (LP \<union> LS) = footprint LP \<union> footprint LS" by simp
  have sub: "footprint LP \<subseteq> pown (wf_primary w)" "footprint LS \<subseteq> sown (wf_secondary w)"
    using P.own_live [OF inv(1)] S.own_live [OF inv(2)] by auto
  have same1: "same_on (footprint LP) m m1" "same_on (footprint LS) m m1"
    using p(1) f sub po dj
    by (auto simp: alloc_post_def same_on_def split: sum.splits)
  show ?thesis
  proof (cases r)
    case (Inr b)
    obtain q n where b: "b = (q, n)" by (cases b)
    have q: "block_ok lay q n" "span q n \<inter> footprint LP = {}" "pinv p' m1 (insert (q, lay, n) LP)"
      using p(1) f Inr b by (auto simp: alloc_post_def)
    have "span q n \<subseteq> pown (wf_primary w)" using P.own_live [OF q(3)] po by auto
    then have "span q n \<inter> footprint LS = {}" using sub dj by blast
    moreover have "winv (primary_put p' w) m1 (insert (q, lay, n) (LP \<union> LS))"
      using q(3) s1 po dj unfolding fallback_inv_def
      by (intro conjI exI [of _ "insert (q, lay, n) LP"] exI [of _ LS]) (auto simp: primary_put_def)
    ultimately show ?thesis
      using f Inr b q same1 fp
      by (auto simp: fallback_try_def via_def alloc_post_def same_on_def)
  next
    case (Inl e)
    have p1: "pinv p' m1 LP" using p(1) f Inl by (simp add: alloc_post_def)
    obtain r2 s' m2 where g: "g (wf_secondary w, m1) = (r2, s', m2)"
      by (cases "g (wf_secondary w, m1)") auto
    note so = s(2) [OF s1 g] and sp = s(1) [OF s1, unfolded g]
    have p2: "pinv p' m2 LP"
      by (rule P.own_elsewhere [OF p1, of "sown (wf_secondary w)"]) (use so po dj in auto)
    have same2: "same_on (footprint LP) m1 m2" "same_on (footprint LS) m1 m2"
      using sp sub so dj by (auto simp: alloc_post_def same_on_def split: sum.splits)
    have same: "same_on (footprint (LP \<union> LS)) m m2"
      using same1 same2 fp by (auto simp: same_on_def)
    show ?thesis
    proof (cases r2)
      case (Inl e')
      then have "sinv s' m2 LS" using sp by (simp add: alloc_post_def)
      then have "winv (secondary_put s' (primary_put p' w)) m2 (LP \<union> LS)"
        using p2 po so dj unfolding fallback_inv_def
        by (intro conjI exI [of _ LP] exI [of _ LS]) (auto simp: primary_put_def secondary_put_def)
      then show ?thesis
        using f \<open>r = Inl e\<close> g Inl same
        by (simp add: fallback_try_def via_def alloc_post_def primary_put_def)
    next
      case (Inr b)
      obtain q n where b: "b = (q, n)" by (cases b)
      have q: "block_ok lay q n" "span q n \<inter> footprint LS = {}" "sinv s' m2 (insert (q, lay, n) LS)"
        using sp Inr b by (auto simp: alloc_post_def)
      have "span q n \<subseteq> sown (wf_secondary w)" using S.own_live [OF q(3)] so by auto
      then have "span q n \<inter> footprint LP = {}" using sub dj by blast
      moreover have "winv (secondary_put s' (primary_put p' w)) m2 (insert (q, lay, n) (LP \<union> LS))"
        using q(3) p2 po so dj unfolding fallback_inv_def
        by (intro conjI exI [of _ LP] exI [of _ "insert (q, lay, n) LS"])
          (auto simp: primary_put_def secondary_put_def)
      ultimately show ?thesis
        using f \<open>r = Inl e\<close> g Inr b q same fp
        by (auto simp: fallback_try_def via_def alloc_post_def primary_put_def)
    qed
  qed
qed

lemma fallback_deallocate_post:
  assumes inv: "winv w m L" and mem: "(q, lay, n) \<in> L"
  shows "dealloc_post winv (L - {(q, lay, n)}) m (fallback_deallocate P RP S q lay (w, m))"
proof -
  obtain LP LS where L: "L = LP \<union> LS" and dj: "pown (wf_primary w) \<inter> sown (wf_secondary w) = {}"
    and i: "pinv (wf_primary w) m LP" "sinv (wf_secondary w) m LS"
    using inv by (auto simp: fallback_inv_def)
  note d = pair_footprints [OF i dj]
  have sub: "footprint LP \<subseteq> pown (wf_primary w)" "footprint LS \<subseteq> sown (wf_secondary w)"
    using P.own_live [OF i(1)] S.own_live [OF i(2)] by auto
  show ?thesis
  proof (cases "(q, lay, n) \<in> LP")
    case True
    let ?K = "LP - {(q, lay, n)}"
    have K: "L - {(q, lay, n)} = ?K \<union> LS" using L True d(2) by auto
    obtain p' m' where p': "al_deallocate P q lay (wf_primary w, m) = Done (p', m')" "pinv p' m' ?K"
      "same_on (footprint ?K) m m'"
      using P.deallocate [OF i(1) True] by (auto simp: dealloc_post_def split: outcome.splits)
    note o = P.own_deallocate [OF i(1) True p'(1)]
    have "sinv (wf_secondary w) m' LS"
      by (rule S.own_elsewhere [OF i(2), of "pown (wf_primary w)"]) (use o dj in auto)
    then have "winv (primary_put p' w) m' (?K \<union> LS)"
      using p'(2) o dj unfolding fallback_inv_def
      by (intro conjI exI [of _ ?K] exI [of _ LS]) (auto simp: primary_put_def)
    moreover have "same_on (footprint (?K \<union> LS)) m m'"
      using p'(3) o sub(2) dj by (auto simp: same_on_def)
    ultimately show ?thesis
      unfolding K using p'(1) routes_primary [OF i(1) True]
      by (simp add: fallback_deallocate_def via_out_def dealloc_post_def)
  next
    case False
    then have memS: "(q, lay, n) \<in> LS" using mem L by simp
    let ?K = "LS - {(q, lay, n)}"
    have K: "L - {(q, lay, n)} = LP \<union> ?K" using L False by auto
    obtain s' m' where s': "al_deallocate S q lay (wf_secondary w, m) = Done (s', m')" "sinv s' m' ?K"
      "same_on (footprint ?K) m m'"
      using S.deallocate [OF i(2) memS] by (auto simp: dealloc_post_def split: outcome.splits)
    note o = S.own_deallocate [OF i(2) memS s'(1)]
    have "pinv (wf_primary w) m' LP"
      by (rule P.own_elsewhere [OF i(1), of "sown (wf_secondary w)"]) (use o dj in auto)
    then have "winv (secondary_put s' w) m' (LP \<union> ?K)"
      using s'(2) o dj unfolding fallback_inv_def
      by (intro conjI exI [of _ LP] exI [of _ ?K]) (auto simp: secondary_put_def)
    moreover have "same_on (footprint (LP \<union> ?K)) m m'"
      using s'(3) o sub(1) dj by (auto simp: same_on_def)
    ultimately show ?thesis
      unfolding K using s'(1) routes_secondary [OF i dj memS]
      by (simp add: fallback_deallocate_def via_out_def dealloc_post_def)
  qed
qed

lemma fallback_allocate_post:
  assumes inv: "winv w m L" and lay: "valid_layout lay"
  shows "alloc_post winv L lay m (fallback_allocate P S lay (w, m))"
    "alloc_post winv L lay m (fallback_allocate_zeroed P S lay (w, m))"
proof -
  obtain LP LS where L: "L = LP \<union> LS" and dj: "pown (wf_primary w) \<inter> sown (wf_secondary w) = {}"
    and i: "pinv (wf_primary w) m LP" "sinv (wf_secondary w) m LS"
    using inv by (auto simp: fallback_inv_def)
  show "alloc_post winv L lay m (fallback_allocate P S lay (w, m))"
    unfolding L fallback_allocate_def
    by (rule fallback_try_post [where f = "al_allocate P lay" and g = "al_allocate S lay",
        OF i dj P.allocate [OF i(1) lay] P.own_allocate [OF i(1) lay]
        S.allocate [OF _ lay] S.own_allocate [OF _ lay]])
  show "alloc_post winv L lay m (fallback_allocate_zeroed P S lay (w, m))"
    unfolding L fallback_allocate_zeroed_def
    by (rule fallback_try_post [where f = "al_allocate_zeroed P lay" and g = "al_allocate_zeroed S lay",
        OF i dj P.allocate_zeroed [OF i(1) lay, THEN conjunct1]
        P.own_zeroed [OF i(1) lay] S.allocate_zeroed [OF _ lay, THEN conjunct1]
        S.own_zeroed [OF _ lay]])
qed

lemma fallback_zeroed_post:
  assumes inv: "winv w m L" and lay: "valid_layout lay"
  shows "zeroed_post lay (fallback_allocate_zeroed P S lay (w, m))"
proof -
  obtain LP LS where L: "L = LP \<union> LS" and dj: "pown (wf_primary w) \<inter> sown (wf_secondary w) = {}"
    and i: "pinv (wf_primary w) m LP" "sinv (wf_secondary w) m LS"
    using inv by (auto simp: fallback_inv_def)
  obtain r p' m1 where f: "al_allocate_zeroed P lay (wf_primary w, m) = (r, p', m1)"
    by (cases "al_allocate_zeroed P lay (wf_primary w, m)") auto
  have s1: "sinv (wf_secondary w) m1 LS"
    using P.own_zeroed [OF i(1) lay f] dj
    by (intro S.own_elsewhere [OF i(2), of "pown (wf_primary w)" m1]) auto
  show ?thesis
    using P.allocate_zeroed [OF i(1) lay] S.allocate_zeroed [OF s1 lay] f
    by (cases r; cases "al_allocate_zeroed S lay (wf_secondary w, m1)")
      (auto simp: fallback_allocate_zeroed_def fallback_try_def via_def zeroed_post_def primary_put_def)
qed

lemma fallback_core:
  "allocator_core (fallback_allocate P S) (fallback_deallocate P RP S) (fallback_usable_size P RP S) winv"
proof
  fix w m L assume inv: "winv w m L"
  then obtain LP LS where L: "L = LP \<union> LS" and dj: "pown (wf_primary w) \<inter> sown (wf_secondary w) = {}"
    and i: "pinv (wf_primary w) m LP" "sinv (wf_secondary w) m LS"
    by (auto simp: fallback_inv_def)
  show "live_ok L" unfolding L by (rule pair_live_ok [OF i dj])
  show "winv w m' L" if same: "same_on (- footprint L) m m'" for m'
  proof -
    define m1 where "m1 = (\<lambda>a. if a \<in> footprint LP then m' a else m a)"
    have fp: "footprint L = footprint LP \<union> footprint LS" by (simp add: L)
    have "pinv (wf_primary w) m1 LP"
      by (rule P.user_write [OF i(1)]) (auto simp: m1_def same_on_def)
    then have p: "pinv (wf_primary w) m' LP"
      by (rule P.own_elsewhere [of _ _ _ "sown (wf_secondary w)"])
        (use same dj S.own_live [OF i(2)] fp in \<open>auto simp: m1_def same_on_def\<close>)
    define m2 where "m2 = (\<lambda>a. if a \<in> footprint LS then m' a else m a)"
    have "sinv (wf_secondary w) m2 LS"
      by (rule S.user_write [OF i(2)]) (auto simp: m2_def same_on_def)
    then have "sinv (wf_secondary w) m' LS"
      by (rule S.own_elsewhere [of _ _ _ "pown (wf_primary w)"])
        (use same dj P.own_live [OF i(1)] fp in \<open>auto simp: m2_def same_on_def\<close>)
    then show ?thesis using p L dj by (auto simp: fallback_inv_def)
  qed
  show "lay_size lay \<le> k \<and> k \<le> n"
    if mem: "(q, lay, n) \<in> L" and k: "fallback_usable_size P RP S w q lay = Some k" for q lay n k
  proof (cases "(q, lay, n) \<in> LP")
    case True
    then show ?thesis
      using P.usable_size [OF i(1) True] routes_primary [OF i(1) True] k
      by (simp add: fallback_usable_size_def)
  next
    case False
    then have memS: "(q, lay, n) \<in> LS" using mem L by simp
    show ?thesis
      using S.usable_size [OF i(2) memS] routes_secondary [OF i dj memS] k
      by (simp add: fallback_usable_size_def)
  qed
qed (use fallback_allocate_post fallback_deallocate_post in auto)

lemma fallback_contract: "allocator_contract (fallback_allocator P RP S) winv"
  by (rule wrapper_contractI)
    (use fallback_core fallback_allocate_post(2) fallback_zeroed_post in
      \<open>auto simp: fallback_allocator_def default_reset_def\<close>)

text \<open>The routing of the blocks there are is not disturbed by an allocation, nor by its failure.\<close>

lemma fallback_allocate_routes:
  assumes i: "pinv (wf_primary w) m LP" "sinv (wf_secondary w) m LS"
    and dj: "pown (wf_primary w) \<inter> sown (wf_secondary w) = {}" and lay: "valid_layout lay"
    and al: "fallback_allocate P S lay (w, m) = (r, w', m')"
  shows "(q, l, n) \<in> LP \<Longrightarrow> fr_contains RP (wf_primary w') q"
    "(q, l, n) \<in> LS \<Longrightarrow> \<not> fr_contains RP (wf_primary w') q"
proof -
  obtain r1 p' m1 where f: "al_allocate P lay (wf_primary w, m) = (r1, p', m1)"
    by (cases "al_allocate P lay (wf_primary w, m)") auto
  have w': "wf_primary w' = p'"
    using al f by (auto simp: fallback_allocate_def fallback_try_def via_def primary_put_def secondary_put_def
        split: sum.splits prod.splits)
  note o = P.own_allocate [OF i(1) lay f]
  have s1: "sinv (wf_secondary w) m1 LS"
    by (rule S.own_elsewhere [OF i(2), of "pown (wf_primary w)"]) (use o dj in auto)
  obtain LP' where p': "pinv p' m1 LP'" "LP \<subseteq> LP'"
    using P.allocate [OF i(1) lay] f by (auto simp: alloc_post_def split: sum.splits)
  show "fr_contains RP (wf_primary w') q" if "(q, l, n) \<in> LP"
    unfolding w' by (rule routes_primary [OF p'(1)]) (use that p'(2) in blast)
  show "\<not> fr_contains RP (wf_primary w') q" if "(q, l, n) \<in> LS"
    unfolding w' by (rule routes_secondary [OF p'(1) s1 _ that]) (use o dj in blast)
qed

text \<open>
  The issuer of a block is told by its address: its free, its size query and the free at the end of a
  resize are the issuer's, while the new block of a resize is the primary's whenever that has room.
\<close>

lemma fallback_routing:
  assumes inv: "winv w m L"
  shows "\<exists>LP LS. L = LP \<union> LS \<and> pinv (wf_primary w) m LP \<and> sinv (wf_secondary w) m LS \<and>
    (\<forall>(q, lay, n) \<in> LP. routed_to P RP S (primary_free P) (al_usable_size P (wf_primary w)) (w, m) q lay) \<and>
    (\<forall>(q, lay, n) \<in> LS. routed_to P RP S (secondary_free S) (al_usable_size S (wf_secondary w)) (w, m) q lay)"
proof -
  obtain LP LS where L: "L = LP \<union> LS" and dj: "pown (wf_primary w) \<inter> sown (wf_secondary w) = {}"
    and i: "pinv (wf_primary w) m LP" "sinv (wf_secondary w) m LS"
    using inv by (auto simp: fallback_inv_def)
  have d: "fallback_deallocate P RP S q lay (v, m2) =
      (if fr_contains RP (wf_primary v) q then primary_free P q lay (v, m2) else secondary_free S q lay (v, m2))"
    for q lay v m2
    by (simp add: fallback_deallocate_def primary_free_def secondary_free_def)
  have lp: "routed_to P RP S (primary_free P) (al_usable_size P (wf_primary w)) (w, m) q lay"
    if mem: "(q, lay, n) \<in> LP" for q lay n
  proof -
    have eq: "fallback_deallocate P RP S q lay (w', m2) = primary_free P q lay (w', m2)"
      if "valid_layout new" "fallback_allocate P S new (w, m) = (r, w', m')" for new r w' m' m2
      using fallback_allocate_routes(1) [OF i dj that mem] by (simp add: d)
    note resize = default_resize_cong [where dealloc = "fallback_deallocate P RP S" and dealloc' = "primary_free P",
        where p = q and old = lay]
    show ?thesis
      unfolding routed_to_def fst_conv
    proof (intro conjI allI impI)
      fix new assume new: "valid_layout new"
      show "al_grow (fallback_allocator P RP S) q lay new (w, m) =
          default_grow (fallback_allocate P S) (primary_free P) q lay new (w, m)"
        "al_shrink (fallback_allocator P RP S) q lay new (w, m) =
          default_shrink (fallback_allocate P S) (primary_free P) q lay new (w, m)"
        unfolding fallback_allocator_def allocator.simps by (rule resize; rule eq [OF new]; assumption)+
    qed (use routes_primary [OF i(1) mem] in \<open>simp_all add: d fallback_usable_size_def fallback_allocator_def\<close>)
  qed
  have ls: "routed_to P RP S (secondary_free S) (al_usable_size S (wf_secondary w)) (w, m) q lay"
    if mem: "(q, lay, n) \<in> LS" for q lay n
  proof -
    have eq: "fallback_deallocate P RP S q lay (w', m2) = secondary_free S q lay (w', m2)"
      if "valid_layout new" "fallback_allocate P S new (w, m) = (r, w', m')" for new r w' m' m2
      using fallback_allocate_routes(2) [OF i dj that mem] by (simp add: d)
    note resize = default_resize_cong [where dealloc = "fallback_deallocate P RP S" and dealloc' = "secondary_free S",
        where p = q and old = lay]
    show ?thesis
      unfolding routed_to_def fst_conv
    proof (intro conjI allI impI)
      fix new assume new: "valid_layout new"
      show "al_grow (fallback_allocator P RP S) q lay new (w, m) =
          default_grow (fallback_allocate P S) (secondary_free S) q lay new (w, m)"
        "al_shrink (fallback_allocator P RP S) q lay new (w, m) =
          default_shrink (fallback_allocate P S) (secondary_free S) q lay new (w, m)"
        unfolding fallback_allocator_def allocator.simps by (rule resize; rule eq [OF new]; assumption)+
    qed (use routes_secondary [OF i dj mem] in \<open>simp_all add: d fallback_usable_size_def fallback_allocator_def\<close>)
  qed
  show ?thesis using L i lp ls by (intro exI conjI ballI) auto
qed

end

interpretation bump_over_inline: fallback_pair
  "bump_allocator (inline_range N)" "bump_inv (inline_range N) (inline_placed N)"
  "bump_own (inline_range N)" "bump_range (inline_range N)"
  "inline_allocator K" "inline_inv K" "inline_own K"
  by (intro fallback_pair.intro bump_owned_ranged inline_range.fixed_range_contract_axioms inline_owned)

end

