(* ===== verification/Instrument_Properties.thy ===== *)
theory Instrument_Properties
  imports Examples Watermark Fallback
begin

text \<open>
  The properties of the observing wrappers (\<open>Statistics\<close>, \<open>Watermark\<close>) and of \<open>WithFallback\<close>.
\<close>

section \<open>Statistics\<close>

definition demo_statistics :: "inline_backed statistics" where
  "demo_statistics = statistics_new demo_inline"

lemma demo_statistics_ok: "statistics_inv (inline_inv 256) demo_statistics m {}"
  using demo_inline_ok
  by (simp add: statistics_inv_def demo_statistics_def statistics_new_def stats_exact_def
      alloc_stats_new_def live_bytes_def)

text \<open>
  \<open>Statistics\<close> meets the \<open>Allocator\<close> contract over any inner allocator that does, and keeps
  its counters exact: in every state a well-behaved client reaches, \<open>current_bytes\<close> is the sum of
  the sizes of the live blocks (no wrap, no drift through \<open>grow\<close>, \<open>shrink\<close> or failures), the peak
  is at least that, and the totals differ by the number of live blocks.
\<close>

theorem statistics_exact:
  assumes "allocator_contract A ainv" "statistics_inv ainv w m L"
    "client_run (statistics_allocator A) (w, m, L) k (w', m', L')"
  shows "allocator_contract (statistics_allocator A) (statistics_inv ainv) \<and>
    unat (stats_current_bytes (sx_stats w')) = live_bytes L' \<and>
    stats_current_bytes (sx_stats w') \<le> stats_peak_bytes (sx_stats w') \<and>
    as_total_allocations (sx_stats w') - as_total_deallocations (sx_stats w') = word_of_nat (card L')"
proof -
  note c = allocator_contract.statistics_contract [OF assms(1)]
  show ?thesis
    using c allocator_contract.client_run_inv [OF c assms(3,2)]
    by (simp add: statistics_inv_def stats_exact_def stats_current_bytes_def stats_peak_bytes_def)
qed

theorem statistics_exact_witness:
  "\<exists>w'. client_run (statistics_allocator (inline_allocator 256)) (demo_statistics, zero_mem, {}) 0
       (w', zero_mem, demo_block) \<and> unat (stats_current_bytes (sx_stats w')) = live_bytes demo_block"
proof -
  let ?A = "statistics_allocator (inline_allocator 256)"
  have "al_allocate ?A demo_layout (demo_statistics, zero_mem) =
      (Inr (4096, 8), fst (snd (al_allocate ?A demo_layout (demo_statistics, zero_mem))), zero_mem)"
    by (simp add: statistics_allocator_def statistics_allocate_def via_def demo_statistics_def
        statistics_new_def inline_allocator_def demo_inline1_allocate Let_def)
  from client_step.alloc_ok [OF demo_layout_ok this, of "{}"]
  have "client_run ?A (demo_statistics, zero_mem, {}) 0
      (fst (snd (al_allocate ?A demo_layout (demo_statistics, zero_mem))), zero_mem, demo_block)"
    using client_run.snoc [OF client_run.nil] by (fastforce simp: demo_block_def)
  then show ?thesis
    using statistics_exact [OF inline.allocator_contract_axioms demo_statistics_ok] by blast
qed

section \<open>Watermark\<close>

definition demo_watermark :: "inline_backed watermark" where
  "demo_watermark = watermark_new (inline_allocator 256) demo_inline"

text \<open>
  The handler is called at most once per level between two rearms: from a rearmed wrapper,
  through any run of a client, at most one warning and at most one critical event are added.
\<close>

theorem watermark_fires_once:
  assumes "client_run (watermark_allocator I) (watermark_rearm w, m, L) j (w', m', L')"
  shows "calls_since (length (wm_handled w)) Warn w' \<le> 1 \<and>
    calls_since (length (wm_handled w)) Critical w' \<le> 1"
proof -
  have "fires_once (length (wm_handled w)) w'"
    using watermark_run_once [OF assms, of "length (wm_handled w)"] fires_once_rearm [of w] by simp
  then show ?thesis by (auto simp: fires_once_def split: if_splits)
qed

theorem watermark_fires_once_witness:
  "\<exists>w'. client_run (watermark_allocator (inline_allocator 256))
       (watermark_rearm demo_watermark, zero_mem, {}) 0 (w', zero_mem, {(4096, \<lparr>lay_size = 250, lay_align = 8\<rparr>, 250)}) \<and>
     calls_since (length (wm_handled demo_watermark)) Critical w' = 1"
proof -
  let ?A = "watermark_allocator (inline_allocator 256)"
  let ?lay = "\<lparr>lay_size = 250, lay_align = 8\<rparr> :: layout"
  let ?w = "fst (snd (al_allocate ?A ?lay (watermark_rearm demo_watermark, zero_mem)))"
  note defs = watermark_allocator_def watermark_allocate_def via_def demo_watermark_def
    watermark_new_def watermark_with_thresholds_def watermark_rearm_def watermark_put_def
    inline_allocator_def inline_eval default_thresholds_def
  have a: "al_allocate ?A ?lay (watermark_rearm demo_watermark, zero_mem) = (Inr (4096, 250), ?w, zero_mem)"
    by (simp add: defs)
  have v: "valid_layout ?lay" by (simp add: valid_layout_def)
  have r: "client_run ?A (watermark_rearm demo_watermark, zero_mem, {}) 0 (?w, zero_mem, {(4096, ?lay, 250)})"
    using client_run.snoc [OF client_run.nil client_step.alloc_ok [OF v a, of "{}"]] by simp
  have "calls_since (length (wm_handled demo_watermark)) Critical ?w \<ge> 1"
    by (simp add: defs calls_since_def check_and_fire_def current_capacity_def handle_def
        saturating_add_def FIRED_CRITICAL_def FIRED_WARN_def)
  then have "calls_since (length (wm_handled demo_watermark)) Critical ?w = 1"
    using watermark_fires_once [OF r] by linarith
  with r show ?thesis by blast
qed

text \<open>
  The fast path of \<open>allocate\<close> is sound: below the byte threshold computed once at construction
  the full check would do nothing, as long as the capacity has not shrunk since.
\<close>

theorem watermark_gate_sound:
  assumes "w0 = watermark_with_thresholds I i0 th" "al_capacity_bytes I i0 = Some c" "c \<noteq> usize_max"
    "wm_thresholds w = th" "wm_warn_threshold_bytes w = wm_warn_threshold_bytes w0"
    "c \<le> current_capacity I w" "b < wm_warn_threshold_bytes w"
  shows "check_and_fire I b q w = w"
  by (rule watermark_gate [OF assms])

theorem watermark_gate_sound_witness:
  "check_and_fire (inline_allocator 256) 191 None demo_watermark = demo_watermark"
  by (rule watermark_gate_sound [OF _ _ _ _ _ _, of demo_watermark "inline_allocator 256" demo_inline
        default_thresholds 256])
    (simp_all add: demo_watermark_def watermark_new_def watermark_with_thresholds_def
      inline_allocator_def default_thresholds_def current_capacity_def)

section \<open>Fallback\<close>

text \<open>
  C8. \<open>WithFallback\<close> meets the \<open>Allocator\<close> contract over a primary and a secondary that own disjoint
  memory. An allocation tries the primary first and the secondary when the primary refuses, whatever
  state the refusal left. Every live block is the primary's or the secondary's, and its free and its size
  query go to the one that issued it. A resize is the trait's default: it allocates the new block primary
  first, so that a block of the secondary may move to the primary, copies, and frees the old block at the
  allocator that issued it.
\<close>

theorem fallback_correct:
  assumes "owned_ranged P pinv pown RP" "owned_contract S sinv sown"
  shows "allocator_contract (fallback_allocator P RP S) (fallback_inv pinv pown sinv sown) \<and>
    (\<forall>lay w m. al_allocate (fallback_allocator P RP S) lay (w, m) =
      (case al_allocate P lay (wf_primary w, m) of
         (Inr b, p', m1) \<Rightarrow> (Inr b, w\<lparr>wf_primary := p'\<rparr>, m1)
       | (Inl e, p', m1) \<Rightarrow>
           (case al_allocate S lay (wf_secondary w, m1) of
              (r, s', m2) \<Rightarrow> (r, w\<lparr>wf_primary := p', wf_secondary := s'\<rparr>, m2)))) \<and>
    (\<forall>w m L. fallback_inv pinv pown sinv sown w m L \<longrightarrow>
      (\<exists>LP LS. L = LP \<union> LS \<and> pinv (wf_primary w) m LP \<and> sinv (wf_secondary w) m LS \<and>
        (\<forall>(q, lay, n) \<in> LP. routed_to P RP S (primary_free P) (al_usable_size P (wf_primary w)) (w, m) q lay) \<and>
        (\<forall>(q, lay, n) \<in> LS. routed_to P RP S (secondary_free S) (al_usable_size S (wf_secondary w)) (w, m) q lay)))"
proof -
  have fp: "fallback_pair P pinv pown RP S sinv sown" using assms by (rule fallback_pair.intro)
  show ?thesis
    by (intro conjI allI impI)
      (rule fallback_pair.fallback_contract [OF fp] fallback_allocate_order fallback_pair.fallback_routing [OF fp]; assumption?)+
qed

theorem fallback_correct_witness:
  "allocator_contract (fallback_allocator (inline_allocator 256) (inline_range 256) (inline_allocator 64))
     (fallback_inv (inline_inv 256) (inline_own 256) (inline_inv 64) (inline_own 64)) \<and>
   fallback_inv (inline_inv 256) (inline_own 256) (inline_inv 64) (inline_own 64)
     (fallback_new demo_inline1 (inline_new 8192)) zero_mem demo_block"
proof -
  have "inline_inv 64 (inline_new 8192) zero_mem {}"
    by (simp add: inline_inv_def inline_placed_def inline_new_def no_wrap_def)
  moreover have "span (4096 :: addr) 256 \<inter> span 8192 64 = {}"
    by (rule span_disjointI) (simp_all add: no_wrap_def)
  ultimately have "fallback_inv (inline_inv 256) (inline_own 256) (inline_inv 64) (inline_own 64)
      (fallback_new demo_inline1 (inline_new 8192)) zero_mem demo_block"
    using demo_inline1_ok [of zero_mem]
    by (auto simp: fallback_inv_def fallback_new_def inline_own_def demo_inline1_def inline_new_def)
  then show ?thesis
    using fallback_correct [OF inline_owned_ranged.owned_ranged_axioms inline_owned.owned_contract_axioms]
    by blast
qed

text \<open>
  The disjointness test of \<open>try_new\<close> accepts only disjoint ranges, and accepts every pair of
  disjoint non-empty ranges whose ends do not wrap.
\<close>

theorem fallback_try_new_exact:
  fixes RP :: "'p fixed_range" and RS :: "'s fixed_range"
  assumes "unat (fr_base RP p) + unat (fr_size RP p) < 2 ^ 64" "fr_size RP p \<noteq> 0"
    "unat (fr_base RS s) + unat (fr_size RS s) < 2 ^ 64" "fr_size RS s \<noteq> 0"
  shows "fallback_try_new RP RS p s =
    (if \<forall>a. \<not> (fr_contains RP p a \<and> fr_contains RS s a)
     then Inr (fallback_new p s) else Inl AllocError)"
  using ranges_disjoint_iff [of RP "fallback_new p s" RS] assms
  by (simp add: fallback_try_new_def fallback_new_def)

theorem fallback_try_new_exact_witness:
  "fallback_try_new (inline_range 256) (inline_range 64) demo_inline1 (inline_new 4100) = Inl AllocError"
proof -
  have "fr_contains (inline_range 256) demo_inline1 4100" "fr_contains (inline_range 64) (inline_new 4100) 4100"
    by (simp_all add: fr_contains_def inline_range_def demo_inline1_def inline_new_def)
  then show ?thesis
    using fallback_try_new_exact [of "inline_range 256" demo_inline1 "inline_range 64" "inline_new 4100"]
    by (auto simp: inline_range_def demo_inline1_def inline_new_def)
qed

end
