(* ===== verification/Generational.thy ===== *)
theory Generational
  imports Slot_Region
begin

text \<open>
  \<open>forge-alloc/src/layout/generational.rs\<close>: a slab addressed by generation-checked handles. The
  slot array inside the backing block is the list \<open>gs_slots\<close> of typed slots; the type
  \<open>'g\<close> of the generation counter is a word (\<open>u32\<close> or \<open>u64\<close> in the source), and \<open>S\<close> is the layout of
  \<open>GenerationalSlot<T, G>\<close>. All mutation goes through \<open>&mut self\<close>.
\<close>

section \<open>State and operations\<close>

record 'g gen_handle =
  hd_index :: u32
  hd_generation :: 'g

datatype 'v slot_state = Occupied 'v | Free "u32 option"

record ('v, 'g) gen_slot =
  gt_generation :: 'g
  gt_state :: "'v slot_state"

record ('b, 'v, 'g) gen_slab =
  gs_backing :: 'b
  gs_slots_offset :: usize
  gs_capacity :: u32
  gs_free_head :: "u32 option"
  gs_len :: u32
  gs_backing_layout :: layout
  gs_slots :: "('v, 'g) gen_slot list"

definition gen_with_generation ::
  "'b allocator \<Rightarrow> 'b fixed_range \<Rightarrow> type_layout \<Rightarrow> usize \<Rightarrow> 'b \<times> mem \<Rightarrow>
     ('b, 'v, 'w::len word) gen_slab res \<times> 'b \<times> mem" where
  "gen_with_generation B R S capacity s =
     (if capacity = 0 then (Inl AllocError, s)
      else if capacity > ucast (- 1 :: u32) then (Inl AllocError, s)
      else case array_layout S capacity of None \<Rightarrow> (Inl AllocError, s)
      | Some lay \<Rightarrow>
          case al_allocate B lay s of (Inl e, s') \<Rightarrow> (Inl e, s')
          | (Inr (slots_addr, n), b, m) \<Rightarrow>
              (Inr \<lparr>gs_backing = b, gs_slots_offset = slots_addr - fr_base R b,
                    gs_capacity = ucast capacity, gs_free_head = None, gs_len = 0,
                    gs_backing_layout = lay,
                    gs_slots = replicate (unat capacity)
                      \<lparr>gt_generation = 0, gt_state = Free None\<rparr>\<rparr>, b, m))"

definition gen_slots_ptr :: "'b fixed_range \<Rightarrow> ('b, 'v, 'g) gen_slab \<Rightarrow> addr" where
  "gen_slots_ptr R s = fr_base R (gs_backing s) + gs_slots_offset s"

definition slot_at :: "('b, 'v, 'g) gen_slab \<Rightarrow> u32 \<Rightarrow> ('v, 'g) gen_slot" where
  "slot_at s i = gs_slots s ! unat i"

definition slot_put :: "u32 \<Rightarrow> ('v, 'g) gen_slot \<Rightarrow> ('b, 'v, 'g) gen_slab \<Rightarrow> ('b, 'v, 'g) gen_slab" where
  "slot_put i t s = s\<lparr>gs_slots := (gs_slots s)[unat i := t]\<rparr>"

definition gen_fill ::
  "u32 \<Rightarrow> 'v \<Rightarrow> ('b, 'v, 'g) gen_slab \<Rightarrow> 'g gen_handle \<times> ('b, 'v, 'g) gen_slab" where
  "gen_fill i v s =
     (\<lparr>hd_index = i, hd_generation = gt_generation (slot_at s i)\<rparr>,
      slot_put i ((slot_at s i)\<lparr>gt_state := Occupied v\<rparr>) s)"

definition gen_insert ::
  "'v \<Rightarrow> ('b, 'v, 'g) gen_slab \<Rightarrow> 'g gen_handle res \<times> ('b, 'v, 'g) gen_slab" where
  "gen_insert v s0 =
     (let s = (case gs_free_head s0 of
                 Some idx \<Rightarrow> if idx \<ge> gs_capacity s0 then s0\<lparr>gs_free_head := None\<rparr> else s0
               | None \<Rightarrow> s0)
      in case gs_free_head s of
           Some idx \<Rightarrow>
             (case gt_state (slot_at s idx) of
                Free next_free \<Rightarrow>
                  (case gen_fill idx v (s\<lparr>gs_free_head := next_free\<rparr>) of (h, s') \<Rightarrow> (Inr h, s'))
              | Occupied _ \<Rightarrow> (Inl AllocError, s))
         | None \<Rightarrow>
             if gs_len s \<ge> gs_capacity s then (Inl AllocError, s)
             else (case gen_fill (gs_len s) v (s\<lparr>gs_len := gs_len s + 1\<rparr>) of (h, s') \<Rightarrow> (Inr h, s')))"

definition gen_get :: "('b, 'v, 'g) gen_slab \<Rightarrow> 'g gen_handle \<Rightarrow> 'v option" where
  "gen_get s h =
     (if hd_index h \<ge> gs_capacity s then None
      else if gt_generation (slot_at s (hd_index h)) \<noteq> hd_generation h then None
      else case gt_state (slot_at s (hd_index h)) of Occupied v \<Rightarrow> Some v | Free _ \<Rightarrow> None)"

text \<open>A write through the reference that \<open>get_mut\<close> returns.\<close>

definition gen_get_mut ::
  "'g gen_handle \<Rightarrow> 'v \<Rightarrow> ('b, 'v, 'g) gen_slab \<Rightarrow> 'v option \<times> ('b, 'v, 'g) gen_slab" where
  "gen_get_mut h w s =
     (if hd_index h \<ge> gs_capacity s then (None, s)
      else let t = slot_at s (hd_index h)
           in if gt_generation t \<noteq> hd_generation h then (None, s)
              else case gt_state t of
                     Occupied v \<Rightarrow> (Some v, slot_put (hd_index h) (t\<lparr>gt_state := Occupied w\<rparr>) s)
                   | Free _ \<Rightarrow> (None, s))"

definition gen_remove ::
  "'w::len word gen_handle \<Rightarrow> ('b, 'v, 'w word) gen_slab \<Rightarrow> 'v option \<times> ('b, 'v, 'w word) gen_slab" where
  "gen_remove h s =
     (if hd_index h \<ge> gs_capacity s then (None, s)
      else let t = slot_at s (hd_index h)
           in if gt_generation t \<noteq> hd_generation h then (None, s)
              else let next_gen = gt_generation t + 1;
                       s' = (if next_gen = 0
                             then slot_put (hd_index h)
                                    \<lparr>gt_generation = next_gen, gt_state = Free None\<rparr> s
                             else (slot_put (hd_index h)
                                    \<lparr>gt_generation = next_gen, gt_state = Free (gs_free_head s)\<rparr> s)
                                    \<lparr>gs_free_head := Some (hd_index h)\<rparr>)
                   in (case gt_state t of Occupied v \<Rightarrow> Some v | Free _ \<Rightarrow> None, s'))"

definition gen_contains :: "('b, 'v, 'g) gen_slab \<Rightarrow> 'g gen_handle \<Rightarrow> bool" where
  "gen_contains s h = (gen_get s h \<noteq> None)"

text \<open>\<open>Drop\<close>: the values whose destructors run, in order, and the backing after the free.\<close>

definition gen_drop ::
  "'b allocator \<Rightarrow> 'b fixed_range \<Rightarrow> ('b, 'v, 'g) gen_slab \<times> mem \<Rightarrow> 'v list \<times> ('b \<times> mem) outcome" where
  "gen_drop B R st =
     (case st of (s, m) \<Rightarrow>
        (concat (map (\<lambda>t. case gt_state t of Occupied v \<Rightarrow> [v] | Free _ \<Rightarrow> []) (gs_slots s)),
         al_deallocate B (gen_slots_ptr R s) (gs_backing_layout s) (gs_backing s, m)))"

section \<open>The invariant\<close>

fun gen_chain :: "(u32 \<Rightarrow> 'v slot_state) \<Rightarrow> u32 option \<Rightarrow> u32 list \<Rightarrow> bool" where
  "gen_chain f h [] \<longleftrightarrow> h = None"
| "gen_chain f h (i # is) \<longleftrightarrow> h = Some i \<and> (\<exists>nx. f i = Free nx \<and> gen_chain f nx is)"

definition gen_inv :: "('b, 'v, 'w::len word) gen_slab \<Rightarrow> bool" where
  "gen_inv s \<longleftrightarrow> length (gs_slots s) = unat (gs_capacity s) \<and> gs_len s \<le> gs_capacity s \<and>
     (\<forall>i. gs_len s \<le> i \<and> i < gs_capacity s \<longrightarrow>
        slot_at s i = \<lparr>gt_generation = 0, gt_state = Free None\<rparr>) \<and>
     (\<exists>fs. distinct fs \<and> (\<forall>i \<in> set fs. i < gs_len s) \<and>
        gen_chain (\<lambda>i. gt_state (slot_at s i)) (gs_free_head s) fs)"

lemma slot_at_put:
  "unat i < length (gs_slots s) \<Longrightarrow> slot_at (slot_put i t s) j = (if j = i then t else slot_at s j)"
  by (auto simp: slot_at_def slot_put_def nth_list_update word_unat_eq_iff)

lemma slot_put_frame [simp]:
  "gs_capacity (slot_put i t s) = gs_capacity s" "gs_len (slot_put i t s) = gs_len s"
  "gs_free_head (slot_put i t s) = gs_free_head s" "gs_backing (slot_put i t s) = gs_backing s"
  "gs_backing_layout (slot_put i t s) = gs_backing_layout s"
  "gs_slots_offset (slot_put i t s) = gs_slots_offset s"
  "length (gs_slots (slot_put i t s)) = length (gs_slots s)"
  by (simp_all add: slot_put_def)

lemma slot_at_update [simp]:
  "slot_at (s\<lparr>gs_free_head := f\<rparr>) = slot_at s" "slot_at (s\<lparr>gs_len := n\<rparr>) = slot_at s"
  by (simp_all add: slot_at_def fun_eq_iff)

lemma gen_chain_cong:
  "gen_chain f h fs \<Longrightarrow> (\<And>i. i \<in> set fs \<Longrightarrow> g i = f i) \<Longrightarrow> gen_chain g h fs"
  by (induction fs arbitrary: h) auto

lemma gen_chain_free: "gen_chain f h fs \<Longrightarrow> i \<in> set fs \<Longrightarrow> \<exists>nx. f i = Free nx"
  by (induction fs arbitrary: h) auto

lemma gen_invE:
  assumes "gen_inv s"
  obtains fs where "length (gs_slots s) = unat (gs_capacity s)" "gs_len s \<le> gs_capacity s"
    "\<And>i. gs_len s \<le> i \<Longrightarrow> i < gs_capacity s \<Longrightarrow>
       slot_at s i = \<lparr>gt_generation = 0, gt_state = Free None\<rparr>"
    "distinct fs" "\<And>i. i \<in> set fs \<Longrightarrow> i < gs_len s"
    "gen_chain (\<lambda>i. gt_state (slot_at s i)) (gs_free_head s) fs"
  using assms unfolding gen_inv_def by blast

lemma slot_at_put_inv:
  "length (gs_slots s) = unat (gs_capacity s) \<Longrightarrow> i < gs_capacity s \<Longrightarrow>
     slot_at (slot_put i t s) j = (if j = i then t else slot_at s j)"
  by (simp add: slot_at_put word_less_nat_alt)

lemma less_inc: "x < (c :: u32) \<Longrightarrow> x < x + 1"
  using unsigned_less [of c, where ?'a = nat] by (simp add: word_less_nat_alt unat_word_ariths)

text \<open>The three ways an insertion can go from a sound slab.\<close>

lemma gen_insert_cases:
  assumes "gen_inv s"
  obtains (pop) i nx where "gs_free_head s = Some i" "i < gs_len s" "gt_state (slot_at s i) = Free nx"
      "gen_insert v s = (Inr \<lparr>hd_index = i, hd_generation = gt_generation (slot_at s i)\<rparr>,
         slot_put i ((slot_at s i)\<lparr>gt_state := Occupied v\<rparr>) (s\<lparr>gs_free_head := nx\<rparr>))"
    | (carve) "gs_free_head s = None" "gs_len s < gs_capacity s"
      "slot_at s (gs_len s) = \<lparr>gt_generation = 0, gt_state = Free None\<rparr>"
      "gen_insert v s = (Inr \<lparr>hd_index = gs_len s, hd_generation = 0\<rparr>,
         slot_put (gs_len s) \<lparr>gt_generation = 0, gt_state = Occupied v\<rparr> (s\<lparr>gs_len := gs_len s + 1\<rparr>))"
    | (full) "gs_free_head s = None" "gs_len s = gs_capacity s" "gen_insert v s = (Inl AllocError, s)"
proof -
  obtain fs where fs: "gs_len s \<le> gs_capacity s"
    "\<And>i. gs_len s \<le> i \<Longrightarrow> i < gs_capacity s \<Longrightarrow>
       slot_at s i = \<lparr>gt_generation = 0, gt_state = Free None\<rparr>"
    "\<And>i. i \<in> set fs \<Longrightarrow> i < gs_len s"
    "gen_chain (\<lambda>i. gt_state (slot_at s i)) (gs_free_head s) fs"
    using assms by (rule gen_invE) blast
  show thesis
  proof (cases fs)
    case Nil
    then have h: "gs_free_head s = None" using fs(4) by simp
    show thesis
    proof (cases "gs_len s < gs_capacity s")
      case True
      with h fs(2) [of "gs_len s"] show thesis
        by (intro carve) (auto simp: gen_insert_def gen_fill_def Let_def)
    next
      case False
      with h fs(1) show thesis by (intro full) (auto simp: gen_insert_def Let_def)
    qed
  next
    case (Cons i fs')
    then obtain nx where h: "gs_free_head s = Some i" "gt_state (slot_at s i) = Free nx" "i < gs_len s"
      using fs(3,4) by auto
    moreover from h(3) fs(1) have "\<not> i \<ge> gs_capacity s" by (simp add: not_le)
    ultimately show thesis
      by (intro pop) (auto simp: gen_insert_def gen_fill_def Let_def)
  qed
qed

lemma gen_insert_inv:
  assumes inv: "gen_inv s" and ins: "gen_insert v s = (Inr h, s')"
  shows "gen_inv s'" "hd_index h < gs_len s'" "gs_capacity s' = gs_capacity s" "gs_len s \<le> gs_len s'"
    "\<exists>nx. gt_state (slot_at s (hd_index h)) = Free nx"
    "hd_generation h = gt_generation (slot_at s (hd_index h))"
    "slot_at s' = (slot_at s)(hd_index h := \<lparr>gt_generation = hd_generation h, gt_state = Occupied v\<rparr>)"
proof -
  obtain fs where len: "length (gs_slots s) = unat (gs_capacity s)" and le: "gs_len s \<le> gs_capacity s"
    and fresh: "\<And>i. gs_len s \<le> i \<Longrightarrow> i < gs_capacity s \<Longrightarrow>
       slot_at s i = \<lparr>gt_generation = 0, gt_state = Free None\<rparr>"
    and d: "distinct fs" and lt: "\<And>i. i \<in> set fs \<Longrightarrow> i < gs_len s"
    and ch: "gen_chain (\<lambda>i. gt_state (slot_at s i)) (gs_free_head s) fs"
    using inv by (rule gen_invE) blast
  have "gen_inv s' \<and> hd_index h < gs_len s' \<and> gs_capacity s' = gs_capacity s \<and> gs_len s \<le> gs_len s' \<and>
      (\<exists>nx. gt_state (slot_at s (hd_index h)) = Free nx) \<and>
      hd_generation h = gt_generation (slot_at s (hd_index h)) \<and>
      slot_at s' = (slot_at s)(hd_index h := \<lparr>gt_generation = hd_generation h, gt_state = Occupied v\<rparr>)"
    using inv
  proof (cases rule: gen_insert_cases [where v = v])
    case (pop i nx)
    have i: "i < gs_capacity s" using pop(2) le by simp
    have h: "h = \<lparr>hd_index = i, hd_generation = gt_generation (slot_at s i)\<rparr>"
      and s': "s' = slot_put i ((slot_at s i)\<lparr>gt_state := Occupied v\<rparr>) (s\<lparr>gs_free_head := nx\<rparr>)"
      using ins pop(4) by auto
    have at: "slot_at s' j = (if j = i then (slot_at s i)\<lparr>gt_state := Occupied v\<rparr> else slot_at s j)" for j
      using i len by (simp add: s' slot_at_put_inv)
    obtain fs' where fs': "fs = i # fs'" "gen_chain (\<lambda>i. gt_state (slot_at s i)) nx fs'"
      using ch pop(1,3) by (cases fs) auto
    have "gen_chain (\<lambda>i. gt_state (slot_at s' i)) nx fs'"
      by (rule gen_chain_cong [OF fs'(2)]) (use d fs'(1) in \<open>auto simp: at\<close>)
    then have "gen_inv s'"
      using len le fresh d lt pop(2) unfolding gen_inv_def at fs'(1)
      by (intro conjI exI [of _ fs']) (auto simp: s' dest: leD)
    moreover have "hd_index h < gs_len s'" "gs_capacity s' = gs_capacity s" "gs_len s \<le> gs_len s'"
      "\<exists>nx. gt_state (slot_at s (hd_index h)) = Free nx"
      "hd_generation h = gt_generation (slot_at s (hd_index h))"
      using pop by (simp_all add: h s')
    moreover have "slot_at s' = (slot_at s)(hd_index h := \<lparr>gt_generation = hd_generation h, gt_state = Occupied v\<rparr>)"
      by (cases "slot_at s i") (auto simp: fun_eq_iff at h)
    ultimately show ?thesis by blast
  next
    case carve
    have h: "h = \<lparr>hd_index = gs_len s, hd_generation = 0\<rparr>"
      and s': "s' = slot_put (gs_len s) \<lparr>gt_generation = 0, gt_state = Occupied v\<rparr> (s\<lparr>gs_len := gs_len s + 1\<rparr>)"
      using ins carve(4) by auto
    have at: "slot_at s' j = (if j = gs_len s then \<lparr>gt_generation = 0, gt_state = Occupied v\<rparr> else slot_at s j)" for j
      using carve(2) len by (simp add: s' slot_at_put_inv)
    have inc: "gs_len s < gs_len s + 1" "gs_len s + 1 \<le> gs_capacity s"
      using carve(2) by (auto intro: inc_le less_inc)
    have "gen_chain (\<lambda>i. gt_state (slot_at s' i)) (gs_free_head s) fs"
      by (rule gen_chain_cong [OF ch]) (use lt in \<open>auto simp: at\<close>)
    then have "gen_inv s'"
      using len fresh d lt inc carve(2) unfolding gen_inv_def at
      by (intro conjI exI [of _ fs]) (auto simp: s' intro: less_trans dest: le_less_trans)
    moreover have "hd_index h < gs_len s'" "gs_capacity s' = gs_capacity s" "gs_len s \<le> gs_len s'"
      "\<exists>nx. gt_state (slot_at s (hd_index h)) = Free nx"
      "hd_generation h = gt_generation (slot_at s (hd_index h))"
      using carve inc by (simp_all add: h s')
    moreover have "slot_at s' = (slot_at s)(hd_index h := \<lparr>gt_generation = hd_generation h, gt_state = Occupied v\<rparr>)"
      by (auto simp: fun_eq_iff at h)
    ultimately show ?thesis by blast
  next
    case full
    then show ?thesis using ins by simp
  qed
  then show "gen_inv s'" "hd_index h < gs_len s'" "gs_capacity s' = gs_capacity s" "gs_len s \<le> gs_len s'"
    "\<exists>nx. gt_state (slot_at s (hd_index h)) = Free nx"
    "hd_generation h = gt_generation (slot_at s (hd_index h))"
    "slot_at s' = (slot_at s)(hd_index h := \<lparr>gt_generation = hd_generation h, gt_state = Occupied v\<rparr>)"
    by blast+
qed

section \<open>The slab as a map from handles to values\<close>

lemma gen_get_Some:
  "gen_get s h = Some v \<longleftrightarrow> hd_index h < gs_capacity s \<and>
     slot_at s (hd_index h) = \<lparr>gt_generation = hd_generation h, gt_state = Occupied v\<rparr>"
  by (cases "slot_at s (hd_index h)") (auto simp: gen_get_def split: slot_state.splits)

lemma gen_getD:
  "gen_get s h = Some v \<Longrightarrow>
     hd_index h < gs_capacity s \<and> gt_state (slot_at s (hd_index h)) = Occupied v"
  by (auto simp: gen_get_def split: if_splits slot_state.splits)

lemma handle_eqI: "hd_index h = hd_index k \<Longrightarrow> hd_generation h = hd_generation k \<Longrightarrow> h = (k :: 'g gen_handle)"
  by (cases h, cases k) simp

lemma gen_insert_map:
  assumes inv: "gen_inv s" and ins: "gen_insert v s = (Inr h, s')"
  shows "gen_get s h = None" "gen_get s' = (gen_get s)(h \<mapsto> v)"
proof -
  note f = gen_insert_inv [OF inv ins]
  show n: "gen_get s h = None"
    using f(5) by (auto simp: gen_get_def)
  have lt: "hd_index h < gs_capacity s'"
    using f(1,2) by (auto simp: gen_inv_def)
  show "gen_get s' = (gen_get s)(h \<mapsto> v)"
  proof
    fix k show "gen_get s' k = ((gen_get s)(h \<mapsto> v)) k"
    proof (cases "hd_index k = hd_index h")
      case True
      with f(5) have "gen_get s k = None" by (auto simp: gen_get_def)
      with True show ?thesis
        using lt by (auto simp: gen_get_def f(7) intro: handle_eqI)
    next
      case False
      then show ?thesis by (auto simp: gen_get_def f(3,7))
    qed
  qed
qed

text \<open>A refused insertion changes nothing; it means that every slot has been carved and none is free.\<close>

lemma gen_insert_full:
  assumes inv: "gen_inv s" and ins: "gen_insert v s = (Inl e, s')"
  shows "s' = s" "gs_free_head s = None" "gs_len s = gs_capacity s"
proof -
  have "s' = s \<and> gs_free_head s = None \<and> gs_len s = gs_capacity s"
    using inv by (cases rule: gen_insert_cases [where v = v]) (use ins in auto)
  then show "s' = s" "gs_free_head s = None" "gs_len s = gs_capacity s" by auto
qed

lemma gen_remove_slots:
  assumes len: "length (gs_slots s) = unat (gs_capacity s)" and rm: "gen_remove h s = (r, s')"
  shows "r = gen_get s h" "gs_capacity s' = gs_capacity s" "gs_len s' = gs_len s"
    "length (gs_slots s') = unat (gs_capacity s')"
    "s' = s \<or> hd_index h < gs_capacity s \<and> gt_generation (slot_at s (hd_index h)) = hd_generation h \<and>
       (\<exists>nx. slot_at s' = (slot_at s)(hd_index h :=
          \<lparr>gt_generation = hd_generation h + 1, gt_state = Free nx\<rparr>))"
    "gen_get s' = (gen_get s)(h := None)"
proof -
  show frame: "r = gen_get s h" "gs_capacity s' = gs_capacity s" "gs_len s' = gs_len s"
    "length (gs_slots s') = unat (gs_capacity s')"
    using rm len by (auto simp: gen_remove_def gen_get_def Let_def split: if_splits)
  show slots: "s' = s \<or> hd_index h < gs_capacity s \<and> gt_generation (slot_at s (hd_index h)) = hd_generation h \<and>
       (\<exists>nx. slot_at s' = (slot_at s)(hd_index h :=
          \<lparr>gt_generation = hd_generation h + 1, gt_state = Free nx\<rparr>))"
    using rm len
    by (auto simp: gen_remove_def Let_def fun_eq_iff slot_at_put_inv not_le split: if_splits)
  show "gen_get s' = (gen_get s)(h := None)"
  proof
    fix k
    consider "s' = s" "gen_get s h = None" | "s' \<noteq> s" | "s' = s" "gen_get s h \<noteq> None" by blast
    then show "gen_get s' k = ((gen_get s)(h := None)) k"
    proof cases
      case 3
      then obtain v where "slot_at s (hd_index h) = \<lparr>gt_generation = hd_generation h, gt_state = Occupied v\<rparr>"
        "hd_index h < gs_capacity s"
        by (auto simp: gen_get_Some)
      then have "gt_state (slot_at s' (hd_index h)) \<noteq> Occupied v"
        using rm len by (auto simp: gen_remove_def Let_def slot_at_put_inv split: if_splits)
      with 3 \<open>slot_at s (hd_index h) = _\<close> show ?thesis by simp
    next
      case 2
      with slots obtain nx where nx: "gt_generation (slot_at s (hd_index h)) = hd_generation h"
        "slot_at s' = (slot_at s)(hd_index h := \<lparr>gt_generation = hd_generation h + 1, gt_state = Free nx\<rparr>)"
        by blast
      show ?thesis
        using nx frame(2) by (auto simp: gen_get_def intro: handle_eqI)
    qed auto
  qed
qed

text \<open>
  A removal keeps the invariant unless the handle matches the generation of a slot that is free,
  which the freelist may already hold.
\<close>

lemma gen_remove_inv:
  assumes inv: "gen_inv s" and rm: "gen_remove h s = (r, s')" and idx: "hd_index h < gs_len s"
    and occ: "gt_generation (slot_at s (hd_index h)) = hd_generation h \<Longrightarrow>
      \<exists>v. gt_state (slot_at s (hd_index h)) = Occupied v"
  shows "gen_inv s'"
proof -
  obtain fs where len: "length (gs_slots s) = unat (gs_capacity s)" and le: "gs_len s \<le> gs_capacity s"
    and fresh: "\<And>i. gs_len s \<le> i \<Longrightarrow> i < gs_capacity s \<Longrightarrow>
       slot_at s i = \<lparr>gt_generation = 0, gt_state = Free None\<rparr>"
    and d: "distinct fs" and lt: "\<And>i. i \<in> set fs \<Longrightarrow> i < gs_len s"
    and ch: "gen_chain (\<lambda>i. gt_state (slot_at s i)) (gs_free_head s) fs"
    using inv by (rule gen_invE) blast
  let ?i = "hd_index h"
  have i: "?i < gs_capacity s" using idx le by simp
  show ?thesis
  proof (cases "gt_generation (slot_at s ?i) = hd_generation h")
    case False
    then show ?thesis using rm inv by (auto simp: gen_remove_def Let_def split: if_splits)
  next
    case True
    with occ have nf: "?i \<notin> set fs" using gen_chain_free [OF ch] by fastforce
    have at: "slot_at (slot_put ?i t s) j = (if j = ?i then t else slot_at s j)" for t j
      by (rule slot_at_put_inv [OF len i])
    have ch': "gen_chain (\<lambda>j. gt_state (slot_at (slot_put ?i t s) j)) (gs_free_head s) fs" for t
      by (rule gen_chain_cong [OF ch]) (use nf in \<open>auto simp: at\<close>)
    show ?thesis
    proof (cases "hd_generation h + 1 = 0")
      case wrap: True
      then have "s' = slot_put ?i \<lparr>gt_generation = hd_generation h + 1, gt_state = Free None\<rparr> s"
        using rm True i by (auto simp: gen_remove_def Let_def split: if_splits)
      then show ?thesis
        using ch' len le fresh d lt idx
        by (auto simp: gen_inv_def at dest: leD intro!: exI [of _ fs])
    next
      case nowrap: False
      then have s': "s' = (slot_put ?i \<lparr>gt_generation = hd_generation h + 1,
          gt_state = Free (gs_free_head s)\<rparr> s)\<lparr>gs_free_head := Some ?i\<rparr>"
        using rm True i by (auto simp: gen_remove_def Let_def split: if_splits)
      have "gen_chain (\<lambda>j. gt_state (slot_at s' j)) (Some ?i) (?i # fs)"
        using ch' by (simp add: s' at)
      then show ?thesis
        using len le fresh d lt idx nf
        by (auto simp: gen_inv_def s' at dest: leD intro!: exI [of _ "?i # fs"])
    qed
  qed
qed

section \<open>Histories\<close>

text \<open>
  A history of a slab with the handles it has issued; the label counts the removals attempted.
  Handles are \<open>Copy\<close>, so a stale one may be presented at any later time.
\<close>

type_synonym ('b, 'v, 'g) gen_history = "('b, 'v, 'g) gen_slab \<times> 'g gen_handle set"

inductive gen_run ::
  "('b, 'v, 'w::len word) gen_history \<Rightarrow> nat \<Rightarrow> ('b, 'v, 'w word) gen_history \<Rightarrow> bool" where
  gen_start: "gen_run w 0 w"
| gen_inserted: "gen_run w k (s, I) \<Longrightarrow> gen_insert v s = (Inr h, s') \<Longrightarrow> gen_run w k (s', insert h I)"
| gen_refused: "gen_run w k (s, I) \<Longrightarrow> gen_insert v s = (Inl e, s') \<Longrightarrow> gen_run w k (s', I)"
| gen_removed: "gen_run w k (s, I) \<Longrightarrow> h \<in> I \<Longrightarrow> gen_remove h s = (r, s') \<Longrightarrow> gen_run w (k + 1) (s', I)"
| gen_written: "gen_run w k (s, I) \<Longrightarrow> h \<in> I \<Longrightarrow> gen_get_mut h v s = (r, s') \<Longrightarrow> gen_run w k (s', I)"

text \<open>Every issued handle is either of a past generation or that of the slot's present value.\<close>

definition gen_issued :: "nat \<Rightarrow> ('b, 'v, 'w::len word) gen_slab \<Rightarrow> 'w word gen_handle set \<Rightarrow> bool" where
  "gen_issued k s I \<longleftrightarrow> gen_inv s \<and>
     (\<forall>h \<in> I. hd_index h < gs_len s \<and>
        (unat (hd_generation h) < unat (gt_generation (slot_at s (hd_index h))) \<or>
         slot_at s (hd_index h) =
           \<lparr>gt_generation = hd_generation h, gt_state = Occupied (the (gen_get s h))\<rparr>)) \<and>
     (\<forall>i < gs_len s. unat (gt_generation (slot_at s i)) \<le> k)"

lemma gen_inv_len: "gen_inv s \<Longrightarrow> i < gs_len s \<Longrightarrow> i < gs_capacity s"
  by (auto simp: gen_inv_def)

lemma gen_issuedD:
  assumes "gen_issued k s I" "h \<in> I"
  shows "hd_index h < gs_len s" "hd_index h < gs_capacity s"
    "unat (hd_generation h) < unat (gt_generation (slot_at s (hd_index h))) \<or>
       gt_generation (slot_at s (hd_index h)) = hd_generation h \<and>
         (\<exists>v. gt_state (slot_at s (hd_index h)) = Occupied v)"
proof -
  have *: "hd_index h < gs_len s \<and>
        (unat (hd_generation h) < unat (gt_generation (slot_at s (hd_index h))) \<or>
         slot_at s (hd_index h) =
           \<lparr>gt_generation = hd_generation h, gt_state = Occupied (the (gen_get s h))\<rparr>)"
    using assms by (simp add: gen_issued_def)
  then show "hd_index h < gs_len s" by simp
  with assms(1) gen_inv_len show "hd_index h < gs_capacity s" by (auto simp: gen_issued_def)
  from * show "unat (hd_generation h) < unat (gt_generation (slot_at s (hd_index h))) \<or>
       gt_generation (slot_at s (hd_index h)) = hd_generation h \<and>
         (\<exists>v. gt_state (slot_at s (hd_index h)) = Occupied v)"
    by (elim conjE disjE) (simp_all only: gen_slot.simps, blast+)
qed

lemma gen_issued_occupied:
  assumes "gen_issued k s I" "h \<in> I" "gt_generation (slot_at s (hd_index h)) = hd_generation h"
  shows "\<exists>v. gt_state (slot_at s (hd_index h)) = Occupied v"
  using gen_issuedD(3) [OF assms(1,2)] assms(3) by auto

lemma gen_issued_insert:
  assumes J: "gen_issued k s I" and ins: "gen_insert v s = (Inr h, s')"
  shows "gen_issued k s' (insert h I)" "h \<notin> I"
proof -
  have inv: "gen_inv s" using J by (simp add: gen_issued_def)
  note f = gen_insert_inv [OF inv ins] and m = gen_insert_map [OF inv ins]
  show "h \<notin> I"
  proof
    assume "h \<in> I"
    from gen_issuedD(3) [OF J this] f(5,6) show False by auto
  qed
  have old: "hd_index k < gs_len s' \<and>
      (unat (hd_generation k) < unat (gt_generation (slot_at s' (hd_index k))) \<or>
       slot_at s' (hd_index k) = \<lparr>gt_generation = hd_generation k, gt_state = Occupied (the (gen_get s' k))\<rparr>)"
    if "k \<in> I" for k
  proof (cases "hd_index k = hd_index h")
    case True
    with gen_issuedD [OF J that] f show ?thesis by auto
  next
    case False
    with gen_issuedD(1,2) [OF J that] f(4,3) J that m(2) show ?thesis
      by (auto simp: f(7) gen_issued_def dest: less_le_trans)
  qed
  moreover have "unat (gt_generation (slot_at s' i)) \<le> k" if "i < gs_len s'" for i
  proof (cases "i < gs_len s")
    case True
    then show ?thesis using J f(6) by (auto simp: gen_issued_def f(7))
  next
    case False
    then have "i < gs_capacity s" using that f(1,3) gen_inv_len by metis
    then have "slot_at s i = \<lparr>gt_generation = 0, gt_state = Free None\<rparr>"
      using inv False by (auto simp: gen_inv_def)
    then show ?thesis using f(6) by (auto simp: f(7))
  qed
  ultimately show "gen_issued k s' (insert h I)"
    using f(1,2) m(2) by (auto simp: gen_issued_def f(7))
qed

lemma gen_issued_remove:
  assumes J: "gen_issued k s (I :: 'w::len word gen_handle set)" and h: "h \<in> I"
    and rm: "gen_remove h s = (r, s')" and k: "k + 1 < 2 ^ LENGTH('w)"
  shows "gen_issued (k + 1) s' I"
proof -
  have inv: "gen_inv s" using J by (simp add: gen_issued_def)
  have len: "length (gs_slots s) = unat (gs_capacity s)" using inv by (simp add: gen_inv_def)
  note d = gen_issuedD [OF J h] and sl = gen_remove_slots [OF len rm]
  have inv': "gen_inv s'"
    by (rule gen_remove_inv [OF inv rm d(1) gen_issued_occupied [OF J h]])
  from sl(5) show ?thesis
  proof
    assume "s' = s"
    then show ?thesis using J by (auto simp: gen_issued_def intro: le_SucI)
  next
    assume "hd_index h < gs_capacity s \<and> gt_generation (slot_at s (hd_index h)) = hd_generation h \<and>
       (\<exists>nx. slot_at s' = (slot_at s)(hd_index h :=
          \<lparr>gt_generation = hd_generation h + 1, gt_state = Free nx\<rparr>))"
    then obtain nx where g: "gt_generation (slot_at s (hd_index h)) = hd_generation h"
      and at: "slot_at s' = (slot_at s)(hd_index h := \<lparr>gt_generation = hd_generation h + 1, gt_state = Free nx\<rparr>)"
      by blast
    have "unat (hd_generation h) \<le> k" using J d(1) g by (auto simp: gen_issued_def)
    then have up: "unat (hd_generation h + 1) = unat (hd_generation h) + 1"
      using k by (simp add: unat_word_ariths)
    have "hd_index j < gs_len s' \<and>
        (unat (hd_generation j) < unat (gt_generation (slot_at s' (hd_index j))) \<or>
         slot_at s' (hd_index j) = \<lparr>gt_generation = hd_generation j, gt_state = Occupied (the (gen_get s' j))\<rparr>)"
      if j: "j \<in> I" for j
    proof (cases "hd_index j = hd_index h")
      case True
      have "unat (hd_generation j) \<le> unat (hd_generation h)"
        using gen_issuedD(3) [OF J j] True g by auto
      then show ?thesis using True up d(1) sl(3) by (simp add: at)
    next
      case False
      then have "j \<noteq> h" by auto
      with False show ?thesis
        using J j sl(3,6) by (auto simp: at gen_issued_def)
    qed
    moreover have "unat (gt_generation (slot_at s' i)) \<le> k + 1" if "i < gs_len s'" for i
      using that J sl(3) up \<open>unat (hd_generation h) \<le> k\<close> by (auto simp: at gen_issued_def le_SucI)
    ultimately show ?thesis using inv' by (simp add: gen_issued_def)
  qed
qed

lemma gen_get_mut_slots:
  assumes len: "length (gs_slots s) = unat (gs_capacity s)" and gm: "gen_get_mut h w s = (r, s')"
  shows "r = gen_get s h"
    "s' = s \<and> r = None \<or> (\<exists>v. r = Some v) \<and> hd_index h < gs_capacity s \<and>
       s' = slot_put (hd_index h) \<lparr>gt_generation = hd_generation h, gt_state = Occupied w\<rparr> s"
  using gm
  by (cases "slot_at s (hd_index h)";
      auto simp: gen_get_mut_def gen_get_def Let_def split: if_splits slot_state.splits)+

lemma gen_get_mut_map:
  assumes len: "length (gs_slots s) = unat (gs_capacity s)" and gm: "gen_get_mut h w s = (r, s')"
  shows "gen_get s' = (case r of None \<Rightarrow> gen_get s | Some v \<Rightarrow> (gen_get s)(h \<mapsto> w))"
proof (cases r)
  case None
  then show ?thesis using gen_get_mut_slots(2) [OF len gm] by auto
next
  case (Some v)
  then have s': "s' = slot_put (hd_index h) \<lparr>gt_generation = hd_generation h, gt_state = Occupied w\<rparr> s"
    and lt: "hd_index h < gs_capacity s"
    using gen_get_mut_slots(2) [OF len gm] by auto
  have g: "slot_at s (hd_index h) = \<lparr>gt_generation = hd_generation h, gt_state = Occupied v\<rparr>"
    using gen_get_mut_slots(1) [OF len gm] Some gen_get_Some [of s h v] by simp
  have at: "slot_at s' j = (if j = hd_index h
      then \<lparr>gt_generation = hd_generation h, gt_state = Occupied w\<rparr> else slot_at s j)" for j
    unfolding s' by (rule slot_at_put_inv [OF len lt])
  show ?thesis
  proof
    fix k
    show "gen_get s' k = (case r of None \<Rightarrow> gen_get s | Some v \<Rightarrow> (gen_get s)(h \<mapsto> w)) k"
      using Some g lt by (auto simp: gen_get_def at, auto simp: s' intro: handle_eqI)
  qed
qed

lemma gen_issued_write:
  assumes J: "gen_issued k s I" and h: "h \<in> I" and gm: "gen_get_mut h w s = (r, s')"
  shows "gen_issued k s' I"
proof (cases r)
  have inv: "gen_inv s" using J by (simp add: gen_issued_def)
  then have len: "length (gs_slots s) = unat (gs_capacity s)" by (simp add: gen_inv_def)
  case None
  then show ?thesis using gen_get_mut_slots(2) [OF len gm] J by auto
next
  case (Some v)
  have inv: "gen_inv s" using J by (simp add: gen_issued_def)
  then have len: "length (gs_slots s) = unat (gs_capacity s)" by (simp add: gen_inv_def)
  have s': "s' = slot_put (hd_index h) \<lparr>gt_generation = hd_generation h, gt_state = Occupied w\<rparr> s"
    and lt: "hd_index h < gs_capacity s"
    using gen_get_mut_slots(2) [OF len gm] Some by auto
  have g: "slot_at s (hd_index h) = \<lparr>gt_generation = hd_generation h, gt_state = Occupied v\<rparr>"
    using gen_get_mut_slots(1) [OF len gm] Some gen_get_Some [of s h v] by simp
  have at: "slot_at s' j = (if j = hd_index h
      then \<lparr>gt_generation = hd_generation h, gt_state = Occupied w\<rparr> else slot_at s j)" for j
    unfolding s' by (rule slot_at_put_inv [OF len lt])
  have frame: "gs_len s' = gs_len s" "gs_capacity s' = gs_capacity s" by (simp_all add: s')
  obtain fs where le: "gs_len s \<le> gs_capacity s"
    and fresh: "\<And>i. gs_len s \<le> i \<Longrightarrow> i < gs_capacity s \<Longrightarrow>
       slot_at s i = \<lparr>gt_generation = 0, gt_state = Free None\<rparr>"
    and d: "distinct fs" and ltf: "\<And>i. i \<in> set fs \<Longrightarrow> i < gs_len s"
    and ch: "gen_chain (\<lambda>i. gt_state (slot_at s i)) (gs_free_head s) fs"
    using inv by (rule gen_invE) blast
  have "hd_index h \<notin> set fs" using gen_chain_free [OF ch] g by fastforce
  then have "gen_chain (\<lambda>i. gt_state (slot_at s' i)) (gs_free_head s) fs"
    by (intro gen_chain_cong [OF ch]) (auto simp: at)
  moreover have "hd_index h < gs_len s" by (rule gen_issuedD(1) [OF J h])
  ultimately have "gen_inv s'"
    using len le fresh d ltf unfolding gen_inv_def frame at
    by (intro conjI exI [of _ fs]) (auto simp: s' dest: leD)
  moreover have m: "gen_get s' = (gen_get s)(h \<mapsto> w)"
    using gen_get_mut_map [OF len gm] Some by simp
  moreover have "slot_at s' (hd_index j) = \<lparr>gt_generation = hd_generation j, gt_state = Occupied (the (gen_get s' j))\<rparr>"
    if "slot_at s (hd_index j) = \<lparr>gt_generation = hd_generation j, gt_state = Occupied (the (gen_get s j))\<rparr>" for j
  proof (cases "j = h")
    case False
    with that g have "hd_index j \<noteq> hd_index h" by (auto intro: handle_eqI)
    with that False show ?thesis by (simp add: at m)
  qed (simp add: at m)
  ultimately show ?thesis
    using J g by (auto simp: gen_issued_def frame at)
qed

lemma gen_run_issued:
  assumes "gen_run (s0, I0) k (s, I)" "gen_issued 0 s0 I0" "k < 2 ^ LENGTH('w)"
  shows "gen_issued k (s :: ('b, 'v, 'w::len word) gen_slab) I"
  using assms
proof (induction "(s0, I0)" k "(s, I)" arbitrary: s I rule: gen_run.induct)
  case (gen_refused k s I v e s')
  then have J: "gen_issued k s I" by simp
  then have "s' = s" using gen_insert_full(1) [OF _ gen_refused.hyps(3)] by (simp add: gen_issued_def)
  with J show ?case by simp
next
  case (gen_inserted k s I v h s')
  then have "gen_issued k s I" by simp
  then show ?case by (rule gen_issued_insert(1) [OF _ gen_inserted.hyps(3)])
next
  case (gen_removed k s I h r s')
  then have "gen_issued k s I" by simp
  then show ?case by (rule gen_issued_remove [OF _ gen_removed.hyps(3,4) gen_removed.prems(2)])
next
  case (gen_written k s I h w r s')
  then have "gen_issued k s I" by simp
  then show ?case by (rule gen_issued_write [OF _ gen_written.hyps(3,4)])
qed simp

lemma gen_insert_frame:
  assumes "gen_insert v s = (r, s')"
  shows "gs_backing s' = gs_backing s" "gs_slots_offset s' = gs_slots_offset s"
    "gs_backing_layout s' = gs_backing_layout s" "gs_capacity s' = gs_capacity s"
    "length (gs_slots s') = length (gs_slots s)"
  using assms
  by (auto simp: gen_insert_def gen_fill_def Let_def split: option.splits if_splits slot_state.splits)

lemma gen_remove_frame:
  assumes "gen_remove h s = (r, s')"
  shows "gs_backing s' = gs_backing s" "gs_slots_offset s' = gs_slots_offset s"
    "gs_backing_layout s' = gs_backing_layout s" "gs_capacity s' = gs_capacity s"
    "length (gs_slots s') = length (gs_slots s)"
  using assms by (auto simp: gen_remove_def Let_def split: if_splits)

lemma gen_get_mut_frame:
  assumes "gen_get_mut h v s = (r, s')"
  shows "gs_backing s' = gs_backing s" "gs_slots_offset s' = gs_slots_offset s"
    "gs_backing_layout s' = gs_backing_layout s" "gs_capacity s' = gs_capacity s"
    "length (gs_slots s') = length (gs_slots s)"
  using assms by (auto simp: gen_get_mut_def Let_def split: if_splits slot_state.splits)

lemma gen_run_frame:
  assumes "gen_run (s0, I0) k (s, I)" "length (gs_slots s0) = unat (gs_capacity s0)"
  shows "gs_backing s = gs_backing s0 \<and> gs_slots_offset s = gs_slots_offset s0 \<and>
    gs_backing_layout s = gs_backing_layout s0 \<and> length (gs_slots s) = unat (gs_capacity s)"
  using assms
  by (induction "(s0, I0)" k "(s, I)" arbitrary: s I rule: gen_run.induct)
    (simp_all add: gen_insert_frame gen_remove_frame gen_get_mut_frame)

section \<open>Construction and drop\<close>

lemma gen_new_slots:
  assumes "gen_with_generation B R S capacity (b, m) = (Inr s, b', m')"
  shows "gen_issued 0 s {}" "gs_capacity s = ucast capacity" "gs_slots_offset s = gen_slots_ptr R s - fr_base R b'"
    "gs_backing s = b'" "capacity \<noteq> 0" "gs_len s = 0"
    "\<exists>n. array_layout S capacity = Some (gs_backing_layout s) \<and>
       al_allocate B (gs_backing_layout s) (b, m) = (Inr (gen_slots_ptr R s, n), b', m')"
proof -
  obtain lay p n where S: "capacity \<noteq> 0" "\<not> capacity > ucast (- 1 :: u32)"
    "array_layout S capacity = Some lay" "al_allocate B lay (b, m) = (Inr (p, n), b', m')"
    "s = \<lparr>gs_backing = b', gs_slots_offset = p - fr_base R b', gs_capacity = ucast capacity,
       gs_free_head = None, gs_len = 0, gs_backing_layout = lay,
       gs_slots = replicate (unat capacity) \<lparr>gt_generation = 0, gt_state = Free None\<rparr>\<rparr>"
    using assms
    by (auto simp: gen_with_generation_def split: if_splits option.splits sum.splits prod.splits)
  have cap: "unat (ucast capacity :: u32) = unat capacity"
    using S(2) by (intro unat_ucast_capacity) simp
  have "gen_inv s"
    unfolding gen_inv_def
    by (intro conjI exI [of _ "[]"]) (auto simp: S(5) cap slot_at_def word_less_nat_alt)
  then show "gen_issued 0 s {}" by (simp add: gen_issued_def S(5))
  show "gs_capacity s = ucast capacity" "gs_slots_offset s = gen_slots_ptr R s - fr_base R b'"
    "gs_backing s = b'" "capacity \<noteq> 0" "gs_len s = 0"
    "\<exists>n. array_layout S capacity = Some (gs_backing_layout s) \<and>
       al_allocate B (gs_backing_layout s) (b, m) = (Inr (gen_slots_ptr R s, n), b', m')"
    using S by (simp_all add: gen_slots_ptr_def)
qed

lemma gen_drop_values:
  assumes "length (gs_slots s) = unat (gs_capacity s)"
  shows "set (fst (gen_drop B R (s, m))) = ran (gen_get s)"
proof -
  have "(\<exists>t \<in> set (gs_slots s). gt_state t = Occupied v) \<longleftrightarrow> (\<exists>h. gen_get s h = Some v)" for v
  proof
    assume "\<exists>t \<in> set (gs_slots s). gt_state t = Occupied v"
    then obtain j where j: "j < unat (gs_capacity s)" "gt_state (gs_slots s ! j) = Occupied v"
      by (auto simp: in_set_conv_nth assms)
    then have u: "unat (word_of_nat j :: u32) = j"
      using unsigned_less [of "gs_capacity s", where ?'a = nat] by (simp add: unat_word_of_nat)
    then have "gen_get s \<lparr>hd_index = word_of_nat j, hd_generation = gt_generation (gs_slots s ! j)\<rparr> = Some v"
      using j by (simp add: gen_get_def slot_at_def not_le word_less_nat_alt)
    then show "\<exists>h. gen_get s h = Some v" by blast
  next
    assume "\<exists>h. gen_get s h = Some v"
    then obtain h where "gen_get s h = Some v" ..
    from gen_getD [OF this] obtain i where "i < gs_capacity s" "gt_state (slot_at s i) = Occupied v"
      by (elim conjE)
    then show "\<exists>t \<in> set (gs_slots s). gt_state t = Occupied v"
      by (auto simp: slot_at_def word_less_nat_alt assms intro!: bexI [of _ "gs_slots s ! unat i"])
  qed
  then have "{v. \<exists>t \<in> set (gs_slots s). gt_state t = Occupied v} = ran (gen_get s)"
    by (simp add: ran_def)
  moreover have "set (fst (gen_drop B R (s, m))) = {v. \<exists>t \<in> set (gs_slots s). gt_state t = Occupied v}"
    by (force simp: gen_drop_def split: slot_state.splits)
  ultimately show ?thesis by simp
qed

context ranged_contract
begin

lemma gen_new_drop:
  assumes "gen_with_generation A R S capacity (b, m) = (Inr s, b', m')" "ainv b m {}"
  shows "\<exists>n. ainv b' m' {(gen_slots_ptr R s, gs_backing_layout s, n)}"
    "gs_backing s1 = gs_backing s \<Longrightarrow> gs_slots_offset s1 = gs_slots_offset s \<Longrightarrow>
       gs_backing_layout s1 = gs_backing_layout s \<Longrightarrow> same_on (- footprint {(gen_slots_ptr R s, gs_backing_layout s, n)}) m' m1 \<Longrightarrow>
       ainv b' m' {(gen_slots_ptr R s, gs_backing_layout s, n)} \<Longrightarrow>
       \<exists>b2 m2. snd (gen_drop A R (s1, m1)) = Done (b2, m2) \<and> ainv b2 m2 {}"
proof -
  note f = gen_new_slots [OF assms(1)]
  obtain n where n: "array_layout S capacity = Some (gs_backing_layout s)"
    "al_allocate A (gs_backing_layout s) (b, m) = (Inr (gen_slots_ptr R s, n), b', m')"
    using f(7) by blast
  have "valid_layout (gs_backing_layout s)" by (rule array_layout_Some(1) [OF n(1)])
  from allocate [OF assms(2) this] n(2)
  show "\<exists>n. ainv b' m' {(gen_slots_ptr R s, gs_backing_layout s, n)}"
    by (auto simp: alloc_post_def)
next
  assume s1: "gs_backing s1 = gs_backing s" "gs_slots_offset s1 = gs_slots_offset s"
    "gs_backing_layout s1 = gs_backing_layout s"
    and w: "same_on (- footprint {(gen_slots_ptr R s, gs_backing_layout s, n)}) m' m1"
    and i: "ainv b' m' {(gen_slots_ptr R s, gs_backing_layout s, n)}"
  have "gen_slots_ptr R s1 = gen_slots_ptr R s" "gs_backing s = b'"
    using s1 gen_new_slots(4) [OF assms(1)] by (simp_all add: gen_slots_ptr_def)
  with deallocate [OF user_write [OF i w], of "gen_slots_ptr R s" "gs_backing_layout s" n] s1
  show "\<exists>b2 m2. snd (gen_drop A R (s1, m1)) = Done (b2, m2) \<and> ainv b2 m2 {}"
    by (auto simp: gen_drop_def dealloc_post_def split: outcome.splits)
qed

end

section \<open>What a full cycle of the counter does\<close>

text \<open>
  A slot whose counter wraps is left off the freelist, with generation zero. A handle of its first
  occupant, also of generation zero, passes the check of \<open>remove\<close>: the slot is then linked back
  and issued again from generation one on.

  The client that inserts one value and removes it again, \<open>n\<close> times, and the handles it was given.
\<close>

primrec gen_churn ::
  "nat \<Rightarrow> 'v \<Rightarrow> ('b, 'v, 'w::len word) gen_slab \<Rightarrow> 'w word gen_handle list \<times> ('b, 'v, 'w word) gen_slab" where
  "gen_churn 0 v s = ([], s)"
| "gen_churn (Suc n) v s =
     (case gen_churn n v s of (hs, s1) \<Rightarrow>
        (case gen_insert v s1 of
           (Inr h, s2) \<Rightarrow> (hs @ [h], snd (gen_remove h s2))
         | (Inl e, s2) \<Rightarrow> (hs, s2)))"

text \<open>A one-slot slab between two rounds, the slot at generation \<open>g\<close>; zero again means retired.\<close>

definition gen_between :: "('b, 'v, 'w::len word) gen_slab \<Rightarrow> 'w word \<Rightarrow> ('b, 'v, 'w word) gen_slab" where
  "gen_between s g = s\<lparr>gs_len := 1, gs_free_head := (if g = 0 then None else Some 0),
     gs_slots := [\<lparr>gt_generation = g, gt_state = Free None\<rparr>]\<rparr>"

lemmas gen_eval = gen_insert_def gen_fill_def gen_remove_def gen_between_def slot_at_def slot_put_def

lemma gen_round:
  assumes "gs_capacity s = 1" "s1 = gen_between s g \<and> g \<noteq> 0 \<or>
    s1 = s \<and> g = 0 \<and> gs_len s = 0 \<and> gs_free_head s = None \<and> gs_slots s = [\<lparr>gt_generation = 0, gt_state = Free None\<rparr>]"
  shows "\<exists>s2. gen_insert v s1 = (Inr \<lparr>hd_index = 0, hd_generation = g\<rparr>, s2) \<and>
    snd (gen_remove \<lparr>hd_index = 0, hd_generation = g\<rparr> s2) = gen_between s (g + 1)"
  using assms by (cases s) (auto simp: gen_eval Let_def)

lemma gen_churn_one:
  fixes s :: "('b, 'v, 'w::len word) gen_slab"
  assumes "gs_capacity s = 1" "gs_len s = 0" "gs_free_head s = None"
    "gs_slots s = [\<lparr>gt_generation = 0, gt_state = Free None\<rparr>]"
  shows "n \<le> 2 ^ LENGTH('w) \<Longrightarrow> gen_churn n v s =
    (map (\<lambda>i. \<lparr>hd_index = 0, hd_generation = word_of_nat i\<rparr>) [0..<n], if n = 0 then s else gen_between s (word_of_nat n))"
proof (induction n)
  case (Suc n)
  let ?s1 = "if n = 0 then s else gen_between s (word_of_nat n)"
  have "(word_of_nat n :: 'w word) = 0 \<longleftrightarrow> n = 0"
    using Suc.prems by (simp add: word_unat_eq_iff unat_word_of_nat)
  then have "?s1 = gen_between s (word_of_nat n) \<and> (word_of_nat n :: 'w word) \<noteq> 0 \<or>
      ?s1 = s \<and> (word_of_nat n :: 'w word) = 0 \<and> gs_len s = 0 \<and> gs_free_head s = None \<and>
        gs_slots s = [\<lparr>gt_generation = 0, gt_state = Free None\<rparr>]"
    using assms(2-4) by simp
  from gen_round [OF assms(1) this, of v] Suc show ?case by (auto simp: add.commute)
qed simp

text \<open>The retired slot: nothing can be inserted, until the first handle of all is removed once more.\<close>

lemma gen_retired:
  fixes s :: "('b, 'v, 'w::len word) gen_slab"
  assumes "gs_capacity s = 1"
  shows "gen_insert v (gen_between s 0) = (Inl AllocError, gen_between s 0)"
    "gen_get (gen_between s 0) h = None"
    "gen_remove \<lparr>hd_index = 0, hd_generation = 0\<rparr> (gen_between s 0) = (None, gen_between s 1)"
    "\<exists>s'. gen_insert v (gen_between s 1) = (Inr \<lparr>hd_index = 0, hd_generation = 1\<rparr>, s') \<and>
       gen_get s' \<lparr>hd_index = 0, hd_generation = 1\<rparr> = Some v"
proof -
  show "gen_insert v (gen_between s 0) = (Inl AllocError, gen_between s 0)"
    using assms by (simp add: gen_eval Let_def)
  show "gen_get (gen_between s 0) h = None"
    using assms by (auto simp: gen_get_def gen_between_def slot_at_def not_le word_less_1)
  show "gen_remove \<lparr>hd_index = 0, hd_generation = 0\<rparr> (gen_between s 0) = (None, gen_between s 1)"
    using assms by (simp add: gen_eval Let_def)
  show "\<exists>s'. gen_insert v (gen_between s 1) = (Inr \<lparr>hd_index = 0, hd_generation = 1\<rparr>, s') \<and>
      gen_get s' \<lparr>hd_index = 0, hd_generation = 1\<rparr> = Some v"
    using assms by (simp add: gen_eval Let_def gen_get_def)
qed

end
