(* ===== verification/Pool_Properties.thy ===== *)
theory Pool_Properties
  imports Examples Generational
begin

text \<open>
  The properties of the allocators built around pools of slots: the generational slab.
\<close>

section \<open>Generational slab\<close>

definition demo_gen :: "(inline_backed, nat, u32) gen_slab" where
  "demo_gen = \<lparr>gs_backing = \<lparr>ib_addr = 4096, ib_cursor = 16\<rparr>, gs_slots_offset = 0, gs_capacity = 1,
     gs_free_head = None, gs_len = 0, gs_backing_layout = \<lparr>lay_size = 16, lay_align = 8\<rparr>,
     gs_slots = [\<lparr>gt_generation = 0, gt_state = Free None\<rparr>]\<rparr>"

lemma demo_gen_new:
  "gen_with_generation (inline_allocator 256) (inline_range 256) demo_type 1 (demo_inline, m) =
     (Inr demo_gen, \<lparr>ib_addr = 4096, ib_cursor = 16\<rparr>, m)"
proof -
  have a: "array_layout demo_type 1 = Some \<lparr>lay_size = 16, lay_align = 8\<rparr>"
    by (simp add: array_layout_def for_type_def demo_type_def nzl_new_eq pad_to_align_def
        checked_mul_def)
  have m: "(ucast (- 1 :: u32) :: usize) \<noteq> 0"
    by (simp add: word_unat_eq_iff unat_minus_one_word)
  show ?thesis
    by (simp add: gen_with_generation_def a m inline_allocator_def inline_allocate_def MAX_ALIGN_def
        demo_inline_def inline_new_def bump_carve_def align_up_checked_def checked_add_def
        align_down_def inline_range_def demo_gen_def Let_def)
qed

text \<open>
  C10. A generational slab is a map from handles to values. In every history with fewer removals
  than the counter has values, an insertion returns a handle never issued before and adds exactly
  it; a removal returns the handle's value and deletes exactly it; a stale handle finds nothing
  and changes nothing, even after its slot has been reused; a write through \<open>get_mut\<close> changes
  exactly its own entry.
\<close>

theorem generational_is_map:
  fixes s :: "('b, 'v, 'w::len word) gen_slab"
  assumes "gen_with_generation B R S capacity (b, m) = (Inr s0, b', m')"
    "gen_run (s0, {}) k (s, I)" "k < 2 ^ LENGTH('w)"
  shows "dom (gen_get s) \<subseteq> {h. hd_index h < gs_capacity s} \<and>
    (\<forall>v h s'. gen_insert v s = (Inr h, s') \<longrightarrow> h \<notin> I \<and> gen_get s' = (gen_get s)(h \<mapsto> v)) \<and>
    (\<forall>h r s'. gen_remove h s = (r, s') \<longrightarrow> r = gen_get s h \<and> gen_get s' = (gen_get s)(h := None)) \<and>
    (\<forall>h v r s'. gen_get_mut h v s = (r, s') \<longrightarrow> r = gen_get s h \<and>
       gen_get s' = (case r of None \<Rightarrow> gen_get s | Some u \<Rightarrow> (gen_get s)(h \<mapsto> v)))"
proof -
  have J: "gen_issued k s I"
    by (rule gen_run_issued [OF assms(2) gen_new_slots(1) [OF assms(1)] assms(3)])
  then have inv: "gen_inv s" and len: "length (gs_slots s) = unat (gs_capacity s)"
    by (auto simp: gen_issued_def gen_inv_def)
  show ?thesis
    using gen_issued_insert(2) [OF J] gen_insert_map(2) [OF inv] gen_remove_slots(1,6) [OF len]
      gen_get_mut_slots(1) [OF len] gen_get_mut_map [OF len]
    by (auto simp: dom_def gen_getD)
qed

theorem generational_is_map_witness:
  "\<exists>s. gen_run (demo_gen, {}) 0 (s, {\<lparr>hd_index = 0, hd_generation = 0\<rparr>}) \<and>
     gen_get s \<lparr>hd_index = 0, hd_generation = 0\<rparr> = Some 5 \<and>
     (\<forall>r s'. gen_remove \<lparr>hd_index = 0, hd_generation = 0\<rparr> s = (r, s') \<longrightarrow> r = Some 5)"
proof -
  let ?h = "\<lparr>hd_index = 0, hd_generation = 0\<rparr> :: u32 gen_handle"
  let ?s = "demo_gen\<lparr>gs_len := 1, gs_slots := [\<lparr>gt_generation = 0, gt_state = Occupied 5\<rparr>]\<rparr>"
  have "gen_insert 5 demo_gen = (Inr ?h, ?s)"
    by (simp add: gen_insert_def gen_fill_def demo_gen_def slot_at_def slot_put_def Let_def)
  from gen_inserted [OF gen_start this, of "{}"]
  have r: "gen_run (demo_gen, {}) 0 (?s, {?h})" .
  have g: "gen_get ?s ?h = Some 5"
    by (simp add: gen_get_def demo_gen_def slot_at_def)
  show ?thesis
    using r g generational_is_map [OF demo_gen_new r] by auto
qed

text \<open>
  An insertion is refused only when nothing is free: the slab is left as it was, every slot has
  been carved and the freelist is empty.
\<close>

theorem generational_refuses_only_when_full:
  fixes s :: "('b, 'v, 'w::len word) gen_slab"
  assumes "gen_with_generation B R S capacity (b, m) = (Inr s0, b', m')"
    "gen_run (s0, {}) k (s, I)" "k < 2 ^ LENGTH('w)" "gen_insert v s = (Inl e, s')"
  shows "s' = s \<and> gs_free_head s = None \<and> gs_len s = gs_capacity s"
proof -
  have "gen_inv s"
    using gen_run_issued [OF assms(2) gen_new_slots(1) [OF assms(1)] assms(3)]
    by (simp add: gen_issued_def)
  from gen_insert_full [OF this assms(4)] show ?thesis by blast
qed

theorem generational_refuses_only_when_full_witness:
  "\<exists>s. gen_insert 6 s = (Inl AllocError, s) \<and> gs_len s = 1 \<and> gs_free_head s = None \<and>
     gs_capacity (s :: (inline_backed, nat, u32) gen_slab) = 1"
proof -
  let ?s = "demo_gen\<lparr>gs_len := 1, gs_slots := [\<lparr>gt_generation = 0, gt_state = Occupied 5\<rparr>]\<rparr>"
  have "gen_insert 5 demo_gen = (Inr \<lparr>hd_index = 0, hd_generation = 0\<rparr>, ?s)"
    by (simp add: gen_insert_def gen_fill_def demo_gen_def slot_at_def slot_put_def Let_def)
  note r = gen_inserted [OF gen_start this, of "{}"]
  have f: "gen_insert 6 ?s = (Inl AllocError, ?s)"
    by (simp add: gen_insert_def demo_gen_def Let_def)
  show ?thesis
    using f generational_refuses_only_when_full [OF demo_gen_new r _ f]
    by (intro exI [of _ ?s]) (simp add: demo_gen_def)
qed

text \<open>
  C34. Retirement does not survive a stale handle. A client of a one-slot slab inserts and removes a value
  as often as the counter has values, 2^32 times for the default \<open>u32\<close>, and is given a new handle every
  time. The slot is then retired, as documented: no handle is good any more and an insertion is refused. But
  the very first handle, removed once more, passes the check of \<open>remove\<close>, for the retired slot has its
  generation, zero: nothing is returned, but the slot goes back onto the freelist, and the next insertion
  issues the second handle of the history again, so that a copy kept since then reads the new value.
\<close>

theorem generational_wrap_reissues:
  assumes "gen_with_generation B R S 1 (b, m) = (Inr (s0 :: ('b, 'v, 'w::len word) gen_slab), b', m')"
  shows "\<exists>s1 s2 s3. gen_churn (2 ^ LENGTH('w)) v s0 =
      (map (\<lambda>i. \<lparr>hd_index = 0, hd_generation = word_of_nat i\<rparr>) [0..<2 ^ LENGTH('w)], s1) \<and>
    distinct (fst (gen_churn (2 ^ LENGTH('w)) v s0)) \<and>
    (\<forall>h. gen_get s1 h = None) \<and> gs_free_head s1 = None \<and> gen_insert v s1 = (Inl AllocError, s1) \<and>
    gen_remove \<lparr>hd_index = 0, hd_generation = 0\<rparr> s1 = (None, s2) \<and> gs_free_head s2 = Some 0 \<and>
    gen_insert v s2 = (Inr \<lparr>hd_index = 0, hd_generation = 1\<rparr>, s3) \<and>
    \<lparr>hd_index = 0, hd_generation = 1\<rparr> \<in> set (fst (gen_churn (2 ^ LENGTH('w)) v s0)) \<and>
    gen_get s3 \<lparr>hd_index = 0, hd_generation = 1\<rparr> = Some v"
proof -
  have s0: "gs_capacity s0 = 1" "gs_len s0 = 0" "gs_free_head s0 = None"
    "gs_slots s0 = [\<lparr>gt_generation = 0, gt_state = Free None\<rparr>]"
    using assms by (auto simp: gen_with_generation_def split: if_splits option.splits sum.splits prod.splits)
  let ?h = "\<lambda>i. \<lparr>hd_index = 0, hd_generation = word_of_nat i :: 'w word\<rparr>" and ?N = "2 ^ LENGTH('w) :: nat"
  have churn: "gen_churn ?N v s0 = (map ?h [0..<?N], gen_between s0 0)"
    using gen_churn_one [OF s0, of ?N v] by (simp add: word_unat_eq_iff unat_word_of_nat)
  have dist: "distinct (map ?h [0..<?N])"
    by (auto simp: distinct_map inj_on_def word_unat_eq_iff unat_word_of_nat)
  have "1 < ?N" by (rule one_less_power) simp_all
  then have one: "\<lparr>hd_index = 0, hd_generation = 1\<rparr> \<in> set (map ?h [0..<?N])"
    by (auto simp: image_iff intro!: bexI [of _ 1])
  obtain s3 where s3: "gen_insert v (gen_between s0 1) = (Inr \<lparr>hd_index = 0, hd_generation = 1\<rparr>, s3)"
    "gen_get s3 \<lparr>hd_index = 0, hd_generation = 1\<rparr> = Some v"
    using gen_retired(4) [OF s0(1)] by blast
  show ?thesis
    unfolding churn fst_conv using dist one s3 gen_retired(1-3) [OF s0(1)]
    by (intro exI [of _ "gen_between s0 0"] exI [of _ "gen_between s0 1"] exI [of _ s3] conjI allI)
      (simp_all add: gen_between_def)
qed

theorem generational_wrap_reissues_witness:
  "\<exists>s1 s2 s3. fst (gen_churn (2 ^ 32) 5 demo_gen) = map (\<lambda>i. \<lparr>hd_index = 0, hd_generation = word_of_nat i\<rparr>) [0..<2 ^ 32] \<and>
     snd (gen_churn (2 ^ 32) 5 demo_gen) = s1 \<and> gen_insert 5 s1 = (Inl AllocError, s1) \<and>
     gen_remove \<lparr>hd_index = 0, hd_generation = 0\<rparr> s1 = (None, s2) \<and>
     gen_insert 5 s2 = (Inr \<lparr>hd_index = 0, hd_generation = 1\<rparr>, s3)"
proof -
  have "LENGTH(32) = 32" by simp
  with generational_wrap_reissues [OF demo_gen_new, where v = 5] show ?thesis by (elim exE conjE) (auto simp del: upt_rec_numeral)
qed

text \<open>
  Drop runs the destructor of exactly the values still stored and then gives the slot array
  back to the backing, without panicking, whatever values and links the slots held.
\<close>

theorem generational_drop_releases:
  assumes "ranged_contract A ainv R" "ainv b m {}"
    "gen_with_generation A R S capacity (b, m) = (Inr s0, b', m')"
    "gen_run (s0, {}) k (s, I)"
    "same_on (- footprint {(gen_slots_ptr R s0, gs_backing_layout s0, lay_size (gs_backing_layout s0))}) m' m1"
  shows "set (fst (gen_drop A R (s, m1))) = ran (gen_get s) \<and>
    (\<exists>b2 m2. snd (gen_drop A R (s, m1)) = Done (b2, m2) \<and> ainv b2 m2 {})"
proof -
  have f: "gs_backing s = gs_backing s0 \<and> gs_slots_offset s = gs_slots_offset s0 \<and>
      gs_backing_layout s = gs_backing_layout s0 \<and> length (gs_slots s) = unat (gs_capacity s)"
    by (rule gen_run_frame [OF assms(4)]) (use gen_new_slots(1) [OF assms(3)] in \<open>simp add: gen_issued_def gen_inv_def\<close>)
  obtain n where n: "ainv b' m' {(gen_slots_ptr R s0, gs_backing_layout s0, n)}"
    using ranged_contract.gen_new_drop(1) [OF assms(1,3,2)] by blast
  have "block_ok (gs_backing_layout s0) (gen_slots_ptr R s0) n"
    using ranged_contract.axioms(1) [OF assms(1)] n
    by (auto simp: allocator_contract_def dest: allocator_core.inv_live simp: live_ok_def)
  then have "footprint {(gen_slots_ptr R s0, gs_backing_layout s0, lay_size (gs_backing_layout s0))} \<subseteq>
      footprint {(gen_slots_ptr R s0, gs_backing_layout s0, n)}"
    by (auto simp: footprint_def block_ok_def span_def word_le_nat_alt word_less_nat_alt)
  then have "same_on (- footprint {(gen_slots_ptr R s0, gs_backing_layout s0, n)}) m' m1"
    using assms(5) by (auto simp: same_on_def)
  then show ?thesis
    using ranged_contract.gen_new_drop(2) [OF assms(1,3,2), of s n m1] f n
      gen_drop_values [of s A R m1] by blast
qed

theorem generational_drop_releases_witness:
  "\<exists>b2 m2. snd (gen_drop (inline_allocator 256) (inline_range 256) (demo_gen, zero_mem)) = Done (b2, m2) \<and>
     inline_inv 256 b2 m2 {}"
  using generational_drop_releases [OF inline.ranged_contract_axioms demo_inline_ok demo_gen_new gen_start,
      of zero_mem zero_mem] by (simp add: same_on_def)

end
