(* ===== verification/Untyped_Slab.thy ===== *)
theory Untyped_Slab
  imports Slot_Region
begin

text \<open>
  \<open>UntypedSlab\<close> of \<open>forge-alloc/src/layout/size_classed.rs\<close>: one size class of \<open>SizeClassed\<close>, a
  region of equal slots with an unprotected free list. It holds an offset only; the base of the
  backing is passed to every operation.
\<close>

section \<open>State and operations\<close>

record untyped_slab =
  us_base_offset :: usize
  us_block_stride :: usize
  us_capacity :: u32
  us_free_head :: u32
  us_next_uncarved :: u32
  us_corruption_events :: usize

definition untyped_new :: "usize \<Rightarrow> usize \<Rightarrow> u32 \<Rightarrow> untyped_slab" where
  "untyped_new base_offset block_stride capacity =
     \<lparr>us_base_offset = base_offset, us_block_stride = block_stride, us_capacity = capacity,
      us_free_head = 0, us_next_uncarved = 0, us_corruption_events = 0\<rparr>"

definition untyped_base_ptr :: "addr \<Rightarrow> untyped_slab \<Rightarrow> addr" where
  "untyped_base_ptr backing_base u = backing_base + us_base_offset u"

definition untyped_slot_ptr :: "addr \<Rightarrow> untyped_slab \<Rightarrow> u32 \<Rightarrow> addr" where
  "untyped_slot_ptr backing_base u idx =
     untyped_base_ptr backing_base u + ucast idx * us_block_stride u"

definition untyped_slot_index :: "addr \<Rightarrow> untyped_slab \<Rightarrow> addr \<Rightarrow> u32 option" where
  "untyped_slot_index backing_base u p =
     (let base = untyped_base_ptr backing_base u
      in if p < base then None
         else let offset = p - base
              in if offset mod us_block_stride u \<noteq> 0 then None
                 else let idx = offset div us_block_stride u
                      in if idx \<ge> ucast (us_capacity u) then None
                         else if idx > ucast (- 1 :: u32) then None
                         else Some (ucast idx))"

definition untyped_allocate_slot ::
  "addr \<Rightarrow> mem \<Rightarrow> untyped_slab \<Rightarrow> addr option \<times> untyped_slab" where
  "untyped_allocate_slot backing_base m u =
     (let carve = (\<lambda>u. let nuc = us_next_uncarved u
                       in if nuc \<ge> us_capacity u then (None, u)
                          else (Some (untyped_slot_ptr backing_base u nuc),
                                u\<lparr>us_next_uncarved := nuc + 1\<rparr>));
          head = us_free_head u
      in if head \<noteq> 0
         then let slot_ptr = untyped_slot_ptr backing_base u (head - 1);
                  next_idx = read_u32 m slot_ptr
              in if next_idx > us_capacity u
                 then carve (u\<lparr>us_corruption_events := us_corruption_events u + 1,
                               us_free_head := 0\<rparr>)
                 else (Some slot_ptr, u\<lparr>us_free_head := next_idx\<rparr>)
         else carve u)"

definition untyped_free_slot ::
  "addr \<Rightarrow> addr \<Rightarrow> mem \<Rightarrow> untyped_slab \<Rightarrow> untyped_slab \<times> mem" where
  "untyped_free_slot backing_base p m u =
     (case untyped_slot_index backing_base u p of
        None \<Rightarrow> (u\<lparr>us_corruption_events := us_corruption_events u + 1\<rparr>, m)
      | Some idx \<Rightarrow> (u\<lparr>us_free_head := idx + 1\<rparr>, write_u32 m p (us_free_head u)))"

section \<open>The invariant of a class\<close>

definition untyped_ok :: "addr \<Rightarrow> untyped_slab \<Rightarrow> bool" where
  "untyped_ok bb u \<longleftrightarrow>
     region_ok (untyped_base_ptr bb u) (us_block_stride u) (us_capacity u) \<and>
     is_pow2 (us_block_stride u) \<and> unat (us_block_stride u) dvd unat (untyped_base_ptr bb u)"

definition untyped_inv :: "addr \<Rightarrow> untyped_slab \<Rightarrow> mem \<Rightarrow> live \<Rightarrow> bool" where
  "untyped_inv bb u m L \<longleftrightarrow> untyped_ok bb u \<and>
     (\<exists>fs. slots_live True (untyped_base_ptr bb u) (us_block_stride u) (us_capacity u)
             (us_next_uncarved u) fs L \<and>
        free_chain (\<lambda>i. read_u32 m (untyped_slot_ptr bb u i)) (us_free_head u) fs)"

definition untyped_region :: "addr \<Rightarrow> untyped_slab \<Rightarrow> addr set" where
  "untyped_region bb u = region_bytes (untyped_base_ptr bb u) (us_block_stride u) (us_capacity u)"

lemma untyped_slot_ptr_eq:
  "untyped_slot_ptr bb u i = slot_addr (untyped_base_ptr bb u) (us_block_stride u) i"
  by (simp add: untyped_slot_ptr_def slot_addr_def)

lemma untyped_slot_index_eq:
  "untyped_slot_index bb u p =
     find_slot (untyped_base_ptr bb u) (us_block_stride u) (us_capacity u) p"
proof -
  have "\<not> idx > ucast (- 1 :: u32)" if "idx < ucast (us_capacity u)" for idx :: usize
  proof -
    have "unat (us_capacity u) \<le> unat (- 1 :: u32)"
      using unsigned_less [of "us_capacity u", where ?'a = nat] by (simp add: unat_minus_one_word)
    then have "(ucast (us_capacity u) :: usize) \<le> ucast (- 1 :: u32)"
      by (simp add: word_le_nat_alt)
    with that show ?thesis by auto
  qed
  then show ?thesis
    by (auto simp: untyped_slot_index_def find_slot_def Let_def not_le)
qed

lemma untyped_frame [simp]:
  "untyped_base_ptr bb (u\<lparr>us_free_head := h\<rparr>) = untyped_base_ptr bb u"
  "untyped_base_ptr bb (u\<lparr>us_next_uncarved := k\<rparr>) = untyped_base_ptr bb u"
  "untyped_slot_ptr bb (u\<lparr>us_free_head := h\<rparr>) = untyped_slot_ptr bb u"
  "untyped_slot_ptr bb (u\<lparr>us_next_uncarved := k\<rparr>) = untyped_slot_ptr bb u"
  "untyped_ok bb (u\<lparr>us_free_head := h\<rparr>) = untyped_ok bb u"
  "untyped_ok bb (u\<lparr>us_next_uncarved := k\<rparr>) = untyped_ok bb u"
  by (simp_all add: untyped_base_ptr_def untyped_slot_ptr_def untyped_ok_def fun_eq_iff)

lemma untyped_invE:
  assumes "untyped_inv bb u m L"
  obtains fs where "region_ok (untyped_base_ptr bb u) (us_block_stride u) (us_capacity u)"
    "slots_live True (untyped_base_ptr bb u) (us_block_stride u) (us_capacity u) (us_next_uncarved u) fs L"
    "free_chain (\<lambda>i. read_u32 m (untyped_slot_ptr bb u i)) (us_free_head u) fs"
    "\<forall>i \<in> set fs. i < us_capacity u"
proof -
  from assms obtain fs where *: "untyped_ok bb u"
    "slots_live True (untyped_base_ptr bb u) (us_block_stride u) (us_capacity u) (us_next_uncarved u) fs L"
    "free_chain (\<lambda>i. read_u32 m (untyped_slot_ptr bb u i)) (us_free_head u) fs"
    by (auto simp: untyped_inv_def)
  moreover have "\<forall>i \<in> set fs. i < us_capacity u"
    using slots_liveD(2,4) [OF *(2)] by fastforce
  ultimately show thesis using that by (auto simp: untyped_ok_def)
qed

lemma untyped_live:
  assumes "untyped_inv bb u m L"
  shows "live_ok L" "footprint L \<subseteq> untyped_region bb u"
    "(p, lay, n) \<in> L \<Longrightarrow> n = us_block_stride u"
  using assms
  by (auto elim!: untyped_invE simp: untyped_region_def dest: slots_liveD(1) slots_live_footprint
      elim: slots_live_slot)

text \<open>A slot serves every request that is no larger and no more aligned than the stride.\<close>

lemma untyped_slot_block_ok:
  assumes "untyped_ok bb u" "i < us_capacity u" "valid_layout lay"
    "lay_size lay \<le> us_block_stride u" "lay_align lay \<le> us_block_stride u"
  shows "block_ok lay (untyped_slot_ptr bb u i) (us_block_stride u)"
proof -
  have r: "region_ok (untyped_base_ptr bb u) (us_block_stride u) (us_capacity u)"
    and "is_pow2 (us_block_stride u)" "unat (us_block_stride u) dvd unat (untyped_base_ptr bb u)"
    using assms(1) by (auto simp: untyped_ok_def)
  then have "unat (us_block_stride u) dvd unat (untyped_slot_ptr bb u i)"
    unfolding untyped_slot_ptr_eq by (intro slot_aligned [OF r assms(2)]) auto
  moreover have "unat (lay_align lay) dvd unat (us_block_stride u)"
    using assms(3,5) \<open>is_pow2 (us_block_stride u)\<close> by (intro is_pow2_dvd) (auto dest: valid_layoutD(3))
  ultimately have "unat (lay_align lay) dvd unat (untyped_slot_ptr bb u i)" by (rule dvd_trans [rotated])
  then show ?thesis
    using assms(3,4) slot_addr_no_wrap [OF r assms(2)] by (simp add: block_ok_def untyped_slot_ptr_eq)
qed

lemma untyped_links_cong:
  assumes "region_ok (untyped_base_ptr bb u) (us_block_stride u) (us_capacity u)"
    and "free_chain (\<lambda>i. read_u32 m (untyped_slot_ptr bb u i)) h fs" "\<forall>i \<in> set fs. i < us_capacity u"
    and "\<And>i. i \<in> set fs \<Longrightarrow> same_on (span (untyped_slot_ptr bb u i) (us_block_stride u)) m m'"
  shows "free_chain (\<lambda>i. read_u32 m' (untyped_slot_ptr bb u i)) h fs"
proof (rule free_chain_cong [OF assms(2)])
  fix i assume i: "i \<in> set fs"
  have "span (untyped_slot_ptr bb u i) 4 \<subseteq> span (untyped_slot_ptr bb u i) (us_block_stride u)"
    using assms(1) by (intro span_mono) (simp add: region_ok_def word_le_nat_alt)
  then have "same_on (span (untyped_slot_ptr bb u i) 4) m m'"
    using assms(4) [OF i] by (auto simp: same_on_def)
  then show "read_u32 m' (untyped_slot_ptr bb u i) = read_u32 m (untyped_slot_ptr bb u i)"
    by (rule read_u32_cong)
qed

text \<open>The class survives any write outside its free slots.\<close>

lemma untyped_off_live:
  assumes inv: "untyped_inv bb u m L" and same: "same_on (untyped_region bb u - footprint L) m m'"
  shows "untyped_inv bb u m' L"
proof -
  obtain fs where r: "region_ok (untyped_base_ptr bb u) (us_block_stride u) (us_capacity u)"
    and sl: "slots_live True (untyped_base_ptr bb u) (us_block_stride u) (us_capacity u) (us_next_uncarved u) fs L"
    and ch: "free_chain (\<lambda>i. read_u32 m (untyped_slot_ptr bb u i)) (us_free_head u) fs"
    and lt: "\<forall>i \<in> set fs. i < us_capacity u"
    using inv by (rule untyped_invE)
  have "free_chain (\<lambda>i. read_u32 m' (untyped_slot_ptr bb u i)) (us_free_head u) fs"
  proof (rule untyped_links_cong [OF r ch lt])
    fix i assume i: "i \<in> set fs"
    have "span (untyped_slot_ptr bb u i) (us_block_stride u) \<inter> footprint L = {}"
      unfolding untyped_slot_ptr_eq using slots_live_free [OF r sl] lt i by blast
    moreover have "span (untyped_slot_ptr bb u i) (us_block_stride u) \<subseteq> untyped_region bb u"
      unfolding untyped_slot_ptr_eq untyped_region_def using slot_in_region [OF r] lt i by blast
    ultimately show "same_on (span (untyped_slot_ptr bb u i) (us_block_stride u)) m m'"
      using same by (auto simp: same_on_def)
  qed
  then show ?thesis using inv sl by (auto simp: untyped_inv_def)
qed

lemma untyped_allocate_inv:
  assumes inv: "untyped_inv bb u m L" and lay: "valid_layout lay"
    and fit: "lay_size lay \<le> us_block_stride u" "lay_align lay \<le> us_block_stride u"
    and al: "untyped_allocate_slot bb m u = (r, u')"
  shows "case r of None \<Rightarrow> u' = u
    | Some p \<Rightarrow> block_ok lay p (us_block_stride u) \<and> span p (us_block_stride u) \<inter> footprint L = {} \<and>
        span p (us_block_stride u) \<subseteq> untyped_region bb u \<and>
        untyped_inv bb u' m (insert (p, lay, us_block_stride u) L)"
    "us_base_offset u' = us_base_offset u" "us_block_stride u' = us_block_stride u"
    "us_capacity u' = us_capacity u"
proof -
  obtain fs where r: "region_ok (untyped_base_ptr bb u) (us_block_stride u) (us_capacity u)"
    and sl: "slots_live True (untyped_base_ptr bb u) (us_block_stride u) (us_capacity u) (us_next_uncarved u) fs L"
    and ch: "free_chain (\<lambda>i. read_u32 m (untyped_slot_ptr bb u i)) (us_free_head u) fs"
    and lt: "\<forall>i \<in> set fs. i < us_capacity u"
    using inv by (rule untyped_invE)
  have ok: "untyped_ok bb u" using inv by (simp add: untyped_inv_def)
  show "us_base_offset u' = us_base_offset u" "us_block_stride u' = us_block_stride u"
    "us_capacity u' = us_capacity u"
    using al by (auto simp: untyped_allocate_slot_def Let_def split: if_splits)
  show "case r of None \<Rightarrow> u' = u
    | Some p \<Rightarrow> block_ok lay p (us_block_stride u) \<and> span p (us_block_stride u) \<inter> footprint L = {} \<and>
        span p (us_block_stride u) \<subseteq> untyped_region bb u \<and>
        untyped_inv bb u' m (insert (p, lay, us_block_stride u) L)"
  proof (cases fs)
    case Nil
    then have h: "us_free_head u = 0" using ch by simp
    show ?thesis
    proof (cases "us_next_uncarved u \<ge> us_capacity u")
      case True
      then show ?thesis using al h by (auto simp: untyped_allocate_slot_def Let_def)
    next
      case False
      then have nu: "us_next_uncarved u < us_capacity u" by simp
      note b = untyped_slot_block_ok [OF ok nu lay fit]
      note c = slots_live_carve [OF r sl nu b [unfolded untyped_slot_ptr_eq], folded untyped_slot_ptr_eq]
      have "r = Some (untyped_slot_ptr bb u (us_next_uncarved u))"
        "u' = u\<lparr>us_next_uncarved := us_next_uncarved u + 1\<rparr>"
        using al h False by (auto simp: untyped_allocate_slot_def Let_def)
      then show ?thesis
        using b c ok ch slot_in_region [OF r nu]
        by (auto simp: untyped_inv_def untyped_region_def untyped_slot_ptr_eq)
    qed
  next
    case (Cons i fs')
    let ?p = "untyped_slot_ptr bb u i"
    have h: "us_free_head u = i + 1" "i + 1 \<noteq> 0"
      and ch': "free_chain (\<lambda>i. read_u32 m (untyped_slot_ptr bb u i)) (read_u32 m ?p) fs'"
      using ch by (auto simp: Cons)
    have i: "i < us_capacity u" using lt Cons by simp
    have le: "read_u32 m ?p \<le> us_capacity u"
      by (rule free_chain_head [OF ch']) (use lt Cons in auto)
    note b = untyped_slot_block_ok [OF ok i lay fit]
    note c = slots_live_pop [OF r sl [unfolded Cons] b [unfolded untyped_slot_ptr_eq], folded untyped_slot_ptr_eq]
    have "\<not> us_capacity u < read_u32 m ?p" using le by (simp add: not_less)
    then have "r = Some ?p" "u' = u\<lparr>us_free_head := read_u32 m ?p\<rparr>"
      using al h by (auto simp: untyped_allocate_slot_def Let_def)
    then show ?thesis
      using b c ok ch' slot_in_region [OF r i]
      by (auto simp: untyped_inv_def untyped_region_def untyped_slot_ptr_eq)
  qed
qed

lemma untyped_free_inv:
  assumes inv: "untyped_inv bb u m L" and mem: "(p, lay, n) \<in> L"
    and fr: "untyped_free_slot bb p m u = (u', m')"
  shows "untyped_inv bb u' m' (L - {(p, lay, n)})" "a \<notin> span p n \<Longrightarrow> m' a = m a"
    "us_base_offset u' = us_base_offset u" "us_block_stride u' = us_block_stride u"
    "us_capacity u' = us_capacity u" "us_corruption_events u' = us_corruption_events u"
proof -
  obtain fs where r: "region_ok (untyped_base_ptr bb u) (us_block_stride u) (us_capacity u)"
    and sl: "slots_live True (untyped_base_ptr bb u) (us_block_stride u) (us_capacity u) (us_next_uncarved u) fs L"
    and ch: "free_chain (\<lambda>i. read_u32 m (untyped_slot_ptr bb u i)) (us_free_head u) fs"
    and lt: "\<forall>i \<in> set fs. i < us_capacity u"
    using inv by (rule untyped_invE)
  have ok: "untyped_ok bb u" using inv by (simp add: untyped_inv_def)
  obtain i where i: "n = us_block_stride u" "i < us_capacity u" "i \<notin> set fs" "p = untyped_slot_ptr bb u i"
    using slots_live_slot [OF sl mem] by (metis untyped_slot_ptr_eq)
  have ix: "untyped_slot_index bb u p = Some i"
    by (simp add: untyped_slot_index_eq i(4) untyped_slot_ptr_eq find_slot_slot_addr [OF r i(2)])
  then have u': "u' = u\<lparr>us_free_head := i + 1\<rparr>" and m': "m' = write_u32 m p (us_free_head u)"
    using fr by (auto simp: untyped_free_slot_def)
  show "us_base_offset u' = us_base_offset u" "us_block_stride u' = us_block_stride u"
    "us_capacity u' = us_capacity u" "us_corruption_events u' = us_corruption_events u"
    by (simp_all add: u')
  have s4: "span p 4 \<subseteq> span p n"
    using r i(1) by (intro span_mono) (simp add: region_ok_def word_le_nat_alt)
  show off: "m' a = m a" if "a \<notin> span p n" for a
  proof -
    have "a \<notin> span p 4" using that s4 by blast
    then show ?thesis by (simp add: m' write_u32_other)
  qed
  have nw: "no_wrap p 4"
    using slot_addr_no_wrap(1) [OF r i(2)] r i(4)
    by (auto simp: no_wrap_def region_ok_def untyped_slot_ptr_eq)
  have "free_chain (\<lambda>i. read_u32 m' (untyped_slot_ptr bb u i)) (us_free_head u) fs"
  proof (rule untyped_links_cong [OF r ch lt])
    fix j assume "j \<in> set fs"
    then have "span (untyped_slot_ptr bb u j) (us_block_stride u) \<inter> span p n = {}"
      using slot_disjoint [OF r _ i(2), of j] lt i by (auto simp: untyped_slot_ptr_eq)
    then show "same_on (span (untyped_slot_ptr bb u j) (us_block_stride u)) m m'"
      using off by (auto simp: same_on_def)
  qed
  moreover have "read_u32 m' p = us_free_head u" by (simp add: m' read_write_u32 nw)
  moreover have "i + 1 \<noteq> 0"
    using i(2) by (metis add.commute add_diff_cancel_right' diff_0 word_order.extremum_strict)
  ultimately have "free_chain (\<lambda>i. read_u32 m' (untyped_slot_ptr bb u i)) (i + 1) (i # fs)"
    by (simp add: i(4))
  moreover have "slots_live True (untyped_base_ptr bb u) (us_block_stride u) (us_capacity u)
      (us_next_uncarved u) (i # fs) (L - {(p, lay, n)})"
    using slots_live_push(1) [OF r sl, of i lay n] mem i by (simp add: untyped_slot_ptr_eq)
  ultimately show "untyped_inv bb u' m' (L - {(p, lay, n)})"
    using ok by (auto simp: untyped_inv_def u')
qed

end
