(* ===== verification/Class_Table.thy ===== *)
theory Class_Table
  imports Untyped_Slab
begin

text \<open>
  The routing table of \<open>SizeClassed\<close> (\<open>forge-alloc/src/layout/size_classed.rs\<close>): the validation of
  the class sizes, the two passes of the constructor that fill the 32-entry \<open>class_lookup\<close>, and
  \<open>pick_class\<close>, which reads it. \<open>pick_class_iff\<close> says that the table finds the least class that
  fits.
\<close>

definition DEFAULT_CLASS_SIZES_8 :: "usize list" where
  "DEFAULT_CLASS_SIZES_8 = [8, 16, 32, 64, 128, 256, 512, 1024]"

definition CLASS_LOOKUP_NONE :: u8 where
  "CLASS_LOOKUP_NONE = - 1"

text \<open>\<open>usize::next_power_of_two\<close> of a value up to \<open>2^63\<close>.\<close>

definition next_power_of_two :: "usize \<Rightarrow> usize" where
  "next_power_of_two x = hd (filter (\<lambda>p. x \<le> p) (map (\<lambda>k. 2 ^ k) [0..<64]))"

primrec class_sizes_valid :: "usize \<Rightarrow> usize list \<Rightarrow> bool" where
  "class_sizes_valid prev [] \<longleftrightarrow> True"
| "class_sizes_valid prev (s # ss) \<longleftrightarrow>
     \<not> (s < 4 \<or> \<not> is_pow2 s \<or> s \<le> prev) \<and> class_sizes_valid s ss"

text \<open>First pass: each class marks its bit. Second pass, right to left: gaps round up.\<close>

primrec lookup_mark :: "nat \<Rightarrow> usize list \<Rightarrow> u8 list \<Rightarrow> u8 list" where
  "lookup_mark i [] t = t"
| "lookup_mark i (s # ss) t =
     (let bit = trailing_zeros s
      in lookup_mark (Suc i) ss
           (if bit < length t \<and> t ! bit = CLASS_LOOKUP_NONE then t[bit := word_of_nat i] else t))"

primrec lookup_fill :: "u8 list \<Rightarrow> u8 list \<times> u8" where
  "lookup_fill [] = ([], CLASS_LOOKUP_NONE)"
| "lookup_fill (x # xs) =
     (case lookup_fill xs of (ys, next) \<Rightarrow>
        if x \<noteq> CLASS_LOOKUP_NONE then (x # ys, x) else (next # ys, next))"

definition class_lookup :: "usize list \<Rightarrow> u8 list" where
  "class_lookup class_sizes =
     fst (lookup_fill (lookup_mark 0 class_sizes (replicate 32 CLASS_LOOKUP_NONE)))"

definition pick_class :: "u8 list \<Rightarrow> usize \<Rightarrow> usize \<Rightarrow> nat option" where
  "pick_class lookup sz al =
     (let req = (if sz > al then sz else al)
      in if req > 2 ^ 63 then None
         else let bit = trailing_zeros (next_power_of_two req)
              in if bit \<ge> length lookup then None
                 else let idx = lookup ! bit
                      in if idx = CLASS_LOOKUP_NONE then None else Some (unat idx))"

section \<open>The class sizes\<close>

lemma class_sizes_valid_iff:
  "class_sizes_valid prev ss \<longleftrightarrow>
     sorted_wrt (<) (prev # ss) \<and> (\<forall>s \<in> set ss. 4 \<le> s \<and> is_pow2 s)"
proof (induction ss arbitrary: prev)
  case (Cons s ss)
  then show ?case by (auto simp: not_le not_less)
qed simp

lemma class_sizes_validD:
  assumes "class_sizes_valid prev ss" "i < length ss"
  shows "4 \<le> ss ! i" "is_pow2 (ss ! i)" "j < i \<Longrightarrow> ss ! j < ss ! i"
  using assms by (auto simp: class_sizes_valid_iff) (simp add: sorted_wrt_iff_nth_less)

lemma pow2_word_le_iff:
  assumes "j < 64" "k < 64"
  shows "(2 :: usize) ^ j \<le> 2 ^ k \<longleftrightarrow> j \<le> k" "(2 :: usize) ^ j < 2 ^ k \<longleftrightarrow> j < k"
proof -
  have "unat ((2 :: usize) ^ n) = 2 ^ n" if n: "n < 64" for n
  proof -
    obtain k where "k < 64" "(2 :: usize) ^ n = 2 ^ k" "unat ((2 :: usize) ^ n) = 2 ^ k"
      by (rule is_pow2E [OF is_pow2I [OF n refl]])
    then show ?thesis using n by (metis trailing_zeros_pow2)
  qed
  then show "(2 :: usize) ^ j \<le> 2 ^ k \<longleftrightarrow> j \<le> k" "(2 :: usize) ^ j < 2 ^ k \<longleftrightarrow> j < k"
    using assms by (simp_all add: word_le_nat_alt word_less_nat_alt)
qed

text \<open>The bit of a class.\<close>

lemma is_pow2_bit:
  assumes "is_pow2 s"
  shows "trailing_zeros s < 64" "s = 2 ^ trailing_zeros s"
  using assms by (auto elim!: is_pow2E simp: trailing_zeros_pow2)

lemma class_bits:
  assumes "class_sizes_valid prev ss" "i < length ss" "j < length ss"
  shows "trailing_zeros (ss ! j) < trailing_zeros (ss ! i) \<longleftrightarrow> j < i"
    "trailing_zeros (ss ! j) = trailing_zeros (ss ! i) \<longleftrightarrow> j = i"
proof -
  note p = is_pow2_bit [OF class_sizes_validD(2) [OF assms(1,2)]]
    is_pow2_bit [OF class_sizes_validD(2) [OF assms(1,3)]]
  have lt: "trailing_zeros (ss ! l) < trailing_zeros (ss ! k)" if "l < k" "k < length ss" for k l
  proof -
    have "is_pow2 (ss ! k)" "is_pow2 (ss ! l)" "ss ! l < ss ! k"
      using class_sizes_validD [OF assms(1)] that by auto
    then show ?thesis by (metis is_pow2_bit pow2_word_le_iff(2))
  qed
  show "trailing_zeros (ss ! j) < trailing_zeros (ss ! i) \<longleftrightarrow> j < i"
    "trailing_zeros (ss ! j) = trailing_zeros (ss ! i) \<longleftrightarrow> j = i"
    using lt [of i j] lt [of j i] assms by (metis less_asym nat_neq_iff)+
qed

section \<open>The table\<close>

definition lookup_first :: "u8 list \<Rightarrow> u8" where
  "lookup_first xs =
     (case List.find (\<lambda>x. x \<noteq> CLASS_LOOKUP_NONE) xs of None \<Rightarrow> CLASS_LOOKUP_NONE | Some x \<Rightarrow> x)"

lemma lookup_fill_snd: "snd (lookup_fill xs) = lookup_first xs"
  by (induction xs) (auto simp: lookup_first_def split: prod.splits)

lemma lookup_fill_length: "length (fst (lookup_fill xs)) = length xs"
  by (induction xs) (auto split: prod.splits)

lemma lookup_fill_nth: "k < length xs \<Longrightarrow> fst (lookup_fill xs) ! k = lookup_first (drop k xs)"
proof (induction xs arbitrary: k)
  case (Cons x xs)
  have "fst (lookup_fill (x # xs)) = lookup_first (x # xs) # fst (lookup_fill xs)"
    using lookup_fill_snd [of xs] by (auto simp: lookup_first_def split: prod.splits)
  then show ?case using Cons by (cases k) auto
qed simp

lemma lookup_first_eq:
  assumes "v \<noteq> CLASS_LOOKUP_NONE"
  shows "lookup_first (drop k xs) = v \<longleftrightarrow>
    (\<exists>l. k \<le> l \<and> l < length xs \<and> xs ! l = v \<and> (\<forall>j. k \<le> j \<longrightarrow> j < l \<longrightarrow> xs ! j = CLASS_LOOKUP_NONE))"
proof -
  have "lookup_first (drop k xs) = v \<longleftrightarrow>
      List.find (\<lambda>x. x \<noteq> CLASS_LOOKUP_NONE) (drop k xs) = Some v"
    using assms by (auto simp: lookup_first_def split: option.splits)
  also have "\<dots> \<longleftrightarrow> (\<exists>i < length xs - k. xs ! (k + i) = v \<and>
      (\<forall>j < i. xs ! (k + j) = CLASS_LOOKUP_NONE))"
    using assms by (auto simp: find_Some_iff)
  also have "\<dots> \<longleftrightarrow> (\<exists>l. k \<le> l \<and> l < length xs \<and> xs ! l = v \<and>
      (\<forall>j. k \<le> j \<longrightarrow> j < l \<longrightarrow> xs ! j = CLASS_LOOKUP_NONE))" (is "?a \<longleftrightarrow> ?b")
  proof
    assume ?a
    then obtain i where i: "i < length xs - k" "xs ! (k + i) = v"
      "\<forall>j < i. xs ! (k + j) = CLASS_LOOKUP_NONE" by blast
    have "xs ! j = CLASS_LOOKUP_NONE" if "k \<le> j" "j < k + i" for j
      using i(3) [rule_format, of "j - k"] that by simp
    then show ?b using i(1,2) by (intro exI [of _ "k + i"]) auto
  next
    assume ?b
    then obtain l where "k \<le> l" "l < length xs" "xs ! l = v"
      "\<forall>j. k \<le> j \<longrightarrow> j < l \<longrightarrow> xs ! j = CLASS_LOOKUP_NONE" by blast
    then show ?a by (intro exI [of _ "l - k"]) auto
  qed
  finally show ?thesis .
qed

lemma class_index_unat: "i < 255 \<Longrightarrow> unat (word_of_nat i :: u8) = i"
  by (simp add: unat_word_of_nat)

lemma class_index_not_none: "i < 255 \<Longrightarrow> (word_of_nat i :: u8) \<noteq> CLASS_LOOKUP_NONE"
proof
  assume "i < 255" "(word_of_nat i :: u8) = CLASS_LOOKUP_NONE"
  then have "i = unat (- 1 :: u8)" using class_index_unat [of i] by (simp add: CLASS_LOOKUP_NONE_def)
  then show False using \<open>i < 255\<close> by (simp add: unat_minus_one_word)
qed

lemma lookup_mark_length [simp]: "length (lookup_mark i ss t) = length t"
  by (induction ss arbitrary: i t) (simp_all add: Let_def)

lemma lookup_mark_keep:
  "k < length t \<Longrightarrow> t ! k \<noteq> CLASS_LOOKUP_NONE \<Longrightarrow> lookup_mark i ss t ! k = t ! k"
  by (induction ss arbitrary: i t) (auto simp: Let_def nth_list_update)

lemma lookup_mark_off:
  "k < length t \<Longrightarrow> (\<And>s. s \<in> set ss \<Longrightarrow> trailing_zeros s \<noteq> k) \<Longrightarrow> lookup_mark i ss t ! k = t ! k"
  by (induction ss arbitrary: i t) (auto simp: Let_def)

lemma lookup_mark_on:
  assumes "k < length t" "t ! k = CLASS_LOOKUP_NONE" "i + length ss \<le> 255"
    "distinct (map trailing_zeros ss)" "j < length ss" "trailing_zeros (ss ! j) = k"
  shows "lookup_mark i ss t ! k = word_of_nat (i + j)"
  using assms
proof (induction ss arbitrary: i t j)
  case (Cons s ss)
  show ?case
  proof (cases j)
    case 0
    have "lookup_mark i (s # ss) t ! k = lookup_mark (Suc i) ss (t[k := word_of_nat i]) ! k"
      using Cons.prems 0 by (simp add: Let_def)
    also have "\<dots> = word_of_nat i"
      using Cons.prems class_index_not_none [of i] by (subst lookup_mark_keep) auto
    finally show ?thesis using 0 by simp
  next
    case (Suc j')
    have ne: "trailing_zeros s \<noteq> k" using Cons.prems Suc by auto
    let ?t = "if trailing_zeros s < length t \<and> t ! trailing_zeros s = CLASS_LOOKUP_NONE
      then t[trailing_zeros s := word_of_nat i] else t"
    have "lookup_mark (Suc i) ss ?t ! k = word_of_nat (Suc i + j')"
      by (rule Cons.IH) (use Cons.prems Suc ne in \<open>auto\<close>)
    then show ?thesis by (simp add: Let_def Suc)
  qed
qed simp

lemma next_power_of_two_bit:
  assumes "x \<le> 2 ^ 63"
  obtains b where "b < 64" "next_power_of_two x = 2 ^ b" "\<forall>k < 64. x \<le> 2 ^ k \<longleftrightarrow> b \<le> k"
proof -
  let ?b = "LEAST k. x \<le> (2 :: usize) ^ k"
  have x: "x \<le> 2 ^ ?b" and b: "?b < 64"
    using LeastI [of "\<lambda>k. x \<le> 2 ^ k", OF assms] Least_le [of "\<lambda>k. x \<le> 2 ^ k", OF assms] by auto
  have low: "\<not> x \<le> 2 ^ k" if "k < ?b" for k
    using not_less_Least [OF that] .
  have "[0..<64] = [0..<?b] @ ?b # [Suc ?b..<64]"
    using b by (metis le_add_diff_inverse less_imp_le_nat upt_add_eq_append upt_conv_Cons zero_le)
  then have "filter (\<lambda>p. x \<le> p) (map (\<lambda>k. 2 ^ k) [0..<64]) =
      filter (\<lambda>p. x \<le> p) (map (\<lambda>k. 2 ^ k) [0..<?b]) @ 2 ^ ?b # filter (\<lambda>p. x \<le> p) (map (\<lambda>k. 2 ^ k) [Suc ?b..<64])"
    using x by simp
  moreover have "filter (\<lambda>p. x \<le> p) (map (\<lambda>k. 2 ^ k) [0..<?b]) = []"
    using low by (auto simp: filter_empty_conv)
  ultimately have "next_power_of_two x = 2 ^ ?b" by (simp add: next_power_of_two_def)
  moreover have "x \<le> 2 ^ k \<longleftrightarrow> ?b \<le> k" if "k < 64" for k
  proof
    assume "?b \<le> k"
    then have "(2 :: usize) ^ ?b \<le> 2 ^ k" using that b by (simp add: pow2_word_le_iff)
    with x show "x \<le> 2 ^ k" by simp
  next
    assume "x \<le> 2 ^ k" then show "?b \<le> k" by (rule Least_le)
  qed
  ultimately show thesis using that b by blast
qed

lemma class_lookup_length: "length (class_lookup ss) = 32"
  by (simp add: class_lookup_def lookup_fill_length)

text \<open>Entry \<open>k\<close> is the least class whose stride is at least \<open>2^k\<close>, of those below \<open>2^32\<close>.\<close>

lemma class_lookup_nth:
  assumes v: "class_sizes_valid 0 ss" and n: "length ss \<le> 255" and k: "k < 32" and i: "i < 255"
  shows "class_lookup ss ! k = word_of_nat i \<longleftrightarrow>
    i < length ss \<and> k \<le> trailing_zeros (ss ! i) \<and> trailing_zeros (ss ! i) < 32 \<and>
    (\<forall>j < i. trailing_zeros (ss ! j) < k)" (is "?l \<longleftrightarrow> ?r")
    "class_lookup ss ! k = CLASS_LOOKUP_NONE \<or>
      (\<exists>i < length ss. class_lookup ss ! k = word_of_nat i)"
proof -
  let ?t = "lookup_mark 0 ss (replicate 32 CLASS_LOOKUP_NONE)"
  have d: "distinct (map trailing_zeros ss)"
    using class_bits(2) [OF v] by (auto simp: distinct_conv_nth)
  have on: "?t ! l = word_of_nat j" if "l < 32" "j < length ss" "trailing_zeros (ss ! j) = l" for l j
    using lookup_mark_on [of l "replicate 32 CLASS_LOOKUP_NONE" 0 ss j] that d n by simp
  have off: "?t ! l = CLASS_LOOKUP_NONE" if "l < 32" "\<forall>j < length ss. trailing_zeros (ss ! j) \<noteq> l" for l
    using lookup_mark_off [of l "replicate 32 CLASS_LOOKUP_NONE" ss 0] that
    by (auto simp: in_set_conv_nth)
  have ent: "class_lookup ss ! k = lookup_first (drop k ?t)"
    using k by (simp add: class_lookup_def lookup_fill_nth)
  have eq: "class_lookup ss ! k = w \<longleftrightarrow> (\<exists>l. k \<le> l \<and> l < 32 \<and> ?t ! l = w \<and>
      (\<forall>j. k \<le> j \<longrightarrow> j < l \<longrightarrow> ?t ! j = CLASS_LOOKUP_NONE))" if "w \<noteq> CLASS_LOOKUP_NONE" for w
    unfolding ent lookup_first_eq [OF that] by simp
  have src: "\<exists>j < length ss. trailing_zeros (ss ! j) = l \<and> w = word_of_nat j"
    if "l < 32" "?t ! l = w" "w \<noteq> CLASS_LOOKUP_NONE" for l w
    using that on off by metis
  show "?l \<longleftrightarrow> ?r"
  proof
    assume ?l
    then obtain l where l: "k \<le> l" "l < 32" "?t ! l = word_of_nat i"
      "\<And>j. k \<le> j \<Longrightarrow> j < l \<Longrightarrow> ?t ! j = CLASS_LOOKUP_NONE"
      using eq [OF class_index_not_none [OF i]] by blast
    obtain j where j: "j < length ss" "trailing_zeros (ss ! j) = l" "word_of_nat i = (word_of_nat j :: u8)"
      using src [OF l(2,3) class_index_not_none [OF i]] by auto
    have ji: "j = i"
      using arg_cong [OF j(3), of unat] j(1) n i by (simp add: class_index_unat)
    have "trailing_zeros (ss ! j') < k" if "j' < i" for j'
    proof (rule ccontr)
      assume a: "\<not> trailing_zeros (ss ! j') < k"
      have "trailing_zeros (ss ! j') < l"
        using class_bits(1) [OF v, of i j'] j ji that by simp
      then have "?t ! trailing_zeros (ss ! j') = word_of_nat j'" "?t ! trailing_zeros (ss ! j') = CLASS_LOOKUP_NONE"
        using on [of "trailing_zeros (ss ! j')" j'] l(2,4) a that j(1) ji by auto
      then show False using class_index_not_none [of j'] that i by simp
    qed
    then show ?r using j ji l by auto
  next
    assume r: ?r
    let ?e = "trailing_zeros (ss ! i)"
    have low: "?t ! j = CLASS_LOOKUP_NONE" if "k \<le> j" "j < ?e" for j
    proof (rule off)
      show "j < 32" using that r by simp
      show "\<forall>j' < length ss. trailing_zeros (ss ! j') \<noteq> j"
        using class_bits(1) [OF v, of i] that r by (metis leD)
    qed
    show ?l
    proof (subst eq [OF class_index_not_none [OF i]], intro exI conjI)
      show "k \<le> ?e" "?e < 32" using r by auto
      show "?t ! ?e = word_of_nat i" by (rule on) (use r in auto)
    qed (use low in blast)
  qed
  show "class_lookup ss ! k = CLASS_LOOKUP_NONE \<or> (\<exists>i < length ss. class_lookup ss ! k = word_of_nat i)"
    using eq src by metis
qed

lemma pick_class_iff:
  assumes v: "class_sizes_valid 0 ss" and n: "length ss \<le> 255"
  shows "pick_class (class_lookup ss) sz al = Some i \<longleftrightarrow>
    i < length ss \<and> max sz al \<le> ss ! i \<and> ss ! i < 2 ^ 32 \<and> (\<forall>j < i. ss ! j < max sz al)"
proof -
  let ?req = "max sz al"
  have req: "(if sz > al then sz else al) = ?req" by (auto simp: max_def)
  have pow: "ss ! j = 2 ^ trailing_zeros (ss ! j)" "trailing_zeros (ss ! j) < 64" if "j < length ss" for j
    using is_pow2_bit [OF class_sizes_validD(2) [OF v that]] by auto
  have small: "ss ! j < 2 ^ 32 \<longleftrightarrow> trailing_zeros (ss ! j) < 32" if "j < length ss" for j
    using pow2_word_le_iff(2) [OF pow(2) [OF that], of 32] unfolding pow(1) [OF that, symmetric] by simp
  show ?thesis
  proof (cases "?req > 2 ^ 63")
    case True
    have "\<not> ?req \<le> ss ! i" if "i < length ss"
    proof -
      have "trailing_zeros (ss ! i) \<le> 63" using pow(2) [OF that] by linarith
      then have "(2 :: usize) ^ trailing_zeros (ss ! i) \<le> 2 ^ 63"
        using pow2_word_le_iff(1) [OF pow(2) [OF that], of 63] by linarith
      then have le: "ss ! i \<le> 2 ^ 63" unfolding pow(1) [OF that, symmetric] .
      have "ss ! i < ?req" by (rule le_less_trans [OF le True])
      then show ?thesis by (simp only: not_le)
    qed
    then show ?thesis using True by (auto simp: pick_class_def req Let_def)
  next
    case False
    then have "?req \<le> 2 ^ 63" by (simp only: not_less)
    then obtain b where b: "b < 64" "next_power_of_two ?req = 2 ^ b"
      "\<forall>k < 64. ?req \<le> 2 ^ k \<longleftrightarrow> b \<le> k"
      by (rule next_power_of_two_bit)
    have fits: "?req \<le> ss ! j \<longleftrightarrow> b \<le> trailing_zeros (ss ! j)" if "j < length ss" for j
      using b(3) [rule_format, OF pow(2) [OF that]] unfolding pow(1) [OF that, symmetric] .
    have below: "(\<forall>j < k. ss ! j < ?req) \<longleftrightarrow> (\<forall>j < k. trailing_zeros (ss ! j) < b)"
      if "k < length ss" for k
    proof -
      have "ss ! j < ?req \<longleftrightarrow> trailing_zeros (ss ! j) < b" if "j < length ss" for j
        using fits [OF that] by (simp only: not_le [symmetric])
      then show ?thesis using that by (meson less_trans)
    qed
    have pc: "pick_class (class_lookup ss) sz al =
        (if b \<ge> 32 then None else if class_lookup ss ! b = CLASS_LOOKUP_NONE then None
         else Some (unat (class_lookup ss ! b)))"
      using False b(1,2) by (simp add: pick_class_def req Let_def class_lookup_length trailing_zeros_pow2)
    show ?thesis
    proof (cases "b < 32")
      case True
      have "pick_class (class_lookup ss) sz al = Some i \<longleftrightarrow>
          i < 255 \<and> class_lookup ss ! b = word_of_nat i"
        using class_lookup_nth(2) [OF v n True, of 0, simplified]
      proof (elim disjE exE conjE)
        assume "class_lookup ss ! b = CLASS_LOOKUP_NONE"
        then show ?thesis using True pc class_index_not_none [of i] by auto
      next
        fix j assume j: "j < length ss" "class_lookup ss ! b = word_of_nat j"
        then have "pick_class (class_lookup ss) sz al = Some j"
          using True pc n class_index_not_none [of j] by (simp add: class_index_unat)
        moreover have "word_of_nat j = (word_of_nat i :: u8) \<longleftrightarrow> j = i" if "i < 255"
          using that j(1) n by (metis class_index_unat less_le_trans)
        ultimately show ?thesis using j n by auto
      qed
      then show ?thesis
        using class_lookup_nth(1) [OF v n True, of i] fits [of i] small [of i] below n
        by (cases "i < length ss") (auto simp del: max.bounded_iff)
    next
      case False
      then have "pick_class (class_lookup ss) sz al = None" using pc by simp
      moreover have "\<not> (?req \<le> ss ! i \<and> ss ! i < 2 ^ 32)" if "i < length ss"
        using fits [OF that] small [OF that] False by linarith
      ultimately show ?thesis by (metis option.distinct(1))
    qed
  qed
qed

end
