(* ===== verification/Size_Classed.thy ===== *)
theory Size_Classed
  imports Class_Table Pass_Through
begin

text \<open>
  \<open>forge-alloc/src/layout/size_classed.rs\<close>: \<open>SizeClassed<B, CLASSES>\<close>, one \<open>UntypedSlab\<close> per size
  class over regions taken from one backing, and the backing itself for what no class can serve.
  \<open>A\<close> and \<open>R\<close> are the backing's \<open>Allocator\<close> and \<open>FixedRange\<close> impls; the arrays of length
  \<open>CLASSES\<close> are lists.
\<close>

section \<open>State and operations\<close>

record 'b size_classed =
  sc_backing :: 'b
  sc_class_sizes :: "usize list"
  sc_slabs :: "untyped_slab list"
  sc_class_layouts :: "layout list"
  sc_class_lookup :: "u8 list"
  sc_region_sizes :: "usize list"

text \<open>
  The loop of the constructor: one region per class, stopping at the first that cannot be had;
  the result lists what was built so far.
\<close>

fun sc_build ::
  "'b allocator \<Rightarrow> 'b fixed_range \<Rightarrow> u32 \<Rightarrow> usize list \<Rightarrow> 'b \<times> mem \<Rightarrow>
     (untyped_slab \<times> layout) list \<times> 'b \<times> mem" where
  "sc_build A R slots_per_class [] st = ([], st)"
| "sc_build A R slots_per_class (stride # rest) st =
     (case checked_mul stride (ucast slots_per_class) of None \<Rightarrow> ([], st)
      | Some tot \<Rightarrow>
      case from_size_align tot stride of Inl e \<Rightarrow> ([], st)
      | Inr lay \<Rightarrow>
      case al_allocate A lay st of (Inl e, st') \<Rightarrow> ([], st')
      | (Inr (region_addr, n), b, m) \<Rightarrow>
          let base_offset = region_addr - fr_base R b
          in case sc_build A R slots_per_class rest (b, m) of (built, st') \<Rightarrow>
               ((untyped_new base_offset stride slots_per_class, lay) # built, st'))"

text \<open>Regions go back to the backing one by one.\<close>

fun sc_give_back ::
  "'b allocator \<Rightarrow> 'b fixed_range \<Rightarrow> (untyped_slab \<times> layout) list \<Rightarrow> 'b \<times> mem \<Rightarrow>
     ('b \<times> mem) outcome" where
  "sc_give_back A R [] st = Done st"
| "sc_give_back A R ((u, lay) # rest) st =
     outcome_bind (al_deallocate A (untyped_base_ptr (fr_base R (fst st)) u) lay st)
       (sc_give_back A R rest)"

definition with_class_sizes ::
  "'b allocator \<Rightarrow> 'b fixed_range \<Rightarrow> usize list \<Rightarrow> u32 \<Rightarrow> 'b \<times> mem \<Rightarrow>
     ('b size_classed res \<times> 'b \<times> mem) outcome" where
  "with_class_sizes A R class_sizes slots_per_class st =
     (if length class_sizes = 0 \<or> slots_per_class = 0 then Done (Inl AllocError, st)
      else if \<not> class_sizes_valid 0 class_sizes then Done (Inl AllocError, st)
      else case sc_build A R slots_per_class class_sizes st of (built, st') \<Rightarrow>
        if length built \<noteq> length class_sizes \<or> length class_sizes > unat CLASS_LOOKUP_NONE
        then outcome_bind (sc_give_back A R (rev built) st') (\<lambda>st''. Done (Inl AllocError, st''))
        else Done (Inr \<lparr>sc_backing = fst st', sc_class_sizes = class_sizes,
               sc_slabs = map fst built, sc_class_layouts = map snd built,
               sc_class_lookup = class_lookup class_sizes,
               sc_region_sizes = map (\<lambda>(u, lay). ucast (us_capacity u) * us_block_stride u) built\<rparr>,
               st'))"

definition with_default_classes ::
  "'b allocator \<Rightarrow> 'b fixed_range \<Rightarrow> u32 \<Rightarrow> 'b \<times> mem \<Rightarrow> ('b size_classed res \<times> 'b \<times> mem) outcome" where
  "with_default_classes A R = with_class_sizes A R DEFAULT_CLASS_SIZES_8"

definition sc_backing_put :: "'b \<Rightarrow> 'b size_classed \<Rightarrow> 'b size_classed" where
  "sc_backing_put b s = s\<lparr>sc_backing := b\<rparr>"

definition route_dealloc :: "'b fixed_range \<Rightarrow> 'b size_classed \<Rightarrow> addr \<Rightarrow> nat option" where
  "route_dealloc R s p =
     List.find (\<lambda>i. p - (fr_base R (sc_backing s) + us_base_offset (sc_slabs s ! i)) < sc_region_sizes s ! i)
       [0..<length (sc_slabs s)]"

definition size_classed_deallocate :: "'b allocator \<Rightarrow> 'b fixed_range \<Rightarrow> 'b size_classed dealloc_fun" where
  "size_classed_deallocate A R p lay st =
     (case st of (s, m) \<Rightarrow>
        case route_dealloc R s p of
          Some i \<Rightarrow>
            (case untyped_free_slot (fr_base R (sc_backing s)) p m (sc_slabs s ! i) of (u, m') \<Rightarrow>
               Done (s\<lparr>sc_slabs := (sc_slabs s)[i := u]\<rparr>, m'))
        | None \<Rightarrow> via_out sc_backing sc_backing_put (al_deallocate A p lay) (s, m))"

definition size_classed_allocate :: "'b allocator \<Rightarrow> 'b fixed_range \<Rightarrow> 'b size_classed alloc_fun" where
  "size_classed_allocate A R lay st =
     (case st of (s, m) \<Rightarrow>
        case pick_class (sc_class_lookup s) (lay_size lay) (lay_align lay) of
          Some i \<Rightarrow>
            (case untyped_allocate_slot (fr_base R (sc_backing s)) m (sc_slabs s ! i) of (r, u) \<Rightarrow>
               let s' = s\<lparr>sc_slabs := (sc_slabs s)[i := u]\<rparr>
               in case r of
                    Some p \<Rightarrow> (Inr (p, sc_class_sizes s ! i), s', m)
                  | None \<Rightarrow> via sc_backing sc_backing_put (al_allocate A lay) (s', m))
        | None \<Rightarrow> via sc_backing sc_backing_put (al_allocate A lay) (s, m))"

definition size_classed_usable_size ::
  "'b allocator \<Rightarrow> 'b fixed_range \<Rightarrow> 'b size_classed \<Rightarrow> addr \<Rightarrow> layout \<Rightarrow> usize option" where
  "size_classed_usable_size A R s p lay =
     (case route_dealloc R s p of
        Some i \<Rightarrow> Some (sc_class_sizes s ! i)
      | None \<Rightarrow> al_usable_size A (sc_backing s) p lay)"

definition size_classed_capacity_bytes :: "'b size_classed \<Rightarrow> usize option" where
  "size_classed_capacity_bytes s =
     fold (\<lambda>u t. case t of None \<Rightarrow> None
        | Some t \<Rightarrow> checked_add t (ucast (us_capacity u) * us_block_stride u)) (sc_slabs s) (Some 0)"

definition size_classed_corruption_events :: "'b allocator \<Rightarrow> 'b size_classed \<Rightarrow> u64" where
  "size_classed_corruption_events A s =
     saturating_add (fold (\<lambda>x acc. saturating_add acc x) (map us_corruption_events (sc_slabs s)) 0)
       (al_corruption_events A (sc_backing s))"

definition size_classed_drop ::
  "'b allocator \<Rightarrow> 'b fixed_range \<Rightarrow> 'b size_classed \<times> mem \<Rightarrow> ('b \<times> mem) outcome" where
  "size_classed_drop A R st =
     (case st of (s, m) \<Rightarrow>
        sc_give_back A R (zip (sc_slabs s) (sc_class_layouts s)) (sc_backing s, m))"

definition size_classed_allocator :: "'b allocator \<Rightarrow> 'b fixed_range \<Rightarrow> 'b size_classed allocator" where
  "size_classed_allocator A R =
     \<lparr>al_allocate = size_classed_allocate A R,
      al_allocate_zeroed = default_allocate_zeroed (size_classed_allocate A R),
      al_deallocate = size_classed_deallocate A R,
      al_grow = default_grow (size_classed_allocate A R) (size_classed_deallocate A R),
      al_shrink = default_shrink (size_classed_allocate A R) (size_classed_deallocate A R),
      al_reset = default_reset,
      al_usable_size = size_classed_usable_size A R,
      al_capacity_bytes = size_classed_capacity_bytes,
      al_corruption_events = size_classed_corruption_events A\<rparr>"

text \<open>
  A free that goes to class \<open>i\<close>, or to the backing, whatever the routing test says; and all that concerns
  the block at \<open>q\<close> going there. A resize is the trait's default.
\<close>

definition class_free :: "'b fixed_range \<Rightarrow> nat \<Rightarrow> 'b size_classed dealloc_fun" where
  "class_free R i p lay st =
     (case st of (s, m) \<Rightarrow>
        case untyped_free_slot (fr_base R (sc_backing s)) p m (sc_slabs s ! i) of (u, m') \<Rightarrow>
          Done (s\<lparr>sc_slabs := (sc_slabs s)[i := u]\<rparr>, m'))"

definition backing_free :: "'b allocator \<Rightarrow> 'b size_classed dealloc_fun" where
  "backing_free A p lay = via_out sc_backing sc_backing_put (al_deallocate A p lay)"

definition sc_routed_to ::
  "'b allocator \<Rightarrow> 'b fixed_range \<Rightarrow> 'b size_classed dealloc_fun \<Rightarrow> usize option \<Rightarrow>
     'b size_classed \<times> mem \<Rightarrow> addr \<Rightarrow> layout \<Rightarrow> bool" where
  "sc_routed_to A R free usable st q lay \<longleftrightarrow>
     al_deallocate (size_classed_allocator A R) q lay st = free q lay st \<and>
     al_usable_size (size_classed_allocator A R) (fst st) q lay = usable \<and>
     (\<forall>new. valid_layout new \<longrightarrow>
        al_grow (size_classed_allocator A R) q lay new st =
          default_grow (size_classed_allocate A R) free q lay new st \<and>
        al_shrink (size_classed_allocator A R) q lay new st =
          default_shrink (size_classed_allocate A R) free q lay new st)"

section \<open>The invariant\<close>

definition sc_geom :: "'b fixed_range \<Rightarrow> 'b size_classed \<Rightarrow> bool" where
  "sc_geom R s \<longleftrightarrow>
     class_sizes_valid 0 (sc_class_sizes s) \<and> length (sc_slabs s) \<le> 255 \<and>
     length (sc_class_sizes s) = length (sc_slabs s) \<and>
     length (sc_class_layouts s) = length (sc_slabs s) \<and>
     length (sc_region_sizes s) = length (sc_slabs s) \<and>
     sc_class_lookup s = class_lookup (sc_class_sizes s) \<and>
     (\<forall>i < length (sc_slabs s). let u = sc_slabs s ! i in
        us_block_stride u = sc_class_sizes s ! i \<and>
        unat (sc_region_sizes s ! i) = unat (us_capacity u) * unat (us_block_stride u) \<and>
        lay_size (sc_class_layouts s ! i) = sc_region_sizes s ! i)"

text \<open>The block of the backing under class \<open>i\<close>, which issued it with \<open>ns i\<close> usable bytes.\<close>

definition region_block :: "'b fixed_range \<Rightarrow> 'b size_classed \<Rightarrow> (nat \<Rightarrow> usize) \<Rightarrow> nat \<Rightarrow> addr \<times> layout \<times> usize" where
  "region_block R s ns i =
     (untyped_base_ptr (fr_base R (sc_backing s)) (sc_slabs s ! i), sc_class_layouts s ! i, ns i)"

abbreviation sc_classes :: "'b size_classed \<Rightarrow> nat set" where
  "sc_classes s \<equiv> {..<length (sc_slabs s)}"

definition sc_parts ::
  "('b \<Rightarrow> mem \<Rightarrow> live \<Rightarrow> bool) \<Rightarrow> 'b fixed_range \<Rightarrow> 'b size_classed \<Rightarrow> mem \<Rightarrow>
     (nat \<Rightarrow> usize) \<Rightarrow> (nat \<Rightarrow> live) \<Rightarrow> live \<Rightarrow> bool" where
  "sc_parts binv R s m ns Ls Lf \<longleftrightarrow>
     sc_geom R s \<and> inj_on (region_block R s ns) (sc_classes s) \<and>
     region_block R s ns ` sc_classes s \<inter> Lf = {} \<and>
     binv (sc_backing s) m (region_block R s ns ` sc_classes s \<union> Lf) \<and>
     (\<forall>i \<in> sc_classes s. untyped_inv (fr_base R (sc_backing s)) (sc_slabs s ! i) m (Ls i))"

definition sc_inv ::
  "('b \<Rightarrow> mem \<Rightarrow> live \<Rightarrow> bool) \<Rightarrow> 'b fixed_range \<Rightarrow> 'b size_classed \<Rightarrow> mem \<Rightarrow> live \<Rightarrow> bool" where
  "sc_inv binv R s m L \<longleftrightarrow>
     (\<exists>ns Ls Lf. sc_parts binv R s m ns Ls Lf \<and> L = (\<Union>i \<in> sc_classes s. Ls i) \<union> Lf)"

lemma sc_geom_class:
  assumes "sc_geom R s" "i \<in> sc_classes s"
  shows "us_block_stride (sc_slabs s ! i) = sc_class_sizes s ! i"
    "unat (sc_region_sizes s ! i) = unat (us_capacity (sc_slabs s ! i)) * unat (us_block_stride (sc_slabs s ! i))"
    "lay_size (sc_class_layouts s ! i) = sc_region_sizes s ! i"
  using assms by (auto simp: sc_geom_def Let_def)

lemma untyped_region_same:
  "us_base_offset u' = us_base_offset u \<Longrightarrow> us_block_stride u' = us_block_stride u \<Longrightarrow>
     us_capacity u' = us_capacity u \<Longrightarrow> untyped_region bb u' = untyped_region bb u"
  by (simp add: untyped_region_def untyped_base_ptr_def)

context ranged_contract
begin

lemma sc_live_blocks: "sc_parts ainv R s m ns Ls Lf \<Longrightarrow> live_ok (region_block R s ns ` sc_classes s \<union> Lf)"
  unfolding sc_parts_def by (blast dest: inv_live)

lemma sc_region:
  assumes "sc_parts ainv R s m ns Ls Lf" "i \<in> sc_classes s"
  shows "untyped_region (fr_base R (sc_backing s)) (sc_slabs s ! i) =
      span (untyped_base_ptr (fr_base R (sc_backing s)) (sc_slabs s ! i)) (sc_region_sizes s ! i)"
    "untyped_region (fr_base R (sc_backing s)) (sc_slabs s ! i) \<subseteq> blk (region_block R s ns i)"
proof -
  let ?u = "sc_slabs s ! i" and ?bb = "fr_base R (sc_backing s)"
  have g: "sc_geom R s" and u: "untyped_inv ?bb ?u m (Ls i)"
    using assms by (auto simp: sc_parts_def)
  have bo: "block_ok (sc_class_layouts s ! i) (untyped_base_ptr ?bb ?u) (ns i)"
    by (rule live_okD [OF sc_live_blocks [OF assms(1)]]) (use assms(2) in \<open>auto simp: region_block_def\<close>)
  note c = sc_geom_class [OF g assms(2)]
  have nw: "no_wrap (untyped_base_ptr ?bb ?u) (sc_region_sizes s ! i)"
    using block_ok_prefix(1) [OF bo] c(3) by simp
  show eq: "untyped_region ?bb ?u = span (untyped_base_ptr ?bb ?u) (sc_region_sizes s ! i)"
    by (auto simp: untyped_region_def region_bytes_def in_span_iff [OF nw] c(2))
  show "untyped_region ?bb ?u \<subseteq> blk (region_block R s ns i)"
    using block_ok_prefix(2) [OF bo] c(3) by (simp add: eq region_block_def)
qed

lemma sc_region_disjoint:
  assumes "sc_parts ainv R s m ns Ls Lf" "i \<in> sc_classes s"
  shows "j \<in> sc_classes s \<Longrightarrow> i \<noteq> j \<Longrightarrow>
      untyped_region (fr_base R (sc_backing s)) (sc_slabs s ! i) \<inter>
      untyped_region (fr_base R (sc_backing s)) (sc_slabs s ! j) = {}"
    "untyped_region (fr_base R (sc_backing s)) (sc_slabs s ! i) \<inter> footprint Lf = {}"
proof -
  let ?B = "region_block R s ns" and ?bb = "fr_base R (sc_backing s)"
  have lo: "blk b \<inter> blk c = {}"
    if "b \<in> ?B ` sc_classes s \<union> Lf" "c \<in> ?B ` sc_classes s \<union> Lf" "b \<noteq> c" for b c
    using sc_live_blocks [OF assms(1)] that unfolding live_ok_def by blast
  show "untyped_region ?bb (sc_slabs s ! i) \<inter> untyped_region ?bb (sc_slabs s ! j) = {}"
    if j: "j \<in> sc_classes s" "i \<noteq> j"
  proof -
    have "?B i \<noteq> ?B j"
      using assms j unfolding sc_parts_def by (metis inj_onD)
    then have "blk (?B i) \<inter> blk (?B j) = {}" using assms(2) j(1) by (intro lo) auto
    then show ?thesis using sc_region(2) [OF assms] sc_region(2) [OF assms(1) j(1)] by blast
  qed
  show "untyped_region ?bb (sc_slabs s ! i) \<inter> footprint Lf = {}"
  proof -
    have "blk (?B i) \<inter> blk b = {}" if "b \<in> Lf" for b
    proof (rule lo)
      show "?B i \<noteq> b" using that assms unfolding sc_parts_def by blast
    qed (use that assms(2) in auto)
    then show ?thesis using sc_region(2) [OF assms] unfolding footprint_def by blast
  qed
qed

lemma sc_class_live:
  assumes "sc_parts ainv R s m ns Ls Lf" "i \<in> sc_classes s"
  shows "live_ok (Ls i)" "footprint (Ls i) \<subseteq> untyped_region (fr_base R (sc_backing s)) (sc_slabs s ! i)"
    "untyped_inv (fr_base R (sc_backing s)) (sc_slabs s ! i) m (Ls i)"
proof -
  show u: "untyped_inv (fr_base R (sc_backing s)) (sc_slabs s ! i) m (Ls i)"
    using assms by (auto simp: sc_parts_def)
  show "live_ok (Ls i)" "footprint (Ls i) \<subseteq> untyped_region (fr_base R (sc_backing s)) (sc_slabs s ! i)"
    using untyped_live(1,2) [OF u] by auto
qed

lemma sc_footprint:
  assumes "sc_parts ainv R s m ns Ls Lf"
  shows "footprint ((\<Union>i \<in> sc_classes s. Ls i) \<union> Lf) \<subseteq>
    footprint (region_block R s ns ` sc_classes s \<union> Lf)"
proof -
  have "footprint (Ls i) \<subseteq> footprint (region_block R s ns ` sc_classes s)" if "i \<in> sc_classes s" for i
    using sc_class_live(2) [OF assms that] sc_region(2) [OF assms that] that
    unfolding footprint_def by blast
  then show ?thesis unfolding footprint_Un footprint_UN by blast
qed

lemma sc_live_ok:
  assumes "sc_parts ainv R s m ns Ls Lf"
  shows "live_ok ((\<Union>i \<in> sc_classes s. Ls i) \<union> Lf)"
proof -
  have d: "footprint (Ls i) \<inter> footprint Lf = {}" if "i \<in> sc_classes s" for i
    using sc_class_live(2) [OF assms that] sc_region_disjoint(2) [OF assms that] by blast
  have "live_ok (\<Union>i \<in> sc_classes s. Ls i)"
  proof (rule live_ok_UN)
    show "footprint (Ls i) \<inter> footprint (Ls j) = {}"
      if "i \<in> sc_classes s" "j \<in> sc_classes s" "i \<noteq> j" for i j
      using sc_class_live(2) [OF assms that(1)] sc_class_live(2) [OF assms that(2)]
        sc_region_disjoint(1) [OF assms that] by blast
  qed (rule sc_class_live(1) [OF assms])
  moreover have "live_ok Lf" using sc_live_blocks [OF assms] by (rule live_ok_mono) simp
  moreover have "footprint (\<Union>i \<in> sc_classes s. Ls i) \<inter> footprint Lf = {}"
    using d unfolding footprint_UN by blast
  ultimately show ?thesis by (rule live_ok_Un)
qed

text \<open>Provenance: an address in a class region routes to that class, any other to the backing.\<close>

lemma sc_route:
  assumes p: "sc_parts ainv R s m ns Ls Lf"
  shows "i \<in> sc_classes s \<Longrightarrow> a \<in> untyped_region (fr_base R (sc_backing s)) (sc_slabs s ! i) \<Longrightarrow>
      route_dealloc R s a = Some i"
    "a \<in> footprint Lf \<Longrightarrow> route_dealloc R s a = None"
proof -
  let ?bb = "fr_base R (sc_backing s)"
  have test: "a - (?bb + us_base_offset (sc_slabs s ! j)) < sc_region_sizes s ! j \<longleftrightarrow>
      a \<in> untyped_region ?bb (sc_slabs s ! j)" if "j \<in> sc_classes s" for j
    unfolding sc_region(1) [OF p that] by (simp add: span_def untyped_base_ptr_def)
  show "route_dealloc R s a = Some i" if i: "i \<in> sc_classes s" "a \<in> untyped_region ?bb (sc_slabs s ! i)"
  proof -
    have "\<not> a - (?bb + us_base_offset (sc_slabs s ! j)) < sc_region_sizes s ! j" if "j < i" for j
      using test [of j] sc_region_disjoint(1) [OF p i(1), of j] i that by auto
    then show ?thesis
      unfolding route_dealloc_def find_Some_iff using i test [OF i(1)] by (intro exI [of _ i]) auto
  qed
  show "route_dealloc R s a = None" if "a \<in> footprint Lf"
    unfolding route_dealloc_def find_None_iff using that sc_region_disjoint(2) [OF p] test by fastforce
qed

section \<open>Allocate and deallocate\<close>

text \<open>A step of class \<open>i\<close> that keeps its shape and the memory of everything else.\<close>

lemma sc_class_step:
  assumes p: "sc_parts ainv R s m ns Ls Lf" and i: "i \<in> sc_classes s"
    and shape: "us_base_offset u = us_base_offset (sc_slabs s ! i)"
      "us_block_stride u = us_block_stride (sc_slabs s ! i)" "us_capacity u = us_capacity (sc_slabs s ! i)"
    and u: "untyped_inv (fr_base R (sc_backing s)) u m' K"
    and off: "\<And>a. a \<notin> untyped_region (fr_base R (sc_backing s)) (sc_slabs s ! i) \<Longrightarrow> m' a = m a"
  shows "sc_parts ainv R (s\<lparr>sc_slabs := (sc_slabs s)[i := u]\<rparr>) m' ns (Ls(i := K)) Lf"
proof -
  let ?s = "s\<lparr>sc_slabs := (sc_slabs s)[i := u]\<rparr>" and ?bb = "fr_base R (sc_backing s)"
  have sh: "us_base_offset ((sc_slabs s)[i := u] ! j) = us_base_offset (sc_slabs s ! j)"
    "us_block_stride ((sc_slabs s)[i := u] ! j) = us_block_stride (sc_slabs s ! j)"
    "us_capacity ((sc_slabs s)[i := u] ! j) = us_capacity (sc_slabs s ! j)" for j
    using shape i by (auto simp: nth_list_update)
  have blks: "region_block R ?s ns = region_block R s ns"
    by (auto simp: fun_eq_iff region_block_def untyped_base_ptr_def sh)
  have "sc_geom R ?s" using p by (auto simp: sc_parts_def sc_geom_def Let_def sh)
  moreover have "ainv (sc_backing s) m' (region_block R s ns ` sc_classes s \<union> Lf)"
  proof (rule write_inside [of _ m])
    show "ainv (sc_backing s) m (region_block R s ns ` sc_classes s \<union> Lf)"
      using p by (simp add: sc_parts_def)
    show "untyped_region ?bb (sc_slabs s ! i) \<subseteq> footprint (region_block R s ns ` sc_classes s \<union> Lf)"
      using sc_region(2) [OF p i] i unfolding footprint_def by blast
  qed (rule off)
  moreover have "untyped_inv ?bb ((sc_slabs s)[i := u] ! j) m' ((Ls(i := K)) j)" if j: "j \<in> sc_classes s" for j
  proof (cases "j = i")
    case True
    then show ?thesis using i u by simp
  next
    case False
    have "same_on (untyped_region ?bb (sc_slabs s ! j) - footprint (Ls j)) m m'"
      using sc_region_disjoint(1) [OF p i j] False off by (auto simp: same_on_def)
    from untyped_off_live [OF sc_class_live(3) [OF p j] this] False show ?thesis by simp
  qed
  ultimately show ?thesis using p unfolding sc_parts_def blks by simp
qed

text \<open>A step of the backing that leaves the regions alone.\<close>

lemma sc_backing_step:
  assumes p: "sc_parts ainv R s m ns Ls Lf"
    and b: "ainv b m' (region_block R s ns ` sc_classes s \<union> K)" "region_block R s ns ` sc_classes s \<inter> K = {}"
    and base: "fr_base R b = fr_base R (sc_backing s)"
    and same: "same_on (footprint (region_block R s ns ` sc_classes s)) m m'"
  shows "sc_parts ainv R (sc_backing_put b s) m' ns Ls K"
proof -
  have blks: "region_block R (sc_backing_put b s) ns = region_block R s ns"
    by (auto simp: fun_eq_iff region_block_def sc_backing_put_def base)
  have "sc_geom R (sc_backing_put b s)"
    using p by (simp add: sc_parts_def sc_geom_def sc_backing_put_def)
  moreover have "untyped_inv (fr_base R (sc_backing s)) (sc_slabs s ! i) m' (Ls i)" if i: "i \<in> sc_classes s" for i
  proof (rule untyped_off_live [OF sc_class_live(3) [OF p i]])
    have "untyped_region (fr_base R (sc_backing s)) (sc_slabs s ! i) \<subseteq>
        footprint (region_block R s ns ` sc_classes s)"
      using sc_region(2) [OF p i] i unfolding footprint_def by blast
    then show "same_on (untyped_region (fr_base R (sc_backing s)) (sc_slabs s ! i) - footprint (Ls i)) m m'"
      using same by (auto simp: same_on_def)
  qed
  ultimately show ?thesis
    using p b unfolding sc_parts_def blks by (simp add: sc_backing_put_def base)
qed

lemma sc_fallback_allocate:
  assumes p: "sc_parts ainv R s m ns Ls Lf" and lay: "valid_layout lay"
    and L: "L = (\<Union>i \<in> sc_classes s. Ls i) \<union> Lf"
  shows "alloc_post (sc_inv ainv R) L lay m (via sc_backing sc_backing_put (al_allocate A lay) (s, m))"
proof -
  let ?B = "region_block R s ns ` sc_classes s"
  have b: "ainv (sc_backing s) m (?B \<union> Lf)" using p by (simp add: sc_parts_def)
  obtain r b' m' where al: "al_allocate A lay (sc_backing s, m) = (r, b', m')"
    by (cases "al_allocate A lay (sc_backing s, m)") auto
  have post: "alloc_post ainv (?B \<union> Lf) lay m (r, b', m')"
    using allocate [OF b lay] al by simp
  have base: "fr_base R b' = fr_base R (sc_backing s)"
    using allocate_range [OF b lay al] by simp
  have same: "same_on (footprint (?B \<union> Lf)) m m'"
    using post by (auto simp: alloc_post_def split: sum.splits)
  then have sames: "same_on (footprint ?B) m m'" "same_on (footprint L) m m'"
    using sc_footprint [OF p] unfolding L same_on_def by auto
  have cls: "sc_slabs (sc_backing_put b' s) = sc_slabs s" by (simp add: sc_backing_put_def)
  show ?thesis
  proof (cases r)
    case (Inl e)
    then have "sc_parts ainv R (sc_backing_put b' s) m' ns Ls Lf"
      using post p by (intro sc_backing_step [OF p _ _ base sames(1)])
        (auto simp: alloc_post_def sc_parts_def)
    then have "sc_inv ainv R (sc_backing_put b' s) m' L"
      unfolding sc_inv_def L cls by blast
    then show ?thesis using al Inl sames by (simp add: via_def alloc_post_def)
  next
    case (Inr q)
    obtain a n where q: "q = (a, n)" by (cases q)
    have ok: "block_ok lay a n" "span a n \<inter> footprint (?B \<union> Lf) = {}"
      "ainv b' m' (insert (a, lay, n) (?B \<union> Lf))"
      using post by (auto simp: Inr q alloc_post_def)
    have "(a, lay, n) \<notin> ?B"
    proof
      assume "(a, lay, n) \<in> ?B"
      then have "span a n \<subseteq> footprint (?B \<union> Lf)" by (intro span_footprint) auto
      then show False using ok(1,2) span_base [of n a] by (auto dest: block_okD(7))
    qed
    then have "sc_parts ainv R (sc_backing_put b' s) m' ns Ls (insert (a, lay, n) Lf)"
      using ok(3) p by (intro sc_backing_step [OF p _ _ base sames(1)])
        (auto simp: sc_parts_def insert_commute)
    then have "sc_inv ainv R (sc_backing_put b' s) m' (insert (a, lay, n) L)"
      unfolding sc_inv_def L cls by (metis Un_insert_right)
    moreover have "span a n \<inter> footprint L = {}"
      using ok(2) sc_footprint [OF p] unfolding L by blast
    ultimately show ?thesis
      using al Inr q sames ok(1) by (simp add: via_def alloc_post_def)
  qed
qed

lemma sc_allocate_post:
  assumes inv: "sc_inv ainv R s m L" and lay: "valid_layout lay"
  shows "alloc_post (sc_inv ainv R) L lay m (size_classed_allocate A R lay (s, m))"
proof -
  let ?bb = "fr_base R (sc_backing s)"
  obtain ns Ls Lf where p: "sc_parts ainv R s m ns Ls Lf"
    and L: "L = (\<Union>i \<in> sc_classes s. Ls i) \<union> Lf"
    using inv by (auto simp: sc_inv_def)
  note fb = sc_fallback_allocate [OF p lay L]
  show ?thesis
  proof (cases "pick_class (sc_class_lookup s) (lay_size lay) (lay_align lay)")
    case None
    then show ?thesis using fb by (simp add: size_classed_allocate_def)
  next
    case (Some i)
    note pick = Some
    have g: "sc_geom R s" using p by (simp add: sc_parts_def)
    then have "class_sizes_valid 0 (sc_class_sizes s)" "length (sc_class_sizes s) \<le> 255"
      "pick_class (class_lookup (sc_class_sizes s)) (lay_size lay) (lay_align lay) = Some i"
      using Some by (auto simp: sc_geom_def)
    from pick_class_iff [THEN iffD1, OF this] g have i: "i \<in> sc_classes s"
      and fit: "lay_size lay \<le> sc_class_sizes s ! i" "lay_align lay \<le> sc_class_sizes s ! i"
      by (auto simp: sc_geom_def)
    obtain r u where al: "untyped_allocate_slot ?bb m (sc_slabs s ! i) = (r, u)" by force
    note c = sc_geom_class(1) [OF g i]
    note a = untyped_allocate_inv [OF sc_class_live(3) [OF p i] lay fit [folded c] al]
    show ?thesis
    proof (cases r)
      case None
      then have "s\<lparr>sc_slabs := (sc_slabs s)[i := u]\<rparr> = s" using a(1) by simp
      then show ?thesis using Some al None fb by (simp add: size_classed_allocate_def)
    next
      case (Some q)
      let ?n = "us_block_stride (sc_slabs s ! i)" and ?s = "s\<lparr>sc_slabs := (sc_slabs s)[i := u]\<rparr>"
      have q: "block_ok lay q ?n" "span q ?n \<inter> footprint (Ls i) = {}"
        "span q ?n \<subseteq> untyped_region ?bb (sc_slabs s ! i)"
        "untyped_inv ?bb u m (insert (q, lay, ?n) (Ls i))"
        using a(1) Some by auto
      have "sc_parts ainv R ?s m ns (Ls(i := insert (q, lay, ?n) (Ls i))) Lf"
        by (rule sc_class_step [OF p i a(2-4) q(4)]) simp
      moreover have "(\<Union>j \<in> sc_classes ?s. (Ls(i := insert (q, lay, ?n) (Ls i))) j) \<union> Lf =
          insert (q, lay, ?n) L"
        using i unfolding L by auto
      ultimately have "sc_inv ainv R ?s m (insert (q, lay, ?n) L)"
        unfolding sc_inv_def by metis
      moreover have "span q ?n \<inter> footprint L = {}"
      proof -
        have "span q ?n \<inter> footprint (Ls j) = {}" if "j \<in> sc_classes s" for j
          using q(2,3) sc_region_disjoint(1) [OF p i that] sc_class_live(2) [OF p that]
          by (cases "i = j") blast+
        moreover have "span q ?n \<inter> footprint Lf = {}"
          using q(3) sc_region_disjoint(2) [OF p i] by blast
        ultimately show ?thesis unfolding L footprint_Un footprint_UN by blast
      qed
      ultimately show ?thesis
        using pick al Some q(1) c
        by (simp add: size_classed_allocate_def alloc_post_def)
    qed
  qed
qed

lemma sc_deallocate_post:
  assumes inv: "sc_inv ainv R s m L" and mem: "(q, lay, n) \<in> L"
  shows "dealloc_post (sc_inv ainv R) (L - {(q, lay, n)}) m (size_classed_deallocate A R q lay (s, m))"
proof -
  let ?bb = "fr_base R (sc_backing s)" and ?B = "\<lambda>ns. region_block R s ns ` sc_classes s"
  obtain ns Ls Lf where p: "sc_parts ainv R s m ns Ls Lf"
    and L: "L = (\<Union>i \<in> sc_classes s. Ls i) \<union> Lf"
    using inv by (auto simp: sc_inv_def)
  have lok: "live_ok L" unfolding L by (rule sc_live_ok [OF p])
  have n0: "q \<in> span q n" using live_okD [OF lok mem] by (auto intro: span_base dest: block_okD(7))
  have sep: "(q, lay, n) \<notin> K" if "q \<notin> footprint K" for K
    using that n0 span_footprint by blast
  from mem [unfolded L] consider (cls) i where "i \<in> sc_classes s" "(q, lay, n) \<in> Ls i" | (rest) "(q, lay, n) \<in> Lf"
    by auto
  then show ?thesis
  proof cases
    case cls
    note i = cls(1)
    have inr: "q \<in> untyped_region ?bb (sc_slabs s ! i)"
      using n0 span_footprint [OF cls(2)] sc_class_live(2) [OF p i] by blast
    obtain u m' where fr: "untyped_free_slot ?bb q m (sc_slabs s ! i) = (u, m')" by force
    note f = untyped_free_inv [OF sc_class_live(3) [OF p i] cls(2) fr]
    let ?s = "s\<lparr>sc_slabs := (sc_slabs s)[i := u]\<rparr>"
    have sub: "span q n \<subseteq> untyped_region ?bb (sc_slabs s ! i)"
      using span_footprint [OF cls(2)] sc_class_live(2) [OF p i] by blast
    have "sc_parts ainv R ?s m' ns (Ls(i := Ls i - {(q, lay, n)})) Lf"
      by (rule sc_class_step [OF p i f(3-5) f(1)]) (use f(2) sub in blast)
    moreover have "(q, lay, n) \<notin> Ls j" if "j \<in> sc_classes s" "j \<noteq> i" for j
      using sep inr sc_class_live(2) [OF p that(1)] sc_region_disjoint(1) [OF p i that(1)] that(2) by blast
    moreover have "(q, lay, n) \<notin> Lf"
      using sep inr sc_region_disjoint(2) [OF p i] by blast
    ultimately have "sc_parts ainv R ?s m' ns (Ls(i := Ls i - {(q, lay, n)})) Lf"
      "(\<Union>j \<in> sc_classes ?s. (Ls(i := Ls i - {(q, lay, n)})) j) \<union> Lf = L - {(q, lay, n)}"
      using i unfolding L by (auto split: if_splits)
    then have "sc_inv ainv R ?s m' (L - {(q, lay, n)})" unfolding sc_inv_def by metis
    moreover have "same_on (footprint (L - {(q, lay, n)})) m m'"
      using footprint_remove(2) [OF lok mem] f(2) by (auto simp: same_on_def)
    ultimately show ?thesis
      using sc_route(1) [OF p i inr] fr by (simp add: size_classed_deallocate_def dealloc_post_def)
  next
    case rest
    have b: "ainv (sc_backing s) m (?B ns \<union> Lf)" using p by (simp add: sc_parts_def)
    have nb: "(q, lay, n) \<notin> ?B ns" using p rest by (auto simp: sc_parts_def)
    have eq: "?B ns \<union> Lf - {(q, lay, n)} = ?B ns \<union> (Lf - {(q, lay, n)})" using nb by auto
    have post: "dealloc_post ainv (?B ns \<union> (Lf - {(q, lay, n)})) m (al_deallocate A q lay (sc_backing s, m))"
      using deallocate [OF b, of q lay n] rest unfolding eq by simp
    then obtain b' m' where de: "al_deallocate A q lay (sc_backing s, m) = Done (b', m')"
      and b': "ainv b' m' (?B ns \<union> (Lf - {(q, lay, n)}))"
      and same: "same_on (footprint (?B ns \<union> (Lf - {(q, lay, n)}))) m m'"
      by (auto simp: dealloc_post_def split: outcome.splits)
    have base: "fr_base R b' = fr_base R (sc_backing s)"
      using deallocate_range [OF b _ de] rest by blast
    have qf: "q \<in> footprint Lf" using n0 span_footprint [OF rest] by blast
    have p': "sc_parts ainv R (sc_backing_put b' s) m' ns Ls (Lf - {(q, lay, n)})"
      by (rule sc_backing_step [OF p b' _ base]) (use p same in \<open>auto simp: sc_parts_def same_on_def\<close>)
    have "(q, lay, n) \<notin> Ls j" if "j \<in> sc_classes s" for j
      using sep qf sc_class_live(2) [OF p that] sc_region_disjoint(2) [OF p that] by blast
    then have L': "(\<Union>j \<in> sc_classes s. Ls j) \<union> (Lf - {(q, lay, n)}) = L - {(q, lay, n)}"
      unfolding L by auto
    have cls: "sc_slabs (sc_backing_put b' s) = sc_slabs s" by (simp add: sc_backing_put_def)
    have "sc_inv ainv R (sc_backing_put b' s) m' (L - {(q, lay, n)})"
      unfolding sc_inv_def L' [symmetric] using p' cls by metis
    moreover have "same_on (footprint (L - {(q, lay, n)})) m m'"
    proof -
      have "footprint ((\<Union>j \<in> sc_classes s. Ls j)) \<subseteq> footprint (?B ns)"
        unfolding footprint_UN using sc_class_live(2) [OF p] sc_region(2) [OF p]
        by (fastforce simp: footprint_def)
      then have "footprint (L - {(q, lay, n)}) \<subseteq> footprint (?B ns \<union> (Lf - {(q, lay, n)}))"
        unfolding L' [symmetric] footprint_Un by blast
      then show ?thesis using same by (auto simp: same_on_def)
    qed
    ultimately show ?thesis
      using sc_route(2) [OF p qf] de by (simp add: size_classed_deallocate_def via_out_def dealloc_post_def)
  qed
qed

lemma untyped_allocate_offset: "us_base_offset (snd (untyped_allocate_slot bb m u)) = us_base_offset u"
  by (simp add: untyped_allocate_slot_def Let_def)

text \<open>An allocation leaves every address with the class it is routed to.\<close>

lemma sc_allocate_route:
  assumes p: "sc_parts ainv R s m ns Ls Lf" and lay: "valid_layout lay"
    and al: "size_classed_allocate A R lay (s, m) = (r, s', m')"
  shows "route_dealloc R s' q = route_dealloc R s q"
proof -
  have b: "ainv (sc_backing s) m (region_block R s ns ` sc_classes s \<union> Lf)" using p by (simp add: sc_parts_def)
  have base: "fr_base R (fst (snd (al_allocate A lay (sc_backing s, m)))) = fr_base R (sc_backing s)"
    using allocate_range [OF b lay, of "fst (al_allocate A lay (sc_backing s, m))"] by (metis prod.collapse)
  have upd: "us_base_offset ((sc_slabs s)[i := snd (untyped_allocate_slot bb m (sc_slabs s ! i))] ! j) =
      us_base_offset (sc_slabs s ! j)" for i j bb
    by (cases "i < length (sc_slabs s)"; cases "i = j") (simp_all add: untyped_allocate_offset list_update_beyond)
  have "fr_base R (sc_backing s') = fr_base R (sc_backing s) \<and> sc_region_sizes s' = sc_region_sizes s \<and>
      length (sc_slabs s') = length (sc_slabs s) \<and>
      (\<forall>j. us_base_offset (sc_slabs s' ! j) = us_base_offset (sc_slabs s ! j))"
    using al base upd
    by (auto simp: size_classed_allocate_def via_def sc_backing_put_def Let_def split_beta
        split: option.splits prod.splits)
  then show ?thesis by (simp add: route_dealloc_def)
qed

text \<open>
  Provenance: every live block is a slot of one class or a block of the backing, and its free, its size
  query and the free that ends a resize go there.
\<close>

lemma sc_routing:
  assumes inv: "sc_inv ainv R s m L"
  shows "\<exists>Ls Lf K. L = (\<Union>i < length (sc_slabs s). Ls i) \<union> Lf \<and> ainv (sc_backing s) m (K \<union> Lf) \<and>
    (\<forall>i < length (sc_slabs s). untyped_inv (fr_base R (sc_backing s)) (sc_slabs s ! i) m (Ls i) \<and>
      (\<forall>(q, lay, n) \<in> Ls i. n = sc_class_sizes s ! i \<and>
        sc_routed_to A R (class_free R i) (Some (sc_class_sizes s ! i)) (s, m) q lay)) \<and>
    (\<forall>(q, lay, n) \<in> Lf.
      sc_routed_to A R (backing_free A) (al_usable_size A (sc_backing s) q lay) (s, m) q lay)"
proof -
  obtain ns Ls Lf where p: "sc_parts ainv R s m ns Ls Lf"
    and L: "L = (\<Union>i \<in> sc_classes s. Ls i) \<union> Lf"
    using inv by (auto simp: sc_inv_def)
  have d: "size_classed_deallocate A R q lay (t, m2) =
      (case route_dealloc R t q of Some i \<Rightarrow> class_free R i q lay (t, m2) | None \<Rightarrow> backing_free A q lay (t, m2))"
    for q lay t m2
    by (simp add: size_classed_deallocate_def class_free_def backing_free_def split: option.split)
  have start: "q \<in> span q n" if "(q, lay, n) \<in> L" for q lay n
  proof -
    have "block_ok lay q n" using live_okD [OF sc_live_ok [OF p]] that L by blast
    then show ?thesis by (auto intro: span_base dest: block_okD(7))
  qed
  have routed: "sc_routed_to A R free usable (s, m) q lay"
    if f: "\<And>t m2. route_dealloc R t q = route_dealloc R s q \<Longrightarrow> size_classed_deallocate A R q lay (t, m2) = free q lay (t, m2)"
      and u: "size_classed_usable_size A R s q lay = usable" for free usable q lay
    unfolding sc_routed_to_def fst_conv
  proof (intro conjI allI impI)
    fix new assume new: "valid_layout new"
    show "al_grow (size_classed_allocator A R) q lay new (s, m) = default_grow (size_classed_allocate A R) free q lay new (s, m)"
      "al_shrink (size_classed_allocator A R) q lay new (s, m) = default_shrink (size_classed_allocate A R) free q lay new (s, m)"
      unfolding size_classed_allocator_def allocator.simps
      by (rule default_resize_cong; rule f; rule sc_allocate_route [OF p new]; assumption)+
  qed (use f u in \<open>simp_all add: size_classed_allocator_def\<close>)
  have cls: "untyped_inv (fr_base R (sc_backing s)) (sc_slabs s ! i) m (Ls i) \<and>
      (\<forall>(q, lay, n) \<in> Ls i. n = sc_class_sizes s ! i \<and>
        sc_routed_to A R (class_free R i) (Some (sc_class_sizes s ! i)) (s, m) q lay)"
    if i: "i < length (sc_slabs s)" for i
  proof (intro conjI ballI)
    have ic: "i \<in> sc_classes s" using i by simp
    show u: "untyped_inv (fr_base R (sc_backing s)) (sc_slabs s ! i) m (Ls i)" by (rule sc_class_live(3) [OF p ic])
    fix b assume "b \<in> Ls i"
    moreover obtain q lay n where b: "b = (q, lay, n)" by (cases b)
    ultimately have mem: "(q, lay, n) \<in> Ls i" by simp
    then have "q \<in> footprint (Ls i)" using start [of q lay n] span_footprint [OF mem] L ic by blast
    then have "q \<in> untyped_region (fr_base R (sc_backing s)) (sc_slabs s ! i)" using sc_class_live(2) [OF p ic] by blast
    from sc_route(1) [OF p ic this]
    have "sc_routed_to A R (class_free R i) (Some (sc_class_sizes s ! i)) (s, m) q lay"
      by (intro routed) (simp_all add: d size_classed_usable_size_def)
    moreover have "n = us_block_stride (sc_slabs s ! i)"
      using u mem by (elim untyped_invE) (blast elim: slots_live_slot)
    ultimately show "case b of (q, lay, n) \<Rightarrow> n = sc_class_sizes s ! i \<and>
        sc_routed_to A R (class_free R i) (Some (sc_class_sizes s ! i)) (s, m) q lay"
      using sc_geom_class(1) [of R s i] p ic by (simp add: b sc_parts_def)
  qed
  have rest: "sc_routed_to A R (backing_free A) (al_usable_size A (sc_backing s) q lay) (s, m) q lay"
    if mem: "(q, lay, n) \<in> Lf" for q lay n
  proof -
    have "q \<in> footprint Lf" using start [of q lay n] span_footprint [OF mem] mem L by blast
    from sc_route(2) [OF p this] show ?thesis
      by (intro routed) (simp_all add: d size_classed_usable_size_def)
  qed
  have "ainv (sc_backing s) m (region_block R s ns ` sc_classes s \<union> Lf)" using p by (simp add: sc_parts_def)
  then show ?thesis
    using L cls rest
    by (intro exI [of _ Ls] exI [of _ Lf] exI [of _ "region_block R s ns ` sc_classes s"] conjI allI impI ballI) auto
qed

lemma sc_usable_size:
  assumes inv: "sc_inv ainv R s m L" and mem: "(q, lay, n) \<in> L"
    and k: "size_classed_usable_size A R s q lay = Some k"
  shows "lay_size lay \<le> k \<and> k \<le> n"
proof -
  obtain ns Ls Lf where p: "sc_parts ainv R s m ns Ls Lf"
    and L: "L = (\<Union>i \<in> sc_classes s. Ls i) \<union> Lf"
    using inv by (auto simp: sc_inv_def)
  have bo: "block_ok lay q n" using live_okD [OF sc_live_ok [OF p]] mem L by simp
  then have n0: "q \<in> span q n" by (auto intro: span_base dest: block_okD(7))
  from mem [unfolded L] consider (cls) i where "i \<in> sc_classes s" "(q, lay, n) \<in> Ls i" | (rest) "(q, lay, n) \<in> Lf"
    by auto
  then show ?thesis
  proof cases
    case cls
    have "q \<in> untyped_region (fr_base R (sc_backing s)) (sc_slabs s ! i)"
      using n0 span_footprint [OF cls(2)] sc_class_live(2) [OF p cls(1)] by blast
    from sc_route(1) [OF p cls(1) this] have "k = sc_class_sizes s ! i"
      using k by (simp add: size_classed_usable_size_def)
    then have "k = n"
      using untyped_live(3) [OF sc_class_live(3) [OF p cls(1)] cls(2)] sc_geom_class(1) [OF _ cls(1), of R] p
      by (simp add: sc_parts_def)
    then show ?thesis using bo by (simp add: block_ok_def)
  next
    case rest
    have "q \<in> footprint Lf" using n0 span_footprint [OF rest] by blast
    from sc_route(2) [OF p this] show ?thesis
      using k usable_size [of "sc_backing s" m "region_block R s ns ` sc_classes s \<union> Lf" q lay n k] p rest
      by (simp add: size_classed_usable_size_def sc_parts_def)
  qed
qed

lemma sc_user_write:
  assumes inv: "sc_inv ainv R s m L" and same: "same_on (- footprint L) m m'"
  shows "sc_inv ainv R s m' L"
proof -
  obtain ns Ls Lf where p: "sc_parts ainv R s m ns Ls Lf"
    and L: "L = (\<Union>i \<in> sc_classes s. Ls i) \<union> Lf"
    using inv by (auto simp: sc_inv_def)
  have "ainv (sc_backing s) m' (region_block R s ns ` sc_classes s \<union> Lf)"
    by (rule user_write [of _ m])
      (use p same sc_footprint [OF p] in \<open>auto simp: sc_parts_def same_on_def L\<close>)
  moreover have "untyped_inv (fr_base R (sc_backing s)) (sc_slabs s ! i) m' (Ls i)" if i: "i \<in> sc_classes s" for i
  proof (rule untyped_off_live [OF sc_class_live(3) [OF p i]])
    have "untyped_region (fr_base R (sc_backing s)) (sc_slabs s ! i) \<inter> footprint L \<subseteq> footprint (Ls i)"
      using sc_region_disjoint [OF p i] sc_class_live(2) [OF p]
      unfolding L footprint_Un footprint_UN by fastforce
    then show "same_on (untyped_region (fr_base R (sc_backing s)) (sc_slabs s ! i) - footprint (Ls i)) m m'"
      using same by (auto simp: same_on_def)
  qed
  ultimately have "sc_parts ainv R s m' ns Ls Lf" using p by (simp add: sc_parts_def)
  then show ?thesis unfolding sc_inv_def L by blast
qed

lemma size_classed_core:
  "allocator_core (size_classed_allocate A R) (size_classed_deallocate A R)
     (size_classed_usable_size A R) (sc_inv ainv R)"
proof
  show "live_ok L" if "sc_inv ainv R s m L" for s m L
    using that sc_live_ok by (auto simp: sc_inv_def)
qed (use sc_user_write sc_allocate_post sc_deallocate_post sc_usable_size in auto)

lemma size_classed_contract: "allocator_contract (size_classed_allocator A R) (sc_inv ainv R)"
  by (rule allocator_contractI) (simp_all add: size_classed_allocator_def size_classed_core)

section \<open>Construction and drop\<close>

abbreviation built_block :: "addr \<Rightarrow> (untyped_slab \<times> layout) \<times> usize \<Rightarrow> addr \<times> layout \<times> usize" where
  "built_block bb x \<equiv> (untyped_base_ptr bb (fst (fst x)), snd (fst x), snd x)"

text \<open>Blocks given back in any order leave the backing with the rest.\<close>

lemma sc_give_back_post:
  assumes "ainv b m (set (map (built_block (fr_base R b)) (zip bs ns)) \<union> L0)"
    "distinct (map (built_block (fr_base R b)) (zip bs ns))"
    "set (map (built_block (fr_base R b)) (zip bs ns)) \<inter> L0 = {}" "length ns = length bs"
  shows "\<exists>b' m'. sc_give_back A R bs (b, m) = Done (b', m') \<and> ainv b' m' L0 \<and> same_on (footprint L0) m m'"
  using assms
proof (induction bs arbitrary: b m ns)
  case Nil
  then show ?case by simp
next
  case (Cons x bs)
  obtain u lay where x: "x = (u, lay)" by (cases x)
  obtain n ns' where ns: "ns = n # ns'" using Cons.prems(4) by (cases ns) auto
  let ?p = "untyped_base_ptr (fr_base R b) u" and ?S = "\<lambda>b. set (map (built_block (fr_base R b)) (zip bs ns'))"
  have L: "set (map (built_block (fr_base R b)) (zip (x # bs) ns)) \<union> L0 = insert (?p, lay, n) (?S b \<union> L0)"
    by (simp add: x ns)
  have nin: "(?p, lay, n) \<notin> ?S b \<union> L0" using Cons.prems(2,3) by (auto simp: x ns)
  have inv: "ainv b m (insert (?p, lay, n) (?S b \<union> L0))" using Cons.prems(1) unfolding L .
  from deallocate [OF inv, of ?p lay n] nin
  obtain b1 m1 where de: "al_deallocate A ?p lay (b, m) = Done (b1, m1)"
    and i1: "ainv b1 m1 (?S b \<union> L0)" and s1: "same_on (footprint (?S b \<union> L0)) m m1"
    by (auto simp: dealloc_post_def split: outcome.splits)
  have base: "fr_base R b1 = fr_base R b" using deallocate_range [OF inv _ de] by blast
  have "\<exists>b' m'. sc_give_back A R bs (b1, m1) = Done (b', m') \<and> ainv b' m' L0 \<and> same_on (footprint L0) m1 m'"
    using Cons.prems(2-4) i1 by (intro Cons.IH [of b1 m1 ns']) (auto simp: x ns base)
  then show ?case using de s1 by (auto simp: x same_on_def)
qed

text \<open>What the loop has built are distinct new blocks of the backing, shaped for their classes.\<close>

lemma sc_build_post:
  assumes "ainv b m L0" "sc_build A R k sizes (b, m) = (bs, b', m')"
  shows "\<exists>ns. length ns = length bs \<and> length bs \<le> length sizes \<and> fr_base R b' = fr_base R b \<and>
    ainv b' m' (set (map (built_block (fr_base R b)) (zip bs ns)) \<union> L0) \<and>
    distinct (map (built_block (fr_base R b)) (zip bs ns)) \<and>
    set (map (built_block (fr_base R b)) (zip bs ns)) \<inter> L0 = {} \<and>
    same_on (footprint L0) m m' \<and>
    (\<forall>i < length bs. \<exists>off tot. fst (bs ! i) = untyped_new off (sizes ! i) k \<and>
       checked_mul (sizes ! i) (ucast k) = Some tot \<and> from_size_align tot (sizes ! i) = Inr (snd (bs ! i)))"
  using assms
proof (induction sizes arbitrary: b m L0 bs)
  case Nil
  then show ?case by (auto intro!: exI [of _ "[]"])
next
  case (Cons stride rest)
  show ?case
  proof (cases "\<exists>tot lay p n b1 m1. checked_mul stride (ucast k) = Some tot \<and>
      from_size_align tot stride = Inr lay \<and> al_allocate A lay (b, m) = (Inr (p, n), b1, m1)")
    case False
    then have "bs = [] \<and> ((b', m') = (b, m) \<or> (\<exists>e lay. valid_layout lay \<and> al_allocate A lay (b, m) = (Inl e, b', m')))"
      using Cons.prems(2)
      by (auto simp: from_size_align_Inr split: option.splits sum.splits prod.splits)
    then show ?thesis
      using Cons.prems(1) allocate [OF Cons.prems(1)] allocate_range [OF Cons.prems(1)]
      by (fastforce simp: alloc_post_def)
  next
    case True
    then obtain tot lay p n b1 m1 where tot: "checked_mul stride (ucast k) = Some tot"
      and lay: "from_size_align tot stride = Inr lay"
      and al: "al_allocate A lay (b, m) = (Inr (p, n), b1, m1)" by blast
    have v: "valid_layout lay" using lay by (simp add: from_size_align_Inr)
    have post: "block_ok lay p n" "span p n \<inter> footprint L0 = {}" "ainv b1 m1 (insert (p, lay, n) L0)"
      "same_on (footprint L0) m m1"
      using allocate [OF Cons.prems(1) v] al by (auto simp: alloc_post_def)
    have base: "fr_base R b1 = fr_base R b" using allocate_range [OF Cons.prems(1) v al] by simp
    obtain bs' where re: "sc_build A R k rest (b1, m1) = (bs', b', m')"
      and bs: "bs = (untyped_new (p - fr_base R b) stride k, lay) # bs'"
      using Cons.prems(2) tot lay al by (auto simp: base Let_def split: prod.splits)
    have pb: "untyped_base_ptr (fr_base R b) (untyped_new (p - fr_base R b) stride k) = p"
      by (simp add: untyped_base_ptr_def untyped_new_def)
    have nin: "(p, lay, n) \<notin> L0"
      using post(1,2) span_base [of n p] span_footprint [of p lay n L0] by (auto dest: block_okD(7))
    from Cons.IH [OF post(3) re] obtain ns where ns: "length ns = length bs'" "length bs' \<le> length rest"
      "fr_base R b' = fr_base R b"
      "ainv b' m' (set (map (built_block (fr_base R b)) (zip bs' ns)) \<union> insert (p, lay, n) L0)"
      "distinct (map (built_block (fr_base R b)) (zip bs' ns))"
      "set (map (built_block (fr_base R b)) (zip bs' ns)) \<inter> insert (p, lay, n) L0 = {}"
      "same_on (footprint (insert (p, lay, n) L0)) m1 m'"
      and sh: "\<forall>i < length bs'. \<exists>off tot. fst (bs' ! i) = untyped_new off (rest ! i) k \<and>
       checked_mul (rest ! i) (ucast k) = Some tot \<and> from_size_align tot (rest ! i) = Inr (snd (bs' ! i))"
      unfolding base by blast
    have "\<exists>off tot. fst (bs ! i) = untyped_new off ((stride # rest) ! i) k \<and>
       checked_mul ((stride # rest) ! i) (ucast k) = Some tot \<and>
       from_size_align tot ((stride # rest) ! i) = Inr (snd (bs ! i))" if "i < length bs" for i
      using that sh tot lay by (cases i) (auto simp: bs)
    moreover have "same_on (footprint L0) m m'"
      using post(4) ns(7) by (auto simp: same_on_def)
    ultimately show ?thesis
      using ns(1-6) nin by (intro exI [of _ "n # ns"]) (simp add: bs pb insert_commute)
  qed
qed

lemma sc_new_inv:
  assumes b: "ainv b' m' (set (map (built_block (fr_base R b')) (zip bs ns)))"
    "distinct (map (built_block (fr_base R b')) (zip bs ns))" "length ns = length bs"
    and v: "class_sizes_valid 0 sizes" "length bs = length sizes" "length sizes \<le> 255"
    and sh: "\<forall>i < length bs. \<exists>off tot. fst (bs ! i) = untyped_new off (sizes ! i) k \<and>
       checked_mul (sizes ! i) (ucast k) = Some tot \<and> from_size_align tot (sizes ! i) = Inr (snd (bs ! i))"
    and s: "s = \<lparr>sc_backing = b', sc_class_sizes = sizes, sc_slabs = map fst bs,
      sc_class_layouts = map snd bs, sc_class_lookup = class_lookup sizes,
      sc_region_sizes = map (\<lambda>(u, lay). ucast (us_capacity u) * us_block_stride u) bs\<rparr>"
  shows "sc_parts ainv R s m' (\<lambda>i. ns ! i) (\<lambda>i. {}) {}"
proof -
  let ?blk = "region_block R s (\<lambda>i. ns ! i)"
  have nth: "map (built_block (fr_base R b')) (zip bs ns) ! i = ?blk i" if "i < length bs" for i
    using that b(3) by (simp add: region_block_def s)
  have img: "?blk ` sc_classes s = set (map (built_block (fr_base R b')) (zip bs ns))"
  proof -
    have "set (map (built_block (fr_base R b')) (zip bs ns)) =
        (\<lambda>i. map (built_block (fr_base R b')) (zip bs ns) ! i) ` {..<length bs}"
      using b(3) by (force simp: in_set_conv_nth image_iff)
    also have "\<dots> = ?blk ` {..<length bs}" by (rule image_cong) (use nth in auto)
    finally show ?thesis by (simp add: s)
  qed
  have inj: "inj_on ?blk (sc_classes s)"
  proof (rule inj_onI)
    fix i j assume ij: "i \<in> sc_classes s" "j \<in> sc_classes s" "?blk i = ?blk j"
    then have "map (built_block (fr_base R b')) (zip bs ns) ! i = map (built_block (fr_base R b')) (zip bs ns) ! j"
      using nth by (simp add: s)
    moreover have "i < length bs" "j < length bs" using ij(1,2) by (simp_all add: s)
    ultimately show "i = j" using nth_eq_iff_index_eq [OF b(2), of i j] b(3) by simp
  qed
  have shape: "sc_class_sizes s ! i = sizes ! i \<and> us_block_stride (sc_slabs s ! i) = sizes ! i \<and>
      us_capacity (sc_slabs s ! i) = k \<and> us_next_uncarved (sc_slabs s ! i) = 0 \<and>
      us_free_head (sc_slabs s ! i) = 0 \<and>
      unat (sc_region_sizes s ! i) = unat k * unat (sizes ! i) \<and>
      lay_size (sc_class_layouts s ! i) = sc_region_sizes s ! i \<and>
      lay_align (sc_class_layouts s ! i) = sizes ! i" if i: "i < length bs" for i
  proof -
    obtain off tot where ot: "fst (bs ! i) = untyped_new off (sizes ! i) k"
      "checked_mul (sizes ! i) (ucast k) = Some tot" "from_size_align tot (sizes ! i) = Inr (snd (bs ! i))"
      using sh i by blast
    have "unat tot = unat k * unat (sizes ! i)"
      using checked_mul_unat [OF ot(2)] by (simp add: mult.commute)
    moreover have "ucast k * sizes ! i = tot"
      using ot(2) by (auto simp: checked_mul_def mult.commute split: if_splits)
    ultimately show ?thesis
      using ot i by (simp add: s untyped_new_def from_size_align_Inr split_beta)
  qed
  have "untyped_inv (fr_base R b') (sc_slabs s ! i) m' {}" if i: "i < length bs" for i
  proof -
    note c = shape [OF i]
    have bo: "block_ok (sc_class_layouts s ! i) (untyped_base_ptr (fr_base R b') (sc_slabs s ! i)) (ns ! i)"
    proof (rule live_okD [OF inv_live [OF b(1)]])
      show "(untyped_base_ptr (fr_base R b') (sc_slabs s ! i), sc_class_layouts s ! i, ns ! i) \<in>
          set (map (built_block (fr_base R b')) (zip bs ns))"
        unfolding img [symmetric] using i by (auto simp: region_block_def s)
    qed
    have "unat (untyped_base_ptr (fr_base R b') (sc_slabs s ! i)) + unat k * unat (sizes ! i) \<le> 2 ^ 64"
      using block_ok_prefix(1) [OF bo] c by (simp add: no_wrap_def)
    moreover have "4 \<le> unat (sizes ! i)" "is_pow2 (sizes ! i)"
      using class_sizes_validD(1,2) [OF v(1)] i v(2) by (auto simp: word_le_nat_alt)
    moreover have "unat (sizes ! i) dvd unat (untyped_base_ptr (fr_base R b') (sc_slabs s ! i))"
      using block_okD(5) [OF bo] c by simp
    ultimately show ?thesis
      using block_okD(2) [OF bo] c
      by (auto simp: untyped_inv_def untyped_ok_def region_ok_def intro!: exI [of _ "[]"])
  qed
  moreover have "sc_geom R s"
    using v shape by (simp add: sc_geom_def Let_def s)
  moreover have "ainv (sc_backing s) m' (?blk ` sc_classes s)" unfolding img using b(1) by (simp add: s)
  ultimately show ?thesis
    using inj by (simp add: sc_parts_def) (simp add: s)
qed

text \<open>The constructor either yields the empty allocator or hands every region back.\<close>

lemma with_class_sizes_post:
  assumes inv: "ainv b m {}"
  shows "\<exists>r b' m'. with_class_sizes A R sizes k (b, m) = Done (r, b', m') \<and>
    (case r of Inl e \<Rightarrow> ainv b' m' {}
     | Inr s \<Rightarrow> sc_inv ainv R s m' {} \<and> sc_backing s = b' \<and> sc_class_sizes s = sizes \<and>
         class_sizes_valid 0 sizes \<and> (\<forall>u \<in> set (sc_slabs s). us_capacity u = k))"
proof (cases "length sizes = 0 \<or> k = 0 \<or> \<not> class_sizes_valid 0 sizes")
  case True
  then show ?thesis using inv by (auto simp: with_class_sizes_def)
next
  case False
  obtain bs b1 m1 where bd: "sc_build A R k sizes (b, m) = (bs, b1, m1)"
    by (cases "sc_build A R k sizes (b, m)") auto
  from sc_build_post [OF inv bd] obtain ns where ns: "length ns = length bs" "length bs \<le> length sizes"
    "fr_base R b1 = fr_base R b"
    "ainv b1 m1 (set (map (built_block (fr_base R b)) (zip bs ns)))"
    "distinct (map (built_block (fr_base R b)) (zip bs ns))"
    and sh: "\<forall>i < length bs. \<exists>off tot. fst (bs ! i) = untyped_new off (sizes ! i) k \<and>
       checked_mul (sizes ! i) (ucast k) = Some tot \<and> from_size_align tot (sizes ! i) = Inr (snd (bs ! i))"
    by auto
  show ?thesis
  proof (cases "length bs \<noteq> length sizes \<or> length sizes > unat CLASS_LOOKUP_NONE")
    case True
    have z: "zip (rev bs) (rev ns) = rev (zip bs ns)" using ns(1) by (simp add: zip_rev)
    have "\<exists>b' m'. sc_give_back A R (rev bs) (b1, m1) = Done (b', m') \<and> ainv b' m' {} \<and>
        same_on (footprint {}) m1 m'"
      by (rule sc_give_back_post [of _ _ "rev bs" "rev ns"])
        (use ns in \<open>simp_all add: z rev_map [symmetric]\<close>)
    then show ?thesis using False True bd by (auto simp: with_class_sizes_def)
  next
    case full: False
    have n255: "length sizes \<le> 255" using full by (simp add: CLASS_LOOKUP_NONE_def unat_minus_one_word)
    let ?s = "\<lparr>sc_backing = b1, sc_class_sizes = sizes, sc_slabs = map fst bs,
      sc_class_layouts = map snd bs, sc_class_lookup = class_lookup sizes,
      sc_region_sizes = map (\<lambda>(u, lay). ucast (us_capacity u) * us_block_stride u) bs\<rparr>"
    have "sc_parts ainv R ?s m1 (\<lambda>i. ns ! i) (\<lambda>i. {}) {}"
      by (rule sc_new_inv [OF _ _ ns(1) _ _ n255 sh refl]) (use ns False full in simp_all)
    then have "sc_inv ainv R ?s m1 {}" unfolding sc_inv_def by blast
    moreover have "us_capacity u = k" if u: "u \<in> set (map fst bs)" for u
    proof -
      obtain i where "i < length bs" "u = fst (bs ! i)"
        using u unfolding in_set_conv_nth by auto
      then show ?thesis using sh by (auto simp: untyped_new_def)
    qed
    ultimately show ?thesis using False full bd by (auto simp: with_class_sizes_def)
  qed
qed

text \<open>Drop returns every region; what was taken from the backing itself stays the client's.\<close>

lemma size_classed_drop_post:
  assumes inv: "sc_inv ainv R s m L"
  shows "\<exists>b' m' K. size_classed_drop A R (s, m) = Done (b', m') \<and> K \<subseteq> L \<and> ainv b' m' K \<and>
    same_on (footprint K) m m' \<and> (\<forall>(p, lay, n) \<in> K. route_dealloc R s p = None)"
proof -
  obtain ns Ls Lf where p: "sc_parts ainv R s m ns Ls Lf"
    and L: "L = (\<Union>i \<in> sc_classes s. Ls i) \<union> Lf"
    using inv by (auto simp: sc_inv_def)
  let ?bs = "zip (sc_slabs s) (sc_class_layouts s)" and ?ns = "map ns [0..<length (sc_slabs s)]"
  have len: "length (sc_class_layouts s) = length (sc_slabs s)" using p by (simp add: sc_parts_def sc_geom_def)
  have eq: "map (built_block (fr_base R (sc_backing s))) (zip ?bs ?ns) =
      map (region_block R s ns) [0..<length (sc_slabs s)]"
    by (rule nth_equalityI) (simp_all add: len region_block_def)
  have "\<exists>b' m'. sc_give_back A R ?bs (sc_backing s, m) = Done (b', m') \<and> ainv b' m' Lf \<and>
      same_on (footprint Lf) m m'"
    by (rule sc_give_back_post [of _ _ ?bs ?ns])
      (use p in \<open>simp_all add: eq len sc_parts_def distinct_map atLeast0LessThan\<close>)
  moreover have "route_dealloc R s q = None" if "(q, lay, n) \<in> Lf" for q lay n
  proof (rule sc_route(2) [OF p])
    have "block_ok lay q n" using live_okD [OF sc_live_ok [OF p]] that by blast
    then have "q \<in> span q n" by (auto intro: span_base dest: block_okD(7))
    then show "q \<in> footprint Lf" using span_footprint [OF that] by blast
  qed
  moreover have "Lf \<subseteq> L" using L by simp
  ultimately show ?thesis unfolding size_classed_drop_def prod.case by blast
qed

end

text \<open>A class serves as long as it has a freed or an uncarved slot.\<close>

lemma untyped_has_slot:
  assumes inv: "untyped_inv bb u m L" and slot: "us_free_head u \<noteq> 0 \<or> us_next_uncarved u < us_capacity u"
  shows "\<exists>p u'. untyped_allocate_slot bb m u = (Some p, u')"
proof -
  obtain fs where ch: "free_chain (\<lambda>i. read_u32 m (untyped_slot_ptr bb u i)) (us_free_head u) fs"
    and lt: "\<forall>i \<in> set fs. i < us_capacity u"
    using inv by (rule untyped_invE)
  show ?thesis
  proof (cases fs)
    case Nil
    then have "us_free_head u = 0" using ch by simp
    then show ?thesis using slot by (simp add: untyped_allocate_slot_def Let_def not_le)
  next
    case (Cons i fs')
    let ?p = "untyped_slot_ptr bb u i"
    have h: "us_free_head u = i + 1" "i + 1 \<noteq> 0"
      and ch': "free_chain (\<lambda>i. read_u32 m (untyped_slot_ptr bb u i)) (read_u32 m ?p) fs'"
      using ch by (auto simp: Cons)
    have "read_u32 m ?p \<le> us_capacity u"
      by (rule free_chain_head [OF ch']) (use lt Cons in auto)
    then have "\<not> us_capacity u < read_u32 m ?p" by (simp add: not_less)
    then show ?thesis using h by (simp add: untyped_allocate_slot_def Let_def)
  qed
qed

lemma sc_best_fit:
  assumes inv: "sc_inv binv R s m L"
    and fit: "i < length (sc_class_sizes s)" "max (lay_size lay) (lay_align lay) \<le> sc_class_sizes s ! i"
      "sc_class_sizes s ! i < 2 ^ 32" "\<forall>j < i. sc_class_sizes s ! j < max (lay_size lay) (lay_align lay)"
    and slot: "us_free_head (sc_slabs s ! i) \<noteq> 0 \<or>
      us_next_uncarved (sc_slabs s ! i) < us_capacity (sc_slabs s ! i)"
  shows "\<exists>p s'. size_classed_allocate A R lay (s, m) = (Inr (p, sc_class_sizes s ! i), s', m) \<and>
    sc_backing s' = sc_backing s"
proof -
  have g: "sc_geom R s" and u: "\<forall>i \<in> sc_classes s. \<exists>K. untyped_inv (fr_base R (sc_backing s)) (sc_slabs s ! i) m K"
    using inv by (auto simp: sc_inv_def sc_parts_def)
  have "pick_class (class_lookup (sc_class_sizes s)) (lay_size lay) (lay_align lay) = Some i"
    using pick_class_iff [THEN iffD2, of "sc_class_sizes s" i] g fit by (simp add: sc_geom_def)
  then have pick: "pick_class (sc_class_lookup s) (lay_size lay) (lay_align lay) = Some i"
    using g by (simp add: sc_geom_def)
  obtain K where "untyped_inv (fr_base R (sc_backing s)) (sc_slabs s ! i) m K"
    using u fit(1) g by (auto simp: sc_geom_def)
  from untyped_has_slot [OF this slot] pick show ?thesis
    by (auto simp: size_classed_allocate_def)
qed

end
