(* ===== verification/Class_Properties.thy ===== *)
theory Class_Properties
  imports Examples Size_Classed
begin

text \<open>
  Properties of \<open>SizeClassed\<close>: the routing table, the contract, the choice of class, and the life
  of the allocator. The example has classes of 8 and 16 bytes with two slots each over the
  256-byte inline buffer at address 4096.
\<close>

definition demo_classes :: "inline_backed size_classed" where
  "demo_classes = \<lparr>sc_backing = \<lparr>ib_addr = 4096, ib_cursor = 48\<rparr>, sc_class_sizes = [8, 16],
     sc_slabs = [untyped_new 0 8 2, untyped_new 16 16 2],
     sc_class_layouts = [\<lparr>lay_size = 16, lay_align = 8\<rparr>, \<lparr>lay_size = 32, lay_align = 16\<rparr>],
     sc_class_lookup = class_lookup [8, 16], sc_region_sizes = [16, 32]\<rparr>"

lemma demo_sizes_valid: "class_sizes_valid 0 [8, 16]"
  by simp

lemma demo_classes_new:
  "with_class_sizes (inline_allocator 256) (inline_range 256) [8, 16] 2 (demo_inline, m) =
     Done (Inr demo_classes, \<lparr>ib_addr = 4096, ib_cursor = 48\<rparr>, m)"
proof -
  have l: "from_size_align 16 8 = Inr \<lparr>lay_size = 16, lay_align = 8\<rparr>"
    "from_size_align 32 16 = Inr \<lparr>lay_size = 32, lay_align = 16\<rparr>"
    by (simp_all add: from_size_align_def nzl_new_eq)
  have c: "bump_carve 4096 256 0 8 16 = Inr (0, 16)" "bump_carve 4096 256 16 16 32 = Inr (16, 48)"
    by (simp_all add: bump_carve_def align_up_checked_def checked_add_def align_down_def)
  have n: "unat CLASS_LOOKUP_NONE = 255" by (simp add: CLASS_LOOKUP_NONE_def unat_minus_one_word)
  show ?thesis
    by (simp add: with_class_sizes_def l c n checked_mul_def inline_allocator_def inline_allocate_def
        MAX_ALIGN_def demo_inline_def inline_new_def inline_range_def demo_classes_def untyped_new_def Let_def)
qed

lemma demo_classes_ok: "sc_inv (inline_inv 256) (inline_range 256) demo_classes m {}"
  using ranged_contract.with_class_sizes_post [OF inline.ranged_contract_axioms demo_inline_ok [of m],
      of "[8, 16]" 2]
  by (simp add: demo_classes_new)

text \<open>
  C33. The constant-time routing table is exact: for class sizes that pass the constructor's checks,
  \<open>pick_class\<close> yields class \<open>i\<close> exactly when \<open>i\<close> is the first class at least as large as both the
  size and the alignment of the request, and its size is below \<open>2^32\<close>, the end of the table. It is
  the linear search it replaces.
\<close>

theorem pick_class_exact:
  assumes "class_sizes_valid 0 ss" "length ss \<le> 255"
  shows "pick_class (class_lookup ss) sz al = Some i \<longleftrightarrow>
    i < length ss \<and> max sz al \<le> ss ! i \<and> ss ! i < 2 ^ 32 \<and> (\<forall>j < i. ss ! j < max sz al)"
  using assms by (rule pick_class_iff)

theorem pick_class_exact_witness:
  "pick_class (class_lookup [8, 16]) 3 16 = Some 1 \<and> pick_class (class_lookup [8, 16]) 17 1 = None"
proof -
  note e = pick_class_exact [OF demo_sizes_valid]
  have "pick_class (class_lookup [8, 16]) 3 16 = Some 1" by (subst e) (simp_all add: max_def)
  moreover have "pick_class (class_lookup [8, 16]) 17 1 \<noteq> Some i" for i
    by (cases i) (auto simp: e nth_Cons word_le_nat_alt word_less_nat_alt split: nat.splits)
  ultimately show ?thesis by auto
qed

text \<open>
  C26. \<open>SizeClassed\<close> meets the \<open>Allocator\<close> contract over every ranged backing: a block is aligned, large
  enough and disjoint from every live block, and no operation disturbs another live block. Every live
  block is a slot of one class, of exactly the size of the class, or a block of the backing itself, and its
  free and its size query go by its address to the class or the backing that issued it. A resize is the
  trait's default: it allocates anew, as for any request of the new layout, copies, and frees the old block
  at the class or the backing that issued it.
\<close>

theorem size_classed_correct:
  assumes "ranged_contract A ainv R"
  shows "allocator_contract (size_classed_allocator A R) (sc_inv ainv R) \<and>
    (\<forall>s m L. sc_inv ainv R s m L \<longrightarrow>
      (\<exists>Ls Lf K. L = (\<Union>i < length (sc_slabs s). Ls i) \<union> Lf \<and> ainv (sc_backing s) m (K \<union> Lf) \<and>
        (\<forall>i < length (sc_slabs s). untyped_inv (fr_base R (sc_backing s)) (sc_slabs s ! i) m (Ls i) \<and>
          (\<forall>(q, lay, n) \<in> Ls i. n = sc_class_sizes s ! i \<and>
            sc_routed_to A R (class_free R i) (Some (sc_class_sizes s ! i)) (s, m) q lay)) \<and>
        (\<forall>(q, lay, n) \<in> Lf.
          sc_routed_to A R (backing_free A) (al_usable_size A (sc_backing s) q lay) (s, m) q lay)))"
  using ranged_contract.size_classed_contract [OF assms] ranged_contract.sc_routing [OF assms]
  by (intro conjI allI impI)

theorem size_classed_correct_witness:
  "allocator_contract (size_classed_allocator (inline_allocator 256) (inline_range 256))
     (sc_inv (inline_inv 256) (inline_range 256)) \<and>
   sc_inv (inline_inv 256) (inline_range 256) demo_classes zero_mem {}"
  using size_classed_correct [OF inline.ranged_contract_axioms] demo_classes_ok by blast

text \<open>
  Best fit: when the first class that fits a request has a freed or an uncarved slot left, the
  request is served from that class, with a block of exactly the class size, and neither the
  backing nor the memory is touched.
\<close>

theorem size_classed_best_fit:
  assumes "sc_inv binv R s m L"
    and "i < length (sc_class_sizes s)" "max (lay_size lay) (lay_align lay) \<le> sc_class_sizes s ! i"
      "sc_class_sizes s ! i < 2 ^ 32" "\<forall>j < i. sc_class_sizes s ! j < max (lay_size lay) (lay_align lay)"
    and "us_free_head (sc_slabs s ! i) \<noteq> 0 \<or>
      us_next_uncarved (sc_slabs s ! i) < us_capacity (sc_slabs s ! i)"
  shows "\<exists>p s'. size_classed_allocate A R lay (s, m) = (Inr (p, sc_class_sizes s ! i), s', m) \<and>
    sc_backing s' = sc_backing s"
  using assms by (rule sc_best_fit)

theorem size_classed_best_fit_witness:
  "\<exists>p s'. size_classed_allocate (inline_allocator 256) (inline_range 256) \<lparr>lay_size = 9, lay_align = 4\<rparr>
     (demo_classes, zero_mem) = (Inr (p, 16), s', zero_mem)"
proof -
  have "\<exists>p s'. size_classed_allocate (inline_allocator 256) (inline_range 256) \<lparr>lay_size = 9, lay_align = 4\<rparr>
      (demo_classes, zero_mem) = (Inr (p, sc_class_sizes demo_classes ! 1), s', zero_mem) \<and>
      sc_backing s' = sc_backing demo_classes"
    by (rule size_classed_best_fit [OF demo_classes_ok])
      (simp_all add: demo_classes_def untyped_new_def max_def)
  then show ?thesis by (auto simp: demo_classes_def)
qed

text \<open>
  The life of a \<open>SizeClassed\<close>: its constructor never panics; it yields an empty allocator with
  the requested classes, or fails and has then returned every region it took from the backing;
  and \<open>Drop\<close> returns the regions, so that only blocks that came from the backing itself outlive it.
\<close>

theorem size_classed_lifecycle:
  assumes "ranged_contract A ainv R" "ainv b m {}" "sc_inv ainv R s m2 L"
  shows "(\<exists>r b' m'. with_class_sizes A R sizes k (b, m) = Done (r, b', m') \<and>
    (case r of Inl e \<Rightarrow> ainv b' m' {}
     | Inr s \<Rightarrow> sc_inv ainv R s m' {} \<and> sc_backing s = b' \<and> sc_class_sizes s = sizes \<and>
         class_sizes_valid 0 sizes \<and> (\<forall>u \<in> set (sc_slabs s). us_capacity u = k))) \<and>
   (\<exists>b' m' K. size_classed_drop A R (s, m2) = Done (b', m') \<and> K \<subseteq> L \<and> ainv b' m' K \<and>
    same_on (footprint K) m2 m' \<and> (\<forall>(p, lay, n) \<in> K. route_dealloc R s p = None))"
  using ranged_contract.with_class_sizes_post [OF assms(1,2)]
    ranged_contract.size_classed_drop_post [OF assms(1,3)] by blast

theorem size_classed_lifecycle_witness:
  "with_class_sizes (inline_allocator 256) (inline_range 256) [8, 16] 2 (demo_inline, zero_mem) =
     Done (Inr demo_classes, \<lparr>ib_addr = 4096, ib_cursor = 48\<rparr>, zero_mem) \<and>
   (\<exists>b' m'. size_classed_drop (inline_allocator 256) (inline_range 256) (demo_classes, zero_mem) =
     Done (b', m') \<and> inline_inv 256 b' m' {})"
  using size_classed_lifecycle [OF inline.ranged_contract_axioms demo_inline_ok [of zero_mem]
      demo_classes_ok [of zero_mem], of "[8, 16]" 2] demo_classes_new
  by auto

end
