(* ===== verification/Shared_Bump.thy ===== *)
theory Shared_Bump
  imports Bump_Carve
begin

text \<open>
  \<open>forge-alloc/src/layout/shared_bump.rs\<close>: \<open>SharedBumpArena<B>\<close>, the bump arena whose cursor is an
  atomic. First the operations as one caller runs them, then the concurrent system: a step relation
  whose atomic actions are the relaxed load of the cursor and the weak compare-exchange of each
  thread, in any interleaving.
\<close>

section \<open>State and operations\<close>

record 'b shared_bump =
  sb_backing :: 'b
  sb_capacity :: usize
  sb_cursor :: usize

definition shared_bump_new :: "'b fixed_range \<Rightarrow> 'b \<Rightarrow> 'b shared_bump res" where
  "shared_bump_new R backing =
     (let capacity = fr_size R backing
      in if capacity = 0 then Inl AllocError
         else Inr \<lparr>sb_backing = backing, sb_capacity = capacity, sb_cursor = 0\<rparr>)"

definition shared_bump_allocated :: "'b shared_bump \<Rightarrow> usize" where
  "shared_bump_allocated a = sb_cursor a"

definition shared_bump_capacity :: "'b shared_bump \<Rightarrow> usize" where
  "shared_bump_capacity a = sb_capacity a"

definition shared_bump_remaining :: "'b shared_bump \<Rightarrow> usize" where
  "shared_bump_remaining a = saturating_sub (shared_bump_capacity a) (shared_bump_allocated a)"

definition shared_bump_deallocate :: "'b shared_bump dealloc_fun" where
  "shared_bump_deallocate p lay s = Done s"

text \<open>The loop body up to the exchange: where the block would go if the cursor is \<open>cur\<close>.\<close>

definition shared_attempt :: "'b fixed_range \<Rightarrow> 'b shared_bump \<Rightarrow> layout \<Rightarrow> usize \<Rightarrow> (usize \<times> usize) res" where
  "shared_attempt R a lay cur =
     bump_carve (fr_base R (sb_backing a)) (sb_capacity a) cur (lay_align lay) (lay_size lay)"

text \<open>
  The loop for one caller; \<open>spurious\<close> is how often the weak exchange fails although nobody moved the
  cursor, as it may on targets without a strong one.
\<close>

function shared_bump_loop ::
  "'b fixed_range \<Rightarrow> layout \<Rightarrow> nat \<Rightarrow> usize \<Rightarrow> 'b shared_bump \<Rightarrow> block res \<times> 'b shared_bump" where
  "shared_bump_loop R lay spurious cur a =
     (case shared_attempt R a lay cur of
        Inl e \<Rightarrow> (Inl e, a)
      | Inr (aligned_off, end_off) \<Rightarrow>
          if sb_cursor a = cur \<and> spurious = 0
          then (Inr (fr_base R (sb_backing a) + aligned_off, lay_size lay), a\<lparr>sb_cursor := end_off\<rparr>)
          else shared_bump_loop R lay (spurious - 1) (sb_cursor a) a)"
  by pat_completeness auto

termination
  by (relation "measure (\<lambda>(R, lay, n, cur, a). 2 * n + (if sb_cursor a = cur then 0 else 1))") auto

declare shared_bump_loop.simps [simp del]

definition shared_bump_allocate :: "nat \<Rightarrow> 'b fixed_range \<Rightarrow> 'b shared_bump alloc_fun" where
  "shared_bump_allocate spurious R lay s =
     (case s of (a, m) \<Rightarrow>
        case shared_bump_loop R lay spurious (sb_cursor a) a of (r, a') \<Rightarrow> (r, a', m))"

definition shared_bump_allocator :: "nat \<Rightarrow> 'b fixed_range \<Rightarrow> 'b shared_bump allocator" where
  "shared_bump_allocator spurious R =
     \<lparr>al_allocate = shared_bump_allocate spurious R,
      al_allocate_zeroed = default_allocate_zeroed (shared_bump_allocate spurious R),
      al_deallocate = shared_bump_deallocate,
      al_grow = default_grow (shared_bump_allocate spurious R) shared_bump_deallocate,
      al_shrink = default_shrink (shared_bump_allocate spurious R) shared_bump_deallocate,
      al_reset = default_reset,
      al_usable_size = default_usable_size,
      al_capacity_bytes = (\<lambda>a. Some (sb_capacity a)),
      al_corruption_events = default_corruption_events\<rparr>"

definition shared_bump_range :: "'b fixed_range \<Rightarrow> 'b shared_bump fixed_range" where
  "shared_bump_range R =
     \<lparr>fr_base = (\<lambda>a. fr_base R (sb_backing a)), fr_size = sb_capacity, fr_commit = default_commit\<rparr>"

section \<open>One caller\<close>

text \<open>However often the exchange fails, the loop ends with the answer of its first attempt.\<close>

lemma shared_bump_loop_eq:
  "shared_bump_loop R lay n (sb_cursor a) a =
     (case shared_attempt R a lay (sb_cursor a) of
        Inl e \<Rightarrow> (Inl e, a)
      | Inr (off, fin) \<Rightarrow> (Inr (fr_base R (sb_backing a) + off, lay_size lay), a\<lparr>sb_cursor := fin\<rparr>))"
proof (induction n)
  case 0
  then show ?case by (simp add: shared_bump_loop.simps split: sum.splits prod.splits)
next
  case (Suc n)
  then show ?case
    by (subst shared_bump_loop.simps) (auto split: sum.splits prod.splits)
qed

definition shared_bump_inv ::
  "'b fixed_range \<Rightarrow> ('b \<Rightarrow> bool) \<Rightarrow> 'b shared_bump \<Rightarrow> mem \<Rightarrow> live \<Rightarrow> bool" where
  "shared_bump_inv R rinv a m L \<longleftrightarrow> rinv (sb_backing a) \<and>
     sb_capacity a = fr_size R (sb_backing a) \<and> sb_cursor a \<le> sb_capacity a \<and>
     bump_live (fr_base R (sb_backing a)) (sb_cursor a) L"

text \<open>
  Refusals are monotone: a request that does not fit behind one cursor fits behind no later one.
\<close>

lemma bump_carve_mono:
  assumes "bump_carve base capacity cur' align sz = Inr (off, fin)" "cur \<le> cur'"
    "is_pow2 align" "no_wrap base capacity"
  shows "\<exists>off fin. bump_carve base capacity cur align sz = Inr (off, fin)"
proof -
  note c = bump_carve_Inr [OF assms(1,3)]
  obtain raw aligned where raw: "checked_add base cur' = Some raw"
    and al: "align_up_checked raw align = Some aligned"
    using assms(1) by (auto simp: bump_carve_def Let_def split: option.splits)
  have "unat raw + unat (align - 1) < 2 ^ 64"
    using al by (auto simp: align_up_checked_def checked_add_def split: if_splits)
  then have "unat base + unat cur + (unat align - 1) < 2 ^ 64"
    using checked_add_unat [OF raw] assms(2) by (simp add: unat_minus_one_pow2 [OF assms(3)] word_le_nat_alt)
  from bump_carve_complete [OF assms(4,3) this c(5), of sz] show ?thesis
    using c assms(2) by (auto simp: word_le_nat_alt)
qed

context fixed_range_contract
begin

lemma shared_bump_new_inv:
  "rinv b \<Longrightarrow> shared_bump_new R b = Inr a \<Longrightarrow> shared_bump_inv R rinv a m {}"
  by (auto simp: shared_bump_new_def shared_bump_inv_def Let_def split: if_splits)

lemma shared_attempt_inv:
  assumes inv: "shared_bump_inv R rinv a m L" and lay: "valid_layout lay"
    and at: "shared_attempt R a lay (sb_cursor a) = Inr (off, fin)"
  shows "block_ok lay (fr_base R (sb_backing a) + off) (lay_size lay)"
    "span (fr_base R (sb_backing a) + off) (lay_size lay) \<inter> footprint L = {}"
    "shared_bump_inv R rinv (a\<lparr>sb_cursor := fin\<rparr>) m'
       (insert (fr_base R (sb_backing a) + off, lay, lay_size lay) L)"
    "sb_cursor a < fin"
proof -
  have i: "rinv (sb_backing a)" "sb_capacity a = fr_size R (sb_backing a)"
    "bump_live (fr_base R (sb_backing a)) (sb_cursor a) L"
    using inv by (auto simp: shared_bump_inv_def)
  note c = bump_carve_live [OF at [unfolded shared_attempt_def] lay base_nonnull [OF i(1)]
      range_no_wrap [OF i(1), folded i(2)] i(3)]
  show "block_ok lay (fr_base R (sb_backing a) + off) (lay_size lay)"
    "span (fr_base R (sb_backing a) + off) (lay_size lay) \<inter> footprint L = {}"
    by (rule c)+
  show "shared_bump_inv R rinv (a\<lparr>sb_cursor := fin\<rparr>) m'
      (insert (fr_base R (sb_backing a) + off, lay, lay_size lay) L)"
    using c i by (simp add: shared_bump_inv_def word_le_nat_alt)
  show "sb_cursor a < fin"
    using bump_carve_Inr(2,3) [OF at [unfolded shared_attempt_def] valid_layoutD(3) [OF lay]]
      valid_layoutD(2) [OF lay] by (simp add: word_less_nat_alt)
qed

lemma shared_bump_inv_mono:
  "shared_bump_inv R rinv a m L \<Longrightarrow> K \<subseteq> L \<Longrightarrow> shared_bump_inv R rinv a m' K"
  by (auto simp: shared_bump_inv_def intro: bump_live_mono)

lemma shared_bump_core:
  "allocator_core (shared_bump_allocate k R) shared_bump_deallocate default_usable_size (shared_bump_inv R rinv)"
proof
  fix a m L lay assume a: "shared_bump_inv R rinv a m L" "valid_layout lay"
  show "alloc_post (shared_bump_inv R rinv) L lay m (shared_bump_allocate k R lay (a, m))"
    using a(1) shared_attempt_inv [OF a]
    by (auto simp: shared_bump_allocate_def shared_bump_loop_eq alloc_post_def
        split: sum.splits prod.splits)
next
  fix a m L p lay n assume "shared_bump_inv R rinv a m L"
  then show "dealloc_post (shared_bump_inv R rinv) (L - {(p, lay, n)}) m (shared_bump_deallocate p lay (a, m))"
    by (auto simp: dealloc_post_def shared_bump_deallocate_def intro: shared_bump_inv_mono)
qed (auto simp: default_usable_size_def shared_bump_inv_def bump_live_def)

lemma shared_bump_contract: "allocator_contract (shared_bump_allocator k R) (shared_bump_inv R rinv)"
  by (rule allocator_contractI) (simp_all add: shared_bump_allocator_def shared_bump_core)

end

section \<open>Many callers\<close>

text \<open>
  The history is the modification order of the cursor, oldest first. All accesses are \<open>Relaxed\<close>: a
  load, and a compare-exchange that fails, may read any value of the history not older than what
  the same thread has read or written before; a compare-exchange that succeeds reads the newest.
  \<open>sw_live\<close> collects the blocks issued.
\<close>

datatype sb_thread = Idle | Spin layout usize

record 'b sb_world =
  sw_backing :: 'b
  sw_capacity :: usize
  sw_history :: "usize list"
  sw_seen :: "nat \<Rightarrow> nat"
  sw_thread :: "nat \<Rightarrow> sb_thread"
  sw_live :: live

text \<open>The arena as it stands in memory: its cursor is the newest value.\<close>

definition sw_arena :: "'b sb_world \<Rightarrow> 'b shared_bump" where
  "sw_arena w = \<lparr>sb_backing = sw_backing w, sb_capacity = sw_capacity w, sb_cursor = last (sw_history w)\<rparr>"

datatype sb_event = Load nat | Retry nat | Lost nat | Issued nat layout block | Refused nat layout

inductive sb_step :: "'b fixed_range \<Rightarrow> 'b sb_world \<Rightarrow> sb_event \<Rightarrow> 'b sb_world \<Rightarrow> bool" for R where
  load: "sw_thread w t = Idle \<Longrightarrow> valid_layout lay \<Longrightarrow> sw_seen w t \<le> k \<Longrightarrow> k < length (sw_history w) \<Longrightarrow>
    sb_step R w (Load t) (w\<lparr>sw_thread := (sw_thread w)(t := Spin lay (sw_history w ! k)),
      sw_seen := (sw_seen w)(t := k)\<rparr>)"
| refuse: "sw_thread w t = Spin lay cur \<Longrightarrow> shared_attempt R (sw_arena w) lay cur = Inl e \<Longrightarrow>
    sb_step R w (Refused t lay) (w\<lparr>sw_thread := (sw_thread w)(t := Idle)\<rparr>)"
| publish: "sw_thread w t = Spin lay cur \<Longrightarrow> shared_attempt R (sw_arena w) lay cur = Inr (off, fin) \<Longrightarrow>
    cur = last (sw_history w) \<Longrightarrow> b = (fr_base R (sw_backing w) + off, lay_size lay) \<Longrightarrow>
    sb_step R w (Issued t lay b) (w\<lparr>sw_thread := (sw_thread w)(t := Idle),
      sw_history := sw_history w @ [fin], sw_seen := (sw_seen w)(t := length (sw_history w)),
      sw_live := insert (fst b, lay, snd b) (sw_live w)\<rparr>)"
| retry: "sw_thread w t = Spin lay cur \<Longrightarrow> shared_attempt R (sw_arena w) lay cur = Inr (off, fin) \<Longrightarrow>
    sw_seen w t \<le> k \<Longrightarrow> k < length (sw_history w) \<Longrightarrow> v = sw_history w ! k \<Longrightarrow>
    sb_step R w (if v = cur then Retry t else Lost t)
      (w\<lparr>sw_thread := (sw_thread w)(t := Spin lay v), sw_seen := (sw_seen w)(t := k)\<rparr>)"

inductive_cases sb_stepE: "sb_step R w ev w'"

inductive sb_run :: "'b fixed_range \<Rightarrow> 'b sb_world \<Rightarrow> sb_event list \<Rightarrow> 'b sb_world \<Rightarrow> bool" for R where
  sb_nil: "sb_run R w [] w"
| sb_snoc: "sb_run R w evs w' \<Longrightarrow> sb_step R w' ev w'' \<Longrightarrow> sb_run R w (evs @ [ev]) w''"

text \<open>What a run amounts to: how many blocks were issued, and how many races each thread lost.\<close>

definition issued :: "sb_event list \<Rightarrow> nat" where
  "issued evs = length (filter (\<lambda>ev. case ev of Issued t lay b \<Rightarrow> True | _ \<Rightarrow> False) evs)"

definition issued_to :: "nat \<Rightarrow> sb_event list \<Rightarrow> nat" where
  "issued_to t evs = length (filter (\<lambda>ev. case ev of Issued u lay b \<Rightarrow> u = t | _ \<Rightarrow> False) evs)"

definition lost :: "nat \<Rightarrow> sb_event list \<Rightarrow> nat" where
  "lost t evs = length (filter (\<lambda>ev. ev = Lost t) evs)"

text \<open>The steps of one thread, those that end its call, and its spurious failures.\<close>

fun event_thread :: "sb_event \<Rightarrow> nat" where
  "event_thread (Load t) = t"
| "event_thread (Retry t) = t"
| "event_thread (Lost t) = t"
| "event_thread (Issued t lay b) = t"
| "event_thread (Refused t lay) = t"

fun ends_call :: "sb_event \<Rightarrow> bool" where
  "ends_call (Issued t lay b) \<longleftrightarrow> True"
| "ends_call (Refused t lay) \<longleftrightarrow> True"
| "ends_call ev \<longleftrightarrow> False"

definition steps_of :: "nat \<Rightarrow> sb_event list \<Rightarrow> nat" where
  "steps_of t evs = length (filter (\<lambda>ev. event_thread ev = t) evs)"

definition spurious :: "nat \<Rightarrow> sb_event list \<Rightarrow> nat" where
  "spurious t evs = length (filter (\<lambda>ev. ev = Retry t) evs)"

lemmas count_defs = issued_def issued_to_def lost_def steps_of_def spurious_def

lemma count_append:
  "issued (xs @ ys) = issued xs + issued ys" "issued_to t (xs @ ys) = issued_to t xs + issued_to t ys"
  "lost t (xs @ ys) = lost t xs + lost t ys" "steps_of t (xs @ ys) = steps_of t xs + steps_of t ys"
  "spurious t (xs @ ys) = spurious t xs + spurious t ys"
  by (simp_all add: count_defs)

lemma solo_counts:
  assumes "\<forall>ev \<in> set evs. event_thread ev = t \<and> \<not> ends_call ev"
  shows "steps_of t evs = length evs" "issued evs = 0"
proof -
  show "steps_of t evs = length evs" using assms by (simp add: steps_of_def)
  have "\<not> (case ev of Issued u lay b \<Rightarrow> True | _ \<Rightarrow> False)" if "ev \<in> set evs" for ev
    using bspec [OF assms that] by (cases ev) simp_all
  then show "issued evs = 0" by (simp add: issued_def filter_empty_conv)
qed

text \<open>A new arena shared by threads that have not touched it.\<close>

definition sw_start :: "'b shared_bump \<Rightarrow> 'b sb_world" where
  "sw_start a = \<lparr>sw_backing = sb_backing a, sw_capacity = sb_capacity a, sw_history = [sb_cursor a],
     sw_seen = (\<lambda>t. 0), sw_thread = (\<lambda>t. Idle), sw_live = {}\<rparr>"

definition sw_inv :: "'b fixed_range \<Rightarrow> ('b \<Rightarrow> bool) \<Rightarrow> 'b sb_world \<Rightarrow> bool" where
  "sw_inv R rinv w \<longleftrightarrow>
     sw_history w \<noteq> [] \<and> sorted_wrt (<) (sw_history w) \<and>
     (\<forall>m. shared_bump_inv R rinv (sw_arena w) m (sw_live w)) \<and>
     (\<forall>t. sw_seen w t < length (sw_history w) \<and>
        (\<forall>lay cur. sw_thread w t = Spin lay cur \<longrightarrow>
           valid_layout lay \<and> cur = sw_history w ! sw_seen w t))"

lemma sw_inv_last:
  assumes "sw_inv R rinv w" "k < length (sw_history w)"
  shows "sw_history w ! k \<le> last (sw_history w)"
    "j < k \<Longrightarrow> sw_history w ! j < sw_history w ! k"
proof -
  have s: "sorted_wrt (<) (sw_history w)" "sw_history w \<noteq> []" using assms(1) by (auto simp: sw_inv_def)
  show lt: "sw_history w ! j < sw_history w ! k" if "j < k" for j
    using sorted_wrt_nth_less [OF s(1) that assms(2)] .
  show "sw_history w ! k \<le> last (sw_history w)"
  proof (cases "k = length (sw_history w) - 1")
    case False
    then have "k < length (sw_history w) - 1" "length (sw_history w) - 1 < length (sw_history w)"
      using assms(2) by auto
    from sorted_wrt_nth_less [OF s(1) this] show ?thesis by (simp add: last_conv_nth [OF s(2)])
  qed (simp add: last_conv_nth [OF s(2)])
qed

context fixed_range_contract
begin

lemma sw_start_inv:
  assumes "rinv b" "shared_bump_new R b = Inr a"
  shows "sw_inv R rinv (sw_start a)"
proof -
  have "sw_arena (sw_start a) = a" by (simp add: sw_arena_def sw_start_def)
  then show ?thesis using shared_bump_new_inv [OF assms] by (simp add: sw_inv_def) (simp add: sw_start_def)
qed

lemma sb_step_inv:
  assumes "sb_step R w ev w'" "sw_inv R rinv w"
  shows "sw_inv R rinv w'"
  using assms(1)
proof cases
  case (load t lay k)
  then show ?thesis using assms(2) by (auto simp: sw_inv_def sw_arena_def)
next
  case (refuse t lay cur e)
  then show ?thesis using assms(2) by (auto simp: sw_inv_def sw_arena_def)
next
  case (publish t lay cur off fin b)
  let ?h = "sw_history w"
  have v: "valid_layout lay" and a: "\<And>m. shared_bump_inv R rinv (sw_arena w) m (sw_live w)"
    and h: "?h \<noteq> []" "sorted_wrt (<) ?h"
    using assms(2) publish(3) by (auto simp: sw_inv_def)
  have at: "shared_attempt R (sw_arena w) lay (sb_cursor (sw_arena w)) = Inr (off, fin)"
    using publish(4,5) by (simp add: sw_arena_def)
  note s = shared_attempt_inv [OF a v at]
  have "x < fin" if "x \<in> set ?h" for x
  proof -
    obtain k where "k < length ?h" "x = ?h ! k" using \<open>x \<in> set ?h\<close> by (auto simp: in_set_conv_nth)
    then have "x \<le> last ?h" using sw_inv_last(1) [OF assms(2)] by simp
    then show ?thesis using s(4) by (simp add: sw_arena_def)
  qed
  then have "sorted_wrt (<) (?h @ [fin])" using h(2) by (simp add: sorted_wrt_append)
  moreover have "shared_bump_inv R rinv (sw_arena w') m (sw_live w')" for m
    using s(3) [of m] publish by (simp add: sw_arena_def)
  ultimately show ?thesis
    using assms(2) publish(2) by (auto simp: sw_inv_def nth_append less_SucI)
next
  case (retry t lay cur off fin k v)
  then show ?thesis using assms(2) by (auto simp: sw_inv_def sw_arena_def)
qed

lemma sb_run_inv: "sb_run R w evs w' \<Longrightarrow> sw_inv R rinv w \<Longrightarrow> sw_inv R rinv w'"
  by (induction rule: sb_run.induct) (auto intro: sb_step_inv)

text \<open>
  Linearization: every step is, at that moment, either one whole sequential call on the arena or no
  change of it at all. A refusal may rest on an old cursor, but holds for the newest as well.
\<close>

lemma sb_step_linear:
  assumes "sb_step R w ev w'" "sw_inv R rinv w"
  shows "case ev of
      Issued t lay b \<Rightarrow> shared_bump_allocate k R lay (sw_arena w, m) = (Inr b, sw_arena w', m)
    | Refused t lay \<Rightarrow>
        shared_bump_allocate k R lay (sw_arena w, m) = (Inl AllocError, sw_arena w', m) \<and>
        sw_arena w' = sw_arena w
    | _ \<Rightarrow> sw_arena w' = sw_arena w"
  using assms(1)
proof cases
  case (publish t lay cur off fin b)
  then show ?thesis
    by (simp add: shared_bump_allocate_def shared_bump_loop_eq sw_arena_def shared_attempt_def)
next
  case (refuse t lay cur e)
  have v: "valid_layout lay" and cur: "cur = sw_history w ! sw_seen w t" "sw_seen w t < length (sw_history w)"
    and a: "\<And>m. shared_bump_inv R rinv (sw_arena w) m (sw_live w)"
    using assms(2) refuse(3) by (auto simp: sw_inv_def)
  have "no_wrap (fr_base R (sw_backing w)) (sw_capacity w)"
    using a range_no_wrap [of "sw_backing w"] by (auto simp: shared_bump_inv_def sw_arena_def)
  then have "shared_attempt R (sw_arena w) lay (sb_cursor (sw_arena w)) \<noteq> Inr (off, fin)" for off fin
    using bump_carve_mono [of "fr_base R (sw_backing w)" "sw_capacity w" "last (sw_history w)"
        "lay_align lay" "lay_size lay" off fin cur] refuse(4) v sw_inv_last(1) [OF assms(2) cur(2)] cur(1)
    by (auto simp: shared_attempt_def sw_arena_def dest: valid_layoutD(3))
  then have "shared_attempt R (sw_arena w) lay (sb_cursor (sw_arena w)) = Inl AllocError"
    by (cases "shared_attempt R (sw_arena w) lay (sb_cursor (sw_arena w))")
      (auto split: prod.splits intro: alloc_error.exhaust)
  then show ?thesis
    using refuse by (simp add: shared_bump_allocate_def shared_bump_loop_eq sw_arena_def shared_attempt_def)
qed (auto simp: sw_arena_def)

lemma sb_step_counts:
  assumes "sb_step R w ev w'" "sw_inv R rinv w"
  shows "length (sw_history w') = length (sw_history w) + issued [ev]"
    "lost t [ev] + issued_to t [ev] + sw_seen w t \<le> sw_seen w' t"
    "finite (sw_live w) \<Longrightarrow> finite (sw_live w') \<and> card (sw_live w') = card (sw_live w) + issued [ev]"
    "sw_live w' = sw_live w \<union> {(p, lay, n). \<exists>u. ev = Issued u lay (p, n)}"
    "sw_backing w' = sw_backing w" "sw_capacity w' = sw_capacity w"
proof -
  show len: "length (sw_history w') = length (sw_history w) + issued [ev]"
    and "sw_live w' = sw_live w \<union> {(p, lay, n). \<exists>u. ev = Issued u lay (p, n)}"
    and "sw_backing w' = sw_backing w" "sw_capacity w' = sw_capacity w"
    using assms(1) by (cases; auto simp: count_defs)+
  show "lost t [ev] + issued_to t [ev] + sw_seen w t \<le> sw_seen w' t"
    using assms(1)
  proof cases
    case (retry u lay cur off fin k v)
    then have "cur = sw_history w ! sw_seen w u" using assms(2) by (auto simp: sw_inv_def)
    then have "v \<noteq> cur \<Longrightarrow> sw_seen w u < k" using retry by (auto simp: nat_less_le)
    then show ?thesis using retry by (auto simp: count_defs)
  next
    case (publish u lay cur off fin b)
    then show ?thesis using assms(2) by (auto simp: count_defs sw_inv_def Suc_le_eq)
  qed (auto simp: count_defs)
  show "finite (sw_live w') \<and> card (sw_live w') = card (sw_live w) + issued [ev]" if fin: "finite (sw_live w)"
    using assms(1)
  proof cases
    case (publish u lay cur off fin b)
    have v: "valid_layout lay" and a: "\<And>m. shared_bump_inv R rinv (sw_arena w) m (sw_live w)"
      using assms(2) publish(3) by (auto simp: sw_inv_def)
    have at: "shared_attempt R (sw_arena w) lay (sb_cursor (sw_arena w)) = Inr (off, fin)"
      using publish(4,5) by (simp add: sw_arena_def)
    have "(fst b, lay, snd b) \<notin> sw_live w"
      using shared_attempt_inv(1,2) [OF a v at] publish(6) span_footprint [of "fst b" lay "snd b" "sw_live w"]
        span_base [of "lay_size lay" "fst b"]
      by (auto simp: sw_arena_def dest: block_okD(7))
    then show ?thesis using publish fin by (simp add: count_defs)
  qed (use fin in \<open>auto simp: count_defs\<close>)
qed

lemma sb_run_counts:
  assumes "sb_run R (sw_start a) evs w" "sw_inv R rinv (sw_start a)"
  shows "length (sw_history w) = Suc (issued evs) \<and> lost t evs + issued_to t evs \<le> sw_seen w t \<and>
    finite (sw_live w) \<and> card (sw_live w) = issued evs \<and>
    sw_live w = {(p, lay, n). \<exists>u. Issued u lay (p, n) \<in> set evs} \<and>
    sw_backing w = sb_backing a \<and> sw_capacity w = sb_capacity a"
  using assms
proof (induction "sw_start a" evs w rule: sb_run.induct)
  case sb_nil
  then show ?case by (simp add: sw_start_def count_defs)
next
  case (sb_snoc evs w ev w')
  have "sw_inv R rinv w" by (rule sb_run_inv [OF sb_snoc.hyps(1) sb_snoc.prems])
  note c = sb_step_counts [OF sb_snoc.hyps(3) this]
  note ih = sb_snoc.hyps(2) [OF sb_snoc.prems]
  have "sw_live w' = {(p, lay, n). \<exists>u. Issued u lay (p, n) \<in> set (evs @ [ev])}"
    using c(4) ih by auto
  then show ?case using c(1,3,5,6) c(2) [of t] ih by (auto simp: count_append)
qed

text \<open>The cursor has grown by at least one byte per block, and it ends within the capacity.\<close>

lemma sorted_words_long:
  "sorted_wrt (<) xs \<Longrightarrow> k < length xs \<Longrightarrow> k \<le> unat ((xs :: usize list) ! k)"
proof (induction k)
  case (Suc k)
  then have "xs ! k < xs ! Suc k" by (intro sorted_wrt_nth_less) auto
  then show ?case using Suc by (auto simp: word_less_nat_alt)
qed simp

lemma sw_inv_bounds:
  assumes "sw_inv R rinv w"
  shows "length (sw_history w) \<le> Suc (unat (sw_capacity w))" "live_ok (sw_live w)"
    "footprint (sw_live w) \<subseteq> span (fr_base R (sw_backing w)) (sw_capacity w)"
    "sw_seen w t < length (sw_history w)"
proof -
  have h: "sw_history w \<noteq> []" "sorted_wrt (<) (sw_history w)" and a: "\<And>m. shared_bump_inv R rinv (sw_arena w) m (sw_live w)"
    using assms by (auto simp: sw_inv_def)
  have i: "rinv (sw_backing w)" "sw_capacity w = fr_size R (sw_backing w)" "last (sw_history w) \<le> sw_capacity w"
    "bump_live (fr_base R (sw_backing w)) (last (sw_history w)) (sw_live w)"
    using a by (auto simp: shared_bump_inv_def sw_arena_def)
  have "length (sw_history w) - 1 \<le> unat (last (sw_history w))"
    using sorted_words_long [OF h(2), of "length (sw_history w) - 1"] h(1) by (simp add: last_conv_nth)
  then show "length (sw_history w) \<le> Suc (unat (sw_capacity w))"
    using i(3) by (simp add: word_le_nat_alt)
  show "live_ok (sw_live w)" using i(4) by (simp add: bump_live_def)
  show "footprint (sw_live w) \<subseteq> span (fr_base R (sw_backing w)) (sw_capacity w)"
    using bump_live_span [OF i(4)] range_no_wrap [OF i(1)] i(2,3) by (simp add: word_le_nat_alt)
  show "sw_seen w t < length (sw_history w)" using assms by (simp add: sw_inv_def)
qed

text \<open>The debug assertions of the loop never fire.\<close>

lemma sb_step_monotone:
  assumes "sb_step R w ev w'" "sw_inv R rinv w" "sw_thread w t = Spin lay cur"
  shows "sw_thread w' t = Spin lay' cur' \<Longrightarrow> cur \<le> cur'"
    "ev = Issued t lay b \<Longrightarrow> cur < last (sw_history w')"
proof -
  have cur: "cur = sw_history w ! sw_seen w t" "sw_seen w t < length (sw_history w)"
    using assms(2,3) by (auto simp: sw_inv_def)
  show "cur \<le> cur'" if "sw_thread w' t = Spin lay' cur'"
    using assms(1)
  proof cases
    case (retry u l c off fin k v)
    show ?thesis
    proof (cases "u = t")
      case True
      then have "cur' = sw_history w ! k" "sw_seen w t \<le> k" "k < length (sw_history w)"
        using retry that by auto
      then show ?thesis using sw_inv_last(2) [OF assms(2), of k "sw_seen w t"] cur
        by (cases "k = sw_seen w t") auto
    qed (use retry that assms(3) in auto)
  qed (use that assms(3) in \<open>auto split: if_splits\<close>)
  show "cur < last (sw_history w')" if "ev = Issued t lay b"
    using assms(1)
  proof cases
    case (publish u l c off fin b')
    then have "sw_thread w t = Spin l c" using that by auto
    moreover have "valid_layout lay" "\<And>m. shared_bump_inv R rinv (sw_arena w) m (sw_live w)"
      using assms(2,3) by (auto simp: sw_inv_def)
    ultimately show ?thesis
      using shared_attempt_inv(4) [of "sw_arena w" "\<lambda>a. 0" "sw_live w" lay off fin] publish assms(3)
      by (simp add: sw_arena_def)
  qed (use that in \<open>auto split: if_splits\<close>)
qed

text \<open>
  Every step of a call in progress either ends it, is a spurious failure, or reads a cursor the thread had
  not seen; and a step of the first or the third kind is always possible.
\<close>

lemma sb_step_unfinished:
  assumes "sb_step R w ev w'" "sw_inv R rinv w" "sw_thread w t = Spin lay cur"
    "event_thread ev = t \<Longrightarrow> \<not> ends_call ev"
  shows "(\<exists>cur'. sw_thread w' t = Spin lay cur') \<and>
    steps_of t [ev] + sw_seen w t \<le> spurious t [ev] + sw_seen w' t"
  using assms(1)
proof cases
  case (retry u l c off fin k v)
  then have "c = sw_history w ! sw_seen w u" using assms(2) by (auto simp: sw_inv_def)
  then have "v \<noteq> c \<Longrightarrow> sw_seen w u < k" using retry by (auto simp: nat_less_le)
  then show ?thesis using retry assms(3) by (auto simp: count_defs)
qed (use assms(3,4) in \<open>auto simp: count_defs\<close>)

lemma sb_run_unfinished:
  assumes "sb_run R w evs w'" "sw_inv R rinv w" "sw_thread w t = Spin lay cur"
    "\<forall>ev \<in> set evs. event_thread ev = t \<longrightarrow> \<not> ends_call ev"
  shows "(\<exists>cur'. sw_thread w' t = Spin lay cur') \<and>
    steps_of t evs + sw_seen w t \<le> spurious t evs + sw_seen w' t \<and>
    length (sw_history w') = length (sw_history w) + issued evs"
  using assms
proof (induction rule: sb_run.induct)
  case (sb_nil w)
  then show ?case by (simp add: count_defs)
next
  case (sb_snoc w evs w1 ev w2)
  then obtain cur' where ih: "sw_thread w1 t = Spin lay cur'"
    "steps_of t evs + sw_seen w t \<le> spurious t evs + sw_seen w1 t"
    "length (sw_history w1) = length (sw_history w) + issued evs" by auto
  have inv: "sw_inv R rinv w1" by (rule sb_run_inv [OF sb_snoc.hyps(1) sb_snoc.prems(1)])
  have "event_thread ev = t \<Longrightarrow> \<not> ends_call ev" using sb_snoc.prems(3) by simp
  from sb_step_unfinished [OF sb_snoc.hyps(2) inv ih(1) this] ih(2,3)
    sb_step_counts(1) [OF sb_snoc.hyps(2) inv] show ?case
    by (auto simp: count_append)
qed

lemma sb_step_possible:
  assumes inv: "sw_inv R rinv w" and spin: "sw_thread w t = Spin lay cur"
  shows "\<exists>ev w'. sb_step R w ev w' \<and> event_thread ev = t \<and> ev \<noteq> Retry t"
proof (cases "shared_attempt R (sw_arena w) lay cur")
  case (Inl e)
  from sb_step.refuse [OF spin this] show ?thesis by force
next
  case (Inr x)
  obtain off fin where x: "x = (off, fin)" by (cases x)
  note at = Inr [unfolded x]
  let ?h = "sw_history w" and ?k = "length (sw_history w) - 1"
  show ?thesis
  proof (cases "cur = last ?h")
    case True
    from sb_step.publish [OF spin at True refl] show ?thesis by force
  next
    case False
    have k: "sw_seen w t \<le> ?k" "?k < length ?h" "?h ! ?k = last ?h"
      using inv by (auto simp: sw_inv_def last_conv_nth)
         (metis Suc_pred length_greater_0_conv less_Suc_eq_le)
    from sb_step.retry [OF spin at k(1,2) refl] False show ?thesis unfolding k(3) by force
  qed
qed

text \<open>A thread that holds the newest cursor loses no race.\<close>

lemma sb_step_newest:
  assumes inv: "sw_inv R rinv w" and spin: "sw_thread w t = Spin lay cur" and new: "cur = last (sw_history w)"
    and step: "sb_step R w ev w'" "event_thread ev = t"
  shows "ends_call ev \<or> ev = Retry t"
  using step(1)
proof cases
  case (retry u l c off fin k v)
  have u: "u = t" using retry step(2) by (auto split: if_splits)
  then have seen: "cur = sw_history w ! sw_seen w t" "sw_seen w t \<le> k" "k < length (sw_history w)"
    using inv spin retry by (auto simp: sw_inv_def)
  have "sw_seen w t = k"
  proof (rule ccontr)
    assume "sw_seen w t \<noteq> k"
    then have "sw_history w ! sw_seen w t < sw_history w ! k"
      using sw_inv_last(2) [OF inv seen(3)] seen(2) by simp
    then show False using sw_inv_last(1) [OF inv seen(3)] seen(1) new by simp
  qed
  then show ?thesis using retry u spin seen(1) by auto
qed (use step(2) spin in auto)

end

end
