(* ===== verification/Concurrent_Properties.thy ===== *)
theory Concurrent_Properties
  imports Examples Shared_Bump
begin

text \<open>
  Properties of the parts that several threads share: \<open>SharedBumpArena\<close> under every interleaving of
  its callers. The example arena is over the 64-byte static buffer.
\<close>

section \<open>SharedBumpArena\<close>

definition demo_shared :: "static_backed shared_bump" where
  "demo_shared = \<lparr>sb_backing = demo_buf, sb_capacity = 64, sb_cursor = 0\<rparr>"

lemma demo_shared_new: "shared_bump_new static_range demo_buf = Inr demo_shared"
  by (simp add: shared_bump_new_def demo_shared_def demo_buf_def static_range_def static_new_def)

text \<open>Two threads load the same cursor; the first publishes, the second loses the race.\<close>

definition demo_race :: "sb_event list" where
  "demo_race = [Load 0, Load 1, Issued 0 demo_layout (4096, 8), Lost 1]"

lemma demo_attempt:
  "sw_backing w = demo_buf \<Longrightarrow> sw_capacity w = 64 \<Longrightarrow>
     shared_attempt static_range (sw_arena w) demo_layout 0 = Inr (0, 8)"
  by (simp add: shared_attempt_def sw_arena_def demo_buf_def static_range_def static_new_def demo_layout_def
      bump_carve_def align_up_checked_def checked_add_def align_down_def)

definition demo_world :: "static_backed sb_world \<Rightarrow> sb_thread \<Rightarrow> sb_thread \<Rightarrow> usize list \<Rightarrow> bool" where
  "demo_world w t0 t1 h \<longleftrightarrow> sw_backing w = demo_buf \<and> sw_capacity w = 64 \<and> sw_history w = h \<and>
     sw_thread w 0 = t0 \<and> sw_thread w 1 = t1 \<and> sw_seen w 1 = 0 \<and> sw_seen w 0 < length h"

lemma demo_race_run: "\<exists>w. sb_run static_range (sw_start demo_shared) demo_race w"
proof -
  let ?spin = "Spin demo_layout 0" and ?s = "sw_start demo_shared"
  have "demo_world ?s Idle Idle [0]" by (simp add: demo_world_def sw_start_def demo_shared_def)
  then obtain w1 where 1: "sb_step static_range ?s (Load 0) w1" "demo_world w1 ?spin Idle [0]"
    using load [of ?s 0 demo_layout 0 static_range] demo_layout_ok
    by (force simp: demo_world_def)
  then obtain w2 where 2: "sb_step static_range w1 (Load 1) w2" "demo_world w2 ?spin ?spin [0]"
    using load [of w1 1 demo_layout 0 static_range] demo_layout_ok
    by (force simp: demo_world_def)
  have w2: "sw_thread w2 0 = ?spin" "sw_backing w2 = demo_buf" "sw_capacity w2 = 64" "sw_history w2 = [0]"
    using 2(2) by (simp_all add: demo_world_def)
  have "(4096, 8) = (fr_base static_range (sw_backing w2) + 0, lay_size demo_layout)" "0 = last (sw_history w2)"
    by (simp_all add: w2 demo_buf_def static_range_def static_new_def demo_layout_def)
  from publish [OF w2(1) demo_attempt [OF w2(2,3)] this(2,1)]
  obtain w3 where 3: "sb_step static_range w2 (Issued 0 demo_layout (4096, 8)) w3"
    and "w3 = w2\<lparr>sw_thread := (sw_thread w2)(0 := Idle), sw_history := sw_history w2 @ [8],
      sw_seen := (sw_seen w2)(0 := length (sw_history w2)),
      sw_live := insert (fst (4096 :: addr, 8 :: usize), demo_layout, snd (4096 :: addr, 8 :: usize)) (sw_live w2)\<rparr>"
    by (rule that [OF _ refl])
  then have w3: "sw_thread w3 1 = ?spin" "sw_backing w3 = demo_buf" "sw_capacity w3 = 64"
    "sw_seen w3 1 \<le> 1" "1 < length (sw_history w3)" "8 = sw_history w3 ! 1"
    using 2(2) by (simp_all add: demo_world_def)
  obtain w4 where "sb_step static_range w3 (if (8 :: usize) = 0 then Retry 1 else Lost 1) w4"
    using retry [OF w3(1) demo_attempt [OF w3(2,3)] w3(4-6)] by blast
  then have "sb_step static_range w3 (Lost 1) w4" by simp
  then have "sb_run static_range ?s (((([] @ [Load 0]) @ [Load 1]) @ [Issued 0 demo_layout (4096, 8)]) @ [Lost 1]) w4"
    by (rule sb_snoc [OF sb_snoc [OF sb_snoc [OF sb_snoc [OF sb_nil 1(1)] 2(1)] 3]])
  then show ?thesis by (auto simp: demo_race_def)
qed

text \<open>
  C11. Under every interleaving of any number of threads, with stale relaxed loads and spurious
  failures of the weak exchange, the blocks a \<open>SharedBumpArena\<close> issues are valid, lie in its range
  and are pairwise disjoint: each event issues a block of its own.
\<close>

theorem shared_bump_race_free:
  assumes "fixed_range_contract R rinv" "rinv b" "shared_bump_new R b = Inr a"
    "sb_run R (sw_start a) evs w"
  shows "live_ok (sw_live w) \<and> footprint (sw_live w) \<subseteq> span (fr_base R b) (fr_size R b) \<and>
    sw_live w = {(p, lay, n). \<exists>t. Issued t lay (p, n) \<in> set evs} \<and> card (sw_live w) = issued evs"
proof -
  note i = fixed_range_contract.sw_start_inv [OF assms(1-3)]
  note c = fixed_range_contract.sb_run_counts [OF assms(1,4) i, of 0]
  have "sb_backing a = b" "sb_capacity a = fr_size R b"
    using assms(3) by (auto simp: shared_bump_new_def Let_def split: if_splits)
  then show ?thesis
    using fixed_range_contract.sw_inv_bounds(2,3) [OF assms(1)
        fixed_range_contract.sb_run_inv [OF assms(1,4) i]] c by metis
qed

theorem shared_bump_race_free_witness:
  "\<exists>w. sb_run static_range (sw_start demo_shared) demo_race w \<and> live_ok (sw_live w) \<and> card (sw_live w) = 1"
proof -
  obtain w where w: "sb_run static_range (sw_start demo_shared) demo_race w"
    using demo_race_run by blast
  then show ?thesis
    using shared_bump_race_free [OF static.fixed_range_contract_axioms demo_buf_ok demo_shared_new w]
    by (auto simp: demo_race_def issued_def)
qed

text \<open>
  C21. \<open>SharedBumpArena\<close> is linearizable: every step of every thread in every reachable state is
  either one whole sequential \<open>allocate\<close> on the arena as it then stands, with the same answer, or
  leaves the arena as it was; a refusal computed from a stale cursor is right for the newest too.
\<close>

theorem shared_bump_linearizable:
  assumes "fixed_range_contract R rinv" "rinv c" "shared_bump_new R c = Inr a"
    "sb_run R (sw_start a) evs w" "sb_step R w ev w'"
  shows "case ev of
      Issued t lay b \<Rightarrow> shared_bump_allocate k R lay (sw_arena w, m) = (Inr b, sw_arena w', m)
    | Refused t lay \<Rightarrow>
        shared_bump_allocate k R lay (sw_arena w, m) = (Inl AllocError, sw_arena w', m) \<and>
        sw_arena w' = sw_arena w
    | _ \<Rightarrow> sw_arena w' = sw_arena w"
  by (rule fixed_range_contract.sb_step_linear [OF assms(1,5) fixed_range_contract.sb_run_inv
        [OF assms(1,4) fixed_range_contract.sw_start_inv [OF assms(1-3)]]])

theorem shared_bump_linearizable_witness:
  "\<exists>w. sb_step static_range (sw_start demo_shared) (Load 0) w \<and> sw_arena w = sw_arena (sw_start demo_shared)"
proof -
  have "\<exists>w. sb_step static_range (sw_start demo_shared) (Load 0) w"
    using load [of "sw_start demo_shared" 0 demo_layout 0 static_range] demo_layout_ok
    by (auto simp: sw_start_def)
  then obtain w where w: "sb_step static_range (sw_start demo_shared) (Load 0) w" by blast
  from shared_bump_linearizable [OF static.fixed_range_contract_axioms demo_buf_ok demo_shared_new sb_nil w,
      of 0 zero_mem] w
  show ?thesis by auto
qed

text \<open>
  C22. \<open>SharedBumpArena\<close> is lock-free, up to the failures the weak exchange may have for no reason. Every
  race a thread loses is paid for by a block issued to another thread, and the blocks issued never
  outnumber the bytes of the arena. A call in progress is never stuck: some step of its thread that is
  no spurious failure is possible. In any interleaving, the steps of an unfinished call are at most its
  spurious failures plus the blocks that were issued, before or since, and that its thread had not yet lost
  a race to or been given: so every run of a thread alone ends its call, once that many steps beyond its
  spurious failures are taken. A thread that holds the newest cursor ends its call with its next step that
  is no spurious failure.
\<close>

theorem shared_bump_lock_free:
  assumes "fixed_range_contract R rinv" "rinv b" "shared_bump_new R b = Inr a"
    "sb_run R (sw_start a) evs w"
  shows "lost t evs + issued_to t evs \<le> issued evs \<and> issued evs \<le> unat (fr_size R b) \<and>
    (\<forall>lay cur. sw_thread w t = Spin lay cur \<longrightarrow>
       (\<exists>ev w'. sb_step R w ev w' \<and> event_thread ev = t \<and> ev \<noteq> Retry t) \<and>
       (\<forall>evs' w'. sb_run R w evs' w' \<and> (\<forall>ev \<in> set evs'. event_thread ev = t \<longrightarrow> \<not> ends_call ev) \<longrightarrow>
          steps_of t evs' + (lost t evs + issued_to t evs) \<le> spurious t evs' + (issued evs + issued evs')) \<and>
       (\<forall>evs' w'. sb_run R w evs' w' \<and> (\<forall>ev \<in> set evs'. event_thread ev = t \<and> \<not> ends_call ev) \<longrightarrow>
          length evs' + (lost t evs + issued_to t evs) \<le> spurious t evs' + issued evs) \<and>
       (cur = last (sw_history w) \<longrightarrow>
          (\<forall>ev w'. sb_step R w ev w' \<and> event_thread ev = t \<longrightarrow> ends_call ev \<or> ev = Retry t)))"
proof -
  note i = fixed_range_contract.sw_start_inv [OF assms(1-3)]
  note c = fixed_range_contract.sb_run_counts [OF assms(1,4) i, of t]
  note j = fixed_range_contract.sb_run_inv [OF assms(1,4) i]
  note b = fixed_range_contract.sw_inv_bounds [OF assms(1) j]
  have "sb_capacity a = fr_size R b"
    using assms(3) by (auto simp: shared_bump_new_def Let_def split: if_splits)
  then have 1: "issued evs \<le> unat (fr_size R b)" using b(1) c by simp
  have 2: "lost t evs + issued_to t evs \<le> issued evs" using b(4) [of t] c by simp
  have 3: "steps_of t evs' + (lost t evs + issued_to t evs) \<le> spurious t evs' + (issued evs + issued evs')"
    if "sw_thread w t = Spin lay cur" "sb_run R w evs' w'" "\<forall>ev \<in> set evs'. event_thread ev = t \<longrightarrow> \<not> ends_call ev"
    for lay cur evs' w'
  proof -
    note u = fixed_range_contract.sb_run_unfinished [OF assms(1) that(2) j that(1,3)]
    have "sw_seen w' t < length (sw_history w')"
      by (rule fixed_range_contract.sw_inv_bounds(4) [OF assms(1) fixed_range_contract.sb_run_inv [OF assms(1) that(2) j]])
    then show ?thesis using u c by linarith
  qed
  have 4: "length evs' + (lost t evs + issued_to t evs) \<le> spurious t evs' + issued evs"
    if "sw_thread w t = Spin lay cur" "sb_run R w evs' w'" "\<forall>ev \<in> set evs'. event_thread ev = t \<and> \<not> ends_call ev"
    for lay cur evs' w'
    using 3 [OF that(1,2)] that(3) solo_counts [OF that(3)] by simp
  show ?thesis
    using 1 2 3 4 fixed_range_contract.sb_step_possible [OF assms(1) j] fixed_range_contract.sb_step_newest [OF assms(1) j]
    by (intro conjI allI impI) (blast | simp)+
qed

theorem shared_bump_lock_free_witness:
  "\<exists>w. sb_run static_range (sw_start demo_shared) demo_race w \<and> lost 1 demo_race = 1 \<and>
     lost 1 demo_race \<le> issued demo_race"
proof -
  obtain w where w: "sb_run static_range (sw_start demo_shared) demo_race w"
    using demo_race_run by blast
  then show ?thesis
    using shared_bump_lock_free [OF static.fixed_range_contract_axioms demo_buf_ok demo_shared_new w, of 1]
    by (auto simp: demo_race_def lost_def)
qed

end
