(* ===== verification/Mmap_Backed.thy ===== *)
theory Mmap_Backed
  imports Ownership
begin

text \<open>
  \<open>forge-alloc/src/backing/mmap.rs\<close>: \<open>MmapBacked\<close>, an anonymous mapping of the operating system used
  bump-style, with its platform glue. The three \<open>cfg\<close> cases are the type \<open>target\<close>; the kernel is a
  parameter, the record \<open>kernel\<close> of the calls the glue makes, over a kernel state \<open>'k\<close>. \<open>mm_env\<close> is
  what a mapping sees outside itself: the kernel, and the thread's \<open>LAST_OS_ERROR\<close> slot.
\<close>

section \<open>The operating system\<close>

datatype target = Linux | OtherUnix | Windows

text \<open>
  \<open>k_page_size\<close> is what \<open>sysconf\<close> or \<open>GetSystemInfo\<close> reports. The booleans of \<open>k_map\<close> are
  \<open>MAP_POPULATE\<close> and reserve-only; the other calls answer whether they succeeded.
\<close>

record 'k kernel =
  k_page_size :: int
  k_map :: "usize \<Rightarrow> bool \<Rightarrow> bool \<Rightarrow> 'k \<times> mem \<Rightarrow> addr option \<times> 'k \<times> mem"
  k_unmap :: "addr \<Rightarrow> usize \<Rightarrow> 'k \<times> mem \<Rightarrow> bool \<times> 'k \<times> mem"
  k_commit :: "addr \<Rightarrow> usize \<Rightarrow> 'k \<Rightarrow> bool \<times> 'k"
  k_release :: "addr \<Rightarrow> usize \<Rightarrow> 'k \<times> mem \<Rightarrow> bool \<times> 'k \<times> mem"
  k_protect :: "addr \<Rightarrow> usize \<Rightarrow> u32 \<Rightarrow> 'k \<Rightarrow> bool \<times> 'k"
  k_error :: "'k \<Rightarrow> int"

record 'k env =
  en_kernel :: 'k
  en_last_os_error :: "int option"

definition capture_os_error :: "'k kernel \<Rightarrow> 'k env \<Rightarrow> 'k env" where
  "capture_os_error K e = e\<lparr>en_last_os_error := Some (k_error K (en_kernel e))\<rparr>"

definition capture_synthetic_einval :: "target \<Rightarrow> 'k env \<Rightarrow> 'k env" where
  "capture_synthetic_einval tg e = e\<lparr>en_last_os_error := Some (if tg = Windows then 87 else 22)\<rparr>"

definition mmap_last_os_error :: "'k env \<Rightarrow> int option" where
  "mmap_last_os_error e = en_last_os_error e"

definition mmap_clear_last_os_error :: "'k env \<Rightarrow> 'k env" where
  "mmap_clear_last_os_error e = e\<lparr>en_last_os_error := None\<rparr>"

definition mmap_record_os_error :: "'k kernel \<Rightarrow> 'k env \<Rightarrow> 'k env" where
  "mmap_record_os_error K e = capture_os_error K e"

definition mmap_set_last_os_error :: "int \<Rightarrow> 'k env \<Rightarrow> 'k env" where
  "mmap_set_last_os_error code e = e\<lparr>en_last_os_error := Some code\<rparr>"

definition page_size :: "'k kernel \<Rightarrow> usize" where
  "page_size K =
     (let p = k_page_size K
      in if 0 < p \<and> p < 2 ^ 64 \<and> is_pow2 (word_of_int p) then word_of_int p else 4096)"

record mmap_flags =
  mf_huge_pages :: bool
  mf_populate :: bool
  mf_numa_node :: "u32 option"
  mf_guard_at_end :: bool
  mf_lazy_commit :: bool

definition MMAP_FLAGS_NONE :: mmap_flags where
  "MMAP_FLAGS_NONE = \<lparr>mf_huge_pages = False, mf_populate = False, mf_numa_node = None,
     mf_guard_at_end = False, mf_lazy_commit = False\<rparr>"

definition populate_supported :: "target \<Rightarrow> bool" where
  "populate_supported tg \<longleftrightarrow> tg = Linux"

definition os_map ::
  "target \<Rightarrow> 'k kernel \<Rightarrow> usize \<Rightarrow> mmap_flags \<Rightarrow> 'k env \<times> mem \<Rightarrow> addr res \<times> 'k env \<times> mem" where
  "os_map tg K len flags st =
     (case st of (e, m) \<Rightarrow>
        case k_map K len (tg = Linux \<and> mf_populate flags) (tg = Windows \<and> mf_lazy_commit flags)
               (en_kernel e, m) of
          (r, k, m') \<Rightarrow>
            let e' = e\<lparr>en_kernel := k\<rparr>
            in case r of None \<Rightarrow> (Inl AllocError, capture_os_error K e', m')
               | Some p \<Rightarrow> (Inr p, e', m'))"

definition os_unmap :: "'k kernel \<Rightarrow> addr \<Rightarrow> usize \<Rightarrow> 'k env \<times> mem \<Rightarrow> 'k env \<times> mem" where
  "os_unmap K p len st =
     (case st of (e, m) \<Rightarrow>
        case k_unmap K p len (en_kernel e, m) of
          (ok, k, m') \<Rightarrow>
            let e' = e\<lparr>en_kernel := k\<rparr> in (if ok then e' else capture_os_error K e', m'))"

definition os_release :: "'k kernel \<Rightarrow> addr \<Rightarrow> usize \<Rightarrow> 'k env \<times> mem \<Rightarrow> 'k env \<times> mem" where
  "os_release K p sz st =
     (case st of (e, m) \<Rightarrow>
        case k_release K p sz (en_kernel e, m) of
          (ok, k, m') \<Rightarrow>
            let e' = e\<lparr>en_kernel := k\<rparr> in (if ok then e' else capture_os_error K e', m'))"

text \<open>The constants are those of the POSIX and Win32 headers.\<close>

definition unix_prot_from_flags :: "protect_flags \<Rightarrow> u32" where
  "unix_prot_from_flags f =
     (let prot = 0;
          prot = (if pf_read f then or prot 1 else prot);
          prot = (if pf_write f then or prot 2 else prot);
          prot = (if pf_exec f then or prot 4 else prot)
      in if \<not> pf_read f \<and> \<not> pf_write f \<and> \<not> pf_exec f then 0 else prot)"

definition PAGE_NOACCESS :: u32 where "PAGE_NOACCESS = 0x01"
definition PAGE_READONLY :: u32 where "PAGE_READONLY = 0x02"
definition PAGE_READWRITE :: u32 where "PAGE_READWRITE = 0x04"
definition PAGE_EXECUTE :: u32 where "PAGE_EXECUTE = 0x10"
definition PAGE_EXECUTE_READ :: u32 where "PAGE_EXECUTE_READ = 0x20"
definition PAGE_EXECUTE_READWRITE :: u32 where "PAGE_EXECUTE_READWRITE = 0x40"

definition win32_prot_from_flags :: "protect_flags \<Rightarrow> u32" where
  "win32_prot_from_flags f =
     (case (pf_read f, pf_write f, pf_exec f) of
        (False, False, False) \<Rightarrow> PAGE_NOACCESS
      | (True, False, False) \<Rightarrow> PAGE_READONLY
      | (True, True, False) \<Rightarrow> PAGE_READWRITE
      | (True, False, True) \<Rightarrow> PAGE_EXECUTE_READ
      | (True, True, True) \<Rightarrow> PAGE_EXECUTE_READWRITE
      | (False, False, True) \<Rightarrow> PAGE_EXECUTE
      | (False, True, True) \<Rightarrow> PAGE_EXECUTE_READWRITE
      | (False, True, False) \<Rightarrow> PAGE_READWRITE)"

definition os_protect_pages ::
  "target \<Rightarrow> 'k kernel \<Rightarrow> addr \<Rightarrow> usize \<Rightarrow> protect_flags \<Rightarrow> 'k env \<Rightarrow> 'k env" where
  "os_protect_pages tg K p sz f e =
     (let prot = (if tg = Windows then win32_prot_from_flags f else unix_prot_from_flags f)
      in case k_protect K p sz prot (en_kernel e) of
           (ok, k) \<Rightarrow> let e' = e\<lparr>en_kernel := k\<rparr> in if ok then e' else capture_os_error K e')"

section \<open>MmapBacked\<close>

record 'k mmap_backed =
  mm_ptr :: addr
  mm_len :: usize
  mm_cursor :: usize
  mm_committed :: usize
  mm_env :: "'k env"

definition mmap_with_flags ::
  "target \<Rightarrow> 'k kernel \<Rightarrow> usize \<Rightarrow> mmap_flags \<Rightarrow> 'k env \<times> mem \<Rightarrow>
     'k mmap_backed res \<times> 'k env \<times> mem" where
  "mmap_with_flags tg K sz flags st =
     (case st of (e, m) \<Rightarrow>
        if sz = 0 then (Inl AllocError, capture_synthetic_einval tg e, m)
        else case align_up_checked sz (page_size K) of
               None \<Rightarrow> (Inl AllocError, capture_synthetic_einval tg e, m)
             | Some len \<Rightarrow>
                 (case os_map tg K len flags (e, m) of
                    (Inl err, st') \<Rightarrow> (Inl err, st')
                  | (Inr p, e', m') \<Rightarrow>
                      let committed = (if tg = Windows \<and> mf_lazy_commit flags then 0 else len)
                      in (Inr \<lparr>mm_ptr = p, mm_len = len, mm_cursor = 0, mm_committed = committed,
                               mm_env = e'\<rparr>, e', m')))"

definition mmap_new ::
  "target \<Rightarrow> 'k kernel \<Rightarrow> usize \<Rightarrow> 'k env \<times> mem \<Rightarrow> 'k mmap_backed res \<times> 'k env \<times> mem" where
  "mmap_new tg K sz = mmap_with_flags tg K sz MMAP_FLAGS_NONE"

definition mmap_with_huge_pages ::
  "target \<Rightarrow> 'k kernel \<Rightarrow> usize \<Rightarrow> 'k env \<times> mem \<Rightarrow> 'k mmap_backed res \<times> 'k env \<times> mem" where
  "mmap_with_huge_pages tg K sz = mmap_with_flags tg K sz (MMAP_FLAGS_NONE\<lparr>mf_huge_pages := True\<rparr>)"

definition mmap_new_lazy ::
  "target \<Rightarrow> 'k kernel \<Rightarrow> usize \<Rightarrow> 'k env \<times> mem \<Rightarrow> 'k mmap_backed res \<times> 'k env \<times> mem" where
  "mmap_new_lazy tg K sz = mmap_with_flags tg K sz (MMAP_FLAGS_NONE\<lparr>mf_lazy_commit := True\<rparr>)"

definition mmap_allocated :: "'k mmap_backed \<Rightarrow> usize" where
  "mmap_allocated b = mm_cursor b"

definition mmap_capacity :: "'k mmap_backed \<Rightarrow> usize" where
  "mmap_capacity b = mm_len b"

definition mmap_remaining :: "'k mmap_backed \<Rightarrow> usize" where
  "mmap_remaining b = mm_len b - mmap_allocated b"

definition mmap_drop :: "'k kernel \<Rightarrow> 'k mmap_backed \<Rightarrow> 'k env \<times> mem \<Rightarrow> 'k env \<times> mem" where
  "mmap_drop K b st = os_unmap K (mm_ptr b) (mm_len b) st"

text \<open>
  On Unix a no-op. On Windows the pages from the watermark up to the page-rounded end of the request
  are committed in one call, so that the committed bytes always form a prefix.
\<close>

definition os_commit ::
  "target \<Rightarrow> 'k kernel \<Rightarrow> 'k mmap_backed \<Rightarrow> usize \<Rightarrow> usize \<Rightarrow> unit res \<times> 'k mmap_backed" where
  "os_commit tg K b offset len =
     (if tg \<noteq> Windows then (Inr (), b)
      else case checked_add offset len of None \<Rightarrow> (Inl AllocError, b)
      | Some fin \<Rightarrow>
          case align_up_checked fin (page_size K) of None \<Rightarrow> (Inl AllocError, b)
          | Some end_up \<Rightarrow>
              let end_paged = min end_up (mm_len b); already = mm_committed b
              in if end_paged \<le> already then (Inr (), b)
                 else case k_commit K (mm_ptr b + already) (end_paged - already) (en_kernel (mm_env b)) of
                        (ok, k) \<Rightarrow>
                          let e' = (mm_env b)\<lparr>en_kernel := k\<rparr>
                          in if ok then (Inr (), b\<lparr>mm_committed := end_paged, mm_env := e'\<rparr>)
                             else (Inl AllocError, b\<lparr>mm_env := capture_os_error K e'\<rparr>))"

definition mmap_deallocate :: "'k mmap_backed dealloc_fun" where
  "mmap_deallocate p lay st = Done st"

definition mmap_allocate :: "target \<Rightarrow> 'k kernel \<Rightarrow> 'k mmap_backed alloc_fun" where
  "mmap_allocate tg K lay st =
     (case st of (b, m) \<Rightarrow>
        case bump_carve (mm_ptr b) (mm_len b) (mm_cursor b) (lay_align lay) (lay_size lay) of
          Inl e \<Rightarrow> (Inl e, b, m)
        | Inr (aligned_off, end_off) \<Rightarrow>
            (case os_commit tg K b aligned_off (lay_size lay) of
               (Inl e, b') \<Rightarrow> (Inl e, b', m)
             | (Inr _, b') \<Rightarrow>
                 (Inr (mm_ptr b + aligned_off, lay_size lay), b'\<lparr>mm_cursor := end_off\<rparr>, m)))"

definition mmap_allocator :: "target \<Rightarrow> 'k kernel \<Rightarrow> 'k mmap_backed allocator" where
  "mmap_allocator tg K =
     \<lparr>al_allocate = mmap_allocate tg K,
      al_allocate_zeroed = default_allocate_zeroed (mmap_allocate tg K),
      al_deallocate = mmap_deallocate,
      al_grow = default_grow (mmap_allocate tg K) mmap_deallocate,
      al_shrink = default_shrink (mmap_allocate tg K) mmap_deallocate,
      al_reset = default_reset,
      al_usable_size = default_usable_size,
      al_capacity_bytes = (\<lambda>b. Some (mm_len b)),
      al_corruption_events = default_corruption_events\<rparr>"

definition mmap_range :: "target \<Rightarrow> 'k kernel \<Rightarrow> 'k mmap_backed fixed_range" where
  "mmap_range tg K = \<lparr>fr_base = mm_ptr, fr_size = mm_len, fr_commit = os_commit tg K\<rparr>"

text \<open>The length of a release: on Windows cut back to the committed prefix.\<close>

definition release_clamp :: "target \<Rightarrow> 'k mmap_backed \<Rightarrow> addr \<Rightarrow> usize \<Rightarrow> usize" where
  "release_clamp tg b p sz =
     (if tg = Windows
      then let off = saturating_sub p (mm_ptr b)
           in saturating_sub (min (saturating_add off sz) (mm_committed b)) off
      else sz)"

definition mmap_release_pages ::
  "target \<Rightarrow> 'k kernel \<Rightarrow> addr \<Rightarrow> usize \<Rightarrow> 'k mmap_backed \<times> mem \<Rightarrow> 'k mmap_backed \<times> mem" where
  "mmap_release_pages tg K p sz st =
     (case st of (b, m) \<Rightarrow>
        let clamped = release_clamp tg b p sz
        in if tg = Windows \<and> clamped = 0 then (b, m)
           else case os_release K p clamped (mm_env b, m) of (e, m') \<Rightarrow> (b\<lparr>mm_env := e\<rparr>, m'))"

definition mmap_os :: "target \<Rightarrow> 'k kernel \<Rightarrow> 'k mmap_backed os_backed" where
  "mmap_os tg K =
     \<lparr>os_base_ptr = mm_ptr, os_region_size = mm_len,
      os_release_pages = mmap_release_pages tg K,
      os_protect = (\<lambda>p sz f (b, m). (b\<lparr>mm_env := os_protect_pages tg K p sz f (mm_env b)\<rparr>, m))\<rparr>"

section \<open>What the kernel promises\<close>

text \<open>
  A mapping is page-aligned, fits the address space, is disjoint from everything mapped before and
  reads as zeros; unmapping gives the range back; neither changes other memory. \<open>mapped\<close> is the
  memory in use.
\<close>

locale mapping_kernel =
  fixes K :: "'k kernel" and mapped :: "'k \<Rightarrow> addr set"
  assumes map_ok: "k_map K len pop resv (k, m) = (Some p, k', m') \<Longrightarrow>
      p \<noteq> 0 \<and> no_wrap p len \<and> unat (page_size K) dvd unat p \<and> span p len \<inter> mapped k = {} \<and>
      mapped k' = mapped k \<union> span p len \<and> same_on (- span p len) m m' \<and> (\<forall>a \<in> span p len. m' a = 0)"
    and map_fail: "k_map K len pop resv (k, m) = (None, k', m') \<Longrightarrow> mapped k' = mapped k \<and> m' = m"
    and unmap_ok: "k_unmap K p len (k, m) = (ok, k', m') \<Longrightarrow>
      mapped k' = (if ok then mapped k - span p len else mapped k) \<and> same_on (- span p len) m m'"

section \<open>Correctness\<close>

lemma page_size_pow2: "is_pow2 (page_size K)"
  using is_pow2I [of 12 4096] by (simp add: page_size_def Let_def)

definition mmap_ok :: "'k mmap_backed \<Rightarrow> bool" where
  "mmap_ok b \<longleftrightarrow> mm_ptr b \<noteq> 0 \<and> no_wrap (mm_ptr b) (mm_len b) \<and> mm_committed b \<le> mm_len b"

definition mmap_inv :: "target \<Rightarrow> 'k mmap_backed \<Rightarrow> mem \<Rightarrow> live \<Rightarrow> bool" where
  "mmap_inv tg b m L \<longleftrightarrow> mmap_ok b \<and> mm_cursor b \<le> mm_len b \<and>
     (tg = Windows \<longrightarrow> mm_cursor b \<le> mm_committed b) \<and> bump_live (mm_ptr b) (mm_cursor b) L"

lemma os_commit_frame:
  assumes "os_commit tg K b off len = (r, b')"
  shows "mm_ptr b' = mm_ptr b" "mm_len b' = mm_len b" "mm_cursor b' = mm_cursor b"
    "mm_committed b \<le> mm_committed b'" "mmap_ok b \<Longrightarrow> mmap_ok b'"
  using assms
  by (auto simp: os_commit_def Let_def mmap_ok_def min_le_iff_disj not_le less_imp_le
      split: if_splits option.splits prod.splits)

text \<open>A commit that succeeds covers the request; one that fails leaves the watermark alone.\<close>

lemma os_commit_covers:
  assumes "os_commit Windows K b off len = (r, b')" "unat off + unat len \<le> unat (mm_len b)"
  shows "case r of Inl e \<Rightarrow> mm_committed b' = mm_committed b
    | Inr u \<Rightarrow> unat off + unat len \<le> unat (mm_committed b')"
proof -
  have sum: "checked_add off len = Some (off + len)" "unat (off + len) = unat off + unat len"
    using assms(2) unat_64_less [of "mm_len b"] by (simp_all add: checked_add_def unat_plus_if')
  show ?thesis
  proof (cases "align_up_checked (off + len) (page_size K)")
    case None
    then show ?thesis using assms(1) sum by (auto simp: os_commit_def)
  next
    case (Some v)
    have "unat off + unat len \<le> unat (min v (mm_len b))"
      using align_up_checkedD(1) [OF Some page_size_pow2] sum(2) assms(2)
      by (simp add: min_def word_le_nat_alt)
    then show ?thesis
      using assms(1) sum Some
      by (auto simp: os_commit_def Let_def word_le_nat_alt split: if_splits prod.splits)
  qed
qed

lemma mmap_allocate_cases:
  assumes inv: "mmap_inv tg b m L" and lay: "valid_layout lay"
    and al: "mmap_allocate tg K lay (b, m) = (r, b', m')"
  shows "alloc_post (mmap_inv tg) L lay m (r, b', m')" "mm_ptr b' = mm_ptr b" "mm_len b' = mm_len b" "m' = m"
proof -
  have i: "mmap_ok b" "mm_ptr b \<noteq> 0" "no_wrap (mm_ptr b) (mm_len b)" "bump_live (mm_ptr b) (mm_cursor b) L"
    "tg = Windows \<longrightarrow> mm_cursor b \<le> mm_committed b" "mm_cursor b \<le> mm_len b"
    using inv by (auto simp: mmap_inv_def mmap_ok_def)
  have "alloc_post (mmap_inv tg) L lay m (r, b', m') \<and> mm_ptr b' = mm_ptr b \<and> mm_len b' = mm_len b \<and> m' = m"
  proof (cases "bump_carve (mm_ptr b) (mm_len b) (mm_cursor b) (lay_align lay) (lay_size lay)")
    case (Inl e)
    then have "r = Inl e" "b' = b" "m' = m" using al by (auto simp: mmap_allocate_def)
    then show ?thesis using inv by (simp add: alloc_post_def)
  next
    case (Inr x)
    obtain off fin where x: "x = (off, fin)" by (cases x)
    note c = bump_carve_live [OF Inr [unfolded x] lay i(2,3,4)]
      bump_carve_Inr [OF Inr [unfolded x] valid_layoutD(3) [OF lay]]
    obtain r1 b1 where cm: "os_commit tg K b off (lay_size lay) = (r1, b1)" by force
    note f = os_commit_frame [OF cm]
    have cov: "case r1 of Inl e \<Rightarrow> mm_committed b1 = mm_committed b
        | Inr u \<Rightarrow> unat fin \<le> unat (mm_committed b1)" if "tg = Windows"
      using os_commit_covers [OF cm [unfolded that]] c(7,8) by (cases r1) auto
    show ?thesis
    proof (cases r1)
      case (Inl e)
      then show ?thesis
        using al Inr x cm f i by (auto simp: mmap_allocate_def alloc_post_def mmap_inv_def)
    next
      case (Inr u)
      have "mmap_inv tg (b1\<lparr>mm_cursor := fin\<rparr>) m (insert (mm_ptr b + off, lay, lay_size lay) L)"
        using f(5) [OF i(1)] c(3,4) cov Inr f by (auto simp: mmap_inv_def mmap_ok_def word_le_nat_alt)
      then show ?thesis
        using al \<open>bump_carve _ _ _ _ _ = Inr x\<close> x cm f Inr c(1,2)
        by (auto simp: mmap_allocate_def alloc_post_def)
    qed
  qed
  then show "alloc_post (mmap_inv tg) L lay m (r, b', m')" "mm_ptr b' = mm_ptr b" "mm_len b' = mm_len b" "m' = m"
    by auto
qed

lemma mmap_inv_mono: "mmap_inv tg b m L \<Longrightarrow> J \<subseteq> L \<Longrightarrow> mmap_inv tg b m' J"
  by (auto simp: mmap_inv_def intro: bump_live_mono)

lemma mmap_core:
  fixes K :: "'k kernel"
  shows "allocator_core (mmap_allocate tg K) mmap_deallocate default_usable_size (mmap_inv tg)"
proof
  fix b :: "'k mmap_backed" and m L lay assume "mmap_inv tg b m L" "valid_layout lay"
  then show "alloc_post (mmap_inv tg) L lay m (mmap_allocate tg K lay (b, m))"
    using mmap_allocate_cases(1) [of tg b m L lay K] by (cases "mmap_allocate tg K lay (b, m)") auto
next
  fix b :: "'k mmap_backed" and m L p lay n assume "mmap_inv tg b m L"
  then show "dealloc_post (mmap_inv tg) (L - {(p, lay, n)}) m (mmap_deallocate p lay (b, m))"
    by (auto simp: dealloc_post_def mmap_deallocate_def intro: mmap_inv_mono)
qed (auto simp: default_usable_size_def mmap_inv_def bump_live_def)

lemma mmap_contract: "allocator_contract (mmap_allocator tg K) (mmap_inv tg)"
  by (rule allocator_contractI) (simp_all add: mmap_allocator_def mmap_core)

lemma mmap_range_ok: "fixed_range_contract (mmap_range tg K) mmap_ok"
proof
  show "mmap_ok b' \<and> fr_base (mmap_range tg K) b' = fr_base (mmap_range tg K) b \<and>
      fr_size (mmap_range tg K) b' = fr_size (mmap_range tg K) b"
    if "mmap_ok b" "fr_commit (mmap_range tg K) b off len = (r, b')" for b off len r b'
    using that os_commit_frame(1,2,5) [of tg K b off len r b'] by (simp add: mmap_range_def)
qed (auto simp: mmap_range_def mmap_ok_def)

lemma mmap_ranged:
  fixes K :: "'k kernel"
  shows "ranged_contract (mmap_allocator tg K) (mmap_inv tg) (mmap_range tg K)"
proof (rule ranged_contract.intro [OF mmap_contract])
  show "fixed_range_contract (mmap_range tg K) (\<lambda>b. \<exists>m L. mmap_inv tg b m L)"
  proof
    show "(\<exists>m L. mmap_inv tg b' m L) \<and> fr_base (mmap_range tg K) b' = fr_base (mmap_range tg K) b \<and>
        fr_size (mmap_range tg K) b' = fr_size (mmap_range tg K) b"
      if ex: "\<exists>m L. mmap_inv tg b m L" and cm: "fr_commit (mmap_range tg K) b off len = (r, b')" for b off len r b'
    proof -
      obtain m L where i: "mmap_inv tg b m L" using ex by blast
      have "os_commit tg K b off len = (r, b')" using cm by (simp add: mmap_range_def)
      note f = os_commit_frame [OF this]
      have "mmap_inv tg b' m L" using i f by (auto simp: mmap_inv_def)
      then show ?thesis using f by (auto simp: mmap_range_def)
    qed
  qed (auto simp: mmap_range_def mmap_inv_def mmap_ok_def)
  show "ranged_contract_axioms (mmap_allocator tg K) (mmap_inv tg) (mmap_range tg K)"
  proof
    fix b :: "'k mmap_backed" and m L assume "mmap_inv tg b m L"
    then show "footprint L \<subseteq> span (fr_base (mmap_range tg K) b) (fr_size (mmap_range tg K) b)"
      using bump_live_span
      by (fastforce simp: mmap_inv_def mmap_ok_def mmap_range_def word_le_nat_alt)
  next
    fix b :: "'k mmap_backed" and m L lay r b' m'
    assume "mmap_inv tg b m L" "valid_layout lay" "al_allocate (mmap_allocator tg K) lay (b, m) = (r, b', m')"
    then show "fr_base (mmap_range tg K) b' = fr_base (mmap_range tg K) b \<and>
        fr_size (mmap_range tg K) b' = fr_size (mmap_range tg K) b"
      using mmap_allocate_cases(2,3) [of tg b m L lay K r b' m']
      by (simp add: mmap_allocator_def mmap_range_def)
  qed (auto simp: mmap_allocator_def mmap_deallocate_def)
qed

definition mmap_own :: "'k mmap_backed \<Rightarrow> addr set" where
  "mmap_own b = span (mm_ptr b) (mm_len b)"

lemma mmap_owned_ranged:
  fixes K :: "'k kernel"
  shows "owned_ranged (mmap_allocator tg K) (mmap_inv tg) mmap_own (mmap_range tg K)"
proof (intro owned_ranged.intro owned_ranged_axioms.intro mmap_ranged)
  have alloc: "mmap_own b' = mmap_own b \<and> same_on (- mmap_own b) m m'"
    if "mmap_inv tg b m L" "valid_layout lay" "al_allocate (mmap_allocator tg K) lay (b, m) = (r, b', m')"
    for b b' :: "'k mmap_backed" and m m' L lay r
    using mmap_allocate_cases(2-4) [of tg b m L lay K r b' m'] that
    by (simp add: mmap_allocator_def mmap_own_def)
  have live: "footprint L \<subseteq> mmap_own b" if "mmap_inv tg b m L" for b :: "'k mmap_backed" and m L
    using ranged_contract.in_range [OF mmap_ranged that, of K] by (simp add: mmap_own_def mmap_range_def)
  show "owned_contract (mmap_allocator tg K) (mmap_inv tg) mmap_own"
  proof (rule owned_contract.intro [OF mmap_contract owned_contract_axioms.intro])
    fix b :: "'k mmap_backed" and m L lay r b' m'
    assume i: "mmap_inv tg b m L" and lay: "valid_layout lay"
    show "mmap_own b' = mmap_own b \<and> same_on (- mmap_own b) m m'"
      if "al_allocate_zeroed (mmap_allocator tg K) lay (b, m) = (r, b', m')"
      by (rule default_zeroed_owned [where r = r, OF mmap_contract live alloc i lay])
        (use that in \<open>simp_all add: mmap_allocator_def\<close>)
  qed (use live alloc mmap_inv_mono [OF _ order_refl] in \<open>auto simp: mmap_allocator_def mmap_deallocate_def\<close>)
qed (simp add: mmap_range_def mmap_own_def)

text \<open>
  Demand paging: an arena or any other client that commits before it publishes never has a block
  beyond the committed prefix, provided it starts so.
\<close>

definition arena_committed :: "'k mmap_backed bump_arena \<Rightarrow> bool" where
  "arena_committed a \<longleftrightarrow> ba_cursor a \<le> mm_committed (ba_backing a)"

lemma arena_committed_reserve:
  assumes inv: "bump_inv (mmap_range Windows K) mmap_ok a m L" and com: "arena_committed a"
    and lay: "valid_layout lay"
    and re: "bump_reserve (mmap_range Windows K) (lay_align lay) (lay_size lay) a = (r, a')"
  shows "arena_committed a'"
proof (cases "bump_carve (mm_ptr (ba_backing a)) (bump_capacity a) (ba_cursor a) (lay_align lay) (lay_size lay)")
  case (Inl e)
  then show ?thesis using re com by (auto simp: bump_reserve_def mmap_range_def)
next
  case (Inr x)
  obtain off fin where x: "x = (off, fin)" by (cases x)
  note c = bump_carve_Inr [OF Inr [unfolded x] valid_layoutD(3) [OF lay]]
  obtain r1 b1 where cm: "os_commit Windows K (ba_backing a) off (lay_size lay) = (r1, b1)" by force
  have "unat off + unat (lay_size lay) \<le> unat (mm_len (ba_backing a))"
    using c(3,4) inv by (simp add: bump_inv_def bump_capacity_def mmap_range_def)
  note cov = os_commit_covers [OF cm this]
  show ?thesis
    using re Inr x cm cov c(3) com os_commit_frame(4) [OF cm]
    by (cases r1) (auto simp: bump_reserve_def mmap_range_def arena_committed_def word_le_nat_alt)
qed

text \<open>What is released to the operating system was asked for, and on Windows is committed.\<close>

lemma release_clamp_committed:
  assumes "mm_ptr b \<le> p"
  shows "release_clamp tg b p sz \<le> sz"
    "tg = Windows \<Longrightarrow> release_clamp tg b p sz \<noteq> 0 \<Longrightarrow>
      unat p + unat (release_clamp tg b p sz) \<le> unat (mm_ptr b) + unat (mm_committed b)"
proof -
  let ?off = "p - mm_ptr b"
  have off: "saturating_sub p (mm_ptr b) = ?off" "unat ?off = unat p - unat (mm_ptr b)"
    using assms by (auto simp: saturating_sub_def unat_sub word_le_nat_alt)
  have c: "unat (saturating_sub x ?off) = unat x - unat ?off" for x
    by (simp add: saturating_sub_def unat_sub word_le_nat_alt)
  have mn: "unat (min x y) = min (unat x) (unat y)" for x y :: usize
    by (simp add: min_def word_le_nat_alt)
  show "release_clamp tg b p sz \<le> sz"
    by (auto simp: release_clamp_def off c mn unat_saturating_add word_le_nat_alt Let_def)
  show "unat p + unat (release_clamp tg b p sz) \<le> unat (mm_ptr b) + unat (mm_committed b)"
    if "tg = Windows" "release_clamp tg b p sz \<noteq> 0"
  proof -
    have "0 < unat (release_clamp tg b p sz)" using that(2) by (simp add: unat_gt_0)
    then show ?thesis
      using that(1) assms by (auto simp: release_clamp_def off c mn unat_saturating_add word_le_nat_alt Let_def)
  qed
qed

context mapping_kernel
begin

lemma mmap_with_flags_ok:
  assumes "mmap_with_flags tg K sz flags (e, m) = (Inr b, e', m')"
  shows "mmap_inv tg b m' {}" "unat sz \<le> unat (mm_len b)" "unat (mm_len b) < unat sz + unat (page_size K)"
    "unat (page_size K) dvd unat (mm_len b)" "unat (page_size K) dvd unat (mm_ptr b)"
    "mmap_own b \<inter> mapped (en_kernel e) = {}"
    "mapped (en_kernel e') = mapped (en_kernel e) \<union> mmap_own b"
    "same_on (- mmap_own b) m m'" "\<forall>a \<in> mmap_own b. m' a = 0"
    "mm_committed b = (if tg = Windows \<and> mf_lazy_commit flags then 0 else mm_len b)"
proof -
  obtain len k p where len: "align_up_checked sz (page_size K) = Some len"
    and mp: "k_map K len (tg = Linux \<and> mf_populate flags) (tg = Windows \<and> mf_lazy_commit flags)
      (en_kernel e, m) = (Some p, k, m')"
    and e': "e' = e\<lparr>en_kernel := k\<rparr>"
    and b: "b = \<lparr>mm_ptr = p, mm_len = len, mm_cursor = 0,
      mm_committed = (if tg = Windows \<and> mf_lazy_commit flags then 0 else len), mm_env = e'\<rparr>"
    using assms
    by (auto simp: mmap_with_flags_def os_map_def Let_def split: if_splits option.splits prod.splits sum.splits)
  note k = map_ok [OF mp] and a = align_up_checkedD [OF len page_size_pow2]
  show "mmap_inv tg b m' {}" "unat sz \<le> unat (mm_len b)" "unat (mm_len b) < unat sz + unat (page_size K)"
    "unat (page_size K) dvd unat (mm_len b)" "unat (page_size K) dvd unat (mm_ptr b)"
    "mmap_own b \<inter> mapped (en_kernel e) = {}" "mapped (en_kernel e') = mapped (en_kernel e) \<union> mmap_own b"
    "same_on (- mmap_own b) m m'" "\<forall>a \<in> mmap_own b. m' a = 0"
    "mm_committed b = (if tg = Windows \<and> mf_lazy_commit flags then 0 else mm_len b)"
    using k a by (auto simp: b e' mmap_inv_def mmap_ok_def mmap_own_def)
qed

lemma mmap_with_flags_error:
  assumes "mmap_with_flags tg K sz flags (e, m) = (Inl err, e', m')"
  shows "m' = m" "mapped (en_kernel e') = mapped (en_kernel e)" "mmap_last_os_error e' \<noteq> None"
proof -
  have "m' = m \<and> mapped (en_kernel e') = mapped (en_kernel e) \<and> mmap_last_os_error e' \<noteq> None"
  proof (cases "sz = 0 \<or> align_up_checked sz (page_size K) = None")
    case True
    then show ?thesis
      using assms
      by (cases "sz = 0")
        (auto simp: mmap_with_flags_def capture_synthetic_einval_def mmap_last_os_error_def)
  next
    case False
    then obtain len k where
      mp: "k_map K len (tg = Linux \<and> mf_populate flags) (tg = Windows \<and> mf_lazy_commit flags)
        (en_kernel e, m) = (None, k, m')" and e': "e' = capture_os_error K (e\<lparr>en_kernel := k\<rparr>)"
      using assms
      by (auto simp: mmap_with_flags_def os_map_def Let_def split: option.splits prod.splits sum.splits)
    then show ?thesis
      using map_fail [OF mp] by (simp add: capture_os_error_def mmap_last_os_error_def)
  qed
  then show "m' = m" "mapped (en_kernel e') = mapped (en_kernel e)" "mmap_last_os_error e' \<noteq> None" by auto
qed

lemma mmap_drop_frame:
  assumes "mmap_drop K b (e, m) = (e', m')"
  shows "mapped (en_kernel e) - mmap_own b \<subseteq> mapped (en_kernel e')"
    "mapped (en_kernel e') \<subseteq> mapped (en_kernel e)" "same_on (- mmap_own b) m m'"
proof -
  obtain ok k where u: "k_unmap K (mm_ptr b) (mm_len b) (en_kernel e, m) = (ok, k, m')"
    and e': "en_kernel e' = k"
    using assms
    by (auto simp: mmap_drop_def os_unmap_def Let_def capture_os_error_def split: prod.splits if_splits)
  show "mapped (en_kernel e) - mmap_own b \<subseteq> mapped (en_kernel e')"
    "mapped (en_kernel e') \<subseteq> mapped (en_kernel e)" "same_on (- mmap_own b) m m'"
    using unmap_ok [OF u] by (auto simp: e' mmap_own_def)
qed

end

section \<open>Page protection\<close>

text \<open>
  What a protection word grants. On Unix every combination is exact; on Windows nothing requested is
  ever lost, and reading is added only where writing was asked for without it.
\<close>

definition unix_grants :: "u32 \<Rightarrow> protect_flags" where
  "unix_grants w = \<lparr>pf_read = bit w 0, pf_write = bit w 1, pf_exec = bit w 2\<rparr>"

definition win32_grants :: "u32 \<Rightarrow> protect_flags" where
  "win32_grants w =
     \<lparr>pf_read = w \<in> {PAGE_READONLY, PAGE_READWRITE, PAGE_EXECUTE_READ, PAGE_EXECUTE_READWRITE},
      pf_write = w \<in> {PAGE_READWRITE, PAGE_EXECUTE_READWRITE},
      pf_exec = w \<in> {PAGE_EXECUTE, PAGE_EXECUTE_READ, PAGE_EXECUTE_READWRITE}\<rparr>"

lemma unix_prot_exact: "unix_grants (unix_prot_from_flags f) = f"
  by (cases f; simp add: unix_grants_def unix_prot_from_flags_def Let_def;
      simp add: bit_simps bit_numeral_rec)

lemma win32_prot_exact:
  "win32_grants (win32_prot_from_flags f) = f\<lparr>pf_read := pf_read f \<or> pf_write f\<rparr>"
  by (cases f)
    (auto simp: win32_grants_def win32_prot_from_flags_def PAGE_NOACCESS_def PAGE_READONLY_def
      PAGE_READWRITE_def PAGE_EXECUTE_def PAGE_EXECUTE_READ_def PAGE_EXECUTE_READWRITE_def
      split: bool.splits)

end
