(* ===== verification/Extendable_Slab.thy ===== *)
theory Extendable_Slab
  imports Mmap_Backed
begin

text \<open>
  \<open>forge-alloc/src/layout/extendable_slab.rs\<close>: \<open>ExtendableSlab<T, M>\<close>, a list of slabs, each over a
  mapping of its own, that grows when every segment is full. The mutex makes the two critical
  sections of \<open>allocate\<close> atomic: \<open>ext_phase1\<close> searches the segments, \<open>ext_build_segment\<close> maps a new
  one without the lock, \<open>ext_place\<close> installs it or serves from one that came first. \<open>F\<close> is the
  factory of the protections; indices into the segment list are naturals.
\<close>

section \<open>State and operations\<close>

type_synonym 'k segment = "protection \<times> 'k mmap_backed slab"

record 'k extendable =
  ex_env :: "'k env"
  ex_segment_capacity :: usize
  ex_segments :: "'k segment list"
  ex_first_open_hint :: nat
  ex_routing_failures :: usize

definition ext_with_protection :: "usize \<Rightarrow> 'k env \<Rightarrow> 'k extendable" where
  "ext_with_protection segment_capacity e =
     \<lparr>ex_env = e, ex_segment_capacity = segment_capacity, ex_segments = [], ex_first_open_hint = 0,
      ex_routing_failures = 0\<rparr>"

text \<open>\<open>new\<close> fixes the factory to the one of \<open>NoProtection\<close>.\<close>

definition no_protection_factory :: "'k env \<Rightarrow> protection \<times> 'k env" where
  "no_protection_factory e = (NoProtection, e)"

definition ext_segment_count :: "'k extendable \<Rightarrow> nat" where
  "ext_segment_count x = length (ex_segments x)"

text \<open>Dropping a slab gives its block to the mapping, which ignores it, and unmaps the mapping.\<close>

definition segment_drop :: "'k kernel \<Rightarrow> 'k segment \<Rightarrow> 'k env \<times> mem \<Rightarrow> 'k env \<times> mem" where
  "segment_drop K seg st = mmap_drop K (sl_backing (snd seg)) st"

definition ext_build_segment ::
  "target \<Rightarrow> 'k kernel \<Rightarrow> ('k env \<Rightarrow> protection \<times> 'k env) \<Rightarrow> type_layout \<Rightarrow> usize \<Rightarrow> 'k env \<times> mem \<Rightarrow>
     'k segment res \<times> 'k env \<times> mem" where
  "ext_build_segment tg K F T capacity st =
     (case slab_stride T of None \<Rightarrow> (Inl AllocError, st)
      | Some block_stride \<Rightarrow>
      case checked_mul block_stride capacity of None \<Rightarrow> (Inl AllocError, st)
      | Some tot \<Rightarrow>
      case checked_add tot (slot_align T - 1) of None \<Rightarrow> (Inl AllocError, st)
      | Some with_slack \<Rightarrow>
      case mmap_new tg K with_slack st of (Inl err, st') \<Rightarrow> (Inl err, st')
      | (Inr backing, e, m) \<Rightarrow>
      case F e of (P, e') \<Rightarrow>
      case slab_with_protection (mmap_allocator tg K) (mmap_range tg K) T capacity (backing, m) of
        (Inl err, b, m') \<Rightarrow> (Inl err, mmap_drop K b (e', m'))
      | (Inr s, b, m') \<Rightarrow> (Inr (P, s), e', m'))"

fun build_segments ::
  "target \<Rightarrow> 'k kernel \<Rightarrow> ('k env \<Rightarrow> protection \<times> 'k env) \<Rightarrow> type_layout \<Rightarrow> usize \<Rightarrow> nat \<Rightarrow>
     'k segment list \<Rightarrow> 'k env \<times> mem \<Rightarrow> 'k segment list res \<times> 'k env \<times> mem" where
  "build_segments tg K F T cap 0 v st = (Inr v, st)"
| "build_segments tg K F T cap (Suc n) v st =
     (case ext_build_segment tg K F T cap st of
        (Inl err, st') \<Rightarrow> (Inl err, fold (segment_drop K) v st')
      | (Inr seg, st') \<Rightarrow> build_segments tg K F T cap n (v @ [seg]) st')"

definition ext_with_initial_segments ::
  "target \<Rightarrow> 'k kernel \<Rightarrow> ('k env \<Rightarrow> protection \<times> 'k env) \<Rightarrow> type_layout \<Rightarrow> nat \<Rightarrow> usize \<Rightarrow> 'k env \<times> mem \<Rightarrow>
     'k extendable res \<times> 'k env \<times> mem" where
  "ext_with_initial_segments tg K F T count cap st =
     (case build_segments tg K F T cap count [] st of
        (Inl err, st') \<Rightarrow> (Inl err, st')
      | (Inr v, e, m) \<Rightarrow> (Inr ((ext_with_protection cap e)\<lparr>ex_segments := v\<rparr>), e, m))"

text \<open>The first of the given segments that serves the request, with its index.\<close>

fun seg_try ::
  "target \<Rightarrow> 'k kernel \<Rightarrow> type_layout \<Rightarrow> layout \<Rightarrow> nat list \<Rightarrow> 'k segment list \<times> mem \<Rightarrow>
     (nat \<times> block) option \<times> 'k segment list \<times> mem" where
  "seg_try tg K T lay [] st = (None, st)"
| "seg_try tg K T lay (i # is) (segs, m) =
     (case segs ! i of (P, s) \<Rightarrow>
        case slab_allocate (mmap_range tg K) P T lay (s, m) of
          (Inr b, s', m') \<Rightarrow> (Some (i, b), segs[i := (P, s')], m')
        | (Inl err, s', m') \<Rightarrow> seg_try tg K T lay is (segs[i := (P, s')], m'))"

definition ext_phase1 ::
  "target \<Rightarrow> 'k kernel \<Rightarrow> type_layout \<Rightarrow> layout \<Rightarrow> 'k extendable \<times> mem \<Rightarrow>
     block option \<times> 'k extendable \<times> mem" where
  "ext_phase1 tg K T lay st =
     (case st of (x, m) \<Rightarrow>
        let n = length (ex_segments x); start = min (ex_first_open_hint x) n
        in case seg_try tg K T lay [start..<n] (ex_segments x, m) of
             (Some (offset, b), segs, m') \<Rightarrow>
               (Some b, x\<lparr>ex_segments := segs,
                  ex_first_open_hint := (if offset > start then max (ex_first_open_hint x) offset
                                         else ex_first_open_hint x)\<rparr>, m')
           | (None, segs, m') \<Rightarrow>
               if start > 0
               then case seg_try tg K T lay [0..<start] (segs, m') of
                      (Some (i, b), segs', m'') \<Rightarrow>
                        (Some b, x\<lparr>ex_segments := segs',
                           ex_first_open_hint := min (ex_first_open_hint x) i\<rparr>, m'')
                    | (None, segs', m'') \<Rightarrow> (None, x\<lparr>ex_segments := segs'\<rparr>, m'')
               else (None, x\<lparr>ex_segments := segs\<rparr>, m'))"

text \<open>
  The second critical section. The segment it leaves with the caller, if any, is dropped on the way out,
  after the lock: the guard was declared last.
\<close>

definition ext_place ::
  "target \<Rightarrow> 'k kernel \<Rightarrow> type_layout \<Rightarrow> layout \<Rightarrow> nat \<Rightarrow> 'k segment \<Rightarrow> 'k extendable \<times> mem \<Rightarrow>
     block res \<times> 'k segment option \<times> 'k extendable \<times> mem" where
  "ext_place tg K T lay len_before_drop new_seg st =
     (case st of (x, m) \<Rightarrow>
        let n = length (ex_segments x)
        in case (if n > len_before_drop
                 then seg_try tg K T lay [len_before_drop..<n] (ex_segments x, m)
                 else (None, ex_segments x, m)) of
             (Some (offset, b), segs, m') \<Rightarrow>
               (Inr b, Some new_seg,
                x\<lparr>ex_segments := segs, ex_first_open_hint := max (ex_first_open_hint x) offset\<rparr>, m')
           | (None, segs, m') \<Rightarrow>
               (case slab_allocate (mmap_range tg K) (fst new_seg) T lay (snd new_seg, m') of
                  (Inl err, s, m'') \<Rightarrow> (Inl err, Some (fst new_seg, s), x\<lparr>ex_segments := segs\<rparr>, m'')
                | (Inr b, s, m'') \<Rightarrow>
                    (Inr b, None, x\<lparr>ex_segments := segs @ [(fst new_seg, s)],
                                    ex_first_open_hint := length segs\<rparr>, m'')))"

definition ext_drop_left :: "'k kernel \<Rightarrow> 'k segment option \<Rightarrow> 'k extendable \<times> mem \<Rightarrow> 'k extendable \<times> mem" where
  "ext_drop_left K left st =
     (case left of
        None \<Rightarrow> st
      | Some seg \<Rightarrow>
          (case st of (x, m) \<Rightarrow>
             case segment_drop K seg (ex_env x, m) of (e, m') \<Rightarrow> (x\<lparr>ex_env := e\<rparr>, m')))"

definition ext_phase3 ::
  "target \<Rightarrow> 'k kernel \<Rightarrow> type_layout \<Rightarrow> layout \<Rightarrow> nat \<Rightarrow> 'k segment \<Rightarrow> 'k extendable \<times> mem \<Rightarrow>
     block res \<times> 'k extendable \<times> mem" where
  "ext_phase3 tg K T lay len_before_drop new_seg st =
     (case ext_place tg K T lay len_before_drop new_seg st of
        (r, left, st') \<Rightarrow> (r, ext_drop_left K left st'))"

definition ext_allocate ::
  "target \<Rightarrow> 'k kernel \<Rightarrow> ('k env \<Rightarrow> protection \<times> 'k env) \<Rightarrow> type_layout \<Rightarrow> 'k extendable alloc_fun" where
  "ext_allocate tg K F T lay st =
     (case ext_phase1 tg K T lay st of
        (Some b, x, m) \<Rightarrow> (Inr b, x, m)
      | (None, x, m) \<Rightarrow>
          (case ext_build_segment tg K F T (ex_segment_capacity x) (ex_env x, m) of
             (Inl err, e, m') \<Rightarrow> (Inl err, x\<lparr>ex_env := e\<rparr>, m')
           | (Inr seg, e, m') \<Rightarrow>
               ext_phase3 tg K T lay (length (ex_segments x)) seg (x\<lparr>ex_env := e\<rparr>, m')))"

definition seg_route :: "target \<Rightarrow> 'k kernel \<Rightarrow> 'k segment list \<Rightarrow> addr \<Rightarrow> nat option" where
  "seg_route tg K segs p =
     List.find (\<lambda>i. fr_contains (slab_range (mmap_range tg K)) (snd (segs ! i)) p) [0..<length segs]"

definition ext_deallocate :: "target \<Rightarrow> 'k kernel \<Rightarrow> 'k extendable dealloc_fun" where
  "ext_deallocate tg K p lay st =
     (case st of (x, m) \<Rightarrow>
        case seg_route tg K (ex_segments x) p of
          Some i \<Rightarrow>
            (case ex_segments x ! i of (P, s) \<Rightarrow>
               outcome_bind (slab_deallocate (mmap_range tg K) P p lay (s, m))
                 (\<lambda>(s', m'). Done (x\<lparr>ex_segments := (ex_segments x)[i := (P, s')],
                    ex_first_open_hint := min (ex_first_open_hint x) i\<rparr>, m')))
        | None \<Rightarrow> Done (x\<lparr>ex_routing_failures := ex_routing_failures x + 1\<rparr>, m))"

definition ext_usable_size :: "target \<Rightarrow> 'k kernel \<Rightarrow> 'k extendable \<Rightarrow> addr \<Rightarrow> layout \<Rightarrow> usize option" where
  "ext_usable_size tg K x p lay =
     (case seg_route tg K (ex_segments x) p of
        Some i \<Rightarrow> slab_usable_size (snd (ex_segments x ! i)) p lay
      | None \<Rightarrow> None)"

definition ext_capacity_bytes :: "'k extendable \<Rightarrow> usize option" where
  "ext_capacity_bytes x = Some (sum_list (map (\<lambda>seg. slab_size (snd seg)) (ex_segments x)))"

definition ext_corruption_events :: "'k extendable \<Rightarrow> u64" where
  "ext_corruption_events x =
     fold (\<lambda>seg acc. saturating_add acc (sl_corruption_events (snd seg))) (ex_segments x)
       (ex_routing_failures x)"

definition ext_allocator ::
  "target \<Rightarrow> 'k kernel \<Rightarrow> ('k env \<Rightarrow> protection \<times> 'k env) \<Rightarrow> type_layout \<Rightarrow> 'k extendable allocator" where
  "ext_allocator tg K F T =
     \<lparr>al_allocate = ext_allocate tg K F T,
      al_allocate_zeroed = default_allocate_zeroed (ext_allocate tg K F T),
      al_deallocate = ext_deallocate tg K,
      al_grow = default_grow (ext_allocate tg K F T) (ext_deallocate tg K),
      al_shrink = default_shrink (ext_allocate tg K F T) (ext_deallocate tg K),
      al_reset = default_reset,
      al_usable_size = ext_usable_size tg K,
      al_capacity_bytes = ext_capacity_bytes,
      al_corruption_events = ext_corruption_events\<rparr>"

section \<open>A fleet of slabs\<close>

text \<open>
  Slabs over separate mappings, indexed by \<open>I\<close>: \<open>S i\<close> is a segment and \<open>Ls i\<close> its live blocks. The
  installed segments and those still in the hands of a thread form one fleet.
\<close>

definition seg_own :: "'k segment \<Rightarrow> addr set" where
  "seg_own seg = mmap_own (sl_backing (snd seg))"

definition seg_inv ::
  "target \<Rightarrow> 'k kernel \<Rightarrow> type_layout \<Rightarrow> 'k segment \<Rightarrow> mem \<Rightarrow> live \<Rightarrow> bool" where
  "seg_inv tg K T seg m L \<longleftrightarrow> freelist_protection (fst seg) \<and>
     slab_inv True (mmap_inv tg) (mmap_range tg K) (fst seg) T (snd seg) m L"

definition fleet ::
  "target \<Rightarrow> 'k kernel \<Rightarrow> type_layout \<Rightarrow> 'i set \<Rightarrow> ('i \<Rightarrow> 'k segment) \<Rightarrow> ('i \<Rightarrow> live) \<Rightarrow> mem \<Rightarrow> bool" where
  "fleet tg K T I S Ls m \<longleftrightarrow>
     (\<forall>i \<in> I. seg_inv tg K T (S i) m (Ls i)) \<and>
     (\<forall>i \<in> I. \<forall>j \<in> I. i \<noteq> j \<longrightarrow> seg_own (S i) \<inter> seg_own (S j) = {})"

lemma seg_owned:
  "freelist_protection P \<Longrightarrow> owned_ranged (slab_allocator (mmap_range tg K) P T)
     (slab_inv True (mmap_inv tg) (mmap_range tg K) P T) (slab_own mmap_own) (slab_range (mmap_range tg K))"
  by (rule slab_owned_ranged [OF mmap_owned_ranged])

lemma seg_facts:
  assumes "seg_inv tg K T seg m L"
  shows "live_ok L" "footprint L \<subseteq> seg_own seg"
    "same_on (seg_own seg) m m' \<Longrightarrow> seg_inv tg K T seg m' L"
    "same_on (- footprint L) m m' \<Longrightarrow> seg_inv tg K T seg m' L"
    "footprint L \<subseteq> span (fr_base (slab_range (mmap_range tg K)) (snd seg)) (fr_size (slab_range (mmap_range tg K)) (snd seg))"
    "span (fr_base (slab_range (mmap_range tg K)) (snd seg)) (fr_size (slab_range (mmap_range tg K)) (snd seg)) \<subseteq> seg_own seg"
proof -
  have P: "freelist_protection (fst seg)"
    and s: "slab_inv True (mmap_inv tg) (mmap_range tg K) (fst seg) T (snd seg) m L"
    using assms by (auto simp: seg_inv_def)
  note o = seg_owned [OF P, of tg K T]
  note c = owned_ranged.axioms(1) [OF o] owned_ranged.axioms(2) [OF o]
  have ow: "slab_own mmap_own (snd seg) = seg_own seg" by (simp add: slab_own_def seg_own_def)
  have core: "allocator_core (slab_allocate (mmap_range tg K) (fst seg) T)
      (slab_deallocate (mmap_range tg K) (fst seg)) slab_usable_size
      (slab_inv True (mmap_inv tg) (mmap_range tg K) (fst seg) T)"
    by (rule ranged_contract.slab_core [OF mmap_ranged P])
  show "live_ok L" by (rule allocator_core.inv_live [OF core s])
  show "footprint L \<subseteq> seg_own seg" using owned_contract.own_live [OF c(1) s] ow by simp
  show "seg_inv tg K T seg m' L" if "same_on (seg_own seg) m m'"
    using owned_contract.own_local [OF c(1) s] that P ow by (simp add: seg_inv_def)
  show "seg_inv tg K T seg m' L" if "same_on (- footprint L) m m'"
    using allocator_core.user_write [OF core s that] P by (simp add: seg_inv_def)
  show "footprint L \<subseteq> span (fr_base (slab_range (mmap_range tg K)) (snd seg))
      (fr_size (slab_range (mmap_range tg K)) (snd seg))"
    by (rule ranged_contract.in_range [OF c(2) s])
  show "span (fr_base (slab_range (mmap_range tg K)) (snd seg))
      (fr_size (slab_range (mmap_range tg K)) (snd seg)) \<subseteq> seg_own seg"
    using owned_ranged.range_own [OF o s] ow by simp
qed

lemma seg_allocate:
  assumes inv: "seg_inv tg K T seg m L" and lay: "valid_layout lay"
    and al: "slab_allocate (mmap_range tg K) (fst seg) T lay (snd seg, m) = (r, s', m')"
  shows "m' = m" "seg_own (fst seg, s') = seg_own seg"
    "case r of Inl e \<Rightarrow> seg_inv tg K T (fst seg, s') m L
     | Inr (p, n) \<Rightarrow> block_ok lay p n \<and> span p n \<inter> footprint L = {} \<and>
         seg_inv tg K T (fst seg, s') m (insert (p, lay, n) L)"
proof -
  show m: "m' = m" and "seg_own (fst seg, s') = seg_own seg"
    using slab_allocate_frame(1,7) [OF al] by (auto simp: seg_own_def)
  have "slab_inv True (mmap_inv tg) (mmap_range tg K) (fst seg) T (snd seg) m L"
    and "freelist_protection (fst seg)" using inv by (auto simp: seg_inv_def)
  then show "case r of Inl e \<Rightarrow> seg_inv tg K T (fst seg, s') m L
     | Inr (p, n) \<Rightarrow> block_ok lay p n \<and> span p n \<inter> footprint L = {} \<and>
         seg_inv tg K T (fst seg, s') m (insert (p, lay, n) L)"
    using slab_allocate_post [OF _ lay, of True "mmap_inv tg" "mmap_range tg K" "fst seg" T "snd seg" m L] al m
    by (auto simp: alloc_post_def seg_inv_def split: sum.splits)
qed

lemma fleetD:
  assumes "fleet tg K T I S Ls m" "i \<in> I"
  shows "seg_inv tg K T (S i) m (Ls i)"
    "j \<in> I \<Longrightarrow> i \<noteq> j \<Longrightarrow> seg_own (S i) \<inter> seg_own (S j) = {}"
    "j \<in> I \<Longrightarrow> i \<noteq> j \<Longrightarrow> footprint (Ls i) \<inter> footprint (Ls j) = {}"
proof -
  show i: "seg_inv tg K T (S i) m (Ls i)" using assms by (simp add: fleet_def)
  show d: "seg_own (S i) \<inter> seg_own (S j) = {}" if "j \<in> I" "i \<noteq> j"
    using assms that unfolding fleet_def by blast
  show "footprint (Ls i) \<inter> footprint (Ls j) = {}" if j: "j \<in> I" "i \<noteq> j"
  proof -
    have "seg_inv tg K T (S j) m (Ls j)" using assms(1) j(1) by (simp add: fleet_def)
    then show ?thesis using seg_facts(2) [OF i] seg_facts(2) d [OF j] by blast
  qed
qed

lemma fleet_live_ok: "fleet tg K T I S Ls m \<Longrightarrow> live_ok (\<Union>i \<in> I. Ls i)"
  by (rule live_ok_UN) (auto dest: fleetD(1) fleetD(3) intro: seg_facts(1))

lemma fleet_subset: "fleet tg K T I S Ls m \<Longrightarrow> J \<subseteq> I \<Longrightarrow> fleet tg K T J S Ls m"
  unfolding fleet_def by blast

lemma fleet_cong:
  assumes "fleet tg K T I S Ls m" "\<And>i. i \<in> I \<Longrightarrow> S' i = S i" "\<And>i. i \<in> I \<Longrightarrow> Ls' i = Ls i"
  shows "fleet tg K T I S' Ls' m"
  using assms by (simp add: fleet_def)

lemma fleet_elsewhere:
  assumes "fleet tg K T I S Ls m" "same_on X m m'" "\<And>i. i \<in> I \<Longrightarrow> seg_own (S i) \<subseteq> X"
  shows "fleet tg K T I S Ls m'"
proof -
  have "seg_inv tg K T (S i) m' (Ls i)" if "i \<in> I" for i
    using seg_facts(3) [OF fleetD(1) [OF assms(1) that]] same_on_mono [OF assms(2) assms(3) [OF that]]
    by blast
  then show ?thesis using assms(1) by (simp add: fleet_def)
qed

lemma fleet_update:
  assumes f: "fleet tg K T I S Ls m" and i: "i \<in> I" and seg: "seg_inv tg K T seg m' J"
    and own: "seg_own seg = seg_own (S i)" and off: "same_on (- seg_own (S i)) m m'"
  shows "fleet tg K T I (S(i := seg)) (Ls(i := J)) m'"
proof -
  have "seg_inv tg K T (S j) m' (Ls j)" if j: "j \<in> I" "j \<noteq> i" for j
    by (rule seg_facts(3) [OF fleetD(1) [OF f j(1)]])
      (use off fleetD(2) [OF f i j(1)] j(2) in \<open>auto simp: same_on_def\<close>)
  moreover have "seg_own ((S(i := seg)) j) = seg_own (S j)" for j using own by simp
  ultimately show ?thesis using f seg unfolding fleet_def by auto
qed

lemma fleet_insert:
  assumes f: "fleet tg K T I S Ls m" and i: "i \<notin> I" and seg: "seg_inv tg K T seg m J"
    and own: "\<And>j. j \<in> I \<Longrightarrow> seg_own (S j) \<inter> seg_own seg = {}"
  shows "fleet tg K T (insert i I) (S(i := seg)) (Ls(i := J)) m"
proof -
  have "S j = (S(i := seg)) j \<and> Ls j = (Ls(i := J)) j" if "j \<in> I" for j using i that by auto
  then show ?thesis using f seg own unfolding fleet_def by (auto simp: Int_commute)
qed

section \<open>The invariant\<close>

text \<open>
  \<open>pend t\<close> is the segment thread \<open>t\<close> has built and not yet installed or dropped. Installed segments
  are indexed \<open>Inl i\<close>, pending ones \<open>Inr t\<close>.
\<close>

type_synonym 'k pending = "nat \<rightharpoonup> 'k segment"

definition ext_index :: "'k extendable \<Rightarrow> 'k pending \<Rightarrow> (nat + nat) set" where
  "ext_index x pend = Inl ` {..<length (ex_segments x)} \<union> Inr ` dom pend"

definition ext_seg :: "'k extendable \<Rightarrow> 'k pending \<Rightarrow> nat + nat \<Rightarrow> 'k segment" where
  "ext_seg x pend = case_sum (\<lambda>i. ex_segments x ! i) (\<lambda>t. the (pend t))"

definition ext_parts ::
  "target \<Rightarrow> 'k kernel \<Rightarrow> ('k \<Rightarrow> addr set) \<Rightarrow> type_layout \<Rightarrow> 'k extendable \<Rightarrow> 'k pending \<Rightarrow> mem \<Rightarrow>
     (nat + nat \<Rightarrow> live) \<Rightarrow> bool" where
  "ext_parts tg K mapped T x pend m Ls \<longleftrightarrow>
     fleet tg K T (ext_index x pend) (ext_seg x pend) Ls m \<and>
     (\<forall>i \<in> ext_index x pend. seg_own (ext_seg x pend i) \<subseteq> mapped (en_kernel (ex_env x))) \<and>
     (\<forall>t. Ls (Inr t) = {})"

definition ext_live :: "'k extendable \<Rightarrow> (nat + nat \<Rightarrow> live) \<Rightarrow> live" where
  "ext_live x Ls = (\<Union>i < length (ex_segments x). Ls (Inl i))"

definition ext_inv ::
  "target \<Rightarrow> 'k kernel \<Rightarrow> ('k \<Rightarrow> addr set) \<Rightarrow> type_layout \<Rightarrow> 'k pending \<Rightarrow> 'k extendable \<Rightarrow> mem \<Rightarrow> live \<Rightarrow> bool" where
  "ext_inv tg K mapped T pend x m L \<longleftrightarrow> (\<exists>Ls. ext_parts tg K mapped T x pend m Ls \<and> L = ext_live x Ls)"

lemma ext_index_Inl: "i < length (ex_segments x) \<Longrightarrow> Inl i \<in> ext_index x pend"
  by (simp add: ext_index_def)

lemma ext_live_UN:
  "\<forall>t. Ls (Inr t) = {} \<Longrightarrow> (\<Union>i \<in> ext_index x pend. Ls i) = ext_live x Ls"
  by (auto simp: ext_index_def ext_live_def)

lemma ext_parts_live:
  assumes "ext_parts tg K mapped T x pend m Ls"
  shows "live_ok (ext_live x Ls)"
    "i \<in> ext_index x pend \<Longrightarrow> footprint (ext_live x Ls) \<inter> seg_own (ext_seg x pend i) = footprint (Ls i)"
proof -
  have f: "fleet tg K T (ext_index x pend) (ext_seg x pend) Ls m" and e: "\<forall>t. Ls (Inr t) = {}"
    using assms by (auto simp: ext_parts_def)
  show "live_ok (ext_live x Ls)"
    using fleet_live_ok [OF f] ext_live_UN [OF e] by metis
  show "footprint (ext_live x Ls) \<inter> seg_own (ext_seg x pend i) = footprint (Ls i)"
    if i: "i \<in> ext_index x pend"
  proof -
    have "footprint (Ls j) \<inter> seg_own (ext_seg x pend i) = {}" if j: "j \<in> ext_index x pend" "j \<noteq> i" for j
      using seg_facts(2) [OF fleetD(1) [OF f j(1)]] fleetD(2) [OF f i j(1)] j(2) by blast
    moreover have "footprint (Ls i) \<subseteq> seg_own (ext_seg x pend i)"
      using seg_facts(2) [OF fleetD(1) [OF f i]] .
    ultimately show ?thesis
      unfolding ext_live_UN [OF e, of x pend, symmetric] footprint_UN using i by blast
  qed
qed

text \<open>One segment moves; the others and the pending ones do not notice.\<close>

lemma ext_seg_step:
  assumes p: "ext_parts tg K mapped T x pend m Ls" and i: "i < length (ex_segments x)"
    and seg: "seg_inv tg K T seg m' J" and own: "seg_own seg = seg_own (ex_segments x ! i)"
    and off: "same_on (- seg_own (ex_segments x ! i)) m m'"
  shows "ext_parts tg K mapped T (x\<lparr>ex_segments := (ex_segments x)[i := seg]\<rparr>) pend m' (Ls(Inl i := J))"
proof -
  let ?x = "x\<lparr>ex_segments := (ex_segments x)[i := seg]\<rparr>"
  have idx: "ext_index ?x pend = ext_index x pend" by (simp add: ext_index_def)
  have sg: "ext_seg ?x pend j = ((ext_seg x pend)(Inl i := seg)) j" if "j \<in> ext_index x pend" for j
    using that i by (auto simp: ext_seg_def ext_index_def nth_list_update split: if_splits)
  have si: "ext_seg x pend (Inl i) = ex_segments x ! i" by (simp add: ext_seg_def)
  have f: "fleet tg K T (ext_index x pend) (ext_seg x pend) Ls m"
    and mp: "\<forall>i \<in> ext_index x pend. seg_own (ext_seg x pend i) \<subseteq> mapped (en_kernel (ex_env x))"
    and e: "\<forall>t. Ls (Inr t) = {}"
    using p by (auto simp: ext_parts_def)
  have "fleet tg K T (ext_index x pend) ((ext_seg x pend)(Inl i := seg)) (Ls(Inl i := J)) m'"
    by (rule fleet_update [OF f ext_index_Inl [OF i] seg]) (use own off si in simp_all)
  then have "fleet tg K T (ext_index x pend) (ext_seg ?x pend) (Ls(Inl i := J)) m'"
    by (rule fleet_cong) (use sg in auto)
  moreover have "seg_own (ext_seg ?x pend j) = seg_own (ext_seg x pend j)" if "j \<in> ext_index x pend" for j
    unfolding sg [OF that] using own si by simp
  then have "\<forall>j \<in> ext_index x pend. seg_own (ext_seg ?x pend j) \<subseteq> mapped (en_kernel (ex_env x))"
    using mp by simp
  ultimately show ?thesis using e by (simp add: ext_parts_def idx)
qed

lemma ext_live_step:
  assumes "i < length (ex_segments x)"
  shows "ext_live (x\<lparr>ex_segments := (ex_segments x)[i := seg]\<rparr>) (Ls(Inl i := insert b (Ls (Inl i)))) =
      insert b (ext_live x Ls)"
    "ext_live (x\<lparr>ex_segments := (ex_segments x)[i := seg]\<rparr>) (Ls(Inl i := Ls (Inl i))) = ext_live x Ls"
  using assms by (auto simp: ext_live_def split: if_splits)

text \<open>The fields that the invariant does not mention.\<close>

lemma ext_parts_fields [simp]:
  "ext_parts tg K mapped T (x\<lparr>ex_first_open_hint := h\<rparr>) pend m Ls = ext_parts tg K mapped T x pend m Ls"
  "ext_parts tg K mapped T (x\<lparr>ex_routing_failures := c\<rparr>) pend m Ls = ext_parts tg K mapped T x pend m Ls"
  "ext_live (x\<lparr>ex_first_open_hint := h\<rparr>) Ls = ext_live x Ls"
  "ext_live (x\<lparr>ex_routing_failures := c\<rparr>) Ls = ext_live x Ls"
  "ext_live (x\<lparr>ex_env := e\<rparr>) Ls = ext_live x Ls"
  by (simp_all add: ext_parts_def ext_index_def ext_seg_def ext_live_def)

lemma seg_try_post:
  assumes "ext_parts tg K mapped T x pend m Ls" "valid_layout lay"
    "set is \<subseteq> {..<length (ex_segments x)}"
    "seg_try tg K T lay is (ex_segments x, m) = (r, segs, m')"
  shows "m' = m \<and> length segs = length (ex_segments x) \<and>
    (case r of None \<Rightarrow> \<exists>Ls'. ext_parts tg K mapped T (x\<lparr>ex_segments := segs\<rparr>) pend m Ls' \<and>
         ext_live (x\<lparr>ex_segments := segs\<rparr>) Ls' = ext_live x Ls
     | Some (i, p, n) \<Rightarrow> i \<in> set is \<and> block_ok lay p n \<and> span p n \<inter> footprint (ext_live x Ls) = {} \<and>
         (\<exists>Ls'. ext_parts tg K mapped T (x\<lparr>ex_segments := segs\<rparr>) pend m Ls' \<and>
           ext_live (x\<lparr>ex_segments := segs\<rparr>) Ls' = insert (p, lay, n) (ext_live x Ls)))"
  using assms
proof (induction "is" arbitrary: x Ls)
  case Nil
  then show ?case by auto
next
  case (Cons i "is")
  have i: "i < length (ex_segments x)" using Cons.prems(3) by simp
  obtain P s where seg: "ex_segments x ! i = (P, s)" by (cases "ex_segments x ! i")
  obtain r1 s1 m1 where al: "slab_allocate (mmap_range tg K) P T lay (s, m) = (r1, s1, m1)"
    by (cases "slab_allocate (mmap_range tg K) P T lay (s, m)") auto
  have f: "fleet tg K T (ext_index x pend) (ext_seg x pend) Ls m" using Cons.prems(1) by (simp add: ext_parts_def)
  have si: "seg_inv tg K T (P, s) m (Ls (Inl i))"
    using fleetD(1) [OF f ext_index_Inl [OF i]] by (simp add: ext_seg_def seg)
  note a = seg_allocate [OF si Cons.prems(2), unfolded fst_conv snd_conv, OF al]
  let ?x = "x\<lparr>ex_segments := (ex_segments x)[i := (P, s1)]\<rparr>"
  note step = ext_seg_step [OF Cons.prems(1) i, of "(P, s1)" m, unfolded seg, OF _ a(2)]
  show ?case
  proof (cases r1)
    case (Inl e)
    have p1: "ext_parts tg K mapped T ?x pend m (Ls(Inl i := Ls (Inl i)))"
      by (rule step) (use a(3) Inl in simp_all)
    have t: "seg_try tg K T lay is (ex_segments ?x, m) = (r, segs, m')"
      using Cons.prems(4) seg al Inl a(1) by simp
    have "set is \<subseteq> {..<length (ex_segments ?x)}" using Cons.prems(3) by auto
    from Cons.IH [OF p1 Cons.prems(2) this t] show ?thesis
      unfolding ext_live_step(2) [OF i] by (auto split: option.splits)
  next
    case (Inr b)
    obtain p n where b: "b = (p, n)" by (cases b)
    have ok: "block_ok lay p n" "span p n \<inter> footprint (Ls (Inl i)) = {}"
      "seg_inv tg K T (P, s1) m (insert (p, lay, n) (Ls (Inl i)))"
      using a(3) Inr b by auto
    have p1: "ext_parts tg K mapped T ?x pend m (Ls(Inl i := insert (p, lay, n) (Ls (Inl i))))"
      by (rule step [OF ok(3)]) simp
    have "span p n \<subseteq> seg_own (ext_seg x pend (Inl i))"
      using seg_facts(2) [OF ok(3)] a(2) by (simp add: ext_seg_def seg)
    then have "span p n \<inter> footprint (ext_live x Ls) = {}"
      using ext_parts_live(2) [OF Cons.prems(1) ext_index_Inl [OF i]] ok(2) by blast
    moreover have "r = Some (i, p, n)" "segs = ex_segments ?x" "m' = m"
      using Cons.prems(4) seg al Inr b a(1) by auto
    ultimately show ?thesis
      using ok(1) p1 ext_live_step(1) [OF i, of "(P, s1)" Ls "(p, lay, n)"] by auto
  qed
qed

text \<open>The same for the invariant, with the segment list written back.\<close>

lemma seg_try_inv:
  assumes inv: "ext_inv tg K mapped T pend x m L" and lay: "valid_layout lay"
    and "is": "set is \<subseteq> {..<length (ex_segments x)}"
    and tr: "seg_try tg K T lay is (ex_segments x, m) = (r, segs, m')"
  shows "m' = m" "length segs = length (ex_segments x)"
    "case r of None \<Rightarrow> ext_inv tg K mapped T pend (x\<lparr>ex_segments := segs\<rparr>) m L
     | Some (i, p, n) \<Rightarrow> i \<in> set is \<and> block_ok lay p n \<and> span p n \<inter> footprint L = {} \<and>
         ext_inv tg K mapped T pend (x\<lparr>ex_segments := segs\<rparr>) m (insert (p, lay, n) L)"
proof -
  obtain Ls where p: "ext_parts tg K mapped T x pend m Ls" and L: "L = ext_live x Ls"
    using inv by (auto simp: ext_inv_def)
  note t = seg_try_post [OF p lay "is" tr]
  show "m' = m" "length segs = length (ex_segments x)" using t by auto
  show "case r of None \<Rightarrow> ext_inv tg K mapped T pend (x\<lparr>ex_segments := segs\<rparr>) m L
     | Some (i, p, n) \<Rightarrow> i \<in> set is \<and> block_ok lay p n \<and> span p n \<inter> footprint L = {} \<and>
         ext_inv tg K mapped T pend (x\<lparr>ex_segments := segs\<rparr>) m (insert (p, lay, n) L)"
    using t unfolding L by (auto simp: ext_inv_def split: option.splits)
qed

lemma ext_inv_fields [simp]:
  "ext_inv tg K mapped T pend (x\<lparr>ex_first_open_hint := h\<rparr>) m L = ext_inv tg K mapped T pend x m L"
  "ext_inv tg K mapped T pend (x\<lparr>ex_routing_failures := c\<rparr>) m L = ext_inv tg K mapped T pend x m L"
  by (simp_all add: ext_inv_def)

text \<open>The outcome of a critical section that may serve a request.\<close>

definition ext_serves ::
  "target \<Rightarrow> 'k kernel \<Rightarrow> ('k \<Rightarrow> addr set) \<Rightarrow> type_layout \<Rightarrow> 'k pending \<Rightarrow> layout \<Rightarrow> live \<Rightarrow> mem \<Rightarrow>
     block option \<Rightarrow> 'k extendable \<Rightarrow> mem \<Rightarrow> bool" where
  "ext_serves tg K mapped T pend lay L m r x' m' \<longleftrightarrow> same_on (footprint L) m m' \<and>
     (case r of None \<Rightarrow> ext_inv tg K mapped T pend x' m' L
      | Some (p, n) \<Rightarrow> block_ok lay p n \<and> span p n \<inter> footprint L = {} \<and>
          ext_inv tg K mapped T pend x' m' (insert (p, lay, n) L))"

lemma ext_phase1_post:
  assumes inv: "ext_inv tg K mapped T pend x m L" and lay: "valid_layout lay"
    and ph: "ext_phase1 tg K T lay (x, m) = (r, x', m')"
  shows "ext_serves tg K mapped T pend lay L m r x' m'" "m' = m" "ex_env x' = ex_env x"
    "ex_segment_capacity x' = ex_segment_capacity x" "length (ex_segments x') = length (ex_segments x)"
proof -
  let ?n = "length (ex_segments x)"
  define start where "start = min (ex_first_open_hint x) ?n"
  obtain r1 segs m1 where t1: "seg_try tg K T lay [start..<?n] (ex_segments x, m) = (r1, segs, m1)"
    by (cases "seg_try tg K T lay [start..<?n] (ex_segments x, m)") auto
  have "set [start..<?n] \<subseteq> {..<?n}" by auto
  note a = seg_try_inv [OF inv lay this t1]
  have "ext_serves tg K mapped T pend lay L m r x' m' \<and> m' = m \<and> ex_env x' = ex_env x \<and>
    ex_segment_capacity x' = ex_segment_capacity x \<and> length (ex_segments x') = ?n"
  proof (cases r1)
    case (Some b)
    then show ?thesis
      using ph t1 a by (auto simp: ext_phase1_def Let_def start_def ext_serves_def split: prod.splits)
  next
    case None
    show ?thesis
    proof (cases "start > 0")
      case False
      then show ?thesis
        using ph t1 a None by (auto simp: ext_phase1_def Let_def start_def ext_serves_def)
    next
      case True
      obtain r2 segs2 m2 where t2: "seg_try tg K T lay [0..<start] (segs, m) = (r2, segs2, m2)"
        by (cases "seg_try tg K T lay [0..<start] (segs, m)") auto
      let ?x = "x\<lparr>ex_segments := segs\<rparr>"
      have i: "ext_inv tg K mapped T pend ?x m L" and s: "set [0..<start] \<subseteq> {..<length (ex_segments ?x)}"
        using a None by (auto simp: start_def)
      have "seg_try tg K T lay [0..<start] (ex_segments ?x, m) = (r2, segs2, m2)" using t2 by simp
      note b = seg_try_inv [OF i lay s this]
      show ?thesis
        using ph t1 t2 a b None True
        by (auto simp: ext_phase1_def Let_def start_def [symmetric] ext_serves_def split: option.splits prod.splits)
    qed
  qed
  then show "ext_serves tg K mapped T pend lay L m r x' m'" "m' = m" "ex_env x' = ex_env x"
    "ex_segment_capacity x' = ex_segment_capacity x" "length (ex_segments x') = length (ex_segments x)"
    by auto
qed

end
