(* ===== verification/Extendable_Growth.thy ===== *)
theory Extendable_Growth
  imports Extendable_Slab
begin

text \<open>
  Growth of an \<open>ExtendableSlab\<close>: what building, installing and dropping a segment do to the
  invariant, the contract of the whole allocator, and the schedules of several threads, between
  whose critical sections segments are built without the lock.
\<close>

section \<open>Segments come and go\<close>

definition ext_serves_res ::
  "target \<Rightarrow> 'k kernel \<Rightarrow> ('k \<Rightarrow> addr set) \<Rightarrow> type_layout \<Rightarrow> 'k pending \<Rightarrow> layout \<Rightarrow> live \<Rightarrow> mem \<Rightarrow>
     block res \<Rightarrow> 'k extendable \<Rightarrow> mem \<Rightarrow> bool" where
  "ext_serves_res tg K mapped T pend lay L m r x' m' =
     ext_serves tg K mapped T pend lay L m (case r of Inl e \<Rightarrow> None | Inr b \<Rightarrow> Some b) x' m'"

text \<open>A slab built but not yet dropped keeps the range of its mapping, whatever it served.\<close>

lemma ext_parts_remove_pending:
  assumes p: "ext_parts tg K mapped T x pend m Ls"
    and m: "same_on (- S) m m'" and S: "\<And>i. i \<in> ext_index x (pend(t := None)) \<Longrightarrow> seg_own (ext_seg x pend i) \<inter> S = {}"
    and k: "mapped (en_kernel (ex_env x)) - S \<subseteq> mapped (en_kernel e)"
  shows "ext_parts tg K mapped T (x\<lparr>ex_env := e\<rparr>) (pend(t := None)) m' Ls"
proof -
  let ?I = "ext_index x (pend(t := None))"
  have f: "fleet tg K T (ext_index x pend) (ext_seg x pend) Ls m"
    and mp: "\<forall>i \<in> ext_index x pend. seg_own (ext_seg x pend i) \<subseteq> mapped (en_kernel (ex_env x))"
    and e: "\<forall>t. Ls (Inr t) = {}"
    using p by (auto simp: ext_parts_def)
  have sub: "?I \<subseteq> ext_index x pend" by (auto simp: ext_index_def split: if_splits)
  have idx: "ext_index (x\<lparr>ex_env := e\<rparr>) (pend(t := None)) = ?I" by (simp add: ext_index_def)
  have sg: "ext_seg (x\<lparr>ex_env := e\<rparr>) (pend(t := None)) i = ext_seg x pend i" if "i \<in> ?I" for i
    using that by (auto simp: ext_index_def ext_seg_def split: if_splits)
  have "fleet tg K T ?I (ext_seg x pend) Ls m'"
    by (rule fleet_elsewhere [OF fleet_subset [OF f sub] m]) (use S in blast)
  then have "fleet tg K T ?I (ext_seg (x\<lparr>ex_env := e\<rparr>) (pend(t := None))) Ls m'"
    by (rule fleet_cong) (use sg in auto)
  moreover have "seg_own (ext_seg (x\<lparr>ex_env := e\<rparr>) (pend(t := None)) i) \<subseteq> mapped (en_kernel e)"
    if i: "i \<in> ?I" for i
  proof -
    have "seg_own (ext_seg x pend i) \<subseteq> mapped (en_kernel (ex_env x)) - S"
      using mp sub S [OF i] i by blast
    then show ?thesis unfolding sg [OF i] using k by blast
  qed
  ultimately show ?thesis using e by (simp add: ext_parts_def idx)
qed

lemma ext_parts_env [simp]:
  "ext_parts tg K mapped T (x\<lparr>ex_first_open_hint := h, ex_env := e\<rparr>) pend m Ls =
     ext_parts tg K mapped T (x\<lparr>ex_env := e\<rparr>) pend m Ls"
  by (simp add: ext_parts_def ext_index_def ext_seg_def)

text \<open>A pending segment that has just served its first request becomes the last of the list.\<close>

lemma ext_parts_install:
  assumes p: "ext_parts tg K mapped T x pend m Ls" and t: "pend t = Some seg0"
    and seg: "seg_inv tg K T seg m J" and own: "seg_own seg = seg_own seg0"
  shows "ext_parts tg K mapped T (x\<lparr>ex_segments := ex_segments x @ [seg]\<rparr>) (pend(t := None)) m
      (Ls(Inl (length (ex_segments x)) := J))"
    "ext_live (x\<lparr>ex_segments := ex_segments x @ [seg]\<rparr>) (Ls(Inl (length (ex_segments x)) := J)) = ext_live x Ls \<union> J"
proof -
  let ?n = "length (ex_segments x)" and ?x = "x\<lparr>ex_segments := ex_segments x @ [seg]\<rparr>"
  let ?I = "ext_index x (pend(t := None))" and ?S = "(ext_seg x pend)(Inl ?n := seg)"
  have f: "fleet tg K T (ext_index x pend) (ext_seg x pend) Ls m"
    and mp: "\<forall>i \<in> ext_index x pend. seg_own (ext_seg x pend i) \<subseteq> mapped (en_kernel (ex_env x))"
    and e: "\<forall>t. Ls (Inr t) = {}"
    using p by (auto simp: ext_parts_def)
  have ti: "Inr t \<in> ext_index x pend" "ext_seg x pend (Inr t) = seg0"
    using t by (auto simp: ext_index_def ext_seg_def)
  have sub: "?I \<subseteq> ext_index x pend" and tn: "Inr t \<notin> ?I" and nn: "Inl ?n \<notin> ?I"
    by (auto simp: ext_index_def split: if_splits)
  have idx: "ext_index ?x (pend(t := None)) = insert (Inl ?n) ?I"
    by (auto simp: ext_index_def split: if_splits)
  have sg: "ext_seg ?x (pend(t := None)) i = ?S i" if "i \<in> insert (Inl ?n) ?I" for i
    using that by (auto simp: ext_index_def ext_seg_def nth_append split: if_splits)
  have d: "seg_own (ext_seg x pend j) \<inter> seg_own seg = {}" if "j \<in> ?I" for j
    using fleetD(2) [OF f ti(1), of j] sub tn that ti(2) own by fastforce
  have "fleet tg K T (insert (Inl ?n) ?I) ?S (Ls(Inl ?n := J)) m"
    by (rule fleet_insert [OF fleet_subset [OF f sub] nn seg d])
  then have "fleet tg K T (insert (Inl ?n) ?I) (ext_seg ?x (pend(t := None))) (Ls(Inl ?n := J)) m"
    by (rule fleet_cong) (use sg in auto)
  moreover have "seg_own (ext_seg ?x (pend(t := None)) i) \<subseteq> mapped (en_kernel (ex_env x))"
    if i: "i \<in> insert (Inl ?n) ?I" for i
  proof (cases "i = Inl ?n")
    case True
    have "seg_own seg0 \<subseteq> mapped (en_kernel (ex_env x))" using bspec [OF mp ti(1)] ti(2) by simp
    then show ?thesis unfolding sg [OF i] by (simp add: True own)
  next
    case False
    then have "i \<in> ext_index x pend" using i sub by blast
    then show ?thesis unfolding sg [OF i] using mp False by simp
  qed
  ultimately show "ext_parts tg K mapped T ?x (pend(t := None)) m (Ls(Inl ?n := J))"
    using e by (simp add: ext_parts_def idx)
  show "ext_live ?x (Ls(Inl ?n := J)) = ext_live x Ls \<union> J"
    by (auto simp: ext_live_def less_Suc_eq)
qed

text \<open>A pending segment that refused the request stays pending.\<close>

lemma ext_parts_pending:
  assumes p: "ext_parts tg K mapped T x pend m Ls" and t: "pend t = Some seg0"
    and seg: "seg_inv tg K T seg m {}" and own: "seg_own seg = seg_own seg0"
  shows "ext_parts tg K mapped T x (pend(t \<mapsto> seg)) m Ls"
proof -
  have f: "fleet tg K T (ext_index x pend) (ext_seg x pend) Ls m"
    and mp: "\<forall>i \<in> ext_index x pend. seg_own (ext_seg x pend i) \<subseteq> mapped (en_kernel (ex_env x))"
    and e: "\<forall>t. Ls (Inr t) = {}"
    using p by (auto simp: ext_parts_def)
  have ti: "Inr t \<in> ext_index x pend" "ext_seg x pend (Inr t) = seg0"
    using t by (auto simp: ext_index_def ext_seg_def)
  have idx: "ext_index x (pend(t \<mapsto> seg)) = ext_index x pend"
    using t by (auto simp: ext_index_def)
  have sg: "ext_seg x (pend(t \<mapsto> seg)) = (ext_seg x pend)(Inr t := seg)"
    by (auto simp: ext_seg_def fun_eq_iff split: sum.split)
  have "fleet tg K T (ext_index x pend) ((ext_seg x pend)(Inr t := seg)) (Ls(Inr t := {})) m"
    by (rule fleet_update [OF f ti(1) seg]) (simp_all add: own ti(2))
  moreover have "Ls(Inr t := {}) = Ls" using e by (simp add: fun_upd_idem)
  ultimately show ?thesis
    using mp e own ti(2) by (auto simp: ext_parts_def idx sg)
qed

text \<open>A pending segment that is dropped takes nothing with it but its own memory.\<close>

context mapping_kernel
begin

lemma ext_drop_pending:
  assumes p: "ext_parts tg K mapped T x pend m Ls" and t: "pend t = Some seg0"
    and own: "seg_own seg = seg_own seg0"
    and dr: "segment_drop K seg (ex_env x, m) = (e, m')"
  shows "ext_parts tg K mapped T (x\<lparr>ex_env := e\<rparr>) (pend(t := None)) m' Ls"
    "same_on (footprint (ext_live x Ls)) m m'"
proof -
  have f: "fleet tg K T (ext_index x pend) (ext_seg x pend) Ls m" and e: "\<forall>t. Ls (Inr t) = {}"
    using p by (auto simp: ext_parts_def)
  have ti: "Inr t \<in> ext_index x pend" "ext_seg x pend (Inr t) = seg0"
    using t by (auto simp: ext_index_def ext_seg_def)
  note d = mmap_drop_frame [OF dr [unfolded segment_drop_def], folded seg_own_def]
  show "ext_parts tg K mapped T (x\<lparr>ex_env := e\<rparr>) (pend(t := None)) m' Ls"
  proof (rule ext_parts_remove_pending [OF p d(3)])
    show "seg_own (ext_seg x pend i) \<inter> seg_own seg = {}" if "i \<in> ext_index x (pend(t := None))" for i
    proof -
      have "i \<in> ext_index x pend" "i \<noteq> Inr t" using that by (auto simp: ext_index_def split: if_splits)
      then show ?thesis using fleetD(2) [OF f _ ti(1), of i] ti(2) own by simp
    qed
  qed (use d in auto)
  have "footprint (ext_live x Ls) \<inter> seg_own seg = {}"
    using ext_parts_live(2) [OF p ti(1)] e ti(2) own by simp
  then show "same_on (footprint (ext_live x Ls)) m m'"
    using d(3) by (auto simp: same_on_def)
qed

lemma ext_place_post:
  assumes p: "ext_inv tg K mapped T pend x m L" and lay: "valid_layout lay" and t: "pend t = Some seg"
    and ph: "ext_place tg K T lay len seg (x, m) = (r, left, x', m')"
  shows "ext_serves_res tg K mapped T (pend(t := left)) lay L m r x' m'"
proof -
  let ?n = "length (ex_segments x)"
  define st where "st = (if ?n > len then seg_try tg K T lay [len..<?n] (ex_segments x, m) else (None, ex_segments x, m))"
  obtain r1 segs m1 where t1: "st = (r1, segs, m1)" by (cases st) auto
  let ?x = "x\<lparr>ex_segments := segs\<rparr>"
  have "m1 = m \<and> (case r1 of None \<Rightarrow> ext_inv tg K mapped T pend ?x m L
     | Some (i, p, n) \<Rightarrow> block_ok lay p n \<and> span p n \<inter> footprint L = {} \<and>
         ext_inv tg K mapped T pend ?x m (insert (p, lay, n) L))"
  proof (cases "?n > len")
    case True
    have "set [len..<?n] \<subseteq> {..<?n}" by auto
    moreover have "seg_try tg K T lay [len..<?n] (ex_segments x, m) = (r1, segs, m1)"
      using t1 True by (simp add: st_def)
    ultimately have s: "set [len..<?n] \<subseteq> {..<?n}"
      "seg_try tg K T lay [len..<?n] (ex_segments x, m) = (r1, segs, m1)" by auto
    show ?thesis using seg_try_inv(1,3) [OF p lay s] by (auto split: option.splits)
  next
    case False
    then have "r1 = None" "segs = ex_segments x" "m1 = m" using t1 by (auto simp: st_def)
    then show ?thesis using p by simp
  qed
  then have m1: "m1 = m" and a: "case r1 of None \<Rightarrow> ext_inv tg K mapped T pend ?x m L
     | Some (i, p, n) \<Rightarrow> block_ok lay p n \<and> span p n \<inter> footprint L = {} \<and>
         ext_inv tg K mapped T pend ?x m (insert (p, lay, n) L)" by auto
  note ph' = ph [unfolded ext_place_def prod.case Let_def, folded st_def, unfolded t1 prod.case]
  show ?thesis
  proof (cases r1)
    case (Some b1)
    obtain i p n where b1: "b1 = (i, p, n)" by (cases b1)
    have "pend(t := Some seg) = pend" using t by (simp add: fun_upd_idem)
    then show ?thesis
      using ph' Some b1 m1 a by (auto simp: ext_serves_res_def ext_serves_def)
  next
    case None
    obtain Ls where q: "ext_parts tg K mapped T ?x pend m Ls" and L: "L = ext_live ?x Ls"
      using a None by (auto simp: ext_inv_def)
    have ti: "Inr t \<in> ext_index ?x pend" "ext_seg ?x pend (Inr t) = seg"
      using t by (auto simp: ext_index_def ext_seg_def)
    have em: "Ls (Inr t) = {}" using q by (simp add: ext_parts_def)
    have si: "seg_inv tg K T seg m {}"
      using q ti em fleetD(1) [of tg K T "ext_index ?x pend" "ext_seg ?x pend" Ls m "Inr t"]
      by (simp add: ext_parts_def)
    obtain r2 s2 m2 where al: "slab_allocate (mmap_range tg K) (fst seg) T lay (snd seg, m) = (r2, s2, m2)"
      by (cases "slab_allocate (mmap_range tg K) (fst seg) T lay (snd seg, m)") auto
    note sa = seg_allocate [OF si lay al]
    show ?thesis
    proof (cases r2)
      case (Inl err)
      have "ext_parts tg K mapped T ?x (pend(t \<mapsto> (fst seg, s2))) m Ls"
        by (rule ext_parts_pending [OF q t _ sa(2)]) (use sa(3) Inl in simp)
      then show ?thesis
        using ph' None m1 al sa(1) Inl L
        by (auto simp: ext_serves_res_def ext_serves_def ext_inv_def intro!: exI [of _ Ls])
    next
      case (Inr b)
      obtain p n where b: "b = (p, n)" by (cases b)
      have ok: "block_ok lay p n" and si2: "seg_inv tg K T (fst seg, s2) m {(p, lay, n)}"
        using sa(3) Inr b by auto
      note ins = ext_parts_install [OF q t si2 sa(2)]
      have "span p n \<inter> footprint L = {}"
        using ext_parts_live(2) [OF q ti(1)] em seg_facts(2) [OF si2] sa(2) ti(2) L by auto
      moreover have "ext_inv tg K mapped T (pend(t := None)) (?x\<lparr>ex_segments := segs @ [(fst seg, s2)]\<rparr>) m
          (insert (p, lay, n) L)"
        using ins L by (auto simp: ext_inv_def)
      ultimately show ?thesis
        using ph' None m1 al sa(1) Inr b ok by (auto simp: ext_serves_res_def ext_serves_def)
    qed
  qed
qed

lemma ext_drop_left_post:
  assumes inv: "ext_inv tg K mapped T pend x m L" and t: "pend t = left"
    and dr: "ext_drop_left K left (x, m) = (x', m')"
  shows "ext_inv tg K mapped T (pend(t := None)) x' m' L" "same_on (footprint L) m m'"
    "ex_segments x' = ex_segments x"
proof -
  have "ext_inv tg K mapped T (pend(t := None)) x' m' L \<and> same_on (footprint L) m m' \<and> ex_segments x' = ex_segments x"
  proof (cases left)
    case None
    then have "pend(t := None) = pend" using t by (simp add: fun_upd_idem)
    then show ?thesis using inv dr None by (auto simp: ext_drop_left_def)
  next
    case (Some seg)
    obtain Ls where q: "ext_parts tg K mapped T x pend m Ls" and L: "L = ext_live x Ls"
      using inv by (auto simp: ext_inv_def)
    obtain e m2 where d: "segment_drop K seg (ex_env x, m) = (e, m2)" by force
    have "pend t = Some seg" using t Some by simp
    note d' = ext_drop_pending [OF q this refl d]
    show ?thesis
      using d' d dr Some L by (auto simp: ext_drop_left_def ext_inv_def intro!: exI [of _ Ls])
  qed
  then show "ext_inv tg K mapped T (pend(t := None)) x' m' L" "same_on (footprint L) m m'"
    "ex_segments x' = ex_segments x" by auto
qed

lemma ext_phase3_post:
  assumes p: "ext_inv tg K mapped T pend x m L" and lay: "valid_layout lay" and t: "pend t = Some seg"
    and ph: "ext_phase3 tg K T lay len seg (x, m) = (r, x', m')"
  shows "ext_serves_res tg K mapped T (pend(t := None)) lay L m r x' m'"
proof -
  obtain left x1 m1 where pl: "ext_place tg K T lay len seg (x, m) = (r, left, x1, m1)"
    and dr: "ext_drop_left K left (x1, m1) = (x', m')"
    using ph by (auto simp: ext_phase3_def split: prod.splits)
  have s: "ext_serves_res tg K mapped T (pend(t := left)) lay L m r x1 m1" by (rule ext_place_post [OF p lay t pl])
  have up: "(pend(t := left))(t := None) = pend(t := None)" "(pend(t := left)) t = left" by simp_all
  show ?thesis
  proof (cases r)
    case (Inl e)
    then have "ext_inv tg K mapped T (pend(t := left)) x1 m1 L" "same_on (footprint L) m m1"
      using s by (auto simp: ext_serves_res_def ext_serves_def)
    with ext_drop_left_post [OF this(1) up(2) dr, unfolded up(1)] show ?thesis
      using Inl by (auto simp: ext_serves_res_def ext_serves_def intro: same_on_trans)
  next
    case (Inr b)
    obtain q n where b: "b = (q, n)" by (cases b)
    have i: "ext_inv tg K mapped T (pend(t := left)) x1 m1 (insert (q, lay, n) L)" "same_on (footprint L) m m1"
      and ok: "block_ok lay q n" "span q n \<inter> footprint L = {}"
      using s Inr b by (auto simp: ext_serves_res_def ext_serves_def)
    note d = ext_drop_left_post [OF i(1) up(2) dr, unfolded up(1)]
    have "same_on (footprint L) m1 m'" by (rule same_on_mono [OF d(2)]) (auto simp: footprint_def)
    then have "same_on (footprint L) m m'" by (rule same_on_trans [OF i(2)])
    then show ?thesis
      using Inr b ok d(1) by (auto simp: ext_serves_res_def ext_serves_def)
  qed
qed

end

text \<open>The three ways out of \<open>build_segment\<close>: before the mapping, from the mapping, from the slab.\<close>

definition ext_fill_segment ::
  "target \<Rightarrow> 'k kernel \<Rightarrow> ('k env \<Rightarrow> protection \<times> 'k env) \<Rightarrow> type_layout \<Rightarrow> usize \<Rightarrow>
     'k mmap_backed \<times> 'k env \<times> mem \<Rightarrow> 'k segment res \<times> 'k env \<times> mem" where
  "ext_fill_segment tg K F T cap st =
     (case st of (b, e, m) \<Rightarrow>
        case F e of (P, e') \<Rightarrow>
        case slab_with_protection (mmap_allocator tg K) (mmap_range tg K) T cap (b, m) of
          (Inl err, b', m') \<Rightarrow> (Inl err, mmap_drop K b' (e', m'))
        | (Inr s, b', m') \<Rightarrow> (Inr (P, s), e', m'))"

lemma ext_build_segment_cases:
  assumes bd: "ext_build_segment tg K F T cap (e, m) = (r, e', m')"
  obtains (early) "r = Inl AllocError" "e' = e" "m' = m"
    | (unmapped) ws err where "mmap_new tg K ws (e, m) = (Inl err, e', m')" "r = Inl err"
    | (filled) ws b e1 m1 where "mmap_new tg K ws (e, m) = (Inr b, e1, m1)"
        "ext_fill_segment tg K F T cap (b, e1, m1) = (r, e', m')"
proof (cases "(r, e', m') = (Inl AllocError, e, m)")
  case True
  then show thesis using early by simp
next
  case False
  then obtain ws where ws: "(case mmap_new tg K ws (e, m) of (Inl err, st') \<Rightarrow> (Inl err, st')
      | (Inr b, e1, m1) \<Rightarrow> ext_fill_segment tg K F T cap (b, e1, m1)) = (r, e', m')"
    using bd unfolding ext_build_segment_def ext_fill_segment_def prod.case
    by (simp split: option.split_asm)
  obtain r1 e1 m1 where mp: "mmap_new tg K ws (e, m) = (r1, e1, m1)"
    by (cases "mmap_new tg K ws (e, m)") auto
  show thesis
  proof (cases r1)
    case (Inl err)
    then show thesis using ws mp unmapped by simp
  next
    case (Inr b)
    then show thesis using ws mp filled by simp
  qed
qed

lemma slab_with_protection_frame:
  assumes "slab_with_protection (mmap_allocator tg K) R T cap (b, m) = (r, b', m')" "mmap_inv tg b m L"
  shows "m' = m" "mmap_own b' = mmap_own b"
proof -
  have "m' = m \<and> mmap_own b' = mmap_own b"
  proof (cases "b' = b \<and> m' = m")
    case False
    then obtain tot lay r3 where "from_size_align tot (slot_align T) = Inr lay"
      and al: "mmap_allocate tg K lay (b, m) = (r3, b', m')"
      using assms(1) by (auto simp: slab_with_protection_def mmap_allocator_def Let_def
          split: if_splits option.splits sum.splits prod.splits)
    then have "valid_layout lay" by (auto simp: from_size_align_Inr)
    then show ?thesis using mmap_allocate_cases(2-4) [OF assms(2) _ al] by (simp add: mmap_own_def)
  qed simp
  then show "m' = m" "mmap_own b' = mmap_own b" by auto
qed

text \<open>
  A new segment is a fresh slab over memory that was not in use before. Building one, or failing to,
  leaves the memory in use alone. The factory may read the environment, not map or unmap.
\<close>

definition factory_ok ::
  "('k \<Rightarrow> addr set) \<Rightarrow> ('k env \<Rightarrow> protection \<times> 'k env) \<Rightarrow> bool" where
  "factory_ok mapped F \<longleftrightarrow> (\<forall>e. freelist_protection (fst (F e)) \<and>
     mapped (en_kernel (snd (F e))) = mapped (en_kernel e))"

definition built_post ::
  "target \<Rightarrow> 'k kernel \<Rightarrow> ('k \<Rightarrow> addr set) \<Rightarrow> type_layout \<Rightarrow> usize \<Rightarrow> addr set \<Rightarrow> mem \<Rightarrow>
     'k segment res \<times> 'k env \<times> mem \<Rightarrow> bool" where
  "built_post tg K mapped T cap U m res \<longleftrightarrow>
     (case res of (r, e', m') \<Rightarrow> same_on U m m' \<and> U \<subseteq> mapped (en_kernel e') \<and>
        (case r of Inl err \<Rightarrow> True
         | Inr seg \<Rightarrow> seg_inv tg K T seg m' {} \<and> seg_own seg \<inter> U = {} \<and>
             seg_own seg \<subseteq> mapped (en_kernel e') \<and> unat (sl_capacity (snd seg)) = unat cap \<and> cap \<noteq> 0))"

context mapping_kernel
begin

lemma ext_fill_segment_post:
  assumes F: "factory_ok mapped F" and T: "type_ok T" and b: "mmap_inv tg b m {}"
    and U: "mmap_own b \<inter> U = {}" "mapped (en_kernel e) = U \<union> mmap_own b"
  shows "built_post tg K mapped T cap U m (ext_fill_segment tg K F T cap (b, e, m))"
proof -
  obtain P e2 where f: "F e = (P, e2)" by force
  then have P: "freelist_protection P" and e2: "mapped (en_kernel e2) = U \<union> mmap_own b"
    using F U(2) unfolding factory_ok_def by (metis fst_conv, metis snd_conv)
  obtain r b' m' where sw: "slab_with_protection (mmap_allocator tg K) (mmap_range tg K) T cap (b, m) = (r, b', m')"
    by (cases "slab_with_protection (mmap_allocator tg K) (mmap_range tg K) T cap (b, m)") auto
  note fr = slab_with_protection_frame [OF sw b]
  show ?thesis
  proof (cases r)
    case (Inl err)
    obtain e3 m3 where dr: "mmap_drop K b' (e2, m') = (e3, m3)" by force
    note d = mmap_drop_frame [OF dr, unfolded fr e2]
    have "same_on U m m3" using d(3) U(1) by (auto simp: same_on_def)
    moreover have "U \<subseteq> mapped (en_kernel e3)" using d(1) U(1) by blast
    ultimately show ?thesis
      using f sw Inl dr by (simp add: ext_fill_segment_def built_post_def)
  next
    case (Inr s)
    note sn = ranged_contract.slab_new_inv(1-3) [OF mmap_ranged sw [unfolded Inr] b T]
    have "cap \<noteq> 0" using sw Inr by (auto simp: slab_with_protection_def)
    then show ?thesis
      using sn P fr U(1) e2 f sw Inr
      by (simp add: ext_fill_segment_def built_post_def seg_inv_def seg_own_def)
  qed
qed

lemma ext_build_segment_post:
  assumes F: "factory_ok mapped F" and T: "type_ok T"
  shows "built_post tg K mapped T cap (mapped (en_kernel e)) m (ext_build_segment tg K F T cap (e, m))"
proof -
  obtain r e' m' where bd: "ext_build_segment tg K F T cap (e, m) = (r, e', m')"
    by (cases "ext_build_segment tg K F T cap (e, m)") auto
  from bd show ?thesis
  proof (cases rule: ext_build_segment_cases)
    case early
    then show ?thesis using bd by (simp add: built_post_def)
  next
    case (unmapped ws err)
    then show ?thesis
      using mmap_with_flags_error(1,2) [of tg ws MMAP_FLAGS_NONE e m err e' m'] bd
      by (simp add: built_post_def mmap_new_def)
  next
    case (filled ws b e1 m1)
    note n = mmap_with_flags_ok [OF filled(1) [unfolded mmap_new_def]]
    have "same_on (mapped (en_kernel e)) m m1" using n(6,8) by (auto simp: same_on_def)
    then show ?thesis
      using ext_fill_segment_post [OF F T n(1,6,7), of cap] bd filled(2)
      by (auto simp: built_post_def intro: same_on_trans split: sum.splits)
  qed
qed

end

lemma ext_inv_live: "ext_inv tg K mapped T pend x m L \<Longrightarrow> live_ok L"
  by (auto simp: ext_inv_def dest: ext_parts_live(1))

lemma ext_parts_mapped:
  assumes p: "ext_parts tg K mapped T x pend m Ls"
  shows "footprint (ext_live x Ls) \<subseteq> mapped (en_kernel (ex_env x))"
proof -
  have f: "fleet tg K T (ext_index x pend) (ext_seg x pend) Ls m" and e: "\<forall>t. Ls (Inr t) = {}"
    and mp: "\<forall>i \<in> ext_index x pend. seg_own (ext_seg x pend i) \<subseteq> mapped (en_kernel (ex_env x))"
    using p by (auto simp: ext_parts_def)
  have "footprint (Ls i) \<subseteq> mapped (en_kernel (ex_env x))" if "i \<in> ext_index x pend" for i
    using seg_facts(2) [OF fleetD(1) [OF f that]] mp that by blast
  then show ?thesis unfolding ext_live_UN [OF e, of x pend, symmetric] footprint_UN by blast
qed

lemma ext_inv_mapped:
  "ext_inv tg K mapped T pend x m L \<Longrightarrow> footprint L \<subseteq> mapped (en_kernel (ex_env x))"
  using ext_parts_mapped by (fastforce simp: ext_inv_def)

text \<open>After a build: the thread holds one more segment, or the attempt left no trace.\<close>

lemma ext_built:
  assumes inv: "ext_inv tg K mapped T pend x m L"
    and bp: "built_post tg K mapped T cap (mapped (en_kernel (ex_env x))) m (r, e, m')"
    and t: "pend t = None"
  shows "same_on (footprint L) m m'"
    "case r of Inl err \<Rightarrow> ext_inv tg K mapped T pend (x\<lparr>ex_env := e\<rparr>) m' L
     | Inr seg \<Rightarrow> ext_inv tg K mapped T (pend(t \<mapsto> seg)) (x\<lparr>ex_env := e\<rparr>) m' L"
proof -
  let ?U = "mapped (en_kernel (ex_env x))" and ?x = "x\<lparr>ex_env := e\<rparr>"
  have m: "same_on ?U m m'" and U: "?U \<subseteq> mapped (en_kernel e)"
    using bp by (auto simp: built_post_def)
  show "same_on (footprint L) m m'" by (rule same_on_mono [OF m ext_inv_mapped [OF inv]])
  obtain Ls where p: "ext_parts tg K mapped T x pend m Ls" and L: "L = ext_live x Ls"
    using inv by (auto simp: ext_inv_def)
  have f: "fleet tg K T (ext_index x pend) (ext_seg x pend) Ls m" and em: "\<forall>t. Ls (Inr t) = {}"
    and mp: "\<forall>i \<in> ext_index x pend. seg_own (ext_seg x pend i) \<subseteq> ?U"
    using p by (auto simp: ext_parts_def)
  have mp': "\<forall>i \<in> ext_index x pend. seg_own (ext_seg x pend i) \<subseteq> mapped (en_kernel e)"
    using mp U by (meson subset_trans)
  have f': "fleet tg K T (ext_index x pend) (ext_seg x pend) Ls m'"
    by (rule fleet_elsewhere [OF f m]) (use mp in blast)
  show "case r of Inl err \<Rightarrow> ext_inv tg K mapped T pend (x\<lparr>ex_env := e\<rparr>) m' L
     | Inr seg \<Rightarrow> ext_inv tg K mapped T (pend(t \<mapsto> seg)) (x\<lparr>ex_env := e\<rparr>) m' L"
  proof (cases r)
    case (Inl err)
    have "ext_index ?x pend = ext_index x pend" "ext_seg ?x pend = ext_seg x pend"
      by (auto simp: ext_index_def ext_seg_def)
    then have "ext_parts tg K mapped T ?x pend m' Ls"
      using f' em mp' by (simp add: ext_parts_def)
    then show ?thesis using Inl L by (auto simp: ext_inv_def)
  next
    case (Inr seg)
    have s: "seg_inv tg K T seg m' {}" "seg_own seg \<inter> ?U = {}" "seg_own seg \<subseteq> mapped (en_kernel e)"
      using bp Inr by (auto simp: built_post_def)
    let ?S = "(ext_seg x pend)(Inr t := seg)"
    have idx: "ext_index ?x (pend(t \<mapsto> seg)) = insert (Inr t) (ext_index x pend)"
      and tn: "Inr t \<notin> ext_index x pend"
      using t by (auto simp: ext_index_def)
    have sg: "ext_seg ?x (pend(t \<mapsto> seg)) i = ?S i" for i
      by (auto simp: ext_seg_def split: sum.split)
    have "fleet tg K T (insert (Inr t) (ext_index x pend)) ?S (Ls(Inr t := {})) m'"
      by (rule fleet_insert [OF f' tn s(1)]) (use mp s(2) in blast)
    moreover have "Ls(Inr t := {}) = Ls" using em by (simp add: fun_eq_iff)
    ultimately have "fleet tg K T (insert (Inr t) (ext_index x pend)) (ext_seg ?x (pend(t \<mapsto> seg))) Ls m'"
      using fleet_cong [of tg K T _ ?S Ls m'] sg by metis
    moreover have "\<forall>i \<in> insert (Inr t) (ext_index x pend).
        seg_own (ext_seg ?x (pend(t \<mapsto> seg)) i) \<subseteq> mapped (en_kernel e)"
      using mp' s(3) sg by simp
    ultimately have "ext_parts tg K mapped T ?x (pend(t \<mapsto> seg)) m' Ls"
      using em by (simp add: ext_parts_def idx)
    then show ?thesis using Inr L by (auto simp: ext_inv_def)
  qed
qed

section \<open>The contract\<close>

text \<open>A live block is found in the segment it came from.\<close>

lemma ext_route:
  assumes p: "ext_parts tg K mapped T x pend m Ls" and mem: "(a, lay, n) \<in> ext_live x Ls"
  obtains i where "i < length (ex_segments x)" "(a, lay, n) \<in> Ls (Inl i)"
    "seg_route tg K (ex_segments x) a = Some i"
    "\<forall>j < length (ex_segments x). j \<noteq> i \<longrightarrow> (a, lay, n) \<notin> Ls (Inl j)"
proof -
  have f: "fleet tg K T (ext_index x pend) (ext_seg x pend) Ls m" using p by (simp add: ext_parts_def)
  obtain i where i: "i < length (ex_segments x)" "(a, lay, n) \<in> Ls (Inl i)"
    using mem by (auto simp: ext_live_def)
  have si: "seg_inv tg K T (ex_segments x ! j) m (Ls (Inl j))" if "j < length (ex_segments x)" for j
    using fleetD(1) [OF f ext_index_Inl [OF that]] by (simp add: ext_seg_def)
  have dj: "seg_own (ex_segments x ! i) \<inter> seg_own (ex_segments x ! j) = {}" if "j < length (ex_segments x)" "j \<noteq> i" for j
    using fleetD(2) [OF f ext_index_Inl [OF i(1)] ext_index_Inl [OF that(1)]] that(2) by (simp add: ext_seg_def)
  have "n \<noteq> 0" using live_okD [OF seg_facts(1) [OF si [OF i(1)]] i(2)] by (rule block_okD)
  then have a: "a \<in> footprint (Ls (Inl i))" using span_footprint [OF i(2)] span_base by blast
  have here: "fr_contains (slab_range (mmap_range tg K)) (snd (ex_segments x ! i)) a"
    using seg_facts(5) [OF si [OF i(1)]] a by (auto simp: fr_contains_span)
  have there: "\<not> fr_contains (slab_range (mmap_range tg K)) (snd (ex_segments x ! j)) a"
    if j: "j < length (ex_segments x)" "j \<noteq> i" for j
    using seg_facts(6) [OF si [OF j(1)]] seg_facts(2) [OF si [OF i(1)]] dj [OF j] a
    by (auto simp: fr_contains_span)
  have only: "(a, lay, n) \<notin> Ls (Inl j)" if j: "j < length (ex_segments x)" "j \<noteq> i" for j
  proof
    assume "(a, lay, n) \<in> Ls (Inl j)"
    then have "a \<in> footprint (Ls (Inl j))" using span_footprint span_base [OF \<open>n \<noteq> 0\<close>] by blast
    then show False
      using seg_facts(2) [OF si [OF i(1)]] seg_facts(2) [OF si [OF j(1)]] dj [OF j] a by blast
  qed
  have "seg_route tg K (ex_segments x) a = Some i"
    unfolding seg_route_def find_Some_iff using i(1) here there by (intro exI [of _ i]) auto
  then show thesis using i only by (intro that [of i]) auto
qed

lemma seg_deallocate:
  assumes inv: "seg_inv tg K T (P, s) m L" and mem: "(p, lay, n) \<in> L"
  obtains s' m' where "slab_deallocate (mmap_range tg K) P p lay (s, m) = Done (s', m')"
    "seg_inv tg K T (P, s') m' (L - {(p, lay, n)})" "seg_own (P, s') = seg_own (P, s)"
    "same_on (- seg_own (P, s)) m m'" "same_on (footprint (L - {(p, lay, n)})) m m'"
proof -
  have P: "freelist_protection P" and si: "slab_inv True (mmap_inv tg) (mmap_range tg K) P T s m L"
    using inv by (auto simp: seg_inv_def)
  have post: "dealloc_post (slab_inv True (mmap_inv tg) (mmap_range tg K) P T) (L - {(p, lay, n)}) m
      (slab_deallocate (mmap_range tg K) P p lay (s, m))"
    by (rule ranged_contract.slab_deallocate_post(1) [OF mmap_ranged P si mem])
  then obtain s' m' where d: "slab_deallocate (mmap_range tg K) P p lay (s, m) = Done (s', m')"
    by (cases "slab_deallocate (mmap_range tg K) P p lay (s, m)") (auto simp: dealloc_post_def)
  have "slab_own mmap_own s' = slab_own mmap_own s \<and> same_on (- slab_own mmap_own s) m m'"
    by (rule owned_contract.own_deallocate [OF owned_ranged.axioms(1) [OF seg_owned [OF P]] si mem])
      (simp add: slab_allocator_def d)
  then show thesis
    using that [OF d] post d P by (simp add: dealloc_post_def seg_inv_def seg_own_def slab_own_def)
qed

lemma ext_deallocate_post:
  assumes inv: "ext_inv tg K mapped T pend x m L" and mem: "(a, lay, n) \<in> L"
  shows "dealloc_post (ext_inv tg K mapped T pend) (L - {(a, lay, n)}) m (ext_deallocate tg K a lay (x, m))"
proof -
  obtain Ls where p: "ext_parts tg K mapped T x pend m Ls" and L: "L = ext_live x Ls"
    using inv by (auto simp: ext_inv_def)
  obtain i where i: "i < length (ex_segments x)" "(a, lay, n) \<in> Ls (Inl i)"
    "seg_route tg K (ex_segments x) a = Some i"
    "\<forall>j < length (ex_segments x). j \<noteq> i \<longrightarrow> (a, lay, n) \<notin> Ls (Inl j)"
    using p mem unfolding L by (rule ext_route)
  obtain P s where seg: "ex_segments x ! i = (P, s)" by (cases "ex_segments x ! i")
  have f: "fleet tg K T (ext_index x pend) (ext_seg x pend) Ls m" using p by (simp add: ext_parts_def)
  have si: "seg_inv tg K T (P, s) m (Ls (Inl i))"
    using fleetD(1) [OF f ext_index_Inl [OF i(1)]] by (simp add: ext_seg_def seg)
  obtain s' m' where d: "slab_deallocate (mmap_range tg K) P a lay (s, m) = Done (s', m')"
    "seg_inv tg K T (P, s') m' (Ls (Inl i) - {(a, lay, n)})" "seg_own (P, s') = seg_own (P, s)"
    "same_on (- seg_own (P, s)) m m'" "same_on (footprint (Ls (Inl i) - {(a, lay, n)})) m m'"
    using si i(2) by (rule seg_deallocate)
  let ?x = "x\<lparr>ex_segments := (ex_segments x)[i := (P, s')]\<rparr>"
  let ?Ls = "Ls(Inl i := Ls (Inl i) - {(a, lay, n)})"
  have q: "ext_parts tg K mapped T ?x pend m' ?Ls"
    by (rule ext_seg_step [OF p i(1) d(2)]) (use d seg in simp_all)
  have live: "ext_live ?x ?Ls = L - {(a, lay, n)}"
    using i unfolding L by (auto simp: ext_live_def split: if_splits)
  have "same_on (footprint (L - {(a, lay, n)})) m m'"
  proof -
    have "footprint (L - {(a, lay, n)}) \<inter> seg_own (P, s) \<subseteq> footprint (Ls (Inl i) - {(a, lay, n)})"
      using ext_parts_live(2) [OF q ext_index_Inl, of i] i(1) d(3) live by (simp add: ext_seg_def)
    then show ?thesis using d(4,5) by (auto simp: same_on_def)
  qed
  moreover have "ext_inv tg K mapped T pend ?x m' (L - {(a, lay, n)})"
    using q live by (auto simp: ext_inv_def)
  ultimately show ?thesis
    using i(3) seg d(1) by (simp add: ext_deallocate_def dealloc_post_def)
qed

lemma ext_user_write:
  assumes inv: "ext_inv tg K mapped T pend x m L" and same: "same_on (- footprint L) m m'"
  shows "ext_inv tg K mapped T pend x m' L"
proof -
  obtain Ls where p: "ext_parts tg K mapped T x pend m Ls" and L: "L = ext_live x Ls"
    using inv by (auto simp: ext_inv_def)
  have f: "fleet tg K T (ext_index x pend) (ext_seg x pend) Ls m" using p by (simp add: ext_parts_def)
  have "seg_inv tg K T (ext_seg x pend i) m' (Ls i)" if i: "i \<in> ext_index x pend" for i
  proof -
    let ?o = "seg_own (ext_seg x pend i)"
    have "same_on (- footprint (Ls i)) m (\<lambda>a. if a \<in> ?o then m' a else m a)"
      using same ext_parts_live(2) [OF p i] unfolding L by (auto simp: same_on_def)
    from seg_facts(3) [OF seg_facts(4) [OF fleetD(1) [OF f i] this], of m']
    show ?thesis by (simp add: same_on_def)
  qed
  then have "ext_parts tg K mapped T x pend m' Ls"
    using p unfolding ext_parts_def fleet_def by blast
  then show ?thesis using L by (auto simp: ext_inv_def)
qed

lemma ext_usable:
  assumes inv: "ext_inv tg K mapped T pend x m L" and mem: "(a, lay, n) \<in> L"
    and us: "ext_usable_size tg K x a lay = Some k"
  shows "lay_size lay \<le> k \<and> k \<le> n"
proof -
  obtain Ls where p: "ext_parts tg K mapped T x pend m Ls" and L: "L = ext_live x Ls"
    using inv by (auto simp: ext_inv_def)
  obtain i where i: "i < length (ex_segments x)" "(a, lay, n) \<in> Ls (Inl i)"
    "seg_route tg K (ex_segments x) a = Some i"
    using p mem unfolding L by (rule ext_route)
  have f: "fleet tg K T (ext_index x pend) (ext_seg x pend) Ls m" using p by (simp add: ext_parts_def)
  have si: "freelist_protection (fst (ex_segments x ! i))" "slab_inv True (mmap_inv tg) (mmap_range tg K)
      (fst (ex_segments x ! i)) T (snd (ex_segments x ! i)) m (Ls (Inl i))"
    using fleetD(1) [OF f ext_index_Inl [OF i(1)]] by (auto simp: ext_seg_def seg_inv_def)
  have "slab_usable_size (snd (ex_segments x ! i)) a lay = Some k"
    using us i(3) by (simp add: ext_usable_size_def)
  then show ?thesis
    by (rule allocator_core.usable_size [OF ranged_contract.slab_core [OF mmap_ranged si(1)] si(2) i(2)])
qed

context mapping_kernel
begin

lemma ext_allocate_post:
  assumes F: "factory_ok mapped F" and T: "type_ok T"
    and inv: "ext_inv tg K mapped T (\<lambda>_. None) x m L" and lay: "valid_layout lay"
  shows "alloc_post (ext_inv tg K mapped T (\<lambda>_. None)) L lay m (ext_allocate tg K F T lay (x, m))"
proof -
  obtain r1 x1 m1 where ph1: "ext_phase1 tg K T lay (x, m) = (r1, x1, m1)"
    by (cases "ext_phase1 tg K T lay (x, m)") auto
  note a = ext_phase1_post [OF inv lay ph1]
  show ?thesis
  proof (cases r1)
    case (Some b)
    then show ?thesis
      using a(1) ph1 by (auto simp: ext_allocate_def alloc_post_def ext_serves_def split: prod.splits)
  next
    case None
    have i1: "ext_inv tg K mapped T (\<lambda>_. None) x1 m L" using a(1,2) None by (simp add: ext_serves_def)
    obtain r2 e2 m2 where bd: "ext_build_segment tg K F T (ex_segment_capacity x1) (ex_env x1, m) = (r2, e2, m2)"
      by (cases "ext_build_segment tg K F T (ex_segment_capacity x1) (ex_env x1, m)") auto
    have "built_post tg K mapped T (ex_segment_capacity x1) (mapped (en_kernel (ex_env x1))) m (r2, e2, m2)"
      using ext_build_segment_post [OF F T] bd by metis
    note b = ext_built(1) [OF i1 this refl] ext_built(2) [OF i1 this, of 0, OF refl]
    show ?thesis
    proof (cases r2)
      case (Inl err)
      then show ?thesis
        using ph1 None a(2) bd b by (simp add: ext_allocate_def alloc_post_def)
    next
      case (Inr seg)
      let ?x = "x1\<lparr>ex_env := e2\<rparr>"
      obtain r3 x3 m3 where ph3: "ext_phase3 tg K T lay (length (ex_segments x1)) seg (?x, m2) = (r3, x3, m3)"
        by (cases "ext_phase3 tg K T lay (length (ex_segments x1)) seg (?x, m2)") auto
      have i2: "ext_inv tg K mapped T ((\<lambda>_. None)(0 \<mapsto> seg)) ?x m2 L" using b(2) Inr by simp
      have "ext_serves_res tg K mapped T (((\<lambda>_. None)(0 \<mapsto> seg))(0 := None)) lay L m2 r3 x3 m3"
        by (rule ext_phase3_post [OF i2 lay _ ph3]) simp
      moreover have "((\<lambda>_. None)(0 \<mapsto> seg))(0 := None) = (\<lambda>_. None)" by (simp add: fun_eq_iff)
      ultimately show ?thesis
        using ph1 None a(2) bd Inr ph3 b(1)
        by (auto simp: ext_allocate_def alloc_post_def ext_serves_res_def ext_serves_def intro: same_on_trans
            split: sum.splits)
    qed
  qed
qed

lemma ext_contract:
  assumes F: "factory_ok mapped F" and T: "type_ok T"
  shows "allocator_contract (ext_allocator tg K F T) (ext_inv tg K mapped T (\<lambda>_. None))"
proof (rule allocator_contractI)
  show "allocator_core (al_allocate (ext_allocator tg K F T)) (al_deallocate (ext_allocator tg K F T))
      (al_usable_size (ext_allocator tg K F T)) (ext_inv tg K mapped T (\<lambda>_. None))"
    unfolding ext_allocator_def allocator.simps
    by unfold_locales
      (auto intro: ext_inv_live ext_user_write ext_allocate_post [OF F T] ext_deallocate_post dest: ext_usable)
qed (simp_all add: ext_allocator_def)

text \<open>The empty slab, and one with segments built in advance.\<close>

lemma ext_with_protection_inv: "ext_inv tg K mapped T (\<lambda>_. None) (ext_with_protection cap e) m {}"
  by (auto simp: ext_inv_def ext_parts_def fleet_def ext_index_def ext_live_def ext_with_protection_def
      intro!: exI [of _ "\<lambda>_. {}"])

end

section \<open>Growth succeeds\<close>

text \<open>
  The mapping is exactly what the slab asks for: once the operating system grants it, the slab over
  it is built, and it serves any request that fits a slot.
\<close>

lemma mmap_fresh_allocate:
  assumes inv: "mmap_inv tg b m {}" and cur: "mm_cursor b = 0" and com: "mm_committed b = mm_len b"
    and pg: "unat (page_size K) dvd unat (mm_ptr b)" and lay: "valid_layout lay"
    and fit: "unat (lay_size lay) + (unat (lay_align lay) - 1) \<le> unat (mm_len b)"
  shows "\<exists>p b'. mmap_allocate tg K lay (b, m) = (Inr (p, lay_size lay), b', m) \<and> mm_ptr b \<le> p \<and> mm_ptr b' = mm_ptr b"
proof -
  have ok: "no_wrap (mm_ptr b) (mm_len b)" using inv by (simp add: mmap_inv_def mmap_ok_def)
  note v = valid_layoutD [OF lay]
  have p2: "0 < unat (lay_align lay)" using is_pow2_pos [OF v(3)] .
  have room: "unat (mm_ptr b) + (unat (lay_align lay) - 1) + unat (lay_size lay) \<le> unat (mm_ptr b) + unat (mm_len b)"
    using fit by simp
  define q where "q = (unat (mm_ptr b) + (unat (lay_align lay) - 1)) div unat (lay_align lay) * unat (lay_align lay)"
  have q: "unat (lay_align lay) dvd q" "unat (mm_ptr b) \<le> q" "q \<le> unat (mm_ptr b) + (unat (lay_align lay) - 1)"
  proof -
    let ?a = "unat (lay_align lay)" and ?x = "unat (mm_ptr b) + (unat (lay_align lay) - 1)"
    have "q + ?x mod ?a = ?x" unfolding q_def by (rule div_mult_mod_eq)
    moreover have "?x mod ?a < ?a" using p2 by simp
    ultimately show "unat (mm_ptr b) \<le> q" "q \<le> ?x" by linarith+
    show "?a dvd q" unfolding q_def by simp
  qed
  have small: "unat (mm_ptr b) + unat (0 :: usize) + (unat (lay_align lay) - 1) < 2 ^ 64"
  proof -
    have "0 < unat (lay_size lay)" using valid_layoutD(2) [OF lay] by (simp add: unat_gt_0)
    then show ?thesis using room ok p2 unfolding no_wrap_def unat_0 by linarith
  qed
  obtain off fin where c: "bump_carve (mm_ptr b) (mm_len b) 0 (lay_align lay) (lay_size lay) = Inr (off, fin)"
  proof -
    have "unat (mm_ptr b) + unat (0 :: usize) \<le> q" "q + unat (lay_size lay) \<le> unat (mm_ptr b) + unat (mm_len b)"
      using q(2,3) room by simp_all
    from bump_carve_complete [OF ok v(3) small q(1) this] that show thesis by blast
  qed
  note d = bump_carve_Inr [OF c v(3)]
  have sum: "checked_add off (lay_size lay) = Some (off + lay_size lay)" "off + lay_size lay = fin"
    using d(3,4) unat_64_less [of "mm_len b"] by (auto simp: checked_add_def word_unat_eq_iff unat_plus_if')
  obtain r b1 where cm: "os_commit tg K b off (lay_size lay) = (r, b1)" by force
  have "r = Inr () \<and> b1 = b"
  proof (cases "tg = Windows")
    case True
    have "unat (page_size K) \<le> unat (mm_ptr b)"
      using pg inv by (intro dvd_imp_le) (auto simp: mmap_inv_def mmap_ok_def unat_gt_0)
    then have "unat fin + (unat (page_size K) - 1) < 2 ^ 64"
      using d(4) ok is_pow2_pos [OF page_size_pow2, of K] unfolding no_wrap_def by linarith
    then have "checked_add fin (page_size K - 1) \<noteq> None"
      by (simp add: checked_add_def unat_minus_one_pow2 [OF page_size_pow2])
    then obtain v where "align_up_checked fin (page_size K) = Some v"
      by (auto simp: align_up_checked_def)
    then show ?thesis
      using cm True com sum by (simp add: os_commit_def Let_def)
  next
    case False
    then show ?thesis using cm by (simp add: os_commit_def)
  qed
  then show ?thesis using c cur cm d(1) by (auto simp: mmap_allocate_def word_le_nat_alt)
qed

lemma ext_build_segment_fresh:
  assumes "ext_build_segment tg K F T cap st = (Inr seg, st')"
  shows "sl_free_head (snd seg) = 0" "sl_next_uncarved (snd seg) = 0"
    "slab_stride T = Some (sl_block_stride (snd seg))" "sl_capacity (snd seg) \<noteq> 0"
proof -
  obtain s b m b' m' where s: "snd seg = s"
    and sw: "slab_with_protection (mmap_allocator tg K) (mmap_range tg K) T cap (b, m) = (Inr s, b', m')"
    using assms by (auto simp: ext_build_segment_def split: option.splits sum.splits prod.splits)
  have "sl_free_head s = 0 \<and> sl_next_uncarved s = 0 \<and> slab_stride T = Some (sl_block_stride s) \<and>
      sl_capacity s = ucast cap \<and> cap \<noteq> 0 \<and> cap \<le> ucast (- 1 :: u32)"
    using sw by (auto simp: slab_with_protection_def Let_def split: if_splits option.splits sum.splits prod.splits)
  then show "sl_free_head (snd seg) = 0" "sl_next_uncarved (snd seg) = 0"
    "slab_stride T = Some (sl_block_stride (snd seg))" "sl_capacity (snd seg) \<noteq> 0"
    using unat_ucast_capacity [of cap] by (auto simp: s word_unat_eq_iff)
qed

lemma fresh_slab_serves:
  assumes "sl_free_head s = 0" "sl_next_uncarved s = 0" "sl_capacity s \<noteq> 0"
    "lay_align lay \<le> slot_align T" "lay_size lay \<le> sl_block_stride s"
  shows "\<exists>b s'. slab_allocate R P T lay (s, m) = (Inr b, s', m)"
  using assms by (auto simp: slab_allocate_def slab_carve_def Let_def not_less)

lemma ext_allocate_refuses:
  assumes inv: "ext_inv tg K mapped T pend x m L" and lay: "valid_layout lay"
    and fit: "lay_align lay \<le> slot_align T" "slab_stride T = Some stride" "lay_size lay \<le> stride"
    and al: "ext_allocate tg K F T lay (x, m) = (Inl err, x', m')"
  shows "ext_build_segment tg K F T (ex_segment_capacity x) (ex_env x, m) = (Inl err, ex_env x', m')"
proof -
  obtain r1 x1 m1 where ph1: "ext_phase1 tg K T lay (x, m) = (r1, x1, m1)"
    by (cases "ext_phase1 tg K T lay (x, m)") auto
  note a = ext_phase1_post(2-4) [OF inv lay ph1]
  obtain r2 e2 m2 where bd: "ext_build_segment tg K F T (ex_segment_capacity x) (ex_env x, m) = (r2, e2, m2)"
    by (cases "ext_build_segment tg K F T (ex_segment_capacity x) (ex_env x, m)") auto
  show ?thesis
  proof (cases r2)
    case (Inl e)
    then show ?thesis using al ph1 a bd by (auto simp: ext_allocate_def split: option.splits)
  next
    case (Inr seg)
    note fr = ext_build_segment_fresh [OF bd [unfolded Inr]]
    have serves: "\<exists>b s'. slab_allocate (mmap_range tg K) (fst seg) T lay (snd seg, m3) = (Inr b, s', m3)" for m3
      using fresh_slab_serves [OF fr(1,2,4) fit(1)] fit(2,3) fr(3) by simp
    have "fst (ext_phase3 tg K T lay len seg (x3, m3)) \<noteq> Inl err" for len x3 m3
    proof -
      obtain r4 segs m4 where "(if length (ex_segments x3) > len
          then seg_try tg K T lay [len..<length (ex_segments x3)] (ex_segments x3, m3)
          else (None, ex_segments x3, m3)) = (r4, segs, m4)" by (rule prod_cases3)
      then show ?thesis
        using serves [of m4] unfolding ext_phase3_def ext_place_def Let_def
        by (auto split: option.splits prod.splits)
    qed
    then show ?thesis
      using al ph1 a bd Inr by (auto simp: ext_allocate_def split: option.splits) (metis fst_conv)
  qed
qed

context mapping_kernel
begin

lemma ext_build_segment_succeeds:
  assumes T: "type_ok T" "ty_size T \<noteq> 0" and cap: "cap \<noteq> 0" "cap \<le> ucast (- 1 :: u32)"
    and st: "slab_stride T = Some stride" "checked_mul stride cap = Some tot"
    and lay: "from_size_align tot (slot_align T) = Inr bl"
    and ws: "checked_add tot (slot_align T - 1) = Some ws"
    and mp: "mmap_new tg K ws (e, m) = (Inr b, e1, m1)"
  shows "\<exists>seg st'. ext_build_segment tg K F T cap (e, m) = (Inr seg, st')"
proof -
  note n = mmap_with_flags_ok [OF mp [unfolded mmap_new_def]]
  have v: "valid_layout bl" "lay_size bl = tot" "lay_align bl = slot_align T"
    using lay by (auto simp: from_size_align_Inr)
  have "unat (slot_align T - 1) = unat (slot_align T) - 1"
    using unat_minus_one_pow2 [OF valid_layoutD(3) [OF v(1)]] v(3) by simp
  then have fit: "unat (lay_size bl) + (unat (lay_align bl) - 1) \<le> unat (mm_len b)"
    using n(2) checked_add_unat [OF ws] v by simp
  have "mm_cursor b = 0"
    using mp by (auto simp: mmap_new_def mmap_with_flags_def Let_def split: if_splits option.splits sum.splits prod.splits)
  moreover have "mm_committed b = mm_len b" using n(10) by (simp add: MMAP_FLAGS_NONE_def)
  ultimately obtain p b' where al: "mmap_allocate tg K bl (b, m1) = (Inr (p, lay_size bl), b', m1)"
    "mm_ptr b \<le> p" "mm_ptr b' = mm_ptr b"
    using mmap_fresh_allocate [OF n(1) _ _ n(5) v(1) fit] by blast
  then have "checked_sub p (mm_ptr b') \<noteq> None" by (simp add: checked_sub_def)
  then have "\<exists>s. slab_with_protection (mmap_allocator tg K) (mmap_range tg K) T cap (b, m1) = (Inr s, b', m1)"
    using T(2) cap st lay al by (auto simp: slab_with_protection_def mmap_allocator_def mmap_range_def Let_def)
  then show ?thesis
    using st ws mp by (auto simp: ext_build_segment_def split: prod.splits)
qed

end

end
