(* ===== verification/Extendable_Threads.thy ===== *)
theory Extendable_Threads
  imports Extendable_Growth
begin

text \<open>
  Several threads on one \<open>ExtendableSlab\<close>. The mutex makes each critical section one step; between
  the first and the third phase of \<open>allocate\<close> a thread builds its segment while the others go on, and
  a segment that the third phase did not need is dropped after the lock is released.
  \<open>ew_live\<close> collects the blocks handed out and not yet freed. The error slot of the environment is
  one for the whole run, where the code has one per thread; no step reads it.
\<close>

datatype 'k ext_thread =
    At_Rest | Building layout nat | Built layout nat "'k segment" | Dropping "'k segment"

record 'k ext_world =
  ew_slab :: "'k extendable"
  ew_mem :: mem
  ew_thread :: "nat \<Rightarrow> 'k ext_thread"
  ew_live :: live

datatype ext_event =
    Found nat layout block | All_Full nat | Mapped nat | Denied nat layout
  | Placed nat layout block | Unplaced nat layout | Dropped nat | Freed nat addr layout | Written nat

definition ew_pending :: "'k ext_world \<Rightarrow> 'k pending" where
  "ew_pending w t = (case ew_thread w t of Built lay n seg \<Rightarrow> Some seg | Dropping seg \<Rightarrow> Some seg | _ \<Rightarrow> None)"

text \<open>Where a thread is after its second critical section.\<close>

definition after_place :: "'k segment option \<Rightarrow> 'k ext_thread" where
  "after_place left = (case left of None \<Rightarrow> At_Rest | Some seg \<Rightarrow> Dropping seg)"

definition ew_set ::
  "'k ext_world \<Rightarrow> nat \<Rightarrow> 'k ext_thread \<Rightarrow> 'k extendable \<Rightarrow> mem \<Rightarrow> live \<Rightarrow> 'k ext_world" where
  "ew_set w t th x m L = \<lparr>ew_slab = x, ew_mem = m, ew_thread = (ew_thread w)(t := th), ew_live = L\<rparr>"

inductive ext_step ::
  "target \<Rightarrow> 'k kernel \<Rightarrow> ('k env \<Rightarrow> protection \<times> 'k env) \<Rightarrow> type_layout \<Rightarrow>
     'k ext_world \<Rightarrow> ext_event \<Rightarrow> 'k ext_world \<Rightarrow> bool" for tg K F T where
  found: "ew_thread w t = At_Rest \<Longrightarrow> valid_layout lay \<Longrightarrow>
    ext_phase1 tg K T lay (ew_slab w, ew_mem w) = (Some (p, n), x, m) \<Longrightarrow>
    ext_step tg K F T w (Found t lay (p, n)) (ew_set w t At_Rest x m (insert (p, lay, n) (ew_live w)))"
| all_full: "ew_thread w t = At_Rest \<Longrightarrow> valid_layout lay \<Longrightarrow>
    ext_phase1 tg K T lay (ew_slab w, ew_mem w) = (None, x, m) \<Longrightarrow>
    ext_step tg K F T w (All_Full t) (ew_set w t (Building lay (length (ex_segments x))) x m (ew_live w))"
| mapped: "ew_thread w t = Building lay n \<Longrightarrow>
    ext_build_segment tg K F T (ex_segment_capacity (ew_slab w)) (ex_env (ew_slab w), ew_mem w) = (Inr seg, e, m) \<Longrightarrow>
    ext_step tg K F T w (Mapped t) (ew_set w t (Built lay n seg) ((ew_slab w)\<lparr>ex_env := e\<rparr>) m (ew_live w))"
| denied: "ew_thread w t = Building lay n \<Longrightarrow>
    ext_build_segment tg K F T (ex_segment_capacity (ew_slab w)) (ex_env (ew_slab w), ew_mem w) = (Inl err, e, m) \<Longrightarrow>
    ext_step tg K F T w (Denied t lay) (ew_set w t At_Rest ((ew_slab w)\<lparr>ex_env := e\<rparr>) m (ew_live w))"
| placed: "ew_thread w t = Built lay n seg \<Longrightarrow>
    ext_place tg K T lay n seg (ew_slab w, ew_mem w) = (Inr (p, k), left, x, m) \<Longrightarrow>
    ext_step tg K F T w (Placed t lay (p, k)) (ew_set w t (after_place left) x m (insert (p, lay, k) (ew_live w)))"
| unplaced: "ew_thread w t = Built lay n seg \<Longrightarrow>
    ext_place tg K T lay n seg (ew_slab w, ew_mem w) = (Inl err, left, x, m) \<Longrightarrow>
    ext_step tg K F T w (Unplaced t lay) (ew_set w t (after_place left) x m (ew_live w))"
| dropped: "ew_thread w t = Dropping seg \<Longrightarrow>
    ext_drop_left K (Some seg) (ew_slab w, ew_mem w) = (x, m) \<Longrightarrow>
    ext_step tg K F T w (Dropped t) (ew_set w t At_Rest x m (ew_live w))"
| freed: "ew_thread w t = At_Rest \<Longrightarrow> (p, lay, n) \<in> ew_live w \<Longrightarrow>
    ext_deallocate tg K p lay (ew_slab w, ew_mem w) = Done (x, m) \<Longrightarrow>
    ext_step tg K F T w (Freed t p lay) (ew_set w t At_Rest x m (ew_live w - {(p, lay, n)}))"
| written: "ew_thread w t = At_Rest \<Longrightarrow> same_on (- footprint (ew_live w)) (ew_mem w) m \<Longrightarrow>
    ext_step tg K F T w (Written t) (ew_set w t At_Rest (ew_slab w) m (ew_live w))"

inductive ext_run ::
  "target \<Rightarrow> 'k kernel \<Rightarrow> ('k env \<Rightarrow> protection \<times> 'k env) \<Rightarrow> type_layout \<Rightarrow>
     'k ext_world \<Rightarrow> ext_event list \<Rightarrow> 'k ext_world \<Rightarrow> bool" for tg K F T where
  ext_nil: "ext_run tg K F T w [] w"
| ext_snoc: "ext_run tg K F T w evs w' \<Longrightarrow> ext_step tg K F T w' ev w'' \<Longrightarrow>
    ext_run tg K F T w (evs @ [ev]) w''"

definition ew_start :: "'k extendable \<Rightarrow> mem \<Rightarrow> 'k ext_world" where
  "ew_start x m = \<lparr>ew_slab = x, ew_mem = m, ew_thread = (\<lambda>t. At_Rest), ew_live = {}\<rparr>"

text \<open>Segments are installed only together with a block out of them.\<close>

definition placements :: "ext_event list \<Rightarrow> nat" where
  "placements evs = length (filter (\<lambda>ev. case ev of Placed t lay b \<Rightarrow> True | _ \<Rightarrow> False) evs)"

fun thread_ok :: "'k ext_thread \<Rightarrow> bool" where
  "thread_ok (Building lay n) \<longleftrightarrow> valid_layout lay"
| "thread_ok (Built lay n seg) \<longleftrightarrow> valid_layout lay"
| "thread_ok th \<longleftrightarrow> True"

definition ew_inv ::
  "target \<Rightarrow> 'k kernel \<Rightarrow> ('k \<Rightarrow> addr set) \<Rightarrow> type_layout \<Rightarrow> 'k ext_world \<Rightarrow> bool" where
  "ew_inv tg K mapped T w \<longleftrightarrow>
     ext_inv tg K mapped T (ew_pending w) (ew_slab w) (ew_mem w) (ew_live w) \<and>
     (\<forall>t. thread_ok (ew_thread w t))"

lemma ew_pending_set:
  "ew_pending (ew_set w t th x m L) =
     (ew_pending w)(t := case th of Built lay n seg \<Rightarrow> Some seg | Dropping seg \<Rightarrow> Some seg | _ \<Rightarrow> None)"
  by (simp add: fun_eq_iff ew_pending_def ew_set_def)

lemma ew_pending_same: "ew_pending w t = None \<Longrightarrow> (ew_pending w)(t := None) = ew_pending w"
  by (simp add: fun_eq_iff)

lemma ew_set_simps [simp]:
  "ew_slab (ew_set w t th x m L) = x" "ew_mem (ew_set w t th x m L) = m"
  "ew_thread (ew_set w t th x m L) = (ew_thread w)(t := th)" "ew_live (ew_set w t th x m L) = L"
  by (simp_all add: ew_set_def)

lemma ew_inv_set:
  assumes "ew_inv tg K mapped T w"
    and "ext_inv tg K mapped T
      ((ew_pending w)(t := case th of Built lay n seg \<Rightarrow> Some seg | Dropping seg \<Rightarrow> Some seg | _ \<Rightarrow> None)) x m L"
    and "thread_ok th"
  shows "ew_inv tg K mapped T (ew_set w t th x m L)"
  using assms by (auto simp: ew_inv_def ew_pending_set)

lemma seg_try_length: "seg_try tg K T lay is (segs, m) = (r, segs', m') \<Longrightarrow> length segs' = length segs"
proof (induction "is" arbitrary: segs m)
  case (Cons i "is")
  then show ?case by (fastforce split: prod.splits sum.splits)
qed auto

lemma after_place_simps [simp]:
  "thread_ok (after_place left)"
  "(case after_place left of Built lay n seg \<Rightarrow> Some seg | Dropping seg \<Rightarrow> Some seg | _ \<Rightarrow> None) = left"
  by (simp_all add: after_place_def split: option.split)

lemma ext_place_length:
  assumes "ext_place tg K T lay n seg (x, m) = (r, left, x', m')"
  shows "length (ex_segments x') \<le> length (ex_segments x) + (case r of Inl e \<Rightarrow> 0 | Inr b \<Rightarrow> 1)"
proof -
  let ?s = "if length (ex_segments x) > n then seg_try tg K T lay [n..<length (ex_segments x)] (ex_segments x, m)
    else (None, ex_segments x, m)"
  obtain r1 segs m1 where s: "?s = (r1, segs, m1)" by (rule prod_cases3)
  have len: "length segs = length (ex_segments x)"
    using s seg_try_length [of tg K T lay "[n..<length (ex_segments x)]" "ex_segments x" m r1 segs m1]
    by (auto split: if_splits)
  note ph = assms [unfolded ext_place_def prod.case Let_def s]
  show ?thesis
    using ph len by (auto split: option.splits prod.splits sum.splits)
qed

lemma ext_deallocate_length:
  "ext_deallocate tg K p lay (x, m) = Done (x', m') \<Longrightarrow> length (ex_segments x') = length (ex_segments x)"
  by (auto simp: ext_deallocate_def split: option.splits prod.splits outcome.splits)

context mapping_kernel
begin

text \<open>
  Every step keeps the invariant and, unless a caller writes, the contents of every block that stays
  live.
\<close>

lemma ext_step_inv:
  assumes F: "factory_ok mapped F" and T: "type_ok T"
    and st: "ext_step tg K F T w ev w'" and inv: "ew_inv tg K mapped T w"
  shows "ew_inv tg K mapped T w' \<and>
    ((\<forall>t. ev \<noteq> Written t) \<longrightarrow> same_on (footprint (ew_live w \<inter> ew_live w')) (ew_mem w) (ew_mem w')) \<and>
    length (ex_segments (ew_slab w')) \<le> length (ex_segments (ew_slab w)) + placements [ev]"
proof -
  have i: "ext_inv tg K mapped T (ew_pending w) (ew_slab w) (ew_mem w) (ew_live w)"
    using inv by (simp add: ew_inv_def)
  have th: "thread_ok (ew_thread w t)" for t
    using inv by (simp add: ew_inv_def)
  have m: "same_on (footprint (A \<inter> B)) m0 m1" if "same_on (footprint A) m0 m1" for A B :: live and m0 m1
    by (rule same_on_mono [OF that]) (auto intro!: footprint_mono)
  have m2: "same_on (footprint (A \<inter> B)) m0 m1" if "same_on (footprint B) m0 m1" for A B :: live and m0 m1
    by (rule same_on_mono [OF that]) (auto intro!: footprint_mono)
  from st show ?thesis
  proof cases
    case (found t lay p n x m1)
    have pn: "ew_pending w t = None" using found(3) by (simp add: ew_pending_def)
    note a = ext_phase1_post [OF i found(4,5)]
    have "ew_inv tg K mapped T w'"
      unfolding found(2) by (rule ew_inv_set [OF inv]) (use a(1) ew_pending_same [OF pn] in \<open>simp_all add: ext_serves_def\<close>)
    then show ?thesis using a found by (simp add: placements_def)
  next
    case (all_full t lay x m1)
    have pn: "ew_pending w t = None" using all_full(3) by (simp add: ew_pending_def)
    note a = ext_phase1_post [OF i all_full(4,5)]
    have "ew_inv tg K mapped T w'"
      unfolding all_full(2)
      by (rule ew_inv_set [OF inv]) (use a(1) all_full(4) ew_pending_same [OF pn] in \<open>simp_all add: ext_serves_def\<close>)
    then show ?thesis using a all_full by (simp add: placements_def)
  next
    case (mapped t lay n seg e m1)
    have pn: "ew_pending w t = None" using mapped(3) by (simp add: ew_pending_def)
    have bp: "built_post tg K mapped T (ex_segment_capacity (ew_slab w)) (mapped (en_kernel (ex_env (ew_slab w))))
        (ew_mem w) (Inr seg, e, m1)"
      using ext_build_segment_post [OF F T] mapped(4) by metis
    note b = ext_built [OF i bp pn]
    have "ew_inv tg K mapped T w'"
      unfolding mapped(2) by (rule ew_inv_set [OF inv]) (use b(2) th [of t] mapped(3) in simp_all)
    then show ?thesis using b(1) mapped m by simp
  next
    case (denied t lay n err e m1)
    have pn: "ew_pending w t = None" using denied(3) by (simp add: ew_pending_def)
    have bp: "built_post tg K mapped T (ex_segment_capacity (ew_slab w)) (mapped (en_kernel (ex_env (ew_slab w))))
        (ew_mem w) (Inl err, e, m1)"
      using ext_build_segment_post [OF F T] denied(4) by metis
    note b = ext_built [OF i bp pn]
    have "ew_inv tg K mapped T w'"
      unfolding denied(2) by (rule ew_inv_set [OF inv]) (use b(2) ew_pending_same [OF pn] in simp_all)
    then show ?thesis using b(1) denied m by simp
  next
    case (placed t lay n seg p k left x m1)
    have pn: "ew_pending w t = Some seg" and v: "valid_layout lay"
      using placed(3) th [of t] by (simp_all add: ew_pending_def)
    note c = ext_place_post [OF i v pn placed(4)]
    have "ew_inv tg K mapped T w'"
      unfolding placed(2) by (rule ew_inv_set [OF inv]) (use c in \<open>simp_all add: ext_serves_res_def ext_serves_def\<close>)
    then show ?thesis
      using c placed m ext_place_length [OF placed(4)]
      by (simp add: placements_def ext_serves_res_def ext_serves_def)
  next
    case (unplaced t lay n seg err left x m1)
    have pn: "ew_pending w t = Some seg" and v: "valid_layout lay"
      using unplaced(3) th [of t] by (simp_all add: ew_pending_def)
    note c = ext_place_post [OF i v pn unplaced(4)]
    have "ew_inv tg K mapped T w'"
      unfolding unplaced(2) by (rule ew_inv_set [OF inv]) (use c in \<open>simp_all add: ext_serves_res_def ext_serves_def\<close>)
    then show ?thesis
      using c unplaced m ext_place_length [OF unplaced(4)]
      by (simp add: placements_def ext_serves_res_def ext_serves_def)
  next
    case (dropped t seg x m1)
    have pn: "ew_pending w t = Some seg" using dropped(3) by (simp add: ew_pending_def)
    note c = ext_drop_left_post [OF i pn dropped(4)]
    have "ew_inv tg K mapped T w'"
      unfolding dropped(2) by (rule ew_inv_set [OF inv]) (use c in simp_all)
    then show ?thesis using c dropped m by (simp add: placements_def)
  next
    case (freed t p lay n x m1)
    have pn: "ew_pending w t = None" using freed(3) by (simp add: ew_pending_def)
    note d = ext_deallocate_post [OF i freed(4), unfolded freed(5)]
    have "ew_inv tg K mapped T w'"
      unfolding freed(2) by (rule ew_inv_set [OF inv]) (use d ew_pending_same [OF pn] in \<open>simp_all add: dealloc_post_def\<close>)
    then show ?thesis
      using d freed m2 ext_deallocate_length [OF freed(5)] by (simp add: dealloc_post_def)
  next
    case (written t m1)
    have pn: "ew_pending w t = None" using written(3) by (simp add: ew_pending_def)
    have "ew_inv tg K mapped T w'"
      unfolding written(2)
      by (rule ew_inv_set [OF inv]) (use ext_user_write [OF i written(4)] ew_pending_same [OF pn] in simp_all)
    then show ?thesis using written by simp
  qed
qed

lemma placements_append: "placements (xs @ ys) = placements xs + placements ys"
  by (simp add: placements_def)

lemma ew_start_inv: "ew_inv tg K mapped T (ew_start (ext_with_protection cap e) m)"
proof -
  have "ew_pending (ew_start (ext_with_protection cap e) m) = (\<lambda>_. None)"
    by (simp add: fun_eq_iff ew_pending_def ew_start_def)
  then show ?thesis using ext_with_protection_inv by (simp add: ew_inv_def) (simp add: ew_start_def)
qed

lemma ext_run_inv:
  assumes "ext_run tg K F T w evs w'" "factory_ok mapped F" "type_ok T" "ew_inv tg K mapped T w"
  shows "ew_inv tg K mapped T w' \<and>
    length (ex_segments (ew_slab w')) \<le> length (ex_segments (ew_slab w)) + placements evs"
  using assms
proof (induction rule: ext_run.induct)
  case (ext_snoc w evs w' ev w'')
  then show ?case
    using ext_step_inv [OF ext_snoc.prems(1,2) ext_snoc.hyps(2)] by (auto simp: placements_append)
qed (simp add: placements_def)

end

end
