(* ===== verification/Mapping_Properties.thy ===== *)
theory Mapping_Properties
  imports Examples Extendable_Threads
begin

text \<open>
  Properties of the allocators over operating-system mappings: \<open>MmapBacked\<close>, and \<open>ExtendableSlab\<close> on
  top of it, alone and under threads. The examples run on a small kernel of their own: mappings are
  handed out upwards from address 4096, and only the newest can be unmapped.
\<close>

section \<open>A kernel\<close>

definition demo_kernel :: "addr kernel" where
  "demo_kernel = \<lparr>k_page_size = 4096,
     k_map = (\<lambda>len pop resv (k, m).
       if 4096 \<le> k \<and> unat (4096 :: addr) dvd unat k \<and> unat k + unat len \<le> 2 ^ 47
       then (Some k, k + len, write_bytes m k 0 len) else (None, k, m)),
     k_unmap = (\<lambda>p len (k, m).
       if 4096 \<le> p \<and> p + len = k \<and> p \<le> k then (True, p, m) else (False, k, m)),
     k_commit = (\<lambda>p len k. (True, k)),
     k_release = (\<lambda>p len (k, m). (True, k, m)),
     k_protect = (\<lambda>p len prot k. (True, k)),
     k_error = (\<lambda>k. 12)\<rparr>"

definition demo_mapped :: "addr \<Rightarrow> addr set" where
  "demo_mapped k = {a. 4096 \<le> a \<and> a < k}"

lemma demo_page_size: "page_size demo_kernel = 4096"
  using is_pow2I [of 12 4096] by (simp add: page_size_def demo_kernel_def)

interpretation demo: mapping_kernel demo_kernel demo_mapped
proof
  fix len pop resv k m p k' m'
  assume a: "k_map demo_kernel len pop resv (k, m) = (Some p, k', m')"
  then have k: "4096 \<le> k" "unat (4096 :: addr) dvd unat k" "unat k + unat len \<le> 2 ^ 47" "p = k"
    "k' = k + len" "m' = write_bytes m k 0 len"
    by (auto simp: demo_kernel_def split: if_splits)
  have nw: "no_wrap k len" using k(3) by (simp add: no_wrap_def)
  have s: "a \<in> span k len \<longleftrightarrow> k \<le> a \<and> a < k + len" for a
    using in_span_iff [OF nw, of a] k(3) by (auto simp: word_le_nat_alt word_less_nat_alt unat_plus_if')
  have "k \<le> k + len" using k(3) by (auto simp: word_le_nat_alt unat_plus_if')
  then have "demo_mapped k' = demo_mapped k \<union> span k len"
    unfolding demo_mapped_def k(5) set_eq_iff Un_iff mem_Collect_eq s using k(1) by auto
  moreover have "span k len \<inter> demo_mapped k = {}" by (auto simp: demo_mapped_def s)
  moreover have "same_on (- span k len) m m'"
    using write_bytes_other [of _ k len m 0] by (simp add: same_on_def k(6))
  moreover have "\<forall>a \<in> span k len. m' a = 0" by (simp add: k(6) write_bytes_in)
  moreover have "k \<noteq> 0" using k(1) by auto
  ultimately show "p \<noteq> 0 \<and> no_wrap p len \<and> unat (page_size demo_kernel) dvd unat p \<and>
      span p len \<inter> demo_mapped k = {} \<and> demo_mapped k' = demo_mapped k \<union> span p len \<and>
      same_on (- span p len) m m' \<and> (\<forall>a \<in> span p len. m' a = 0)"
    using nw k(2,4) by (simp add: demo_page_size)
next
  fix len pop resv k m k' m'
  assume "k_map demo_kernel len pop resv (k, m) = (None, k', m')"
  then show "demo_mapped k' = demo_mapped k \<and> m' = m" by (auto simp: demo_kernel_def split: if_splits)
next
  fix p len k m ok k' m'
  assume a: "k_unmap demo_kernel p len (k, m) = (ok, k', m')"
  show "demo_mapped k' = (if ok then demo_mapped k - span p len else demo_mapped k) \<and> same_on (- span p len) m m'"
  proof (cases ok)
    case True
    then have k: "4096 \<le> p" "p + len = k" "p \<le> k" "k' = p" "m' = m"
      using a by (auto simp: demo_kernel_def split: if_splits)
    have nw: "no_wrap p len" "unat k = unat p + unat len"
      using k(2,3) unat_64_less [of k] unat_64_less [of len] by (auto simp: no_wrap_def word_le_nat_alt unat_plus_if' split: if_splits)
    have s: "a \<in> span p len \<longleftrightarrow> p \<le> a \<and> a < k" for a
      using in_span_iff [OF nw(1), of a] nw(2) by (auto simp: word_le_nat_alt word_less_nat_alt)
    show ?thesis using True k by (auto simp: demo_mapped_def s)
  next
    case False
    then show ?thesis using a by (auto simp: demo_kernel_def split: if_splits)
  qed
qed

definition demo_env :: "addr env" where
  "demo_env = \<lparr>en_kernel = 4096, en_last_os_error = None\<rparr>"

lemmas map_eval = mmap_new_def mmap_new_lazy_def mmap_with_flags_def os_map_def MMAP_FLAGS_NONE_def
  demo_page_size align_up_checked_def checked_add_def align_down_def Let_def

definition demo_mapping :: "usize \<Rightarrow> addr mmap_backed" where
  "demo_mapping committed = \<lparr>mm_ptr = 4096, mm_len = 4096, mm_cursor = 0, mm_committed = committed,
     mm_env = \<lparr>en_kernel = 8192, en_last_os_error = None\<rparr>\<rparr>"

lemma demo_map:
  "mmap_new tg demo_kernel 100 (demo_env, m) =
     (Inr (demo_mapping 4096), mm_env (demo_mapping 4096), write_bytes m 4096 0 4096)"
  "mmap_new_lazy Windows demo_kernel 100 (demo_env, m) =
     (Inr (demo_mapping 0), mm_env (demo_mapping 0), write_bytes m 4096 0 4096)"
  by (simp_all add: map_eval demo_mapping_def demo_env_def) (simp_all add: demo_kernel_def)

section \<open>MmapBacked\<close>

text \<open>
  C24. On every target, and over every kernel whose mappings are page-aligned, fresh and zero, a
  successful \<open>MmapBacked::with_flags\<close> gives an allocator that meets the contract: it starts with
  nothing live over whole pages that cover the request by less than a page, disjoint from all memory
  in use before, all zero, with no other memory changed. One that fails changes no memory and maps
  nothing, and leaves an error code for \<open>mmap_last_os_error\<close>.
\<close>

theorem mmap_backed_correct:
  assumes "mapping_kernel K mapped" "mmap_with_flags tg K sz flags (e, m) = (r, e', m')"
  shows "allocator_contract (mmap_allocator tg K) (mmap_inv tg) \<and>
    (case r of
       Inl err \<Rightarrow> m' = m \<and> mapped (en_kernel e') = mapped (en_kernel e) \<and> mmap_last_os_error e' \<noteq> None
     | Inr b \<Rightarrow> mmap_inv tg b m' {} \<and>
         unat sz \<le> unat (mm_len b) \<and> unat (mm_len b) < unat sz + unat (page_size K) \<and>
         unat (page_size K) dvd unat (mm_len b) \<and> mmap_own b \<inter> mapped (en_kernel e) = {} \<and>
         mapped (en_kernel e') = mapped (en_kernel e) \<union> mmap_own b \<and>
         same_on (- mmap_own b) m m' \<and> (\<forall>a \<in> mmap_own b. m' a = 0))"
proof (cases r)
  case (Inl err)
  then show ?thesis
    using mmap_contract mapping_kernel.mmap_with_flags_error [OF assms(1) assms(2) [unfolded Inl]] by simp
next
  case (Inr b)
  then show ?thesis
    using mmap_contract mapping_kernel.mmap_with_flags_ok [OF assms(1) assms(2) [unfolded Inr]] by simp
qed

theorem mmap_backed_correct_witness:
  "mmap_inv Linux (demo_mapping 4096) (write_bytes zero_mem 4096 0 4096) {} \<and>
   mmap_last_os_error (demo_env\<lparr>en_last_os_error := Some 87\<rparr>) \<noteq> None"
proof -
  have z: "mmap_with_flags Windows demo_kernel 0 MMAP_FLAGS_NONE (demo_env, zero_mem) =
     (Inl AllocError, demo_env\<lparr>en_last_os_error := Some 87\<rparr>, zero_mem)"
    by (simp add: mmap_with_flags_def capture_synthetic_einval_def)
  show ?thesis
    using mmap_backed_correct [OF demo.mapping_kernel_axioms demo_map(1) [unfolded mmap_new_def], of Linux zero_mem]
      mmap_backed_correct [OF demo.mapping_kernel_axioms z] by simp
qed

text \<open>
  Demand paging is safe: a \<open>BumpArena\<close> over a lazily committed \<open>MmapBacked\<close> on Windows has every
  byte below its cursor, hence every live block, inside the committed prefix, after a request that
  succeeds and after one that fails for want of commit charge.
\<close>

theorem lazy_commit_covers_live:
  assumes "bump_inv (mmap_range Windows K) mmap_ok a m L" "arena_committed a" "valid_layout lay"
    "bump_allocate (mmap_range Windows K) lay (a, m) = (r, a', m')"
  shows "arena_committed a' \<and> mm_ptr (ba_backing a') = mm_ptr (ba_backing a) \<and>
    (\<forall>p n. r = Inr (p, n) \<longrightarrow>
       unat p + unat n \<le> unat (mm_ptr (ba_backing a')) + unat (mm_committed (ba_backing a')))"
proof -
  obtain r1 where re: "bump_reserve (mmap_range Windows K) (lay_align lay) (lay_size lay) a = (r1, a')"
    and r: "r1 = Inr p \<Longrightarrow> r = Inr (p, lay_size lay)" "r1 = Inl e \<Longrightarrow> r = Inl e" for p e
    using assms(4) by (auto simp: bump_allocate_def split: prod.splits sum.splits)
  note c = arena_committed_reserve [OF assms(1-3) re]
  note b = fixed_range_contract.bump_reserve_cases [OF mmap_range_ok assms(1,3) re]
  have "unat p + unat n \<le> unat (mm_ptr (ba_backing a')) + unat (mm_committed (ba_backing a'))"
    if "r = Inr (p, n)" for p n
  proof -
    have "n = lay_size lay" "r1 = Inr p" using that r by (cases r1; fastforce)+
    then have "bump_inv (mmap_range Windows K) mmap_ok a' m (insert (p, lay, n) L)" using b by simp
    then have "unat p + unat n \<le> unat (mm_ptr (ba_backing a')) + unat (ba_cursor a')"
      by (auto simp: bump_inv_def bump_live_def mmap_range_def)
    then show ?thesis using c by (simp add: arena_committed_def word_le_nat_alt)
  qed
  moreover have "mm_ptr (ba_backing a') = mm_ptr (ba_backing a)" using b by (simp add: mmap_range_def)
  ultimately show ?thesis using c by blast
qed

definition demo_lazy_arena :: "addr mmap_backed bump_arena" where
  "demo_lazy_arena = \<lparr>ba_backing = demo_mapping 0, ba_capacity = 4096, ba_cursor = 0\<rparr>"

lemma demo_lazy_allocate:
  "bump_allocate (mmap_range Windows demo_kernel) demo_layout (demo_lazy_arena, m) =
     (Inr (4096, 8), demo_lazy_arena\<lparr>ba_backing := demo_mapping 4096, ba_cursor := 8\<rparr>, m)"
  by (simp add: bump_allocate_def bump_defs mmap_range_def demo_lazy_arena_def demo_mapping_def demo_layout_def
      os_commit_def demo_page_size) (simp add: demo_kernel_def)

theorem lazy_commit_covers_live_witness:
  "arena_committed demo_lazy_arena \<and>
   arena_committed (demo_lazy_arena\<lparr>ba_backing := demo_mapping 4096, ba_cursor := 8\<rparr>)"
proof -
  have "bump_inv (mmap_range Windows demo_kernel) mmap_ok demo_lazy_arena zero_mem {}"
    by (simp add: bump_inv_def demo_lazy_arena_def demo_mapping_def mmap_range_def mmap_ok_def no_wrap_def)
  moreover have "arena_committed demo_lazy_arena" by (simp add: arena_committed_def demo_lazy_arena_def)
  ultimately show ?thesis
    using lazy_commit_covers_live [OF _ _ demo_layout_ok demo_lazy_allocate [of zero_mem]] by blast
qed

text \<open>
  \<open>OsBacked::protect\<close> asks the kernel for exactly the access that was requested: on Unix bit for
  bit, on Windows with read added only where write is requested without it.
\<close>

theorem page_protection_exact:
  "unix_grants (unix_prot_from_flags f) = f \<and>
   win32_grants (win32_prot_from_flags f) = f\<lparr>pf_read := pf_read f \<or> pf_write f\<rparr>"
  using unix_prot_exact win32_prot_exact by blast

section \<open>ExtendableSlab\<close>

text \<open>
  C23. An \<open>ExtendableSlab\<close> meets the allocator contract however often it grows, over any kernel that
  keeps its mappings apart and with any factory of sound freelist protections: it starts with nothing
  live, and every operation finds the right segment and keeps all live blocks, across all segments,
  disjoint and unchanged.
\<close>

theorem extendable_slab_correct:
  assumes "mapping_kernel K mapped" "factory_ok mapped F" "type_ok T"
  shows "allocator_contract (ext_allocator tg K F T) (ext_inv tg K mapped T (\<lambda>_. None)) \<and>
    ext_inv tg K mapped T (\<lambda>_. None) (ext_with_protection cap e) m {}"
  using mapping_kernel.ext_contract [OF assms] mapping_kernel.ext_with_protection_inv [OF assms(1)] by blast

lemma demo_factory_ok: "factory_ok demo_mapped no_protection_factory"
  by (simp add: factory_ok_def no_protection_factory_def no_protection.freelist_protection_axioms)

theorem extendable_slab_correct_witness:
  "allocator_contract (ext_allocator Linux demo_kernel no_protection_factory demo_type)
     (ext_inv Linux demo_kernel demo_mapped demo_type (\<lambda>_. None))"
  using extendable_slab_correct [OF demo.mapping_kernel_axioms demo_factory_ok demo_type_ok] by blast

definition env_at :: "addr \<Rightarrow> addr env" where
  "env_at k = \<lparr>en_kernel = k, en_last_os_error = None\<rparr>"

text \<open>Segments of four 16-byte slots, one page each.\<close>

definition demo_segment :: "addr \<Rightarrow> u32 \<Rightarrow> addr segment" where
  "demo_segment base carved = (NoProtection,
     \<lparr>sl_backing = \<lparr>mm_ptr = base, mm_len = 4096, mm_cursor = 64, mm_committed = 4096,
        mm_env = env_at (base + 4096)\<rparr>,
      sl_base_offset = 0, sl_free_head = 0, sl_next_uncarved = carved, sl_block_stride = 16,
      sl_stride_shift = 4, sl_capacity = 4, sl_backing_layout = \<lparr>lay_size = 64, lay_align = 8\<rparr>,
      sl_corruption_events = 0\<rparr>)"

lemma demo_geometry:
  "slot_align demo_type = 8" "ty_size demo_type = 16" "slab_stride demo_type = Some 16"
  "checked_mul 16 4 = Some (64 :: usize)" "checked_add 64 7 = Some (71 :: usize)"
  "from_size_align 64 8 = Inr \<lparr>lay_size = 64, lay_align = 8\<rparr>"
  "\<not> (ucast (- 1 :: u32) :: usize) < 4" "trailing_zeros 16 = 4"
  using trailing_zeros_pow2 [of 4]
  by (simp_all add: slab_stride_def demo_type_def slot_align_def align_up_checked_def checked_add_def
      align_down_def checked_mul_def from_size_align_def nzl_new_eq word_less_nat_alt unat_minus_one_word)

lemma demo_build:
  assumes "base \<in> {4096, 8192}"
  shows "ext_build_segment Linux demo_kernel no_protection_factory demo_type 4 (env_at base, m) =
     (Inr (demo_segment base 0), env_at (base + 4096), write_bytes m base 0 4096)"
proof -
  have mp: "mmap_new Linux demo_kernel 71 (env_at base, m) =
      (Inr \<lparr>mm_ptr = base, mm_len = 4096, mm_cursor = 0, mm_committed = 4096, mm_env = env_at (base + 4096)\<rparr>,
       env_at (base + 4096), write_bytes m base 0 4096)"
    using assms by (auto simp: map_eval env_at_def) (simp_all add: demo_kernel_def)
  have c: "bump_carve base 4096 0 8 64 = Inr (0, 64)"
    using assms by (auto simp: bump_carve_def align_up_checked_def checked_add_def align_down_def)
  show ?thesis
    by (simp add: ext_build_segment_def demo_geometry mp no_protection_factory_def slab_with_protection_def
        mmap_allocator_def mmap_allocate_def c os_commit_def checked_sub_def mmap_range_def demo_segment_def)
qed

text \<open>
  C25. An \<open>ExtendableSlab\<close> refuses a request that fits a slot only when the operating system refuses
  it memory: with a segment capacity the slab accepts and a size within the address space, an error
  of \<open>allocate\<close> is the error of the one mapping it asked for, of exactly the size of a segment.
\<close>

theorem extendable_refuses_only_when_unmappable:
  assumes "mapping_kernel K mapped" "ext_inv tg K mapped T pend x m L" "valid_layout lay" "type_ok T"
    "lay_align lay \<le> slot_align T" "lay_size lay \<le> stride" "slab_stride T = Some stride" "ty_size T \<noteq> 0"
    "ex_segment_capacity x \<noteq> 0" "ex_segment_capacity x \<le> ucast (- 1 :: u32)"
    "checked_mul stride (ex_segment_capacity x) = Some tot" "from_size_align tot (slot_align T) = Inr bl"
    "checked_add tot (slot_align T - 1) = Some ws"
    "ext_allocate tg K F T lay (x, m) = (Inl err, x', m')"
  shows "mmap_new tg K ws (ex_env x, m) = (Inl err, ex_env x', m')"
proof -
  note b = ext_allocate_refuses [OF assms(2,3,5,7,6,14)]
  obtain r e1 m1 where mp: "mmap_new tg K ws (ex_env x, m) = (r, e1, m1)"
    by (cases "mmap_new tg K ws (ex_env x, m)") auto
  show ?thesis
  proof (cases r)
    case (Inl err')
    then show ?thesis using b mp assms(7,11,13) by (simp add: ext_build_segment_def)
  next
    case (Inr bk)
    then show ?thesis
      using mapping_kernel.ext_build_segment_succeeds [OF assms(1,4,8-10,7,11-13) mp [unfolded Inr], of F] b
      by simp
  qed
qed

theorem extendable_refuses_only_when_unmappable_witness:
  "mmap_new Linux demo_kernel 71 (env_at 0, zero_mem) =
     (Inl AllocError, capture_os_error demo_kernel (env_at 0), zero_mem)"
proof -
  let ?x = "ext_with_protection 4 (env_at 0)" and ?e = "capture_os_error demo_kernel (env_at 0)"
  have "mmap_new Linux demo_kernel 71 (env_at 0, zero_mem) = (Inl AllocError, ?e, zero_mem)"
    by (simp add: map_eval env_at_def) (simp add: demo_kernel_def capture_os_error_def)
  then have "ext_allocate Linux demo_kernel no_protection_factory demo_type demo_layout (?x, zero_mem) =
      (Inl AllocError, ?x\<lparr>ex_env := ?e\<rparr>, zero_mem)"
    by (simp add: ext_allocate_def ext_phase1_def ext_build_segment_def demo_geometry Let_def
        ext_with_protection_def)
  from extendable_refuses_only_when_unmappable [OF demo.mapping_kernel_axioms
      demo.ext_with_protection_inv demo_layout_ok demo_type_ok _ _ _ _ _ _ _ _ _ this, of 16 64 "\<lparr>lay_size = 64, lay_align = 8\<rparr>" 71]
  show ?thesis using demo_geometry by (simp add: ext_with_protection_def demo_layout_def)
qed

text \<open>
  C12. However the critical sections of any number of threads interleave on one \<open>ExtendableSlab\<close>, with
  segments built without the lock in between and dropped again when a race makes them redundant, the
  blocks handed out stay valid and disjoint, no step but a caller's own write changes a block that
  stays live, and there are never more segments than allocations that had to grow.
\<close>

theorem extendable_slab_race_free:
  assumes "mapping_kernel K mapped" "factory_ok mapped F" "type_ok T"
    "ext_run tg K F T (ew_start (ext_with_protection cap e) m) evs w" "ext_step tg K F T w ev w'"
  shows "live_ok (ew_live w) \<and> live_ok (ew_live w') \<and>
    ((\<forall>t. ev \<noteq> Written t) \<longrightarrow> same_on (footprint (ew_live w \<inter> ew_live w')) (ew_mem w) (ew_mem w')) \<and>
    length (ex_segments (ew_slab w)) \<le> placements evs"
proof -
  note s = mapping_kernel.ew_start_inv [OF assms(1)]
  note r = mapping_kernel.ext_run_inv [OF assms(1,4,2,3) s]
  note t = mapping_kernel.ext_step_inv [OF assms(1,2,3,5)]
  have "live_ok (ew_live w)" "live_ok (ew_live w')"
    using r t ext_inv_live unfolding ew_inv_def by blast+
  moreover have "length (ex_segments (ew_slab w)) \<le> placements evs"
    using r by (simp add: ew_start_def ext_with_protection_def)
  ultimately show ?thesis using r t by blast
qed

text \<open>Two threads find the empty slab full and both map a segment; the second uses the first one's.\<close>

definition demo_growth :: "ext_event list" where
  "demo_growth = [All_Full 0, All_Full 1, Mapped 0, Mapped 1, Placed 0 demo_layout (4096, 16)]"

definition demo_ext :: "addr \<Rightarrow> addr segment list \<Rightarrow> addr extendable" where
  "demo_ext k segs = \<lparr>ex_env = env_at k, ex_segment_capacity = 4, ex_segments = segs,
     ex_first_open_hint = 0, ex_routing_failures = 0\<rparr>"

lemma demo_ext_steps:
  "ext_phase1 Linux demo_kernel demo_type demo_layout (demo_ext k [], m) = (None, demo_ext k [], m)"
  "ext_place Linux demo_kernel demo_type demo_layout 0 (demo_segment 4096 0) (demo_ext 12288 [], m) =
     (Inr (4096, 16), None, demo_ext 12288 [demo_segment 4096 1], m)"
  "ext_place Linux demo_kernel demo_type demo_layout 0 (demo_segment 8192 0)
     (demo_ext 12288 [demo_segment 4096 1], m) =
     (Inr (4112, 16), Some (demo_segment 8192 0), demo_ext 12288 [demo_segment 4096 2], m)"
  by (simp_all add: ext_phase1_def ext_place_def demo_ext_def Let_def demo_segment_def slab_allocate_def
      slab_carve_def demo_geometry slab_slot_ptr_def slab_base_ptr_def slot_addr_def mmap_range_def
      demo_layout_def segment_drop_def mmap_drop_def os_unmap_def env_at_def)
    (simp_all add: demo_kernel_def word_le_nat_alt)

lemma demo_growth_run:
  "\<exists>w w'. ext_run Linux demo_kernel no_protection_factory demo_type
      (ew_start (ext_with_protection 4 (env_at 4096)) zero_mem) demo_growth w \<and>
    ext_step Linux demo_kernel no_protection_factory demo_type w (Placed 1 demo_layout (4112, 16)) w' \<and>
    ew_live w = {(4096, demo_layout, 16)} \<and> ew_slab w' = demo_ext 12288 [demo_segment 4096 2]"
proof -
  let ?st = "ext_step Linux demo_kernel no_protection_factory demo_type"
  define w0 where "w0 = ew_start (ext_with_protection 4 (env_at 4096)) zero_mem"
  let ?x = "demo_ext 4096 []" and ?b = "Building demo_layout 0"
  have x0: "ext_with_protection 4 (env_at 4096) = ?x" by (simp add: ext_with_protection_def demo_ext_def)
  define w1 where "w1 = ew_set w0 0 ?b ?x zero_mem {}"
  define w2 where "w2 = ew_set w1 1 ?b ?x zero_mem {}"
  define m3 where "m3 = write_bytes zero_mem 4096 0 4096"
  define m4 where "m4 = write_bytes m3 8192 0 4096"
  define w3 where "w3 = ew_set w2 0 (Built demo_layout 0 (demo_segment 4096 0)) (demo_ext 8192 []) m3 {}"
  define w4 where "w4 = ew_set w3 1 (Built demo_layout 0 (demo_segment 8192 0)) (demo_ext 12288 []) m4 {}"
  define w5 where "w5 = ew_set w4 0 At_Rest (demo_ext 12288 [demo_segment 4096 1]) m4 {(4096, demo_layout, 16)}"
  define w6 where "w6 = ew_set w5 1 (Dropping (demo_segment 8192 0)) (demo_ext 12288 [demo_segment 4096 2]) m4
    (insert (4112, demo_layout, 16) {(4096, demo_layout, 16)})"
  note W = w0_def w1_def w2_def w3_def w4_def w5_def ew_start_def x0
  have "?st w0 (All_Full 0) w1"
    using all_full [of w0 0 demo_layout Linux demo_kernel demo_type ?x zero_mem no_protection_factory]
      demo_layout_ok demo_ext_steps(1) by (simp add: W) (simp add: demo_ext_def)
  moreover have "?st w1 (All_Full 1) w2"
    using all_full [of w1 1 demo_layout Linux demo_kernel demo_type ?x zero_mem no_protection_factory]
      demo_layout_ok demo_ext_steps(1) by (simp add: W) (simp add: demo_ext_def)
  moreover have "?st w2 (Mapped 0) w3"
    using mapped [of w2 0 demo_layout 0 Linux demo_kernel no_protection_factory demo_type] demo_build [of 4096]
    by (simp add: W m3_def) (simp add: demo_ext_def)
  moreover have "?st w3 (Mapped 1) w4"
    using mapped [of w3 1 demo_layout 0 Linux demo_kernel no_protection_factory demo_type] demo_build [of 8192]
    by (simp add: W m4_def) (simp add: demo_ext_def)
  moreover have "?st w4 (Placed 0 demo_layout (4096, 16)) w5"
    using placed [of w4 0 demo_layout 0 "demo_segment 4096 0" Linux demo_kernel demo_type] demo_ext_steps(2)
    by (simp add: W after_place_def)
  moreover have "?st w5 (Placed 1 demo_layout (4112, 16)) w6"
    using placed [of w5 1 demo_layout 0 "demo_segment 8192 0" Linux demo_kernel demo_type] demo_ext_steps(3)
    by (simp add: W w6_def after_place_def)
  moreover have "ew_live w5 = {(4096, demo_layout, 16)}" "ew_slab w6 = demo_ext 12288 [demo_segment 4096 2]"
    by (simp_all add: w5_def w6_def)
  ultimately show ?thesis
    unfolding demo_growth_def w0_def [symmetric]
    using ext_snoc [OF ext_snoc [OF ext_snoc [OF ext_snoc [OF ext_snoc [OF ext_nil]]]]] by fastforce
qed

theorem extendable_slab_race_free_witness:
  "\<exists>w w'. ext_run Linux demo_kernel no_protection_factory demo_type
      (ew_start (ext_with_protection 4 (env_at 4096)) zero_mem) demo_growth w \<and>
    ext_step Linux demo_kernel no_protection_factory demo_type w (Placed 1 demo_layout (4112, 16)) w' \<and>
    live_ok (ew_live w') \<and> length (ex_segments (ew_slab w)) \<le> 1"
proof -
  obtain w w' where w: "ext_run Linux demo_kernel no_protection_factory demo_type
      (ew_start (ext_with_protection 4 (env_at 4096)) zero_mem) demo_growth w"
    "ext_step Linux demo_kernel no_protection_factory demo_type w (Placed 1 demo_layout (4112, 16)) w'"
    using demo_growth_run by blast
  then show ?thesis
    using extendable_slab_race_free [OF demo.mapping_kernel_axioms demo_factory_ok demo_type_ok w]
    by (auto simp: placements_def demo_growth_def)
qed

end
