(* ===== verification/Slab_Owner.thy ===== *)
theory Slab_Owner
  imports Slab
begin

text \<open>
  \<open>forge-alloc/src/layout/slab_owner.rs\<close>: \<open>SlabOwner\<close>, the one thread that may allocate from a slab, and
  \<open>SlabRemote\<close>, the handles through which other threads return blocks: they push onto a queue that the
  owner drains into its free list. \<open>slab_inner\<close> is what the \<open>Arc\<close> shares. This theory has the
  operations and the owner alone; \<open>Owner_Threads\<close> has the interleavings. The queue is a list, oldest
  entry first; a poisoned mutex is not modelled.
\<close>

section \<open>State\<close>

datatype batch_policy = Fixed usize | Adaptive

definition default_batch_policy :: batch_policy where
  "default_batch_policy = Fixed 64"

definition ADAPTIVE_LEVELS :: "usize list" where
  "ADAPTIVE_LEVELS = [8, 16, 32, 64, 128]"

definition ADAPTIVE_COOLDOWN_TICKS :: u32 where
  "ADAPTIVE_COOLDOWN_TICKS = 16"

record adaptive_state =
  ad_step :: u8
  ad_cooldown :: u32

definition adaptive_initial :: adaptive_state where
  "adaptive_initial = \<lparr>ad_step = 3, ad_cooldown = 0\<rparr>"

definition level_threshold :: "adaptive_state \<Rightarrow> usize" where
  "level_threshold a = ADAPTIVE_LEVELS ! unat (ad_step a)"

type_synonym remote_entry = "addr \<times> layout"

record 'b slab_inner =
  si_slab :: "'b slab"
  si_queue_capacity :: usize
  si_remote_queue :: "remote_entry list"
  si_remote_queue_len :: usize
  si_closed :: bool

record 'b slab_owner =
  so_inner :: "'b slab_inner"
  so_batch_policy :: batch_policy
  so_adaptive :: adaptive_state

section \<open>Construction\<close>

definition owner_with_batch_policy ::
  "'b allocator \<Rightarrow> 'b fixed_range \<Rightarrow> type_layout \<Rightarrow> usize \<Rightarrow> batch_policy \<Rightarrow> usize \<Rightarrow> 'b \<times> mem \<Rightarrow>
     'b slab_owner res \<times> 'b \<times> mem" where
  "owner_with_batch_policy B R T capacity policy queue_capacity st =
     (case slab_with_protection B R T capacity st of
        (Inl e, st') \<Rightarrow> (Inl e, st')
      | (Inr slab, st') \<Rightarrow>
          (Inr \<lparr>so_inner = \<lparr>si_slab = slab, si_queue_capacity = queue_capacity, si_remote_queue = [],
                   si_remote_queue_len = 0, si_closed = False\<rparr>,
                so_batch_policy = policy, so_adaptive = adaptive_initial\<rparr>, st'))"

definition owner_new ::
  "'b allocator \<Rightarrow> 'b fixed_range \<Rightarrow> type_layout \<Rightarrow> usize \<Rightarrow> 'b \<times> mem \<Rightarrow> 'b slab_owner res \<times> 'b \<times> mem" where
  "owner_new B R T capacity = owner_with_batch_policy B R T capacity default_batch_policy 1024"

section \<open>The owner\<close>

fun return_entries ::
  "'b fixed_range \<Rightarrow> remote_entry list \<Rightarrow> 'b slab \<times> mem \<Rightarrow> ('b slab \<times> mem) outcome" where
  "return_entries R [] st = Done st"
| "return_entries R ((p, lay) # es) st =
     outcome_bind (slab_deallocate R NoProtection p lay st) (return_entries R es)"

text \<open>The critical section of every drain: the queue is emptied and its mirror reset.\<close>

definition take_queue :: "'b slab_inner \<Rightarrow> remote_entry list \<times> 'b slab_inner" where
  "take_queue i =
     (if si_remote_queue i = [] then ([], i)
      else (si_remote_queue i, i\<lparr>si_remote_queue := [], si_remote_queue_len := 0\<rparr>))"

definition on_slab ::
  "('b slab \<times> mem \<Rightarrow> ('b slab \<times> mem) outcome) \<Rightarrow> 'b slab_owner \<times> mem \<Rightarrow> ('b slab_owner \<times> mem) outcome" where
  "on_slab f st =
     (case st of (ow, m) \<Rightarrow>
        outcome_bind (f (si_slab (so_inner ow), m))
          (\<lambda>(s, m'). Done (ow\<lparr>so_inner := (so_inner ow)\<lparr>si_slab := s\<rparr>\<rparr>, m')))"

definition owner_drain :: "'b fixed_range \<Rightarrow> 'b slab_owner \<times> mem \<Rightarrow> ('b slab_owner \<times> mem) outcome" where
  "owner_drain R st =
     (case st of (ow, m) \<Rightarrow>
        case take_queue (so_inner ow) of
          (pending, i) \<Rightarrow> on_slab (return_entries R pending) (ow\<lparr>so_inner := i\<rparr>, m))"

definition adaptive_tick :: "usize \<Rightarrow> usize \<Rightarrow> adaptive_state \<Rightarrow> adaptive_state" where
  "adaptive_tick cap pending a =
     (if ad_cooldown a > 0 then a\<lparr>ad_cooldown := ad_cooldown a - 1\<rparr>
      else if saturating_mul pending 4 > saturating_mul cap 3 \<and> ad_step a > 0
      then a\<lparr>ad_step := ad_step a - 1, ad_cooldown := ADAPTIVE_COOLDOWN_TICKS\<rparr>
      else if saturating_mul pending 4 < cap \<and> ad_step a < 4
      then a\<lparr>ad_step := ad_step a + 1, ad_cooldown := ADAPTIVE_COOLDOWN_TICKS\<rparr>
      else a)"

definition adaptive_threshold :: "usize \<Rightarrow> 'b slab_owner \<Rightarrow> usize \<times> 'b slab_owner" where
  "adaptive_threshold pending ow =
     (let a = adaptive_tick (si_queue_capacity (so_inner ow)) pending (so_adaptive ow)
      in (level_threshold a, ow\<lparr>so_adaptive := a\<rparr>))"

definition adaptive_threshold_snapshot :: "'b slab_owner \<Rightarrow> usize option" where
  "adaptive_threshold_snapshot ow =
     (case so_batch_policy ow of
        Adaptive \<Rightarrow> Some (level_threshold (so_adaptive ow)) | Fixed n \<Rightarrow> None)"

text \<open>
  \<open>maybe_drain\<close> up to the entries it takes: \<open>seen\<close> is what the relaxed load of the mirror returned,
  \<open>free\<close> whether \<open>try_lock\<close> got the lock.
\<close>

definition maybe_take :: "usize \<Rightarrow> bool \<Rightarrow> 'b slab_owner \<Rightarrow> remote_entry list \<times> 'b slab_owner" where
  "maybe_take seen free ow =
     (let (threshold, ow') =
        (case so_batch_policy ow of Fixed n \<Rightarrow> (n, ow) | Adaptive \<Rightarrow> adaptive_threshold seen ow)
      in if seen < threshold then ([], ow')
         else if \<not> free then ([], ow')
         else case take_queue (so_inner ow') of (entries, i) \<Rightarrow> (entries, ow'\<lparr>so_inner := i\<rparr>))"

definition maybe_drain :: "'b fixed_range \<Rightarrow> 'b slab_owner \<times> mem \<Rightarrow> ('b slab_owner \<times> mem) outcome" where
  "maybe_drain R st =
     (case st of (ow, m) \<Rightarrow>
        case maybe_take (si_remote_queue_len (so_inner ow)) True ow of
          (entries, ow') \<Rightarrow> on_slab (return_entries R entries) (ow', m))"

definition owner_deallocate :: "'b fixed_range \<Rightarrow> 'b slab_owner dealloc_fun" where
  "owner_deallocate R p lay st =
     outcome_bind (maybe_drain R st) (on_slab (slab_deallocate R NoProtection p lay))"

definition slab_try ::
  "'b fixed_range \<Rightarrow> type_layout \<Rightarrow> layout \<Rightarrow> 'b slab_owner \<times> mem \<Rightarrow> block res \<times> 'b slab_owner \<times> mem" where
  "slab_try R T lay st =
     (case st of (ow, m) \<Rightarrow>
        case slab_allocate R NoProtection T lay (si_slab (so_inner ow), m) of
          (r, s, m') \<Rightarrow> (r, ow\<lparr>so_inner := (so_inner ow)\<lparr>si_slab := s\<rparr>\<rparr>, m'))"

text \<open>The outcome of a drain is never a panic (\<open>return_entries_done\<close>), so the model's \<open>allocate\<close> may ask for its value.\<close>

definition done_of :: "'a outcome \<Rightarrow> 'a \<Rightarrow> 'a" where
  "done_of x dflt = (case x of Done y \<Rightarrow> y | Panicked \<Rightarrow> dflt)"

definition owner_allocate :: "'b fixed_range \<Rightarrow> type_layout \<Rightarrow> 'b slab_owner alloc_fun" where
  "owner_allocate R T lay st =
     (case slab_try R T lay (done_of (maybe_drain R st) st) of
        (Inr b, st') \<Rightarrow> (Inr b, st')
      | (Inl e, st') \<Rightarrow> slab_try R T lay (done_of (owner_drain R st') st'))"

definition owner_allocator :: "'b fixed_range \<Rightarrow> type_layout \<Rightarrow> 'b slab_owner allocator" where
  "owner_allocator R T =
     \<lparr>al_allocate = owner_allocate R T,
      al_allocate_zeroed = default_allocate_zeroed (owner_allocate R T),
      al_deallocate = owner_deallocate R,
      al_grow = default_grow (owner_allocate R T) (owner_deallocate R),
      al_shrink = default_shrink (owner_allocate R T) (owner_deallocate R),
      al_reset = default_reset,
      al_usable_size = (\<lambda>ow. slab_usable_size (si_slab (so_inner ow))),
      al_capacity_bytes = (\<lambda>ow. Some (slab_size (si_slab (so_inner ow)))),
      al_corruption_events = (\<lambda>ow. sl_corruption_events (si_slab (so_inner ow)))\<rparr>"

definition owner_range :: "'b fixed_range \<Rightarrow> 'b slab_owner fixed_range" where
  "owner_range R =
     \<lparr>fr_base = (\<lambda>ow. slab_base_ptr R (si_slab (so_inner ow))),
      fr_size = (\<lambda>ow. slab_size (si_slab (so_inner ow))), fr_commit = default_commit\<rparr>"

text \<open>Dropping the owner closes the queue and takes what is in it, in one critical section.\<close>

definition owner_close :: "'b slab_inner \<Rightarrow> remote_entry list \<times> 'b slab_inner" where
  "owner_close i = (si_remote_queue i, i\<lparr>si_closed := True, si_remote_queue := [], si_remote_queue_len := 0\<rparr>)"

definition owner_drop :: "'b fixed_range \<Rightarrow> 'b slab_owner \<times> mem \<Rightarrow> ('b slab_inner \<times> mem) outcome" where
  "owner_drop R st =
     (case st of (ow, m) \<Rightarrow>
        case owner_close (so_inner ow) of
          (pending, i) \<Rightarrow>
            outcome_bind (on_slab (return_entries R pending) (ow\<lparr>so_inner := i\<rparr>, m))
              (\<lambda>(ow', m'). Done (so_inner ow', m')))"

section \<open>The remote handles\<close>

text \<open>\<open>Err(ptr)\<close> gives the pointer back to the caller, who still has it.\<close>

definition remote_try_deallocate ::
  "addr \<Rightarrow> layout \<Rightarrow> 'b slab_inner \<Rightarrow> (addr + unit) \<times> 'b slab_inner" where
  "remote_try_deallocate p lay i =
     (if si_closed i then (Inl p, i)
      else if word_of_nat (length (si_remote_queue i)) \<ge> si_queue_capacity i then (Inl p, i)
      else let q = si_remote_queue i @ [(p, lay)]
           in (Inr (), i\<lparr>si_remote_queue := q, si_remote_queue_len := word_of_nat (length q)\<rparr>))"

section \<open>Blocks on the way back\<close>

text \<open>The live blocks of a slab that are not among the entries: those some client still has.\<close>

definition without :: "live \<Rightarrow> remote_entry list \<Rightarrow> live" where
  "without L es = {b \<in> L. block_key b \<notin> set es}"

lemma without_Nil [simp]: "without L [] = L"
  by (simp add: without_def)

lemma without_subset: "without L es \<subseteq> L"
  by (auto simp: without_def)

lemma without_append: "without L (xs @ ys) = without (without L xs) ys"
  by (auto simp: without_def)

lemma without_Cons:
  assumes "live_ok L" "(p, lay, n) \<in> L"
  shows "without L ((p, lay) # es) = without (L - {(p, lay, n)}) es"
proof -
  have "block_key b = (p, lay) \<longleftrightarrow> b = (p, lay, n)" if "b \<in> L" for b
    using inj_onD [OF live_ok_inj_key [OF assms(1)] _ that assms(2)] by auto
  then show ?thesis by (auto simp: without_def)
qed

lemma without_insert:
  "(p, lay) \<notin> set es \<Longrightarrow> without (insert (p, lay, n) L) es = insert (p, lay, n) (without L es)"
  by (auto simp: without_def)

lemma without_remove: "without (L - {b}) es = without L es - {b}"
  by (auto simp: without_def)

lemma key_of: "(p, lay) \<in> block_key ` L \<Longrightarrow> \<exists>n. (p, lay, n) \<in> L"
  by auto

lemma same_on_without: "same_on (footprint L) m m' \<Longrightarrow> same_on (footprint (without L es)) m m'"
  by (erule same_on_mono) (rule footprint_mono [OF without_subset])

text \<open>What returning entries keeps of the slab.\<close>

definition same_slab :: "'b fixed_range \<Rightarrow> 'b slab \<Rightarrow> 'b slab \<Rightarrow> bool" where
  "same_slab R s s' \<longleftrightarrow> slab_base_ptr R s' = slab_base_ptr R s \<and> slab_size s' = slab_size s \<and>
     sl_block_stride s' = sl_block_stride s \<and> sl_capacity s' = sl_capacity s \<and>
     slab_slot_ptr R s' = slab_slot_ptr R s"

lemma same_slab_refl [simp]: "same_slab R s s"
  by (simp add: same_slab_def)

lemma same_slab_trans: "same_slab R s t \<Longrightarrow> same_slab R t u \<Longrightarrow> same_slab R s u"
  by (simp add: same_slab_def)

lemma same_slab_allocate:
  "slab_allocate R P T lay (s, m) = (r, s', m') \<Longrightarrow> same_slab R s s'"
  using slab_allocate_frame [of R P T lay s m r s' m'] by (simp add: same_slab_def)

lemma same_slab_deallocate:
  "slab_deallocate R P p lay (s, m) = Done (s', m') \<Longrightarrow> same_slab R s s'"
  by (auto simp: slab_deallocate_def same_slab_def slab_base_ptr_def slab_size_def slab_slot_ptr_def
      fun_eq_iff Let_def split: option.splits)

context ranged_contract
begin

abbreviation owned_slab :: "type_layout \<Rightarrow> 'a slab \<Rightarrow> mem \<Rightarrow> live \<Rightarrow> bool" where
  "owned_slab T \<equiv> slab_inv True ainv R NoProtection T"

lemmas owned_core = slab_core [OF no_protection.freelist_protection_axioms]

lemma return_entries_post:
  assumes "owned_slab T s m L" "distinct es" "set es \<subseteq> block_key ` L"
  shows "\<exists>s' m'. return_entries R es (s, m) = Done (s', m') \<and> owned_slab T s' m' (without L es) \<and>
    same_on (footprint (without L es)) m m' \<and> same_slab R s s'"
  using assms
proof (induction es arbitrary: s m L)
  case Nil
  then show ?case by simp
next
  case (Cons e es)
  obtain p lay where e: "e = (p, lay)" by (cases e)
  have "(p, lay) \<in> block_key ` L" using Cons.prems(3) e by simp
  then obtain n where n: "(p, lay, n) \<in> L" using key_of by blast
  note ok = allocator_core.inv_live [OF owned_core Cons.prems(1)]
  let ?K = "L - {(p, lay, n)}"
  obtain s1 m1 where d: "slab_deallocate R NoProtection p lay (s, m) = Done (s1, m1)"
    and post: "owned_slab T s1 m1 ?K" "same_on (footprint ?K) m m1"
    using allocator_core.deallocate [OF owned_core Cons.prems(1) n]
    by (cases "slab_deallocate R NoProtection p lay (s, m)") (auto simp: dealloc_post_def)
  have keys: "set es \<subseteq> block_key ` ?K"
    using block_key_remove [OF ok order_refl n] Cons.prems(2,3) e by auto
  obtain s2 m2 where r: "return_entries R es (s1, m1) = Done (s2, m2)" "owned_slab T s2 m2 (without ?K es)"
    "same_on (footprint (without ?K es)) m1 m2" "same_slab R s1 s2"
    using Cons.IH [OF post(1) _ keys] Cons.prems(2) by auto
  have "same_on (footprint (without ?K es)) m m2"
    by (rule same_on_trans [OF same_on_without [OF post(2)] r(3)])
  then show ?case
    using e d r same_slab_trans [OF same_slab_deallocate [OF d] r(4)] without_Cons [OF ok n, of es] by auto
qed

end

text \<open>No drain panics, whatever is in the queue.\<close>

lemma slab_deallocate_done: "\<exists>st'. slab_deallocate R P p lay st = Done st'"
  by (cases st) (auto simp: slab_deallocate_def Let_def split: option.splits)

lemma return_entries_done: "\<exists>st'. return_entries R es st = Done st'"
proof (induction es arbitrary: st)
  case (Cons e es)
  obtain p lay where e: "e = (p, lay)" by (cases e)
  obtain st1 where "slab_deallocate R NoProtection p lay st = Done st1" using slab_deallocate_done by blast
  then show ?case using e Cons.IH [of st1] by auto
qed simp

lemma on_slab_done: "(\<And>x. \<exists>y. f x = Done y) \<Longrightarrow> \<exists>st'. on_slab f st = Done st'"
  by (cases st) (fastforce simp: on_slab_def split: prod.splits)

lemma drain_done:
  "\<exists>st'. owner_drain R st = Done st'" "\<exists>st'. maybe_drain R st = Done st'"
proof -
  obtain ow m where st: "st = (ow, m)" by (cases st)
  obtain es i es' ow' where "take_queue (so_inner ow) = (es, i)"
    "maybe_take (si_remote_queue_len (so_inner ow)) True ow = (es', ow')" by (metis surj_pair)
  then show "\<exists>st'. owner_drain R st = Done st'" "\<exists>st'. maybe_drain R st = Done st'"
    using on_slab_done [OF return_entries_done] by (simp_all add: st owner_drain_def maybe_drain_def)
qed

section \<open>The owner alone\<close>

text \<open>
  The queue holds blocks that are live to the slab and no client's any more; the mirror is its
  length, which the capacity bounds.
\<close>

definition queue_ok :: "'b slab_inner \<Rightarrow> live \<Rightarrow> bool" where
  "queue_ok i L \<longleftrightarrow> distinct (si_remote_queue i) \<and> set (si_remote_queue i) \<subseteq> block_key ` L \<and>
     si_remote_queue_len i = word_of_nat (length (si_remote_queue i)) \<and>
     length (si_remote_queue i) \<le> unat (si_queue_capacity i)"

definition owner_inv ::
  "('b \<Rightarrow> mem \<Rightarrow> live \<Rightarrow> bool) \<Rightarrow> 'b fixed_range \<Rightarrow> type_layout \<Rightarrow> 'b slab_owner \<Rightarrow> mem \<Rightarrow> live \<Rightarrow> bool" where
  "owner_inv binv R T ow m H \<longleftrightarrow> unat (ad_step (so_adaptive ow)) \<le> 4 \<and>
     (\<exists>L. slab_inv True binv R NoProtection T (si_slab (so_inner ow)) m L \<and> queue_ok (so_inner ow) L \<and>
        H = without L (si_remote_queue (so_inner ow)))"

lemma adaptive_tick_bound: "unat (ad_step a) \<le> 4 \<Longrightarrow> unat (ad_step (adaptive_tick cap q a)) \<le> 4"
proof -
  have "unat (x - 1) \<le> unat x" if "0 < x" for x :: u8
    using that unat_minus_one [of x] by (auto simp: word_less_nat_alt unat_gt_0)
  moreover have "unat (x + 1) \<le> 4" if "x < 4" for x :: u8
  proof -
    have "unat x < 4" using that by (simp add: word_less_nat_alt)
    then show ?thesis using unat_plus_if' [of x 1] by simp
  qed
  ultimately show "unat (ad_step a) \<le> 4 \<Longrightarrow> unat (ad_step (adaptive_tick cap q a)) \<le> 4"
    by (auto simp: adaptive_tick_def intro: le_trans)
qed

text \<open>Before the entries taken are back in the slab.\<close>

definition owner_mid ::
  "('b \<Rightarrow> mem \<Rightarrow> live \<Rightarrow> bool) \<Rightarrow> 'b fixed_range \<Rightarrow> type_layout \<Rightarrow> remote_entry list \<Rightarrow>
     'b slab_owner \<Rightarrow> mem \<Rightarrow> live \<Rightarrow> bool" where
  "owner_mid binv R T es ow m H \<longleftrightarrow> unat (ad_step (so_adaptive ow)) \<le> 4 \<and>
     (\<exists>L. slab_inv True binv R NoProtection T (si_slab (so_inner ow)) m L \<and> queue_ok (so_inner ow) (without L es) \<and>
        distinct es \<and> set es \<subseteq> block_key ` L \<and> H = without L (es @ si_remote_queue (so_inner ow)))"

lemma take_queue_mid:
  assumes "owner_inv binv R T ow m H" "take_queue (so_inner ow) = (es, i)"
  shows "owner_mid binv R T es (ow\<lparr>so_inner := i\<rparr>) m H"
  using assms by (auto simp: take_queue_def owner_inv_def owner_mid_def queue_ok_def split: if_splits)

lemma maybe_take_mid:
  assumes "owner_inv binv R T ow m H" "maybe_take seen free ow = (es, ow')"
  shows "owner_mid binv R T es ow' m H"
proof -
  define ow1 where "ow1 = (case so_batch_policy ow of Fixed n \<Rightarrow> ow | Adaptive \<Rightarrow> snd (adaptive_threshold seen ow))"
  have in1: "so_inner ow1 = so_inner ow"
    by (simp add: ow1_def adaptive_threshold_def Let_def split: batch_policy.split)
  have "unat (ad_step (so_adaptive ow1)) \<le> 4"
    using assms(1) adaptive_tick_bound
    by (simp add: ow1_def owner_inv_def adaptive_threshold_def Let_def split: batch_policy.split)
  then have o1: "owner_inv binv R T ow1 m H" using assms(1) by (simp add: owner_inv_def in1)
  have "es = [] \<and> ow' = ow1 \<or> (\<exists>i. take_queue (so_inner ow1) = (es, i) \<and> ow' = ow1\<lparr>so_inner := i\<rparr>)"
    using assms(2)
    by (auto simp: maybe_take_def ow1_def split: batch_policy.splits prod.splits if_splits)
  then show ?thesis
  proof
    assume "es = [] \<and> ow' = ow1"
    then show ?thesis using o1 by (auto simp: owner_inv_def owner_mid_def)
  next
    assume "\<exists>i. take_queue (so_inner ow1) = (es, i) \<and> ow' = ow1\<lparr>so_inner := i\<rparr>"
    then show ?thesis using take_queue_mid [OF o1] by auto
  qed
qed

text \<open>A block fresh to the slab is not on its way back.\<close>

lemma fresh_not_queued:
  assumes "set es \<subseteq> block_key ` L" "live_ok L" "block_ok lay p n" "span p n \<inter> footprint L = {}"
  shows "(p, lay) \<notin> set es"
proof
  assume "(p, lay) \<in> set es"
  then obtain k where k: "(p, lay, k) \<in> L" using assms(1) key_of by blast
  have "p \<in> footprint L"
    using span_base [OF block_okD(7) [OF live_okD [OF assms(2) k]]] span_footprint [OF k] by blast
  then show False using span_base [OF block_okD(7) [OF assms(3)]] assms(4) by blast
qed

text \<open>A push takes the block from its client; a refused one leaves everything as it was.\<close>

lemma push_queue_ok:
  assumes "queue_ok i L" "(p, lay) \<in> block_key ` L" "(p, lay) \<notin> set (si_remote_queue i)"
    "remote_try_deallocate p lay i = (r, i')"
  shows "case r of Inl p' \<Rightarrow> i' = i \<and> p' = p \<and> (si_closed i \<or> length (si_remote_queue i) = unat (si_queue_capacity i))
    | Inr u \<Rightarrow> queue_ok i' L \<and> si_remote_queue i' = si_remote_queue i @ [(p, lay)] \<and> si_slab i' = si_slab i \<and>
        \<not> si_closed i \<and> i' = i\<lparr>si_remote_queue := si_remote_queue i', si_remote_queue_len := si_remote_queue_len i'\<rparr>"
proof -
  have len: "length (si_remote_queue i) \<le> unat (si_queue_capacity i)" using assms(1) by (simp add: queue_ok_def)
  then have "length (si_remote_queue i) < 2 ^ 64" using unat_64_less [of "si_queue_capacity i"] by linarith
  then have "(si_queue_capacity i \<le> word_of_nat (length (si_remote_queue i))) =
      (length (si_remote_queue i) = unat (si_queue_capacity i))"
    using len by (auto simp: word_le_nat_alt unat_of_nat)
  moreover obtain ks where "ks = block_key ` L" by blast
  ultimately show ?thesis
    using assms len unfolding queue_ok_def
    by (auto simp: remote_try_deallocate_def Let_def simp flip: \<open>ks = _\<close> split: if_splits)
qed

context ranged_contract
begin

lemma owner_mid_return:
  assumes "owner_mid ainv R T es ow m H"
  shows "\<exists>ow' m'. on_slab (return_entries R es) (ow, m) = Done (ow', m') \<and> owner_inv ainv R T ow' m' H \<and>
    same_on (footprint H) m m' \<and> same_slab R (si_slab (so_inner ow)) (si_slab (so_inner ow'))"
proof -
  obtain L where L: "owned_slab T (si_slab (so_inner ow)) m L" "queue_ok (so_inner ow) (without L es)"
    "distinct es" "set es \<subseteq> block_key ` L" "H = without L (es @ si_remote_queue (so_inner ow))"
    and a: "unat (ad_step (so_adaptive ow)) \<le> 4"
    using assms by (auto simp: owner_mid_def)
  obtain s' m' where r: "return_entries R es (si_slab (so_inner ow), m) = Done (s', m')"
    "owned_slab T s' m' (without L es)" "same_on (footprint (without L es)) m m'"
    "same_slab R (si_slab (so_inner ow)) s'"
    using return_entries_post [OF L(1,3,4)] by blast
  have H: "H = without (without L es) (si_remote_queue (so_inner ow))"
    using L(5) by (simp add: without_append)
  have "same_on (footprint H) m m'" unfolding H by (rule same_on_without [OF r(3)])
  moreover have "owner_inv ainv R T (ow\<lparr>so_inner := (so_inner ow)\<lparr>si_slab := s'\<rparr>\<rparr>) m' H"
    using a r(2) L(2) H by (auto simp: owner_inv_def queue_ok_def)
  ultimately show ?thesis using r(1,4) by (simp add: on_slab_def)
qed

lemma drain_post:
  assumes "owner_inv ainv R T ow m H"
  shows "\<exists>ow' m'. owner_drain R (ow, m) = Done (ow', m') \<and> owner_inv ainv R T ow' m' H \<and>
      same_on (footprint H) m m' \<and> same_slab R (si_slab (so_inner ow)) (si_slab (so_inner ow')) \<and>
      si_remote_queue (so_inner ow') = []"
    "\<exists>ow' m'. maybe_drain R (ow, m) = Done (ow', m') \<and> owner_inv ainv R T ow' m' H \<and>
      same_on (footprint H) m m' \<and> same_slab R (si_slab (so_inner ow)) (si_slab (so_inner ow'))"
proof -
  obtain es i where t: "take_queue (so_inner ow) = (es, i)" by (cases "take_queue (so_inner ow)")
  have e: "si_remote_queue i = []" "si_slab i = si_slab (so_inner ow)" using t by (auto simp: take_queue_def split: if_splits)
  show "\<exists>ow' m'. owner_drain R (ow, m) = Done (ow', m') \<and> owner_inv ainv R T ow' m' H \<and>
      same_on (footprint H) m m' \<and> same_slab R (si_slab (so_inner ow)) (si_slab (so_inner ow')) \<and>
      si_remote_queue (so_inner ow') = []"
    using owner_mid_return [OF take_queue_mid [OF assms t]] t e
    by (auto simp: owner_drain_def) (auto simp: on_slab_def split: prod.splits)
  obtain es' ow1 where mt: "maybe_take (si_remote_queue_len (so_inner ow)) True ow = (es', ow1)"
    by (cases "maybe_take (si_remote_queue_len (so_inner ow)) True ow")
  have "si_slab (so_inner ow1) = si_slab (so_inner ow)"
    using mt by (auto simp: maybe_take_def take_queue_def adaptive_threshold_def Let_def
        split: batch_policy.splits prod.splits if_splits)
  then show "\<exists>ow' m'. maybe_drain R (ow, m) = Done (ow', m') \<and> owner_inv ainv R T ow' m' H \<and>
      same_on (footprint H) m m' \<and> same_slab R (si_slab (so_inner ow)) (si_slab (so_inner ow'))"
    using owner_mid_return [OF maybe_take_mid [OF assms mt]] mt by (auto simp: maybe_drain_def)
qed

lemma slab_try_post:
  assumes inv: "owner_inv ainv R T ow m H" and lay: "valid_layout lay"
  shows "alloc_post (owner_inv ainv R T) H lay m (slab_try R T lay (ow, m))"
proof -
  obtain L where L: "owned_slab T (si_slab (so_inner ow)) m L" "queue_ok (so_inner ow) L"
    "H = without L (si_remote_queue (so_inner ow))" and a: "unat (ad_step (so_adaptive ow)) \<le> 4"
    using inv by (auto simp: owner_inv_def)
  obtain r s' m' where al: "slab_allocate R NoProtection T lay (si_slab (so_inner ow), m) = (r, s', m')"
    by (cases "slab_allocate R NoProtection T lay (si_slab (so_inner ow), m)") auto
  note post = allocator_core.allocate [OF owned_core L(1) lay, unfolded al]
  let ?q = "si_remote_queue (so_inner ow)"
  show ?thesis
  proof (cases r)
    case (Inl e)
    then show ?thesis
      using post al a L same_on_without
      by (auto simp: slab_try_def alloc_post_def owner_inv_def queue_ok_def)
  next
    case (Inr b)
    obtain p n where b: "b = (p, n)" by (cases b)
    have ok: "block_ok lay p n" "span p n \<inter> footprint L = {}" "owned_slab T s' m' (insert (p, lay, n) L)"
      "same_on (footprint L) m m'"
      using post Inr b by (auto simp: alloc_post_def)
    have nq: "(p, lay) \<notin> set ?q"
      by (rule fresh_not_queued [OF _ allocator_core.inv_live [OF owned_core L(1)] ok(1,2)])
        (use L(2) in \<open>simp add: queue_ok_def\<close>)
    have "owner_inv ainv R T (ow\<lparr>so_inner := (so_inner ow)\<lparr>si_slab := s'\<rparr>\<rparr>) m' (insert (p, lay, n) H)"
      unfolding L(3) without_insert [OF nq, symmetric]
      using ok(3) L(2) a by (auto simp: owner_inv_def queue_ok_def)
    moreover have "span p n \<inter> footprint H = {}"
      unfolding L(3) using ok(2) footprint_mono [OF without_subset, of L ?q] by blast
    ultimately show ?thesis
      using al Inr b ok(1,4) same_on_without L(3) by (auto simp: slab_try_def alloc_post_def)
  qed
qed

lemma owner_allocate_post:
  assumes inv: "owner_inv ainv R T ow m H" and lay: "valid_layout lay"
  shows "alloc_post (owner_inv ainv R T) H lay m (owner_allocate R T lay (ow, m))"
proof -
  obtain ow1 m1 where d1: "maybe_drain R (ow, m) = Done (ow1, m1)" "owner_inv ainv R T ow1 m1 H"
    "same_on (footprint H) m m1"
    using drain_post(2) [OF inv] by blast
  obtain r ow2 m2 where t1: "slab_try R T lay (ow1, m1) = (r, ow2, m2)"
    by (cases "slab_try R T lay (ow1, m1)") auto
  note p1 = slab_try_post [OF d1(2) lay, unfolded t1]
  show ?thesis
  proof (cases r)
    case (Inr b)
    then show ?thesis
      using d1 t1 p1 same_on_trans [OF d1(3)]
      by (auto simp: owner_allocate_def done_of_def alloc_post_def)
  next
    case (Inl e)
    then have i2: "owner_inv ainv R T ow2 m2 H" "same_on (footprint H) m m2"
      using p1 same_on_trans [OF d1(3)] by (auto simp: alloc_post_def)
    obtain ow3 m3 where d2: "owner_drain R (ow2, m2) = Done (ow3, m3)" "owner_inv ainv R T ow3 m3 H"
      "same_on (footprint H) m2 m3"
      using drain_post(1) [OF i2(1)] by blast
    have "owner_allocate R T lay (ow, m) = slab_try R T lay (ow3, m3)"
      using d1(1) t1 Inl d2(1) by (simp add: owner_allocate_def done_of_def)
    moreover have "alloc_post (owner_inv ainv R T) H lay m (slab_try R T lay (ow3, m3))"
      using slab_try_post [OF d2(2) lay] same_on_trans [OF same_on_trans [OF i2(2) d2(3)]]
      by (auto simp: alloc_post_def split: prod.splits sum.splits)
    ultimately show ?thesis by simp
  qed
qed

lemma owner_deallocate_post:
  assumes inv: "owner_inv ainv R T ow m H" and mem: "(p, lay, n) \<in> H"
  shows "dealloc_post (owner_inv ainv R T) (H - {(p, lay, n)}) m (owner_deallocate R p lay (ow, m))"
proof -
  obtain ow1 m1 where d1: "maybe_drain R (ow, m) = Done (ow1, m1)" "owner_inv ainv R T ow1 m1 H"
    "same_on (footprint H) m m1"
    using drain_post(2) [OF inv] by blast
  obtain L where L: "owned_slab T (si_slab (so_inner ow1)) m1 L" "queue_ok (so_inner ow1) L"
    "H = without L (si_remote_queue (so_inner ow1))" and a: "unat (ad_step (so_adaptive ow1)) \<le> 4"
    using d1(2) by (auto simp: owner_inv_def)
  have n: "(p, lay, n) \<in> L" "(p, lay) \<notin> set (si_remote_queue (so_inner ow1))"
    using mem L(3) by (auto simp: without_def)
  let ?K = "L - {(p, lay, n)}"
  obtain s2 m2 where d: "slab_deallocate R NoProtection p lay (si_slab (so_inner ow1), m1) = Done (s2, m2)"
    and post: "owned_slab T s2 m2 ?K" "same_on (footprint ?K) m1 m2"
    using allocator_core.deallocate [OF owned_core L(1) n(1)]
    by (cases "slab_deallocate R NoProtection p lay (si_slab (so_inner ow1), m1)") (auto simp: dealloc_post_def)
  have "set (si_remote_queue (so_inner ow1)) \<subseteq> block_key ` ?K"
    using block_key_remove [OF allocator_core.inv_live [OF owned_core L(1)] order_refl n(1)] L(2) n(2)
    by (auto simp: queue_ok_def)
  then have "owner_inv ainv R T (ow1\<lparr>so_inner := (so_inner ow1)\<lparr>si_slab := s2\<rparr>\<rparr>) m2 (H - {(p, lay, n)})"
    unfolding L(3) without_remove [symmetric] using post(1) L(2) a by (auto simp: owner_inv_def queue_ok_def)
  moreover have "same_on (footprint (H - {(p, lay, n)})) m m2"
  proof -
    have "footprint (H - {(p, lay, n)}) \<subseteq> footprint H" by (rule footprint_mono) blast
    moreover have "same_on (footprint (H - {(p, lay, n)})) m1 m2"
      unfolding L(3) without_remove [symmetric] by (rule same_on_without [OF post(2)])
    ultimately show ?thesis using same_on_mono [OF d1(3)] same_on_trans by blast
  qed
  ultimately show ?thesis
    using d1(1) d by (simp add: owner_deallocate_def on_slab_def dealloc_post_def)
qed

lemma owner_contract: "allocator_contract (owner_allocator R T) (owner_inv ainv R T)"
proof (rule allocator_contractI)
  show "allocator_core (al_allocate (owner_allocator R T)) (al_deallocate (owner_allocator R T))
      (al_usable_size (owner_allocator R T)) (owner_inv ainv R T)"
    unfolding owner_allocator_def allocator.simps
  proof
    fix ow m H assume "owner_inv ainv R T ow m H"
    then show "live_ok H"
      using allocator_core.inv_live [OF owned_core] live_ok_mono [OF _ without_subset]
      unfolding owner_inv_def by blast
  next
    fix ow m H m' assume i: "owner_inv ainv R T ow m H" and w: "same_on (- footprint H) m m'"
    then obtain L where L: "owned_slab T (si_slab (so_inner ow)) m L" "queue_ok (so_inner ow) L"
      "H = without L (si_remote_queue (so_inner ow))" "unat (ad_step (so_adaptive ow)) \<le> 4"
      by (auto simp: owner_inv_def)
    have "same_on (- footprint L) m m'"
      using same_on_mono [OF w] footprint_mono [OF without_subset] unfolding L(3) by (metis compl_mono)
    from allocator_core.user_write [OF owned_core L(1) this] show "owner_inv ainv R T ow m' H"
      using L unfolding owner_inv_def by blast
  next
    fix ow m H p lay n k
    assume i: "owner_inv ainv R T ow m H" "(p, lay, n) \<in> H"
      and k: "slab_usable_size (si_slab (so_inner ow)) p lay = Some k"
    then obtain L where L: "owned_slab T (si_slab (so_inner ow)) m L" "(p, lay, n) \<in> L"
      using without_subset by (fastforce simp: owner_inv_def)
    show "lay_size lay \<le> k \<and> k \<le> n" by (rule allocator_core.usable_size [OF owned_core L k])
  qed (use owner_allocate_post owner_deallocate_post in auto)
qed (simp_all add: owner_allocator_def)

lemma owner_new_inv:
  assumes "owner_with_batch_policy A R T capacity policy qcap (b, m) = (Inr ow, b', m')" "ainv b m {}" "type_ok T"
  shows "owner_inv ainv R T ow m' {}" "unat (sl_capacity (si_slab (so_inner ow))) = unat capacity"
    "\<not> si_closed (so_inner ow)" "so_adaptive ow = adaptive_initial"
    "si_remote_queue (so_inner ow) = []" "si_queue_capacity (so_inner ow) = qcap"
proof -
  obtain s where s: "slab_with_protection A R T capacity (b, m) = (Inr s, b', m')"
    and ow: "ow = \<lparr>so_inner = \<lparr>si_slab = s, si_queue_capacity = qcap, si_remote_queue = [],
       si_remote_queue_len = 0, si_closed = False\<rparr>, so_batch_policy = policy, so_adaptive = adaptive_initial\<rparr>"
    using assms(1) by (auto simp: owner_with_batch_policy_def split: prod.splits sum.splits)
  note n = slab_new_inv(1,3) [OF s assms(2,3)]
  show "owner_inv ainv R T ow m' {}"
    using n(1) by (auto simp: ow owner_inv_def queue_ok_def adaptive_initial_def)
  show "unat (sl_capacity (si_slab (so_inner ow))) = unat capacity" "\<not> si_closed (so_inner ow)"
    "so_adaptive ow = adaptive_initial" "si_remote_queue (so_inner ow) = []" "si_queue_capacity (so_inner ow) = qcap"
    using n(2) by (simp_all add: ow)
qed

lemma remote_push_post:
  assumes inv: "owner_inv ainv R T ow m H" and mem: "(p, lay, n) \<in> H"
    and push: "remote_try_deallocate p lay (so_inner ow) = (Inr u, i)"
  shows "owner_inv ainv R T (ow\<lparr>so_inner := i\<rparr>) m (H - {(p, lay, n)})"
proof -
  obtain L where L: "owned_slab T (si_slab (so_inner ow)) m L" "queue_ok (so_inner ow) L"
    "H = without L (si_remote_queue (so_inner ow))" "unat (ad_step (so_adaptive ow)) \<le> 4"
    using inv by (auto simp: owner_inv_def)
  have n: "(p, lay, n) \<in> L" "(p, lay) \<notin> set (si_remote_queue (so_inner ow))"
    using mem L(3) by (auto simp: without_def)
  then have "(p, lay) \<in> block_key ` L" by force
  note q = push_queue_ok [OF L(2) this n(2) push, simplified]
  have ok: "live_ok (without L (si_remote_queue (so_inner ow)))"
    by (rule live_ok_mono [OF allocator_core.inv_live [OF owned_core L(1)] without_subset])
  have "without L (si_remote_queue i) = H - {(p, lay, n)}"
    using without_Cons [OF ok, of p lay n "[]"] mem q L(3) by (simp add: without_append)
  then show ?thesis using L q unfolding owner_inv_def by auto
qed

text \<open>After the drain of the second attempt nothing is left on its way: a refusal means that clients
  hold every slot.\<close>

lemma owner_refuses:
  assumes inv: "owner_inv ainv R T ow m H" and lay: "valid_layout lay"
    and fit: "lay_align lay \<le> slot_align T" "lay_size lay \<le> sl_block_stride (si_slab (so_inner ow))"
    and al: "owner_allocate R T lay (ow, m) = (Inl e, ow', m')"
    and i: "i < sl_capacity (si_slab (so_inner ow))"
  shows "\<exists>lay n. (slab_slot_ptr R (si_slab (so_inner ow)) i, lay, n) \<in> H"
proof -
  obtain ow1 m1 where d1: "maybe_drain R (ow, m) = Done (ow1, m1)" "owner_inv ainv R T ow1 m1 H"
    "same_slab R (si_slab (so_inner ow)) (si_slab (so_inner ow1))"
    using drain_post(2) [OF inv] by blast
  obtain r ow2 m2 where t1: "slab_try R T lay (ow1, m1) = (r, ow2, m2)"
    by (cases "slab_try R T lay (ow1, m1)") auto
  have r: "r = Inl AllocError" using al d1(1) t1
    by (cases r) (auto simp: owner_allocate_def done_of_def intro: alloc_error.exhaust)
  have i2: "owner_inv ainv R T ow2 m2 H"
    using slab_try_post [OF d1(2) lay] t1 r by (simp add: alloc_post_def)
  have s2: "same_slab R (si_slab (so_inner ow1)) (si_slab (so_inner ow2))"
    using t1 same_slab_allocate by (fastforce simp: slab_try_def split: prod.splits)
  obtain ow3 m3 where d2: "owner_drain R (ow2, m2) = Done (ow3, m3)" "owner_inv ainv R T ow3 m3 H"
    "same_slab R (si_slab (so_inner ow2)) (si_slab (so_inner ow3))" "si_remote_queue (so_inner ow3) = []"
    using drain_post(1) [OF i2] by blast
  have s3: "same_slab R (si_slab (so_inner ow)) (si_slab (so_inner ow3))"
    using same_slab_trans [OF same_slab_trans [OF d1(3) s2] d2(3)] .
  have H: "owned_slab T (si_slab (so_inner ow3)) m3 H" using d2(2,4) by (simp add: owner_inv_def)
  have "slab_try R T lay (ow3, m3) = (Inl e, ow', m')"
    using al d1(1) t1 r d2(1) by (simp add: owner_allocate_def done_of_def)
  then obtain s4 where f: "slab_allocate R NoProtection T lay (si_slab (so_inner ow3), m3) = (Inl e, s4, m')"
    by (auto simp: slab_try_def split: prod.splits)
  have "\<exists>lay. (slab_slot_ptr R (si_slab (so_inner ow3)) i, lay, sl_block_stride (si_slab (so_inner ow3))) \<in> H"
    by (rule slab_full(1) [OF H fit(1) _ f]) (use fit(2) i s3 in \<open>simp_all add: same_slab_def\<close>)
  then show ?thesis using s3 by (auto simp: same_slab_def)
qed

end

end
