(* ===== verification/Owner_Threads.thy ===== *)
theory Owner_Threads
  imports Slab_Owner
begin

text \<open>
  A \<open>SlabOwner\<close> and its \<open>SlabRemote\<close> handles under every interleaving. A step is one critical section of
  the queue's mutex or one access of the owner to its slab; between them anything may happen. The
  relaxed load of the length mirror may return any value and \<open>try_lock\<close> may fail, so the batching
  decisions are arbitrary.
\<close>

section \<open>The steps\<close>

text \<open>What the owner is in the middle of: entries still to return, then a call to finish.\<close>

datatype owner_job = To_Allocate layout | To_Retry layout | To_Free addr layout | To_Close
datatype owner_pc = Resting | Returning "remote_entry list" owner_job | Gone

text \<open>A remote in its loop: about to attempt, or refused, having seen \<open>closed\<close> or not.\<close>

datatype remote_pc = Quiet | Pushing addr layout | Refused_Push addr layout bool

text \<open>Where a block is that is live to the slab. \<open>wo_live\<close> and \<open>wo_place\<close> are ghosts.\<close>

datatype place = In_Hand | In_Queue | In_Batch | In_Call | With_Remote nat | Forfeited

record 'b owner_world =
  wo_owner :: "'b slab_owner"
  wo_mem :: mem
  wo_pc :: owner_pc
  wo_remote :: "nat \<Rightarrow> remote_pc"
  wo_live :: live
  wo_place :: "remote_entry \<Rightarrow> place"

definition wo_inner :: "'b owner_world \<Rightarrow> 'b slab_inner" where
  "wo_inner w = so_inner (wo_owner w)"

definition wo_hand :: "'b owner_world \<Rightarrow> live" where
  "wo_hand w = {b \<in> wo_live w. wo_place w (block_key b) = In_Hand}"

definition put_slab :: "'b slab \<Rightarrow> 'b slab_owner \<Rightarrow> 'b slab_owner" where
  "put_slab s ow = ow\<lparr>so_inner := (so_inner ow)\<lparr>si_slab := s\<rparr>\<rparr>"

definition mark_all :: "'k list \<Rightarrow> ('k \<Rightarrow> place) \<Rightarrow> 'k \<Rightarrow> place" where
  "mark_all es pl k = (if k \<in> set es then In_Batch else pl k)"

lemma mark_all_Nil [simp]: "mark_all [] pl = pl"
  by (simp add: mark_all_def fun_eq_iff)

datatype owner_event =
    Start_Allocate layout | Start_Free addr layout | Return addr layout | Serve layout block | Drain layout
  | Give_Up layout | Local_Free addr layout | Close | Leave
  | Try_Push nat addr layout bool | Begin_Push nat addr layout | Attempt nat bool | Look nat bool | Client_Write

inductive own_step ::
  "'b fixed_range \<Rightarrow> type_layout \<Rightarrow> 'b owner_world \<Rightarrow> owner_event \<Rightarrow> 'b owner_world \<Rightarrow> bool" for R T where
  start_allocate: "wo_pc w = Resting \<Longrightarrow> valid_layout lay \<Longrightarrow> maybe_take seen free (wo_owner w) = (es, ow) \<Longrightarrow>
    own_step R T w (Start_Allocate lay)
      (w\<lparr>wo_owner := ow, wo_pc := Returning es (To_Allocate lay), wo_place := mark_all es (wo_place w)\<rparr>)"
| start_free: "wo_pc w = Resting \<Longrightarrow> (p, lay, n) \<in> wo_hand w \<Longrightarrow> maybe_take seen free (wo_owner w) = (es, ow) \<Longrightarrow>
    own_step R T w (Start_Free p lay)
      (w\<lparr>wo_owner := ow, wo_pc := Returning es (To_Free p lay),
         wo_place := (mark_all es (wo_place w))((p, lay) := In_Call)\<rparr>)"
| return_one: "wo_pc w = Returning ((p, lay) # es) job \<Longrightarrow>
    slab_deallocate R NoProtection p lay (si_slab (wo_inner w), wo_mem w) = Done (s, m) \<Longrightarrow>
    own_step R T w (Return p lay)
      (w\<lparr>wo_owner := put_slab s (wo_owner w), wo_mem := m, wo_pc := Returning es job,
         wo_live := {b \<in> wo_live w. block_key b \<noteq> (p, lay)}\<rparr>)"
| serve: "wo_pc w = Returning [] (To_Allocate lay) \<or> wo_pc w = Returning [] (To_Retry lay) \<Longrightarrow>
    slab_try R T lay (wo_owner w, wo_mem w) = (Inr (p, n), ow, m) \<Longrightarrow>
    own_step R T w (Serve lay (p, n))
      (w\<lparr>wo_owner := ow, wo_mem := m, wo_pc := Resting, wo_live := insert (p, lay, n) (wo_live w),
         wo_place := (wo_place w)((p, lay) := In_Hand)\<rparr>)"
| drain: "wo_pc w = Returning [] (To_Allocate lay) \<Longrightarrow>
    slab_try R T lay (wo_owner w, wo_mem w) = (Inl e, ow, m) \<Longrightarrow> take_queue (so_inner ow) = (es, i) \<Longrightarrow>
    own_step R T w (Drain lay)
      (w\<lparr>wo_owner := ow\<lparr>so_inner := i\<rparr>, wo_mem := m, wo_pc := Returning es (To_Retry lay),
         wo_place := mark_all es (wo_place w)\<rparr>)"
| give_up: "wo_pc w = Returning [] (To_Retry lay) \<Longrightarrow>
    slab_try R T lay (wo_owner w, wo_mem w) = (Inl e, ow, m) \<Longrightarrow>
    own_step R T w (Give_Up lay) (w\<lparr>wo_owner := ow, wo_mem := m, wo_pc := Resting\<rparr>)"
| local_free: "wo_pc w = Returning [] (To_Free p lay) \<Longrightarrow>
    slab_deallocate R NoProtection p lay (si_slab (wo_inner w), wo_mem w) = Done (s, m) \<Longrightarrow>
    own_step R T w (Local_Free p lay)
      (w\<lparr>wo_owner := put_slab s (wo_owner w), wo_mem := m, wo_pc := Resting,
         wo_live := {b \<in> wo_live w. block_key b \<noteq> (p, lay)}\<rparr>)"
| close: "wo_pc w = Resting \<Longrightarrow> owner_close (wo_inner w) = (es, i) \<Longrightarrow>
    own_step R T w Close
      (w\<lparr>wo_owner := (wo_owner w)\<lparr>so_inner := i\<rparr>, wo_pc := Returning es To_Close,
         wo_place := mark_all es (wo_place w)\<rparr>)"
| leave: "wo_pc w = Returning [] To_Close \<Longrightarrow> own_step R T w Leave (w\<lparr>wo_pc := Gone\<rparr>)"
| try_push: "wo_remote w t = Quiet \<Longrightarrow> (p, lay, n) \<in> wo_hand w \<Longrightarrow>
    remote_try_deallocate p lay (wo_inner w) = (r, i) \<Longrightarrow>
    own_step R T w (Try_Push t p lay (r = Inr ()))
      (w\<lparr>wo_owner := (wo_owner w)\<lparr>so_inner := i\<rparr>,
         wo_place := (if r = Inr () then (wo_place w)((p, lay) := In_Queue) else wo_place w)\<rparr>)"
| begin_push: "wo_remote w t = Quiet \<Longrightarrow> (p, lay, n) \<in> wo_hand w \<Longrightarrow>
    own_step R T w (Begin_Push t p lay)
      (w\<lparr>wo_remote := (wo_remote w)(t := Pushing p lay), wo_place := (wo_place w)((p, lay) := With_Remote t)\<rparr>)"
| attempt: "wo_remote w t = Pushing p lay \<Longrightarrow> remote_try_deallocate p lay (wo_inner w) = (r, i) \<Longrightarrow>
    own_step R T w (Attempt t (r = Inr ()))
      (w\<lparr>wo_owner := (wo_owner w)\<lparr>so_inner := i\<rparr>,
         wo_remote := (wo_remote w)(t := if r = Inr () then Quiet else Refused_Push p lay (si_closed (wo_inner w))),
         wo_place := (if r = Inr () then (wo_place w)((p, lay) := In_Queue) else wo_place w)\<rparr>)"
| look: "wo_remote w t = Refused_Push p lay saw \<Longrightarrow> (saw \<longrightarrow> c) \<Longrightarrow> (c \<longrightarrow> si_closed (wo_inner w)) \<Longrightarrow>
    own_step R T w (Look t c)
      (w\<lparr>wo_remote := (wo_remote w)(t := if c then Quiet else Pushing p lay),
         wo_place := (if c then (wo_place w)((p, lay) := Forfeited) else wo_place w)\<rparr>)"
| client_write: "same_on (- footprint (wo_hand w)) (wo_mem w) m \<Longrightarrow>
    own_step R T w Client_Write (w\<lparr>wo_mem := m\<rparr>)"

inductive own_run ::
  "'b fixed_range \<Rightarrow> type_layout \<Rightarrow> 'b owner_world \<Rightarrow> owner_event list \<Rightarrow> 'b owner_world \<Rightarrow> bool" for R T where
  own_nil: "own_run R T w [] w"
| own_snoc: "own_run R T w evs w' \<Longrightarrow> own_step R T w' ev w'' \<Longrightarrow> own_run R T w (evs @ [ev]) w''"

definition wo_start :: "'b slab_owner \<Rightarrow> mem \<Rightarrow> 'b owner_world" where
  "wo_start ow m = \<lparr>wo_owner = ow, wo_mem = m, wo_pc = Resting, wo_remote = (\<lambda>t. Quiet), wo_live = {},
     wo_place = (\<lambda>k. In_Hand)\<rparr>"

section \<open>The invariant\<close>

fun pc_batch :: "owner_pc \<Rightarrow> remote_entry list" where
  "pc_batch (Returning es job) = es"
| "pc_batch pc = []"

fun pc_call :: "owner_pc \<Rightarrow> remote_entry option" where
  "pc_call (Returning es (To_Free p lay)) = Some (p, lay)"
| "pc_call pc = None"

fun pc_closing :: "owner_pc \<Rightarrow> bool" where
  "pc_closing (Returning es To_Close) = True"
| "pc_closing Gone = True"
| "pc_closing pc = False"

fun pc_layout_ok :: "owner_pc \<Rightarrow> bool" where
  "pc_layout_ok (Returning es (To_Allocate lay)) = valid_layout lay"
| "pc_layout_ok (Returning es (To_Retry lay)) = valid_layout lay"
| "pc_layout_ok pc = True"

fun held :: "remote_pc \<Rightarrow> remote_entry option" where
  "held (Pushing p lay) = Some (p, lay)"
| "held (Refused_Push p lay saw) = Some (p, lay)"
| "held Quiet = None"

text \<open>Every live block is in one place, and the places are what the state says.\<close>

definition places_ok ::
  "'k set \<Rightarrow> ('k \<Rightarrow> place) \<Rightarrow> 'k list \<Rightarrow> 'k list \<Rightarrow> 'k option \<Rightarrow> (nat \<Rightarrow> 'k option) \<Rightarrow> bool" where
  "places_ok ks pl q batch call hld \<longleftrightarrow> distinct q \<and> distinct batch \<and>
     (\<forall>k. k \<in> set q \<longleftrightarrow> k \<in> ks \<and> pl k = In_Queue) \<and>
     (\<forall>k. k \<in> set batch \<longleftrightarrow> k \<in> ks \<and> pl k = In_Batch) \<and>
     (\<forall>k. call = Some k \<longleftrightarrow> k \<in> ks \<and> pl k = In_Call) \<and>
     (\<forall>k t. hld t = Some k \<longleftrightarrow> k \<in> ks \<and> pl k = With_Remote t)"

definition wo_inv :: "('b \<Rightarrow> mem \<Rightarrow> live \<Rightarrow> bool) \<Rightarrow> 'b fixed_range \<Rightarrow> type_layout \<Rightarrow> 'b owner_world \<Rightarrow> bool" where
  "wo_inv binv R T w \<longleftrightarrow>
     slab_inv True binv R NoProtection T (si_slab (wo_inner w)) (wo_mem w) (wo_live w) \<and>
     places_ok (block_key ` wo_live w) (wo_place w) (si_remote_queue (wo_inner w)) (pc_batch (wo_pc w))
       (pc_call (wo_pc w)) (\<lambda>t. held (wo_remote w t)) \<and>
     queue_ok (wo_inner w) (wo_live w) \<and>
     (si_closed (wo_inner w) \<longleftrightarrow> pc_closing (wo_pc w)) \<and>
     (si_closed (wo_inner w) \<longrightarrow> si_remote_queue (wo_inner w) = []) \<and>
     (\<forall>b \<in> wo_live w. wo_place w (block_key b) = Forfeited \<longrightarrow> si_closed (wo_inner w)) \<and>
     (\<forall>t p lay. wo_remote w t = Refused_Push p lay True \<longrightarrow> si_closed (wo_inner w)) \<and>
     pc_layout_ok (wo_pc w)"

lemma hand_subset: "wo_hand w \<subseteq> wo_live w"
  by (auto simp: wo_hand_def)

lemma key_filter:
  assumes "live_ok L" "(p, lay, n) \<in> L"
  shows "{b \<in> L. block_key b \<noteq> (p, lay)} = L - {(p, lay, n)}"
    "block_key ` (L - {(p, lay, n)}) = block_key ` L - {(p, lay)}"
proof -
  have "block_key b = (p, lay) \<longleftrightarrow> b = (p, lay, n)" if "b \<in> L" for b
    using inj_onD [OF live_ok_inj_key [OF assms(1)] _ that assms(2)] by auto
  then show "{b \<in> L. block_key b \<noteq> (p, lay)} = L - {(p, lay, n)}" by auto
  show "block_key ` (L - {(p, lay, n)}) = block_key ` L - {(p, lay)}"
    by (rule block_key_remove [OF assms(1) order_refl assms(2)])
qed

text \<open>How the places move: taking the queue, starting and finishing a call, pushing, serving.\<close>

lemma places_okD:
  assumes "places_ok ks pl q batch call hld"
  shows "distinct q" "distinct batch" "k \<in> set q \<longleftrightarrow> k \<in> ks \<and> pl k = In_Queue"
    "k \<in> set batch \<longleftrightarrow> k \<in> ks \<and> pl k = In_Batch" "call = Some k \<longleftrightarrow> k \<in> ks \<and> pl k = In_Call"
    "hld t = Some k \<longleftrightarrow> k \<in> ks \<and> pl k = With_Remote t"
  using assms by (auto simp: places_ok_def)

lemma places_take:
  assumes "places_ok ks pl q [] call hld"
  shows "places_ok ks (mark_all q pl) [] q call hld" "places_ok ks (mark_all [] pl) q [] call hld"
  using assms unfolding places_ok_def mark_all_def by auto

lemma places_call:
  assumes "places_ok ks pl q batch None hld" "k \<in> ks" "pl k = In_Hand"
  shows "places_ok ks (pl(k := In_Call)) q batch (Some k) hld"
  using assms unfolding places_ok_def by auto

lemma places_push:
  assumes "places_ok ks pl q batch call hld" "k \<in> ks" "pl k = In_Hand"
  shows "places_ok ks (pl(k := In_Queue)) (q @ [k]) batch call hld"
  using assms unfolding places_ok_def by auto

lemma places_begin:
  assumes "places_ok ks pl q batch call hld" "k \<in> ks" "pl k = In_Hand" "hld t = None"
  shows "places_ok ks (pl(k := With_Remote t)) q batch call (hld(t := Some k))"
proof -
  have "pl j \<noteq> With_Remote t" if "j \<in> ks" for j
    using assms(1,4) that unfolding places_ok_def by (metis option.distinct(1))
  then show ?thesis using assms unfolding places_ok_def by auto
qed

lemma places_finish:
  assumes "places_ok ks pl q batch call hld" "hld t = Some k"
  shows "places_ok ks (pl(k := In_Queue)) (q @ [k]) batch call (hld(t := None))"
    "places_ok ks (pl(k := Forfeited)) q batch call (hld(t := None))"
proof -
  note d = places_okD [OF assms(1)]
  have k: "k \<in> ks" "pl k = With_Remote t" using d(6) [of t k] assms(2) by auto
  have u: "j = k" if "j \<in> ks" "pl j = With_Remote t" for j
    using d(6) [of t j] assms(2) that by simp
  show "places_ok ks (pl(k := In_Queue)) (q @ [k]) batch call (hld(t := None))"
    "places_ok ks (pl(k := Forfeited)) q batch call (hld(t := None))"
    unfolding places_ok_def using u by (auto simp: d k)
qed

lemma places_return:
  assumes "places_ok ks pl q (k # es) call hld"
  shows "places_ok (ks - {k}) pl q es call hld"
proof -
  have "k \<in> ks" "pl k = In_Batch" "k \<notin> set es" using assms by (auto simp: places_ok_def)
  then show ?thesis using assms unfolding places_ok_def by auto
qed

lemma places_free:
  assumes "places_ok ks pl q batch (Some k) hld"
  shows "places_ok (ks - {k}) pl q batch None hld"
proof -
  note d = places_okD [OF assms(1)]
  have k: "k \<in> ks" "pl k = In_Call" using d(5) [of k] by auto
  have u: "j = k" if "j \<in> ks" "pl j = In_Call" for j
    using d(5) [of j] that by simp
  show ?thesis unfolding places_ok_def using u by (auto simp: d(1-4,6) k)
qed

lemma places_serve:
  assumes "places_ok ks pl q batch call hld" "k \<notin> ks"
  shows "places_ok (insert k ks) (pl(k := In_Hand)) q batch call hld"
  using assms unfolding places_ok_def by auto

lemma maybe_take_inner:
  assumes "maybe_take seen free ow = (es, ow')"
  shows "es = [] \<and> so_inner ow' = so_inner ow \<or>
    es = si_remote_queue (so_inner ow) \<and> es \<noteq> [] \<and>
      so_inner ow' = (so_inner ow)\<lparr>si_remote_queue := [], si_remote_queue_len := 0\<rparr>"
  using assms
  by (auto simp: maybe_take_def adaptive_threshold_def Let_def take_queue_def
      split: batch_policy.splits prod.splits if_splits)

text \<open>What taking the queue, by \<open>maybe_drain\<close> or by \<open>drain\<close>, does to the shared part.\<close>

definition taken :: "'b slab_inner \<Rightarrow> remote_entry list \<Rightarrow> 'b slab_inner \<Rightarrow> bool" where
  "taken i es i' \<longleftrightarrow> es = [] \<and> i' = i \<or>
     es = si_remote_queue i \<and> i' = i\<lparr>si_remote_queue := [], si_remote_queue_len := 0\<rparr>"

lemma taken_maybe: "maybe_take seen free ow = (es, ow') \<Longrightarrow> taken (so_inner ow) es (so_inner ow')"
  using maybe_take_inner unfolding taken_def by blast

lemma taken_drain: "take_queue i = (es, i') \<Longrightarrow> taken i es i'"
  by (auto simp: take_queue_def taken_def split: if_splits)

lemma taken_facts:
  assumes "taken i es i'" "queue_ok i L" "places_ok ks pl (si_remote_queue i) [] call hld"
  shows "si_slab i' = si_slab i" "si_closed i' = si_closed i" "queue_ok i' L"
    "places_ok ks (mark_all es pl) (si_remote_queue i') es call hld"
    "si_remote_queue i = [] \<Longrightarrow> si_remote_queue i' = []"
    "k \<in> set es \<Longrightarrow> pl k = In_Queue"
proof -
  show "si_slab i' = si_slab i" "si_closed i' = si_closed i" "queue_ok i' L"
    "si_remote_queue i = [] \<Longrightarrow> si_remote_queue i' = []"
    using assms(1,2) by (auto simp: taken_def queue_ok_def)
  show "places_ok ks (mark_all es pl) (si_remote_queue i') es call hld"
    using assms(1) places_take [OF assms(3)] by (auto simp: taken_def)
  show "k \<in> set es \<Longrightarrow> pl k = In_Queue"
    using assms(1) places_okD(3) [OF assms(3), of k] by (auto simp: taken_def)
qed

lemma mark_all_eq: "(\<And>k. k \<in> set es \<Longrightarrow> pl k = In_Queue) \<Longrightarrow>
    (mark_all es pl k = In_Hand \<longleftrightarrow> pl k = In_Hand) \<and> (mark_all es pl k = Forfeited \<longleftrightarrow> pl k = Forfeited)"
  by (auto simp: mark_all_def)

lemma wo_invD:
  assumes "wo_inv binv R T w"
  shows "slab_inv True binv R NoProtection T (si_slab (wo_inner w)) (wo_mem w) (wo_live w)"
    "places_ok (block_key ` wo_live w) (wo_place w) (si_remote_queue (wo_inner w)) (pc_batch (wo_pc w))
       (pc_call (wo_pc w)) (\<lambda>t. held (wo_remote w t))"
    "queue_ok (wo_inner w) (wo_live w)" "si_closed (wo_inner w) \<longleftrightarrow> pc_closing (wo_pc w)"
    "si_closed (wo_inner w) \<Longrightarrow> si_remote_queue (wo_inner w) = []"
    "b \<in> wo_live w \<Longrightarrow> wo_place w (block_key b) = Forfeited \<Longrightarrow> si_closed (wo_inner w)"
    "wo_remote w t = Refused_Push p lay True \<Longrightarrow> si_closed (wo_inner w)" "pc_layout_ok (wo_pc w)"
  using assms unfolding wo_inv_def by blast+

lemma in_hand:
  assumes "(p, lay, n) \<in> wo_hand w"
  shows "(p, lay, n) \<in> wo_live w" "(p, lay) \<in> block_key ` wo_live w" "wo_place w (p, lay) = In_Hand"
  using assms by (auto simp: wo_hand_def intro: rev_image_eqI)

lemma same_on_hand: "same_on (footprint L) m m' \<Longrightarrow> H \<subseteq> L \<Longrightarrow> same_on (footprint H) m m'"
  by (erule same_on_mono) (rule footprint_mono)

text \<open>The world after the owner took the queue, alone or with one of its own blocks to free.\<close>

lemma take_inv:
  assumes inv: "wo_inv binv R T w" and pc: "pc_batch (wo_pc w) = []" "pc_call (wo_pc w) = None" "\<not> pc_closing (wo_pc w)"
    and tk: "taken (wo_inner w) es (so_inner ow)"
    and pc': "pc_batch pc' = es" "pc_call pc' = None" "\<not> pc_closing pc'" "pc_layout_ok pc'"
  shows "wo_inv binv R T (w\<lparr>wo_owner := ow, wo_pc := pc', wo_place := mark_all es (wo_place w)\<rparr>)"
proof -
  note I = wo_invD [OF inv]
  note P = I(2) [unfolded pc]
  note t = taken_facts(1-4) [OF tk I(3) P]
  have m: "mark_all es (wo_place w) k = Forfeited \<longleftrightarrow> wo_place w k = Forfeited" for k
    using mark_all_eq [of es "wo_place w" k] taken_facts(6) [OF tk I(3) P] by blast
  show ?thesis
    using I t pc' pc m by (simp add: wo_inv_def wo_inner_def) blast
qed

text \<open>A push, by either call of a remote.\<close>

lemma push_inv:
  assumes inv: "wo_inv binv R T w" and k: "(p, lay) \<in> block_key ` wo_live w" "wo_place w (p, lay) \<noteq> In_Queue"
    and push: "remote_try_deallocate p lay (wo_inner w) = (Inr u, i)"
    and P: "places_ok (block_key ` wo_live w) ((wo_place w)((p, lay) := In_Queue))
       (si_remote_queue (wo_inner w) @ [(p, lay)]) (pc_batch (wo_pc w)) (pc_call (wo_pc w)) (\<lambda>t. held (rem t))"
    and rem: "\<And>t q lay'. rem t = Refused_Push q lay' True \<Longrightarrow> wo_remote w t = Refused_Push q lay' True"
  shows "wo_inv binv R T (w\<lparr>wo_owner := (wo_owner w)\<lparr>so_inner := i\<rparr>, wo_remote := rem,
     wo_place := (wo_place w)((p, lay) := In_Queue)\<rparr>)"
proof -
  note I = wo_invD [OF inv]
  have "(p, lay) \<notin> set (si_remote_queue (wo_inner w))" using places_okD(3) [OF I(2)] k by blast
  note q = push_queue_ok [OF I(3) k(1) this push, simplified]
  have "si_closed i = si_closed (wo_inner w)"
    using push by (auto simp: remote_try_deallocate_def Let_def split: if_splits)
  then show ?thesis using I q P rem by (simp add: wo_inv_def wo_inner_def) blast
qed

lemma push_refused:
  "remote_try_deallocate p lay i = (r, i') \<Longrightarrow> r \<noteq> Inr () \<Longrightarrow> i' = i"
  by (auto simp: remote_try_deallocate_def Let_def split: if_splits)

text \<open>No step changes the capacity of the queue.\<close>

lemma same_capacity:
  "maybe_take seen free ow = (es, ow') \<Longrightarrow> si_queue_capacity (so_inner ow') = si_queue_capacity (so_inner ow)"
  "slab_try R T lay (ow, m) = (r, ow', m') \<Longrightarrow> si_queue_capacity (so_inner ow') = si_queue_capacity (so_inner ow)"
  "take_queue i = (es, i') \<Longrightarrow> si_queue_capacity i' = si_queue_capacity i"
  "owner_close i = (es, i') \<Longrightarrow> si_queue_capacity i' = si_queue_capacity i"
  "remote_try_deallocate p lay i = (x, i') \<Longrightarrow> si_queue_capacity i' = si_queue_capacity i"
  using maybe_take_inner [of seen free ow es ow']
  by (auto simp: slab_try_def take_queue_def owner_close_def remote_try_deallocate_def Let_def
      split: prod.splits if_splits)

lemma own_step_capacity:
  assumes "own_step R T w ev w'"
  shows "si_queue_capacity (wo_inner w') = si_queue_capacity (wo_inner w)"
  using assms
proof cases
  case (drain lay e ow m es i)
  then show ?thesis using same_capacity(3) [OF drain(5)] same_capacity(2) [OF drain(4)] by (simp add: wo_inner_def)
qed (auto simp: wo_inner_def put_slab_def dest: same_capacity)

context ranged_contract
begin

text \<open>A slab operation on a block that leaves the live set, or on one that enters it.\<close>

lemma release_inv:
  assumes inv: "wo_inv ainv R T w" and k: "(p, lay) \<in> block_key ` wo_live w" "wo_place w (p, lay) \<noteq> In_Queue"
    and d: "slab_deallocate R NoProtection p lay (si_slab (wo_inner w), wo_mem w) = Done (s, m)"
    and P: "places_ok (block_key ` wo_live w - {(p, lay)}) (wo_place w) (si_remote_queue (wo_inner w))
       (pc_batch pc') (pc_call pc') (\<lambda>t. held (wo_remote w t))"
    and pc': "pc_closing pc' = pc_closing (wo_pc w)" "pc_layout_ok pc'"
  shows "wo_inv ainv R T (w\<lparr>wo_owner := put_slab s (wo_owner w), wo_mem := m, wo_pc := pc',
     wo_live := {b \<in> wo_live w. block_key b \<noteq> (p, lay)}\<rparr>) \<and>
     same_on (footprint {b \<in> wo_live w. block_key b \<noteq> (p, lay)}) (wo_mem w) m"
proof -
  note I = wo_invD [OF inv]
  obtain n where n: "(p, lay, n) \<in> wo_live w" using k(1) key_of by blast
  note kf = key_filter [OF allocator_core.inv_live [OF owned_core I(1)] n]
  have post: "owned_slab T s m (wo_live w - {(p, lay, n)})" "same_on (footprint (wo_live w - {(p, lay, n)})) (wo_mem w) m"
    using allocator_core.deallocate [OF owned_core I(1) n, unfolded d] by (auto simp: dealloc_post_def)
  have "(p, lay) \<notin> set (si_remote_queue (wo_inner w))" using places_okD(3) [OF I(2)] k by blast
  then have "queue_ok (so_inner (put_slab s (wo_owner w))) (wo_live w - {(p, lay, n)})"
    using I(3) unfolding queue_ok_def kf(2) by (auto simp: put_slab_def wo_inner_def)
  then show ?thesis
    unfolding kf(1) using I post P pc' kf(2) by (simp add: wo_inv_def wo_inner_def put_slab_def) blast
qed

lemma idle_inv:
  assumes inv: "wo_inv ainv R T w" and s: "owned_slab T s m (wo_live w)"
    and pc': "pc_batch pc' = pc_batch (wo_pc w)" "pc_call pc' = pc_call (wo_pc w)"
      "pc_closing pc' = pc_closing (wo_pc w)" "pc_layout_ok pc'"
  shows "wo_inv ainv R T (w\<lparr>wo_owner := put_slab s (wo_owner w), wo_mem := m, wo_pc := pc'\<rparr>)"
  using wo_invD [OF inv] s pc' by (simp add: wo_inv_def wo_inner_def put_slab_def queue_ok_def)

lemma serve_inv:
  assumes inv: "wo_inv ainv R T w" and s: "owned_slab T s m (insert (p, lay, n) (wo_live w))"
    and new: "(p, lay) \<notin> block_key ` wo_live w"
    and pc: "pc_batch (wo_pc w) = []" "pc_call (wo_pc w) = None" "\<not> pc_closing (wo_pc w)"
  shows "wo_inv ainv R T (w\<lparr>wo_owner := put_slab s (wo_owner w), wo_mem := m, wo_pc := Resting,
     wo_live := insert (p, lay, n) (wo_live w), wo_place := (wo_place w)((p, lay) := In_Hand)\<rparr>)"
proof -
  note I = wo_invD [OF inv]
  have P: "places_ok (insert (p, lay) (block_key ` wo_live w)) ((wo_place w)((p, lay) := In_Hand))
      (si_remote_queue (wo_inner w)) [] None (\<lambda>t. held (wo_remote w t))"
    by (rule places_serve) (use I(2) pc new in simp_all)
  have Q: "queue_ok ((so_inner (wo_owner w))\<lparr>si_slab := s\<rparr>) (insert (p, lay, n) (wo_live w))"
    using I(3) by (auto simp: queue_ok_def wo_inner_def)
  have c: "\<not> si_closed (so_inner (wo_owner w))" using I(4) pc(3) by (simp add: wo_inner_def)
  have F: "wo_place w (block_key b) \<noteq> Forfeited" if "b \<in> wo_live w" for b
    using I(6) [of b] that c by (auto simp: wo_inner_def)
  have X: "\<not> wo_remote w t = Refused_Push p lay True" for t p lay
    using I(7) c by (auto simp: wo_inner_def)
  show ?thesis
    unfolding wo_inv_def using s P Q c F X by (simp add: wo_inner_def put_slab_def)
qed

lemma try_inv:
  assumes inv: "wo_inv ainv R T w" and lay: "valid_layout lay"
    and t: "slab_try R T lay (wo_owner w, wo_mem w) = (r, ow, m)"
  shows "same_on (footprint (wo_live w)) (wo_mem w) m"
    "ow = put_slab (si_slab (so_inner ow)) (wo_owner w)"
    "case r of Inl e \<Rightarrow> owned_slab T (si_slab (so_inner ow)) m (wo_live w)
     | Inr (p, n) \<Rightarrow> block_ok lay p n \<and> span p n \<inter> footprint (wo_live w) = {} \<and>
         owned_slab T (si_slab (so_inner ow)) m (insert (p, lay, n) (wo_live w)) \<and> (p, lay) \<notin> block_key ` wo_live w"
proof -
  note I = wo_invD [OF inv]
  obtain s where al: "slab_allocate R NoProtection T lay (si_slab (wo_inner w), wo_mem w) = (r, s, m)"
    and ow: "ow = put_slab s (wo_owner w)"
    using t by (auto simp: slab_try_def wo_inner_def put_slab_def split: prod.splits)
  note post = allocator_core.allocate [OF owned_core I(1) lay, unfolded al]
  show "same_on (footprint (wo_live w)) (wo_mem w) m" using post by (auto simp: alloc_post_def split: sum.splits)
  show "ow = put_slab (si_slab (so_inner ow)) (wo_owner w)" by (simp add: ow put_slab_def)
  show "case r of Inl e \<Rightarrow> owned_slab T (si_slab (so_inner ow)) m (wo_live w)
     | Inr (p, n) \<Rightarrow> block_ok lay p n \<and> span p n \<inter> footprint (wo_live w) = {} \<and>
         owned_slab T (si_slab (so_inner ow)) m (insert (p, lay, n) (wo_live w)) \<and> (p, lay) \<notin> block_key ` wo_live w"
  proof (cases r)
    case (Inr b)
    obtain p n where b: "b = (p, n)" by (cases b)
    have ok: "block_ok lay p n" "span p n \<inter> footprint (wo_live w) = {}" "owned_slab T s m (insert (p, lay, n) (wo_live w))"
      using post Inr b by (auto simp: alloc_post_def)
    have "(p, lay) \<notin> set [(p, lay)]" if "(p, lay) \<in> block_key ` wo_live w"
      by (rule fresh_not_queued [OF _ allocator_core.inv_live [OF owned_core I(1)] ok(1,2)]) (use that in simp)
    then show ?thesis using ok Inr b by (auto simp: ow put_slab_def)
  qed (use post ow in \<open>simp add: alloc_post_def put_slab_def\<close>)
qed

text \<open>
  Every step keeps the invariant and, unless it is a client's write, leaves the bytes of every block
  that a client holds before and after it as they were.
\<close>

lemma own_step_inv:
  assumes st: "own_step R T w ev w'" and inv: "wo_inv ainv R T w"
  shows "wo_inv ainv R T w' \<and>
    (ev \<noteq> Client_Write \<longrightarrow> same_on (footprint (wo_hand w \<inter> wo_hand w')) (wo_mem w) (wo_mem w'))"
proof -
  note I = wo_invD [OF inv]
  have HL: "wo_hand w \<inter> wo_hand v \<subseteq> wo_live w" "wo_hand w \<inter> wo_hand v \<subseteq> wo_live v" for v :: "'a owner_world"
    using hand_subset by blast+
  from st show ?thesis
  proof cases
    case (start_allocate lay seen free es ow)
    have "wo_inv ainv R T w'"
      unfolding start_allocate(2)
      by (rule take_inv [OF inv]) (use start_allocate taken_maybe in \<open>auto simp: wo_inner_def\<close>)
    then show ?thesis by (simp add: start_allocate(2))
  next
    case (start_free p lay n seen free es ow)
    note h = in_hand [OF start_free(4)]
    let ?v = "w\<lparr>wo_owner := ow, wo_pc := Returning es (To_Retry lay), wo_place := mark_all es (wo_place w)\<rparr>"
    have lay: "valid_layout lay"
      using live_okD [OF allocator_core.inv_live [OF owned_core I(1)] h(1)] by (rule block_okD)
    have tk: "taken (wo_inner w) es (so_inner ow)" using taken_maybe [OF start_free(5)] by (simp add: wo_inner_def)
    have v: "wo_inv ainv R T ?v"
      by (rule take_inv [OF inv _ _ _ tk]) (use start_free lay in auto)
    note J = wo_invD [OF v]
    have "mark_all es (wo_place w) (p, lay) = In_Hand"
      using taken_facts(6) [OF tk I(3), of "block_key ` wo_live w" "wo_place w"] I(2) start_free(3) h(3)
      by (auto simp: mark_all_def)
    then have "places_ok (block_key ` wo_live w) ((mark_all es (wo_place w))((p, lay) := In_Call))
        (si_remote_queue (so_inner ow)) es (Some (p, lay)) (\<lambda>t. held (wo_remote w t))"
      using places_call [of "block_key ` wo_live w" "mark_all es (wo_place w)"] J(2) h(2) by (simp add: wo_inner_def)
    then have "wo_inv ainv R T w'"
      using J start_free(2) by (simp add: wo_inv_def wo_inner_def) blast
    then show ?thesis by (simp add: start_free(2))
  next
    case (return_one p lay es job s m)
    have b: "(p, lay) \<in> block_key ` wo_live w" "wo_place w (p, lay) = In_Batch"
      using places_okD(4) [OF I(2), of "(p, lay)"] return_one(3) by auto
    have "pc_call (Returning es job) = pc_call (wo_pc w)" "pc_closing (Returning es job) = pc_closing (wo_pc w)"
      "pc_layout_ok (Returning es job)"
      using I(8) return_one(3) by (cases job; simp)+
    then have "wo_inv ainv R T w' \<and> same_on (footprint (wo_live w')) (wo_mem w) (wo_mem w')"
      using release_inv [OF inv b(1) _ return_one(4), of "Returning es job"] b(2)
        places_return [OF I(2) [unfolded return_one(3) pc_batch.simps]] return_one(2,3) by simp
    then show ?thesis using same_on_hand [OF _ HL(2)] by blast
  next
    case (serve lay p n ow m)
    have v: "valid_layout lay" using serve(3) I(8) by auto
    note t = try_inv [OF inv v serve(4)]
    have "wo_inv ainv R T w'"
      unfolding serve(2)
      by (subst t(2), rule serve_inv [OF inv]) (use t(3) serve(3) in auto)
    then show ?thesis using t(1) same_on_hand [OF _ HL(1)] serve(2) by simp
  next
    case (drain lay e ow m es i)
    have v: "valid_layout lay" using drain(3) I(8) by auto
    note t = try_inv [OF inv v drain(4)]
    let ?u = "w\<lparr>wo_owner := ow, wo_mem := m\<rparr>"
    have "wo_inv ainv R T (w\<lparr>wo_owner := put_slab (si_slab (so_inner ow)) (wo_owner w), wo_mem := m, wo_pc := wo_pc w\<rparr>)"
      by (rule idle_inv [OF inv]) (use t(3) I(8) in simp_all)
    then have u: "wo_inv ainv R T ?u" using t(2) by simp
    have v: "wo_inv ainv R T (?u\<lparr>wo_owner := ow\<lparr>so_inner := i\<rparr>, wo_pc := Returning es (To_Retry lay),
        wo_place := mark_all es (wo_place ?u)\<rparr>)"
      by (rule take_inv [OF u]) (use drain taken_drain v in \<open>auto simp: wo_inner_def\<close>)
    have e: "?u\<lparr>wo_owner := ow\<lparr>so_inner := i\<rparr>, wo_pc := Returning es (To_Retry lay),
        wo_place := mark_all es (wo_place ?u)\<rparr> = w'" by (cases w) (simp add: drain(2))
    show ?thesis using subst [OF e, where P = "wo_inv ainv R T", OF v] t(1) same_on_hand [OF _ HL(1)] drain(2) by simp
  next
    case (give_up lay e ow m)
    have v: "valid_layout lay" using give_up(3) I(8) by auto
    note t = try_inv [OF inv v give_up(4)]
    have "wo_inv ainv R T (w\<lparr>wo_owner := put_slab (si_slab (so_inner ow)) (wo_owner w), wo_mem := m, wo_pc := Resting\<rparr>)"
      by (rule idle_inv [OF inv]) (use t(3) give_up(3) in simp_all)
    then have "wo_inv ainv R T w'" using t(2) give_up(2) by simp
    then show ?thesis using t(1) same_on_hand [OF _ HL(1)] give_up(2) by simp
  next
    case (local_free p lay s m)
    have b: "(p, lay) \<in> block_key ` wo_live w" "wo_place w (p, lay) = In_Call"
      using places_okD(5) [OF I(2), of "(p, lay)"] local_free(3) by auto
    have "wo_inv ainv R T w' \<and> same_on (footprint (wo_live w')) (wo_mem w) (wo_mem w')"
      using release_inv [OF inv b(1) _ local_free(4), of Resting] b(2)
        places_free [OF I(2) [unfolded local_free(3) pc_call.simps]] local_free(2,3) by simp
    then show ?thesis using same_on_hand [OF _ HL(2)] by blast
  next
    case (close es i)
    have P: "places_ok (block_key ` wo_live w) (wo_place w) (si_remote_queue (wo_inner w)) [] None
        (\<lambda>t. held (wo_remote w t))" using I(2) close(3) by simp
    have e: "es = si_remote_queue (wo_inner w)"
      "i = (wo_inner w)\<lparr>si_closed := True, si_remote_queue := [], si_remote_queue_len := 0\<rparr>"
      using close(4) by (auto simp: owner_close_def)
    have "wo_inv ainv R T w'"
      using I places_take(1) [OF P] unfolding close(2) e
      by (simp add: wo_inv_def wo_inner_def queue_ok_def)
    then show ?thesis by (simp add: close(2))
  next
    case leave
    then have "wo_inv ainv R T w'" using I by (simp add: wo_inv_def wo_inner_def)
    then show ?thesis by (simp add: leave(2))
  next
    case (try_push t p lay n r i)
    note h = in_hand [OF try_push(4)]
    have "wo_inv ainv R T w'"
    proof (cases "r = Inr ()")
      case True
      have "wo_inv ainv R T (w\<lparr>wo_owner := (wo_owner w)\<lparr>so_inner := i\<rparr>, wo_remote := wo_remote w,
          wo_place := (wo_place w)((p, lay) := In_Queue)\<rparr>)"
        by (rule push_inv [OF inv h(2) _ try_push(5) [unfolded True]])
          (use h places_push [OF I(2) h(2,3)] in simp_all)
      then show ?thesis using True try_push(2) by simp
    next
      case False
      then show ?thesis using push_refused [OF try_push(5)] try_push(2) inv by (simp add: wo_inner_def)
    qed
    then show ?thesis by (simp add: try_push(2))
  next
    case (begin_push t p lay n)
    note h = in_hand [OF begin_push(4)]
    have "(\<lambda>u. held (((wo_remote w)(t := Pushing p lay)) u)) = (\<lambda>t. held (wo_remote w t))(t := Some (p, lay))"
      by auto
    then have "wo_inv ainv R T w'"
      using I places_begin [OF I(2) h(2,3), of t] begin_push(3) unfolding begin_push(2)
      by (simp add: wo_inv_def wo_inner_def) blast
    then show ?thesis by (simp add: begin_push(2))
  next
    case (attempt t p lay r i)
    have k: "(p, lay) \<in> block_key ` wo_live w" "wo_place w (p, lay) = With_Remote t"
      using places_okD(6) [OF I(2), of t "(p, lay)"] attempt(3) by auto
    have "wo_inv ainv R T w'"
    proof (cases "r = Inr ()")
      case True
      have f: "(\<lambda>u. held (((wo_remote w)(t := Quiet)) u)) = (\<lambda>t. held (wo_remote w t))(t := None)" by auto
      have "wo_inv ainv R T (w\<lparr>wo_owner := (wo_owner w)\<lparr>so_inner := i\<rparr>, wo_remote := (wo_remote w)(t := Quiet),
          wo_place := (wo_place w)((p, lay) := In_Queue)\<rparr>)"
        by (rule push_inv [OF inv k(1) _ attempt(4) [unfolded True]])
          (use k places_finish(1) [OF I(2), of t "(p, lay)"] attempt(3) f in \<open>simp_all split: if_splits\<close>)
      then show ?thesis using True attempt(2) by simp
    next
      case False
      have f: "(\<lambda>u. held (((wo_remote w)(t := Refused_Push p lay b)) u)) = (\<lambda>t. held (wo_remote w t))" for b
        using attempt(3) by auto
      show ?thesis
        using False I f push_refused [OF attempt(4)] unfolding attempt(2)
        by (simp add: wo_inv_def wo_inner_def) blast
    qed
    then show ?thesis by (simp add: attempt(2))
  next
    case (look t p lay saw c)
    have f: "(\<lambda>u. held (((wo_remote w)(t := Quiet)) u)) = (\<lambda>t. held (wo_remote w t))(t := None)"
      "(\<lambda>u. held (((wo_remote w)(t := Pushing p lay)) u)) = (\<lambda>t. held (wo_remote w t))"
      using look(3) by auto
    have "wo_inv ainv R T w'"
    proof (cases c)
      case True
      then show ?thesis
        using I f places_finish(2) [OF I(2), of t "(p, lay)"] look(3,5) unfolding look(2)
        by (simp add: wo_inv_def wo_inner_def)
    next
      case False
      then show ?thesis using I f unfolding look(2) by (simp add: wo_inv_def wo_inner_def) blast
    qed
    then show ?thesis by (simp add: look(2))
  next
    case (client_write m)
    have "same_on (- footprint (wo_live w)) (wo_mem w) m"
      using same_on_mono [OF client_write(3)] footprint_mono [OF hand_subset] by (metis compl_mono)
    from allocator_core.user_write [OF owned_core I(1) this] show ?thesis
      using I client_write by (simp add: wo_inv_def wo_inner_def)
  qed
qed

lemma own_run_inv:
  assumes "own_run R T w evs w'" "wo_inv ainv R T w"
  shows "wo_inv ainv R T w' \<and>
    si_queue_capacity (wo_inner w') = si_queue_capacity (wo_inner w)"
  using assms
proof (induction rule: own_run.induct)
  case (own_snoc w evs w' ev w'')
  then show ?case using own_step_inv own_step_capacity by metis
qed simp

lemma wo_start_inv:
  assumes "owner_inv ainv R T ow m {}" "\<not> si_closed (so_inner ow)" "si_remote_queue (so_inner ow) = []"
  shows "wo_inv ainv R T (wo_start ow m)"
  using assms
  by (simp add: wo_inv_def wo_start_def wo_inner_def owner_inv_def places_ok_def)

end

section \<open>How long a call of the owner takes\<close>

fun owner_made :: "owner_event \<Rightarrow> bool" where
  "owner_made (Try_Push t p lay ok) = False"
| "owner_made (Begin_Push t p lay) = False"
| "owner_made (Attempt t ok) = False"
| "owner_made (Look t c) = False"
| "owner_made Client_Write = False"
| "owner_made ev = True"

text \<open>The steps the owner's current call has left at most: a refused first attempt drains once more.\<close>

fun calls_left :: "nat \<Rightarrow> owner_pc \<Rightarrow> nat" where
  "calls_left cap (Returning es (To_Allocate lay)) = length es + cap + 2"
| "calls_left cap (Returning es job) = length es + 1"
| "calls_left cap pc = 0"

abbreviation steps_left :: "'b owner_world \<Rightarrow> nat" where
  "steps_left w \<equiv> calls_left (unat (si_queue_capacity (wo_inner w))) (wo_pc w)"

lemma queue_bounded: "wo_inv binv R T w \<Longrightarrow> length (si_remote_queue (wo_inner w)) \<le> unat (si_queue_capacity (wo_inner w))"
  by (simp add: wo_inv_def queue_ok_def)

text \<open>What is taken from the queue is no longer than the queue.\<close>

lemma taken_length:
  "maybe_take seen free ow = (es, ow') \<Longrightarrow> length es \<le> length (si_remote_queue (so_inner ow))"
  "take_queue i = (es, i') \<Longrightarrow> length es = length (si_remote_queue i)"
  "owner_close i = (es, i') \<Longrightarrow> length es = length (si_remote_queue i)"
  "slab_try R T lay (ow, m) = (r, ow2, m') \<Longrightarrow> si_remote_queue (so_inner ow2) = si_remote_queue (so_inner ow)"
  using maybe_take_inner [of seen free ow es ow']
  by (auto simp: slab_try_def take_queue_def owner_close_def split: prod.splits if_splits)

lemma own_step_left:
  assumes st: "own_step R T w ev w'" and q: "length (si_remote_queue (wo_inner w)) \<le> unat (si_queue_capacity (wo_inner w))"
  shows "if \<not> owner_made ev then steps_left w' = steps_left w
    else if wo_pc w = Resting then steps_left w' \<le> 2 * unat (si_queue_capacity (wo_inner w)) + 2
    else steps_left w' < steps_left w"
proof -
  define c where "c = unat (si_queue_capacity (wo_inner w))"
  have c': "unat (si_queue_capacity (wo_inner w')) = c" by (simp add: c_def own_step_capacity [OF st])
  have q: "length (si_remote_queue (wo_inner w)) \<le> c" using q by (simp add: c_def)
  from st have "if \<not> owner_made ev then calls_left c (wo_pc w') = calls_left c (wo_pc w)
      else if wo_pc w = Resting then calls_left c (wo_pc w') \<le> 2 * c + 2
      else calls_left c (wo_pc w') < calls_left c (wo_pc w)"
  proof cases
    case (start_allocate lay seen free es ow)
    then show ?thesis using taken_length(1) [OF start_allocate(5)] q by (simp add: wo_inner_def)
  next
    case (start_free p lay n seen free es ow)
    then show ?thesis using taken_length(1) [OF start_free(5)] q by (simp add: wo_inner_def)
  next
    case (return_one p lay es job s m)
    then show ?thesis by (cases job) simp_all
  next
    case (drain lay e ow m es i)
    then show ?thesis using taken_length(2) [OF drain(5)] taken_length(4) [OF drain(4)] q
      by (simp add: wo_inner_def)
  next
    case (close es i)
    then show ?thesis using taken_length(3) [OF close(4)] q by (simp add: wo_inner_def)
  qed auto
  then show ?thesis unfolding c_def [symmetric] c' .
qed

text \<open>A call that has begun is never stuck, whatever the other threads did.\<close>

lemma own_step_enabled:
  assumes "wo_pc w = Returning es job"
  shows "\<exists>ev w'. own_step R T w ev w' \<and> owner_made ev"
proof (cases es)
  case (Cons e es')
  obtain p lay where e: "e = (p, lay)" by (cases e)
  obtain s m where "slab_deallocate R NoProtection p lay (si_slab (wo_inner w), wo_mem w) = Done (s, m)"
    using slab_deallocate_done by (metis surj_pair)
  from return_one [OF assms [unfolded Cons e] this] show ?thesis by force
next
  case Nil
  have tries: "\<exists>r ow m. slab_try R T lay (wo_owner w, wo_mem w) = (r, ow, m)" for lay by (metis surj_pair)
  show ?thesis
  proof (cases job)
    case (To_Allocate lay)
    obtain r ow m where t: "slab_try R T lay (wo_owner w, wo_mem w) = (r, ow, m)" using tries by blast
    obtain fs i where q: "take_queue (so_inner ow) = (fs, i)" by (metis surj_pair)
    show ?thesis
    proof (cases r)
      case (Inl e)
      from drain [of w lay, OF _ t [unfolded Inl] q] show ?thesis using assms Nil To_Allocate by force
    next
      case (Inr b)
      obtain p n where "b = (p, n)" by (cases b)
      from serve [of w lay, OF _ t [unfolded Inr this]] show ?thesis using assms Nil To_Allocate by force
    qed
  next
    case (To_Retry lay)
    obtain r ow m where t: "slab_try R T lay (wo_owner w, wo_mem w) = (r, ow, m)" using tries by blast
    show ?thesis
    proof (cases r)
      case (Inl e)
      from give_up [of w lay, OF _ t [unfolded Inl]] show ?thesis using assms Nil To_Retry by force
    next
      case (Inr b)
      obtain p n where "b = (p, n)" by (cases b)
      from serve [of w lay, OF _ t [unfolded Inr this]] show ?thesis using assms Nil To_Retry by force
    qed
  next
    case (To_Free p lay)
    obtain s m where "slab_deallocate R NoProtection p lay (si_slab (wo_inner w), wo_mem w) = Done (s, m)"
      using slab_deallocate_done by (metis surj_pair)
    from local_free [OF _ this] show ?thesis using assms Nil To_Free by force
  next
    case To_Close
    from leave [of w] show ?thesis using assms Nil To_Close by force
  qed
qed

section \<open>Blocks are served and freed once\<close>

definition served :: "owner_event list \<Rightarrow> nat" where
  "served evs = length (filter (\<lambda>ev. case ev of Serve lay b \<Rightarrow> True | _ \<Rightarrow> False) evs)"

definition freed :: "owner_event list \<Rightarrow> nat" where
  "freed evs = length (filter (\<lambda>ev. case ev of Return p lay \<Rightarrow> True | Local_Free p lay \<Rightarrow> True | _ \<Rightarrow> False) evs)"

lemma served_append: "served (xs @ ys) = served xs + served ys" "freed (xs @ ys) = freed xs + freed ys"
  by (simp_all add: served_def freed_def)

lemma card_freed:
  assumes "live_ok L" "finite L" "(p, lay) \<in> block_key ` L"
  shows "finite {b \<in> L. block_key b \<noteq> (p, lay)} \<and> card {b \<in> L. block_key b \<noteq> (p, lay)} + 1 = card L"
proof -
  obtain n where n: "(p, lay, n) \<in> L" using assms(3) key_of by blast
  have "0 < card L" using n assms(2) by (auto simp: card_gt_0_iff)
  then show ?thesis unfolding key_filter(1) [OF assms(1) n] using n assms(2) by simp
qed

context ranged_contract
begin

lemma own_step_count:
  assumes st: "own_step R T w ev w'" and inv: "wo_inv ainv R T w" and fin: "finite (wo_live w)"
  shows "finite (wo_live w') \<and> card (wo_live w') + freed [ev] = card (wo_live w) + served [ev]"
proof -
  note I = wo_invD [OF inv]
  note ok = allocator_core.inv_live [OF owned_core I(1)]
  from st show ?thesis
  proof cases
    case (return_one p lay es job s m)
    have "(p, lay) \<in> block_key ` wo_live w"
      using places_okD(4) [OF I(2), of "(p, lay)"] return_one(3) by auto
    from card_freed [OF ok fin this] show ?thesis by (simp add: return_one(1,2) served_def freed_def)
  next
    case (local_free p lay s m)
    have "(p, lay) \<in> block_key ` wo_live w"
      using places_okD(5) [OF I(2), of "(p, lay)"] local_free(3) by auto
    from card_freed [OF ok fin this] show ?thesis by (simp add: local_free(1,2) served_def freed_def)
  next
    case (serve lay p n ow m)
    have "valid_layout lay" using serve(3) I(8) by auto
    from try_inv(3) [OF inv this serve(4)] have "(p, lay, n) \<notin> wo_live w" by force
    then show ?thesis using fin by (simp add: serve(1,2) served_def freed_def)
  qed (use fin in \<open>simp_all add: served_def freed_def\<close>)
qed

lemma own_run_count:
  assumes "own_run R T w evs w'" "wo_inv ainv R T w" "finite (wo_live w)"
  shows "finite (wo_live w') \<and> card (wo_live w') + freed evs = card (wo_live w) + served evs"
  using assms
proof (induction rule: own_run.induct)
  case (own_nil w)
  then show ?case by (simp add: served_def freed_def)
next
  case (own_snoc w evs w' ev w'')
  then have "wo_inv ainv R T w'" using own_run_inv by blast
  then show ?case using own_snoc own_step_count [OF own_snoc(2)] by (simp add: served_append)
qed

text \<open>While the owner lives, no block is lost: what no client holds is on its way to the slab.\<close>

lemma none_lost:
  assumes "wo_inv ainv R T w" "b \<in> wo_live w - wo_hand w" "\<not> si_closed (wo_inner w)"
  shows "block_key b \<in> set (si_remote_queue (wo_inner w)) \<union> set (pc_batch (wo_pc w)) \<or>
    pc_call (wo_pc w) = Some (block_key b) \<or> (\<exists>t. held (wo_remote w t) = Some (block_key b))"
proof -
  note I = wo_invD [OF assms(1)]
  note d = places_okD(3-6) [OF I(2), where k = "block_key b"]
  have k: "block_key b \<in> block_key ` wo_live w" using assms(2) by blast
  show ?thesis
  proof (cases "wo_place w (block_key b)")
    case In_Hand
    then show ?thesis using assms(2) by (simp add: wo_hand_def)
  next
    case (With_Remote t)
    then show ?thesis using d(4) [of t] k by blast
  next
    case Forfeited
    then show ?thesis using I(6) [of b] assms(2,3) by blast
  qed (use d(1-3) k in blast)+
qed

end

end
