(* ===== verification/Owner_Properties.thy ===== *)
theory Owner_Properties
  imports Examples Owner_Threads
begin

text \<open>
  Properties of \<open>SlabOwner\<close> and \<open>SlabRemote\<close>: the owner alone and under every interleaving with its
  remotes. The example owner has a slab of four 16-byte slots over the inline buffer.
\<close>

definition demo_owner :: "inline_backed slab_owner" where
  "demo_owner = \<lparr>so_inner = \<lparr>si_slab = demo_slab, si_queue_capacity = 8, si_remote_queue = [],
       si_remote_queue_len = 0, si_closed = False\<rparr>,
     so_batch_policy = Fixed 4, so_adaptive = adaptive_initial\<rparr>"

lemma demo_owner_new:
  "owner_with_batch_policy (inline_allocator 256) (inline_range 256) demo_type 4 (Fixed 4) 8 (demo_inline, m) =
     (Inr demo_owner, \<lparr>ib_addr = 4096, ib_cursor = 64\<rparr>, m)"
  by (simp add: owner_with_batch_policy_def demo_slab_new demo_owner_def)

text \<open>
  C14. \<open>SlabOwner\<close> over any ranged backing meets the whole \<open>Allocator\<close> contract for the blocks that no
  remote has given back; a remote's successful push ends its client's claim on just that block; and
  \<open>allocate\<close> refuses a fitting request only when clients hold every slot of the slab, since a refused
  first attempt drains the queue and tries again.
\<close>

theorem slab_owner_correct:
  assumes "ranged_contract A ainv R" "ainv b m {}" "type_ok T"
    "owner_with_batch_policy A R T capacity policy qcap (b, m) = (Inr ow, b', m')"
  shows "allocator_contract (owner_allocator R T) (owner_inv ainv R T) \<and> owner_inv ainv R T ow m' {} \<and>
    (\<forall>ow m H p lay n i. owner_inv ainv R T ow m H \<and> (p, lay, n) \<in> H \<and>
       remote_try_deallocate p lay (so_inner ow) = (Inr (), i) \<longrightarrow>
       owner_inv ainv R T (ow\<lparr>so_inner := i\<rparr>) m (H - {(p, lay, n)})) \<and>
    (\<forall>ow m H lay e st i. owner_inv ainv R T ow m H \<and> valid_layout lay \<and> lay_align lay \<le> slot_align T \<and>
       lay_size lay \<le> sl_block_stride (si_slab (so_inner ow)) \<and>
       owner_allocate R T lay (ow, m) = (Inl e, st) \<and> i < sl_capacity (si_slab (so_inner ow)) \<longrightarrow>
       (\<exists>lay n. (slab_slot_ptr R (si_slab (so_inner ow)) i, lay, n) \<in> H))"
proof (intro conjI allI impI; (elim conjE)?)
  show "allocator_contract (owner_allocator R T) (owner_inv ainv R T)"
    by (rule ranged_contract.owner_contract [OF assms(1)])
  show "owner_inv ainv R T ow m' {}"
    by (rule ranged_contract.owner_new_inv(1) [OF assms(1,4,2,3)])
qed (use ranged_contract.remote_push_post [OF assms(1)] ranged_contract.owner_refuses [OF assms(1)] in \<open>auto\<close>)

theorem slab_owner_correct_witness:
  "allocator_contract (owner_allocator (inline_range 256) demo_type) (owner_inv (inline_inv 256) (inline_range 256) demo_type) \<and>
   owner_inv (inline_inv 256) (inline_range 256) demo_type demo_owner zero_mem {}"
  using slab_owner_correct [OF inline.ranged_contract_axioms demo_inline_ok demo_type_ok demo_owner_new] by blast

text \<open>
  C13. Under every interleaving of a \<open>SlabOwner\<close> with its remotes, the blocks handed out and those on
  their way back are valid and pairwise disjoint; no step but a client's own write changes a byte of a
  block its client keeps; a block that no client holds is in the queue, in a batch the owner is
  returning, or in a call in progress, unless the owner has closed; every block served is freed at
  most once; and the queue never exceeds its capacity and stays empty once closed.
\<close>

theorem slab_owner_race_free:
  assumes "ranged_contract A ainv R" "ainv b m {}" "type_ok T"
    "owner_with_batch_policy A R T capacity policy qcap (b, m) = (Inr ow, b', m')"
    "own_run R T (wo_start ow m') evs w" "own_step R T w ev w'"
  shows "live_ok (wo_live w) \<and> card (wo_live w) + freed evs = served evs \<and>
    (ev \<noteq> Client_Write \<longrightarrow> same_on (footprint (wo_hand w \<inter> wo_hand w')) (wo_mem w) (wo_mem w')) \<and>
    (\<forall>c \<in> wo_live w - wo_hand w. si_closed (wo_inner w) \<or>
       block_key c \<in> set (si_remote_queue (wo_inner w)) \<union> set (pc_batch (wo_pc w)) \<or>
       pc_call (wo_pc w) = Some (block_key c) \<or> (\<exists>t. held (wo_remote w t) = Some (block_key c))) \<and>
    length (si_remote_queue (wo_inner w)) \<le> unat qcap \<and>
    (si_closed (wo_inner w) \<longrightarrow> si_remote_queue (wo_inner w) = [])"
proof -
  note n = ranged_contract.owner_new_inv [OF assms(1,4,2,3)]
  note s = ranged_contract.wo_start_inv [OF assms(1) n(1,3,5)]
  note r = ranged_contract.own_run_inv [OF assms(1,5) s]
  then have I: "wo_inv ainv R T w" by blast
  have "live_ok (wo_live w)"
    by (rule allocator_core.inv_live [OF ranged_contract.owned_core [OF assms(1)] wo_invD(1) [OF I]])
  moreover have "card (wo_live w) + freed evs = served evs"
    using ranged_contract.own_run_count [OF assms(1,5) s] by (simp add: wo_start_def)
  moreover have "length (si_remote_queue (wo_inner w)) \<le> unat qcap"
    using queue_bounded [OF I] r n(6) by (simp add: wo_start_def wo_inner_def)
  ultimately show ?thesis
    using ranged_contract.own_step_inv [OF assms(1,6) I] ranged_contract.none_lost [OF assms(1) I] wo_invD(5) [OF I]
    by blast
qed

text \<open>The owner serves a block; a remote gives it back.\<close>

definition demo_errand :: "owner_event list" where
  "demo_errand = [Start_Allocate demo_layout, Serve demo_layout (4096, 16)]"

lemma demo_errand_run:
  "\<exists>w w'. own_run (inline_range 256) demo_type (wo_start demo_owner zero_mem) demo_errand w \<and>
     own_step (inline_range 256) demo_type w (Try_Push 0 4096 demo_layout True) w' \<and>
     wo_live w = demo_live \<and> wo_hand w' = {} \<and> si_remote_queue (wo_inner w') = [(4096, demo_layout)]"
proof -
  let ?st = "own_step (inline_range 256) demo_type"
  define w0 where "w0 = wo_start demo_owner zero_mem"
  define w1 where "w1 = w0\<lparr>wo_pc := Returning [] (To_Allocate demo_layout)\<rparr>"
  define w2 where "w2 = w1\<lparr>wo_owner := put_slab demo_slab1 demo_owner, wo_pc := Resting, wo_live := demo_live\<rparr>"
  define i where "i = (so_inner (put_slab demo_slab1 demo_owner))
    \<lparr>si_remote_queue := [(4096, demo_layout)], si_remote_queue_len := 1\<rparr>"
  define w3 where "w3 = w2\<lparr>wo_owner := (put_slab demo_slab1 demo_owner)\<lparr>so_inner := i\<rparr>,
    wo_place := (wo_place w2)((4096, demo_layout) := In_Queue)\<rparr>"
  have "maybe_take 0 False demo_owner = ([], demo_owner)" by (simp add: maybe_take_def demo_owner_def)
  from start_allocate [of w0 demo_layout 0 False, OF _ demo_layout_ok, unfolded w0_def] this
  have 1: "?st w0 (Start_Allocate demo_layout) w1"
    by (simp add: w1_def w0_def wo_start_def)
  have "slab_try (inline_range 256) demo_type demo_layout (demo_owner, zero_mem) =
      (Inr (4096, 16), put_slab demo_slab1 demo_owner, zero_mem)"
    by (simp add: slab_try_def demo_owner_def demo_slab1_allocate put_slab_def)
  from serve [of w1 demo_layout] this
  have 2: "?st w1 (Serve demo_layout (4096, 16)) w2"
    by (simp add: w2_def w1_def w0_def wo_start_def demo_live_def fun_upd_idem)
  have "remote_try_deallocate 4096 demo_layout (wo_inner w2) = (Inr (), i)"
    by (simp add: remote_try_deallocate_def w2_def wo_inner_def i_def put_slab_def demo_owner_def)
  from try_push [of w2 0 4096 demo_layout 16, OF _ _ this]
  have 3: "?st w2 (Try_Push 0 4096 demo_layout True) w3"
    by (simp add: w3_def w2_def w1_def w0_def wo_start_def wo_hand_def demo_live_def)
  have "own_run (inline_range 256) demo_type w0 (([] @ [Start_Allocate demo_layout]) @ [Serve demo_layout (4096, 16)]) w2"
    by (rule own_snoc [OF own_snoc [OF own_nil 1] 2])
  moreover have "wo_live w2 = demo_live" "wo_hand w3 = {}" "si_remote_queue (wo_inner w3) = [(4096, demo_layout)]"
    by (auto simp: w2_def w3_def wo_hand_def demo_live_def wo_inner_def i_def)
  ultimately show ?thesis using 3 unfolding demo_errand_def w0_def by auto
qed

theorem slab_owner_race_free_witness:
  "\<exists>w w'. own_run (inline_range 256) demo_type (wo_start demo_owner zero_mem) demo_errand w \<and>
     own_step (inline_range 256) demo_type w (Try_Push 0 4096 demo_layout True) w' \<and>
     live_ok (wo_live w) \<and> card (wo_live w) + freed demo_errand = served demo_errand"
proof -
  obtain w w' where w: "own_run (inline_range 256) demo_type (wo_start demo_owner zero_mem) demo_errand w"
    "own_step (inline_range 256) demo_type w (Try_Push 0 4096 demo_layout True) w'"
    using demo_errand_run by blast
  then show ?thesis
    using slab_owner_race_free [OF inline.ranged_contract_axioms demo_inline_ok demo_type_ok demo_owner_new w] by blast
qed

text \<open>
  C15. A call of the owner ends under every interleaving: the steps it has left are bounded by twice
  the queue's capacity and two, every step of the owner lowers them, no step of a remote or a client
  changes them, and while any is left the owner has a step to take.
\<close>

theorem slab_owner_calls_end:
  assumes "ranged_contract A ainv R" "ainv b m {}" "type_ok T"
    "owner_with_batch_policy A R T capacity policy qcap (b, m) = (Inr ow, b', m')"
    "own_run R T (wo_start ow m') evs w"
  shows "(wo_pc w = Returning es job \<longrightarrow> (\<exists>ev w'. own_step R T w ev w' \<and> owner_made ev)) \<and>
    (own_step R T w ev w' \<longrightarrow>
       (if \<not> owner_made ev then steps_left w' = steps_left w
        else if wo_pc w = Resting then steps_left w' \<le> 2 * unat qcap + 2
        else steps_left w' < steps_left w))"
proof -
  note n = ranged_contract.owner_new_inv [OF assms(1,4,2,3)]
  note r = ranged_contract.own_run_inv [OF assms(1,5) ranged_contract.wo_start_inv [OF assms(1) n(1,3,5)]]
  then have q: "length (si_remote_queue (wo_inner w)) \<le> unat (si_queue_capacity (wo_inner w))"
    using queue_bounded by blast
  have c: "si_queue_capacity (wo_inner w) = qcap" using r n(6) by (simp add: wo_start_def wo_inner_def)
  show ?thesis
  proof (intro conjI impI)
    show "\<exists>ev w'. own_step R T w ev w' \<and> owner_made ev" if "wo_pc w = Returning es job"
      by (rule own_step_enabled [OF that])
    show "if \<not> owner_made ev then steps_left w' = steps_left w
        else if wo_pc w = Resting then steps_left w' \<le> 2 * unat qcap + 2
        else steps_left w' < steps_left w" if "own_step R T w ev w'"
      using own_step_left [OF that q] unfolding c .
  qed
qed

theorem slab_owner_calls_end_witness:
  "\<exists>w w'. own_run (inline_range 256) demo_type (wo_start demo_owner zero_mem) demo_errand w \<and>
     own_step (inline_range 256) demo_type w (Try_Push 0 4096 demo_layout True) w' \<and> steps_left w' = steps_left w"
proof -
  obtain w w' where w: "own_run (inline_range 256) demo_type (wo_start demo_owner zero_mem) demo_errand w"
    "own_step (inline_range 256) demo_type w (Try_Push 0 4096 demo_layout True) w'"
    using demo_errand_run by blast
  then show ?thesis
    using slab_owner_calls_end [OF inline.ranged_contract_axioms demo_inline_ok demo_type_ok demo_owner_new w(1),
        of _ _ "Try_Push 0 4096 demo_layout True" w'] by auto
qed

end
