(* ===== verification/Guard_Page.thy ===== *)
theory Guard_Page
  imports Mmap_Backed
begin

text \<open>
  \<open>forge-alloc/src/hardening/guard_page.rs\<close>: \<open>GuardPage\<close>, which takes the first and last page of an
  \<open>OsBacked\<close> region out of reach and serves blocks from between them with a cursor of its own. The
  inner region's view of the kernel and of the thread's \<open>LAST_OS_ERROR\<close> slot is the pair of accessors
  \<open>env_view\<close>.
\<close>

section \<open>The model\<close>

record ('b, 'k) env_view =
  ev_get :: "'b \<Rightarrow> 'k env"
  ev_put :: "'k env \<Rightarrow> 'b \<Rightarrow> 'b"

record 'b guard_page =
  gp_inner :: 'b
  gp_page_size :: usize
  gp_base :: addr
  gp_usable_size :: usize
  gp_cursor :: usize

definition slot_clear :: "('b, 'k) env_view \<Rightarrow> 'b \<Rightarrow> 'b" where
  "slot_clear V b = ev_put V (mmap_clear_last_os_error (ev_get V b)) b"

definition slot_raised :: "('b, 'k) env_view \<Rightarrow> 'b \<Rightarrow> bool" where
  "slot_raised V b \<longleftrightarrow> mmap_last_os_error (ev_get V b) \<noteq> None"

text \<open>The two \<open>protect\<close> calls, each followed by a look at the error slot.\<close>

definition guard_install ::
  "'b os_backed \<Rightarrow> ('b, 'k) env_view \<Rightarrow> usize \<Rightarrow> 'b \<times> mem \<Rightarrow> bool \<times> 'b \<times> mem" where
  "guard_install S V ps st =
     (case st of (b, m) \<Rightarrow>
        case os_protect S (os_base_ptr S b) ps PROT_FLAGS_NONE (slot_clear V b, m) of
          (b1, m1) \<Rightarrow>
            if slot_raised V b1 then (False, b1, m1)
            else let tail = os_base_ptr S b1 + (os_region_size S b - ps)
                 in case os_protect S tail ps PROT_FLAGS_NONE (b1, m1) of
                      (b2, m2) \<Rightarrow> (\<not> slot_raised V b2, b2, m2))"

text \<open>On an error the inner region is what the caller of \<open>new\<close> drops.\<close>

definition guard_new ::
  "'b os_backed \<Rightarrow> ('b, 'k) env_view \<Rightarrow> 'b \<Rightarrow> usize \<Rightarrow> mem \<Rightarrow> 'b guard_page res \<times> 'b \<times> mem" where
  "guard_new S V inner ps m =
     (if ps = 0 \<or> \<not> is_pow2 ps then (Inl AllocError, inner, m)
      else let region_size = os_region_size S inner
           in case Option.bind (checked_mul 2 ps) (\<lambda>v. checked_add v 1) of
                None \<Rightarrow> (Inl AllocError, inner, m)
              | Some needed \<Rightarrow>
                  if region_size < needed then (Inl AllocError, inner, m)
                  else if and (os_base_ptr S inner) (ps - 1) \<noteq> 0 then (Inl AllocError, inner, m)
                  else if and region_size (ps - 1) \<noteq> 0 then (Inl AllocError, inner, m)
                  else case guard_install S V ps (inner, m) of
                         (False, b, m') \<Rightarrow> (Inl AllocError, b, m')
                       | (True, b, m') \<Rightarrow>
                           (Inr \<lparr>gp_inner = b, gp_page_size = ps, gp_base = os_base_ptr S b + ps,
                                 gp_usable_size = region_size - 2 * ps, gp_cursor = 0\<rparr>, b, m'))"

definition guard_allocated :: "'b guard_page \<Rightarrow> usize" where
  "guard_allocated g = gp_cursor g"

definition guard_deallocate :: "'b guard_page dealloc_fun" where
  "guard_deallocate p lay st = Done st"

definition guard_allocate :: "'b guard_page alloc_fun" where
  "guard_allocate lay st =
     (case st of (g, m) \<Rightarrow>
        case bump_carve (gp_base g) (gp_usable_size g) (gp_cursor g) (lay_align lay) (lay_size lay) of
          Inl e \<Rightarrow> (Inl e, g, m)
        | Inr (aligned_off, end_off) \<Rightarrow>
            (Inr (gp_base g + aligned_off, lay_size lay), g\<lparr>gp_cursor := end_off\<rparr>, m))"

definition guard_allocator :: "'b guard_page allocator" where
  "guard_allocator =
     \<lparr>al_allocate = guard_allocate,
      al_allocate_zeroed = default_allocate_zeroed guard_allocate,
      al_deallocate = guard_deallocate,
      al_grow = default_grow guard_allocate guard_deallocate,
      al_shrink = default_shrink guard_allocate guard_deallocate,
      al_reset = default_reset,
      al_usable_size = default_usable_size,
      al_capacity_bytes = (\<lambda>g. Some (gp_usable_size g)),
      al_corruption_events = default_corruption_events\<rparr>"

definition guard_range :: "'b guard_page fixed_range" where
  "guard_range = \<lparr>fr_base = gp_base, fr_size = gp_usable_size, fr_commit = default_commit\<rparr>"

section \<open>What a region must offer\<close>

text \<open>
  The pages in reach are those an access does not trap on. A \<open>protect\<close> with no rights that raises no
  error takes just the pages named out of reach, if it is given whole ones; no \<open>protect\<close> touches
  memory or the region's bounds.
\<close>

locale protectable =
  fixes S :: "'b os_backed" and V :: "('b, 'k) env_view" and page :: nat
    and ok :: "'b \<Rightarrow> bool" and reach :: "'b \<Rightarrow> addr set"
  assumes region: "ok b \<Longrightarrow> os_base_ptr S b \<noteq> 0 \<and> no_wrap (os_base_ptr S b) (os_region_size S b)"
    and cleared: "ok b \<Longrightarrow> ok (slot_clear V b) \<and> \<not> slot_raised V (slot_clear V b) \<and>
      os_base_ptr S (slot_clear V b) = os_base_ptr S b \<and> os_region_size S (slot_clear V b) = os_region_size S b \<and>
      reach (slot_clear V b) = reach b"
    and protect_none: "ok b \<Longrightarrow> os_protect S p sz PROT_FLAGS_NONE (b, m) = (b', m') \<Longrightarrow>
      ok b' \<and> m' = m \<and> os_base_ptr S b' = os_base_ptr S b \<and> os_region_size S b' = os_region_size S b \<and>
      (\<not> slot_raised V b \<and> \<not> slot_raised V b' \<and> page dvd unat p \<and> page dvd unat sz \<longrightarrow>
         reach b' = reach b - span p sz)"

section \<open>Correctness\<close>

lemma and_mask_dvd:
  assumes "is_pow2 ps"
  shows "and x (ps - 1) = 0 \<longleftrightarrow> unat ps dvd unat (x :: usize)"
proof -
  obtain k where k: "unat ps = 2 ^ k" using assms by (rule is_pow2E)
  have "ps = word_of_nat (2 ^ k)" by (simp flip: k)
  then have "ps = 2 ^ k" by simp
  then have "and x (ps - 1) = take_bit k x" by (simp add: take_bit_eq_mask mask_eq_decr_exp)
  then have "unat (and x (ps - 1)) = unat x mod 2 ^ k" by (simp only: unsigned_take_bit_eq) (simp add: take_bit_eq_mod)
  then show ?thesis by (metis k dvd_eq_mod_eq_0 unat_eq_zero)
qed

text \<open>Only the cursor ever changes: \<open>G\<close> is the wrapper as it was built.\<close>

definition guard_ok :: "'b guard_page \<Rightarrow> 'b guard_page \<Rightarrow> bool" where
  "guard_ok G g \<longleftrightarrow> gp_base g \<noteq> 0 \<and> no_wrap (gp_base g) (gp_usable_size g) \<and> gp_inner g = gp_inner G \<and>
     gp_page_size g = gp_page_size G \<and> gp_base g = gp_base G \<and> gp_usable_size g = gp_usable_size G"

definition guard_inv :: "'b guard_page \<Rightarrow> 'b guard_page \<Rightarrow> mem \<Rightarrow> live \<Rightarrow> bool" where
  "guard_inv G g m L \<longleftrightarrow> guard_ok G g \<and> gp_cursor g \<le> gp_usable_size g \<and> bump_live (gp_base g) (gp_cursor g) L"

definition guard_own :: "'b guard_page \<Rightarrow> addr set" where
  "guard_own g = span (gp_base g) (gp_usable_size g)"

lemma guard_allocate_cases:
  assumes inv: "guard_inv G g m L" and lay: "valid_layout lay"
    and al: "guard_allocate lay (g, m) = (r, g', m')"
  shows "alloc_post (guard_inv G) L lay m (r, g', m')" "gp_base g' = gp_base g"
    "gp_usable_size g' = gp_usable_size g" "gp_inner g' = gp_inner g" "m' = m"
proof -
  have i: "gp_base g \<noteq> 0" "no_wrap (gp_base g) (gp_usable_size g)" "bump_live (gp_base g) (gp_cursor g) L"
    using inv by (auto simp: guard_inv_def guard_ok_def)
  have "alloc_post (guard_inv G) L lay m (r, g', m') \<and> gp_base g' = gp_base g \<and>
      gp_usable_size g' = gp_usable_size g \<and> gp_inner g' = gp_inner g \<and> m' = m"
  proof (cases "bump_carve (gp_base g) (gp_usable_size g) (gp_cursor g) (lay_align lay) (lay_size lay)")
    case (Inl e)
    then have "r = Inl e" "g' = g" "m' = m" using al by (auto simp: guard_allocate_def)
    then show ?thesis using inv by (simp add: alloc_post_def)
  next
    case (Inr x)
    obtain off fin where x: "x = (off, fin)" by (cases x)
    note c = bump_carve_live [OF Inr [unfolded x] lay i]
      bump_carve_Inr [OF Inr [unfolded x] valid_layoutD(3) [OF lay]]
    have "guard_inv G (g\<lparr>gp_cursor := fin\<rparr>) m (insert (gp_base g + off, lay, lay_size lay) L)"
      using inv c(3,4) by (auto simp: guard_inv_def guard_ok_def word_le_nat_alt)
    then show ?thesis using al Inr x c(1,2) by (auto simp: guard_allocate_def alloc_post_def)
  qed
  then show "alloc_post (guard_inv G) L lay m (r, g', m')" "gp_base g' = gp_base g"
    "gp_usable_size g' = gp_usable_size g" "gp_inner g' = gp_inner g" "m' = m" by auto
qed

lemma guard_inv_mono: "guard_inv G g m L \<Longrightarrow> J \<subseteq> L \<Longrightarrow> guard_inv G g m' J"
  by (auto simp: guard_inv_def intro: bump_live_mono)

lemma guard_contract: "allocator_contract guard_allocator (guard_inv G)"
proof (rule allocator_contractI)
  show "allocator_core (al_allocate guard_allocator) (al_deallocate guard_allocator)
      (al_usable_size guard_allocator) (guard_inv G)"
    unfolding guard_allocator_def allocator.simps
  proof
    fix g :: "'a guard_page" and m L lay assume "guard_inv G g m L" "valid_layout lay"
    then show "alloc_post (guard_inv G) L lay m (guard_allocate lay (g, m))"
      using guard_allocate_cases(1) [of G g m L lay] by (cases "guard_allocate lay (g, m)") auto
  next
    fix g :: "'a guard_page" and m L p lay n assume "guard_inv G g m L"
    then show "dealloc_post (guard_inv G) (L - {(p, lay, n)}) m (guard_deallocate p lay (g, m))"
      by (auto simp: dealloc_post_def guard_deallocate_def intro: guard_inv_mono)
  qed (auto simp: default_usable_size_def guard_inv_def bump_live_def)
qed (simp_all add: guard_allocator_def)

lemma guard_ranged: "ranged_contract guard_allocator (guard_inv G) guard_range"
proof (rule ranged_contract.intro [OF guard_contract])
  show "fixed_range_contract guard_range (\<lambda>g. \<exists>m L. guard_inv G g m L)"
    by standard (auto simp: guard_range_def default_commit_def guard_inv_def guard_ok_def)
  show "ranged_contract_axioms guard_allocator (guard_inv G) guard_range"
  proof
    fix g :: "'a guard_page" and m L assume "guard_inv G g m L"
    then show "footprint L \<subseteq> span (fr_base guard_range g) (fr_size guard_range g)"
      using bump_live_span by (fastforce simp: guard_inv_def guard_ok_def guard_range_def word_le_nat_alt)
  next
    fix g :: "'a guard_page" and m L lay r g' m'
    assume "guard_inv G g m L" "valid_layout lay" "al_allocate guard_allocator lay (g, m) = (r, g', m')"
    then show "fr_base guard_range g' = fr_base guard_range g \<and> fr_size guard_range g' = fr_size guard_range g"
      using guard_allocate_cases(2,3) [of G g m L lay r g' m'] by (simp add: guard_allocator_def guard_range_def)
  qed (auto simp: guard_allocator_def guard_deallocate_def)
qed

lemma guard_owned_ranged: "owned_ranged guard_allocator (guard_inv G) guard_own guard_range"
proof (intro owned_ranged.intro owned_ranged_axioms.intro guard_ranged)
  have alloc: "guard_own g' = guard_own g \<and> same_on (- guard_own g) m m'"
    if "guard_inv G g m L" "valid_layout lay" "al_allocate guard_allocator lay (g, m) = (r, g', m')"
    for g g' :: "'a guard_page" and m m' L lay r
    using guard_allocate_cases(2,3,5) [of G g m L lay r g' m'] that
    by (simp add: guard_allocator_def guard_own_def)
  have live: "footprint L \<subseteq> guard_own g" if "guard_inv G g m L" for g :: "'a guard_page" and m L
    using ranged_contract.in_range [OF guard_ranged that] by (simp add: guard_own_def guard_range_def)
  show "owned_contract guard_allocator (guard_inv G) guard_own"
  proof (rule owned_contract.intro [OF guard_contract owned_contract_axioms.intro])
    fix g :: "'a guard_page" and m L lay r g' m'
    assume i: "guard_inv G g m L" and lay: "valid_layout lay"
    show "guard_own g' = guard_own g \<and> same_on (- guard_own g) m m'"
      if "al_allocate_zeroed guard_allocator lay (g, m) = (r, g', m')"
      by (rule default_zeroed_owned [where r = r, OF guard_contract live alloc i lay])
        (use that in \<open>simp_all add: guard_allocator_def\<close>)
  qed (use live alloc guard_inv_mono [OF _ order_refl] in \<open>auto simp: guard_allocator_def guard_deallocate_def\<close>)
qed (simp add: guard_range_def guard_own_def)

text \<open>The first and the last page of the region.\<close>

definition head_guard :: "'b os_backed \<Rightarrow> usize \<Rightarrow> 'b \<Rightarrow> addr set" where
  "head_guard S ps b = span (os_base_ptr S b) ps"

definition tail_guard :: "'b os_backed \<Rightarrow> usize \<Rightarrow> 'b \<Rightarrow> addr set" where
  "tail_guard S ps b = span (os_base_ptr S b + (os_region_size S b - ps)) ps"

context protectable
begin

lemma guard_install_post:
  assumes "ok b" "guard_install S V ps (b, m) = (r, b', m')"
  shows "ok b' \<and> m' = m \<and> os_base_ptr S b' = os_base_ptr S b \<and> os_region_size S b' = os_region_size S b \<and>
    (r \<and> page dvd unat (os_base_ptr S b) \<and> page dvd unat ps \<and>
       page dvd unat (os_base_ptr S b + (os_region_size S b - ps)) \<longrightarrow>
     reach b' = reach b - (head_guard S ps b \<union> tail_guard S ps b))"
proof -
  note c = cleared [OF assms(1)]
  obtain b1 m1 where 1: "os_protect S (os_base_ptr S b) ps PROT_FLAGS_NONE (slot_clear V b, m) = (b1, m1)"
    by fastforce
  note p1 = protect_none [OF _ 1]
  obtain b2 m2 where 2: "os_protect S (os_base_ptr S b1 + (os_region_size S b - ps)) ps PROT_FLAGS_NONE (b1, m1) = (b2, m2)"
    by fastforce
  have ok1: "ok b1" using p1 c by blast
  note p2 = protect_none [OF ok1 2]
  show ?thesis
  proof (cases "slot_raised V b1")
    case True
    then show ?thesis using assms(2) 1 p1 c by (simp add: guard_install_def)
  next
    case False
    then have r: "r = (\<not> slot_raised V b2)" "b' = b2" "m' = m2"
      using assms(2) 1 2 by (auto simp: guard_install_def Let_def)
    show ?thesis unfolding r using p1 p2 c False by (auto simp: head_guard_def tail_guard_def)
  qed
qed

lemma guard_new_cases:
  assumes "guard_new S V b ps m = (Inr g, b', m')"
  shows "guard_install S V ps (b, m) = (True, b', m')" "is_pow2 ps"
    "3 * unat ps \<le> unat (os_region_size S b)" "unat ps dvd unat (os_base_ptr S b)"
    "unat ps dvd unat (os_region_size S b)"
    "g = \<lparr>gp_inner = b', gp_page_size = ps, gp_base = os_base_ptr S b' + ps,
       gp_usable_size = os_region_size S b - 2 * ps, gp_cursor = 0\<rparr>"
proof -
  obtain v needed where v: "checked_mul 2 ps = Some v" "checked_add v 1 = Some needed"
    and c: "is_pow2 ps" "\<not> os_region_size S b < needed" "and (os_base_ptr S b) (ps - 1) = 0"
      "and (os_region_size S b) (ps - 1) = 0"
    and g: "guard_install S V ps (b, m) = (True, b', m')"
      "g = \<lparr>gp_inner = b', gp_page_size = ps, gp_base = os_base_ptr S b' + ps,
         gp_usable_size = os_region_size S b - 2 * ps, gp_cursor = 0\<rparr>"
    using assms
    by (auto simp: guard_new_def Let_def bind_eq_Some_conv split: if_splits option.splits prod.splits bool.splits)
  show "guard_install S V ps (b, m) = (True, b', m')" "is_pow2 ps"
    "g = \<lparr>gp_inner = b', gp_page_size = ps, gp_base = os_base_ptr S b' + ps,
       gp_usable_size = os_region_size S b - 2 * ps, gp_cursor = 0\<rparr>" using g c(1) by auto
  show d: "unat ps dvd unat (os_base_ptr S b)" "unat ps dvd unat (os_region_size S b)"
    using c(3,4) by (simp_all add: and_mask_dvd [OF c(1)])
  have "2 * unat ps < unat (os_region_size S b)"
    using checked_mul_unat [OF v(1)] checked_add_unat [OF v(2)] c(2) by (simp add: word_less_nat_alt)
  moreover obtain k where "unat (os_region_size S b) = unat ps * k" using d(2) by (elim dvdE)
  ultimately have "2 < k" by (metis mult.commute mult_less_cancel1)
  then show "3 * unat ps \<le> unat (os_region_size S b)"
    using \<open>unat (os_region_size S b) = unat ps * k\<close> by simp
qed

text \<open>
  Whole pages of the operating system at both ends are out of reach, nothing else changed, and the
  blocks come from the bytes between them.
\<close>

lemma guard_geometry:
  assumes "no_wrap base reg" "3 * unat ps \<le> unat reg" "0 < unat ps"
  shows "unat (reg - 2 * ps) + 2 * unat ps = unat reg" "unat (base + ps) = unat base + unat ps"
    "unat (base + (reg - ps)) + unat ps = unat base + unat reg"
    "no_wrap (base + ps) (reg - 2 * ps)"
    "span (base + ps) (reg - 2 * ps) = span base reg - (span base ps \<union> span (base + (reg - ps)) ps)"
proof -
  have nw: "unat base + unat reg \<le> 2 ^ 64" using assms(1) by (simp add: no_wrap_def)
  have two: "unat (2 * ps) = 2 * unat ps"
    using assms(2) unat_64_less [of reg] by (simp add: unat_mult_lem [THEN iffD1])
  show u: "unat (reg - 2 * ps) + 2 * unat ps = unat reg"
    using assms(2) two by (simp add: unat_sub word_le_nat_alt)
  show b: "unat (base + ps) = unat base + unat ps"
    using nw assms(2) unat_64_less [of base] by (auto simp: unat_plus_if')
  have r: "unat (reg - ps) + unat ps = unat reg" using assms(2) by (simp add: unat_sub word_le_nat_alt)
  show t: "unat (base + (reg - ps)) + unat ps = unat base + unat reg"
    using r nw assms(3) by (auto simp: unat_plus_if')
  show n: "no_wrap (base + ps) (reg - 2 * ps)" using nw u b by (simp add: no_wrap_def)
  have n2: "no_wrap base ps" "no_wrap (base + (reg - ps)) ps" using nw assms(2) t by (simp_all add: no_wrap_def)
  show "span (base + ps) (reg - 2 * ps) = span base reg - (span base ps \<union> span (base + (reg - ps)) ps)"
    using u b t by (auto simp: set_eq_iff in_span_iff [OF n] in_span_iff [OF assms(1)] in_span_iff [OF n2(1)] in_span_iff [OF n2(2)])
qed

lemma guard_new_post:
  assumes "ok b" "guard_new S V b ps m = (Inr g, b', m')" "page dvd unat ps"
  shows "ok b'" "m' = m" "guard_inv g g m' {}"
    "os_base_ptr S b' = os_base_ptr S b" "os_region_size S b' = os_region_size S b"
    "reach b' = reach b - (head_guard S ps b \<union> tail_guard S ps b)"
    "gp_inner g = b'" "guard_own g =
       span (os_base_ptr S b) (os_region_size S b) - (head_guard S ps b \<union> tail_guard S ps b)"
    "unat (gp_usable_size g) + 2 * unat ps = unat (os_region_size S b)" "unat ps \<le> unat (gp_usable_size g)"
    "unat ps dvd unat (gp_base g)"
proof -
  note n = guard_new_cases [OF assms(2)] and p = guard_install_post [OF assms(1) guard_new_cases(1) [OF assms(2)]]
  have nw: "no_wrap (os_base_ptr S b) (os_region_size S b)" using region [OF assms(1)] by blast
  have pos: "0 < unat ps" using is_pow2_pos [OF n(2)] .
  note geo = guard_geometry [OF nw n(3) pos]
  show "ok b'" "m' = m" and s: "os_base_ptr S b' = os_base_ptr S b" "os_region_size S b' = os_region_size S b"
    using p by blast+
  have "unat ps dvd unat (os_base_ptr S b + (os_region_size S b - ps))"
    using geo(3) n(4,5) by (metis dvd_add dvd_add_left_iff dvd_refl)
  then show "reach b' = reach b - (head_guard S ps b \<union> tail_guard S ps b)"
    using p n(4) assms(3) by (auto intro: dvd_trans)
  show "gp_inner g = b'" "guard_own g =
      span (os_base_ptr S b) (os_region_size S b) - (head_guard S ps b \<union> tail_guard S ps b)"
    "unat (gp_usable_size g) + 2 * unat ps = unat (os_region_size S b)" "unat ps \<le> unat (gp_usable_size g)"
    using geo n(3) by (simp_all add: n(6) s head_guard_def tail_guard_def guard_own_def)
  show "unat ps dvd unat (gp_base g)" using geo(2) n(4) by (simp add: n(6) s)
  have "gp_base g \<noteq> 0" using geo(2) pos by (auto simp: n(6) s)
  then show "guard_inv g g m' {}"
    using geo(4) by (simp add: guard_inv_def guard_ok_def n(6) s)
qed

text \<open>A refusal is for the arguments, or for an error that one of the two calls raised.\<close>

lemma guard_new_refused:
  assumes "ok b" "guard_new S V b ps m = (Inl e, b', m')"
  shows "ok b' \<and> m' = m \<and>
    (\<not> is_pow2 ps \<or> unat (os_region_size S b) < 3 * unat ps \<or> \<not> unat ps dvd unat (os_base_ptr S b) \<or>
     \<not> unat ps dvd unat (os_region_size S b) \<or> slot_raised V b')"
proof (cases "is_pow2 ps \<and> 3 * unat ps \<le> unat (os_region_size S b) \<and> unat ps dvd unat (os_base_ptr S b) \<and>
    unat ps dvd unat (os_region_size S b)")
  case True
  then have pos: "0 < unat ps" using is_pow2_pos by blast
  have two: "unat (2 * ps) = 2 * unat ps" "unat (2 * ps + 1) = 2 * unat ps + 1"
    using True pos unat_64_less [of "os_region_size S b"] by (simp_all add: unat_mult_lem [THEN iffD1] unat_plus_if')
  have n: "checked_mul 2 ps = Some (2 * ps)" "checked_add (2 * ps) 1 = Some (2 * ps + 1)"
    using True pos two unat_64_less [of "os_region_size S b"] by (simp_all add: checked_mul_def checked_add_def)
  have "\<not> os_region_size S b < 2 * ps + 1" using True pos two(2) by (simp add: word_less_nat_alt)
  moreover have "and (os_base_ptr S b) (ps - 1) = 0" "and (os_region_size S b) (ps - 1) = 0"
    using True by (simp_all add: and_mask_dvd)
  moreover have "ps \<noteq> 0" using pos by auto
  ultimately have i: "guard_install S V ps (b, m) = (False, b', m')"
    using assms(2) n True by (auto simp: guard_new_def Let_def split: prod.splits bool.splits)
  then have "slot_raised V b'" by (auto simp: guard_install_def Let_def split: prod.splits if_splits)
  then show ?thesis using guard_install_post [OF assms(1) i] by blast
next
  case False
  have "ok b' \<and> m' = m"
  proof (cases "\<exists>x. guard_install S V ps (b, m) = (x, b', m')")
    case True
    then show ?thesis using guard_install_post [OF assms(1)] by blast
  next
    case no: False
    then have "b' = b" "m' = m"
      using assms(2) by (auto simp: guard_new_def Let_def bind_eq_Some_conv split: if_splits option.splits prod.splits bool.splits)
    then show ?thesis using assms(1) by simp
  qed
  then show ?thesis using False by (auto simp: not_le)
qed

lemma guard_new_clean:
  assumes "guard_new S V b ps m = (Inr g, b', m')"
  shows "\<not> slot_raised V b'"
  using guard_new_cases(1) [OF assms] by (auto simp: guard_install_def Let_def split: prod.splits if_splits)

end

end
