(* ===== verification/Secure_Regions.thy ===== *)
theory Secure_Regions
  imports Guard_Page Pass_Through
begin

text \<open>
  The regions that \<open>GuardPage\<close> wraps: \<open>SplitMetadata\<close> (\<open>forge-alloc/src/hardening/split_metadata.rs\<close>), a
  data region with a second mapping for metadata, and \<open>LockedMmapBacked\<close>
  (\<open>forge-alloc/src/backing/locked_mmap.rs\<close>), a mapping whose pages are locked into memory.
\<close>

section \<open>SplitMetadata\<close>

record ('b, 'k) split_metadata =
  sm_meta_region :: "'k mmap_backed"
  sm_data_region :: 'b

definition split_put :: "'b \<Rightarrow> ('b, 'k) split_metadata \<Rightarrow> ('b, 'k) split_metadata" where
  "split_put b w = w\<lparr>sm_data_region := b\<rparr>"

definition split_with_meta :: "'b \<Rightarrow> 'k mmap_backed \<Rightarrow> ('b, 'k) split_metadata" where
  "split_with_meta data meta = \<lparr>sm_meta_region = meta, sm_data_region = data\<rparr>"

text \<open>The data region comes back, as of after the call, when it is dropped with the error.\<close>

definition split_new ::
  "target \<Rightarrow> 'k kernel \<Rightarrow> ('b, 'k) env_view \<Rightarrow> 'b \<Rightarrow> usize \<Rightarrow> mem \<Rightarrow> ('b, 'k) split_metadata res \<times> 'b \<times> mem" where
  "split_new tg K V data meta_size m =
     (case mmap_new tg K meta_size (ev_get V data, m) of
        (r, e, m') \<Rightarrow>
          let data' = ev_put V e data
          in case r of Inl err \<Rightarrow> (Inl err, data', m')
             | Inr meta \<Rightarrow> (Inr (split_with_meta data' meta), data', m'))"

definition split_meta_base :: "('b, 'k) split_metadata \<Rightarrow> addr" where
  "split_meta_base w = mm_ptr (sm_meta_region w)"

definition split_meta_size :: "('b, 'k) split_metadata \<Rightarrow> usize" where
  "split_meta_size w = mm_len (sm_meta_region w)"

definition split_allocator :: "'b allocator \<Rightarrow> ('b, 'k) split_metadata allocator" where
  "split_allocator A =
     (let alloc = (\<lambda>lay. via sm_data_region split_put (al_allocate A lay));
          dealloc = (\<lambda>p lay. via_out sm_data_region split_put (al_deallocate A p lay))
      in \<lparr>al_allocate = alloc,
          al_allocate_zeroed = default_allocate_zeroed alloc,
          al_deallocate = dealloc,
          al_grow = default_grow alloc dealloc,
          al_shrink = default_shrink alloc dealloc,
          al_reset = default_reset,
          al_usable_size = (\<lambda>w. al_usable_size A (sm_data_region w)),
          al_capacity_bytes = (\<lambda>w. al_capacity_bytes A (sm_data_region w)),
          al_corruption_events = (\<lambda>w. al_corruption_events A (sm_data_region w))\<rparr>)"

definition split_os :: "'b os_backed \<Rightarrow> ('b, 'k) split_metadata os_backed" where
  "split_os S =
     \<lparr>os_base_ptr = (\<lambda>w. os_base_ptr S (sm_data_region w)),
      os_region_size = (\<lambda>w. os_region_size S (sm_data_region w)),
      os_release_pages = (\<lambda>p sz (w, m). case os_release_pages S p sz (sm_data_region w, m) of
        (b, m') \<Rightarrow> (split_put b w, m')),
      os_protect = (\<lambda>p sz f (w, m). case os_protect S p sz f (sm_data_region w, m) of
        (b, m') \<Rightarrow> (split_put b w, m'))\<rparr>"

definition split_range :: "'b fixed_range \<Rightarrow> ('b, 'k) split_metadata fixed_range" where
  "split_range R = via_range sm_data_region split_put R"

definition split_view :: "('b, 'k) env_view \<Rightarrow> (('b, 'k) split_metadata, 'k) env_view" where
  "split_view V = \<lparr>ev_get = (\<lambda>w. ev_get V (sm_data_region w)),
     ev_put = (\<lambda>e w. split_put (ev_put V e (sm_data_region w)) w)\<rparr>"

section \<open>LockedMmapBacked\<close>

text \<open>The calls of the operating system that lock pages; \<open>lc_dontdump\<close> is the best-effort \<open>madvise\<close>.\<close>

record 'k lock_calls =
  lc_lock :: "addr \<Rightarrow> usize \<Rightarrow> 'k \<Rightarrow> bool \<times> 'k"
  lc_unlock :: "addr \<Rightarrow> usize \<Rightarrow> 'k \<Rightarrow> bool \<times> 'k"
  lc_dontdump :: "addr \<Rightarrow> usize \<Rightarrow> 'k \<Rightarrow> 'k"

record 'k locked_mmap =
  lo_inner :: "'k mmap_backed"

definition locked_put :: "'k mmap_backed \<Rightarrow> 'k locked_mmap \<Rightarrow> 'k locked_mmap" where
  "locked_put b w = w\<lparr>lo_inner := b\<rparr>"

definition os_lock ::
  "target \<Rightarrow> 'k kernel \<Rightarrow> 'k lock_calls \<Rightarrow> addr \<Rightarrow> usize \<Rightarrow> 'k env \<Rightarrow> bool \<times> 'k env" where
  "os_lock tg K C base sz e =
     (case lc_lock C base sz (en_kernel e) of
        (ok, k) \<Rightarrow>
          let e' = e\<lparr>en_kernel := k\<rparr>
          in if \<not> ok then (False, mmap_record_os_error K e')
             else (True, if tg = Linux then e'\<lparr>en_kernel := lc_dontdump C base sz k\<rparr> else e'))"

definition os_unlock :: "'k kernel \<Rightarrow> 'k lock_calls \<Rightarrow> addr \<Rightarrow> usize \<Rightarrow> 'k env \<Rightarrow> 'k env" where
  "os_unlock K C base sz e =
     (case lc_unlock C base sz (en_kernel e) of
        (ok, k) \<Rightarrow> let e' = e\<lparr>en_kernel := k\<rparr> in if ok then e' else mmap_record_os_error K e')"

definition locked_new ::
  "target \<Rightarrow> 'k kernel \<Rightarrow> 'k lock_calls \<Rightarrow> usize \<Rightarrow> 'k env \<times> mem \<Rightarrow> 'k locked_mmap res \<times> 'k env \<times> mem" where
  "locked_new tg K C sz st =
     (case mmap_new tg K sz st of
        (Inl err, st') \<Rightarrow> (Inl err, st')
      | (Inr inner, e, m) \<Rightarrow>
          case os_lock tg K C (mm_ptr inner) (mm_len inner) e of
            (ok, e1) \<Rightarrow>
              if \<not> ok then
                let saved = mmap_last_os_error e1
                in case mmap_drop K inner (e1, m) of
                     (e2, m2) \<Rightarrow>
                       (Inl AllocError, case saved of None \<Rightarrow> e2 | Some code \<Rightarrow> mmap_set_last_os_error code e2, m2)
              else (Inr \<lparr>lo_inner = inner\<lparr>mm_env := e1\<rparr>\<rparr>, e1, m))"

definition locked_drop :: "'k kernel \<Rightarrow> 'k lock_calls \<Rightarrow> 'k locked_mmap \<Rightarrow> 'k env \<times> mem \<Rightarrow> 'k env \<times> mem" where
  "locked_drop K C w st =
     (case st of (e, m) \<Rightarrow>
        mmap_drop K (lo_inner w) (os_unlock K C (mm_ptr (lo_inner w)) (mm_len (lo_inner w)) e, m))"

definition locked_allocator :: "target \<Rightarrow> 'k kernel \<Rightarrow> 'k locked_mmap allocator" where
  "locked_allocator tg K =
     (let alloc = (\<lambda>lay. via lo_inner locked_put (mmap_allocate tg K lay));
          dealloc = (\<lambda>p lay. via_out lo_inner locked_put (mmap_deallocate p lay))
      in \<lparr>al_allocate = alloc,
          al_allocate_zeroed = default_allocate_zeroed alloc,
          al_deallocate = dealloc,
          al_grow = default_grow alloc dealloc,
          al_shrink = default_shrink alloc dealloc,
          al_reset = default_reset,
          al_usable_size = default_usable_size,
          al_capacity_bytes = (\<lambda>w. Some (mm_len (lo_inner w))),
          al_corruption_events = default_corruption_events\<rparr>)"

definition locked_range :: "target \<Rightarrow> 'k kernel \<Rightarrow> 'k locked_mmap fixed_range" where
  "locked_range tg K = via_range lo_inner locked_put (mmap_range tg K)"

definition locked_os :: "target \<Rightarrow> 'k kernel \<Rightarrow> 'k locked_mmap os_backed" where
  "locked_os tg K =
     \<lparr>os_base_ptr = (\<lambda>w. os_base_ptr (mmap_os tg K) (lo_inner w)),
      os_region_size = (\<lambda>w. os_region_size (mmap_os tg K) (lo_inner w)),
      os_release_pages = (\<lambda>p sz st. st),
      os_protect = (\<lambda>p sz f (w, m). case os_protect (mmap_os tg K) p sz f (lo_inner w, m) of
        (b, m') \<Rightarrow> (locked_put b w, m'))\<rparr>"

definition mmap_view :: "('k mmap_backed, 'k) env_view" where
  "mmap_view = \<lparr>ev_get = mm_env, ev_put = (\<lambda>e b. b\<lparr>mm_env := e\<rparr>)\<rparr>"

definition locked_view :: "('k locked_mmap, 'k) env_view" where
  "locked_view = \<lparr>ev_get = (\<lambda>w. mm_env (lo_inner w)), ev_put = (\<lambda>e w. w\<lparr>lo_inner := (lo_inner w)\<lparr>mm_env := e\<rparr>\<rparr>)\<rparr>"

section \<open>Correctness\<close>

text \<open>What the pass-through wrappers owe for their calls, given that of the inner region.\<close>

lemma split_contract:
  fixes A :: "'b allocator"
  assumes A: "allocator_contract A ainv"
  shows "allocator_contract (split_allocator A :: ('b, 'k) split_metadata allocator) (field_inv sm_data_region ainv)"
proof (rule allocator_contractI)
  have gp: "sm_data_region (split_put i w) = i" for i and w :: "('b, 'k) split_metadata" by (simp add: split_put_def)
  have d: "dealloc_post (field_inv sm_data_region ainv) (L - {(p, lay, n)}) m
      (via_out sm_data_region split_put (al_deallocate A p lay) (w, m))"
    if "ainv (sm_data_region w) m L" "(p, lay, n) \<in> L" for w :: "('b, 'k) split_metadata" and m L p lay n
    by (rule via_dealloc_post [where get = sm_data_region and put = split_put, OF gp])
      (rule allocator_core.deallocate [OF allocator_contract.axioms(1) [OF A] that])
  show "allocator_core (al_allocate (split_allocator A)) (al_deallocate (split_allocator A))
      (al_usable_size (split_allocator A)) (field_inv (sm_data_region :: ('b, 'k) split_metadata \<Rightarrow> 'b) ainv)"
    using via_core [of A ainv sm_data_region split_put, OF A gp d] by (simp add: split_allocator_def Let_def)
qed (simp_all add: split_allocator_def Let_def)

text \<open>Locking changes nothing for the allocator.\<close>

lemma locked_contract:
  "allocator_contract (locked_allocator tg K :: 'k locked_mmap allocator) (field_inv lo_inner (mmap_inv tg))"
proof (rule allocator_contractI)
  have gp: "lo_inner (locked_put i w) = i" for i and w :: "'k locked_mmap" by (simp add: locked_put_def)
  have A: "allocator_contract (mmap_allocator tg K) (mmap_inv tg)" by (rule mmap_contract)
  have d: "dealloc_post (field_inv lo_inner (mmap_inv tg)) (L - {(p, lay, n)}) m
      (via_out lo_inner locked_put (mmap_deallocate p lay) (w, m))"
    if "mmap_inv tg (lo_inner w) m L" "(p, lay, n) \<in> L" for w :: "'k locked_mmap" and m L p lay n
    by (rule via_dealloc_post [where get = lo_inner and put = locked_put, OF gp])
      (rule allocator_core.deallocate [OF mmap_core that])
  show "allocator_core (al_allocate (locked_allocator tg K)) (al_deallocate (locked_allocator tg K))
      (al_usable_size (locked_allocator tg K)) (field_inv (lo_inner :: 'k locked_mmap \<Rightarrow> 'k mmap_backed) (mmap_inv tg))"
    using via_core [of _ _ lo_inner locked_put, OF A gp d]
    by (simp add: locked_allocator_def mmap_allocator_def default_usable_size_def [abs_def] Let_def)
qed (simp_all add: locked_allocator_def Let_def)

text \<open>A split region is as protectable as its data region; its metadata stay where they are.\<close>

context protectable
begin

lemma split_protectable:
  "protectable (split_os S) (split_view V) page (\<lambda>w. ok (sm_data_region w) \<and> sm_meta_region w = meta)
     (\<lambda>w. reach (sm_data_region w))"
proof
  fix w :: "('b, 'k) split_metadata"
  assume "ok (sm_data_region w) \<and> sm_meta_region w = meta"
  then have w: "ok (sm_data_region w)" and meta: "sm_meta_region w = meta" by simp_all
  show "os_base_ptr (split_os S) w \<noteq> 0 \<and> no_wrap (os_base_ptr (split_os S) w) (os_region_size (split_os S) w)"
    using region [OF w] by (simp add: split_os_def)
  have c: "sm_data_region (slot_clear (split_view V) w) = slot_clear V (sm_data_region w)"
    "slot_raised (split_view V) u = slot_raised V (sm_data_region u)"
    "sm_meta_region (slot_clear (split_view V) u) = sm_meta_region u" for u
    by (simp_all add: slot_clear_def slot_raised_def split_view_def split_put_def)
  show "(ok (sm_data_region (slot_clear (split_view V) w)) \<and> sm_meta_region (slot_clear (split_view V) w) = meta) \<and> \<not> slot_raised (split_view V) (slot_clear (split_view V) w) \<and>
      os_base_ptr (split_os S) (slot_clear (split_view V) w) = os_base_ptr (split_os S) w \<and>
      os_region_size (split_os S) (slot_clear (split_view V) w) = os_region_size (split_os S) w \<and>
      reach (sm_data_region (slot_clear (split_view V) w)) = reach (sm_data_region w)"
    using cleared [OF w] meta by (simp add: split_os_def c)
  fix p sz m w' m'
  assume "os_protect (split_os S) p sz PROT_FLAGS_NONE (w, m) = (w', m')"
  then obtain b' where b: "os_protect S p sz PROT_FLAGS_NONE (sm_data_region w, m) = (b', m')" "w' = split_put b' w"
    by (auto simp: split_os_def split: prod.splits)
  show "(ok (sm_data_region w') \<and> sm_meta_region w' = meta) \<and> m' = m \<and> os_base_ptr (split_os S) w' = os_base_ptr (split_os S) w \<and>
      os_region_size (split_os S) w' = os_region_size (split_os S) w \<and>
      (\<not> slot_raised (split_view V) w \<and> \<not> slot_raised (split_view V) w' \<and> page dvd unat p \<and> page dvd unat sz \<longrightarrow>
         reach (sm_data_region w') = reach (sm_data_region w) - span p sz)"
    using protect_none [OF w b(1)] b(2) meta by (simp add: split_os_def c split_put_def)
qed

end

section \<open>A kernel that protects and locks\<close>

definition no_access :: "target \<Rightarrow> u32" where
  "no_access tg = (if tg = Windows then PAGE_NOACCESS else 0)"

text \<open>
  \<open>reach\<close> are the addresses an access does not trap on, \<open>locked\<close> those whose pages stay in memory. Protecting
  whole pages with no rights takes them out of reach and changes nothing else; locking adds the range; a
  new mapping changes neither elsewhere.
\<close>

locale securing_kernel = mapping_kernel K mapped
  for K :: "'k kernel" and mapped :: "'k \<Rightarrow> addr set" +
  fixes tg :: target and C :: "'k lock_calls" and reach :: "'k \<Rightarrow> addr set" and locked :: "'k \<Rightarrow> addr set"
  assumes map_secure: "k_map K len pop resv (k, m) = (Some p, k', m') \<Longrightarrow>
      reach k' - span p len = reach k - span p len \<and> locked k' - span p len = locked k - span p len \<and>
      (\<not> resv \<longrightarrow> span p len \<subseteq> reach k')"
    and protect_secure: "k_protect K p len w k = (ok, k') \<Longrightarrow> mapped k' = mapped k \<and> locked k' = locked k \<and>
      (ok \<and> w = no_access tg \<and> unat (page_size K) dvd unat p \<and> unat (page_size K) dvd unat len \<longrightarrow>
         reach k' = reach k - span p len)"
    and lock_secure: "lc_lock C p len k = (ok, k') \<Longrightarrow> mapped k' = mapped k \<and> reach k' = reach k \<and>
      (ok \<longrightarrow> locked k' = locked k \<union> span p len)"
    and dontdump_secure: "mapped (lc_dontdump C p len k) = mapped k \<and> reach (lc_dontdump C p len k) = reach k \<and>
      locked (lc_dontdump C p len k) = locked k"

section \<open>Locked and guarded mappings\<close>

lemma no_access_word:
  "(if tg = Windows then win32_prot_from_flags PROT_FLAGS_NONE else unix_prot_from_flags PROT_FLAGS_NONE) = no_access tg"
  by (simp add: no_access_def PROT_FLAGS_NONE_def win32_prot_from_flags_def unix_prot_from_flags_def)

text \<open>What protecting pages leaves alone: the bounds, the lock, and what is in use.\<close>

definition pinned :: "('k \<Rightarrow> addr set) \<Rightarrow> ('k \<Rightarrow> addr set) \<Rightarrow> addr set \<Rightarrow> 'k locked_mmap \<Rightarrow> bool" where
  "pinned mapped locked used w \<longleftrightarrow>
     (let b = lo_inner w; k = en_kernel (mm_env b)
      in mmap_ok b \<and> mmap_own b \<subseteq> locked k \<and> mapped k = used)"

context securing_kernel
begin

lemma protect_pages:
  assumes "os_protect_pages tg K p sz PROT_FLAGS_NONE e = e'"
  shows "mapped (en_kernel e') = mapped (en_kernel e)" "locked (en_kernel e') = locked (en_kernel e)"
    "mmap_last_os_error e = None \<Longrightarrow> mmap_last_os_error e' = None \<Longrightarrow> unat (page_size K) dvd unat p \<Longrightarrow>
       unat (page_size K) dvd unat sz \<Longrightarrow> reach (en_kernel e') = reach (en_kernel e) - span p sz"
proof -
  obtain ok k where k: "k_protect K p sz (no_access tg) (en_kernel e) = (ok, k)" by fastforce
  have e': "e' = (if ok then e\<lparr>en_kernel := k\<rparr> else capture_os_error K (e\<lparr>en_kernel := k\<rparr>))"
    using assms k by (simp add: os_protect_pages_def Let_def flip: no_access_word split: if_splits)
  note p = protect_secure [OF k]
  show "mapped (en_kernel e') = mapped (en_kernel e)" "locked (en_kernel e') = locked (en_kernel e)"
    "mmap_last_os_error e = None \<Longrightarrow> mmap_last_os_error e' = None \<Longrightarrow> unat (page_size K) dvd unat p \<Longrightarrow>
       unat (page_size K) dvd unat sz \<Longrightarrow> reach (en_kernel e') = reach (en_kernel e) - span p sz"
    using p by (auto simp: e' capture_os_error_def mmap_last_os_error_def split: if_splits)
qed

lemma mmap_protectable:
  "protectable (mmap_os tg K) mmap_view (unat (page_size K)) mmap_ok (\<lambda>b. reach (en_kernel (mm_env b)))"
proof
  fix b :: "'k mmap_backed" and p sz m b' m'
  assume "mmap_ok b" "os_protect (mmap_os tg K) p sz PROT_FLAGS_NONE (b, m) = (b', m')"
  then show "mmap_ok b' \<and> m' = m \<and> os_base_ptr (mmap_os tg K) b' = os_base_ptr (mmap_os tg K) b \<and>
      os_region_size (mmap_os tg K) b' = os_region_size (mmap_os tg K) b \<and>
      (\<not> slot_raised mmap_view b \<and> \<not> slot_raised mmap_view b' \<and> unat (page_size K) dvd unat p \<and>
         unat (page_size K) dvd unat sz \<longrightarrow>
       reach (en_kernel (mm_env b')) = reach (en_kernel (mm_env b)) - span p sz)"
    using protect_pages(3) [OF refl, where p = p and sz = sz and e = "mm_env b"]
    by (auto simp: mmap_os_def mmap_ok_def slot_raised_def mmap_view_def)
qed (auto simp: mmap_os_def mmap_ok_def slot_clear_def slot_raised_def mmap_view_def mmap_clear_last_os_error_def
    mmap_last_os_error_def)

lemma locked_protectable:
  "protectable (locked_os tg K) locked_view (unat (page_size K)) (pinned mapped locked used)
     (\<lambda>w. reach (en_kernel (mm_env (lo_inner w))))"
proof
  fix w :: "'k locked_mmap" and p sz m w' m'
  assume w: "pinned mapped locked used w" and "os_protect (locked_os tg K) p sz PROT_FLAGS_NONE (w, m) = (w', m')"
  then have w': "w' = locked_put ((lo_inner w)\<lparr>mm_env := os_protect_pages tg K p sz PROT_FLAGS_NONE (mm_env (lo_inner w))\<rparr>) w"
    "m' = m" by (auto simp: locked_os_def mmap_os_def)
  show "pinned mapped locked used w' \<and> m' = m \<and> os_base_ptr (locked_os tg K) w' = os_base_ptr (locked_os tg K) w \<and>
      os_region_size (locked_os tg K) w' = os_region_size (locked_os tg K) w \<and>
      (\<not> slot_raised locked_view w \<and> \<not> slot_raised locked_view w' \<and> unat (page_size K) dvd unat p \<and>
         unat (page_size K) dvd unat sz \<longrightarrow>
       reach (en_kernel (mm_env (lo_inner w'))) = reach (en_kernel (mm_env (lo_inner w))) - span p sz)"
    using w protect_pages [OF refl, where p = p and sz = sz and e = "mm_env (lo_inner w)"]
    by (simp add: w' locked_put_def locked_os_def mmap_os_def pinned_def Let_def mmap_ok_def mmap_own_def slot_raised_def locked_view_def)
qed (auto simp: locked_os_def mmap_os_def pinned_def Let_def mmap_ok_def mmap_own_def slot_clear_def slot_raised_def locked_view_def
    mmap_clear_last_os_error_def mmap_last_os_error_def)

lemma mmap_new_secure:
  assumes "mmap_new tg K sz (e, m) = (Inr b, e', m')"
  shows "mmap_own b \<subseteq> reach (en_kernel e')" "reach (en_kernel e') - mmap_own b = reach (en_kernel e) - mmap_own b"
    "locked (en_kernel e') - mmap_own b = locked (en_kernel e) - mmap_own b" "mm_env b = e'"
proof -
  obtain len p k where mp: "k_map K len False False (en_kernel e, m) = (Some p, k, m')"
    and e': "e' = e\<lparr>en_kernel := k\<rparr>" and b: "mmap_own b = span p len" "mm_env b = e'"
    using assms
    by (auto simp: mmap_new_def mmap_with_flags_def MMAP_FLAGS_NONE_def os_map_def mmap_own_def Let_def
        split: if_splits option.splits prod.splits sum.splits)
  show "mmap_own b \<subseteq> reach (en_kernel e')" "reach (en_kernel e') - mmap_own b = reach (en_kernel e) - mmap_own b"
    "locked (en_kernel e') - mmap_own b = locked (en_kernel e) - mmap_own b" "mm_env b = e'"
    using map_secure [OF mp] by (simp_all add: e' b)
qed

lemma os_lock_post:
  assumes "os_lock tg K C base sz e = (ok, e')"
  shows "mapped (en_kernel e') = mapped (en_kernel e)" "reach (en_kernel e') = reach (en_kernel e)"
    "ok \<Longrightarrow> locked (en_kernel e') = locked (en_kernel e) \<union> span base sz" "\<not> ok \<Longrightarrow> mmap_last_os_error e' \<noteq> None"
proof -
  obtain o1 k where k: "lc_lock C base sz (en_kernel e) = (o1, k)" by fastforce
  show "mapped (en_kernel e') = mapped (en_kernel e)" "reach (en_kernel e') = reach (en_kernel e)"
    "ok \<Longrightarrow> locked (en_kernel e') = locked (en_kernel e) \<union> span base sz" "\<not> ok \<Longrightarrow> mmap_last_os_error e' \<noteq> None"
    using assms lock_secure [OF k] dontdump_secure [of base sz k]
    by (auto simp: os_lock_def k Let_def mmap_record_os_error_def capture_os_error_def mmap_last_os_error_def split: if_splits)
qed

text \<open>Construction locks the whole mapping, or gives it back and leaves the code of the lock's failure.\<close>

lemma locked_new_post:
  assumes "locked_new tg K C sz (e, m) = (Inr w, e', m')"
  shows "pinned mapped locked (mapped (en_kernel e) \<union> mmap_own (lo_inner w)) w" "mmap_inv tg (lo_inner w) m' {}"
    "mm_env (lo_inner w) = e'" "mmap_own (lo_inner w) \<inter> mapped (en_kernel e) = {}"
    "unat sz \<le> unat (mm_len (lo_inner w))" "unat (page_size K) dvd unat (mm_ptr (lo_inner w))"
    "unat (page_size K) dvd unat (mm_len (lo_inner w))" "mmap_own (lo_inner w) \<subseteq> reach (en_kernel e')"
    "same_on (- mmap_own (lo_inner w)) m m'" "\<forall>a \<in> mmap_own (lo_inner w). m' a = 0"
proof -
  obtain b e1 where b: "mmap_new tg K sz (e, m) = (Inr b, e1, m')"
    and l: "os_lock tg K C (mm_ptr b) (mm_len b) e1 = (True, e')" and w: "w = \<lparr>lo_inner = b\<lparr>mm_env := e'\<rparr>\<rparr>"
    using assms by (auto simp: locked_new_def Let_def split: sum.splits prod.splits if_splits)
  note n = mmap_with_flags_ok [OF b [unfolded mmap_new_def]] and s = mmap_new_secure [OF b] and k = os_lock_post [OF l]
  have own: "mmap_own (b\<lparr>mm_env := e'\<rparr>) = mmap_own b" by (simp add: mmap_own_def)
  show "pinned mapped locked (mapped (en_kernel e) \<union> mmap_own (lo_inner w)) w"
    using n(1,7) k(1,3) by (auto simp: pinned_def Let_def w own mmap_inv_def mmap_ok_def mmap_own_def)
  show "mmap_inv tg (lo_inner w) m' {}" using n(1) by (simp add: w mmap_inv_def mmap_ok_def)
  show "mmap_own (lo_inner w) \<subseteq> reach (en_kernel e')" using s(1) k(2) by (simp add: w own)
  show "mm_env (lo_inner w) = e'" "mmap_own (lo_inner w) \<inter> mapped (en_kernel e) = {}"
    "unat sz \<le> unat (mm_len (lo_inner w))" "unat (page_size K) dvd unat (mm_ptr (lo_inner w))"
    "unat (page_size K) dvd unat (mm_len (lo_inner w))" "same_on (- mmap_own (lo_inner w)) m m'"
    "\<forall>a \<in> mmap_own (lo_inner w). m' a = 0"
    using n by (simp_all add: w own)
qed

lemma locked_new_error:
  assumes "locked_new tg K C sz (e, m) = (Inl err, e', m')"
  shows "mmap_last_os_error e' \<noteq> None"
    "\<exists>own. own \<inter> mapped (en_kernel e) = {} \<and> same_on (- own) m m' \<and>
       mapped (en_kernel e) \<subseteq> mapped (en_kernel e') \<and> mapped (en_kernel e') \<subseteq> mapped (en_kernel e) \<union> own"
proof -
  let ?gone = "\<exists>own. own \<inter> mapped (en_kernel e) = {} \<and> same_on (- own) m m' \<and>
    mapped (en_kernel e) \<subseteq> mapped (en_kernel e') \<and> mapped (en_kernel e') \<subseteq> mapped (en_kernel e) \<union> own"
  have "mmap_last_os_error e' \<noteq> None \<and> ?gone"
  proof (cases "fst (mmap_new tg K sz (e, m))")
    case (Inl err1)
    then have b: "mmap_new tg K sz (e, m) = (Inl err, e', m')"
      using assms by (auto simp: locked_new_def split: sum.splits prod.splits)
    show ?thesis using mmap_with_flags_error [OF b [unfolded mmap_new_def]] by (auto intro: exI [of _ "{}"])
  next
    case (Inr b)
    obtain e1 m1 where b: "mmap_new tg K sz (e, m) = (Inr b, e1, m1)"
      using Inr by (cases "mmap_new tg K sz (e, m)") auto
    obtain ok e2 where l: "os_lock tg K C (mm_ptr b) (mm_len b) e1 = (ok, e2)" by fastforce
    obtain e3 m3 where d: "mmap_drop K b (e2, m1) = (e3, m3)" by fastforce
    note n = mmap_with_flags_ok(6-8) [OF b [unfolded mmap_new_def]] and k = os_lock_post [OF l] and f = mmap_drop_frame [OF d]
    have ok: "\<not> ok" using assms b l by (auto simp: locked_new_def Let_def split: if_splits prod.splits)
    then obtain code where code: "mmap_last_os_error e2 = Some code" using k(4) by blast
    have e: "e' = mmap_set_last_os_error code e3" "m' = m3"
      using assms b l d ok code by (simp_all add: locked_new_def Let_def)
    have "mapped (en_kernel e) \<subseteq> mapped (en_kernel e3)" "mapped (en_kernel e3) \<subseteq> mapped (en_kernel e) \<union> mmap_own b"
      using f(1,2) n(1,2) k(1) by blast+
    moreover have "same_on (- mmap_own b) m m3" using n(3) f(3) by (rule same_on_trans)
    ultimately show ?thesis
      using n(1) by (auto simp: e mmap_set_last_os_error_def mmap_last_os_error_def)
  qed
  then show "mmap_last_os_error e' \<noteq> None" ?gone by blast+
qed

text \<open>The unmapping that follows a refused lock does not hide the lock's error code.\<close>

lemma locked_root_cause:
  assumes "locked_new tg K C sz (e, m) = (r, e', m')" "mmap_new tg K sz (e, m) = (Inr b, e1, m1)"
    "os_lock tg K C (mm_ptr b) (mm_len b) e1 = (False, e2)"
  shows "r = Inl AllocError \<and> mmap_last_os_error e' = mmap_last_os_error e2"
proof -
  obtain code where "mmap_last_os_error e2 = Some code" using os_lock_post(4) [OF assms(3)] by blast
  then show ?thesis
    using assms by (auto simp: locked_new_def Let_def mmap_set_last_os_error_def mmap_last_os_error_def split: prod.splits)
qed

lemma split_new_post:
  assumes "split_new tg K locked_view lk meta_size m = (Inr w, lk', m')" "pinned mapped locked used lk"
    "mmap_own (lo_inner lk) \<subseteq> used"
  shows "sm_data_region w = lk'" "pinned mapped locked (used \<union> mmap_own (sm_meta_region w)) lk'"
    "mmap_own (sm_meta_region w) \<inter> used = {}" "same_on (- mmap_own (sm_meta_region w)) m m'"
    "reach (en_kernel (mm_env (lo_inner lk'))) - mmap_own (sm_meta_region w) =
       reach (en_kernel (mm_env (lo_inner lk))) - mmap_own (sm_meta_region w)"
    "mm_ptr (lo_inner lk') = mm_ptr (lo_inner lk)" "mm_len (lo_inner lk') = mm_len (lo_inner lk)"
proof -
  obtain meta e where b: "mmap_new tg K meta_size (mm_env (lo_inner lk), m) = (Inr meta, e, m')"
    and lk': "lk' = lk\<lparr>lo_inner := (lo_inner lk)\<lparr>mm_env := e\<rparr>\<rparr>" and w: "w = split_with_meta lk' meta"
    using assms(1) by (auto simp: split_new_def locked_view_def Let_def split: sum.splits prod.splits)
  note n = mmap_with_flags_ok [OF b [unfolded mmap_new_def]] and s = mmap_new_secure [OF b]
  have p: "mmap_ok (lo_inner lk)" "mmap_own (lo_inner lk) \<subseteq> locked (en_kernel (mm_env (lo_inner lk)))"
    "mapped (en_kernel (mm_env (lo_inner lk))) = used" using assms(2) by (simp_all add: pinned_def Let_def)
  show "sm_data_region w = lk'" "mm_ptr (lo_inner lk') = mm_ptr (lo_inner lk)" "mm_len (lo_inner lk') = mm_len (lo_inner lk)"
    by (simp_all add: w split_with_meta_def lk')
  show d: "mmap_own (sm_meta_region w) \<inter> used = {}" "same_on (- mmap_own (sm_meta_region w)) m m'"
    using n(6,8) p(3) by (simp_all add: w split_with_meta_def)
  have "mmap_own (lo_inner lk) \<subseteq> locked (en_kernel e)"
    using p(2) s(3) d(1) assms(3) by (auto simp: w split_with_meta_def)
  then show "pinned mapped locked (used \<union> mmap_own (sm_meta_region w)) lk'"
    using p n(7) by (simp add: pinned_def Let_def lk' w split_with_meta_def mmap_ok_def mmap_own_def)
  show "reach (en_kernel (mm_env (lo_inner lk'))) - mmap_own (sm_meta_region w) =
      reach (en_kernel (mm_env (lo_inner lk))) - mmap_own (sm_meta_region w)"
    using s(2) by (simp add: lk' w split_with_meta_def)
qed

end

end
