(* ===== verification/Secure_Properties.thy ===== *)
theory Secure_Properties
  imports Mapping_Properties Secure_Regions Scrubbing Client_Runs
begin

text \<open>
  Properties of guarded and locked memory: \<open>GuardPage\<close>, \<open>LockedMmapBacked\<close>, and the composition that
  \<open>forge-alloc/src/lib.rs\<close> names \<open>CryptoSlab\<close>. The example kernel extends the one of
  \<open>Mapping_Properties\<close> with a set of barred addresses and one of locked ones.
\<close>

section \<open>A kernel that protects and locks\<close>

record secure_os =
  so_next :: addr
  so_barred :: "addr set"
  so_locked :: "addr set"

definition secure_kernel :: "secure_os kernel" where
  "secure_kernel = \<lparr>k_page_size = 4096,
     k_map = (\<lambda>len pop resv (k, m). case k_map demo_kernel len pop resv (so_next k, m) of
       (r, n, m') \<Rightarrow> (r, k\<lparr>so_next := n,
          so_barred := (case r of None \<Rightarrow> so_barred k | Some p \<Rightarrow> so_barred k - span p len)\<rparr>, m')),
     k_unmap = (\<lambda>p len (k, m). case k_unmap demo_kernel p len (so_next k, m) of
       (ok, n, m') \<Rightarrow> (ok, k\<lparr>so_next := n\<rparr>, m')),
     k_commit = (\<lambda>p len k. (True, k)),
     k_release = (\<lambda>p len (k, m). (True, k, m)),
     k_protect = (\<lambda>p len prot k. (True, k\<lparr>so_barred :=
       (if prot = 0 then so_barred k \<union> span p len else so_barred k - span p len)\<rparr>)),
     k_error = (\<lambda>k. 12)\<rparr>"

definition secure_locks :: "secure_os lock_calls" where
  "secure_locks = \<lparr>lc_lock = (\<lambda>p len k. (True, k\<lparr>so_locked := so_locked k \<union> span p len\<rparr>)),
     lc_unlock = (\<lambda>p len k. (True, k\<lparr>so_locked := so_locked k - span p len\<rparr>)),
     lc_dontdump = (\<lambda>p len k. k)\<rparr>"

definition secure_reach :: "secure_os \<Rightarrow> addr set" where
  "secure_reach k = demo_mapped (so_next k) - so_barred k"

lemma secure_page_size: "page_size secure_kernel = page_size demo_kernel"
  by (simp add: page_size_def secure_kernel_def demo_kernel_def)

interpretation secure: securing_kernel secure_kernel "\<lambda>k. demo_mapped (so_next k)" Linux secure_locks
  secure_reach so_locked
proof
  fix len pop resv k m p k' m'
  assume a: "k_map secure_kernel len pop resv (k, m) = (Some p, k', m')"
  then have d: "k_map demo_kernel len pop resv (so_next k, m) = (Some p, so_next k', m')"
    and k': "k' = k\<lparr>so_next := so_next k', so_barred := so_barred k - span p len\<rparr>"
    by (auto simp: secure_kernel_def split: prod.splits)
  note o = demo.map_ok [OF d]
  show "p \<noteq> 0 \<and> no_wrap p len \<and> unat (page_size secure_kernel) dvd unat p \<and>
      span p len \<inter> demo_mapped (so_next k) = {} \<and>
      demo_mapped (so_next k') = demo_mapped (so_next k) \<union> span p len \<and>
      same_on (- span p len) m m' \<and> (\<forall>a \<in> span p len. m' a = 0)"
    using o by (simp add: secure_page_size)
  have b: "so_barred k' = so_barred k - span p len" "so_locked k' = so_locked k" by (subst k', simp)+
  show "secure_reach k' - span p len = secure_reach k - span p len \<and>
      so_locked k' - span p len = so_locked k - span p len \<and> (\<not> resv \<longrightarrow> span p len \<subseteq> secure_reach k')"
    using o by (auto simp: secure_reach_def b)
next
  fix len pop resv k m k' m'
  assume "k_map secure_kernel len pop resv (k, m) = (None, k', m')"
  then have "k_map demo_kernel len pop resv (so_next k, m) = (None, so_next k', m')"
    by (auto simp: secure_kernel_def split: prod.splits)
  from demo.map_fail [OF this] show "demo_mapped (so_next k') = demo_mapped (so_next k) \<and> m' = m" .
next
  fix p len k m ok k' m'
  assume "k_unmap secure_kernel p len (k, m) = (ok, k', m')"
  then have "k_unmap demo_kernel p len (so_next k, m) = (ok, so_next k', m')"
    by (auto simp: secure_kernel_def split: prod.splits)
  from demo.unmap_ok [OF this]
  show "demo_mapped (so_next k') =
      (if ok then demo_mapped (so_next k) - span p len else demo_mapped (so_next k)) \<and> same_on (- span p len) m m'" .
qed (auto simp: secure_kernel_def secure_locks_def secure_reach_def no_access_def)

interpretation guardable: protectable "mmap_os Linux secure_kernel" mmap_view "unat (page_size secure_kernel)"
  mmap_ok "\<lambda>b. secure_reach (en_kernel (mm_env b))"
  by (rule secure.mmap_protectable)

section \<open>GuardPage\<close>

text \<open>
  C19. Over any region that can be protected, a \<open>GuardPage\<close> that is built has the first and the last
  page of the region out of reach, nothing else changed, and serves blocks, under the whole contract,
  only from the bytes between them, of which there is at least a page: no operation of the wrapper
  touches the region again, so the guards stay. It is refused just for its arguments or because one of
  the two \<open>protect\<close> calls raised an error: guards that might be writable are never handed out.
\<close>

theorem guard_pages_enclose:
  assumes "protectable S V page ok reach" "ok b" "page dvd unat ps" "guard_new S V b ps m = (r, b', m')"
  shows "m' = m \<and>
    (case r of
       Inl e \<Rightarrow> \<not> is_pow2 ps \<or> unat (os_region_size S b) < 3 * unat ps \<or>
         \<not> unat ps dvd unat (os_base_ptr S b) \<or> \<not> unat ps dvd unat (os_region_size S b) \<or> slot_raised V b'
     | Inr g \<Rightarrow> ranged_contract guard_allocator (guard_inv g) guard_range \<and> guard_inv g g m {} \<and>
         \<not> slot_raised V b' \<and> reach b' = reach b - (head_guard S ps b \<union> tail_guard S ps b) \<and>
         (\<forall>h n L. guard_inv g h n L \<longrightarrow> gp_inner h = b' \<and> footprint L \<subseteq>
            span (os_base_ptr S b) (os_region_size S b) - (head_guard S ps b \<union> tail_guard S ps b)) \<and>
         unat ps \<le> unat (gp_usable_size g))"
proof (cases r)
  case (Inl e)
  then show ?thesis using protectable.guard_new_refused [OF assms(1,2)] assms(4) by simp
next
  case (Inr g)
  note p = protectable.guard_new_post [OF assms(1,2) assms(4) [unfolded Inr] assms(3)]
  have "gp_inner h = b' \<and> footprint L \<subseteq> guard_own g" if i: "guard_inv g h n L" for h n L
  proof -
    have "guard_own h = guard_own g" "gp_inner h = gp_inner g"
      using i by (simp_all add: guard_inv_def guard_ok_def guard_own_def)
    then show ?thesis
      using owned_contract.own_live [OF owned_ranged.axioms(1) [OF guard_owned_ranged] i] p(7) by simp
  qed
  then show ?thesis
    using Inr p guard_ranged protectable.guard_new_clean [OF assms(1) assms(4) [unfolded Inr]] by simp
qed

definition demo_region :: "secure_os mmap_backed" where
  "demo_region = \<lparr>mm_ptr = 8192, mm_len = 12288, mm_cursor = 0, mm_committed = 12288,
     mm_env = \<lparr>en_kernel = \<lparr>so_next = 20480, so_barred = {}, so_locked = {}\<rparr>, en_last_os_error = Some 12\<rparr>\<rparr>"

definition demo_guarded :: "secure_os mmap_backed" where
  "demo_guarded = demo_region\<lparr>mm_env := \<lparr>en_kernel = \<lparr>so_next = 20480, so_barred = span 8192 4096 \<union> span 16384 4096,
     so_locked = {}\<rparr>, en_last_os_error = None\<rparr>\<rparr>"

lemma is_pow2_4096 [simp]: "is_pow2 4096"
  using is_pow2I [of 12 4096] by simp

lemma demo_guard_new:
  "guard_new (mmap_os Linux secure_kernel) mmap_view demo_region 4096 m =
     (Inr \<lparr>gp_inner = demo_guarded, gp_page_size = 4096, gp_base = 12288, gp_usable_size = 4096, gp_cursor = 0\<rparr>,
      demo_guarded, m)"
  by (simp add: guard_new_def guard_install_def mmap_os_def demo_region_def demo_guarded_def checked_mul_def
      checked_add_def mmap_view_def slot_clear_def slot_raised_def mmap_clear_last_os_error_def mmap_last_os_error_def
      os_protect_pages_def unix_prot_from_flags_def PROT_FLAGS_NONE_def Let_def secure_kernel_def)

theorem guard_pages_enclose_witness:
  "secure_reach (en_kernel (mm_env demo_guarded)) =
     secure_reach (en_kernel (mm_env demo_region)) - (span 8192 4096 \<union> span 16384 4096) \<and>
   12288 \<in> secure_reach (en_kernel (mm_env demo_guarded))"
proof -
  have "mmap_ok demo_region" by (simp add: mmap_ok_def demo_region_def no_wrap_def)
  moreover have "unat (page_size secure_kernel) dvd unat (4096 :: usize)" by (simp add: secure_page_size demo_page_size)
  moreover have "12288 \<in> secure_reach (en_kernel (mm_env demo_guarded))"
    by (simp add: secure_reach_def demo_guarded_def demo_mapped_def span_def)
  ultimately show ?thesis
    using guard_pages_enclose [OF guardable.protectable_axioms _ _ demo_guard_new, of zero_mem]
    by (simp add: head_guard_def tail_guard_def mmap_os_def) (simp add: demo_region_def)
qed

section \<open>LockedMmapBacked\<close>

text \<open>
  C20. \<open>LockedMmapBacked::new\<close> fails closed. A value exists only over a fresh, zeroed mapping all of whose
  bytes are locked, and meets the contract. Otherwise an error code is left in the slot, at most the
  fresh mapping was touched, and when it was the lock that failed the caller gets an error with the
  code of the lock, not of the unmapping that follows.
\<close>

theorem locked_mmap_fails_closed:
  assumes "securing_kernel K mapped tg C reach locked" "locked_new tg K C sz (e, m) = (r, e', m')"
  shows "(case r of
      Inl err \<Rightarrow> mmap_last_os_error e' \<noteq> None \<and>
        (\<exists>own. own \<inter> mapped (en_kernel e) = {} \<and> same_on (- own) m m' \<and>
           mapped (en_kernel e) \<subseteq> mapped (en_kernel e') \<and> mapped (en_kernel e') \<subseteq> mapped (en_kernel e) \<union> own)
    | Inr w \<Rightarrow> allocator_contract (locked_allocator tg K) (field_inv lo_inner (mmap_inv tg)) \<and>
        mmap_inv tg (lo_inner w) m' {} \<and> mmap_own (lo_inner w) \<subseteq> locked (en_kernel e') \<and>
        mmap_own (lo_inner w) \<inter> mapped (en_kernel e) = {} \<and> unat sz \<le> unat (mm_len (lo_inner w)) \<and>
        (\<forall>a \<in> mmap_own (lo_inner w). m' a = 0) \<and> same_on (- mmap_own (lo_inner w)) m m') \<and>
    (\<forall>b e1 m1 e2. mmap_new tg K sz (e, m) = (Inr b, e1, m1) \<and>
       os_lock tg K C (mm_ptr b) (mm_len b) e1 = (False, e2) \<longrightarrow>
       r = Inl AllocError \<and> mmap_last_os_error e' = mmap_last_os_error e2)"
proof (rule conjI)
  show "\<forall>b e1 m1 e2. mmap_new tg K sz (e, m) = (Inr b, e1, m1) \<and>
       os_lock tg K C (mm_ptr b) (mm_len b) e1 = (False, e2) \<longrightarrow>
       r = Inl AllocError \<and> mmap_last_os_error e' = mmap_last_os_error e2"
    using securing_kernel.locked_root_cause [OF assms] by blast
  show "case r of
      Inl err \<Rightarrow> mmap_last_os_error e' \<noteq> None \<and>
        (\<exists>own. own \<inter> mapped (en_kernel e) = {} \<and> same_on (- own) m m' \<and>
           mapped (en_kernel e) \<subseteq> mapped (en_kernel e') \<and> mapped (en_kernel e') \<subseteq> mapped (en_kernel e) \<union> own)
    | Inr w \<Rightarrow> allocator_contract (locked_allocator tg K) (field_inv lo_inner (mmap_inv tg)) \<and>
        mmap_inv tg (lo_inner w) m' {} \<and> mmap_own (lo_inner w) \<subseteq> locked (en_kernel e') \<and>
        mmap_own (lo_inner w) \<inter> mapped (en_kernel e) = {} \<and> unat sz \<le> unat (mm_len (lo_inner w)) \<and>
        (\<forall>a \<in> mmap_own (lo_inner w). m' a = 0) \<and> same_on (- mmap_own (lo_inner w)) m m'"
  proof (cases r)
    case (Inl err)
    then show ?thesis using securing_kernel.locked_new_error [OF assms(1) assms(2) [unfolded Inl]] by simp
  next
    case (Inr w)
    note p = securing_kernel.locked_new_post [OF assms(1) assms(2) [unfolded Inr]]
    then show ?thesis using Inr locked_contract by (simp add: pinned_def Let_def)
  qed
qed

definition secure_env :: "addr \<Rightarrow> addr set \<Rightarrow> addr set \<Rightarrow> secure_os env" where
  "secure_env n b l = \<lparr>en_kernel = \<lparr>so_next = n, so_barred = b, so_locked = l\<rparr>, en_last_os_error = None\<rparr>"

definition demo_map_at :: "addr \<Rightarrow> usize \<Rightarrow> secure_os env \<Rightarrow> secure_os mmap_backed" where
  "demo_map_at p len e = \<lparr>mm_ptr = p, mm_len = len, mm_cursor = 0, mm_committed = len, mm_env = e\<rparr>"

lemma demo_pages:
  "mmap_new Linux secure_kernel 12288 (secure_env 4096 {} {}, m) =
     (Inr (demo_map_at 4096 12288 (secure_env 16384 {} {})), secure_env 16384 {} {}, write_bytes m 4096 0 12288)"
  "mmap_new Linux secure_kernel 4096 (secure_env 16384 {} l, m) =
     (Inr (demo_map_at 16384 4096 (secure_env 20480 {} l)), secure_env 20480 {} l, write_bytes m 16384 0 4096)"
  by (simp_all add: map_eval secure_page_size secure_env_def demo_map_at_def)
    (simp_all add: secure_kernel_def demo_kernel_def)

definition demo_locked :: "addr \<Rightarrow> addr set \<Rightarrow> secure_os locked_mmap" where
  "demo_locked n b = \<lparr>lo_inner = demo_map_at 4096 12288 (secure_env n b (span 4096 12288))\<rparr>"

lemma demo_locked_new:
  "locked_new Linux secure_kernel secure_locks 12288 (secure_env 4096 {} {}, m) =
     (Inr (demo_locked 16384 {}), secure_env 16384 {} (span 4096 12288), write_bytes m 4096 0 12288)"
  by (simp add: locked_new_def demo_pages os_lock_def secure_locks_def Let_def)
    (simp add: demo_map_at_def demo_locked_def secure_env_def)

theorem locked_mmap_fails_closed_witness:
  "\<exists>w e m. locked_new Linux secure_kernel secure_locks 12288 (secure_env 4096 {} {}, zero_mem) = (Inr w, e, m) \<and>
     mmap_own (lo_inner w) \<subseteq> so_locked (en_kernel e)"
  using locked_mmap_fails_closed [OF secure.securing_kernel_axioms demo_locked_new [of zero_mem]] demo_locked_new [of zero_mem]
  by simp

section \<open>CryptoSlab\<close>

text \<open>
  \<open>ZeroizeOnFree<Slab<T, GuardPage<SplitMetadata<LockedMmapBacked>>, M>>\<close>, and the construction that its
  documentation gives. A step that fails ends it; what the unwinding drops is not followed.
\<close>

type_synonym 'k crypto_region = "('k locked_mmap, 'k) split_metadata"
type_synonym 'k crypto_state = "'k crypto_region guard_page slab zeroize"

definition crypto_slab :: "protection \<Rightarrow> type_layout \<Rightarrow> 'k crypto_state allocator" where
  "crypto_slab P T = zeroize_allocator (slab_allocator guard_range P T)"

definition build_crypto ::
  "target \<Rightarrow> 'k kernel \<Rightarrow> 'k lock_calls \<Rightarrow> type_layout \<Rightarrow> usize \<Rightarrow> usize \<Rightarrow> usize \<Rightarrow> usize \<Rightarrow> 'k env \<times> mem \<Rightarrow>
     ('k crypto_state \<times> mem) option" where
  "build_crypto tg K C T capacity data_size meta_size ps st =
     (case locked_new tg K C data_size st of
        (Inl err, st') \<Rightarrow> None
      | (Inr lk, e, m) \<Rightarrow>
          case split_new tg K locked_view lk meta_size m of
            (Inl err, st') \<Rightarrow> None
          | (Inr split, _, m1) \<Rightarrow>
              case guard_new (split_os (locked_os tg K)) (split_view locked_view) split ps m1 of
                (Inl err, st') \<Rightarrow> None
              | (Inr guarded, _, m2) \<Rightarrow>
                  case slab_with_protection guard_allocator guard_range T capacity (guarded, m2) of
                    (Inl err, st') \<Rightarrow> None
                  | (Inr s, _, m3) \<Rightarrow> Some (zeroize_new s, m3))"

definition crypto_guard :: "'k crypto_state \<Rightarrow> 'k crypto_region guard_page" where
  "crypto_guard w = sl_backing (ze_inner w)"

definition crypto_data :: "'k crypto_state \<Rightarrow> 'k mmap_backed" where
  "crypto_data w = lo_inner (sm_data_region (gp_inner (crypto_guard w)))"

definition crypto_kernel :: "'k crypto_state \<Rightarrow> 'k" where
  "crypto_kernel w = en_kernel (mm_env (crypto_data w))"

definition crypto_guards :: "'k crypto_state \<Rightarrow> addr set" where
  "crypto_guards w =
     (let b = crypto_data w; ps = gp_page_size (crypto_guard w)
      in span (mm_ptr b) ps \<union> span (mm_ptr b + (mm_len b - ps)) ps)"

lemma build_crypto_post:
  assumes sk: "securing_kernel K mapped tg C reach locked" and T: "type_ok T"
    and ps: "unat (page_size K) dvd unat ps"
    and build: "build_crypto tg K C T capacity data_size meta_size ps (e, m) = Some (w, m')"
  shows "slab_inv strict (guard_inv (crypto_guard w)) guard_range P T (ze_inner w) m' {}"
    "mmap_own (crypto_data w) \<subseteq> locked (crypto_kernel w)"
    "crypto_guards w \<inter> reach (crypto_kernel w) = {}"
    "guard_own (crypto_guard w) = mmap_own (crypto_data w) - crypto_guards w"
    "guard_own (crypto_guard w) \<subseteq> reach (crypto_kernel w)"
    "mmap_own (sm_meta_region (gp_inner (crypto_guard w))) \<inter> mmap_own (crypto_data w) = {}"
    "mmap_own (crypto_data w) \<inter> mapped (en_kernel e) = {}"
proof -
  obtain lk e1 m1 sp d1 m2 g b2 m3 s b3 where
    lk: "locked_new tg K C data_size (e, m) = (Inr lk, e1, m1)"
    and sp: "split_new tg K locked_view lk meta_size m1 = (Inr sp, d1, m2)"
    and g: "guard_new (split_os (locked_os tg K)) (split_view locked_view) sp ps m2 = (Inr g, b2, m3)"
    and s: "slab_with_protection guard_allocator guard_range T capacity (g, m3) = (Inr s, b3, m')"
    and w: "w = zeroize_new s"
    using build by (auto simp: build_crypto_def split: sum.splits prod.splits)
  let ?own = "mmap_own (lo_inner lk)" and ?meta = "sm_meta_region sp"
  note L = securing_kernel.locked_new_post [OF sk lk]
  note S = securing_kernel.split_new_post [OF sk sp L(1) Un_upper2]
  let ?used = "mapped (en_kernel e) \<union> ?own \<union> mmap_own ?meta"
  note P = protectable.split_protectable [OF securing_kernel.locked_protectable [OF sk, of ?used], of ?meta]
  have ok: "pinned mapped locked ?used (sm_data_region sp) \<and> ?meta = ?meta" using S(1,2) by simp
  note G = protectable.guard_new_post [OF P ok g ps]
  note N = protectable.guard_new_cases(6) [OF P g]
  note I = ranged_contract.slab_new_inv [OF guard_ranged s G(3) T]
  have "guard_inv g (sl_backing s) m' {(slab_base_ptr guard_range s, sl_backing_layout s, n)} \<Longrightarrow> guard_ok g (sl_backing s)" for n
    by (simp add: guard_inv_def)
  then have same: "guard_ok g (crypto_guard w)"
    using I(1) by (auto simp: slab_inv_def w zeroize_new_def crypto_guard_def)
  then have f: "gp_inner (crypto_guard w) = b2" "gp_page_size (crypto_guard w) = ps" "gp_base (crypto_guard w) = gp_base g"
    "gp_usable_size (crypto_guard w) = gp_usable_size g"
    using N by (simp_all add: guard_ok_def)
  have "guard_inv (crypto_guard w) = guard_inv g"
    using same by (simp add: guard_inv_def [abs_def] guard_ok_def)
  then show "slab_inv strict (guard_inv (crypto_guard w)) guard_range P T (ze_inner w) m' {}"
    using I(1) by (simp add: w zeroize_new_def)
  have d: "crypto_data w = lo_inner (sm_data_region b2)" by (simp add: crypto_data_def f)
  have pos: "mm_ptr (crypto_data w) = mm_ptr (lo_inner lk)" "mm_len (crypto_data w) = mm_len (lo_inner lk)"
    using G(4,5) S(1,6,7) by (simp_all add: d split_os_def locked_os_def mmap_os_def)
  then have own: "mmap_own (crypto_data w) = ?own" by (simp add: mmap_own_def)
  have guards: "crypto_guards w = head_guard (split_os (locked_os tg K)) ps sp \<union> tail_guard (split_os (locked_os tg K)) ps sp"
    using S(1,6,7) pos by (simp add: crypto_guards_def f head_guard_def tail_guard_def split_os_def locked_os_def mmap_os_def Let_def)
  have kern: "crypto_kernel w = en_kernel (mm_env (lo_inner (sm_data_region b2)))" by (simp add: crypto_kernel_def d)
  show "mmap_own (crypto_data w) \<subseteq> locked (crypto_kernel w)"
    using G(1) by (simp add: pinned_def Let_def kern d)
  have reach: "reach (crypto_kernel w) = reach (en_kernel (mm_env (lo_inner d1))) - crypto_guards w"
    using G(6) S(1) by (simp add: kern guards)
  then show "crypto_guards w \<inter> reach (crypto_kernel w) = {}" by blast
  show go: "guard_own (crypto_guard w) = mmap_own (crypto_data w) - crypto_guards w"
  proof -
    have "guard_own (crypto_guard w) = guard_own g" by (simp add: guard_own_def f)
    moreover have "span (os_base_ptr (split_os (locked_os tg K)) sp) (os_region_size (split_os (locked_os tg K)) sp) = ?own"
      using S(6,7) by (simp add: split_os_def locked_os_def mmap_os_def mmap_own_def S(1))
    ultimately show ?thesis using G(8) unfolding guards own by simp
  qed
  have "?own \<subseteq> reach (en_kernel (mm_env (lo_inner d1)))"
    using L(3,8) S(3,5) by blast
  then show "guard_own (crypto_guard w) \<subseteq> reach (crypto_kernel w)" unfolding go reach own by blast
  have meta: "sm_meta_region b2 = ?meta" using G(1) by simp
  have "mmap_own ?meta \<inter> ?own = {}" using S(3) by blast
  then show "mmap_own (sm_meta_region (gp_inner (crypto_guard w))) \<inter> mmap_own (crypto_data w) = {}"
    by (simp only: f own meta)
  show "mmap_own (crypto_data w) \<inter> mapped (en_kernel e) = {}" unfolding own by (rule L(4))
qed

text \<open>
  C18. \<open>CryptoSlab\<close>, built as its documentation says, keeps its promises in every state that a
  well-behaved client can reach: the run is one of the abstract allocator, every live block lies in
  locked memory that can be reached and outside the metadata mapping, the pages at both ends of the
  data region are out of reach, and freeing a block leaves nothing of it but the eight bytes of the
  free-list link: all other bytes of its slot are zero.
\<close>

theorem crypto_slab_secure:
  assumes "securing_kernel K mapped tg C reach locked" "type_ok T" "freelist_protection P"
    "unat (page_size K) dvd unat ps" "build_crypto tg K C T capacity data_size meta_size ps (e, m) = Some (w, m')"
    "client_run (crypto_slab P T) (w, m', {}) k (w', m'', L)"
  shows "spec_run (m', {}) k (m'', L) \<and> live_ok L \<and>
    footprint L \<subseteq> mmap_own (crypto_data w') \<inter> locked (crypto_kernel w') \<inter> reach (crypto_kernel w') \<and>
    footprint L \<inter> mmap_own (sm_meta_region (gp_inner (crypto_guard w'))) = {} \<and>
    crypto_guards w' \<inter> reach (crypto_kernel w') = {} \<and>
    (\<forall>p lay n a. (p, lay, n) \<in> L \<and> a \<in> span p (sl_block_stride (ze_inner w')) \<and> a \<notin> span p 8 \<longrightarrow>
       (\<exists>w2 m2. al_deallocate (crypto_slab P T) p lay (w', m'') = Done (w2, m2) \<and> m2 a = 0))"
proof -
  note B = build_crypto_post [OF assms(1,2,4,5)]
  let ?inv = "field_inv ze_inner (slab_inv True (guard_inv (crypto_guard w)) guard_range P T)"
  have c: "allocator_contract (crypto_slab P T) ?inv"
    unfolding crypto_slab_def
    by (rule allocator_contract.zeroize_contract [OF ranged_contract.slab_contract [OF guard_ranged assms(3)]])
  have i: "?inv w m' {}" by (rule B(1))
  have r: "?inv w' m'' L" "spec_run (m', {}) k (m'', L)"
    using allocator_contract.client_run_refines [OF c assms(6) i] by simp_all
  have live: "live_ok L" by (rule allocator_contract.client_run_safe [OF c assms(6) i])
  obtain n where "guard_inv (crypto_guard w) (crypto_guard w') m'' {(slab_base_ptr guard_range (ze_inner w'), sl_backing_layout (ze_inner w'), n)}"
    using r(1) by (auto simp: slab_inv_def crypto_guard_def)
  then have g: "gp_inner (crypto_guard w') = gp_inner (crypto_guard w)" "gp_page_size (crypto_guard w') = gp_page_size (crypto_guard w)"
    "guard_own (crypto_guard w') = guard_own (crypto_guard w)"
    by (simp_all add: guard_inv_def guard_ok_def guard_own_def)
  have same: "crypto_data w' = crypto_data w" "crypto_kernel w' = crypto_kernel w" "crypto_guards w' = crypto_guards w"
    by (simp_all add: crypto_data_def crypto_kernel_def crypto_guards_def g)
  have "footprint L \<subseteq> guard_own (crypto_guard w')"
    using owned_ranged.slab_live_owned(1) [OF guard_owned_ranged r(1)] by (simp add: slab_own_def crypto_guard_def)
  then have fp: "footprint L \<subseteq> mmap_own (crypto_data w)" "footprint L \<subseteq> reach (crypto_kernel w)"
    using B(4,5) unfolding g(3) by blast+
  have scrub: "\<exists>w2 m2. al_deallocate (crypto_slab P T) p lay (w', m'') = Done (w2, m2) \<and> m2 a = 0"
    if "(p, lay, n) \<in> L" "a \<in> span p (sl_block_stride (ze_inner w'))" "a \<notin> span p 8" for p lay n a
  proof -
    have z: "al_deallocate (crypto_slab P T) = zeroize_deallocate (slab_allocator guard_range P T)"
      by (simp add: crypto_slab_def zeroize_allocator_def Let_def)
    have "w' = \<lparr>ze_inner = ze_inner w'\<rparr>" by simp
    then show ?thesis
      using slab_scrub_both [OF guard_ranged assms(3) r(1) that, of 0] unfolding z by metis
  qed
  show ?thesis
    using r(2) live fp B(2,3,6) scrub unfolding same g(1) by blast
qed

definition demo_split :: "addr set \<Rightarrow> secure_os crypto_region" where
  "demo_split b = split_with_meta (demo_locked 20480 b) (demo_map_at 16384 4096 (secure_env 20480 {} (span 4096 12288)))"

lemma demo_split_new:
  "split_new Linux secure_kernel locked_view (demo_locked 16384 {}) 4096 m =
     (Inr (demo_split {}), demo_locked 20480 {}, write_bytes m 16384 0 4096)"
  by (simp add: split_new_def demo_split_def Let_def)
    (simp add: locked_view_def demo_locked_def demo_map_at_def demo_pages [unfolded demo_map_at_def])

definition demo_crypto_guard :: "usize \<Rightarrow> secure_os crypto_region guard_page" where
  "demo_crypto_guard c = \<lparr>gp_inner = demo_split (span 4096 4096 \<union> span 12288 4096), gp_page_size = 4096,
     gp_base = 8192, gp_usable_size = 4096, gp_cursor = c\<rparr>"

lemma demo_crypto_guard_new:
  "\<exists>b. guard_new (split_os (locked_os Linux secure_kernel)) (split_view locked_view) (demo_split {}) 4096 m =
     (Inr (demo_crypto_guard 0), b, m)"
  by (simp add: guard_new_def guard_install_def split_os_def locked_os_def mmap_os_def demo_split_def split_with_meta_def
      demo_locked_def demo_map_at_def secure_env_def checked_mul_def checked_add_def split_view_def locked_view_def
      slot_clear_def slot_raised_def mmap_clear_last_os_error_def mmap_last_os_error_def os_protect_pages_def
      unix_prot_from_flags_def PROT_FLAGS_NONE_def Let_def split_put_def locked_put_def demo_crypto_guard_def)
    (simp add: secure_kernel_def)

definition demo_crypto_slab :: "u32 \<Rightarrow> secure_os crypto_region guard_page slab" where
  "demo_crypto_slab carved = \<lparr>sl_backing = demo_crypto_guard 64, sl_base_offset = 0, sl_free_head = 0,
     sl_next_uncarved = carved, sl_block_stride = 16, sl_stride_shift = 4, sl_capacity = 4,
     sl_backing_layout = \<lparr>lay_size = 64, lay_align = 8\<rparr>, sl_corruption_events = 0\<rparr>"

lemma demo_crypto_slab_new:
  "slab_with_protection guard_allocator guard_range demo_type 4 (demo_crypto_guard 0, m) =
     (Inr (demo_crypto_slab 0), demo_crypto_guard 64, m)"
proof -
  have t: "trailing_zeros 16 = 4" using trailing_zeros_pow2 [of 4] by simp
  have sa: "slot_align demo_type = 8" "ty_size demo_type = 16"
    by (simp_all add: demo_type_def slot_align_def)
  have st: "slab_stride demo_type = Some 16"
    by (simp add: slab_stride_def sa align_up_checked_def checked_add_def align_down_def)
  have l: "from_size_align 64 8 = Inr \<lparr>lay_size = 64, lay_align = 8\<rparr>"
    by (simp add: from_size_align_def nzl_new_eq)
  have al: "al_allocate guard_allocator \<lparr>lay_size = 64, lay_align = 8\<rparr> (demo_crypto_guard 0, m) =
      (Inr (8192, 64), demo_crypto_guard 64, m)"
    by (simp add: guard_allocator_def guard_allocate_def demo_crypto_guard_def bump_carve_def align_up_checked_def
        checked_add_def align_down_def)
  have m: "\<not> (ucast (- 1 :: u32) :: usize) < 4"
    by (simp add: word_less_nat_alt unat_minus_one_word)
  show ?thesis
    by (simp add: m slab_with_protection_def st l t al sa checked_mul_def checked_sub_def guard_range_def
        demo_crypto_slab_def) (simp add: demo_crypto_guard_def)
qed

lemma demo_crypto_new:
  "\<exists>m'. build_crypto Linux secure_kernel secure_locks demo_type 4 12288 4096 4096 (secure_env 4096 {} {}, zero_mem) =
     Some (zeroize_new (demo_crypto_slab 0), m')"
proof -
  obtain b where "guard_new (split_os (locked_os Linux secure_kernel)) (split_view locked_view) (demo_split {}) 4096
      (write_bytes (write_bytes zero_mem 4096 0 12288) 16384 0 4096) =
     (Inr (demo_crypto_guard 0), b, write_bytes (write_bytes zero_mem 4096 0 12288) 16384 0 4096)"
    using demo_crypto_guard_new by blast
  then show ?thesis
    by (simp add: build_crypto_def demo_locked_new demo_split_new demo_crypto_slab_new)
qed

lemma demo_crypto_step:
  "client_run (crypto_slab NoProtection demo_type) (zeroize_new (demo_crypto_slab 0), m, {}) 0
     (zeroize_new (demo_crypto_slab 1), m, {(8192, demo_layout, 16)})"
proof -
  have "al_allocate (crypto_slab NoProtection demo_type) demo_layout (zeroize_new (demo_crypto_slab 0), m) =
      (Inr (8192, 16), zeroize_new (demo_crypto_slab 1), m)"
    by (simp add: crypto_slab_def zeroize_allocator_def via_def Let_def zeroize_new_def zeroize_put_def slab_allocator_def
        slab_allocate_def slab_carve_def slab_slot_ptr_def slab_base_ptr_def slot_addr_def slot_align_def
        demo_crypto_slab_def demo_type_def demo_layout_def guard_range_def) (simp add: demo_crypto_guard_def)
  from client_step.alloc_ok [OF demo_layout_ok this, of "{}"]
  show ?thesis using client_run.snoc [OF client_run.nil] by fastforce
qed

theorem crypto_slab_secure_witness:
  "\<exists>w m' w2 m2. build_crypto Linux secure_kernel secure_locks demo_type 4 12288 4096 4096 (secure_env 4096 {} {}, zero_mem) =
       Some (w, m') \<and> 8192 \<in> so_locked (crypto_kernel (zeroize_new (demo_crypto_slab 1))) \<and>
     al_deallocate (crypto_slab NoProtection demo_type) 8192 demo_layout (zeroize_new (demo_crypto_slab 1), m') =
       Done (w2, m2) \<and> m2 8207 = 0"
proof -
  obtain m' where b: "build_crypto Linux secure_kernel secure_locks demo_type 4 12288 4096 4096
      (secure_env 4096 {} {}, zero_mem) = Some (zeroize_new (demo_crypto_slab 0), m')"
    using demo_crypto_new by blast
  have pg: "unat (page_size secure_kernel) dvd unat (4096 :: usize)" by (simp add: secure_page_size demo_page_size)
  note c = crypto_slab_secure [OF secure.securing_kernel_axioms demo_type_ok no_protection.freelist_protection_axioms
      pg b demo_crypto_step]
  have "(8192 :: addr) \<in> footprint {(8192, demo_layout, 16)}" by (simp add: footprint_def span_def)
  then have l: "8192 \<in> so_locked (crypto_kernel (zeroize_new (demo_crypto_slab 1)))"
    using c [THEN conjunct2, THEN conjunct2, THEN conjunct1] by (elim subsetD [THEN IntD1, THEN IntD2])
  note f = c [THEN conjunct2, THEN conjunct2, THEN conjunct2, THEN conjunct2, THEN conjunct2, rule_format,
      of 8192 demo_layout 16 8207]
  have "\<exists>w2 m2. al_deallocate (crypto_slab NoProtection demo_type) 8192 demo_layout (zeroize_new (demo_crypto_slab 1), m') =
      Done (w2, m2) \<and> m2 8207 = 0"
    by (rule f) (simp add: span_def zeroize_new_def demo_crypto_slab_def)
  then show ?thesis using b l by blast
qed

end
