(* ===== verification/Cache_Jitter.thy ===== *)
theory Cache_Jitter
  imports Slot_Region Hosted_Blocks Backings
begin

text \<open>
  \<open>forge-alloc/src/hardening/cache_jitter.rs\<close>: \<open>CacheJitter\<close> places every block a random number of cache
  lines into a larger inner block, and stores that number, with a keyed check value, in the eight bytes
  before it. Requests with an alignment above the line size are forwarded as they are. A header that
  fails the check is the release build's panic.
\<close>

unbundle bit_operations_syntax

section \<open>State and construction\<close>

record 'i cache_jitter =
  cj_inner :: 'i
  cj_cache_line_size :: usize
  cj_associativity :: usize
  cj_line_shift :: u32
  cj_mac_key :: u64
  cj_rng :: u64

definition HEADER_DISP_MASK :: u64 where
  "HEADER_DISP_MASK = push_bit 16 1 - 1"

definition MAX_ASSOCIATIVITY :: usize where
  "MAX_ASSOCIATIVITY = push_bit 16 1 - 1"

definition jitter_mac_key :: "u64 \<Rightarrow> u64" where
  "jitter_mac_key seed =
     (let x = seed + 0x9E3779B97F4A7C15;
          x = (x XOR drop_bit 30 x) * 0xBF58476D1CE4E5B9;
          x = (x XOR drop_bit 27 x) * 0x94D049BB133111EB
      in x XOR drop_bit 31 x)"

definition jitter_with_params :: "'i \<Rightarrow> usize \<Rightarrow> usize \<Rightarrow> u64 \<Rightarrow> 'i cache_jitter option" where
  "jitter_with_params inner line assoc seed =
     (if \<not> is_pow2 line \<or> line < 8 then None
      else if assoc = 0 \<or> assoc > MAX_ASSOCIATIVITY then None
      else case checked_mul line assoc of None \<Rightarrow> None
      | Some v \<Rightarrow>
          let seed = (if seed = 0 then 0x9E3779B97F4A7C15 else seed)
          in Some \<lparr>cj_inner = inner, cj_cache_line_size = line, cj_associativity = assoc,
                   cj_line_shift = word_of_nat (trailing_zeros line), cj_mac_key = jitter_mac_key seed,
                   cj_rng = seed\<rparr>)"

text \<open>\<open>entropy\<close> is what \<open>RandomState\<close> hashes the number 0 to.\<close>

definition jitter_new :: "'i \<Rightarrow> usize \<Rightarrow> usize \<Rightarrow> u64 \<Rightarrow> 'i cache_jitter option" where
  "jitter_new inner line assoc entropy = jitter_with_params inner line assoc entropy"

definition max_displacement :: "'i cache_jitter \<Rightarrow> usize" where
  "max_displacement c = (cj_associativity c - 1) * cj_cache_line_size c"

definition jitter_prefix :: "'i cache_jitter \<Rightarrow> usize" where
  "jitter_prefix c = cj_cache_line_size c + max_displacement c"

section \<open>The generator and the header\<close>

definition xorshift :: "u64 \<Rightarrow> u64" where
  "xorshift x =
     (let x = x XOR push_bit 13 x;
          x = x XOR drop_bit 7 x
      in x XOR push_bit 17 x)"

definition next_rng :: "'i cache_jitter \<Rightarrow> u64 \<times> 'i cache_jitter" where
  "next_rng c = (let x = xorshift (cj_rng c) in (x, c\<lparr>cj_rng := x\<rparr>))"

definition next_displacement :: "'i cache_jitter \<Rightarrow> usize \<times> 'i cache_jitter" where
  "next_displacement c =
     (case next_rng c of (x, c') \<Rightarrow>
        let assoc = ucast (cj_associativity c) :: 128 word;
            r = ucast (drop_bit 64 (ucast x * assoc)) :: usize
        in (r * cj_cache_line_size c, c'))"

definition header_mix :: "'i cache_jitter \<Rightarrow> addr \<Rightarrow> u64 \<Rightarrow> u64" where
  "header_mix c user_ptr_addr disp_lines =
     (let x = cj_mac_key c XOR user_ptr_addr;
          x = x * 0x9E3779B97F4A7C15;
          x = x XOR word_rotl 31 x;
          x = x XOR disp_lines;
          x = x * 0xBF58476D1CE4E5B9;
          x = x XOR drop_bit 27 x;
          x = x * 0x94D049BB133111EB
      in x XOR drop_bit 31 x)"

definition pack_header :: "'i cache_jitter \<Rightarrow> addr \<Rightarrow> usize \<Rightarrow> u64" where
  "pack_header c user_ptr_addr disp_bytes =
     (let disp_lines = drop_bit (unat (cj_line_shift c)) disp_bytes;
          mac48 = drop_bit 16 (header_mix c user_ptr_addr disp_lines)
      in push_bit 16 mac48 OR (disp_lines AND HEADER_DISP_MASK))"

definition unpack_header :: "'i cache_jitter \<Rightarrow> addr \<Rightarrow> u64 \<Rightarrow> usize option" where
  "unpack_header c user_ptr_addr header =
     (let disp_lines = header AND HEADER_DISP_MASK;
          expected_mac48 = drop_bit 16 (header_mix c user_ptr_addr disp_lines);
          stored_mac48 = drop_bit 16 header
      in if stored_mac48 \<noteq> expected_mac48 then None
         else let disp_bytes = push_bit (unat (cj_line_shift c)) disp_lines
              in if disp_bytes > max_displacement c then None else Some disp_bytes)"

definition jitter_drop :: "'i cache_jitter \<Rightarrow> 'i cache_jitter" where
  "jitter_drop c = c\<lparr>cj_mac_key := 0, cj_rng := 0\<rparr>"

section \<open>The wrapper\<close>

definition inner_layout_for :: "layout \<Rightarrow> usize \<Rightarrow> usize \<Rightarrow> layout res option" where
  "inner_layout_for lay line prefix =
     (if lay_align lay > line then None
      else Some (case checked_add (lay_size lay) prefix of None \<Rightarrow> Inl AllocError
        | Some tot \<Rightarrow> (case from_size_align tot line of Inl e \<Rightarrow> Inl AllocError | Inr il \<Rightarrow> Inr il)))"

definition jitter_put :: "'i \<Rightarrow> 'i cache_jitter \<Rightarrow> 'i cache_jitter" where
  "jitter_put i c = c\<lparr>cj_inner := i\<rparr>"

definition jitter_deallocate :: "'i allocator \<Rightarrow> 'i cache_jitter dealloc_fun" where
  "jitter_deallocate I p lay st =
     (case st of (c, m) \<Rightarrow>
        let free = (\<lambda>q il. outcome_bind (al_deallocate I q il (cj_inner c, m)) (\<lambda>(i, m'). Done (jitter_put i c, m')))
        in case inner_layout_for lay (cj_cache_line_size c) (jitter_prefix c) of
             None \<Rightarrow> free p lay
           | Some (Inl e) \<Rightarrow> Panicked
           | Some (Inr inner_layout) \<Rightarrow>
               (case unpack_header c p (read_u64 m (p - 8)) of
                  None \<Rightarrow> Panicked
                | Some displacement \<Rightarrow> free (p - (cj_cache_line_size c + displacement)) inner_layout))"

definition jitter_allocate :: "'i allocator \<Rightarrow> 'i cache_jitter alloc_fun" where
  "jitter_allocate I lay st =
     (case st of (c, m) \<Rightarrow>
        case inner_layout_for lay (cj_cache_line_size c) (jitter_prefix c) of
          None \<Rightarrow> (case al_allocate I lay (cj_inner c, m) of (r, i, m') \<Rightarrow> (r, jitter_put i c, m'))
        | Some (Inl e) \<Rightarrow> (Inl e, c, m)
        | Some (Inr inner_layout) \<Rightarrow>
            (case al_allocate I inner_layout (cj_inner c, m) of
               (Inl e, i, m') \<Rightarrow> (Inl e, jitter_put i c, m')
             | (Inr (inner_ptr, n), i, m') \<Rightarrow>
                 (case next_displacement (jitter_put i c) of (displacement, c') \<Rightarrow>
                    let user_ptr = inner_ptr + (cj_cache_line_size c + displacement);
                        header = pack_header c user_ptr displacement
                    in (Inr (user_ptr, lay_size lay), c', write_u64 m' (user_ptr - 8) header))))"

definition jitter_allocator :: "'i allocator \<Rightarrow> 'i cache_jitter allocator" where
  "jitter_allocator I =
     \<lparr>al_allocate = jitter_allocate I,
      al_allocate_zeroed = default_allocate_zeroed (jitter_allocate I),
      al_deallocate = jitter_deallocate I,
      al_grow = default_grow (jitter_allocate I) (jitter_deallocate I),
      al_shrink = default_shrink (jitter_allocate I) (jitter_deallocate I),
      al_reset = default_reset,
      al_usable_size = default_usable_size,
      al_capacity_bytes = (\<lambda>c. al_capacity_bytes I (cj_inner c)),
      al_corruption_events = (\<lambda>c. al_corruption_events I (cj_inner c))\<rparr>"

definition jitter_range :: "'i fixed_range \<Rightarrow> 'i cache_jitter fixed_range" where
  "jitter_range R =
     \<lparr>fr_base = (\<lambda>c. fr_base R (cj_inner c)),
      fr_size = (\<lambda>c. fr_size R (cj_inner c)),
      fr_commit = (\<lambda>c off len. case fr_commit R (cj_inner c) off len of (r, i) \<Rightarrow> (r, jitter_put i c))\<rparr>"

section \<open>Displacements\<close>

text \<open>What the constructor accepts; \<open>jitter_ok\<close> lasts, since only the inner allocator and the generator change.\<close>

definition jitter_ok :: "'i cache_jitter \<Rightarrow> bool" where
  "jitter_ok c \<longleftrightarrow> is_pow2 (cj_cache_line_size c) \<and> 8 \<le> unat (cj_cache_line_size c) \<and>
     0 < unat (cj_associativity c) \<and> unat (cj_associativity c) < 2 ^ 16 \<and>
     unat (cj_cache_line_size c) * unat (cj_associativity c) < 2 ^ 64 \<and>
     unat (cj_line_shift c) < 64 \<and> cj_cache_line_size c = 2 ^ unat (cj_line_shift c) \<and> cj_rng c \<noteq> 0"

lemma xor_zero: "x XOR y = 0 \<Longrightarrow> (x :: 'w::len word) = y"
proof (rule bit_word_eqI)
  fix i assume "x XOR y = 0"
  then have "bit (x XOR y) i = bit (0 :: 'w word) i" by simp
  then show "bit x i = bit y i" by (auto simp: bit_simps dest: bit_imp_le_length)
qed

lemma shift_zero:
  "x XOR push_bit k x = 0 \<Longrightarrow> 0 < k \<Longrightarrow> (x :: 'w::len word) = 0"
  "x XOR drop_bit k x = 0 \<Longrightarrow> 0 < k \<Longrightarrow> (x :: 'w::len word) = 0"
proof -
  assume x: "x XOR push_bit k x = 0" and k: "0 < k"
  have e: "bit x i \<longleftrightarrow> bit (push_bit k x) i" for i using xor_zero [OF x] by metis
  have "\<not> bit x i" for i
  proof (induction i rule: less_induct)
    case (less i)
    show ?case using e [of i] less.IH [of "i - k"] k by (auto simp: bit_simps)
  qed
  then show "x = 0" by (auto intro: bit_word_eqI)
next
  assume x: "x XOR drop_bit k x = 0" and k: "0 < k"
  have e: "bit x i \<longleftrightarrow> bit (drop_bit k x) i" for i using xor_zero [OF x] by metis
  have "\<not> bit x i" for i
  proof (induction "LENGTH('w) - i" arbitrary: i rule: less_induct)
    case less
    have "LENGTH('w) - (k + i) < LENGTH('w) - i" if "bit x (k + i)"
      using bit_imp_le_length [OF that] k by arith
    then show ?case using e [of i] less.hyps [of "k + i"] by (auto simp: bit_simps)
  qed
  then show "x = 0" by (auto intro: bit_word_eqI)
qed

lemma unat_eqD: "unat (x :: 'w::len word) = r \<Longrightarrow> x = word_of_nat r"
  by auto

lemma xorshift_nonzero: "x \<noteq> 0 \<Longrightarrow> xorshift x \<noteq> 0"
  using shift_zero(1) [where k = 13 and x = x] shift_zero(2) [where k = 7 and x = "x XOR push_bit 13 x"]
    shift_zero(1) [where k = 17 and x = "(x XOR push_bit 13 x) XOR drop_bit 7 (x XOR push_bit 13 x)"]
  by (auto simp: xorshift_def Let_def)

text \<open>A displacement is a whole number of lines below the associativity.\<close>

lemma next_displacement_post:
  assumes "jitter_ok c" "next_displacement c = (d, c')"
  shows "\<exists>r < unat (cj_associativity c). d = word_of_nat r * cj_cache_line_size c"
    "c' = c\<lparr>cj_rng := xorshift (cj_rng c)\<rparr>"
proof -
  let ?x = "xorshift (cj_rng c)" and ?a = "cj_associativity c"
  let ?p = "ucast ?x * ucast ?a :: 128 word"
  define r where "r = unat ?x * unat ?a div 2 ^ 64"
  have a: "unat ?a < 2 ^ 16" "0 < unat ?a" using assms(1) by (auto simp: jitter_ok_def)
  have lt: "unat ?x * unat ?a < 2 ^ 64 * unat ?a" using unat_64_less [of ?x] a(2) by simp
  then have r: "r < unat ?a" by (simp add: r_def less_mult_imp_div_less mult.commute)
  have u: "unat (ucast v :: 128 word) = unat v" for v :: "64 word" by (simp add: unsigned_ucast_eq take_bit_nat_eq_self unat_64_less [THEN order.strict_trans])
  have "unat ?x * unat ?a < 2 ^ LENGTH(128)" by (rule order.strict_trans [OF lt]) (use a(1) in simp)
  then have "unat ?p = unat ?x * unat ?a" by (simp add: unat_word_ariths u)
  then have "unat (drop_bit 64 ?p) = r" by (simp add: r_def unat_drop_bit_eq drop_bit_eq_div [where 'a = nat])
  then have "unat (ucast (drop_bit 64 ?p) :: usize) = r"
    using r a(1) by (simp add: unsigned_ucast_eq take_bit_nat_eq_self)
  then have "ucast (drop_bit 64 ?p) = (word_of_nat r :: usize)" by (rule unat_eqD)
  then have d: "d = word_of_nat r * cj_cache_line_size c" "c' = c\<lparr>cj_rng := ?x\<rparr>"
    using assms(2) by (simp_all add: next_displacement_def next_rng_def Let_def)
  then show "\<exists>r < unat (cj_associativity c). d = word_of_nat r * cj_cache_line_size c" using r by blast
  show "c' = c\<lparr>cj_rng := ?x\<rparr>" by (rule d(2))
qed

lemma jitter_sizes:
  assumes "jitter_ok c"
  shows "unat (max_displacement c) = (unat (cj_associativity c) - 1) * unat (cj_cache_line_size c)"
    "unat (jitter_prefix c) = unat (cj_associativity c) * unat (cj_cache_line_size c)"
    "r < unat (cj_associativity c) \<Longrightarrow> unat (word_of_nat r * cj_cache_line_size c) = r * unat (cj_cache_line_size c)"
proof -
  let ?a = "unat (cj_associativity c)" and ?l = "unat (cj_cache_line_size c)"
  have a: "0 < ?a" "?l * ?a < 2 ^ 64" using assms by (auto simp: jitter_ok_def)
  have m: "unat (cj_associativity c - 1) = ?a - 1" using a(1) by (intro unat_minus_one) auto
  have step: "?l + (?a - 1) * ?l = ?a * ?l" using a(1) by (cases ?a) simp_all
  have "(?a - 1) * ?l < 2 ^ LENGTH(64)" using a(2) step by (simp add: mult.commute)
  then show md: "unat (max_displacement c) = (?a - 1) * ?l"
    unfolding max_displacement_def by (subst unat_word_ariths) (simp add: m)
  show "unat (jitter_prefix c) = ?a * ?l"
    unfolding jitter_prefix_def using a(2) step by (subst unat_word_ariths) (simp add: md mult.commute)
  show "unat (word_of_nat r * cj_cache_line_size c) = r * ?l" if r: "r < ?a"
  proof -
    have "r * ?l \<le> ?a * ?l" using r by (intro mult_le_mono1) simp
    also have "\<dots> < 2 ^ 64" using a(2) by (simp add: mult.commute)
    finally have "r * ?l < 2 ^ 64" .
    moreover have "unat (word_of_nat r :: usize) = r" using r unat_64_less [of "cj_associativity c"] by (simp add: unat_word_of_nat)
    ultimately show ?thesis by (subst unat_word_ariths) simp
  qed
qed

section \<open>The header\<close>

lemma HEADER_DISP_MASK_eq: "HEADER_DISP_MASK = mask 16"
  by (simp add: HEADER_DISP_MASK_def mask_eq_exp_minus_1)

lemma header_fields:
  "drop_bit 16 (push_bit 16 (drop_bit 16 (x :: u64)) OR (y AND HEADER_DISP_MASK)) = drop_bit 16 x"
  "(push_bit 16 (x :: u64) OR (y AND HEADER_DISP_MASK)) AND HEADER_DISP_MASK = y AND HEADER_DISP_MASK"
  "push_bit 16 (drop_bit 16 (x :: u64)) OR (x AND HEADER_DISP_MASK) = x"
  unfolding HEADER_DISP_MASK_eq by (rule bit_word_eqI; auto simp: bit_simps dest: bit_imp_le_length)+

lemma jitter_pow:
  assumes "jitter_ok c"
  shows "cj_cache_line_size c = 2 ^ unat (cj_line_shift c)"
    "unat (2 ^ unat (cj_line_shift c) :: usize) = 2 ^ unat (cj_line_shift c)"
proof -
  have o: "cj_cache_line_size c = 2 ^ unat (cj_line_shift c)" "unat (cj_line_shift c) < 64"
    using assms by (auto simp: jitter_ok_def)
  show "cj_cache_line_size c = 2 ^ unat (cj_line_shift c)" by (rule o(1))
  show "unat (2 ^ unat (cj_line_shift c) :: usize) = 2 ^ unat (cj_line_shift c)"
    using unat_word_of_nat [where 'w = 64, of "2 ^ unat (cj_line_shift c)"] power_strict_increasing [OF o(2), of "2 :: nat"]
    by simp
qed

lemma jitter_line: "jitter_ok c \<Longrightarrow> unat (cj_cache_line_size c) = 2 ^ unat (cj_line_shift c)"
  using jitter_pow by metis

lemma lines_of:
  assumes "jitter_ok c" "r < unat (cj_associativity c)"
  shows "drop_bit (unat (cj_line_shift c)) (word_of_nat r * cj_cache_line_size c) = (word_of_nat r :: usize)"
    "push_bit (unat (cj_line_shift c)) (word_of_nat r :: usize) = word_of_nat r * cj_cache_line_size c"
    "word_of_nat r AND HEADER_DISP_MASK = (word_of_nat r :: usize)"
proof -
  have o: "cj_cache_line_size c = 2 ^ unat (cj_line_shift c)" "unat (cj_line_shift c) < 64"
    "unat (cj_associativity c) < 2 ^ 16" using assms(1) by (auto simp: jitter_ok_def)
  note l = jitter_line [OF assms(1)]
  have r: "unat (word_of_nat r :: usize) = r"
    using assms(2) unat_64_less [of "cj_associativity c"] by (simp add: unat_word_of_nat)
  show "push_bit (unat (cj_line_shift c)) (word_of_nat r :: usize) = word_of_nat r * cj_cache_line_size c"
    by (simp add: push_bit_eq_mult o(1))
  have "unat (drop_bit (unat (cj_line_shift c)) (word_of_nat r * cj_cache_line_size c)) = r"
    using jitter_sizes(3) [OF assms] l by (simp add: unat_drop_bit_eq drop_bit_eq_div [where 'a = nat])
  then show "drop_bit (unat (cj_line_shift c)) (word_of_nat r * cj_cache_line_size c) = (word_of_nat r :: usize)"
    by (rule unat_eqD)
  have "take_bit 16 (word_of_nat r :: usize) = word_of_nat r"
    using assms(2) o(3) r by (intro unat_eqD) (simp add: unsigned_take_bit_eq take_bit_nat_eq_self)
  then show "word_of_nat r AND HEADER_DISP_MASK = (word_of_nat r :: usize)"
    by (simp add: HEADER_DISP_MASK_eq take_bit_eq_mask)
qed

lemma pack_header_fields:
  assumes "jitter_ok c" "r < unat (cj_associativity c)"
  shows "pack_header c p (word_of_nat r * cj_cache_line_size c) AND HEADER_DISP_MASK = word_of_nat r"
    "drop_bit 16 (pack_header c p (word_of_nat r * cj_cache_line_size c)) = drop_bit 16 (header_mix c p (word_of_nat r))"
  unfolding pack_header_def Let_def lines_of(1) [OF assms] header_fields by (simp_all only: lines_of(3) [OF assms])

lemma unpack_pack_header:
  assumes "jitter_ok c" "r < unat (cj_associativity c)"
  shows "unpack_header c p (pack_header c p (word_of_nat r * cj_cache_line_size c)) =
    Some (word_of_nat r * cj_cache_line_size c)"
proof -
  have "\<not> word_of_nat r * cj_cache_line_size c > max_displacement c"
    using assms(2) by (auto simp: word_less_nat_alt jitter_sizes [OF assms(1)] jitter_sizes(3) [OF assms])
  then show ?thesis
    by (simp add: unpack_header_def Let_def lines_of(2) [OF assms] pack_header_fields [OF assms])
qed

text \<open>
  Whatever is accepted is a whole number of lines in range; for lines of up to \<open>2 ^ 48\<close> bytes, where
  the shift of a 16-bit field cannot lose bits, it is one of the headers that \<open>pack_header\<close> makes.
\<close>

lemma unpack_header_bounds:
  assumes "jitter_ok c" "unpack_header c p h = Some d"
  shows "unat (cj_cache_line_size c) dvd unat d" "d \<le> max_displacement c"
proof -
  have o: "cj_cache_line_size c = 2 ^ unat (cj_line_shift c)" "unat (cj_line_shift c) < 64" "is_pow2 (cj_cache_line_size c)"
    using assms(1) by (auto simp: jitter_ok_def)
  have d: "d = push_bit (unat (cj_line_shift c)) (h AND HEADER_DISP_MASK)" "d \<le> max_displacement c"
    using assms(2) by (auto simp: unpack_header_def Let_def split: if_splits)
  show "d \<le> max_displacement c" by (rule d(2))
  show "unat (cj_cache_line_size c) dvd unat d"
  proof -
    have l: "unat (cj_cache_line_size c) = 2 ^ unat (cj_line_shift c)" by (rule jitter_line [OF assms(1)])
    have "(2 :: nat) ^ unat (cj_line_shift c) dvd 2 ^ LENGTH(64)" using o(2) by (intro le_imp_power_dvd) simp
    then show ?thesis unfolding d(1) l
      by (simp add: push_bit_eq_mult unat_word_ariths l [unfolded o(1)] dvd_mod)
  qed
qed

lemma unpack_header_exact:
  assumes ok: "jitter_ok c" and line: "unat (cj_line_shift c) \<le> 48" and h: "unpack_header c p h = Some d"
  shows "\<exists>r < unat (cj_associativity c). d = word_of_nat r * cj_cache_line_size c \<and>
    h = pack_header c p (word_of_nat r * cj_cache_line_size c)"
proof -
  define w where "w = h AND HEADER_DISP_MASK"
  define r where "r = unat w"
  have wr: "w = word_of_nat r" by (simp add: r_def)
  have "w = take_bit 16 h" by (simp add: w_def HEADER_DISP_MASK_eq take_bit_eq_mask)
  then have r16: "r < 2 ^ 16" by (simp add: r_def unsigned_take_bit_eq take_bit_nat_less_exp [of 16, simplified])
  have acc: "drop_bit 16 h = drop_bit 16 (header_mix c p w)" "d = push_bit (unat (cj_line_shift c)) w"
    "d \<le> max_displacement c"
    using h by (auto simp: unpack_header_def Let_def w_def split: if_splits)
  note l = jitter_line [OF ok]
  have "r * 2 ^ unat (cj_line_shift c) < 2 ^ 16 * 2 ^ 48"
    using r16 power_increasing [OF line, of "2 :: nat"] by (intro mult_less_le_imp_less) auto
  then have "unat d = r * 2 ^ unat (cj_line_shift c)"
    using jitter_line [OF ok] jitter_pow [OF ok] by (simp add: acc(2) push_bit_eq_mult unat_word_ariths r_def)
  then have "r * 2 ^ unat (cj_line_shift c) \<le> (unat (cj_associativity c) - 1) * 2 ^ unat (cj_line_shift c)"
    using acc(3) by (simp add: word_le_nat_alt jitter_sizes(1) [OF ok] l)
  then have r: "r < unat (cj_associativity c)"
    using ok by (simp add: jitter_ok_def) linarith
  have "h = push_bit 16 (drop_bit 16 (header_mix c p (word_of_nat r))) OR (word_of_nat r AND HEADER_DISP_MASK)"
    using header_fields(3) [of h] acc(1) lines_of(3) [OF ok r] by (simp add: wr flip: w_def)
  then have "h = pack_header c p (word_of_nat r * cj_cache_line_size c)"
    by (simp add: pack_header_def Let_def lines_of(1) [OF ok r])
  moreover have "d = word_of_nat r * cj_cache_line_size c" using acc(2) lines_of(2) [OF ok r] by (simp add: wr)
  ultimately show ?thesis using r by blast
qed

text \<open>Of the \<open>2 ^ 64\<close> header words, as many are accepted before a block as there are displacements.\<close>

lemma card_accepted:
  assumes ok: "jitter_ok c" and line: "unat (cj_line_shift c) \<le> 48"
  shows "card {h. unpack_header c p h \<noteq> None} = unat (cj_associativity c)"
proof -
  let ?f = "\<lambda>r. pack_header c p (word_of_nat r * cj_cache_line_size c)" and ?S = "{..<unat (cj_associativity c)}"
  have "{h. unpack_header c p h \<noteq> None} = ?f ` ?S"
    using unpack_header_exact [OF ok line] unpack_pack_header [OF ok] by fastforce
  moreover have "inj_on ?f ?S"
  proof (rule inj_onI)
    fix r s assume a: "r \<in> ?S" "s \<in> ?S" "?f r = ?f s"
    then have "(word_of_nat r :: usize) = word_of_nat s" using pack_header_fields(1) [OF ok] by (metis lessThan_iff)
    then have "unat (word_of_nat r :: usize) = unat (word_of_nat s :: usize)" by simp
    then show "r = s" using a(1,2) unat_64_less [of "cj_associativity c"] by (simp add: unat_word_of_nat)
  qed
  ultimately show ?thesis by (simp add: card_image)
qed

section \<open>Geometry of a displaced block\<close>

text \<open>
  The host of a block that is not forwarded holds, before it, the header that leads back to the
  host's first byte.
\<close>

fun jitter_hosted :: "'i cache_jitter \<Rightarrow> mem \<Rightarrow> block3 \<Rightarrow> block3 \<Rightarrow> bool" where
  "jitter_hosted c m (p, lay, n) (q, il, k) \<longleftrightarrow> valid_layout lay \<and>
     (case inner_layout_for lay (cj_cache_line_size c) (jitter_prefix c) of
        None \<Rightarrow> q = p \<and> il = lay \<and> n = k
      | Some r \<Rightarrow> r = Inr il \<and> n = lay_size lay \<and>
          (\<exists>d. unpack_header c p (read_u64 m (p - 8)) = Some d \<and> p = q + (cj_cache_line_size c + d)))"

definition jitter_inv :: "('i \<Rightarrow> mem \<Rightarrow> live \<Rightarrow> bool) \<Rightarrow> 'i cache_jitter \<Rightarrow> mem \<Rightarrow> live \<Rightarrow> bool" where
  "jitter_inv iinv c m L \<longleftrightarrow> jitter_ok c \<and> hosted_inv (jitter_hosted c) iinv (cj_inner c) m L"

lemma jitter_put_simps [simp]:
  "cj_inner (jitter_put i c) = i" "cj_cache_line_size (jitter_put i c) = cj_cache_line_size c"
  "cj_associativity (jitter_put i c) = cj_associativity c" "cj_line_shift (jitter_put i c) = cj_line_shift c"
  "cj_mac_key (jitter_put i c) = cj_mac_key c" "cj_rng (jitter_put i c) = cj_rng c"
  by (simp_all add: jitter_put_def)

lemma jitter_fixed:
  assumes "cj_cache_line_size c' = cj_cache_line_size c" "cj_associativity c' = cj_associativity c"
    "cj_line_shift c' = cj_line_shift c" "cj_mac_key c' = cj_mac_key c"
  shows "jitter_prefix c' = jitter_prefix c" "unpack_header c' = unpack_header c" "pack_header c' = pack_header c"
    "jitter_hosted c' = jitter_hosted c"
proof -
  have d: "max_displacement c' = max_displacement c" "header_mix c' = header_mix c"
    by (auto simp: max_displacement_def header_mix_def assms intro!: ext)
  show p: "jitter_prefix c' = jitter_prefix c" using assms d by (simp add: jitter_prefix_def)
  show u: "unpack_header c' = unpack_header c" by (intro ext) (simp add: unpack_header_def d assms Let_def)
  show "pack_header c' = pack_header c" by (intro ext) (simp add: pack_header_def d assms Let_def)
  have "jitter_hosted c' m b h \<longleftrightarrow> jitter_hosted c m b h" for m b h
    by (cases b, cases h) (simp add: u p assms(1) split: option.splits)
  then show "jitter_hosted c' = jitter_hosted c" by (intro ext)
qed

lemmas jitter_put_fixed [simp] = jitter_fixed [of "jitter_put i c" c for i c, simplified]

lemmas jitter_rng_fixed [simp] = jitter_fixed [of "c\<lparr>cj_rng := x\<rparr>" c for x c, simplified]

lemma jitter_ok_cong:
  assumes "jitter_ok c" "cj_cache_line_size c' = cj_cache_line_size c" "cj_associativity c' = cj_associativity c"
    "cj_line_shift c' = cj_line_shift c" "cj_rng c' \<noteq> 0"
  shows "jitter_ok c'"
  using assms(1,5) unfolding jitter_ok_def assms(2-4) by blast

lemma jitter_ok_rng: "jitter_ok c \<Longrightarrow> cj_rng c \<noteq> 0"
  unfolding jitter_ok_def by blast

lemma jitter_ok_keep:
  "jitter_ok c \<Longrightarrow> jitter_ok (jitter_put i c)"
  "jitter_ok c \<Longrightarrow> jitter_ok (c\<lparr>cj_rng := xorshift (cj_rng c)\<rparr>)"
  by (rule jitter_ok_cong [of c]; simp add: xorshift_nonzero jitter_ok_rng)+

lemma inner_layout_forD:
  assumes "inner_layout_for lay line prefix = Some (Inr il)"
  shows "valid_layout il" "lay_align il = line" "lay_align lay \<le> line"
    "unat (lay_size il) = unat (lay_size lay) + unat prefix"
  using assms by (auto simp: inner_layout_for_def from_size_align_Inr dest: checked_add_unat
    split: if_splits option.splits sum.splits)

lemma jitter_geometry:
  assumes ok: "jitter_ok c" and il: "inner_layout_for lay (cj_cache_line_size c) (jitter_prefix c) = Some (Inr il)"
    and lay: "valid_layout lay" and q: "block_ok il q k"
    and d: "unat (cj_cache_line_size c) dvd unat d" "d \<le> max_displacement c"
    and p: "p = q + (cj_cache_line_size c + d)"
  shows "block_ok lay p (lay_size lay)" "span p (lay_size lay) \<subseteq> span q k" "span (p - 8) 8 \<subseteq> span q k"
    "span (p - 8) 8 \<inter> span p (lay_size lay) = {}"
proof -
  let ?l = "unat (cj_cache_line_size c)"
  note i = inner_layout_forD [OF il] and b = block_okD [OF q] and z = jitter_sizes [OF ok]
  have l: "8 \<le> ?l" "is_pow2 (cj_cache_line_size c)" "0 < unat (cj_associativity c)" using ok by (auto simp: jitter_ok_def)
  have "unat d \<le> (unat (cj_associativity c) - 1) * ?l" using d(2) by (simp add: word_le_nat_alt z(1))
  then have pre: "?l + unat d \<le> unat (jitter_prefix c)"
    using l(3) unfolding z(2) by (cases "unat (cj_associativity c)") auto
  have top: "unat q + (unat (lay_size lay) + unat (jitter_prefix c)) \<le> unat q + unat k" "unat q + unat k \<le> 2 ^ 64"
    using b(3,4) i(4) by (auto simp: no_wrap_def)
  have ld: "unat (cj_cache_line_size c + d) = ?l + unat d"
    using pre unat_64_less [of "jitter_prefix c"] by (simp add: unat_plus_if')
  have s: "0 < unat (lay_size lay)" using valid_layoutD [OF lay] by (simp add: word_neq_0_conv word_less_nat_alt)
  have up: "unat p = unat q + ?l + unat d" using pre top s by (simp add: p unat_plus_if' ld)
  have um: "unat (p - 8) = unat p - 8" using up l(1) by (simp add: unat_sub_if' word_le_nat_alt)
  have nw: "no_wrap p (lay_size lay)" "no_wrap (p - 8) 8"
    using up um pre top l(1) by (auto simp: no_wrap_def)
  have "unat (lay_align lay) dvd ?l"
    using is_pow2_dvd [OF valid_layoutD(3) [OF lay] l(2) i(3)] .
  then have "unat (lay_align lay) dvd unat p"
    using b(5) d(1) unfolding up i(2) by (meson dvd_add dvd_trans)
  moreover have "p \<noteq> 0" using up l(1) by auto
  ultimately show "block_ok lay p (lay_size lay)" using lay nw(1) by (simp add: block_ok_def)
  show "span p (lay_size lay) \<subseteq> span q k" "span (p - 8) 8 \<subseteq> span q k"
    by (rule span_subset [OF _ b(3)]; use nw up um pre top l(1) in simp)+
  show "span (p - 8) 8 \<inter> span p (lay_size lay) = {}"
    by (rule span_disjointI) (use nw up um l(1) in simp_all)
qed

context allocator_contract
begin

lemma jitter_hosts: "jitter_ok c \<Longrightarrow> hosted_blocks A ainv (jitter_hosted c)"
proof
  fix m m' p lay n q il k
  assume ok: "jitter_ok c" and h: "jitter_hosted c m (p, lay, n) (q, il, k)" and q: "block_ok il q k"
  have both: "block_ok lay p n \<and> span p n \<subseteq> span q k \<and>
    (same_on (span q k - span p n) m m' \<longrightarrow> jitter_hosted c m' (p, lay, n) (q, il, k))"
  proof (cases "inner_layout_for lay (cj_cache_line_size c) (jitter_prefix c)")
    case (Some r)
    then obtain d where c: "r = Inr il" "n = lay_size lay" "valid_layout lay"
      "unpack_header c p (read_u64 m (p - 8)) = Some d" "p = q + (cj_cache_line_size c + d)"
      using h by auto
    note g = jitter_geometry [OF ok Some [unfolded c(1)] c(3) q unpack_header_bounds [OF ok c(4)] c(5)]
    have "read_u64 m' (p - 8) = read_u64 m (p - 8)" if same: "same_on (span q k - span p n) m m'"
      by (rule read_u64_cong, rule same_on_mono [OF same]) (use g(3,4) c(2) in blast)
    then have "\<exists>d. unpack_header c p (read_u64 m' (p - 8)) = Some d \<and> p = q + (cj_cache_line_size c + d)"
      if "same_on (span q k - span p n) m m'"
      using that c(4,5) by metis
    then have "jitter_hosted c m' (p, lay, n) (q, il, k)" if "same_on (span q k - span p n) m m'"
      using that Some c(1-3) by simp
    then show ?thesis using g(1,2) c(2) by blast
  qed (use h q in simp)
  show "block_ok lay p n \<and> span p n \<subseteq> span q k" using both by blast
  show "jitter_hosted c m' (p, lay, n) (q, il, k)" if "same_on (span q k - span p n) m m'"
    using both that by blast
qed

lemma jitter_put_rng:
  "jitter_inv ainv c m L \<Longrightarrow> hosted_inv (jitter_hosted c) ainv i m' L' \<Longrightarrow> jitter_inv ainv (jitter_put i c) m' L'"
  "jitter_inv ainv c m L \<Longrightarrow> hosted_inv (jitter_hosted c) ainv i m' L' \<Longrightarrow>
     jitter_inv ainv ((jitter_put i c)\<lparr>cj_rng := xorshift (cj_rng c)\<rparr>) m' L'"
  using jitter_ok_keep(1) [of c i] jitter_ok_keep(2) [of "jitter_put i c"] by (simp_all add: jitter_inv_def)

lemma jitter_allocate_placed:
  assumes inv: "jitter_inv ainv c m L" and lay: "valid_layout lay"
    and il: "inner_layout_for lay (cj_cache_line_size c) (jitter_prefix c) = Some (Inr il)"
  shows "alloc_post (jitter_inv ainv) L lay m (jitter_allocate A lay (c, m))"
proof -
  have ok: "jitter_ok c" and I: "hosted_inv (jitter_hosted c) ainv (cj_inner c) m L"
    using inv by (auto simp: jitter_inv_def)
  note H = jitter_hosts [OF ok] and keep = jitter_put_rng [OF inv] and v = inner_layout_forD(1) [OF il]
  obtain r i m1 where al: "al_allocate A il (cj_inner c, m) = (r, i, m1)"
    by (cases "al_allocate A il (cj_inner c, m)") auto
  show ?thesis
  proof (cases r)
    case (Inl e)
    then show ?thesis
      using hosted_blocks.hosted_refused [OF H I v al [unfolded Inl]] al il keep(1)
      by (simp add: jitter_allocate_def alloc_post_def)
  next
    case (Inr x)
    obtain q k where x: "x = (q, k)" by (cases x)
    obtain d c' where d: "next_displacement (jitter_put i c) = (d, c')" by (cases "next_displacement (jitter_put i c)")
    obtain s where s: "s < unat (cj_associativity c)" "d = word_of_nat s * cj_cache_line_size c"
      and c': "c' = (jitter_put i c)\<lparr>cj_rng := xorshift (cj_rng c)\<rparr>"
      using next_displacement_post [OF jitter_ok_keep(1) [OF ok] d] unfolding jitter_put_simps by blast
    define p where "p = q + (cj_cache_line_size c + d)"
    let ?h = "pack_header c p d"
    let ?m2 = "write_u64 m1 (p - 8) ?h"
    have un: "unpack_header c p ?h = Some d" unfolding s(2) by (rule unpack_pack_header [OF ok s(1)])
    have ok_q: "block_ok il q k"
      using inv al Inr x v by (auto simp: jitter_inv_def hosted_inv_def alloc_post_def dest: allocate)
    note g = jitter_geometry [OF ok il lay ok_q unpack_header_bounds [OF ok un] p_def]
    have off: "same_on (- span q k) m1 ?m2" using g(3) by (auto simp: same_on_def intro!: write_u64_other)
    have new: "jitter_hosted c ?m2 (p, lay, lay_size lay) (q, il, k)" using lay il un p_def by simp
    have "jitter_allocate A lay (c, m) = (Inr (p, lay_size lay), c', ?m2)"
      using al il Inr x d by (simp add: jitter_allocate_def Let_def p_def c')
    then show ?thesis
      using hosted_blocks.hosted_allocate [OF H I v al [unfolded Inr x] off new] keep(2)
      by (simp add: alloc_post_def c')
  qed
qed

lemma jitter_allocate_post:
  assumes inv: "jitter_inv ainv c m L" and lay: "valid_layout lay"
  shows "alloc_post (jitter_inv ainv) L lay m (jitter_allocate A lay (c, m))"
proof -
  have ok: "jitter_ok c" and I: "hosted_inv (jitter_hosted c) ainv (cj_inner c) m L"
    using inv by (auto simp: jitter_inv_def)
  note H = jitter_hosts [OF ok] and keep = jitter_put_rng [OF inv]
  show ?thesis
  proof (cases "inner_layout_for lay (cj_cache_line_size c) (jitter_prefix c)")
    case None
    obtain r i m1 where al: "al_allocate A lay (cj_inner c, m) = (r, i, m1)"
      by (cases "al_allocate A lay (cj_inner c, m)") auto
    show ?thesis
    proof (cases r)
      case (Inl e)
      then show ?thesis
        using hosted_blocks.hosted_refused [OF H I lay al [unfolded Inl]] al None keep(1)
        by (simp add: jitter_allocate_def alloc_post_def)
    next
      case (Inr x)
      obtain q k where x: "x = (q, k)" by (cases x)
      have "jitter_hosted c m1 (q, lay, k) (q, lay, k)" using lay None by simp
      from hosted_blocks.hosted_allocate [OF H I lay al [unfolded Inr x] same_on_refl this] show ?thesis
        using al None Inr x keep(1)
        by (simp add: jitter_allocate_def alloc_post_def)
    qed
  next
    case (Some r)
    show ?thesis
    proof (cases r)
      case (Inl e)
      then show ?thesis using inv Some by (simp add: jitter_allocate_def alloc_post_def)
    next
      case il: (Inr il)
      show ?thesis using jitter_allocate_placed [OF inv lay Some [unfolded il]] .
    qed
  qed
qed

lemma jitter_deallocate_post:
  assumes inv: "jitter_inv ainv c m L" and mem: "(p, lay, n) \<in> L"
  shows "dealloc_post (jitter_inv ainv) (L - {(p, lay, n)}) m (jitter_deallocate A p lay (c, m))"
proof -
  have ok: "jitter_ok c" and I: "hosted_inv (jitter_hosted c) ainv (cj_inner c) m L"
    using inv by (auto simp: jitter_inv_def)
  obtain q il k where h: "jitter_hosted c m (p, lay, n) (q, il, k)"
    and d: "\<And>m1. same_on (- span q k) m m1 \<Longrightarrow> \<exists>i' m'. al_deallocate A q il (cj_inner c, m1) = Done (i', m') \<and>
        hosted_inv (jitter_hosted c) ainv i' m' (L - {(p, lay, n)}) \<and> same_on (footprint (L - {(p, lay, n)})) m m'"
    using hosted_blocks.hosted_deallocate [OF jitter_hosts [OF ok] I mem] by blast
  from d [OF same_on_refl] obtain i' m' where d: "al_deallocate A q il (cj_inner c, m) = Done (i', m')"
    "hosted_inv (jitter_hosted c) ainv i' m' (L - {(p, lay, n)})" "same_on (footprint (L - {(p, lay, n)})) m m'"
    by blast
  have "jitter_deallocate A p lay (c, m) = Done (jitter_put i' c, m')"
    using h d(1) by (auto simp: jitter_deallocate_def split: option.splits)
  then show ?thesis using jitter_put_rng(1) [OF inv d(2)] d(3) by (simp add: dealloc_post_def)
qed

lemma jitter_contract: "allocator_contract (jitter_allocator A) (jitter_inv ainv)"
proof (rule allocator_contractI)
  have "live_ok L" if "jitter_inv ainv c m L" for c m L
    using that hosted_blocks.hosted_live_ok [OF jitter_hosts] by (auto simp: jitter_inv_def)
  moreover have "jitter_inv ainv c m' L" if "jitter_inv ainv c m L" "same_on (- footprint L) m m'" for c m m' L
    using that hosted_blocks.hosted_user_write [OF jitter_hosts] by (auto simp: jitter_inv_def)
  ultimately show "allocator_core (al_allocate (jitter_allocator A)) (al_deallocate (jitter_allocator A))
      (al_usable_size (jitter_allocator A)) (jitter_inv ainv)"
    by unfold_locales
      (use jitter_allocate_post jitter_deallocate_post in \<open>auto simp: jitter_allocator_def default_usable_size_def\<close>)
qed (simp_all add: jitter_allocator_def)

end

section \<open>Construction and detection\<close>

lemma jitter_with_params_ok:
  assumes "jitter_with_params i line assoc seed = Some c"
  shows "jitter_ok c" "cj_inner c = i" "cj_cache_line_size c = line" "cj_associativity c = assoc"
proof -
  obtain v where p: "is_pow2 line" "\<not> line < 8" "assoc \<noteq> 0" "\<not> assoc > MAX_ASSOCIATIVITY" "checked_mul line assoc = Some v"
    and c: "cj_inner c = i" "cj_cache_line_size c = line" "cj_associativity c = assoc"
      "cj_line_shift c = word_of_nat (trailing_zeros line)" "cj_rng c \<noteq> 0"
    using assms by (auto simp: jitter_with_params_def Let_def split: if_splits option.splits)
  obtain k where k: "k < 64" "line = 2 ^ k" "unat line = 2 ^ k" using p(1) by (rule is_pow2E)
  have sh: "unat (cj_line_shift c) = k"
    using k by (simp add: c(4) trailing_zeros_pow2 unat_word_of_nat)
  have "unat assoc < 2 ^ 16"
    using p(4) by (simp add: MAX_ASSOCIATIVITY_def word_less_nat_alt)
  moreover have "0 < unat assoc" using p(3) by (simp add: unat_gt_0)
  moreover have "unat line * unat assoc < 2 ^ 64" using checked_mul_unat [OF p(5)] unat_64_less [of v] by simp
  moreover have "8 \<le> unat line" using p(2) by (simp add: word_less_nat_alt)
  ultimately show "jitter_ok c" unfolding jitter_ok_def c(2,3) sh using p(1) k(1,2) c(5) by blast
  show "cj_inner c = i" "cj_cache_line_size c = line" "cj_associativity c = assoc" by (rule c)+
qed

lemma jitter_detects:
  assumes "lay_align lay \<le> cj_cache_line_size c" "unpack_header c p (read_u64 m (p - 8)) = None"
  shows "jitter_deallocate I p lay (c, m) = Panicked"
  using assms by (auto simp: jitter_deallocate_def inner_layout_for_def Let_def split: option.splits sum.splits)

end
