(* ===== verification/Jitter_Properties.thy ===== *)
theory Jitter_Properties
  imports Examples Cache_Jitter
begin

text \<open>
  The properties of \<open>CacheJitter\<close>, with an instance of two ways and 16-byte lines over the inline buffer
  (whose alignments end at 16).
\<close>

definition demo_jitter :: "inline_backed cache_jitter" where
  "demo_jitter = \<lparr>cj_inner = demo_inline, cj_cache_line_size = 16, cj_associativity = 2, cj_line_shift = 4,
     cj_mac_key = jitter_mac_key 7, cj_rng = 7\<rparr>"

lemma demo_jitter_new: "jitter_with_params demo_inline 16 2 7 = Some demo_jitter"
proof -
  have "trailing_zeros 16 = 4" using trailing_zeros_pow2 [of 4] by simp
  moreover have "checked_mul 16 2 = Some (32 :: usize)" by (simp add: checked_mul_def)
  ultimately show ?thesis by (simp add: jitter_with_params_def demo_jitter_def MAX_ASSOCIATIVITY_def)
qed

text \<open>
  C16. Every \<open>CacheJitter\<close> that \<open>with_params\<close> builds meets the \<open>Allocator\<close> contract over any inner
  allocator that does: whatever the generator draws, a block lies with its header inside its own inner
  block, at the alignment asked for, and freeing it finds that inner block and frees it once.
\<close>

theorem jitter_correct:
  assumes "allocator_contract A ainv" "ainv i m {}" "jitter_with_params i line assoc seed = Some c"
  shows "allocator_contract (jitter_allocator A) (jitter_inv ainv) \<and> jitter_inv ainv c m {}"
  using allocator_contract.jitter_contract [OF assms(1)] assms(2) jitter_with_params_ok [OF assms(3)]
  by (simp add: jitter_inv_def)

theorem jitter_correct_witness:
  "allocator_contract (jitter_allocator (inline_allocator 256)) (jitter_inv (inline_inv 256)) \<and>
   jitter_inv (inline_inv 256) demo_jitter zero_mem {}"
  using jitter_correct [OF inline.allocator_contract_axioms demo_inline_ok demo_jitter_new] .

text \<open>
  C17. The header check admits nothing else: before any block, exactly \<open>associativity\<close> of the \<open>2 ^ 64\<close>
  header words are accepted, each giving back the displacement it was packed from, and a block with any
  other word before it panics when it is freed (for lines of at most \<open>2 ^ 48\<close> bytes).
\<close>

theorem jitter_header_exact:
  assumes "jitter_with_params i line assoc seed = Some c" "unat line \<le> 2 ^ 48"
  shows "card {h. unpack_header c p h \<noteq> None} = unat assoc \<and>
    {h. unpack_header c p h \<noteq> None} = {pack_header c p (word_of_nat r * line) |r. r < unat assoc} \<and>
    (\<forall>r < unat assoc. unpack_header c p (pack_header c p (word_of_nat r * line)) = Some (word_of_nat r * line)) \<and>
    (\<forall>lay m. lay_align lay \<le> line \<longrightarrow>
       (\<forall>r < unat assoc. read_u64 m (p - 8) \<noteq> pack_header c p (word_of_nat r * line)) \<longrightarrow>
       jitter_deallocate I p lay (c, m) = Panicked)"
proof -
  note c = jitter_with_params_ok [OF assms(1)]
  have "(2 :: nat) ^ unat (cj_line_shift c) \<le> 2 ^ 48"
    using jitter_line [OF c(1)] assms(2) c(3) by simp
  then have s: "unat (cj_line_shift c) \<le> 48" by (rule power_le_imp_le_exp [rotated]) simp
  note e = unpack_header_exact [OF c(1) s, unfolded c(3,4)] and u = unpack_pack_header [OF c(1), unfolded c(3,4)]
  have "jitter_deallocate I p lay (c, m) = Panicked" if "lay_align lay \<le> line"
    "\<forall>r < unat assoc. read_u64 m (p - 8) \<noteq> pack_header c p (word_of_nat r * line)" for lay m
  proof (rule jitter_detects)
    show "lay_align lay \<le> cj_cache_line_size c" using that(1) c(3) by simp
    show "unpack_header c p (read_u64 m (p - 8)) = None"
      using e [of p "read_u64 m (p - 8)"] that(2) by (cases "unpack_header c p (read_u64 m (p - 8))") auto
  qed
  moreover have "{h. unpack_header c p h \<noteq> None} = {pack_header c p (word_of_nat r * line) |r. r < unat assoc}"
    using e u by fastforce
  ultimately show ?thesis using card_accepted [OF c(1) s, of p] u by (simp add: c(4))
qed

text \<open>The word 5 is never accepted: it stores a displacement of five lines.\<close>

theorem jitter_header_exact_witness:
  "card {h. unpack_header demo_jitter 4128 h \<noteq> None} = 2 \<and>
   jitter_deallocate (inline_allocator 256) 4128 demo_layout (demo_jitter, write_u64 zero_mem 4120 5) = Panicked"
proof -
  let ?m = "write_u64 zero_mem 4120 5"
  note e = jitter_header_exact [OF demo_jitter_new, of 4128 "inline_allocator 256"]
  have "pack_header demo_jitter 4128 (word_of_nat r * 16) \<noteq> 5" if "r < unat (2 :: usize)" for r
  proof -
    have "(5 :: u64) AND HEADER_DISP_MASK = 5" by (simp add: HEADER_DISP_MASK_def)
    moreover have "pack_header demo_jitter 4128 (word_of_nat r * 16) AND HEADER_DISP_MASK = word_of_nat r"
      using pack_header_fields(1) [OF jitter_with_params_ok(1) [OF demo_jitter_new], of r 4128] that
      by (simp add: demo_jitter_def)
    moreover have "(word_of_nat r :: u64) \<noteq> 5" using that less_2_cases_iff [of r] by auto
    ultimately show ?thesis by metis
  qed
  then have "read_u64 ?m (4128 - 8) \<noteq> pack_header demo_jitter 4128 (word_of_nat r * 16)" if "r < unat (2 :: usize)" for r
    using that by fastforce
  moreover have "lay_align demo_layout \<le> 16" by (simp add: demo_layout_def)
  ultimately have "jitter_deallocate (inline_allocator 256) 4128 demo_layout (demo_jitter, ?m) = Panicked"
    using e by simp
  moreover have "card {h. unpack_header demo_jitter 4128 h \<noteq> None} = 2" using e [THEN conjunct1] by simp
  ultimately show ?thesis by blast
qed

end
