(* ===== verification/Arena_Pool.thy ===== *)
theory Arena_Pool
  imports Ownership Client_Runs Mmap_Backed "HOL-Library.Multiset"
begin

text \<open>
  \<open>forge-alloc/src/layout/arena_pool.rs\<close>: \<open>ArenaPool<B, F>\<close> keeps reset bump arenas for reuse, mints new
  ones with the factory \<open>F\<close> and drops those above its cap. The factory's captured state is the world the
  backings come from, so that dropping a backing acts on it too.
\<close>

section \<open>State and operations\<close>

text \<open>\<open>FnMut() -> Result<B, AllocError>\<close>, and the drop of a \<open>B\<close>.\<close>

record ('b, 'w) factory =
  mint :: "'w \<times> mem \<Rightarrow> 'b res \<times> 'w \<times> mem"
  discard :: "'b \<Rightarrow> 'w \<times> mem \<Rightarrow> 'w \<times> mem"

record ('b, 'w) arena_pool =
  ap_factory :: 'w
  ap_idle :: "'b bump_arena list"
  ap_cap :: usize

definition pool_new :: "usize \<Rightarrow> 'w \<Rightarrow> ('b, 'w) arena_pool" where
  "pool_new cap w = \<lparr>ap_factory = w, ap_idle = [], ap_cap = cap\<rparr>"

text \<open>\<open>BumpArena::new((self.factory)()?)\<close>: a backing the arena refuses is dropped.\<close>

definition pool_mint ::
  "'b fixed_range \<Rightarrow> ('b, 'w) factory \<Rightarrow> 'w \<times> mem \<Rightarrow> 'b bump_arena res \<times> 'w \<times> mem" where
  "pool_mint R F st =
     (case mint F st of
        (Inl e, st') \<Rightarrow> (Inl e, st')
      | (Inr b, st') \<Rightarrow>
          (case bump_new R b of Inl e \<Rightarrow> (Inl e, discard F b st') | Inr a \<Rightarrow> (Inr a, st')))"

definition pool_checkout ::
  "'b fixed_range \<Rightarrow> ('b, 'w) factory \<Rightarrow> ('b, 'w) arena_pool \<times> mem \<Rightarrow>
     'b bump_arena res \<times> ('b, 'w) arena_pool \<times> mem" where
  "pool_checkout R F st =
     (case st of (p, m) \<Rightarrow>
        if ap_idle p \<noteq> []
        then (Inr (last (ap_idle p)), p\<lparr>ap_idle := butlast (ap_idle p)\<rparr>, m)
        else case pool_mint R F (ap_factory p, m) of (r, w, m') \<Rightarrow> (r, p\<lparr>ap_factory := w\<rparr>, m'))"

definition idle_count :: "('b, 'w) arena_pool \<Rightarrow> usize" where
  "idle_count p = word_of_nat (length (ap_idle p))"

definition pool_give_back ::
  "('b, 'w) factory \<Rightarrow> 'b bump_arena \<Rightarrow> ('b, 'w) arena_pool \<times> mem \<Rightarrow> ('b, 'w) arena_pool \<times> mem" where
  "pool_give_back F arena st =
     (case st of (p, m) \<Rightarrow>
        let arena = bump_reset arena
        in if idle_count p < ap_cap p
           then (p\<lparr>ap_idle := ap_idle p @ [arena]\<rparr>, m)
           else case discard F (ba_backing arena) (ap_factory p, m) of (w, m') \<Rightarrow> (p\<lparr>ap_factory := w\<rparr>, m'))"

text \<open>The \<open>while\<close> loop of \<open>prewarm\<close>; the length of a \<open>Vec\<close> is below \<open>2 ^ 64\<close>.\<close>

function prewarm_loop ::
  "'b fixed_range \<Rightarrow> ('b, 'w) factory \<Rightarrow> usize \<Rightarrow> usize \<Rightarrow> ('b, 'w) arena_pool \<times> mem \<Rightarrow>
     usize res \<times> ('b, 'w) arena_pool \<times> mem" where
  "prewarm_loop R F target added (p, m) =
     (if length (ap_idle p) < unat target
      then case pool_mint R F (ap_factory p, m) of
             (Inl e, w, m') \<Rightarrow> (Inl e, p\<lparr>ap_factory := w\<rparr>, m')
           | (Inr arena, w, m') \<Rightarrow>
               prewarm_loop R F target (added + 1)
                 (p\<lparr>ap_factory := w, ap_idle := ap_idle p @ [arena]\<rparr>, m')
      else (Inr added, p, m))"
  by pat_completeness auto

termination
  by (relation "measure (\<lambda>(R, F, target, added, p, m). unat target - length (ap_idle p))") auto

definition pool_prewarm ::
  "'b fixed_range \<Rightarrow> ('b, 'w) factory \<Rightarrow> usize \<Rightarrow> ('b, 'w) arena_pool \<times> mem \<Rightarrow>
     usize res \<times> ('b, 'w) arena_pool \<times> mem" where
  "pool_prewarm R F n st =
     (let target = min (ap_cap (fst st)) (saturating_add (idle_count (fst st)) n)
      in prewarm_loop R F target 0 st)"

definition pool_clear ::
  "('b, 'w) factory \<Rightarrow> ('b, 'w) arena_pool \<times> mem \<Rightarrow> ('b, 'w) arena_pool \<times> mem" where
  "pool_clear F st =
     (case st of (p, m) \<Rightarrow>
        case fold (\<lambda>a. discard F (ba_backing a)) (ap_idle p) (ap_factory p, m) of
          (w, m') \<Rightarrow> (p\<lparr>ap_factory := w, ap_idle := []\<rparr>, m'))"

fun release_all :: "'a os_backed \<Rightarrow> 'a list \<times> mem \<Rightarrow> 'a list \<times> mem" where
  "release_all B ([], m) = ([], m)"
| "release_all B (a # as, m) =
     (case os_release_pages B (os_base_ptr B a) (os_region_size B a) (a, m) of
        (a', m') \<Rightarrow> (case release_all B (as, m') of (as', m'') \<Rightarrow> (a' # as', m'')))"

definition pool_release_idle ::
  "'b os_backed \<Rightarrow> ('b, 'w) arena_pool \<times> mem \<Rightarrow> ('b, 'w) arena_pool \<times> mem" where
  "pool_release_idle B st =
     (case st of (p, m) \<Rightarrow>
        case release_all (bump_os B) (ap_idle p, m) of (idle, m') \<Rightarrow> (p\<lparr>ap_idle := idle\<rparr>, m'))"

section \<open>Ranges kept apart\<close>

fun apart :: "addr set list \<Rightarrow> bool" where
  "apart [] \<longleftrightarrow> True"
| "apart (X # Xs) \<longleftrightarrow> (\<forall>Y \<in> set Xs. X \<inter> Y = {}) \<and> apart Xs"

lemma apart_append: "apart (Xs @ Ys) \<longleftrightarrow> apart Xs \<and> apart Ys \<and> (\<forall>X \<in> set Xs. \<forall>Y \<in> set Ys. X \<inter> Y = {})"
  by (induction Xs) auto

lemma apart_permute: "mset Xs = mset Ys \<Longrightarrow> apart Xs \<Longrightarrow> apart Ys"
proof (induction Xs arbitrary: Ys)
  case (Cons X Xs)
  then obtain As Bs where Y: "Ys = As @ X # Bs" by (metis list.set_intros(1) set_mset_mset split_list)
  then have "mset Xs = mset (As @ Bs)" using Cons.prems(1) by simp
  moreover from this have "set Xs = set (As @ Bs)" by (rule mset_eq_setD)
  ultimately show ?case using Cons.IH [of "As @ Bs"] Cons.prems(2) Y by (fastforce simp: apart_append Int_commute)
qed simp

section \<open>A client stays in its arena\<close>

context fixed_range_contract
begin

lemma bump_allocate_own:
  assumes "bump_inv R rinv a m L" "valid_layout lay" "bump_allocate R lay (a, m) = (r, a', m')"
  shows "bump_own R a' = bump_own R a" "m' = m" "r = Inr (q, k) \<Longrightarrow> span q (lay_size lay) \<subseteq> bump_own R a"
proof -
  note o = owned_contract.own_allocate [OF bump_owned assms(1,2), of r a' m']
  show o': "bump_own R a' = bump_own R a" using o assms(3) by (simp add: bump_allocator_def)
  show "m' = m" using assms(3) by (auto simp: bump_allocate_def split: prod.splits sum.splits)
  show "span q (lay_size lay) \<subseteq> bump_own R a" if "r = Inr (q, k)"
  proof -
    have "bump_inv R rinv a' m' (insert (q, lay, k) L)" "block_ok lay q k"
      using bump_allocate_post [OF assms(1,2)] assms(3) that by (auto simp: alloc_post_def)
    then show ?thesis
      using owned_contract.own_live [OF bump_owned] block_ok_prefix(2) [of lay q k] o' by force
  qed
qed

lemma bump_relocate_own:
  assumes "bump_inv R rinv a m L" "valid_layout new" "lay_size old \<le> lay_size new"
    "bump_relocate R p old new (a, m) = Done (r, a', m')"
  shows "bump_own R a' = bump_own R a \<and> same_on (- bump_own R a) m m'"
proof -
  obtain r1 a1 m1 where al: "bump_allocate R new (a, m) = (r1, a1, m1)"
    by (cases "bump_allocate R new (a, m)") auto
  note o = bump_allocate_own [OF assms(1,2) al]
  show ?thesis
  proof (cases r1)
    case (Inr x)
    obtain q k where x: "x = (q, k)" by (cases x)
    have "span q (lay_size old) \<subseteq> bump_own R a" using o(3) Inr x span_mono [OF assms(3)] by blast
    then have "same_on (- bump_own R a) m (copy_nonoverlapping m p q (lay_size old))"
      by (auto simp: same_on_def intro!: copy_other)
    then show ?thesis using assms(4) al Inr x o(1,2) by (auto simp: bump_relocate_def)
  qed (use assms(4) al o in \<open>auto simp: bump_relocate_def\<close>)
qed

lemma bump_grow_own:
  assumes "bump_inv R rinv a m L" "valid_layout new" "lay_size old \<le> lay_size new"
    "bump_grow R p old new (a, m) = Done (r, a', m')"
  shows "bump_own R a' = bump_own R a \<and> same_on (- bump_own R a) m m'"
proof (cases "bump_grow R p old new (a, m) = bump_relocate R p old new (a, m)")
  case True
  show ?thesis by (rule bump_relocate_own [OF assms(1-3) assms(4) [unfolded True]])
next
  case False
  have r: "rinv (ba_backing a)" using assms(1) by (simp add: bump_inv_def)
  show ?thesis
    using assms(4) False commit_frame [OF r]
    by (auto simp: bump_grow_def Let_def bump_own_def split: if_splits option.splits prod.splits sum.splits)
qed

lemma bump_shrink_own:
  assumes "bump_inv R rinv a m L" "valid_layout new"
    "default_shrink (bump_allocate R) bump_deallocate p old new (a, m) = Done (r, a', m')"
  shows "bump_own R a' = bump_own R a \<and> same_on (- bump_own R a) m m'"
proof -
  obtain r1 a1 m1 where al: "bump_allocate R new (a, m) = (r1, a1, m1)"
    by (cases "bump_allocate R new (a, m)") auto
  note o = bump_allocate_own [OF assms(1,2) al]
  show ?thesis
  proof (cases r1)
    case (Inr x)
    obtain q k where x: "x = (q, k)" by (cases x)
    have "span q (lay_size new) \<subseteq> bump_own R a" using o(3) Inr x by blast
    then have "same_on (- bump_own R a) m (copy_nonoverlapping m p q (lay_size new))"
      by (auto simp: same_on_def intro!: copy_other)
    then show ?thesis using assms(3) al Inr x o(1,2) by (auto simp: default_shrink_def bump_deallocate_def)
  qed (use assms(3) al o in \<open>auto simp: default_shrink_def\<close>)
qed

lemma bump_client_step_own:
  assumes "client_step (bump_allocator R) (a, m, L) k (a', m', L')" "bump_inv R rinv a m L"
  shows "bump_inv R rinv a' m' L' \<and> bump_own R a' = bump_own R a \<and> same_on (- bump_own R a) m m'"
proof -
  have "bump_own R a' = bump_own R a \<and> same_on (- bump_own R a) m m'"
    using assms(1)
  proof (rule client_stepE, goal_cases)
    case (1 lay q n)
    then show ?case using owned_contract.own_allocate [OF bump_owned assms(2)] by blast
  next
    case (2 lay e)
    then show ?case using owned_contract.own_allocate [OF bump_owned assms(2)] by blast
  next
    case (3 lay q n)
    then show ?case using owned_contract.own_zeroed [OF bump_owned assms(2)] by blast
  next
    case (4 lay e)
    then show ?case using owned_contract.own_zeroed [OF bump_owned assms(2)] by blast
  next
    case (5 q lay n)
    then show ?case using owned_contract.own_deallocate [OF bump_owned assms(2)] by blast
  next
    case (6 q old n new)
    then show ?case using bump_grow_own [OF assms(2)] by (simp add: bump_allocator_def)
  next
    case (7 q old n new)
    then show ?case using bump_grow_own [OF assms(2)] by (simp add: bump_allocator_def)
  next
    case (8 q old n new)
    then show ?case using bump_shrink_own [OF assms(2)] by (simp add: bump_allocator_def)
  next
    case (9 q old n new)
    then show ?case using bump_shrink_own [OF assms(2)] by (simp add: bump_allocator_def)
  next
    case 10
    then show ?case using owned_contract.own_live [OF bump_owned assms(2)] by (auto simp: same_on_def)
  qed
  then show ?thesis using allocator_contract.client_step_inv [OF bump_contract assms] by blast
qed

end

section \<open>The invariant\<close>

type_synonym 'b taken = "('b bump_arena \<times> live) list"

definition taken_own :: "'b fixed_range \<Rightarrow> 'b taken \<Rightarrow> addr set" where
  "taken_own R outs = (\<Union>o' \<in> set outs. bump_own R (fst o'))"

definition pool_ranges :: "'b fixed_range \<Rightarrow> ('b, 'w) arena_pool \<Rightarrow> 'b taken \<Rightarrow> addr set list" where
  "pool_ranges R p outs = map (bump_own R) (ap_idle p) @ map (bump_own R \<circ> fst) outs"

text \<open>
  \<open>outs\<close> are the arenas the pool has handed out, with their live blocks. All arenas are apart, lie in
  the world's memory, and those in the pool are empty.
\<close>

definition pool_inv ::
  "'b fixed_range \<Rightarrow> ('b \<Rightarrow> bool) \<Rightarrow> ('w \<Rightarrow> addr set) \<Rightarrow> ('b, 'w) arena_pool \<Rightarrow> mem \<Rightarrow> 'b taken \<Rightarrow> bool" where
  "pool_inv R rinv mapped p m outs \<longleftrightarrow>
     (\<forall>a \<in> set (ap_idle p). bump_inv R rinv a m {} \<and> ba_cursor a = 0) \<and>
     (\<forall>(a, L) \<in> set outs. bump_inv R rinv a m L) \<and>
     apart (pool_ranges R p outs) \<and> \<Union> (set (pool_ranges R p outs)) \<subseteq> mapped (ap_factory p) \<and>
     length (ap_idle p) \<le> unat (ap_cap p)"

lemma pool_inv_new [simp]: "pool_inv R rinv mapped (pool_new cap w) m []"
  by (simp add: pool_inv_def pool_new_def pool_ranges_def)

lemma idle_count_unat: "pool_inv R rinv mapped p m outs \<Longrightarrow> unat (idle_count p) = length (ap_idle p)"
  unfolding idle_count_def pool_inv_def using unat_64_less [of "ap_cap p"] by (intro unat_word_of_nat) simp

lemma bump_own_reset [simp]: "bump_own R (bump_reset a) = bump_own R a"
  by (simp add: bump_own_def bump_reset_def)

locale arena_minting = fixed_range_contract R rinv for R :: "'b fixed_range" and rinv :: "'b \<Rightarrow> bool" +
  fixes F :: "('b, 'w) factory" and mapped :: "'w \<Rightarrow> addr set"
  assumes mint_ok: "mint F (w, m) = (Inr b, w', m') \<Longrightarrow> rinv b \<and> span (fr_base R b) (fr_size R b) \<inter> mapped w = {} \<and>
      mapped w' = mapped w \<union> span (fr_base R b) (fr_size R b) \<and> same_on (mapped w) m m'"
    and mint_fail: "mint F (w, m) = (Inl e, w', m') \<Longrightarrow> mapped w' = mapped w \<and> same_on (mapped w) m m'"
    and discard_ok: "discard F b (w, m) = (w', m') \<Longrightarrow> rinv b \<Longrightarrow>
      mapped w - span (fr_base R b) (fr_size R b) \<subseteq> mapped w' \<and> same_on (- span (fr_base R b) (fr_size R b)) m m'"
begin

lemma bump_inv_parts:
  assumes "bump_inv R rinv a m L"
  shows "rinv (ba_backing a)" "bump_own R a = span (fr_base R (ba_backing a)) (fr_size R (ba_backing a))"
    "footprint L \<subseteq> bump_own R a"
  using assms owned_contract.own_live [OF bump_owned assms] by (auto simp: bump_inv_def bump_own_def)

lemma pool_mint_cases:
  assumes "pool_mint R F (w, m) = (r, w', m')"
  shows "same_on (mapped w) m m' \<and> mapped w \<subseteq> mapped w' \<and>
    (\<forall>a. r = Inr a \<longrightarrow> bump_inv R rinv a m' {} \<and> ba_cursor a = 0 \<and> bump_own R a \<inter> mapped w = {} \<and>
       bump_own R a \<subseteq> mapped w')"
proof -
  obtain r1 w1 m1 where mt: "mint F (w, m) = (r1, w1, m1)" by (cases "mint F (w, m)") auto
  show ?thesis
  proof (cases r1)
    case (Inl e)
    then show ?thesis using assms mint_fail [OF mt [unfolded Inl]] mt by (auto simp: pool_mint_def)
  next
    case (Inr b)
    note k = mint_ok [OF mt [unfolded Inr]]
    show ?thesis
    proof (cases "bump_new R b")
      case (Inl e)
      then have "discard F b (w1, m1) = (w', m')" "r = Inl e"
        using assms mt Inr by (simp_all add: pool_mint_def)
      note d = discard_ok [OF this(1)]
      have "same_on (mapped w) m1 m'" by (rule same_on_mono) (use d k in auto)
      then have "same_on (mapped w) m m'" using k by (blast intro: same_on_trans)
      then show ?thesis using d k \<open>r = Inl e\<close> by auto
    next
      case a: (Inr a)
      then have "ba_backing a = b" "ba_capacity a = fr_size R b" "ba_cursor a = 0"
        by (auto simp: bump_new_def Let_def split: if_splits option.splits)
      then have "bump_own R a = span (fr_base R b) (fr_size R b)" by (simp add: bump_own_def)
      then show ?thesis
        using assms mt Inr a k bump_new_inv [OF _ a] \<open>ba_cursor a = 0\<close> by (auto simp: pool_mint_def)
    qed
  qed
qed

lemma pool_inv_mem: "pool_inv R rinv mapped p m outs \<Longrightarrow> pool_inv R rinv mapped p m' outs"
  using bump_inv_mono [of _ m _ _ m'] unfolding pool_inv_def by (fastforce split: prod.splits)

text \<open>An arena joins the pool's own, or the taken ones.\<close>

lemma pool_inv_add:
  assumes "pool_inv R rinv mapped p m outs" "mapped (ap_factory p) \<subseteq> mapped w'" "bump_inv R rinv a m' {}"
    "ba_cursor a = 0" "bump_own R a \<inter> mapped (ap_factory p) = {}" "bump_own R a \<subseteq> mapped w'"
  shows "pool_inv R rinv mapped (p\<lparr>ap_factory := w'\<rparr>) m' ((a, {}) # outs)"
    "length (ap_idle p) < unat (ap_cap p) \<Longrightarrow>
       pool_inv R rinv mapped (p\<lparr>ap_factory := w', ap_idle := ap_idle p @ [a]\<rparr>) m' outs"
proof -
  have i: "\<forall>b \<in> set (ap_idle p). bump_inv R rinv b m' {} \<and> ba_cursor b = 0" "\<forall>(b, L) \<in> set outs. bump_inv R rinv b m' L"
    "apart (pool_ranges R p outs)" "\<Union> (set (pool_ranges R p outs)) \<subseteq> mapped (ap_factory p)"
    "length (ap_idle p) \<le> unat (ap_cap p)"
    using pool_inv_mem [OF assms(1), of m'] unfolding pool_inv_def by blast+
  have d: "\<forall>X \<in> set (pool_ranges R p outs). X \<inter> bump_own R a = {}" using i(4) assms(5) by blast
  have u: "\<Union> (set (pool_ranges R p outs)) \<union> bump_own R a \<subseteq> mapped w'" using i(4) assms(2,6) by blast
  have ap: "apart (bump_own R a # pool_ranges R p outs)" using i(3) d by auto
  let ?p1 = "p\<lparr>ap_factory := w'\<rparr>" and ?p2 = "p\<lparr>ap_factory := w', ap_idle := ap_idle p @ [a]\<rparr>"
  have m: "mset (bump_own R a # pool_ranges R p outs) = mset (pool_ranges R ?p1 ((a, {}) # outs))"
    "mset (bump_own R a # pool_ranges R p outs) = mset (pool_ranges R ?p2 outs)"
    by (simp_all add: pool_ranges_def)
  note ap1 = apart_permute [OF m(1) ap] and ap2 = apart_permute [OF m(2) ap]
  show "pool_inv R rinv mapped ?p1 m' ((a, {}) # outs)"
    using i(1,2,5) assms(3) u ap1 unfolding pool_inv_def mset_eq_setD [OF m(1), symmetric] by simp
  show "pool_inv R rinv mapped ?p2 m' outs" if "length (ap_idle p) < unat (ap_cap p)"
    using i(1,2) that assms(3,4) u ap2 unfolding pool_inv_def mset_eq_setD [OF m(2), symmetric] by simp
qed

lemma pool_inv_grow:
  assumes "pool_inv R rinv mapped p m outs" "mapped (ap_factory p) \<subseteq> mapped w'"
  shows "pool_inv R rinv mapped (p\<lparr>ap_factory := w'\<rparr>) m' outs"
  using pool_inv_mem [OF assms(1), of m'] assms(2) unfolding pool_inv_def pool_ranges_def by (simp, blast)

lemma taken_mapped: "pool_inv R rinv mapped p m outs \<Longrightarrow> taken_own R outs \<subseteq> mapped (ap_factory p)"
  by (auto simp: pool_inv_def taken_own_def pool_ranges_def)

lemma pool_checkout_inv:
  assumes inv: "pool_inv R rinv mapped p m outs" and co: "pool_checkout R F (p, m) = (r, p', m')"
  shows "same_on (taken_own R outs) m m' \<and>
    (case r of Inl e \<Rightarrow> ap_idle p = [] \<and> pool_inv R rinv mapped p' m' outs
     | Inr a \<Rightarrow> ba_cursor a = 0 \<and> pool_inv R rinv mapped p' m' ((a, {}) # outs))"
proof (cases "ap_idle p = []")
  case False
  then obtain as a where as: "ap_idle p = as @ [a]" by (metis rev_exhaust)
  have "pool_inv R rinv mapped (p\<lparr>ap_idle := as\<rparr>) m ((a, {}) # outs)"
    using inv by (auto simp: pool_inv_def pool_ranges_def as apart_append)
  then show ?thesis using inv co by (auto simp: pool_checkout_def as pool_inv_def)
next
  case True
  obtain w' where mt: "pool_mint R F (ap_factory p, m) = (r, w', m')" and p': "p' = p\<lparr>ap_factory := w'\<rparr>"
    using co True by (auto simp: pool_checkout_def split: prod.splits)
  note k = pool_mint_cases [OF mt]
  have "same_on (taken_own R outs) m m'" using k taken_mapped [OF inv] by (blast intro: same_on_mono)
  then show ?thesis
    using pool_inv_add(1) [OF inv] pool_inv_grow [OF inv] k True by (auto simp: p' split: sum.splits)
qed

lemma prewarm_loop_inv:
  "prewarm_loop R F target added (p, m) = (r, p', m') \<Longrightarrow> pool_inv R rinv mapped p m outs \<Longrightarrow>
     unat target \<le> unat (ap_cap p) \<Longrightarrow>
     pool_inv R rinv mapped p' m' outs \<and> same_on (taken_own R outs) m m' \<and>
     (\<forall>k. r = Inr k \<longrightarrow> length (ap_idle p') = max (length (ap_idle p)) (unat target) \<and>
        k = added + word_of_nat (length (ap_idle p') - length (ap_idle p)))"
proof (induction "unat target - length (ap_idle p)" arbitrary: p m added rule: less_induct)
  case less
  note inv = less.prems(2)
  show ?case
  proof (cases "length (ap_idle p) < unat target")
    case False
    then show ?thesis using less.prems by (subst (asm) prewarm_loop.simps) (auto simp: max_def)
  next
    case True
    obtain r1 w m1 where mt: "pool_mint R F (ap_factory p, m) = (r1, w, m1)"
      by (cases "pool_mint R F (ap_factory p, m)") auto
    note k = pool_mint_cases [OF mt]
    have same: "same_on (taken_own R outs) m m1" using k taken_mapped [OF inv] by (blast intro: same_on_mono)
    show ?thesis
    proof (cases r1)
      case (Inl e)
      then have "r = Inl e" "p' = p\<lparr>ap_factory := w\<rparr>" "m' = m1"
        using less.prems(1) True mt by (auto simp: prewarm_loop.simps [of R F target added p])
      then show ?thesis using pool_inv_grow [OF inv, of w m1] k same by simp
    next
      case (Inr a)
      let ?p = "p\<lparr>ap_factory := w, ap_idle := ap_idle p @ [a]\<rparr>"
      have lp: "prewarm_loop R F target (added + 1) (?p, m1) = (r, p', m')"
        using less.prems(1) True mt Inr by (simp add: prewarm_loop.simps [of R F target added p])
      have "pool_inv R rinv mapped ?p m1 outs"
        using pool_inv_add(2) [OF inv] k Inr True less.prems(3) by simp
      from less.hyps [OF _ lp this] True less.prems(3)
      have h: "pool_inv R rinv mapped p' m' outs" "same_on (taken_own R outs) m1 m'"
        "\<And>k. r = Inr k \<Longrightarrow> length (ap_idle p') = max (Suc (length (ap_idle p))) (unat target) \<and>
          k = added + 1 + word_of_nat (length (ap_idle p') - Suc (length (ap_idle p)))"
        by auto
      have "k = added + word_of_nat (length (ap_idle p') - length (ap_idle p))" if "r = Inr k" for k
      proof -
        have "length (ap_idle p') - length (ap_idle p) = Suc (length (ap_idle p') - Suc (length (ap_idle p)))"
          using h(3) [OF that] by simp
        then show ?thesis using h(3) [OF that] by (simp only: of_nat_Suc) (simp add: ac_simps)
      qed
      then show ?thesis using h same_on_trans [OF same h(2)] True by auto
    qed
  qed
qed

lemma pool_prewarm_inv:
  assumes "pool_inv R rinv mapped p m outs" "pool_prewarm R F n (p, m) = (r, p', m')"
  shows "pool_inv R rinv mapped p' m' outs \<and> same_on (taken_own R outs) m m' \<and>
    (\<forall>k. r = Inr k \<longrightarrow> length (ap_idle p') = min (unat (ap_cap p)) (length (ap_idle p) + unat n) \<and>
       unat k = length (ap_idle p') - length (ap_idle p))"
proof -
  let ?t = "min (ap_cap p) (saturating_add (idle_count p) n)"
  have len: "length (ap_idle p) \<le> unat (ap_cap p)" using assms(1) by (simp add: pool_inv_def)
  have t: "unat ?t = min (unat (ap_cap p)) (length (ap_idle p) + unat n)"
    using unat_64_less [of "ap_cap p"]
    by (simp add: min_def word_le_nat_alt unat_saturating_add idle_count_unat [OF assms(1)])
  have "prewarm_loop R F ?t 0 (p, m) = (r, p', m')" using assms(2) by (simp add: pool_prewarm_def Let_def)
  note l = prewarm_loop_inv [OF this assms(1)]
  have m: "max (length (ap_idle p)) (unat ?t) = unat ?t" using len unfolding t by simp
  have "unat k = length (ap_idle p') - length (ap_idle p)" if "r = Inr k" for k
  proof -
    have "k = word_of_nat (length (ap_idle p') - length (ap_idle p))" "length (ap_idle p') \<le> unat (ap_cap p)"
      using l that m t by auto
    then show ?thesis using unat_64_less [of "ap_cap p"] by (simp add: unat_word_of_nat)
  qed
  then show ?thesis using l m t by auto
qed

text \<open>Giving an arena back ends the life of all its blocks.\<close>

lemma pool_inv_drop:
  assumes "pool_inv R rinv mapped p m (pre @ (a, L) # post)"
  shows "bump_inv R rinv a m L" "bump_own R a \<inter> taken_own R (pre @ post) = {}"
    "length (ap_idle p) < unat (ap_cap p) \<Longrightarrow>
       pool_inv R rinv mapped (p\<lparr>ap_idle := ap_idle p @ [bump_reset a]\<rparr>) m (pre @ post)"
    "mapped (ap_factory p) - bump_own R a \<subseteq> mapped w' \<Longrightarrow>
       pool_inv R rinv mapped (p\<lparr>ap_factory := w'\<rparr>) m' (pre @ post)"
proof -
  let ?outs = "pre @ (a, L) # post"
  have i: "\<forall>b \<in> set (ap_idle p). bump_inv R rinv b m {} \<and> ba_cursor b = 0" "\<forall>(b, L) \<in> set ?outs. bump_inv R rinv b m L"
    "apart (pool_ranges R p ?outs)" "\<Union> (set (pool_ranges R p ?outs)) \<subseteq> mapped (ap_factory p)"
    "length (ap_idle p) \<le> unat (ap_cap p)"
    using assms unfolding pool_inv_def by blast+
  show b: "bump_inv R rinv a m L" using i(2) by simp
  have m: "mset (pool_ranges R p ?outs) = mset (bump_own R a # pool_ranges R p (pre @ post))"
    by (simp add: pool_ranges_def)
  note ap = apart_permute [OF m i(3), simplified]
  have sub: "\<Union> (set (pool_ranges R p (pre @ post))) \<subseteq> mapped (ap_factory p) - bump_own R a"
    using ap i(4) unfolding mset_eq_setD [OF m] by auto
  show "bump_own R a \<inter> taken_own R (pre @ post) = {}"
    using sub by (auto simp: taken_own_def pool_ranges_def)
  show "pool_inv R rinv mapped (p\<lparr>ap_idle := ap_idle p @ [bump_reset a]\<rparr>) m (pre @ post)"
    if "length (ap_idle p) < unat (ap_cap p)"
  proof -
    let ?p = "p\<lparr>ap_idle := ap_idle p @ [bump_reset a]\<rparr>"
    have m': "mset (pool_ranges R p ?outs) = mset (pool_ranges R ?p (pre @ post))" by (simp add: pool_ranges_def)
    have "bump_inv R rinv (bump_reset a) m {} \<and> ba_cursor (bump_reset a) = 0"
      using b by (simp add: bump_inv_def bump_reset_def)
    then show ?thesis
      using i(1,2,4) that apart_permute [OF m' i(3)] unfolding pool_inv_def mset_eq_setD [OF m'] by simp
  qed
  show "pool_inv R rinv mapped (p\<lparr>ap_factory := w'\<rparr>) m' (pre @ post)"
    if w: "mapped (ap_factory p) - bump_own R a \<subseteq> mapped w'"
  proof -
    have "pool_inv R rinv mapped p m (pre @ post)"
      using i(1,2,5) conjunct2 [OF ap] subset_trans [OF sub Diff_subset] unfolding pool_inv_def by simp
    from pool_inv_mem [OF this, of m'] show ?thesis
      using subset_trans [OF sub w] unfolding pool_inv_def pool_ranges_def by simp
  qed
qed

lemma pool_give_back_inv:
  assumes inv: "pool_inv R rinv mapped p m (pre @ (a, L) # post)" and g: "pool_give_back F a (p, m) = (p', m')"
  shows "pool_inv R rinv mapped p' m' (pre @ post) \<and> same_on (taken_own R (pre @ post)) m m'"
proof (cases "idle_count p < ap_cap p")
  case True
  then have "length (ap_idle p) < unat (ap_cap p)" using idle_count_unat [OF inv] by (simp add: word_less_nat_alt)
  then show ?thesis using g True pool_inv_drop(3) [OF inv] by (auto simp: pool_give_back_def Let_def)
next
  case False
  obtain w' where d: "discard F (ba_backing a) (ap_factory p, m) = (w', m')" and p': "p' = p\<lparr>ap_factory := w'\<rparr>"
    using g False by (auto simp: pool_give_back_def Let_def bump_reset_def split: prod.splits)
  note b = bump_inv_parts [OF pool_inv_drop(1) [OF inv]]
  note k = discard_ok [OF d b(1), folded b(2)]
  have "same_on (taken_own R (pre @ post)) m m'"
    by (rule same_on_mono [OF conjunct2 [OF k]]) (use pool_inv_drop(2) [OF inv] in blast)
  then show ?thesis using pool_inv_drop(4) [OF inv] k by (simp add: p')
qed

lemma discard_all:
  "fold (\<lambda>a. discard F (ba_backing a)) as (w, m) = (w', m') \<Longrightarrow> \<forall>a \<in> set as. bump_inv R rinv a m {} \<Longrightarrow>
     mapped w - (\<Union>a \<in> set as. bump_own R a) \<subseteq> mapped w' \<and> same_on (- (\<Union>a \<in> set as. bump_own R a)) m m'"
proof (induction as arbitrary: w m)
  case (Cons a as)
  obtain w1 m1 where d: "discard F (ba_backing a) (w, m) = (w1, m1)" by (cases "discard F (ba_backing a) (w, m)")
  note b = bump_inv_parts [of a m "{}"]
  have k: "mapped w - bump_own R a \<subseteq> mapped w1" "same_on (- bump_own R a) m m1"
    using discard_ok [OF d] b Cons.prems(2) by auto
  have "mapped w1 - (\<Union>a \<in> set as. bump_own R a) \<subseteq> mapped w' \<and> same_on (- (\<Union>a \<in> set as. bump_own R a)) m1 m'"
    using Cons.prems bump_inv_mono by (intro Cons.IH) (auto simp: d)
  moreover from this have "same_on (- (\<Union>a \<in> set (a # as). bump_own R a)) m m'"
    using k(2) by (auto simp: same_on_def)
  ultimately show ?case using k(1) by auto
qed simp

lemma pool_clear_inv:
  assumes inv: "pool_inv R rinv mapped p m outs" and c: "pool_clear F (p, m) = (p', m')"
  shows "pool_inv R rinv mapped p' m' outs \<and> same_on (taken_own R outs) m m' \<and> ap_idle p' = []"
proof -
  let ?I = "\<Union>a \<in> set (ap_idle p). bump_own R a"
  obtain w' where d: "fold (\<lambda>a. discard F (ba_backing a)) (ap_idle p) (ap_factory p, m) = (w', m')"
    and p': "p' = p\<lparr>ap_factory := w', ap_idle := []\<rparr>"
    using c by (auto simp: pool_clear_def split: prod.splits)
  have k: "mapped (ap_factory p) - ?I \<subseteq> mapped w'" "same_on (- ?I) m m'"
    using discard_all [OF d] inv by (auto simp: pool_inv_def)
  have "\<forall>X \<in> set (ap_idle p). \<forall>Y \<in> set outs. bump_own R X \<inter> bump_own R (fst Y) = {}"
    using inv unfolding pool_inv_def pool_ranges_def apart_append by simp
  then have dis: "taken_own R outs \<inter> ?I = {}" unfolding taken_own_def by blast
  have sub: "taken_own R outs \<subseteq> mapped w'" using taken_mapped [OF inv] dis k(1) by blast
  then have "pool_inv R rinv mapped p' m' outs"
    using pool_inv_mem [OF inv, of m']
    by (auto simp: pool_inv_def p' pool_ranges_def apart_append taken_own_def)
  moreover have "same_on (taken_own R outs) m m'" by (rule same_on_mono [OF k(2)]) (use dis in blast)
  ultimately show ?thesis by (simp add: p')
qed

text \<open>A client at work in its arena.\<close>

lemma pool_use_inv:
  assumes inv: "pool_inv R rinv mapped p m (pre @ (a, L) # post)"
    and st: "client_step (bump_allocator R) (a, m, L) k (a', m', L')"
  shows "pool_inv R rinv mapped p m' (pre @ (a', L') # post)" "same_on (taken_own R (pre @ post)) m m'"
    "bump_own R a' = bump_own R a"
proof -
  note c = bump_client_step_own [OF st pool_inv_drop(1) [OF inv]]
  show "bump_own R a' = bump_own R a" using c by blast
  then have "pool_ranges R p (pre @ (a', L') # post) = pool_ranges R p (pre @ (a, L) # post)"
    by (simp add: pool_ranges_def)
  then show "pool_inv R rinv mapped p m' (pre @ (a', L') # post)"
    using pool_inv_mem [OF inv, of m'] c unfolding pool_inv_def by auto
  show "same_on (taken_own R (pre @ post)) m m'"
    by (rule same_on_mono [of "- bump_own R a"]) (use c pool_inv_drop(2) [OF inv] in blast)+
qed

end

section \<open>Releasing idle pages\<close>

text \<open>Releasing all pages of a backing leaves it in place; their contents may change.\<close>

locale releasable_minting = arena_minting R rinv F mapped
  for R :: "'b fixed_range" and rinv and F :: "('b, 'w) factory" and mapped +
  fixes B :: "'b os_backed"
  assumes release_ok: "rinv b \<Longrightarrow>
      os_release_pages B (os_base_ptr B b) (os_region_size B b) (b, m) = (b', m') \<Longrightarrow>
      rinv b' \<and> fr_base R b' = fr_base R b \<and> fr_size R b' = fr_size R b \<and>
      same_on (- span (fr_base R b) (fr_size R b)) m m'"
begin

lemma release_arena:
  assumes "os_release_pages (bump_os B) (os_base_ptr (bump_os B) a) (os_region_size (bump_os B) a) (a, m) = (a', m')"
    "bump_inv R rinv a m {}"
  shows "bump_inv R rinv a' m' {} \<and> ba_cursor a' = ba_cursor a \<and> bump_own R a' = bump_own R a \<and>
    same_on (- bump_own R a) m m'"
proof -
  let ?b = "ba_backing a"
  obtain b' where r: "os_release_pages B (os_base_ptr B ?b) (os_region_size B ?b) (?b, m) = (b', m')"
    and a': "a' = a\<lparr>ba_backing := b'\<rparr>"
    using assms(1) by (auto simp: bump_os_def split: prod.splits)
  note b = bump_inv_parts [OF assms(2)]
  show ?thesis using release_ok [OF b(1) r] assms(2) unfolding b(2)
    by (auto simp: a' bump_inv_def bump_own_def)
qed

lemma release_all_inv:
  "release_all (bump_os B) (as, m) = (as', m') \<Longrightarrow> \<forall>a \<in> set as. bump_inv R rinv a m {} \<and> ba_cursor a = 0 \<Longrightarrow>
     (\<forall>a \<in> set as'. bump_inv R rinv a m' {} \<and> ba_cursor a = 0) \<and> map (bump_own R) as' = map (bump_own R) as \<and>
     same_on (- (\<Union>a \<in> set as. bump_own R a)) m m'"
proof (induction as arbitrary: m as')
  case (Cons a as)
  obtain a1 m1 where r: "os_release_pages (bump_os B) (os_base_ptr (bump_os B) a) (os_region_size (bump_os B) a) (a, m) = (a1, m1)"
    by (cases "os_release_pages (bump_os B) (os_base_ptr (bump_os B) a) (os_region_size (bump_os B) a) (a, m)")
  obtain as1 where t: "release_all (bump_os B) (as, m1) = (as1, m')" and as': "as' = a1 # as1"
    using Cons.prems(1) r by (auto split: prod.splits)
  have a: "bump_inv R rinv a1 m1 {} \<and> ba_cursor a1 = 0 \<and> bump_own R a1 = bump_own R a \<and> same_on (- bump_own R a) m m1"
    using release_arena [OF r] Cons.prems(2) by simp
  have "\<forall>a \<in> set as. bump_inv R rinv a m1 {} \<and> ba_cursor a = 0" using Cons.prems(2) bump_inv_mono by auto
  note k = Cons.IH [OF t this]
  have "same_on (- (\<Union>a \<in> set (a # as). bump_own R a)) m m'"
    using a k by (auto simp: same_on_def)
  then show ?case using a k bump_inv_mono by (auto simp: as')
qed simp

lemma pool_release_inv:
  assumes inv: "pool_inv R rinv mapped p m outs" and c: "pool_release_idle B (p, m) = (p', m')"
  shows "pool_inv R rinv mapped p' m' outs" "same_on (taken_own R outs) m m'"
    "ap_factory p' = ap_factory p" "pool_ranges R p' outs = pool_ranges R p outs"
proof -
  let ?I = "\<Union>a \<in> set (ap_idle p). bump_own R a"
  obtain as where d: "release_all (bump_os B) (ap_idle p, m) = (as, m')" and p': "p' = p\<lparr>ap_idle := as\<rparr>"
    using c by (auto simp: pool_release_idle_def split: prod.splits)
  note k = release_all_inv [OF d]
  have k: "\<forall>a \<in> set as. bump_inv R rinv a m' {} \<and> ba_cursor a = 0" "map (bump_own R) as = map (bump_own R) (ap_idle p)"
    "same_on (- ?I) m m'"
    using k inv by (auto simp: pool_inv_def)
  have "\<forall>X \<in> set (ap_idle p). \<forall>Y \<in> set outs. bump_own R X \<inter> bump_own R (fst Y) = {}"
    using inv unfolding pool_inv_def pool_ranges_def apart_append by simp
  then have dis: "taken_own R outs \<inter> ?I = {}" unfolding taken_own_def by blast
  show "same_on (taken_own R outs) m m'" by (rule same_on_mono [OF k(3)]) (use dis in blast)
  show r: "pool_ranges R p' outs = pool_ranges R p outs" by (simp add: pool_ranges_def p' k(2))
  show "ap_factory p' = ap_factory p" by (simp add: p')
  have "length as = length (ap_idle p)" using k(2) by (metis length_map)
  then show "pool_inv R rinv mapped p' m' outs"
    using pool_inv_mem [OF inv, of m'] k(1) r unfolding pool_inv_def by (simp add: p')
qed

end

section \<open>Runs\<close>

datatype pool_event = Take | Refuse | Give | Warm usize | Clear | Release | Work

inductive pool_step ::
  "'b fixed_range \<Rightarrow> ('b, 'w) factory \<Rightarrow> 'b os_backed \<Rightarrow> ('b, 'w) arena_pool \<times> mem \<times> 'b taken \<Rightarrow>
     pool_event \<Rightarrow> ('b, 'w) arena_pool \<times> mem \<times> 'b taken \<Rightarrow> bool" for R F B where
  take: "pool_checkout R F (p, m) = (Inr a, p', m') \<Longrightarrow>
    pool_step R F B (p, m, outs) Take (p', m', (a, {}) # outs)"
| refuse: "pool_checkout R F (p, m) = (Inl e, p', m') \<Longrightarrow> pool_step R F B (p, m, outs) Refuse (p', m', outs)"
| give: "pool_give_back F a (p, m) = (p', m') \<Longrightarrow>
    pool_step R F B (p, m, pre @ (a, L) # post) Give (p', m', pre @ post)"
| warm: "pool_prewarm R F n (p, m) = (r, p', m') \<Longrightarrow> pool_step R F B (p, m, outs) (Warm n) (p', m', outs)"
| clear: "pool_clear F (p, m) = (p', m') \<Longrightarrow> pool_step R F B (p, m, outs) Clear (p', m', outs)"
| release: "pool_release_idle B (p, m) = (p', m') \<Longrightarrow> pool_step R F B (p, m, outs) Release (p', m', outs)"
| work: "client_step (bump_allocator R) (a, m, L) k (a', m', L') \<Longrightarrow>
    pool_step R F B (p, m, pre @ (a, L) # post) Work (p, m', pre @ (a', L') # post)"

inductive pool_run ::
  "'b fixed_range \<Rightarrow> ('b, 'w) factory \<Rightarrow> 'b os_backed \<Rightarrow> ('b, 'w) arena_pool \<times> mem \<times> 'b taken \<Rightarrow>
     pool_event list \<Rightarrow> ('b, 'w) arena_pool \<times> mem \<times> 'b taken \<Rightarrow> bool" for R F B where
  idle: "pool_run R F B s [] s"
| step: "pool_step R F B s e s' \<Longrightarrow> pool_run R F B s' es s'' \<Longrightarrow> pool_run R F B s (e # es) s''"

inductive_cases pool_stepE: "pool_step R F B (p, m, outs) e (p', m', outs')"

definition all_live :: "'b taken \<Rightarrow> live" where
  "all_live outs = (\<Union>o' \<in> set outs. snd o')"

context releasable_minting
begin

lemma pool_step_inv:
  assumes "pool_step R F B (p, m, outs) e (p', m', outs')" "pool_inv R rinv mapped p m outs"
  shows "pool_inv R rinv mapped p' m' outs'"
  using assms(1)
proof (rule pool_stepE, goal_cases)
  case (1 a)
  then show ?case using pool_checkout_inv [OF assms(2)] by fastforce
next
  case (2 err)
  then show ?case using pool_checkout_inv [OF assms(2)] by fastforce
next
  case (3 a pre L post)
  then show ?case using pool_give_back_inv assms(2) by blast
next
  case (4 n r)
  then show ?case using pool_prewarm_inv [OF assms(2)] by blast
next
  case 5
  then show ?case using pool_clear_inv [OF assms(2)] by blast
next
  case 6
  then show ?case using pool_release_inv [OF assms(2)] by blast
next
  case (7 a L k a' L' pre post)
  then show ?case using pool_use_inv(1) assms(2) by blast
qed

lemma pool_run_inv:
  "pool_run R F B (p, m, outs) es (p', m', outs') \<Longrightarrow> pool_inv R rinv mapped p m outs \<Longrightarrow>
     pool_inv R rinv mapped p' m' outs'"
proof (induction "(p, m, outs)" es "(p', m', outs')" arbitrary: p m outs rule: pool_run.induct)
  case (step e s es)
  then show ?case using pool_step_inv by (cases s) blast
qed simp

lemma apart_nth:
  "apart Xs \<Longrightarrow> i < length Xs \<Longrightarrow> j < length Xs \<Longrightarrow> i \<noteq> j \<Longrightarrow> Xs ! i \<inter> Xs ! j = {}"
proof (induction Xs arbitrary: i j)
  case (Cons X Xs)
  then show ?case by (cases i; cases j) (auto simp: Int_commute)
qed simp

lemma pool_live:
  assumes "pool_inv R rinv mapped p m outs"
  shows "live_ok (all_live outs)" "footprint (all_live outs) \<subseteq> taken_own R outs"
proof -
  have b: "bump_inv R rinv (fst (outs ! i)) m (snd (outs ! i))" if "i < length outs" for i
    using assms that nth_mem [OF that] by (cases "outs ! i") (auto simp: pool_inv_def)
  note f = bump_inv_parts(3) [OF b]
  have ap: "apart (map (bump_own R \<circ> fst) outs)" using assms by (auto simp: pool_inv_def pool_ranges_def apart_append)
  have "set outs = (!) outs ` {..<length outs}" by (auto simp: set_conv_nth)
  then have e: "all_live outs = (\<Union>i \<in> {..<length outs}. snd (outs ! i))" by (simp add: all_live_def)
  show "live_ok (all_live outs)" unfolding e
  proof (rule live_ok_UN)
    show "live_ok (snd (outs ! i))" if "i \<in> {..<length outs}" for i
      using b [of i] that by (simp add: bump_inv_def bump_live_def)
    show "footprint (snd (outs ! i)) \<inter> footprint (snd (outs ! j)) = {}"
      if "i \<in> {..<length outs}" "j \<in> {..<length outs}" "i \<noteq> j" for i j
      using apart_nth [OF ap, of i j] f [of i] f [of j] that by fastforce
  qed
  show "footprint (all_live outs) \<subseteq> taken_own R outs"
    unfolding e using f by (fastforce simp: footprint_def taken_own_def in_set_conv_nth)
qed

text \<open>Only a client's own work changes what a live block holds.\<close>

lemma pool_step_frame:
  assumes "pool_step R F B (p, m, outs) e (p', m', outs')" "pool_inv R rinv mapped p m outs" "e \<noteq> Work"
  shows "same_on (footprint (all_live outs \<inter> all_live outs')) m m'"
proof -
  note inv = assms(2) and inv' = pool_step_inv [OF assms(1,2)]
  have "same_on (taken_own R outs) m m' \<or> same_on (taken_own R outs') m m'"
    using assms(1)
  proof (rule pool_stepE, goal_cases)
    case (1 a)
    then show ?case using pool_checkout_inv [OF inv] by blast
  next
    case (2 err)
    then show ?case using pool_checkout_inv [OF inv] by blast
  next
    case (3 a pre L post)
    then show ?case using pool_give_back_inv inv by blast
  next
    case (4 n r)
    then show ?case using pool_prewarm_inv [OF inv] by blast
  next
    case 5
    then show ?case using pool_clear_inv [OF inv] by blast
  next
    case 6
    then show ?case using pool_release_inv [OF inv] by blast
  qed (use assms(3) in simp)
  moreover have "footprint (all_live outs \<inter> all_live outs') \<subseteq> taken_own R outs"
    "footprint (all_live outs \<inter> all_live outs') \<subseteq> taken_own R outs'"
    using pool_live(2) [OF inv] pool_live(2) [OF inv'] footprint_mono [of "all_live outs \<inter> all_live outs'"] by blast+
  ultimately show ?thesis by (blast intro: same_on_mono)
qed

end

text \<open>A schedule of checkouts and returns that never needs more arenas than are idle.\<close>

fun within :: "nat \<Rightarrow> pool_event list \<Rightarrow> bool" where
  "within n [] \<longleftrightarrow> True"
| "within n (Take # es) \<longleftrightarrow> 0 < n \<and> within (n - 1) es"
| "within n (Give # es) \<longleftrightarrow> within (n + 1) es"
| "within n (Work # es) \<longleftrightarrow> within n es"
| "within n (Release # es) \<longleftrightarrow> within n es"
| "within n (e # es) \<longleftrightarrow> False"

context releasable_minting
begin

lemma pool_step_recycles:
  assumes "pool_step R F B (p, m, outs) e (p', m', outs')" "pool_inv R rinv mapped p m outs"
    "within (length (ap_idle p)) (e # es)" "length (ap_idle p) + length outs \<le> unat (ap_cap p)"
  shows "ap_factory p' = ap_factory p \<and> mset (pool_ranges R p' outs') = mset (pool_ranges R p outs) \<and>
    ap_cap p' = ap_cap p \<and> within (length (ap_idle p')) es"
  using assms(1)
proof (rule pool_stepE, goal_cases)
  case (1 a)
  then have "ap_idle p \<noteq> []" using assms(3) by auto
  then obtain as b where as: "ap_idle p = as @ [b]" by (metis rev_exhaust)
  then show ?case using 1 assms(3) by (auto simp: pool_checkout_def pool_ranges_def)
next
  case (3 a pre L post)
  then have "length (ap_idle p) < unat (ap_cap p)" using assms(4) by simp
  then have "idle_count p < ap_cap p" using idle_count_unat [OF assms(2)] by (simp add: word_less_nat_alt)
  then show ?case using 3 assms(3) by (auto simp: pool_give_back_def Let_def pool_ranges_def)
next
  case 6
  note r = pool_release_inv [OF assms(2) 6(3)]
  have "length (pool_ranges R p' outs) = length (pool_ranges R p outs)" using r(4) by simp
  then have "length (ap_idle p') = length (ap_idle p)" by (simp add: pool_ranges_def)
  moreover have "ap_cap p' = ap_cap p" using 6(3) by (auto simp: pool_release_idle_def split: prod.splits)
  ultimately show ?case using r 6 assms(3) by simp
next
  case (7 a L k a' L' pre post)
  then have "bump_own R a' = bump_own R a" using pool_use_inv(3) assms(2) by blast
  then show ?case using 7 assms(3) by (simp add: pool_ranges_def)
qed (use assms(3) in auto)

text \<open>Such a schedule mints nothing and drops nothing: the same ranges go round.\<close>

lemma pool_run_recycles:
  "pool_run R F B (p, m, outs) es (p', m', outs') \<Longrightarrow> pool_inv R rinv mapped p m outs \<Longrightarrow>
     within (length (ap_idle p)) es \<Longrightarrow> length (ap_idle p) + length outs \<le> unat (ap_cap p) \<Longrightarrow>
     ap_factory p' = ap_factory p \<and> mset (pool_ranges R p' outs') = mset (pool_ranges R p outs)"
proof (induction "(p, m, outs)" es "(p', m', outs')" arbitrary: p m outs rule: pool_run.induct)
  case (step e s es)
  obtain q n os where s: "s = (q, n, os)" by (cases s)
  note k = pool_step_recycles [OF step(1) [unfolded s] step.prems(1,2,3)]
  have "size (mset (pool_ranges R q os)) = size (mset (pool_ranges R p outs))" using k by simp
  then have "length (ap_idle q) + length os = length (ap_idle p) + length outs"
    by (simp only: size_mset) (simp add: pool_ranges_def)
  then show ?case
    using step.hyps(3) [OF s pool_step_inv [OF step(1) [unfolded s] step.prems(1)]] k step.prems(3) by simp
qed simp

end

section \<open>Pools of mappings\<close>

text \<open>\<open>ArenaPool::new(cap, || MmapBacked::new(size))\<close>.\<close>

definition mmap_factory :: "target \<Rightarrow> 'k kernel \<Rightarrow> usize \<Rightarrow> ('k mmap_backed, 'k env) factory" where
  "mmap_factory tg K sz = \<lparr>mint = mmap_new tg K sz, discard = mmap_drop K\<rparr>"

locale releasing_kernel = mapping_kernel +
  assumes release_frame: "k_release K p len (k, m) = (ok, k', m') \<Longrightarrow> same_on (- span p len) m m'"
begin

lemma mmap_pool:
  "releasable_minting (mmap_range tg K) mmap_ok (mmap_factory tg K sz) (\<lambda>e. mapped (en_kernel e)) (mmap_os tg K)"
proof (intro releasable_minting.intro arena_minting.intro mmap_range_ok arena_minting_axioms.intro
    releasable_minting_axioms.intro)
  have r: "span (fr_base (mmap_range tg K) b) (fr_size (mmap_range tg K) b) = mmap_own b" for b :: "'a mmap_backed"
    by (simp add: mmap_range_def mmap_own_def)
  fix e m b e' m'
  show "mmap_ok b \<and> span (fr_base (mmap_range tg K) b) (fr_size (mmap_range tg K) b) \<inter> mapped (en_kernel e) = {} \<and>
      mapped (en_kernel e') = mapped (en_kernel e) \<union> span (fr_base (mmap_range tg K) b) (fr_size (mmap_range tg K) b) \<and>
      same_on (mapped (en_kernel e)) m m'" if "mint (mmap_factory tg K sz) (e, m) = (Inr b, e', m')"
  proof -
    note k = mmap_with_flags_ok [OF that [unfolded mmap_factory_def factory.simps mmap_new_def]]
    have "same_on (mapped (en_kernel e)) m m'" by (rule same_on_mono [OF k(8)]) (use k(6) in blast)
    then show ?thesis using k unfolding r by (auto simp: mmap_inv_def)
  qed
  show "mapped (en_kernel e') = mapped (en_kernel e) \<and> same_on (mapped (en_kernel e)) m m'"
    if "mint (mmap_factory tg K sz) (e, m) = (Inl err, e', m')" for err
    using mmap_with_flags_error [OF that [unfolded mmap_factory_def factory.simps mmap_new_def]] by simp
  show "mapped (en_kernel e) - span (fr_base (mmap_range tg K) b) (fr_size (mmap_range tg K) b) \<subseteq> mapped (en_kernel e') \<and>
      same_on (- span (fr_base (mmap_range tg K) b) (fr_size (mmap_range tg K) b)) m m'"
    if "discard (mmap_factory tg K sz) b (e, m) = (e', m')"
    using mmap_drop_frame [OF that [unfolded mmap_factory_def factory.simps]] unfolding r by blast
next
  fix b m b' m'
  assume ok: "mmap_ok b"
    and rl: "os_release_pages (mmap_os tg K) (os_base_ptr (mmap_os tg K) b) (os_region_size (mmap_os tg K) b) (b, m) = (b', m')"
  let ?n = "release_clamp tg b (mm_ptr b) (mm_len b)"
  have le: "?n \<le> mm_len b" by (rule release_clamp_committed(1)) simp
  have "same_on (- span (mm_ptr b) ?n) m m' \<and> mm_ptr b' = mm_ptr b \<and> mm_len b' = mm_len b \<and> mm_committed b' = mm_committed b"
    using rl by (auto simp: mmap_os_def mmap_release_pages_def os_release_def Let_def dest: release_frame
      split: if_splits prod.splits)
  then show "mmap_ok b' \<and> fr_base (mmap_range tg K) b' = fr_base (mmap_range tg K) b \<and>
      fr_size (mmap_range tg K) b' = fr_size (mmap_range tg K) b \<and>
      same_on (- span (fr_base (mmap_range tg K) b) (fr_size (mmap_range tg K) b)) m m'"
    using ok span_mono [OF le] by (auto simp: mmap_ok_def mmap_range_def intro: same_on_mono)
qed

end

end
