(* ===== verification/Recycling_Properties.thy ===== *)
theory Recycling_Properties
  imports Mapping_Properties Arena_Pool
begin

text \<open>
  The properties of \<open>ArenaPool\<close>, with pools of one-page mappings from the small kernel of
  \<open>Mapping_Properties\<close>.
\<close>

section \<open>A pool over the kernel\<close>

interpretation demo_releasing: releasing_kernel demo_kernel demo_mapped
  by unfold_locales (simp add: demo_kernel_def)

interpretation demo_pages: releasable_minting "mmap_range Linux demo_kernel" mmap_ok
  "mmap_factory Linux demo_kernel 100" "\<lambda>e. demo_mapped (en_kernel e)" "mmap_os Linux demo_kernel"
  by (rule demo_releasing.mmap_pool)

abbreviation demo_pool_run where
  "demo_pool_run \<equiv> pool_run (mmap_range Linux demo_kernel) (mmap_factory Linux demo_kernel 100) (mmap_os Linux demo_kernel)"

abbreviation demo_pool_step where
  "demo_pool_step \<equiv> pool_step (mmap_range Linux demo_kernel) (mmap_factory Linux demo_kernel 100) (mmap_os Linux demo_kernel)"

definition page_arena :: "addr mmap_backed bump_arena" where
  "page_arena = \<lparr>ba_backing = demo_mapping 4096, ba_capacity = 4096, ba_cursor = 0\<rparr>"

definition page_pool :: "addr mmap_backed bump_arena list \<Rightarrow> (addr mmap_backed, addr env) arena_pool" where
  "page_pool idle = \<lparr>ap_factory = mm_env (demo_mapping 4096), ap_idle = idle, ap_cap = 1\<rparr>"

definition page_mem :: mem where
  "page_mem = write_bytes zero_mem 4096 0 4096"

lemma demo_pool_steps:
  "demo_pool_step (pool_new 1 demo_env, zero_mem, []) Take (page_pool [], page_mem, [(page_arena, {})])"
  "demo_pool_step (page_pool [], page_mem, [(page_arena, {})]) Give (page_pool [page_arena], page_mem, [])"
  "demo_pool_step (page_pool [page_arena], page_mem, []) Take (page_pool [], page_mem, [(page_arena, {})])"
proof -
  have a: "bump_new (mmap_range Linux demo_kernel) (demo_mapping 4096) = Inr page_arena"
    by (simp add: bump_new_def mmap_range_def demo_mapping_def page_arena_def checked_add_def)
  have m: "mint (mmap_factory Linux demo_kernel 100) (demo_env, zero_mem) =
      (Inr (demo_mapping 4096), mm_env (demo_mapping 4096), page_mem)"
    using demo_map(1) by (simp add: mmap_factory_def page_mem_def)
  show "demo_pool_step (pool_new 1 demo_env, zero_mem, []) Take (page_pool [], page_mem, [(page_arena, {})])"
    by (rule pool_step.take) (simp add: pool_checkout_def pool_new_def pool_mint_def m a page_pool_def)
  show "demo_pool_step (page_pool [], page_mem, [(page_arena, {})]) Give (page_pool [page_arena], page_mem, [])"
    using pool_step.give [of "mmap_factory Linux demo_kernel 100" page_arena "page_pool []" page_mem "page_pool [page_arena]" page_mem
      _ _ "[]" "{}" "[]"]
    by (simp add: pool_give_back_def idle_count_def bump_reset_def page_pool_def page_arena_def)
  show "demo_pool_step (page_pool [page_arena], page_mem, []) Take (page_pool [], page_mem, [(page_arena, {})])"
    by (rule pool_step.take) (simp add: pool_checkout_def page_pool_def)
qed

section \<open>ArenaPool\<close>

text \<open>
  C36. Arenas from an \<open>ArenaPool\<close> are empty when they are checked out and never overlap, however checkouts,
  returns, prewarming, clearing, page releases and the clients' own work in their arenas alternate; all
  blocks live in the arenas handed out stay valid and disjoint, nothing but a client's work changes them,
  and the pool never keeps more arenas than its cap.
\<close>

theorem arena_pool_correct:
  assumes "releasable_minting R rinv F mapped B" "pool_run R F B (pool_new cap w, m, []) es (p, m1, outs)"
    "pool_step R F B (p, m1, outs) e (p', m2, outs')"
  shows "live_ok (all_live outs') \<and> apart (pool_ranges R p' outs') \<and> length (ap_idle p') \<le> unat (ap_cap p') \<and>
    (e = Take \<longrightarrow> (\<exists>a. outs' = (a, {}) # outs \<and> ba_cursor a = 0)) \<and>
    (e \<noteq> Work \<longrightarrow> same_on (footprint (all_live outs \<inter> all_live outs')) m1 m2)"
proof -
  note inv = releasable_minting.pool_run_inv [OF assms(1,2) pool_inv_new]
  note inv' = releasable_minting.pool_step_inv [OF assms(1,3) inv]
  have "\<exists>a. outs' = (a, {}) # outs \<and> ba_cursor a = 0" if "e = Take"
    using assms(3)
  proof (rule pool_stepE, goal_cases)
    case (1 a)
    then show ?case
      using arena_minting.pool_checkout_inv [OF releasable_minting.axioms(1) [OF assms(1)] inv, of "Inr a" p' m2] by simp
  qed (use that in simp_all)
  then show ?thesis
    using releasable_minting.pool_live(1) [OF assms(1) inv'] releasable_minting.pool_step_frame [OF assms(1,3) inv] inv'
    by (simp add: pool_inv_def)
qed

theorem arena_pool_correct_witness:
  "\<exists>p m outs. demo_pool_run (pool_new 1 demo_env, zero_mem, []) [Take, Give] (p, m, outs) \<and>
     demo_pool_step (p, m, outs) Take (page_pool [], page_mem, [(page_arena, {})]) \<and> ba_cursor page_arena = 0"
proof -
  have r: "demo_pool_run (pool_new 1 demo_env, zero_mem, []) [Take, Give] (page_pool [page_arena], page_mem, [])"
    by (rule pool_run.step [OF demo_pool_steps(1) pool_run.step [OF demo_pool_steps(2) pool_run.idle]])
  then show ?thesis
    using demo_pool_steps(3) arena_pool_correct [OF demo_pages.releasable_minting_axioms r demo_pool_steps(3)] by blast
qed

text \<open>
  The steady state needs no system calls: from any reachable state whose arenas fit the cap, a
  schedule of checkouts, returns, work and page releases that never has more checkouts outstanding than
  there were idle arenas mints no backing and drops none, and the same ranges go round.
\<close>

theorem arena_pool_recycles:
  assumes "releasable_minting R rinv F mapped B" "pool_run R F B (pool_new cap w, m, []) es (p, m1, outs)"
    "length (ap_idle p) + length outs \<le> unat (ap_cap p)" "within (length (ap_idle p)) es'"
    "pool_run R F B (p, m1, outs) es' (p', m2, outs')"
  shows "ap_factory p' = ap_factory p \<and> mset (pool_ranges R p' outs') = mset (pool_ranges R p outs)"
  using releasable_minting.pool_run_recycles [OF assms(1,5) _ assms(4,3)]
    releasable_minting.pool_run_inv [OF assms(1,2) pool_inv_new] by blast

theorem arena_pool_recycles_witness:
  "demo_pool_run (page_pool [page_arena], page_mem, []) [Take, Give] (page_pool [page_arena], page_mem, []) \<and>
   mset (pool_ranges (mmap_range Linux demo_kernel) (page_pool []) [(page_arena, {})]) =
     mset (pool_ranges (mmap_range Linux demo_kernel) (page_pool [page_arena]) [])"
proof -
  have r: "demo_pool_run (pool_new 1 demo_env, zero_mem, []) [Take, Give] (page_pool [page_arena], page_mem, [])"
    "demo_pool_run (page_pool [page_arena], page_mem, []) [Take] (page_pool [], page_mem, [(page_arena, {})])"
    "demo_pool_run (page_pool [page_arena], page_mem, []) [Take, Give] (page_pool [page_arena], page_mem, [])"
    by (rule pool_run.step [OF demo_pool_steps(1) pool_run.step [OF demo_pool_steps(2) pool_run.idle]]
        pool_run.step [OF demo_pool_steps(3) pool_run.idle]
        pool_run.step [OF demo_pool_steps(3) pool_run.step [OF demo_pool_steps(2) pool_run.idle]])+
  then show ?thesis
    using arena_pool_recycles [OF demo_pages.releasable_minting_axioms r(1) _ _ r(2)] by (simp add: page_pool_def)
qed

end
