(* ===== verification/Aligned_Column.thy ===== *)
theory Aligned_Column
  imports Backings
begin

text \<open>
  \<open>forge-containers/src/aligned_col.rs\<close>: \<open>AlignedColBuffer<ALIGN>\<close>, a growing byte buffer that keeps its
  data aligned, over the global allocator. The state of an operation is the buffer, the heap's state and
  the memory. \<open>ALIGN\<close> is a parameter, a power of two by the constant assertion of the source.
\<close>

section \<open>State and operations\<close>

record col_buffer =
  co_ptr :: addr
  co_len :: usize
  co_cap :: usize

type_synonym 'g col_state = "col_buffer \<times> 'g \<times> mem"

definition col_new :: "usize \<Rightarrow> col_buffer" where
  "col_new A = \<lparr>co_ptr = A, co_len = 0, co_cap = 0\<rparr>"

definition col_grow_to :: "usize \<Rightarrow> 'g global_alloc \<Rightarrow> usize \<Rightarrow> 'g col_state \<Rightarrow> unit res \<times> 'g col_state" where
  "col_grow_to A G new_cap st =
     (case st of (b, s) \<Rightarrow>
        case from_size_align new_cap A of
          Inl e \<Rightarrow> (Inl AllocError, b, s)
        | Inr new_layout \<Rightarrow>
            let fin = (\<lambda>r. case r of
                  (Inl e, s') \<Rightarrow> (Inl e, b, s')
                | (Inr (p, n), s') \<Rightarrow> (Inr (), b\<lparr>co_ptr := p, co_cap := new_cap\<rparr>, s'))
            in if co_cap b = 0 then fin (gl_allocate G (to_layout new_layout) s)
               else case from_size_align (co_cap b) A of
                      Inl e \<Rightarrow> (Inl AllocError, b, s)
                    | Inr old_layout \<Rightarrow>
                        fin (gl_grow G (co_ptr b) (to_layout old_layout) (to_layout new_layout) s))"

definition col_with_capacity :: "usize \<Rightarrow> 'g global_alloc \<Rightarrow> usize \<Rightarrow> 'g \<times> mem \<Rightarrow> col_buffer res \<times> 'g \<times> mem" where
  "col_with_capacity A G capacity s =
     (if capacity > 0
      then case col_grow_to A G capacity (col_new A, s) of
             (Inl e, b, s') \<Rightarrow> (Inl e, s')
           | (Inr _, b, s') \<Rightarrow> (Inr b, s')
      else (Inr (col_new A), s))"

definition col_as_bytes :: "col_buffer \<Rightarrow> mem \<Rightarrow> u8 list" where
  "col_as_bytes b m = read_list m (co_ptr b) (unat (co_len b))"

text \<open>A typed slice is the list of its elements' bytes.\<close>

definition col_as_typed :: "type_layout \<Rightarrow> col_buffer \<Rightarrow> mem \<Rightarrow> u8 list list option" where
  "col_as_typed T b m =
     (let sz = ty_size T
      in if sz = 0 \<or> co_len b mod sz \<noteq> 0 \<or> co_ptr b mod ty_align T \<noteq> 0 then None
         else Some (map (\<lambda>i. read_list m (co_ptr b + word_of_nat i * sz) (unat sz)) [0..<unat (co_len b div sz)]))"

definition col_clear :: "col_buffer \<Rightarrow> col_buffer" where
  "col_clear b = b\<lparr>co_len := 0\<rparr>"

definition col_reserve :: "usize \<Rightarrow> 'g global_alloc \<Rightarrow> usize \<Rightarrow> 'g col_state \<Rightarrow> unit res \<times> 'g col_state" where
  "col_reserve A G additional st =
     (case st of (b, s) \<Rightarrow>
        case checked_add (co_len b) additional of
          None \<Rightarrow> (Inl AllocError, b, s)
        | Some required \<Rightarrow>
            if required \<le> co_cap b then (Inr (), b, s)
            else col_grow_to A G (max required (saturating_mul (co_cap b) 2)) (b, s))"

definition col_push :: "usize \<Rightarrow> 'g global_alloc \<Rightarrow> u8 \<Rightarrow> 'g col_state \<Rightarrow> unit res \<times> 'g col_state" where
  "col_push A G byte st =
     (case (if co_len (fst st) = co_cap (fst st) then col_reserve A G 1 st else (Inr (), st)) of
        (Inl e, st') \<Rightarrow> (Inl e, st')
      | (Inr _, b, g, m) \<Rightarrow> (Inr (), b\<lparr>co_len := co_len b + 1\<rparr>, g, m(co_ptr b + co_len b := byte)))"

text \<open>The source slice is another allocation; it is given by its bytes.\<close>

definition col_append :: "usize \<Rightarrow> 'g global_alloc \<Rightarrow> u8 list \<Rightarrow> 'g col_state \<Rightarrow> unit res \<times> 'g col_state" where
  "col_append A G bytes st =
     (case col_reserve A G (word_of_nat (length bytes)) st of
        (Inl e, st') \<Rightarrow> (Inl e, st')
      | (Inr _, b, g, m) \<Rightarrow>
          (Inr (), b\<lparr>co_len := co_len b + word_of_nat (length bytes)\<rparr>, g, write_list m (co_ptr b + co_len b) bytes))"

definition col_extend_from_slice :: "usize \<Rightarrow> 'g global_alloc \<Rightarrow> u8 list \<Rightarrow> 'g col_state \<Rightarrow> unit res \<times> 'g col_state" where
  "col_extend_from_slice A G bytes st = col_append A G bytes st"

definition col_extend_from_typed ::
  "usize \<Rightarrow> 'g global_alloc \<Rightarrow> u8 list list \<Rightarrow> 'g col_state \<Rightarrow> unit res \<times> 'g col_state" where
  "col_extend_from_typed A G elems st = col_append A G (concat elems) st"

definition col_drop :: "usize \<Rightarrow> 'g global_alloc \<Rightarrow> 'g col_state \<Rightarrow> ('g \<times> mem) outcome" where
  "col_drop A G st =
     (case st of (b, s) \<Rightarrow>
        if co_cap b = 0 then Done s
        else case from_size_align (co_cap b) A of
               Inl e \<Rightarrow> Panicked
             | Inr lay \<Rightarrow> Done (gl_deallocate G (co_ptr b) (to_layout lay) s))"

section \<open>The invariant\<close>

text \<open>
  The heap's live blocks are those of the rest of the program, \<open>K\<close>, and the buffer's own. The rest of
  the contract is the global allocator's: \<open>System\<close> forwards to it call by call.
\<close>

definition col_inv ::
  "usize \<Rightarrow> ('g \<Rightarrow> mem \<Rightarrow> live \<Rightarrow> bool) \<Rightarrow> col_buffer \<Rightarrow> 'g \<Rightarrow> mem \<Rightarrow> live \<Rightarrow> bool" where
  "col_inv A ginv b g m K \<longleftrightarrow> is_pow2 A \<and> co_len b \<le> co_cap b \<and> unat A dvd unat (co_ptr b) \<and>
     (if co_cap b = 0 then ginv g m K
      else \<exists>lay n. from_size_align (co_cap b) A = Inr lay \<and> (co_ptr b, lay, n) \<notin> K \<and>
        ginv g m (insert (co_ptr b, lay, n) K))"

lemma col_new_inv: "is_pow2 A \<Longrightarrow> ginv g m K \<Longrightarrow> col_inv A ginv (col_new A) g m K"
  by (simp add: col_inv_def col_new_def)

lemma read_list_append:
  "read_list m p (j + k) = read_list m p j @ read_list m (p + word_of_nat j) k"
proof -
  have "[0..<j + k] = [0..<j] @ map (\<lambda>i. i + j) [0..<k]"
    using upt_add_eq_append [of 0 j k] map_add_upt [of j k] by (simp add: add.commute [of k j])
  then show ?thesis by (simp add: read_list_def o_def ac_simps)
qed

locale global_heap = allocator_contract "system_allocator G" ginv
  for G :: "'g global_alloc" and ginv :: "'g \<Rightarrow> mem \<Rightarrow> live \<Rightarrow> bool"
begin

lemma col_block:
  assumes "col_inv A ginv b g m K" "co_cap b \<noteq> 0"
  obtains lay n where "from_size_align (co_cap b) A = Inr lay" "lay_size lay = co_cap b" "lay_align lay = A"
    "(co_ptr b, lay, n) \<notin> K" "ginv g m (insert (co_ptr b, lay, n) K)" "block_ok lay (co_ptr b) n"
    "span (co_ptr b) (co_cap b) \<subseteq> span (co_ptr b) n" "span (co_ptr b) n \<inter> footprint K = {}"
proof -
  obtain lay n where h: "from_size_align (co_cap b) A = Inr lay" "(co_ptr b, lay, n) \<notin> K"
    "ginv g m (insert (co_ptr b, lay, n) K)"
    using assms by (auto simp: col_inv_def)
  have ok: "block_ok lay (co_ptr b) n" using inv_block [OF h(3)] by blast
  have l: "lay_size lay = co_cap b" "lay_align lay = A" using h(1) by (auto simp: from_size_align_Inr)
  have "span (co_ptr b) n \<inter> footprint K = {}"
    using footprint_remove(2) [OF inv_live [OF h(3)], of "co_ptr b" lay n] h(2) by simp
  then show ?thesis using that h ok l block_ok_prefix(2) [OF ok] by simp
qed

lemma col_alignD: "is_pow2 A \<Longrightarrow> from_size_align c A = Inr lay \<Longrightarrow> block_ok lay p n \<Longrightarrow> unat A dvd unat p"
  by (auto simp: from_size_align_Inr dest: block_okD)

lemma read_prefix_cong:
  assumes "same_on (span p c) m m'" "l \<le> c"
  shows "read_list m' p (unat l) = read_list m p (unat l)"
  by (rule read_list_cong) (use assms span_mono [OF assms(2)] unat_64_less [of l] in \<open>auto intro: same_on_mono\<close>)

text \<open>Growing keeps the bytes, whether it succeeds or not.\<close>

lemma col_first_allocation:
  assumes inv: "col_inv A ginv b g m K" and cap: "co_cap b = 0" and nl: "from_size_align new_cap A = Inr nl"
    and al: "gl_allocate G (to_layout nl) (g, m) = (r, g', m')"
  shows "same_on (footprint K) m m' \<and> (case r of
    Inl e \<Rightarrow> col_inv A ginv b g' m' K
  | Inr (p, n) \<Rightarrow> col_inv A ginv (b\<lparr>co_ptr := p, co_cap := new_cap\<rparr>) g' m' K)"
proof -
  have A: "is_pow2 A" and g: "ginv g m K" and len: "co_len b = 0" and al0: "unat A dvd unat (co_ptr b)"
    using inv cap by (auto simp: col_inv_def word_le_nat_alt unat_eq_0)
  have v: "valid_layout nl" "lay_size nl = new_cap" using nl by (auto simp: from_size_align_Inr)
  have "alloc_post ginv K nl m (r, g', m')"
    using allocate [OF g v(1)] al by (simp add: system_allocator_def)
  then show ?thesis
    using A len al0 cap nl v valid_layoutD(1) [OF v(1)] fresh_block [of nl _ _ K]
    by (auto simp: alloc_post_def col_inv_def dest: col_alignD split: sum.splits)
qed

lemma col_regrow:
  assumes inv: "col_inv A ginv b g m K" and cap: "co_cap b \<noteq> 0" "co_cap b < new_cap"
    and ol: "from_size_align (co_cap b) A = Inr ol" and nl: "from_size_align new_cap A = Inr nl"
    and gr: "gl_grow G (co_ptr b) (to_layout ol) (to_layout nl) (g, m) = (r, g', m')"
  shows "same_on (footprint K) m m' \<and> (case r of
    Inl e \<Rightarrow> col_inv A ginv b g' m' K \<and> col_as_bytes b m' = col_as_bytes b m
  | Inr (p, n) \<Rightarrow> col_inv A ginv (b\<lparr>co_ptr := p, co_cap := new_cap\<rparr>) g' m' K \<and>
      col_as_bytes (b\<lparr>co_ptr := p, co_cap := new_cap\<rparr>) m' = col_as_bytes b m)"
proof -
  obtain lay n where k: "from_size_align (co_cap b) A = Inr lay" "lay_size lay = co_cap b" "lay_align lay = A"
    "(co_ptr b, lay, n) \<notin> K" "ginv g m (insert (co_ptr b, lay, n) K)" "block_ok lay (co_ptr b) n"
    "span (co_ptr b) (co_cap b) \<subseteq> span (co_ptr b) n" "span (co_ptr b) n \<inter> footprint K = {}"
    using col_block [OF inv cap(1)] .
  have A: "is_pow2 A" and len: "co_len b \<le> co_cap b" using inv by (auto simp: col_inv_def)
  have v: "valid_layout nl" "lay_size nl = new_cap" "lay_align nl = A" using nl by (auto simp: from_size_align_Inr)
  have ol: "ol = lay" using ol k(1) by simp
  let ?L = "insert (co_ptr b, lay, n) K"
  have K: "?L - {(co_ptr b, lay, n)} = K" using k(4) by simp
  have "resize_post ginv ?L K (co_ptr b) (co_cap b) nl m (Done (r, g', m'))"
    using grow [OF k(5) insertI1 v(1), unfolded K] cap(2) gr by (simp add: k(2,3) v(2,3) system_allocator_def ol)
  note post = this [unfolded resize_post_def]
  show ?thesis
  proof (cases r)
    case (Inl e)
    then have s: "ginv g' m' ?L" "same_on (span (co_ptr b) n \<union> footprint K) m m'" using post by auto
    have "col_inv A ginv b g' m' K" using inv s(1) cap(1) k(1,4) by (auto simp: col_inv_def)
    moreover have "col_as_bytes b m' = col_as_bytes b m"
      unfolding col_as_bytes_def
      by (rule read_prefix_cong [OF same_on_mono [OF s(2)] len]) (use k(7) in blast)
    ultimately show ?thesis using Inl same_on_mono [OF s(2)] by auto
  next
    case (Inr x)
    obtain q j where x: "x = (q, j)" by (cases x)
    have s: "block_ok nl q j" "span q j \<inter> footprint K = {}" "ginv g' m' (insert (q, nl, j) K)"
      "same_on (footprint K) m m'" "\<And>i. i < co_cap b \<Longrightarrow> m' (q + i) = m (co_ptr b + i)"
      using post Inr x by auto
    have "new_cap \<noteq> 0" "co_len b \<le> new_cap" using cap(2) len by auto
    then have "col_inv A ginv (b\<lparr>co_ptr := q, co_cap := new_cap\<rparr>) g' m' K"
      using A s(1,3) nl fresh_block [OF s(1,2)] col_alignD [OF A nl s(1)] by (auto simp: col_inv_def)
    moreover have "m' (q + word_of_nat i) = m (co_ptr b + word_of_nat i)" if "i < unat (co_len b)" for i
    proof (rule s(5))
      have "i < 2 ^ 64" using that unat_64_less [of "co_len b"] by simp
      then show "word_of_nat i < co_cap b"
        using that len by (simp add: word_less_nat_alt word_le_nat_alt unat_word_of_nat)
    qed
    then have "col_as_bytes (b\<lparr>co_ptr := q, co_cap := new_cap\<rparr>) m' = col_as_bytes b m"
      by (simp add: col_as_bytes_def read_list_def)
    ultimately show ?thesis using Inr x s(4) by simp
  qed
qed

lemma col_grow_to_post:
  assumes inv: "col_inv A ginv b g m K" and cap: "co_cap b < new_cap"
    and gr: "col_grow_to A G new_cap (b, g, m) = (r, b', g', m')"
  shows "col_inv A ginv b' g' m' K \<and> same_on (footprint K) m m' \<and> col_as_bytes b' m' = col_as_bytes b m \<and>
    co_len b' = co_len b \<and> (case r of Inl e \<Rightarrow> b' = b | Inr u \<Rightarrow> co_cap b' = new_cap)"
proof (cases "from_size_align new_cap A")
  case (Inl e)
  then show ?thesis using gr inv by (auto simp: col_grow_to_def)
next
  case nl: (Inr nl)
  show ?thesis
  proof (cases "co_cap b = 0")
    case True
    obtain r1 g1 m1 where al: "gl_allocate G (to_layout nl) (g, m) = (r1, g1, m1)"
      by (cases "gl_allocate G (to_layout nl) (g, m)") auto
    have "co_len b = 0" using inv True by (simp add: col_inv_def word_le_nat_alt unat_eq_0)
    then show ?thesis
      using gr nl True al col_first_allocation [OF inv True nl al]
      by (auto simp: col_grow_to_def col_as_bytes_def read_list_def split: sum.splits)
  next
    case False
    obtain ol where ol: "from_size_align (co_cap b) A = Inr ol" using col_block [OF inv False] by metis
    obtain r1 g1 m1 where al: "gl_grow G (co_ptr b) (to_layout ol) (to_layout nl) (g, m) = (r1, g1, m1)"
      by (cases "gl_grow G (co_ptr b) (to_layout ol) (to_layout nl) (g, m)") auto
    show ?thesis
      using gr nl False al ol col_regrow [OF inv False cap ol nl al]
      by (auto simp: col_grow_to_def Let_def split: sum.splits)
  qed
qed

lemma col_reserve_post:
  assumes inv: "col_inv A ginv b g m K" and rs: "col_reserve A G k (b, g, m) = (r, b', g', m')"
  shows "col_inv A ginv b' g' m' K \<and> same_on (footprint K) m m' \<and> col_as_bytes b' m' = col_as_bytes b m \<and>
    co_len b' = co_len b \<and>
    (case r of Inl e \<Rightarrow> b' = b
     | Inr u \<Rightarrow> unat (co_len b) + unat k \<le> unat (co_cap b') \<and>
         (b' = b \<or> min (2 * unat (co_cap b)) (2 ^ 64 - 1) \<le> unat (co_cap b')))"
proof (cases "checked_add (co_len b) k")
  case None
  then show ?thesis using rs inv by (auto simp: col_reserve_def)
next
  case (Some q)
  note u = checked_add_unat [OF Some]
  show ?thesis
  proof (cases "q \<le> co_cap b")
    case True
    then show ?thesis using rs inv Some u by (auto simp: col_reserve_def word_le_nat_alt)
  next
    case False
    let ?c = "max q (saturating_mul (co_cap b) 2)"
    have gr: "col_grow_to A G ?c (b, g, m) = (r, b', g', m')" using rs Some False by (simp add: col_reserve_def)
    have lt: "co_cap b < ?c" using False by (auto simp: max_def)
    have c: "unat q \<le> unat ?c" "min (2 * unat (co_cap b)) (2 ^ 64 - 1) \<le> unat ?c"
      by (auto simp: max_def word_le_nat_alt unat_saturating_mul min_def)
    show ?thesis using col_grow_to_post [OF inv lt gr] c u by (auto split: sum.splits)
  qed
qed

text \<open>Writing behind the last byte appends.\<close>

lemma col_write_post:
  assumes inv: "col_inv A ginv b g m K" and room: "unat (co_len b) + length bytes \<le> unat (co_cap b)"
    and b': "b' = b\<lparr>co_len := co_len b + word_of_nat (length bytes)\<rparr>"
    and m': "m' = write_list m (co_ptr b + co_len b) bytes"
  shows "col_inv A ginv b' g m' K \<and> same_on (footprint K) m m' \<and> col_as_bytes b' m' = col_as_bytes b m @ bytes"
proof (cases "bytes = []")
  case True
  then show ?thesis using inv by (simp add: b' m' write_list_def)
next
  case False
  have lt: "length bytes < 2 ^ 64" using room unat_64_less [of "co_cap b"] by simp
  then have k: "unat (word_of_nat (length bytes) :: usize) = length bytes" by (simp add: unat_word_of_nat)
  have len: "unat (co_len b + word_of_nat (length bytes)) = unat (co_len b) + length bytes"
    using room unat_64_less [of "co_cap b"] by (simp add: unat_plus_if' k)
  have "co_cap b \<noteq> 0" using room False by auto
  then obtain lay n where h: "from_size_align (co_cap b) A = Inr lay" "(co_ptr b, lay, n) \<notin> K"
    "ginv g m (insert (co_ptr b, lay, n) K)" "block_ok lay (co_ptr b) n" "lay_size lay = co_cap b"
    "span (co_ptr b) (co_cap b) \<subseteq> span (co_ptr b) n" "span (co_ptr b) n \<inter> footprint K = {}"
    using col_block [OF inv] by metis
  have nw: "no_wrap (co_ptr b) (co_cap b)" using block_ok_prefix(1) [OF h(4)] h(5) by simp
  have up: "unat (co_ptr b + co_len b) = unat (co_ptr b) + unat (co_len b)"
    using nw room False by (auto simp: no_wrap_def unat_plus_if' neq_Nil_conv)
  have sub: "span (co_ptr b + co_len b) (word_of_nat (length bytes)) \<subseteq> span (co_ptr b) (co_cap b)"
    by (rule span_subset [OF _ nw]) (use up nw room k in \<open>auto simp: no_wrap_def\<close>)
  have off: "same_on (- span (co_ptr b) (co_cap b)) m m'"
    using sub by (auto simp: m' same_on_def intro!: write_list_other)
  have "ginv g m' (insert (co_ptr b, lay, n) K)"
    by (rule user_write [OF h(3) same_on_mono [OF off]]) (use h(6) in auto)
  moreover have "co_len b + word_of_nat (length bytes) \<le> co_cap b" using len room by (simp add: word_le_nat_alt)
  ultimately have "col_inv A ginv b' g m' K"
    using inv h(1,2) \<open>co_cap b \<noteq> 0\<close> by (auto simp: col_inv_def b')
  moreover have "same_on (footprint K) m m'" by (rule same_on_mono [OF off]) (use h(6,7) in blast)
  moreover have "col_as_bytes b' m' = col_as_bytes b m @ bytes"
  proof -
    have "span (co_ptr b) (co_len b) \<inter> span (co_ptr b + co_len b) (word_of_nat (length bytes)) = {}"
      by (rule span_disjointI) (use up nw room k in \<open>auto simp: no_wrap_def\<close>)
    then have "same_on (span (co_ptr b) (co_len b)) m m'"
      by (auto simp: m' same_on_def intro!: write_list_other)
    then have "read_list m' (co_ptr b) (unat (co_len b)) = read_list m (co_ptr b) (unat (co_len b))"
      by (rule read_prefix_cong) simp
    moreover have "read_list m' (co_ptr b + co_len b) (length bytes) = bytes"
      unfolding m' by (rule read_write_list [OF lt])
    ultimately show ?thesis by (simp add: col_as_bytes_def b' len read_list_append)
  qed
  ultimately show ?thesis by blast
qed

lemma col_append_post:
  assumes inv: "col_inv A ginv b g m K" and ap: "col_append A G bytes (b, g, m) = (r, b', g', m')"
    and len: "length bytes < 2 ^ 64"
  shows "col_inv A ginv b' g' m' K \<and> same_on (footprint K) m m' \<and>
    col_as_bytes b' m' = col_as_bytes b m @ (if r = Inr () then bytes else [])"
proof -
  obtain r1 b1 g1 m1 where rs: "col_reserve A G (word_of_nat (length bytes)) (b, g, m) = (r1, b1, g1, m1)"
    by (cases "col_reserve A G (word_of_nat (length bytes)) (b, g, m)") auto
  note p = col_reserve_post [OF inv rs]
  show ?thesis
  proof (cases r1)
    case (Inl e)
    then show ?thesis using ap rs p by (auto simp: col_append_def)
  next
    case (Inr u)
    have "unat (co_len b1) + length bytes \<le> unat (co_cap b1)"
      using p Inr len by (simp add: unat_word_of_nat)
    from col_write_post [OF _ this refl refl] p
    have w: "col_inv A ginv (b1\<lparr>co_len := co_len b1 + word_of_nat (length bytes)\<rparr>) g1
        (write_list m1 (co_ptr b1 + co_len b1) bytes) K"
      "same_on (footprint K) m1 (write_list m1 (co_ptr b1 + co_len b1) bytes)"
      "col_as_bytes (b1\<lparr>co_len := co_len b1 + word_of_nat (length bytes)\<rparr>)
        (write_list m1 (co_ptr b1 + co_len b1) bytes) = col_as_bytes b m @ bytes"
      by auto
    have "same_on (footprint K) m (write_list m1 (co_ptr b1 + co_len b1) bytes)"
      using p w(2) by (blast intro: same_on_trans)
    then show ?thesis using ap rs Inr w(1,3) by (auto simp: col_append_def)
  qed
qed

lemma col_push_is_append:
  assumes inv: "col_inv A ginv b g m K"
  shows "col_push A G byte (b, g, m) = col_append A G [byte] (b, g, m)"
proof -
  have w: "write_list m p [byte] = m(p := byte)" for m and p :: addr
    by (auto simp: write_list_def fun_eq_iff word_less_nat_alt unat_eq_0)
  have "col_reserve A G 1 (b, g, m) = (Inr (), b, g, m)" if "co_len b \<noteq> co_cap b"
  proof -
    have "co_len b \<le> co_cap b" using inv by (simp add: col_inv_def)
    then have lt: "unat (co_len b) < unat (co_cap b)" using that by (simp add: word_le_nat_alt word_unat_eq_iff)
    then have "unat (co_len b) + 1 < 2 ^ 64" using unat_64_less [of "co_cap b"] by simp
    then have "checked_add (co_len b) 1 = Some (co_len b + 1)" "unat (co_len b + 1) = unat (co_len b) + 1"
      by (simp_all add: checked_add_def unat_plus_if')
    then show ?thesis using lt by (simp add: col_reserve_def word_le_nat_alt)
  qed
  then show ?thesis
    by (cases "co_len b = co_cap b") (auto simp: col_push_def col_append_def w split: sum.splits prod.splits)
qed

lemma col_drop_post:
  assumes inv: "col_inv A ginv b g m K"
  shows "\<exists>g' m'. col_drop A G (b, g, m) = Done (g', m') \<and> ginv g' m' K \<and> same_on (footprint K) m m'"
proof (cases "co_cap b = 0")
  case True
  then show ?thesis using inv by (simp add: col_drop_def col_inv_def)
next
  case False
  then obtain lay n where h: "from_size_align (co_cap b) A = Inr lay" "(co_ptr b, lay, n) \<notin> K"
    "ginv g m (insert (co_ptr b, lay, n) K)"
    using col_block [OF inv] by metis
  then have "insert (co_ptr b, lay, n) K - {(co_ptr b, lay, n)} = K" by simp
  then show ?thesis
    using deallocate [OF h(3) insertI1] False h(1)
    by (cases "gl_deallocate G (co_ptr b) (to_layout lay) (g, m)")
      (simp add: col_drop_def dealloc_post_def system_allocator_def)
qed

lemma col_clear_inv: "col_inv A ginv b g m K \<Longrightarrow> col_inv A ginv (col_clear b) g m K"
  by (auto simp: col_inv_def col_clear_def)

end

section \<open>Typed contents\<close>

lemma read_chunks:
  "read_list m p (length es * n) = concat es \<Longrightarrow> \<forall>e \<in> set es. length e = n \<Longrightarrow>
     map (\<lambda>i. read_list m (p + word_of_nat i * word_of_nat n) n) [0..<length es] = es"
proof (induction es arbitrary: p)
  case (Cons e es)
  have "read_list m p n @ read_list m (p + word_of_nat n) (length es * n) = e @ concat es"
    using Cons.prems(1) by (simp add: read_list_append)
  then have h: "read_list m p n = e" "read_list m (p + word_of_nat n) (length es * n) = concat es"
    using Cons.prems(2) by auto
  have "map (\<lambda>i. read_list m (p + word_of_nat (Suc i) * word_of_nat n) n) [0..<length es] = es"
    using Cons.IH [OF h(2)] Cons.prems(2) by (simp add: algebra_simps)
  moreover have "[0..<length (e # es)] = 0 # map Suc [0..<length es]" by (simp add: upt_conv_Cons map_Suc_upt del: upt_Suc)
  ultimately show ?case using h(1) by (simp add: o_def del: upt_Suc)
qed simp

lemma col_as_typed_chunks:
  assumes "col_as_bytes b m = concat es" "\<forall>e \<in> set es. length e = unat (ty_size T)" "ty_size T \<noteq> 0"
    "unat (ty_align T) dvd unat (co_ptr b)"
  shows "col_as_typed T b m = Some es"
proof -
  have "length (concat es) = length es * unat (ty_size T)" using assms(2) by (induction es) auto
  then have len: "unat (co_len b) = length es * unat (ty_size T)"
    using arg_cong [OF assms(1), of length] by (simp add: col_as_bytes_def)
  have "unat (co_len b mod ty_size T) = 0" by (simp add: unat_mod len)
  moreover have "unat (co_ptr b mod ty_align T) = 0" using assms(4) by (simp add: unat_mod)
  moreover have "unat (co_len b div ty_size T) = length es"
    using assms(3) by (simp add: unat_div len unat_gt_0)
  ultimately show ?thesis
    using read_chunks [of m "co_ptr b" es "unat (ty_size T)"] assms(1-3)
    by (simp add: col_as_typed_def Let_def col_as_bytes_def len unat_eq_0)
qed

section \<open>Runs of operations\<close>

datatype col_op = Push u8 | Extend "u8 list" | Reserve usize | Clear_All

fun col_exec :: "usize \<Rightarrow> 'g global_alloc \<Rightarrow> col_op \<Rightarrow> 'g col_state \<Rightarrow> unit res \<times> 'g col_state" where
  "col_exec A G (Push v) st = col_push A G v st"
| "col_exec A G (Extend bs) st = col_extend_from_slice A G bs st"
| "col_exec A G (Reserve k) st = col_reserve A G k st"
| "col_exec A G Clear_All (b, s) = (Inr (), col_clear b, s)"

fun col_execs :: "usize \<Rightarrow> 'g global_alloc \<Rightarrow> col_op list \<Rightarrow> 'g col_state \<Rightarrow> unit res list \<times> 'g col_state" where
  "col_execs A G [] st = ([], st)"
| "col_execs A G (x # xs) st =
     (case col_exec A G x st of (r, st') \<Rightarrow> (case col_execs A G xs st' of (rs, st'') \<Rightarrow> (r # rs, st'')))"

text \<open>The same operations on a list of bytes: one that fails does nothing.\<close>

fun bytes_op :: "col_op \<Rightarrow> u8 list \<Rightarrow> u8 list" where
  "bytes_op (Push v) bs = bs @ [v]"
| "bytes_op (Extend vs) bs = bs @ vs"
| "bytes_op (Reserve k) bs = bs"
| "bytes_op Clear_All bs = []"

fun bytes_ops :: "col_op list \<Rightarrow> unit res list \<Rightarrow> u8 list \<Rightarrow> u8 list" where
  "bytes_ops (x # xs) (r # rs) bs = bytes_ops xs rs (if r = Inr () then bytes_op x bs else bs)"
| "bytes_ops _ _ bs = bs"

fun op_ok :: "col_op \<Rightarrow> bool" where
  "op_ok (Extend bs) \<longleftrightarrow> length bs < 2 ^ 64"
| "op_ok _ \<longleftrightarrow> True"

text \<open>How often a run (re)allocates.\<close>

fun growths :: "usize \<Rightarrow> 'g global_alloc \<Rightarrow> col_op list \<Rightarrow> 'g col_state \<Rightarrow> nat" where
  "growths A G [] st = 0"
| "growths A G (x # xs) st =
     (case col_exec A G x st of (r, st') \<Rightarrow>
        (if co_cap (fst st') = co_cap (fst st) then 0 else 1) + growths A G xs st')"

context global_heap
begin

lemma col_exec_post:
  assumes "col_inv A ginv b g m K" "col_exec A G x (b, g, m) = (r, b', g', m')" "op_ok x"
  shows "col_inv A ginv b' g' m' K \<and> same_on (footprint K) m m' \<and>
    col_as_bytes b' m' = (if r = Inr () then bytes_op x (col_as_bytes b m) else col_as_bytes b m)"
proof (cases x)
  case (Push v)
  then show ?thesis
    using col_append_post [OF assms(1), of "[v]"] assms(2) by (simp add: col_push_is_append [OF assms(1)])
next
  case (Extend bs)
  then show ?thesis
    using col_append_post [OF assms(1), of bs] assms(2,3) by (simp add: col_extend_from_slice_def)
next
  case (Reserve k)
  then show ?thesis using col_reserve_post [OF assms(1)] assms(2) by simp
next
  case Clear_All
  then show ?thesis
    using assms(2) col_clear_inv [OF assms(1)] by (auto simp: col_as_bytes_def col_clear_def read_list_def)
qed

lemma col_execs_post:
  "col_execs A G xs (b, g, m) = (rs, b', g', m') \<Longrightarrow> col_inv A ginv b g m K \<Longrightarrow> list_all op_ok xs \<Longrightarrow>
     col_inv A ginv b' g' m' K \<and> same_on (footprint K) m m' \<and>
     col_as_bytes b' m' = bytes_ops xs rs (col_as_bytes b m)"
proof (induction xs arbitrary: b g m rs)
  case (Cons x xs)
  obtain r b1 g1 m1 where x: "col_exec A G x (b, g, m) = (r, b1, g1, m1)" by (cases "col_exec A G x (b, g, m)") auto
  obtain rs1 where xs: "col_execs A G xs (b1, g1, m1) = (rs1, b', g', m')" "rs = r # rs1"
    using Cons.prems(1) x by (auto split: prod.splits)
  have p: "col_inv A ginv b1 g1 m1 K" "same_on (footprint K) m m1"
    "col_as_bytes b1 m1 = (if r = Inr () then bytes_op x (col_as_bytes b m) else col_as_bytes b m)"
    using col_exec_post [OF Cons.prems(2) x] Cons.prems(3) by auto
  note q = Cons.IH [OF xs(1) p(1)]
  show ?case using q p(2,3) xs(2) Cons.prems(3) by (auto intro: same_on_trans)
qed simp

lemma col_cap_bound: "col_inv A ginv b g m K \<Longrightarrow> unat (co_cap b) < 2 ^ 63"
  by (cases "co_cap b = 0") (auto elim!: col_block simp: from_size_align_Inr valid_layout_def)

text \<open>Every (re)allocation at least doubles the capacity.\<close>

lemma col_exec_doubles:
  assumes "col_inv A ginv b g m K" "col_exec A G x (b, g, m) = (r, b', g', m')" "co_cap b' \<noteq> co_cap b"
  shows "2 * unat (co_cap b) \<le> unat (co_cap b')" "0 < unat (co_cap b')"
proof -
  have app: "2 * unat (co_cap b) \<le> unat (co_cap b')" if "col_reserve A G k (b, g, m) = (r1, b1, g1, m1)"
    "co_cap b' = co_cap b1" for k r1 b1 g1 m1
    using col_reserve_post [OF assms(1) that(1)] that(2) assms(3) col_cap_bound [OF assms(1)]
    by (auto simp: min_def split: sum.splits if_splits)
  have app2: "2 * unat (co_cap b) \<le> unat (co_cap b')" if "col_append A G bs (b, g, m) = (r, b', g', m')" for bs
  proof -
    obtain r1 b1 g1 m1 where rs: "col_reserve A G (word_of_nat (length bs)) (b, g, m) = (r1, b1, g1, m1)"
      by (cases "col_reserve A G (word_of_nat (length bs)) (b, g, m)") auto
    show ?thesis by (rule app [OF rs]) (use that rs in \<open>auto simp: col_append_def split: sum.splits\<close>)
  qed
  show *: "2 * unat (co_cap b) \<le> unat (co_cap b')"
  proof (cases x)
    case (Push v)
    have "col_append A G [v] (b, g, m) = (r, b', g', m')"
      using assms(2) Push by (simp add: col_push_is_append [OF assms(1)])
    then show ?thesis by (rule app2)
  next
    case (Extend bs)
    then have "col_append A G bs (b, g, m) = (r, b', g', m')" using assms(2) by (simp add: col_extend_from_slice_def)
    then show ?thesis by (rule app2)
  next
    case (Reserve k)
    then show ?thesis using app [of k r b' g' m'] assms(2) by simp
  qed (use assms(2,3) in \<open>auto simp: col_clear_def\<close>)
  show "0 < unat (co_cap b')" using * assms(3) by (cases "co_cap b' = 0") (auto simp: unat_eq_0 unat_gt_0)
qed

lemma growths_bound:
  "col_execs A G xs (b, g, m) = (rs, b', g', m') \<Longrightarrow> col_inv A ginv b g m K \<Longrightarrow> list_all op_ok xs \<Longrightarrow>
     growths A G xs (b, g, m) = 0 \<and> co_cap b' = co_cap b \<or>
     max 1 (2 * unat (co_cap b)) * 2 ^ (growths A G xs (b, g, m) - 1) \<le> unat (co_cap b')"
proof (induction xs arbitrary: b g m rs)
  case (Cons x xs)
  obtain r b1 g1 m1 where x: "col_exec A G x (b, g, m) = (r, b1, g1, m1)" by (cases "col_exec A G x (b, g, m)") auto
  obtain rs1 where xs: "col_execs A G xs (b1, g1, m1) = (rs1, b', g', m')"
    using Cons.prems(1) x by (auto split: prod.splits)
  have p: "col_inv A ginv b1 g1 m1 K" using col_exec_post [OF Cons.prems(2) x] Cons.prems(3) by auto
  have ih: "growths A G xs (b1, g1, m1) = 0 \<and> co_cap b' = co_cap b1 \<or>
     max 1 (2 * unat (co_cap b1)) * 2 ^ (growths A G xs (b1, g1, m1) - 1) \<le> unat (co_cap b')"
    using Cons.IH [OF xs p] Cons.prems(3) by simp
  show ?case
  proof (cases "co_cap b1 = co_cap b")
    case True
    then show ?thesis using ih x by simp
  next
    case False
    note d = col_exec_doubles [OF Cons.prems(2) x False]
    then have d': "max 1 (2 * unat (co_cap b)) \<le> unat (co_cap b1)" by simp
    let ?n = "growths A G xs (b1, g1, m1)"
    have gr: "growths A G (x # xs) (b, g, m) = Suc ?n" using x False by simp
    have "unat (co_cap b1) * 2 ^ ?n \<le> unat (co_cap b')"
    proof (cases ?n)
      case 0
      then show ?thesis using ih d(2) by auto
    next
      case (Suc k)
      then show ?thesis using ih d(2) by (auto simp: max_def split: if_splits)
    qed
    then have "max 1 (2 * unat (co_cap b)) * 2 ^ ?n \<le> unat (co_cap b')"
      using order.trans [OF mult_le_mono1 [OF d', of "2 ^ ?n"]] by blast
    then show ?thesis unfolding gr by simp
  qed
qed simp

end

end
