(* ===== verification/Column_Properties.thy ===== *)
theory Column_Properties
  imports Examples Aligned_Column
begin

text \<open>
  The properties of \<open>AlignedColBuffer\<close>, with a global allocator made of the 256-byte inline buffer.
\<close>

section \<open>A global allocator\<close>

definition of_std :: "std_layout \<Rightarrow> layout" where
  "of_std l = \<lparr>lay_size = std_size l, lay_align = std_align l\<rparr>"

fun the_done :: "'a outcome \<Rightarrow> 'a" where
  "the_done (Done x) = x"

definition demo_global :: "inline_backed global_alloc" where
  "demo_global =
     \<lparr>gl_allocate = (\<lambda>l. inline_allocate 256 (of_std l)),
      gl_allocate_zeroed = (\<lambda>l. default_allocate_zeroed (inline_allocate 256) (of_std l)),
      gl_deallocate = (\<lambda>p l s. s),
      gl_grow = (\<lambda>p old new s. the_done (default_grow (inline_allocate 256) inline_deallocate p (of_std old) (of_std new) s)),
      gl_shrink = (\<lambda>p old new s. the_done (default_shrink (inline_allocate 256) inline_deallocate p (of_std old) (of_std new) s))\<rparr>"

lemma of_std_to_layout [simp]: "of_std (to_layout l) = l"
  by (simp add: of_std_def to_layout_def)

interpretation demo_heap: global_heap demo_global "inline_inv 256"
proof (intro global_heap.intro allocator_contractI)
  have a: "al_allocate (system_allocator demo_global) = inline_allocate 256"
    "al_deallocate (system_allocator demo_global) = inline_deallocate"
    by (simp_all add: system_allocator_def demo_global_def inline_deallocate_def fun_eq_iff)
  show "allocator_core (al_allocate (system_allocator demo_global)) (al_deallocate (system_allocator demo_global))
      (al_usable_size (system_allocator demo_global)) (inline_inv 256)"
    using allocator_contract.axioms(1) [OF inline.allocator_contract_axioms, of 256]
    unfolding a by (simp add: inline_allocator_def system_allocator_def)
  show "al_allocate_zeroed (system_allocator demo_global) = default_allocate_zeroed (al_allocate (system_allocator demo_global))"
    unfolding a by (simp add: system_allocator_def demo_global_def)
  have d: "Done (the_done (default_grow (inline_allocate 256) inline_deallocate p old new s)) =
      default_grow (inline_allocate 256) inline_deallocate p old new s"
    "Done (the_done (default_shrink (inline_allocate 256) inline_deallocate p old new s)) =
      default_shrink (inline_allocate 256) inline_deallocate p old new s" for p old new s
    by (auto simp: default_grow_def default_shrink_def inline_deallocate_def split: prod.splits sum.splits)
  show "al_grow (system_allocator demo_global) =
      default_grow (al_allocate (system_allocator demo_global)) (al_deallocate (system_allocator demo_global))"
    "al_shrink (system_allocator demo_global) =
      default_shrink (al_allocate (system_allocator demo_global)) (al_deallocate (system_allocator demo_global))"
    unfolding a by (simp_all add: system_allocator_def demo_global_def d fun_eq_iff)
qed (simp add: system_allocator_def)

section \<open>AlignedColBuffer\<close>

text \<open>
  C31. An \<open>AlignedColBuffer\<close> over any correct global allocator refines a list of bytes: after any sequence of
  \<open>push\<close>, \<open>extend_from_slice\<close>, \<open>reserve\<close> and \<open>clear\<close>, its bytes are those of the same sequence on a list,
  a failed operation counting as none; its data is aligned to \<open>ALIGN\<close>, no other memory of the program has
  changed, and dropping it gives back what it took, without a panic.
\<close>

theorem column_refines_list:
  assumes "allocator_contract (system_allocator G) ginv" "is_pow2 A" "ginv g m K" "list_all op_ok xs"
    "col_execs A G xs (col_new A, g, m) = (rs, b, g', m')"
  shows "col_as_bytes b m' = bytes_ops xs rs [] \<and> unat A dvd unat (co_ptr b) \<and> same_on (footprint K) m m' \<and>
    (\<exists>g'' m''. col_drop A G (b, g', m') = Done (g'', m'') \<and> ginv g'' m'' K \<and> same_on (footprint K) m' m'')"
proof -
  note h = global_heap.intro [OF assms(1)]
  have "col_as_bytes (col_new A) m = []" by (simp add: col_as_bytes_def col_new_def read_list_def)
  then have p: "col_inv A ginv b g' m' K" "same_on (footprint K) m m'" "col_as_bytes b m' = bytes_ops xs rs []"
    using global_heap.col_execs_post [OF h assms(5) col_new_inv [where ginv = ginv, OF assms(2,3)] assms(4)] by auto
  then show ?thesis using global_heap.col_drop_post [OF h p(1)] by (simp add: col_inv_def)
qed

lemma demo_layouts:
  "from_size_align 2 16 = Inr \<lparr>lay_size = 2, lay_align = 16\<rparr>" "from_size_align 4 16 = Inr \<lparr>lay_size = 4, lay_align = 16\<rparr>"
  by (simp_all add: from_size_align_def nzl_new_eq)

lemma demo_global_calls:
  "gl_allocate demo_global (to_layout \<lparr>lay_size = 4, lay_align = 16\<rparr>) (demo_inline, m) =
     (Inr (4096, 4), \<lparr>ib_addr = 4096, ib_cursor = 4\<rparr>, m)"
  "gl_allocate demo_global (to_layout \<lparr>lay_size = 2, lay_align = 16\<rparr>) (demo_inline, m) =
     (Inr (4096, 2), \<lparr>ib_addr = 4096, ib_cursor = 2\<rparr>, m)"
  "gl_grow demo_global p (to_layout \<lparr>lay_size = 2, lay_align = 16\<rparr>) (to_layout \<lparr>lay_size = 4, lay_align = 16\<rparr>)
     (\<lparr>ib_addr = 4096, ib_cursor = 2\<rparr>, m) =
     (Inr (4112, 4), \<lparr>ib_addr = 4096, ib_cursor = 20\<rparr>, copy_nonoverlapping m p 4112 2)"
proof -
  have "inline_allocate 256 \<lparr>lay_size = 4, lay_align = 16\<rparr> (\<lparr>ib_addr = 4096, ib_cursor = 2\<rparr>, m) =
      (Inr (4112, 4), \<lparr>ib_addr = 4096, ib_cursor = 20\<rparr>, m)"
    by (simp add: inline_eval)
  then show "gl_grow demo_global p (to_layout \<lparr>lay_size = 2, lay_align = 16\<rparr>) (to_layout \<lparr>lay_size = 4, lay_align = 16\<rparr>)
     (\<lparr>ib_addr = 4096, ib_cursor = 2\<rparr>, m) =
     (Inr (4112, 4), \<lparr>ib_addr = 4096, ib_cursor = 20\<rparr>, copy_nonoverlapping m p 4112 2)"
    by (simp add: demo_global_def default_grow_def inline_deallocate_def)
qed (simp_all add: demo_global_def inline_eval)

lemmas col_eval = col_append_def col_reserve_def col_grow_to_def col_new_def checked_add_def demo_layouts
  demo_global_calls

lemma demo_extend:
  "col_append 16 demo_global [1, 2] (col_new 16, demo_inline, m) =
     (Inr (), \<lparr>co_ptr = 4096, co_len = 2, co_cap = 2\<rparr>, \<lparr>ib_addr = 4096, ib_cursor = 2\<rparr>, write_list m 4096 [1, 2])"
  by (simp add: col_eval saturating_mul_def)

lemma demo_push:
  "\<exists>m'. col_push 16 demo_global 3 (\<lparr>co_ptr = 4096, co_len = 2, co_cap = 2\<rparr>, \<lparr>ib_addr = 4096, ib_cursor = 2\<rparr>, m) =
     (Inr (), \<lparr>co_ptr = 4112, co_len = 3, co_cap = 4\<rparr>, \<lparr>ib_addr = 4096, ib_cursor = 20\<rparr>, m')"
proof -
  have "saturating_mul 2 2 = (4 :: usize)" by (simp add: saturating_mul_def)
  then show ?thesis by (simp add: col_push_def col_eval max_def)
qed

lemma demo_column:
  "\<exists>b g' m'. col_execs 16 demo_global [Extend [1, 2], Push 3] (col_new 16, demo_inline, zero_mem) =
     ([Inr (), Inr ()], b, g', m')"
  using demo_push [of "write_list zero_mem 4096 [1, 2]"] by (auto simp: col_extend_from_slice_def demo_extend)

theorem column_refines_list_witness:
  "\<exists>b g' m'. col_execs 16 demo_global [Extend [1, 2], Push 3] (col_new 16, demo_inline, zero_mem) =
     ([Inr (), Inr ()], b, g', m') \<and> col_as_bytes b m' = [1, 2, 3]"
proof -
  obtain b g' m' where r: "col_execs 16 demo_global [Extend [1, 2], Push 3] (col_new 16, demo_inline, zero_mem) =
      ([Inr (), Inr ()], b, g', m')"
    using demo_column by blast
  have "list_all op_ok [Extend [1, 2], Push 3]" by simp
  from column_refines_list [OF demo_heap.allocator_contract_axioms _ demo_inline_ok this r] r show ?thesis by simp
qed

text \<open>
  C32. Growth is amortised and bounded: whatever sequence of operations is run on a fresh buffer, it allocates
  at most 63 times, since every reallocation at least doubles the capacity.
\<close>

theorem column_growths_bounded:
  assumes "allocator_contract (system_allocator G) ginv" "is_pow2 A" "ginv g m K" "list_all op_ok xs"
    "col_execs A G xs (col_new A, g, m) = (rs, b, g', m')"
  shows "growths A G xs (col_new A, g, m) \<le> 63 \<and>
    (0 < growths A G xs (col_new A, g, m) \<longrightarrow> 2 ^ (growths A G xs (col_new A, g, m) - 1) \<le> unat (co_cap b))"
proof -
  note h = global_heap.intro [OF assms(1)] and i = col_new_inv [where ginv = ginv, OF assms(2,3)]
  let ?n = "growths A G xs (col_new A, g, m)"
  have c: "unat (co_cap b) < 2 ^ 63"
    using global_heap.col_execs_post [OF h assms(5) i assms(4)] global_heap.col_cap_bound [OF h] by blast
  have b: "2 ^ (?n - 1) \<le> unat (co_cap b)" if "0 < ?n"
    using global_heap.growths_bound [OF h assms(5) i assms(4)] that by (simp add: col_new_def)
  have "?n \<le> 63"
  proof (cases "?n")
    case (Suc k)
    then have "(2 :: nat) ^ k < 2 ^ 63" using b c by simp
    then have "k < 63" by (rule power_less_imp_less_exp [rotated]) simp
    then show ?thesis using Suc by simp
  qed simp
  then show ?thesis using b by blast
qed

theorem column_growths_bounded_witness:
  "growths 16 demo_global [Extend [1, 2], Push 3] (col_new 16, demo_inline, zero_mem) \<le> 63"
proof -
  obtain b g' m' where r: "col_execs 16 demo_global [Extend [1, 2], Push 3] (col_new 16, demo_inline, zero_mem) =
      ([Inr (), Inr ()], b, g', m')"
    using demo_column by blast
  have "list_all op_ok [Extend [1, 2], Push 3]" by simp
  from column_growths_bounded [OF demo_heap.allocator_contract_axioms _ demo_inline_ok this r] show ?thesis by simp
qed

text \<open>
  The zero-copy hand-off: a column of any type that \<open>ALIGN\<close> suffices for, built from typed slices in a
  fresh buffer, reads back as exactly those elements through \<open>as_typed\<close>.
\<close>

theorem column_typed_roundtrip:
  assumes "allocator_contract (system_allocator G) ginv" "is_pow2 A" "ginv g m K" "type_ok T" "ty_size T \<noteq> 0"
    "ty_align T \<le> A" "\<forall>e \<in> set xs \<union> set ys. length e = unat (ty_size T)"
    "length (concat xs) < 2 ^ 64" "length (concat ys) < 2 ^ 64"
    "col_extend_from_typed A G xs (col_new A, g, m) = (Inr (), b1, g1, m1)"
    "col_extend_from_typed A G ys (b1, g1, m1) = (Inr (), b2, g2, m2)"
  shows "col_as_typed T b2 m2 = Some (xs @ ys)"
proof -
  note h = global_heap.intro [OF assms(1)] and i = col_new_inv [where ginv = ginv, OF assms(2,3)]
  have "col_as_bytes (col_new A) m = []" by (simp add: col_as_bytes_def col_new_def read_list_def)
  then have 1: "col_inv A ginv b1 g1 m1 K" "col_as_bytes b1 m1 = concat xs"
    using global_heap.col_append_post [OF h i assms(10) [unfolded col_extend_from_typed_def] assms(8)] by auto
  have 2: "col_inv A ginv b2 g2 m2 K" "col_as_bytes b2 m2 = concat (xs @ ys)"
    using global_heap.col_append_post [OF h 1(1) assms(11) [unfolded col_extend_from_typed_def] assms(9)] 1(2) by auto
  have "unat (ty_align T) dvd unat A" using is_pow2_dvd [OF _ assms(2,6)] assms(4) by (simp add: type_ok_def)
  then have "unat (ty_align T) dvd unat (co_ptr b2)" using 2(1) by (auto simp: col_inv_def intro: dvd_trans)
  then show ?thesis using col_as_typed_chunks [OF 2(2) _ assms(5)] assms(7) by simp
qed

definition u16_type :: type_layout where
  "u16_type = \<lparr>ty_size = 2, ty_align = 2\<rparr>"

lemma demo_typed:
  "col_append 16 demo_global [1, 2, 3, 4] (col_new 16, demo_inline, m) =
     (Inr (), \<lparr>co_ptr = 4096, co_len = 4, co_cap = 4\<rparr>, \<lparr>ib_addr = 4096, ib_cursor = 4\<rparr>, write_list m 4096 [1, 2, 3, 4])"
  "col_append 16 demo_global [] (\<lparr>co_ptr = 4096, co_len = 4, co_cap = 4\<rparr>, g, m) =
     (Inr (), \<lparr>co_ptr = 4096, co_len = 4, co_cap = 4\<rparr>, g, write_list m 4100 [])"
  by (simp_all add: col_eval saturating_mul_def)

theorem column_typed_roundtrip_witness:
  "col_as_typed u16_type \<lparr>co_ptr = 4096, co_len = 4, co_cap = 4\<rparr>
     (write_list (write_list zero_mem 4096 [1, 2, 3, 4]) 4100 []) = Some [[1, 2], [3, 4]]"
proof -
  have "type_ok u16_type" by (simp add: type_ok_def u16_type_def)
  from column_typed_roundtrip [OF demo_heap.allocator_contract_axioms _ demo_inline_ok this, of 16 "[[1, 2], [3, 4]]" "[]"]
  show ?thesis
    using demo_typed by (simp add: col_extend_from_typed_def u16_type_def)
qed

end
