(* ===== verification/Huge_Pages.thy ===== *)
theory Huge_Pages
  imports Mmap_Backed Hosted_Blocks Pass_Through
begin

text \<open>
  \<open>forge-alloc/src/backing/huge_page_backed.rs\<close>: \<open>HugePageBacked\<close>, a mapping from the kernel's pool of
  huge pages used bump-style, and \<open>forge-alloc/src/hardening/huge_page.rs\<close>: \<open>HugePageAligned\<close>, which
  aligns the blocks of any \<open>OsBacked\<close> allocator to huge pages and purges only whole ones.
\<close>

section \<open>The system calls\<close>

text \<open>
  Four of the \<open>cfg\<close> cases of \<open>os_map_huge\<close>; Apple Silicon, iOS, Android and the other Unix systems are one,
  \<open>No_Huge_Unix\<close>. The rest of the glue distinguishes only the targets of \<open>Mmap_Backed\<close>.
\<close>

datatype huge_target = Huge_Linux | Mac_x86 | No_Huge_Unix | Huge_Windows

fun plain_target :: "huge_target \<Rightarrow> target" where
  "plain_target Huge_Linux = Linux"
| "plain_target Huge_Windows = Windows"
| "plain_target _ = OtherUnix"

text \<open>
  The mapping call: \<open>mmap\<close> with its flags and file descriptor (address null, readable and writable,
  offset 0), or \<open>VirtualAlloc\<close> with its allocation type.
\<close>

datatype map_call = Mmap u32 u32 | VirtualAlloc u32

type_synonym 'k huge_map = "map_call \<Rightarrow> usize \<Rightarrow> 'k \<times> mem \<Rightarrow> addr option \<times> 'k \<times> mem"

definition default_huge_page_size :: usize where
  "default_huge_page_size = 2 * 1024 * 1024"

definition rounding_granularity :: "huge_target \<Rightarrow> usize \<Rightarrow> usize" where
  "rounding_granularity ht hp_size =
     (if ht = Mac_x86 then let superpage = 2 * 1024 * 1024
                           in if hp_size > superpage then hp_size else superpage
      else hp_size)"

definition encode_huge_size_linux :: "usize \<Rightarrow> u32" where
  "encode_huge_size_linux hp_size = push_bit 26 (word_of_nat (trailing_zeros hp_size))"

text \<open>The call each target makes, or none; the constants are those of the system headers.\<close>

definition huge_call :: "huge_target \<Rightarrow> usize \<Rightarrow> map_call option" where
  "huge_call ht hp_size =
     (case ht of
        Huge_Linux \<Rightarrow> Some (Mmap (0x20 OR 0x2 OR (0x40000 OR encode_huge_size_linux hp_size)) (- 1))
      | Mac_x86 \<Rightarrow> Some (Mmap (0x1000 OR 0x2) 0x10000)
      | No_Huge_Unix \<Rightarrow> None
      | Huge_Windows \<Rightarrow> Some (VirtualAlloc (0x2000 OR 0x1000 OR 0x20000000)))"

definition os_map_huge ::
  "huge_target \<Rightarrow> 'k kernel \<Rightarrow> 'k huge_map \<Rightarrow> usize \<Rightarrow> usize \<Rightarrow> 'k env \<times> mem \<Rightarrow> addr res \<times> 'k env \<times> mem" where
  "os_map_huge ht K H len hp_size st =
     (case st of (e, m) \<Rightarrow>
        case huge_call ht hp_size of
          None \<Rightarrow> (Inl AllocError, capture_synthetic_einval (plain_target ht) e, m)
        | Some call \<Rightarrow>
            (case H call len (en_kernel e, m) of
               (r, k, m') \<Rightarrow>
                 let e' = e\<lparr>en_kernel := k\<rparr>
                 in case r of None \<Rightarrow> (Inl AllocError, mmap_record_os_error K e', m')
                    | Some p \<Rightarrow> (Inr p, e', m')))"

definition os_unmap_huge :: "'k kernel \<Rightarrow> addr \<Rightarrow> usize \<Rightarrow> 'k env \<times> mem \<Rightarrow> 'k env \<times> mem" where
  "os_unmap_huge K p len st =
     (case st of (e, m) \<Rightarrow>
        case k_unmap K p len (en_kernel e, m) of
          (ok, k, m') \<Rightarrow>
            let e' = e\<lparr>en_kernel := k\<rparr> in (if ok then e' else mmap_record_os_error K e', m'))"

definition os_release_pages_huge :: "'k kernel \<Rightarrow> addr \<Rightarrow> usize \<Rightarrow> 'k env \<times> mem \<Rightarrow> 'k env \<times> mem" where
  "os_release_pages_huge K p sz st =
     (case st of (e, m) \<Rightarrow>
        case k_release K p sz (en_kernel e, m) of
          (ok, k, m') \<Rightarrow>
            let e' = e\<lparr>en_kernel := k\<rparr> in (if ok then e' else mmap_record_os_error K e', m'))"

definition os_protect_huge ::
  "huge_target \<Rightarrow> 'k kernel \<Rightarrow> addr \<Rightarrow> usize \<Rightarrow> protect_flags \<Rightarrow> 'k env \<Rightarrow> 'k env" where
  "os_protect_huge ht K p sz f e =
     (let prot = (if ht = Huge_Windows then win32_prot_from_flags f else unix_prot_from_flags f)
      in case k_protect K p sz prot (en_kernel e) of
           (ok, k) \<Rightarrow> let e' = e\<lparr>en_kernel := k\<rparr> in if ok then e' else mmap_record_os_error K e')"

section \<open>HugePageBacked\<close>

record 'k huge_backed =
  hg_ptr :: addr
  hg_len :: usize
  hg_huge_page_size :: usize
  hg_cursor :: usize
  hg_env :: "'k env"

definition huge_with_size ::
  "huge_target \<Rightarrow> 'k kernel \<Rightarrow> 'k huge_map \<Rightarrow> usize \<Rightarrow> usize \<Rightarrow> 'k env \<times> mem \<Rightarrow>
     'k huge_backed res \<times> 'k env \<times> mem" where
  "huge_with_size ht K H min_size hp_size st =
     (case st of (e, m) \<Rightarrow>
        if min_size = 0 \<or> hp_size < 4096 \<or> \<not> is_pow2 hp_size
        then (Inl AllocError, capture_synthetic_einval (plain_target ht) e, m)
        else let granule = rounding_granularity ht hp_size
             in case align_up_checked min_size granule of
                  None \<Rightarrow> (Inl AllocError, capture_synthetic_einval (plain_target ht) e, m)
                | Some len \<Rightarrow>
                    (case os_map_huge ht K H len hp_size (e, m) of
                       (Inl err, st') \<Rightarrow> (Inl err, st')
                     | (Inr p, e', m') \<Rightarrow>
                         (Inr \<lparr>hg_ptr = p, hg_len = len, hg_huge_page_size = granule, hg_cursor = 0, hg_env = e'\<rparr>,
                          e', m')))"

definition huge_new ::
  "huge_target \<Rightarrow> 'k kernel \<Rightarrow> 'k huge_map \<Rightarrow> usize \<Rightarrow> 'k env \<times> mem \<Rightarrow> 'k huge_backed res \<times> 'k env \<times> mem" where
  "huge_new ht K H min_size = huge_with_size ht K H min_size default_huge_page_size"

definition huge_remaining :: "'k huge_backed \<Rightarrow> usize" where
  "huge_remaining b = hg_len b - hg_cursor b"

definition huge_drop :: "'k kernel \<Rightarrow> 'k huge_backed \<Rightarrow> 'k env \<times> mem \<Rightarrow> 'k env \<times> mem" where
  "huge_drop K b st = os_unmap_huge K (hg_ptr b) (hg_len b) st"

definition huge_deallocate :: "'k huge_backed dealloc_fun" where
  "huge_deallocate p lay st = Done st"

definition huge_allocate :: "'k huge_backed alloc_fun" where
  "huge_allocate lay st =
     (case st of (b, m) \<Rightarrow>
        case bump_carve (hg_ptr b) (hg_len b) (hg_cursor b) (lay_align lay) (lay_size lay) of
          Inl e \<Rightarrow> (Inl e, b, m)
        | Inr (aligned_off, end_off) \<Rightarrow>
            (Inr (hg_ptr b + aligned_off, lay_size lay), b\<lparr>hg_cursor := end_off\<rparr>, m))"

definition huge_allocator :: "'k huge_backed allocator" where
  "huge_allocator =
     \<lparr>al_allocate = huge_allocate,
      al_allocate_zeroed = default_allocate_zeroed huge_allocate,
      al_deallocate = huge_deallocate,
      al_grow = default_grow huge_allocate huge_deallocate,
      al_shrink = default_shrink huge_allocate huge_deallocate,
      al_reset = default_reset,
      al_usable_size = default_usable_size,
      al_capacity_bytes = (\<lambda>b. Some (hg_len b)),
      al_corruption_events = default_corruption_events\<rparr>"

definition huge_range :: "'k huge_backed fixed_range" where
  "huge_range = \<lparr>fr_base = hg_ptr, fr_size = hg_len, fr_commit = default_commit\<rparr>"

definition huge_os :: "huge_target \<Rightarrow> 'k kernel \<Rightarrow> 'k huge_backed os_backed" where
  "huge_os ht K =
     \<lparr>os_base_ptr = hg_ptr, os_region_size = hg_len,
      os_release_pages = (\<lambda>p sz (b, m). case os_release_pages_huge K p sz (hg_env b, m) of
        (e, m') \<Rightarrow> (b\<lparr>hg_env := e\<rparr>, m')),
      os_protect = (\<lambda>p sz f (b, m). (b\<lparr>hg_env := os_protect_huge ht K p sz f (hg_env b)\<rparr>, m))\<rparr>"

section \<open>HugePageAligned\<close>

record 'i huge_aligned =
  ha_inner :: 'i
  ha_huge_page_size :: usize

definition huge_put :: "'i \<Rightarrow> 'i huge_aligned \<Rightarrow> 'i huge_aligned" where
  "huge_put i w = w\<lparr>ha_inner := i\<rparr>"

definition aligned_with_size :: "'i \<Rightarrow> usize \<Rightarrow> 'i huge_aligned option" where
  "aligned_with_size inner hp =
     (if \<not> is_pow2 hp \<or> hp < 4096 then None else Some \<lparr>ha_inner = inner, ha_huge_page_size = hp\<rparr>)"

definition hardening_huge_page_size :: "bool \<Rightarrow> usize" where
  "hardening_huge_page_size apple_silicon = (if apple_silicon then 32 * 1024 * 1024 else 2 * 1024 * 1024)"

definition aligned_new :: "bool \<Rightarrow> 'i \<Rightarrow> 'i huge_aligned option" where
  "aligned_new apple_silicon inner = aligned_with_size inner (hardening_huge_page_size apple_silicon)"

definition promote_layout :: "usize \<Rightarrow> layout \<Rightarrow> layout res" where
  "promote_layout hp lay =
     (case from_size_align (lay_size lay) (max (lay_align lay) hp) of Inl e \<Rightarrow> Inl AllocError | Inr l \<Rightarrow> Inr l)"

definition aligned_deallocate :: "'i allocator \<Rightarrow> 'i huge_aligned dealloc_fun" where
  "aligned_deallocate A p lay st =
     (case promote_layout (ha_huge_page_size (fst st)) lay of
        Inl e \<Rightarrow> Panicked
      | Inr inflated \<Rightarrow> via_out ha_inner huge_put (al_deallocate A p inflated) st)"

definition aligned_allocate :: "'i allocator \<Rightarrow> 'i huge_aligned alloc_fun" where
  "aligned_allocate A lay st =
     (case promote_layout (ha_huge_page_size (fst st)) lay of
        Inl e \<Rightarrow> (Inl e, st)
      | Inr inflated \<Rightarrow> via ha_inner huge_put (al_allocate A inflated) st)"

definition aligned_usable_size :: "'i allocator \<Rightarrow> 'i huge_aligned \<Rightarrow> addr \<Rightarrow> layout \<Rightarrow> usize option" where
  "aligned_usable_size A w p lay =
     (case promote_layout (ha_huge_page_size w) lay of
        Inl e \<Rightarrow> None
      | Inr inflated \<Rightarrow> al_usable_size A (ha_inner w) p inflated)"

definition aligned_allocator :: "'i allocator \<Rightarrow> 'i huge_aligned allocator" where
  "aligned_allocator A =
     \<lparr>al_allocate = aligned_allocate A,
      al_allocate_zeroed = default_allocate_zeroed (aligned_allocate A),
      al_deallocate = aligned_deallocate A,
      al_grow = default_grow (aligned_allocate A) (aligned_deallocate A),
      al_shrink = default_shrink (aligned_allocate A) (aligned_deallocate A),
      al_reset = default_reset,
      al_usable_size = aligned_usable_size A,
      al_capacity_bytes = (\<lambda>w. al_capacity_bytes A (ha_inner w)),
      al_corruption_events = (\<lambda>w. al_corruption_events A (ha_inner w))\<rparr>"

text \<open>The range a purge of \<open>sz\<close> bytes at \<open>p\<close> comes to.\<close>

definition purge_range :: "usize \<Rightarrow> addr \<Rightarrow> usize \<Rightarrow> (addr \<times> usize) option" where
  "purge_range hp p sz =
     (let mask = hp - 1
      in case checked_add p sz of None \<Rightarrow> None
      | Some end \<Rightarrow>
          case checked_add p mask of None \<Rightarrow> None
          | Some rounded \<Rightarrow>
              let aligned_start = rounded AND NOT mask; aligned_end = end AND NOT mask
              in if aligned_end \<le> aligned_start then None
                 else Some (p + (aligned_start - p), aligned_end - aligned_start))"

definition aligned_release_pages ::
  "'i os_backed \<Rightarrow> addr \<Rightarrow> usize \<Rightarrow> 'i huge_aligned \<times> mem \<Rightarrow> 'i huge_aligned \<times> mem" where
  "aligned_release_pages S p sz st =
     (case st of (w, m) \<Rightarrow>
        case purge_range (ha_huge_page_size w) p sz of
          None \<Rightarrow> (w, m)
        | Some (q, n) \<Rightarrow> (case os_release_pages S q n (ha_inner w, m) of (i, m') \<Rightarrow> (huge_put i w, m')))"

definition aligned_os :: "'i os_backed \<Rightarrow> 'i huge_aligned os_backed" where
  "aligned_os S =
     \<lparr>os_base_ptr = (\<lambda>w. os_base_ptr S (ha_inner w)),
      os_region_size = (\<lambda>w. os_region_size S (ha_inner w)),
      os_release_pages = aligned_release_pages S,
      os_protect = (\<lambda>p sz f (w, m). case os_protect S p sz f (ha_inner w, m) of
        (i, m') \<Rightarrow> (huge_put i w, m'))\<rparr>"

definition aligned_range :: "'i fixed_range \<Rightarrow> 'i huge_aligned fixed_range" where
  "aligned_range R = via_range ha_inner huge_put R"

section \<open>HugePageBacked meets the contract\<close>

definition huge_ok :: "'k huge_backed \<Rightarrow> bool" where
  "huge_ok b \<longleftrightarrow> hg_ptr b \<noteq> 0 \<and> no_wrap (hg_ptr b) (hg_len b)"

definition huge_inv :: "'k huge_backed \<Rightarrow> mem \<Rightarrow> live \<Rightarrow> bool" where
  "huge_inv b m L \<longleftrightarrow> huge_ok b \<and> hg_cursor b \<le> hg_len b \<and> bump_live (hg_ptr b) (hg_cursor b) L"

definition huge_own :: "'k huge_backed \<Rightarrow> addr set" where
  "huge_own b = span (hg_ptr b) (hg_len b)"

lemma huge_allocate_cases:
  assumes inv: "huge_inv b m L" and lay: "valid_layout lay"
    and al: "huge_allocate lay (b, m) = (r, b', m')"
  shows "alloc_post huge_inv L lay m (r, b', m')" "hg_ptr b' = hg_ptr b" "hg_len b' = hg_len b" "m' = m"
proof -
  have i: "hg_ptr b \<noteq> 0" "no_wrap (hg_ptr b) (hg_len b)" "bump_live (hg_ptr b) (hg_cursor b) L"
    using inv by (auto simp: huge_inv_def huge_ok_def)
  show "hg_ptr b' = hg_ptr b" "hg_len b' = hg_len b" "m' = m"
    using al by (auto simp: huge_allocate_def split: sum.splits)
  show "alloc_post huge_inv L lay m (r, b', m')"
  proof (cases "bump_carve (hg_ptr b) (hg_len b) (hg_cursor b) (lay_align lay) (lay_size lay)")
    case (Inl e)
    then have "r = Inl e" "b' = b" "m' = m" using al by (auto simp: huge_allocate_def)
    then show ?thesis using inv by (simp add: alloc_post_def)
  next
    case (Inr x)
    obtain off fin where x: "x = (off, fin)" by (cases x)
    note c = bump_carve_live [OF Inr [unfolded x] lay i]
    show ?thesis
      using inv al c Inr x
      by (auto simp: huge_allocate_def alloc_post_def huge_inv_def huge_ok_def word_le_nat_alt)
  qed
qed

lemma huge_inv_mono: "huge_inv b m L \<Longrightarrow> J \<subseteq> L \<Longrightarrow> huge_inv b m' J"
  by (auto simp: huge_inv_def intro: bump_live_mono)

lemma huge_contract: "allocator_contract huge_allocator huge_inv"
proof (rule allocator_contractI)
  show "allocator_core (al_allocate huge_allocator) (al_deallocate huge_allocator) (al_usable_size huge_allocator) huge_inv"
  proof
    fix b :: "'k huge_backed" and m L lay assume "huge_inv b m L" "valid_layout lay"
    then show "alloc_post huge_inv L lay m (al_allocate huge_allocator lay (b, m))"
      using huge_allocate_cases(1) by (cases "huge_allocate lay (b, m)") (auto simp: huge_allocator_def)
  next
    fix b :: "'k huge_backed" and m L p lay n assume "huge_inv b m L"
    then show "dealloc_post huge_inv (L - {(p, lay, n)}) m (al_deallocate huge_allocator p lay (b, m))"
      by (auto simp: dealloc_post_def huge_deallocate_def huge_allocator_def intro: huge_inv_mono)
  qed (auto simp: default_usable_size_def huge_inv_def bump_live_def huge_allocator_def)
qed (simp_all add: huge_allocator_def)

lemma huge_ranged: "ranged_contract huge_allocator huge_inv huge_range"
proof (rule ranged_contract.intro [OF huge_contract])
  show "fixed_range_contract huge_range (\<lambda>b. \<exists>m L. huge_inv b m L)"
    by unfold_locales (auto simp: huge_range_def huge_inv_def huge_ok_def default_commit_def)
  show "ranged_contract_axioms huge_allocator huge_inv huge_range"
  proof
    fix b :: "'k huge_backed" and m L assume "huge_inv b m L"
    then show "footprint L \<subseteq> span (fr_base huge_range b) (fr_size huge_range b)"
      using bump_live_span by (fastforce simp: huge_inv_def huge_ok_def huge_range_def word_le_nat_alt)
  next
    fix b :: "'k huge_backed" and m L lay r b' m'
    assume "huge_inv b m L" "valid_layout lay" "al_allocate huge_allocator lay (b, m) = (r, b', m')"
    then show "fr_base huge_range b' = fr_base huge_range b \<and> fr_size huge_range b' = fr_size huge_range b"
      using huge_allocate_cases(2,3) [of b m L lay r b' m'] by (simp add: huge_allocator_def huge_range_def)
  qed (auto simp: huge_allocator_def huge_deallocate_def)
qed

interpretation huge: ranged_contract huge_allocator huge_inv huge_range
  by (rule huge_ranged)

section \<open>Constructing and dropping it\<close>

text \<open>The alignment a call's mapping has, \<open>large_page\<close> being the minimum Windows reports.\<close>

fun call_granule :: "nat \<Rightarrow> map_call \<Rightarrow> nat" where
  "call_granule large_page (Mmap flags fd) =
     (if bit flags 18 then 2 ^ unat (drop_bit 26 flags AND 63) else if fd = 0x10000 then 2 ^ 21 else 1)"
| "call_granule large_page (VirtualAlloc kind) = (if bit kind 29 then large_page else 1)"

locale huge_kernel = mapping_kernel K mapped for K :: "'k kernel" and mapped :: "'k \<Rightarrow> addr set" +
  fixes H :: "'k huge_map" and large_page :: nat
  assumes huge_map_ok: "H call len (k, m) = (Some p, k', m') \<Longrightarrow>
      p \<noteq> 0 \<and> no_wrap p len \<and> call_granule large_page call dvd unat p \<and> span p len \<inter> mapped k = {} \<and>
      mapped k' = mapped k \<union> span p len \<and> same_on (- span p len) m m' \<and> (\<forall>a \<in> span p len. m' a = 0)"
    and huge_map_fail: "H call len (k, m) = (None, k', m') \<Longrightarrow> mapped k' = mapped k \<and> m' = m"

text \<open>The flags of Linux select the pool of pages of the size asked for.\<close>

lemma linux_granule:
  assumes "is_pow2 hp" "huge_call Huge_Linux hp = Some call"
  shows "call_granule large_page call = unat hp"
proof -
  obtain k where k: "k < 64" "hp = 2 ^ k" "unat hp = 2 ^ k" using assms(1) by (rule is_pow2E)
  let ?f = "0x20 OR 0x2 OR (0x40000 OR push_bit 26 (word_of_nat k)) :: u32"
  have call: "call = Mmap ?f (- 1)"
    using assms(2) by (auto simp: huge_call_def encode_huge_size_linux_def k(2) trailing_zeros_pow2 [OF k(1)])
  have "bit ?f 18" by (simp add: bit_simps bit_numeral_rec)
  moreover have "drop_bit 26 ?f AND 63 = (word_of_nat k :: u32)"
  proof -
    have low6: "(63 :: u32) = mask 6" by (simp add: mask_eq_exp_minus_1)
    have "drop_bit 26 ?f = drop_bit 26 (push_bit 26 (word_of_nat k))" by simp
    also have "\<dots> AND 63 = take_bit 6 (word_of_nat k :: u32)"
      unfolding low6 by (rule bit_word_eqI) (auto simp: bit_simps)
    also have "\<dots> = word_of_nat k"
      using k(1) by (intro word_unat_eq_iff [THEN iffD2]) (simp add: unsigned_take_bit_eq unat_word_of_nat take_bit_nat_eq_self)
    finally show ?thesis .
  qed
  ultimately show ?thesis using k(1,3) by (simp add: call unat_word_of_nat)
qed

lemma rounding_granularity_ok:
  assumes "is_pow2 hp"
  shows "is_pow2 (rounding_granularity ht hp)" "hp \<le> rounding_granularity ht hp"
    "ht = Mac_x86 \<Longrightarrow> 0x200000 dvd unat (rounding_granularity ht hp)"
proof -
  have s: "is_pow2 0x200000" using is_pow2I [of 21 "0x200000"] by simp
  then show "is_pow2 (rounding_granularity ht hp)" "hp \<le> rounding_granularity ht hp"
    using assms by (auto simp: rounding_granularity_def Let_def)
  show "0x200000 dvd unat (rounding_granularity ht hp)" if "ht = Mac_x86"
    using that is_pow2_dvd [OF s assms] by (auto simp: rounding_granularity_def Let_def)
qed

lemma huge_with_size_Inr:
  assumes "huge_with_size ht K H sz hp (e, m) = (Inr b, e', m')"
  obtains call p k where "is_pow2 hp" "huge_call ht hp = Some call"
    "align_up_checked sz (rounding_granularity ht hp) = Some (hg_len b)"
    "H call (hg_len b) (en_kernel e, m) = (Some p, k, m')" "e' = e\<lparr>en_kernel := k\<rparr>"
    "b = \<lparr>hg_ptr = p, hg_len = hg_len b, hg_huge_page_size = rounding_granularity ht hp, hg_cursor = 0, hg_env = e'\<rparr>"
  using assms
  by (auto simp: huge_with_size_def os_map_huge_def Let_def split: if_splits option.splits prod.splits sum.splits)

context huge_kernel
begin

lemma huge_with_size_ok:
  assumes "huge_with_size ht K H sz hp (e, m) = (Inr b, e', m')"
  shows "huge_inv b m' {}" "unat sz \<le> unat (hg_len b)" "unat (hg_len b) < unat sz + unat (hg_huge_page_size b)"
    "unat (hg_huge_page_size b) dvd unat (hg_len b)" "hp \<le> hg_huge_page_size b"
    "ht = Huge_Linux \<Longrightarrow> unat (hg_huge_page_size b) dvd unat (hg_ptr b)"
    "ht = Mac_x86 \<Longrightarrow> 0x200000 dvd unat (hg_ptr b)" "ht = Huge_Windows \<Longrightarrow> large_page dvd unat (hg_ptr b)"
    "huge_own b \<inter> mapped (en_kernel e) = {}" "mapped (en_kernel e') = mapped (en_kernel e) \<union> huge_own b"
    "same_on (- huge_own b) m m'" "\<forall>a \<in> huge_own b. m' a = 0" "ht \<noteq> No_Huge_Unix" "hg_env b = e'"
proof -
  obtain call p k where c: "is_pow2 hp" "huge_call ht hp = Some call"
    "align_up_checked sz (rounding_granularity ht hp) = Some (hg_len b)"
    "H call (hg_len b) (en_kernel e, m) = (Some p, k, m')" "e' = e\<lparr>en_kernel := k\<rparr>"
    and b: "b = \<lparr>hg_ptr = p, hg_len = hg_len b, hg_huge_page_size = rounding_granularity ht hp, hg_cursor = 0, hg_env = e'\<rparr>"
    using assms by (rule huge_with_size_Inr)
  have f: "hg_ptr b = p" "hg_huge_page_size b = rounding_granularity ht hp" "hg_cursor b = 0" "hg_env b = e'"
    by (subst b; simp)+
  note h = huge_map_ok [OF c(4)] and r = rounding_granularity_ok [OF c(1)]
  note a = align_up_checkedD [OF c(3) r(1)]
  show "huge_inv b m' {}" "unat sz \<le> unat (hg_len b)" "unat (hg_len b) < unat sz + unat (hg_huge_page_size b)"
    "unat (hg_huge_page_size b) dvd unat (hg_len b)" "hp \<le> hg_huge_page_size b"
    "huge_own b \<inter> mapped (en_kernel e) = {}" "mapped (en_kernel e') = mapped (en_kernel e) \<union> huge_own b"
    "same_on (- huge_own b) m m'" "\<forall>a \<in> huge_own b. m' a = 0" "hg_env b = e'"
    using h a r(2) by (simp_all add: f c(5) huge_inv_def huge_ok_def huge_own_def)
  show "ht \<noteq> No_Huge_Unix" using c(2) by (auto simp: huge_call_def)
  show "unat (hg_huge_page_size b) dvd unat (hg_ptr b)" if "ht = Huge_Linux"
    using h linux_granule [OF c(1) c(2) [unfolded that], of large_page] by (simp add: f that rounding_granularity_def)
  show "0x200000 dvd unat (hg_ptr b)" if "ht = Mac_x86"
  proof -
    have "call = Mmap 0x1002 0x10000" using c(2) by (auto simp: huge_call_def that)
    then have "call_granule large_page call = 0x200000" by (simp add: bit_numeral_rec)
    then show ?thesis using h by (simp add: f)
  qed
  show "large_page dvd unat (hg_ptr b)" if "ht = Huge_Windows"
  proof -
    have "call = VirtualAlloc 0x20003000" using c(2) by (auto simp: huge_call_def that)
    then have "call_granule large_page call = large_page" by (simp add: bit_numeral_rec)
    then show ?thesis using h by (simp add: f)
  qed
qed

lemma huge_with_size_error:
  assumes "huge_with_size ht K H sz hp (e, m) = (Inl err, e', m')"
  shows "m' = m" "mapped (en_kernel e') = mapped (en_kernel e)" "mmap_last_os_error e' \<noteq> None"
proof -
  have syn: "m' = m \<and> e' = capture_synthetic_einval (plain_target ht) e \<or>
      (\<exists>call len k. H call len (en_kernel e, m) = (None, k, m') \<and>
         e' = mmap_record_os_error K (e\<lparr>en_kernel := k\<rparr>))"
    using assms unfolding huge_with_size_def os_map_huge_def Let_def
    by (simp split: if_splits option.splits prod.splits sum.splits) (metis prod.inject Inl_Inr_False)
  then show "m' = m" "mapped (en_kernel e') = mapped (en_kernel e)" "mmap_last_os_error e' \<noteq> None"
    by (auto simp: capture_synthetic_einval_def mmap_record_os_error_def capture_os_error_def
        mmap_last_os_error_def dest: huge_map_fail)
qed

lemma huge_drop_frame:
  assumes "huge_drop K b (e, m) = (e', m')"
  shows "mapped (en_kernel e) - huge_own b \<subseteq> mapped (en_kernel e')"
    "mapped (en_kernel e') \<subseteq> mapped (en_kernel e)" "same_on (- huge_own b) m m'"
proof -
  obtain ok k where u: "k_unmap K (hg_ptr b) (hg_len b) (en_kernel e, m) = (ok, k, m')" and e': "en_kernel e' = k"
    using assms
    by (auto simp: huge_drop_def os_unmap_huge_def Let_def mmap_record_os_error_def capture_os_error_def
        split: prod.splits if_splits)
  show "mapped (en_kernel e) - huge_own b \<subseteq> mapped (en_kernel e')"
    "mapped (en_kernel e') \<subseteq> mapped (en_kernel e)" "same_on (- huge_own b) m m'"
    using unmap_ok [OF u] by (auto simp: e' huge_own_def)
qed

end

section \<open>HugePageAligned meets the contract\<close>

text \<open>A block is its own host; the inner allocator knows it under the inflated layout.\<close>

fun huge_hosted :: "usize \<Rightarrow> mem \<Rightarrow> block3 \<Rightarrow> block3 \<Rightarrow> bool" where
  "huge_hosted hp m (p, lay, n) (q, il, k) \<longleftrightarrow>
     valid_layout lay \<and> promote_layout hp lay = Inr il \<and> p = q \<and> n = k"

definition aligned_inv ::
  "('i \<Rightarrow> mem \<Rightarrow> live \<Rightarrow> bool) \<Rightarrow> 'i huge_aligned \<Rightarrow> mem \<Rightarrow> live \<Rightarrow> bool" where
  "aligned_inv iinv w m L \<longleftrightarrow> is_pow2 (ha_huge_page_size w) \<and>
     hosted_inv (huge_hosted (ha_huge_page_size w)) iinv (ha_inner w) m L"

lemma huge_put_simps [simp]:
  "ha_inner (huge_put i w) = i" "ha_huge_page_size (huge_put i w) = ha_huge_page_size w"
  by (simp_all add: huge_put_def)

lemma aligned_with_size_Some:
  "aligned_with_size i hp = Some w \<longleftrightarrow> is_pow2 hp \<and> 4096 \<le> hp \<and> w = \<lparr>ha_inner = i, ha_huge_page_size = hp\<rparr>"
  by (auto simp: aligned_with_size_def)

lemma promote_layout_Inr:
  assumes "promote_layout hp lay = Inr il" "valid_layout lay" "is_pow2 hp"
  shows "valid_layout il" "lay_size il = lay_size lay" "unat (lay_align lay) dvd unat (lay_align il)"
    "unat hp dvd unat (lay_align il)"
proof -
  have il: "valid_layout il" "lay_size il = lay_size lay" "lay_align il = max (lay_align lay) hp"
    using assms(1) by (auto simp: promote_layout_def from_size_align_Inr split: sum.splits)
  then show "valid_layout il" "lay_size il = lay_size lay" by auto
  have "is_pow2 (lay_align lay)" using assms(2) by (rule valid_layoutD(3))
  then show "unat (lay_align lay) dvd unat (lay_align il)" "unat hp dvd unat (lay_align il)"
    using assms(3) is_pow2_dvd [of "lay_align lay" hp] is_pow2_dvd [of hp "lay_align lay"]
    by (auto simp: il(3) max_def)
qed

text \<open>The promotion fails only for a size that no huge-page-aligned layout can have.\<close>

lemma promote_layout_Inl:
  assumes "promote_layout hp lay = Inl e" "valid_layout lay" "is_pow2 hp"
  shows "2 ^ 63 - 1 < unat (lay_size lay) + (unat hp - 1)"
proof (rule ccontr)
  assume b: "\<not> 2 ^ 63 - 1 < unat (lay_size lay) + (unat hp - 1)"
  have "valid_layout \<lparr>lay_size = lay_size lay, lay_align = max (lay_align lay) hp\<rparr>"
    using b assms(2,3) by (auto simp: valid_layout_def max_def)
  from from_size_align_valid [OF this] show False using assms(1) by (simp add: promote_layout_def)
qed

context allocator_contract
begin

lemma huge_hosts: "is_pow2 hp \<Longrightarrow> hosted_blocks A ainv (huge_hosted hp)"
proof
  fix m m' p lay n q il k
  assume hp: "is_pow2 hp" and h: "huge_hosted hp m (p, lay, n) (q, il, k)" and q: "block_ok il q k"
  then have c: "valid_layout lay" "promote_layout hp lay = Inr il" "p = q" "n = k" by auto
  note pl = promote_layout_Inr [OF c(2,1) hp]
  show "block_ok lay p n \<and> span p n \<subseteq> span q k"
    using q pl(2,3) c by (auto simp: block_ok_def)
  show "same_on (span q k - span p n) m m' \<Longrightarrow> huge_hosted hp m' (p, lay, n) (q, il, k)" using c by simp
qed

lemma aligned_allocate_post:
  assumes inv: "aligned_inv ainv w m L" and lay: "valid_layout lay"
  shows "alloc_post (aligned_inv ainv) L lay m (aligned_allocate A lay (w, m))"
proof (cases "promote_layout (ha_huge_page_size w) lay")
  case (Inl e)
  then show ?thesis using inv by (simp add: aligned_allocate_def alloc_post_def)
next
  case il: (Inr il)
  have hp: "is_pow2 (ha_huge_page_size w)" and I: "hosted_inv (huge_hosted (ha_huge_page_size w)) ainv (ha_inner w) m L"
    using inv by (auto simp: aligned_inv_def)
  note v = promote_layout_Inr(1) [OF il lay hp] and H = huge_hosts [OF hp]
  obtain r i m1 where al: "al_allocate A il (ha_inner w, m) = (r, i, m1)"
    by (cases "al_allocate A il (ha_inner w, m)") auto
  show ?thesis
  proof (cases r)
    case (Inl e)
    then show ?thesis
      using hosted_blocks.hosted_refused [OF H I v al [unfolded Inl]] al il hp
      by (simp add: aligned_allocate_def via_def alloc_post_def aligned_inv_def)
  next
    case (Inr x)
    obtain q k where x: "x = (q, k)" by (cases x)
    have "huge_hosted (ha_huge_page_size w) m1 (q, lay, k) (q, il, k)" using lay il by simp
    from hosted_blocks.hosted_allocate [OF H I v al [unfolded Inr x] same_on_refl this] show ?thesis
      using al il Inr x hp by (simp add: aligned_allocate_def via_def alloc_post_def aligned_inv_def)
  qed
qed

lemma aligned_deallocate_post:
  assumes inv: "aligned_inv ainv w m L" and mem: "(p, lay, n) \<in> L"
  shows "dealloc_post (aligned_inv ainv) (L - {(p, lay, n)}) m (aligned_deallocate A p lay (w, m))"
proof -
  have hp: "is_pow2 (ha_huge_page_size w)" and I: "hosted_inv (huge_hosted (ha_huge_page_size w)) ainv (ha_inner w) m L"
    using inv by (auto simp: aligned_inv_def)
  obtain q il k where q: "huge_hosted (ha_huge_page_size w) m (p, lay, n) (q, il, k)"
    and d: "\<And>m1. same_on (- span q k) m m1 \<Longrightarrow> \<exists>i' m'. al_deallocate A q il (ha_inner w, m1) = Done (i', m') \<and>
        hosted_inv (huge_hosted (ha_huge_page_size w)) ainv i' m' (L - {(p, lay, n)}) \<and> same_on (footprint (L - {(p, lay, n)})) m m'"
    using hosted_blocks.hosted_deallocate [OF huge_hosts [OF hp] I mem] by blast
  from d [OF same_on_refl] show ?thesis
    using q hp by (auto simp: aligned_deallocate_def via_out_def dealloc_post_def aligned_inv_def)
qed

lemma aligned_usable_size_ok:
  assumes inv: "aligned_inv ainv w m L" and mem: "(p, lay, n) \<in> L" and us: "aligned_usable_size A w p lay = Some k"
  shows "lay_size lay \<le> k \<and> k \<le> n"
proof -
  obtain host where h: "ainv (ha_inner w) m (host ` L)" "\<forall>b \<in> L. huge_hosted (ha_huge_page_size w) m b (host b)"
    using inv by (auto simp: aligned_inv_def hosted_inv_def)
  obtain q il j where q: "host (p, lay, n) = (q, il, j)" by (cases "host (p, lay, n)")
  then have c: "promote_layout (ha_huge_page_size w) lay = Inr il" "p = q" "n = j" "valid_layout lay"
    using bspec [OF h(2) mem] by auto
  have "(p, il, n) \<in> host ` L" using mem q c(2,3) by force
  then have "lay_size il \<le> k \<and> k \<le> n"
    by (rule usable_size [OF h(1)]) (use us c(1) in \<open>simp add: aligned_usable_size_def\<close>)
  then show ?thesis
    using promote_layout_Inr(2) [OF c(1,4)] inv by (simp add: aligned_inv_def)
qed

lemma aligned_contract: "allocator_contract (aligned_allocator A) (aligned_inv ainv)"
proof (rule allocator_contractI)
  show "allocator_core (al_allocate (aligned_allocator A)) (al_deallocate (aligned_allocator A))
      (al_usable_size (aligned_allocator A)) (aligned_inv ainv)"
    by unfold_locales
      (use hosted_blocks.hosted_live_ok [OF huge_hosts] hosted_blocks.hosted_user_write [OF huge_hosts]
        aligned_allocate_post aligned_deallocate_post aligned_usable_size_ok
        in \<open>auto simp: aligned_allocator_def aligned_inv_def\<close>)
qed (simp_all add: aligned_allocator_def)

text \<open>Every live block starts on a huge page.\<close>

lemma aligned_blocks:
  assumes "aligned_inv ainv w m L" "(p, lay, n) \<in> L"
  shows "unat (ha_huge_page_size w) dvd unat p"
proof -
  obtain host where h: "ainv (ha_inner w) m (host ` L)" "\<forall>b \<in> L. huge_hosted (ha_huge_page_size w) m b (host b)"
    and hp: "is_pow2 (ha_huge_page_size w)"
    using assms(1) by (auto simp: aligned_inv_def hosted_inv_def)
  obtain q il j where q: "host (p, lay, n) = (q, il, j)" by (cases "host (p, lay, n)")
  then have c: "promote_layout (ha_huge_page_size w) lay = Inr il" "p = q" "n = j" "valid_layout lay"
    using bspec [OF h(2) assms(2)] by auto
  have "(p, il, n) \<in> host ` L" using assms(2) q c(2,3) by force
  from inv_block [OF h(1) this] have "unat (lay_align il) dvd unat p" by (simp add: block_ok_def)
  with promote_layout_Inr(4) [OF c(1,4) hp] show ?thesis by (rule dvd_trans)
qed

end

interpretation aligned_huge: hosted_blocks huge_allocator huge_inv "huge_hosted default_huge_page_size"
  using is_pow2I [of 21 "0x200000"] by (intro huge.huge_hosts) (simp add: default_huge_page_size_def)

section \<open>Purges\<close>

lemma no_wrap_page: "is_pow2 h \<Longrightarrow> no_wrap (align_down a h) h"
proof (erule is_pow2E)
  fix k assume k: "k < 64" "h = 2 ^ k" "unat h = 2 ^ k"
  then have "unat (align_down a h) = unat a - unat a mod 2 ^ k" using unat_align_down [OF is_pow2I [OF k(1,2)]] by simp
  also have "\<dots> = 2 ^ k * (unat a div 2 ^ k)" by (simp add: minus_mod_eq_mult_div)
  finally have u: "unat (align_down a h) = 2 ^ k * (unat a div 2 ^ k)" .
  have e: "(2 :: nat) ^ 64 = 2 ^ k * 2 ^ (64 - k)" using k(1) by (simp flip: power_add)
  have "unat a div 2 ^ k < 2 ^ (64 - k)"
    using unat_64_less [of a] unfolding e by (simp add: less_mult_imp_div_less mult.commute)
  then have "2 ^ k * (unat a div 2 ^ k + 1) \<le> (2 :: nat) ^ k * 2 ^ (64 - k)" by (intro mult_le_mono2) simp
  then show ?thesis unfolding no_wrap_def u e k(3) by simp
qed

lemma span_subset_iff:
  assumes "no_wrap p n" "no_wrap q k" "n \<noteq> 0"
  shows "span p n \<subseteq> span q k \<longleftrightarrow> unat q \<le> unat p \<and> unat p + unat n \<le> unat q + unat k"
proof
  assume sub: "span p n \<subseteq> span q k"
  have n: "0 < unat n" using assms(3) by (simp add: unat_gt_0)
  then have "unat (word_of_nat (unat p + unat n - 1) :: addr) = unat p + unat n - 1"
    using assms(1) by (intro unat_word_of_nat) (simp add: no_wrap_def)
  then obtain z :: addr where z: "unat z = unat p + unat n - 1" by blast
  have "p \<in> span q k" "z \<in> span q k"
    using span_base [OF assms(3)] n by (auto intro!: subsetD [OF sub] simp: in_span_iff [OF assms(1)] z)
  then show "unat q \<le> unat p \<and> unat p + unat n \<le> unat q + unat k"
    using n by (auto simp: in_span_iff [OF assms(2)] z)
qed (use assms span_subset in blast)

text \<open>Multiples of the page size: rounding a point down, against a least and a greatest multiple.\<close>

lemma page_within:
  fixes h s :: nat
  assumes h: "0 < h" and s: "s \<le> a" "a < s + h" "h dvd s"
    and lo: "h dvd lo" "P \<le> lo" "lo < P + h" and hi: "h dvd hi" "hi \<le> E" "E < hi + h"
  shows "P \<le> s \<and> s + h \<le> E \<longleftrightarrow> lo \<le> a \<and> a < hi"
proof -
  obtain i j k where d: "s = h * i" "lo = h * j" "hi = h * k" using s(3) lo(1) hi(1) by (auto elim!: dvdE)
  have up: "h * x \<le> h * y" if "x \<le> y" for x y using that by simp
  have down: "h * y + h \<le> h * x" if "\<not> x \<le> y" for x y
    using that up [of "Suc y" x] by simp
  note fs = s(1,2) lo(2,3) hi(2,3) d
  have "P \<le> s \<longleftrightarrow> lo \<le> a"
  proof (cases "j \<le> i")
    case True
    from up [OF this] have "P \<le> s" "lo \<le> a" using fs by linarith+
    then show ?thesis by simp
  next
    case False
    from down [OF this] have "\<not> P \<le> s" "\<not> lo \<le> a" using fs by linarith+
    then show ?thesis by simp
  qed
  moreover have "s + h \<le> E \<longleftrightarrow> a < hi"
  proof (cases "Suc i \<le> k")
    case True
    have "s + h \<le> hi" using up [OF True] by (simp add: d)
    then have "s + h \<le> E" "a < hi" using fs by linarith+
    then show ?thesis by simp
  next
    case False
    have "hi + h \<le> s + h" using down [OF False] by (simp add: d)
    then have "\<not> s + h \<le> E" "\<not> a < hi" using fs by linarith+
    then show ?thesis by simp
  qed
  ultimately show ?thesis by blast
qed

lemma purge_range_exact:
  assumes hp: "is_pow2 hp" and rng: "unat p + unat sz < 2 ^ 64"
  shows "(case purge_range hp p sz of None \<Rightarrow> {} | Some (q, n) \<Rightarrow> span q n) = {a. span (align_down a hp) hp \<subseteq> span p sz}"
    "purge_range hp p sz = Some (q, n) \<Longrightarrow> n \<noteq> 0 \<and> unat hp dvd unat q \<and> unat hp dvd unat n"
proof -
  have h: "0 < unat hp" "hp \<noteq> 0" using is_pow2_pos [OF hp] is_pow2_nz [OF hp] by auto
  have nw: "no_wrap p sz" using rng by (simp add: no_wrap_def)
  define fin where "fin = p + sz"
  have fin: "checked_add p sz = Some fin" "unat fin = unat p + unat sz"
    using rng by (auto simp: fin_def checked_add_def unat_plus_if')
  have inner: "span (align_down a hp) hp \<subseteq> span p sz \<longleftrightarrow>
      unat p \<le> unat (align_down a hp) \<and> unat (align_down a hp) + unat hp \<le> unat fin" for a
    by (simp add: span_subset_iff [OF no_wrap_page [OF hp] nw h(2)] fin(2))
  note ad = align_down_le [OF hp] align_down_gt [OF hp] align_down_dvd [OF hp]
  have "(case purge_range hp p sz of None \<Rightarrow> {} | Some (q, n) \<Rightarrow> span q n) = {a. span (align_down a hp) hp \<subseteq> span p sz} \<and>
    (\<forall>q n. purge_range hp p sz = Some (q, n) \<longrightarrow> n \<noteq> 0 \<and> unat hp dvd unat q \<and> unat hp dvd unat n)"
  proof (cases "checked_add p (hp - 1)")
    case None
    then have "2 ^ 64 \<le> unat p + (unat hp - 1)"
      by (simp add: checked_add_def unat_minus_one_pow2 [OF hp] split: if_splits)
    then have "\<not> span (align_down a hp) hp \<subseteq> span p sz" for a
      using rng unfolding inner fin(2) by linarith
    then show ?thesis using None fin(1) by (simp add: purge_range_def Let_def)
  next
    case (Some r)
    let ?lo = "align_down r hp" and ?hi = "align_down fin hp"
    have al: "align_up_checked p hp = Some ?lo" by (simp add: align_up_checked_def Some)
    note lo = align_up_checkedD [OF al hp]
    have pages: "span (align_down a hp) hp \<subseteq> span p sz \<longleftrightarrow> unat ?lo \<le> unat a \<and> unat a < unat ?hi" for a
      unfolding inner by (rule page_within [OF h(1) ad(1,2,3) lo(3,1,2) ad(3,1,2)])
    have pr: "purge_range hp p sz = (if ?hi \<le> ?lo then None else Some (?lo, ?hi - ?lo))"
      by (simp add: purge_range_def Let_def fin(1) Some align_down_def)
    show ?thesis
    proof (cases "?hi \<le> ?lo")
      case True
      then show ?thesis unfolding pr by (auto simp: pages word_le_nat_alt)
    next
      case False
      then have lt: "unat ?lo < unat ?hi" by (simp add: word_le_nat_alt)
      then have u: "unat (?hi - ?lo) = unat ?hi - unat ?lo" by (simp add: unat_sub word_le_nat_alt)
      have "no_wrap ?lo (?hi - ?lo)" using lt unat_64_less [of ?hi] by (simp add: no_wrap_def u)
      then have "span ?lo (?hi - ?lo) = {a. span (align_down a hp) hp \<subseteq> span p sz}"
        using lt by (auto simp: in_span_iff u pages)
      moreover have "?hi - ?lo \<noteq> 0" using lt by auto
      ultimately show ?thesis
        using False lo(3) ad(3) by (auto simp: pr u dvd_diff_nat)
    qed
  qed
  then show "(case purge_range hp p sz of None \<Rightarrow> {} | Some (q, n) \<Rightarrow> span q n) = {a. span (align_down a hp) hp \<subseteq> span p sz}"
    "purge_range hp p sz = Some (q, n) \<Longrightarrow> n \<noteq> 0 \<and> unat hp dvd unat q \<and> unat hp dvd unat n" by blast+
qed

end
