(* ===== verification/Numa_Local.thy ===== *)
theory Numa_Local
  imports Guard_Page Pass_Through
begin

text \<open>
  \<open>forge-alloc/src/hardening/numa.rs\<close>: node sets as 64-bit masks, placement policies and the arguments of
  \<open>mbind\<close> they come to, and \<open>NumaLocal\<close>, which applies a policy to the region of an \<open>OsBacked\<close> allocator
  once and forwards every call. The \<open>mbind\<close> system call is a parameter.
\<close>

section \<open>Node sets and policies\<close>

record node_set =
  ns_mask :: u64

definition node_empty :: node_set where
  "node_empty = \<lparr>ns_mask = 0\<rparr>"

definition node_single :: "u32 \<Rightarrow> node_set option" where
  "node_single node = (if node \<ge> 64 then None else Some \<lparr>ns_mask = push_bit (unat node) 1\<rparr>)"

definition node_with :: "node_set \<Rightarrow> u32 \<Rightarrow> node_set option" where
  "node_with s node =
     (if node \<ge> 64 then None else Some (s\<lparr>ns_mask := ns_mask s OR push_bit (unat node) 1\<rparr>))"

definition node_is_empty :: "node_set \<Rightarrow> bool" where
  "node_is_empty s \<longleftrightarrow> ns_mask s = 0"

definition leading_zeros :: "u64 \<Rightarrow> nat" where
  "leading_zeros w = length (takeWhile (\<lambda>i. \<not> bit w (63 - i)) [0..<64])"

definition max_node_plus_one :: "node_set \<Rightarrow> u32" where
  "max_node_plus_one s = (if ns_mask s = 0 then 0 else 64 - word_of_nat (leading_zeros (ns_mask s)))"

definition mbind_maxnode :: "node_set \<Rightarrow> u32" where
  "mbind_maxnode s = 64"

datatype numa_policy = Bind node_set | Preferred u32 | Interleaved node_set

definition MPOL_PREFERRED :: u32 where "MPOL_PREFERRED = 1"
definition MPOL_BIND :: u32 where "MPOL_BIND = 2"
definition MPOL_INTERLEAVE :: u32 where "MPOL_INTERLEAVE = 3"

definition mbind_args :: "numa_policy \<Rightarrow> (u32 \<times> u64 \<times> u32) res" where
  "mbind_args policy =
     (case policy of
        Bind s \<Rightarrow> if node_is_empty s then Inl AllocError else Inr (MPOL_BIND, ns_mask s, mbind_maxnode s)
      | Interleaved s \<Rightarrow>
          if node_is_empty s then Inl AllocError else Inr (MPOL_INTERLEAVE, ns_mask s, mbind_maxnode s)
      | Preferred n \<Rightarrow>
          (case node_single n of None \<Rightarrow> Inl AllocError
           | Some s \<Rightarrow> Inr (MPOL_PREFERRED, ns_mask s, mbind_maxnode s)))"

section \<open>NumaLocal\<close>

record 'i numa_local =
  nl_inner :: 'i
  nl_policy :: numa_policy

definition numa_put :: "'i \<Rightarrow> 'i numa_local \<Rightarrow> 'i numa_local" where
  "numa_put i w = w\<lparr>nl_inner := i\<rparr>"

text \<open>\<open>mbind start len mode nodemask maxnode\<close>, with flags 0; it answers whether it succeeded.\<close>

type_synonym 'k mbind = "addr \<Rightarrow> usize \<Rightarrow> u64 \<Rightarrow> u64 \<Rightarrow> u64 \<Rightarrow> 'k \<Rightarrow> bool \<times> 'k"

definition apply_policy ::
  "target \<Rightarrow> 'k kernel \<Rightarrow> 'k mbind \<Rightarrow> 'i os_backed \<Rightarrow> ('i, 'k) env_view \<Rightarrow> 'i \<Rightarrow> u32 \<times> u64 \<times> u32 \<Rightarrow>
     unit res \<times> 'i" where
  "apply_policy tg K mbind S V inner args =
     (if tg \<noteq> Linux then (Inr (), inner)
      else case args of (mode, nodemask, maxnode) \<Rightarrow>
        case mbind (os_base_ptr S inner) (os_region_size S inner) (ucast mode) nodemask (ucast maxnode)
               (en_kernel (ev_get V inner)) of
          (ok, k) \<Rightarrow>
            let e' = (ev_get V inner)\<lparr>en_kernel := k\<rparr>
            in if ok then (Inr (), ev_put V e' inner)
               else (Inl AllocError, ev_put V (mmap_record_os_error K e') inner))"

text \<open>On an error the inner allocator is what the caller of \<open>new\<close> drops.\<close>

definition numa_new ::
  "target \<Rightarrow> 'k kernel \<Rightarrow> 'k mbind \<Rightarrow> 'i os_backed \<Rightarrow> ('i, 'k) env_view \<Rightarrow> 'i \<Rightarrow> numa_policy \<Rightarrow>
     'i numa_local res \<times> 'i" where
  "numa_new tg K mbind S V inner policy =
     (case mbind_args policy of
        Inl e \<Rightarrow> (Inl e, inner)
      | Inr args \<Rightarrow>
          (case apply_policy tg K mbind S V inner args of
             (Inl e, i) \<Rightarrow> (Inl e, i)
           | (Inr u, i) \<Rightarrow> (Inr \<lparr>nl_inner = i, nl_policy = policy\<rparr>, i)))"

definition numa_allocator :: "'i allocator \<Rightarrow> 'i numa_local allocator" where
  "numa_allocator A =
     (let alloc = (\<lambda>lay. via nl_inner numa_put (al_allocate A lay));
          dealloc = (\<lambda>p lay. via_out nl_inner numa_put (al_deallocate A p lay))
      in \<lparr>al_allocate = alloc,
          al_allocate_zeroed = default_allocate_zeroed alloc,
          al_deallocate = dealloc,
          al_grow = default_grow alloc dealloc,
          al_shrink = default_shrink alloc dealloc,
          al_reset = default_reset,
          al_usable_size = (\<lambda>w. al_usable_size A (nl_inner w)),
          al_capacity_bytes = (\<lambda>w. al_capacity_bytes A (nl_inner w)),
          al_corruption_events = (\<lambda>w. al_corruption_events A (nl_inner w))\<rparr>)"

definition numa_os :: "'i os_backed \<Rightarrow> 'i numa_local os_backed" where
  "numa_os S =
     \<lparr>os_base_ptr = (\<lambda>w. os_base_ptr S (nl_inner w)),
      os_region_size = (\<lambda>w. os_region_size S (nl_inner w)),
      os_release_pages = (\<lambda>p sz (w, m). case os_release_pages S p sz (nl_inner w, m) of
        (i, m') \<Rightarrow> (numa_put i w, m')),
      os_protect = (\<lambda>p sz f (w, m). case os_protect S p sz f (nl_inner w, m) of
        (i, m') \<Rightarrow> (numa_put i w, m'))\<rparr>"

definition numa_range :: "'i fixed_range \<Rightarrow> 'i numa_local fixed_range" where
  "numa_range R = via_range nl_inner numa_put R"

text \<open>\<open>getcpu\<close> is another parameter: the node, when the call succeeds.\<close>

definition current_numa_node :: "target \<Rightarrow> ('k \<Rightarrow> u32 option \<times> 'k) \<Rightarrow> 'k \<Rightarrow> u32 option \<times> 'k" where
  "current_numa_node tg getcpu k = (if tg = Linux then getcpu k else (None, k))"

section \<open>What a mask says\<close>

definition nodes :: "node_set \<Rightarrow> nat set" where
  "nodes s = {n. bit (ns_mask s) n}"

fun policy_nodes :: "numa_policy \<Rightarrow> nat set" where
  "policy_nodes (Bind s) = nodes s"
| "policy_nodes (Interleaved s) = nodes s"
| "policy_nodes (Preferred n) = {unat n}"

lemma nodes_empty [simp]: "nodes node_empty = {}"
  by (simp add: nodes_def node_empty_def)

lemma nodes_bound: "n \<in> nodes s \<Longrightarrow> n < 64"
  using bit_imp_le_length [of "ns_mask s" n] by (simp add: nodes_def)

lemma node_is_empty_iff: "node_is_empty s \<longleftrightarrow> nodes s = {}"
  by (auto simp: node_is_empty_def nodes_def intro!: bit_word_eqI)

lemma nodes_inject: "nodes s = nodes t \<longleftrightarrow> s = (t :: node_set)"
  by (cases s, cases t) (auto simp: nodes_def intro!: bit_word_eqI)

lemma node_with_Some:
  "node_with s n = Some s' \<longleftrightarrow> unat n < 64 \<and> nodes s' = insert (unat n) (nodes s)"
proof (cases "unat n < 64")
  case True
  then have "nodes (s\<lparr>ns_mask := ns_mask s OR push_bit (unat n) 1\<rparr>) = insert (unat n) (nodes s)"
    by (auto simp: nodes_def bit_simps)
  then show ?thesis
    using True nodes_inject [of s' "s\<lparr>ns_mask := ns_mask s OR push_bit (unat n) 1\<rparr>"]
    by (auto simp: node_with_def word_le_nat_alt)
qed (simp add: node_with_def word_le_nat_alt)

lemma node_single_Some: "node_single n = Some s \<longleftrightarrow> unat n < 64 \<and> nodes s = {unat n}"
proof -
  have "node_single n = node_with node_empty n"
    by (simp add: node_single_def node_with_def node_empty_def)
  then show ?thesis by (simp add: node_with_Some)
qed

lemma leading_zeros_top:
  assumes "bit w t" "\<And>i. t < i \<Longrightarrow> \<not> bit w i"
  shows "leading_zeros w = 63 - t"
proof -
  have t: "t < 64" using bit_imp_le_length [OF assms(1)] by simp
  have "[0..<64] = [0..<63 - t] @ (63 - t) # [Suc (63 - t)..<64]"
    using t upt_add_eq_append [of 0 "63 - t" "Suc t"] upt_conv_Cons [of "63 - t" 64] by simp
  moreover have "takeWhile (\<lambda>i. \<not> bit w (63 - i)) ([0..<63 - t] @ (63 - t) # [Suc (63 - t)..<64]) = [0..<63 - t]"
    using t assms(1) assms(2) by (subst takeWhile_append2) auto
  ultimately show ?thesis by (simp add: leading_zeros_def)
qed

lemma max_node_plus_one_exact:
  "unat (max_node_plus_one s) = (if nodes s = {} then 0 else Suc (Max (nodes s)))"
proof (cases "nodes s = {}")
  case True
  then show ?thesis by (simp add: max_node_plus_one_def flip: node_is_empty_iff) (simp add: node_is_empty_def)
next
  case False
  have fin: "finite (nodes s)" by (rule finite_subset [of _ "{..<64}"]) (auto dest: nodes_bound)
  let ?t = "Max (nodes s)"
  have t: "bit (ns_mask s) ?t" "?t < 64" using Max_in [OF fin False] nodes_bound by (auto simp: nodes_def)
  have "i \<notin> nodes s" if "?t < i" for i using Max_ge [OF fin, of i] that by auto
  then have "\<not> bit (ns_mask s) i" if "?t < i" for i using that unfolding nodes_def by blast
  from leading_zeros_top [OF t(1) this] have lz: "leading_zeros (ns_mask s) = 63 - ?t" .
  have ne: "ns_mask s \<noteq> 0" using t(1) by auto
  have "(64 :: u32) - word_of_nat (63 - ?t) = word_of_nat (Suc ?t)"
    using t(2) by (simp add: of_nat_diff)
  then show ?thesis
    using False ne t(2) by (simp add: max_node_plus_one_def lz unat_word_of_nat del: of_nat_Suc)
qed

lemma mbind_args_Inr:
  assumes "mbind_args policy = Inr (mode, nodemask, maxnode)"
  shows "{n. bit nodemask n} = policy_nodes policy" "policy_nodes policy \<noteq> {}" "policy_nodes policy \<subseteq> {..<64}" "maxnode = 64"
    "mode = (case policy of Bind s \<Rightarrow> 2 | Preferred n \<Rightarrow> 1 | Interleaved s \<Rightarrow> 3)"
  using assms nodes_bound
  by (auto simp: mbind_args_def node_single_Some node_is_empty_iff mbind_maxnode_def nodes_def
      MPOL_BIND_def MPOL_PREFERRED_def MPOL_INTERLEAVE_def split: numa_policy.splits if_splits option.splits)

lemma mbind_args_Inl: "(\<exists>e. mbind_args policy = Inl e) \<longleftrightarrow> policy_nodes policy = {} \<or> \<not> policy_nodes policy \<subseteq> {..<64}"
  using nodes_bound
  by (cases policy) (auto simp: mbind_args_def node_single_def word_le_nat_alt node_is_empty_iff)

section \<open>The wrapper meets the contract\<close>

lemma numa_contract:
  fixes A :: "'i allocator"
  assumes A: "allocator_contract A ainv"
  shows "allocator_contract (numa_allocator A) (field_inv nl_inner ainv)"
proof (rule allocator_contractI)
  have gp: "nl_inner (numa_put i w) = i" for i and w :: "'i numa_local" by (simp add: numa_put_def)
  have d: "dealloc_post (field_inv nl_inner ainv) (L - {(p, lay, n)}) m
      (via_out nl_inner numa_put (al_deallocate A p lay) (w, m))"
    if "ainv (nl_inner w) m L" "(p, lay, n) \<in> L" for w :: "'i numa_local" and m L p lay n
    by (rule via_dealloc_post [where get = nl_inner and put = numa_put, OF gp])
      (rule allocator_core.deallocate [OF allocator_contract.axioms(1) [OF A] that])
  show "allocator_core (al_allocate (numa_allocator A)) (al_deallocate (numa_allocator A))
      (al_usable_size (numa_allocator A)) (field_inv nl_inner ainv)"
    using via_core [of A ainv nl_inner numa_put, OF A gp d] by (simp add: numa_allocator_def Let_def)
qed (simp_all add: numa_allocator_def Let_def)

end
