(* ===== verification/Page_Properties.thy ===== *)
theory Page_Properties
  imports Mapping_Properties Secure_Regions Huge_Pages Numa_Local
begin

text \<open>
  The properties of \<open>HugePageBacked\<close>, \<open>HugePageAligned\<close> and \<open>NumaLocal\<close>. The examples map huge pages with
  the kernel of \<open>Mapping_Properties\<close>, when its next free address suits the call.
\<close>

section \<open>HugePageBacked\<close>

definition demo_huge_map :: "addr huge_map" where
  "demo_huge_map call len st =
     (if call_granule 0x200000 call dvd unat (fst st) then k_map demo_kernel len False False st
      else (None, st))"

interpretation demo_huge: huge_kernel demo_kernel demo_mapped demo_huge_map "0x200000"
proof
  fix call len k m p k' m'
  assume a: "demo_huge_map call len (k, m) = (Some p, k', m')"
  then have g: "call_granule 0x200000 call dvd unat k"
    and kp: "k_map demo_kernel len False False (k, m) = (Some p, k', m')"
    by (auto simp: demo_huge_map_def split: if_splits)
  have "p = k" using kp by (auto simp: demo_kernel_def split: if_splits)
  then show "p \<noteq> 0 \<and> no_wrap p len \<and> call_granule 0x200000 call dvd unat p \<and> span p len \<inter> demo_mapped k = {} \<and>
      demo_mapped k' = demo_mapped k \<union> span p len \<and> same_on (- span p len) m m' \<and> (\<forall>a \<in> span p len. m' a = 0)"
    using demo.map_ok [OF kp] g by blast
next
  fix call len k m k' m'
  assume "demo_huge_map call len (k, m) = (None, k', m')"
  then show "demo_mapped k' = demo_mapped k \<and> m' = m"
    using demo.map_fail by (auto simp: demo_huge_map_def split: if_splits)
qed

text \<open>
  C30. On every target, a \<open>HugePageBacked\<close> that \<open>with_huge_page_size\<close> builds meets the allocator
  contract with nothing live, over zeroed memory disjoint from all memory in use, whose length is the least
  multiple of the effective page size that covers the request; on Linux the page size encoded in the
  flags is the one asked for, so that the base is aligned to it, and on macOS the base is aligned to the
  2 MiB superpage. A construction that fails (always, on the targets without huge pages) changes no
  memory, maps nothing and leaves an error code.
\<close>

theorem huge_backed_correct:
  assumes "huge_kernel K mapped H large_page" "huge_with_size ht K H sz hp (e, m) = (r, e', m')"
  shows "allocator_contract (huge_allocator :: 'k huge_backed allocator) huge_inv \<and>
    (case r of
       Inl err \<Rightarrow> m' = m \<and> mapped (en_kernel e') = mapped (en_kernel e) \<and> mmap_last_os_error e' \<noteq> None
     | Inr (b :: 'k huge_backed) \<Rightarrow> ht \<noteq> No_Huge_Unix \<and> huge_inv b m' {} \<and> hp \<le> hg_huge_page_size b \<and>
         unat (hg_huge_page_size b) dvd unat (hg_len b) \<and>
         unat sz \<le> unat (hg_len b) \<and> unat (hg_len b) < unat sz + unat (hg_huge_page_size b) \<and>
         (ht = Huge_Linux \<longrightarrow> unat (hg_huge_page_size b) dvd unat (hg_ptr b)) \<and>
         (ht = Mac_x86 \<longrightarrow> 0x200000 dvd unat (hg_ptr b)) \<and>
         huge_own b \<inter> mapped (en_kernel e) = {} \<and> mapped (en_kernel e') = mapped (en_kernel e) \<union> huge_own b \<and>
         same_on (- huge_own b) m m' \<and> (\<forall>a \<in> huge_own b. m' a = 0))"
proof (cases r)
  case (Inl err)
  then show ?thesis
    using huge_contract huge_kernel.huge_with_size_error [OF assms(1) assms(2) [unfolded Inl]] by simp
next
  case (Inr b)
  then show ?thesis
    using huge_contract huge_kernel.huge_with_size_ok [OF assms(1) assms(2) [unfolded Inr]] by simp
qed

lemma is_pow2_huge [simp]: "is_pow2 0x200000" "is_pow2 0x400000"
  using is_pow2I [of 21 "0x200000"] is_pow2I [of 22 "0x400000"] by simp_all

lemmas huge_eval = huge_new_def huge_with_size_def os_map_huge_def rounding_granularity_def
  default_huge_page_size_def align_up_checked_def checked_add_def align_down_def Let_def

lemma demo_huge:
  "huge_new Huge_Linux demo_kernel demo_huge_map 100 (env_at 0x200000, m) =
     (Inr \<lparr>hg_ptr = 0x200000, hg_len = 0x200000, hg_huge_page_size = 0x200000, hg_cursor = 0, hg_env = env_at 0x400000\<rparr>,
      env_at 0x400000, write_bytes m 0x200000 0 0x200000)"
proof -
  obtain call where c: "huge_call Huge_Linux 0x200000 = Some call" by (simp add: huge_call_def)
  have "demo_huge_map call 0x200000 (0x200000, m) = (Some 0x200000, 0x400000, write_bytes m 0x200000 0 0x200000)"
    by (simp add: demo_huge_map_def linux_granule [OF is_pow2_huge(1) c]) (simp add: demo_kernel_def)
  then show ?thesis by (simp add: huge_eval c env_at_def)
qed

theorem huge_backed_correct_witness:
  "huge_inv \<lparr>hg_ptr = 0x200000, hg_len = 0x200000, hg_huge_page_size = 0x200000, hg_cursor = 0, hg_env = env_at 0x400000\<rparr>
     (write_bytes zero_mem 0x200000 0 0x200000) {}"
  using huge_backed_correct [OF demo_huge.huge_kernel_axioms demo_huge [of zero_mem, unfolded huge_new_def]] by simp

text \<open>
  The base need not be aligned to the size that \<open>huge_page_size()\<close> reports: on macOS the size asked for is
  only rounded to, never given to the kernel.
\<close>

lemma huge_base_unaligned:
  "\<exists>b e' m'. huge_with_size Mac_x86 demo_kernel demo_huge_map 100 0x400000 (env_at 0x200000, m) = (Inr b, e', m') \<and>
     hg_huge_page_size b = 0x400000 \<and> \<not> unat (hg_huge_page_size b) dvd unat (hg_ptr b)"
proof -
  have c: "huge_call Mac_x86 0x400000 = Some (Mmap 0x1002 0x10000)" by (simp add: huge_call_def)
  have "demo_huge_map (Mmap 0x1002 0x10000) 0x400000 (0x200000, m) =
      (Some 0x200000, 0x600000, write_bytes m 0x200000 0 0x400000)"
    by (simp add: demo_huge_map_def bit_numeral_rec) (simp add: demo_kernel_def)
  then show ?thesis by (simp add: huge_eval c env_at_def)
qed

section \<open>HugePageAligned\<close>

text \<open>
  Every \<open>HugePageAligned\<close> over an allocator that meets the contract meets it too, with \<open>deallocate\<close>
  never panicking, and each of its live blocks starts on a huge-page boundary.
\<close>

theorem huge_aligned_correct:
  assumes "allocator_contract A ainv" "ainv i m {}" "aligned_with_size i hp = Some w"
  shows "allocator_contract (aligned_allocator A) (aligned_inv ainv) \<and> aligned_inv ainv w m {} \<and>
    (\<forall>w' m' L. aligned_inv ainv w' m' L \<longrightarrow> (\<forall>(p, lay, n) \<in> L. unat (ha_huge_page_size w') dvd unat p))"
  using allocator_contract.aligned_contract [OF assms(1)] allocator_contract.aligned_blocks [OF assms(1)] assms(2,3)
  by (fastforce simp: aligned_with_size_Some aligned_inv_def)

theorem huge_aligned_correct_witness:
  "allocator_contract (aligned_allocator (inline_allocator 256)) (aligned_inv (inline_inv 256)) \<and>
   aligned_inv (inline_inv 256) \<lparr>ha_inner = demo_inline, ha_huge_page_size = 0x200000\<rparr> zero_mem {}"
proof -
  have "aligned_with_size demo_inline 0x200000 = Some \<lparr>ha_inner = demo_inline, ha_huge_page_size = 0x200000\<rparr>"
    by (simp add: aligned_with_size_Some)
  from huge_aligned_correct [OF inline.allocator_contract_axioms demo_inline_ok this] show ?thesis by blast
qed

text \<open>
  C29. A purge through \<open>HugePageAligned\<close> never splits a huge page and wastes none: the range it passes
  on consists of exactly the huge pages that lie wholly inside the range asked for, and when there are
  none the inner allocator is not called.
\<close>

theorem huge_purge_exact:
  assumes "is_pow2 (ha_huge_page_size w)" "unat p + unat sz < 2 ^ 64"
  shows "\<exists>q n. span q n = {a. span (align_down a (ha_huge_page_size w)) (ha_huge_page_size w) \<subseteq> span p sz} \<and>
    unat (ha_huge_page_size w) dvd unat n \<and>
    aligned_release_pages S p sz (w, m) =
      (if n = 0 then (w, m)
       else case os_release_pages S q n (ha_inner w, m) of (i, m') \<Rightarrow> (huge_put i w, m'))"
proof (cases "purge_range (ha_huge_page_size w) p sz")
  case None
  then have "span p 0 = {a. span (align_down a (ha_huge_page_size w)) (ha_huge_page_size w) \<subseteq> span p sz}"
    using purge_range_exact(1) [OF assms] by (simp add: span_def)
  then show ?thesis using None by (intro exI [of _ p] exI [of _ 0]) (simp add: aligned_release_pages_def)
next
  case (Some x)
  obtain q n where x: "x = (q, n)" by (cases x)
  show ?thesis
    using purge_range_exact [OF assms] Some x
    by (intro exI [of _ q] exI [of _ n]) (simp add: aligned_release_pages_def)
qed

text \<open>Of three and a half pages, the two whole ones go.\<close>

definition demo_aligned :: "addr mmap_backed huge_aligned" where
  "demo_aligned = \<lparr>ha_inner = demo_mapping 4096, ha_huge_page_size = 4096\<rparr>"

theorem huge_purge_exact_witness:
  "\<exists>q n. span q n = {a. span (align_down a 4096) 4096 \<subseteq> span 5000 14000} \<and> unat (4096 :: usize) dvd unat n \<and>
     aligned_release_pages (mmap_os Linux demo_kernel) 5000 14000 (demo_aligned, zero_mem) =
       (if n = 0 then (demo_aligned, zero_mem)
        else case os_release_pages (mmap_os Linux demo_kernel) q n (ha_inner demo_aligned, zero_mem) of
          (i, m') \<Rightarrow> (huge_put i demo_aligned, m'))"
proof -
  have hp: "ha_huge_page_size demo_aligned = 4096" by (simp add: demo_aligned_def)
  have "is_pow2 (ha_huge_page_size demo_aligned)" "unat (5000 :: addr) + unat (14000 :: usize) < 2 ^ 64"
    using is_pow2I [of 12 4096] by (simp_all add: hp)
  from huge_purge_exact [OF this, of "mmap_os Linux demo_kernel" zero_mem] show ?thesis unfolding hp .
qed

section \<open>NumaLocal\<close>

text \<open>
  C38. \<open>NumaLocal::new\<close> binds what was asked for or says so: on every platform it succeeds only for a
  policy of at least one node, all below 64; on Linux it has then made one \<open>mbind\<close> call over the whole
  region, whose mask holds exactly the policy's nodes, and elsewhere none. It fails only for a bad
  policy, with the inner allocator untouched, or because the call was refused, with the kernel's code left
  for \<open>mmap_last_os_error\<close>.
\<close>

theorem numa_binds_exactly:
  assumes "numa_new tg K mbind S V inner policy = (r, i)" "\<And>e b. ev_get V (ev_put V e b) = e"
  shows "case r of
      Inr w \<Rightarrow> nl_inner w = i \<and> nl_policy w = policy \<and> policy_nodes policy \<noteq> {} \<and> policy_nodes policy \<subseteq> {..<64} \<and>
        (if tg = Linux
         then \<exists>mode nodemask k. {n. bit nodemask n} = policy_nodes policy \<and>
           mode = (case policy of Preferred n \<Rightarrow> 1 | Bind s \<Rightarrow> 2 | Interleaved s \<Rightarrow> 3) \<and>
           mbind (os_base_ptr S inner) (os_region_size S inner) mode nodemask 64 (en_kernel (ev_get V inner)) = (True, k) \<and>
           i = ev_put V ((ev_get V inner)\<lparr>en_kernel := k\<rparr>) inner
         else i = inner)
    | Inl err \<Rightarrow>
        (policy_nodes policy = {} \<or> \<not> policy_nodes policy \<subseteq> {..<64}) \<and> i = inner \<or>
        tg = Linux \<and> (\<exists>mode nodemask k.
          mbind (os_base_ptr S inner) (os_region_size S inner) mode nodemask 64 (en_kernel (ev_get V inner)) = (False, k) \<and>
          mmap_last_os_error (ev_get V i) = Some (k_error K k))"
proof (cases "mbind_args policy")
  case (Inl e)
  then show ?thesis using assms(1) mbind_args_Inl [of policy] by (auto simp: numa_new_def)
next
  case (Inr args)
  obtain mode nodemask maxnode where a: "args = (mode, nodemask, maxnode)" by (cases args)
  note b = mbind_args_Inr [OF Inr [unfolded a]]
  have mode: "ucast mode = (case policy of Preferred n \<Rightarrow> 1 | Bind s \<Rightarrow> 2 | Interleaved s \<Rightarrow> (3 :: u64))"
    by (simp add: b(5) split: numa_policy.splits)
  obtain ok k where c: "mbind (os_base_ptr S inner) (os_region_size S inner) (ucast mode) nodemask (ucast maxnode)
      (en_kernel (ev_get V inner)) = (ok, k)" by force
  have m: "ucast maxnode = (64 :: u64)" by (simp add: b(4))
  show ?thesis
  proof (cases "tg = Linux \<and> \<not> ok")
    case True
    then have "r = Inl AllocError" "mmap_last_os_error (ev_get V i) = Some (k_error K k)"
      using assms Inr c
      by (auto simp: numa_new_def apply_policy_def a Let_def mmap_record_os_error_def capture_os_error_def mmap_last_os_error_def)
    then show ?thesis using True c unfolding m by auto
  next
    case False
    then show ?thesis
      using assms(1) Inr c b(1-3) mode unfolding m
      by (auto simp: numa_new_def apply_policy_def a Let_def m) blast
  qed
qed

definition demo_mbind :: "addr mbind" where
  "demo_mbind start len mode nodemask maxnode k = (nodemask = 6, k)"

definition nodes_1_2 :: node_set where
  "nodes_1_2 = \<lparr>ns_mask = 6\<rparr>"

lemma demo_numa:
  "numa_new Linux demo_kernel demo_mbind (mmap_os Linux demo_kernel) mmap_view (demo_mapping 4096) (Bind nodes_1_2) =
     (Inr \<lparr>nl_inner = demo_mapping 4096, nl_policy = Bind nodes_1_2\<rparr>, demo_mapping 4096)"
  by (simp add: numa_new_def mbind_args_def nodes_1_2_def node_is_empty_def apply_policy_def demo_mbind_def Let_def
      mmap_view_def demo_mapping_def)

theorem numa_binds_exactly_witness:
  "policy_nodes (Bind nodes_1_2) \<noteq> {} \<and> policy_nodes (Bind nodes_1_2) \<subseteq> {..<64}"
proof -
  have "ev_get mmap_view (ev_put mmap_view e b) = e" for e and b :: "addr mmap_backed" by (simp add: mmap_view_def)
  from numa_binds_exactly [OF demo_numa this] show ?thesis by simp
qed

end
