(* ===== verification/Std_Compat.thy ===== *)
theory Std_Compat
  imports Pass_Through
begin

text \<open>
  \<open>StdCompat\<close> of \<open>forge-alloc-core/src/traits/non_zero_layout.rs\<close>: any allocator of the crate as an
  \<open>allocator_api2::alloc::Allocator\<close>, whose layouts may have size zero. The blocks of size zero never reach
  the inner allocator; their address is their alignment. The methods \<open>allocator_api2\<close> defaults
  (\<open>allocate_zeroed\<close>, \<open>grow_zeroed\<close>) are that crate's.
\<close>

section \<open>Operations\<close>

record 'a std_compat =
  sc_inner :: 'a

definition compat_put :: "'a \<Rightarrow> 'a std_compat \<Rightarrow> 'a std_compat" where
  "compat_put i w = w\<lparr>sc_inner := i\<rparr>"

definition compat_new :: "'a \<Rightarrow> 'a std_compat" where
  "compat_new inner = \<lparr>sc_inner = inner\<rparr>"

definition dangling_for_align :: "usize \<Rightarrow> addr" where
  "dangling_for_align align = align"

definition via_resize ::
  "('w \<Rightarrow> 'i) \<Rightarrow> ('i \<Rightarrow> 'w \<Rightarrow> 'w) \<Rightarrow> ('i \<times> mem \<Rightarrow> ('r \<times> 'i \<times> mem) outcome) \<Rightarrow>
     'w \<times> mem \<Rightarrow> ('r \<times> 'w \<times> mem) outcome" where
  "via_resize get put f st =
     (case st of (w, m) \<Rightarrow> outcome_bind (f (get w, m)) (\<lambda>(r, i, m'). Done (r, put i w, m')))"

definition compat_allocate ::
  "'a allocator \<Rightarrow> std_layout \<Rightarrow> 'a std_compat \<times> mem \<Rightarrow> block res \<times> 'a std_compat \<times> mem" where
  "compat_allocate A l st =
     (case try_from_layout l of
        Inr nzl \<Rightarrow> via sc_inner compat_put (al_allocate A nzl) st
      | Inl e \<Rightarrow> (Inr (dangling_for_align (std_align l), 0), st))"

definition compat_deallocate ::
  "'a allocator \<Rightarrow> addr \<Rightarrow> std_layout \<Rightarrow> 'a std_compat \<times> mem \<Rightarrow> ('a std_compat \<times> mem) outcome" where
  "compat_deallocate A p l st =
     (case try_from_layout l of
        Inr nzl \<Rightarrow> via_out sc_inner compat_put (al_deallocate A p nzl) st
      | Inl e \<Rightarrow> Done st)"

type_synonym 'a std_resize_fun =
  "addr \<Rightarrow> std_layout \<Rightarrow> std_layout \<Rightarrow> 'a std_compat \<times> mem \<Rightarrow> (block res \<times> 'a std_compat \<times> mem) outcome"

definition compat_grow :: "'a allocator \<Rightarrow> 'a std_resize_fun" where
  "compat_grow A p old new st =
     (case (try_from_layout old, try_from_layout new) of
        (Inr old_nz, Inr new_nz) \<Rightarrow> via_resize sc_inner compat_put (al_grow A p old_nz new_nz) st
      | (Inl e, Inr new_nz) \<Rightarrow> Done (via sc_inner compat_put (al_allocate A new_nz) st)
      | (Inr old_nz, Inl e) \<Rightarrow> Done (Inl AllocError, st)
      | (Inl e, Inl e') \<Rightarrow> Done (Inr (dangling_for_align (std_align new), 0), st))"

definition compat_shrink :: "'a allocator \<Rightarrow> 'a std_resize_fun" where
  "compat_shrink A p old new st =
     (case (try_from_layout old, try_from_layout new) of
        (Inr old_nz, Inr new_nz) \<Rightarrow> via_resize sc_inner compat_put (al_shrink A p old_nz new_nz) st
      | (Inr old_nz, Inl e) \<Rightarrow>
          outcome_bind (via_out sc_inner compat_put (al_deallocate A p old_nz) st)
            (\<lambda>st'. Done (Inr (dangling_for_align (std_align new), 0), st'))
      | (Inl e, Inl e') \<Rightarrow> Done (Inr (dangling_for_align (std_align new), 0), st)
      | (Inl e, Inr new_nz) \<Rightarrow> Done (Inl AllocError, st))"

section \<open>The contract over standard layouts\<close>

text \<open>What \<open>core::alloc::Layout\<close> guarantees of its values.\<close>

definition std_ok :: "std_layout \<Rightarrow> bool" where
  "std_ok l \<longleftrightarrow> is_pow2 (std_align l) \<and> unat (std_size l) + (unat (std_align l) - 1) \<le> 2 ^ 63 - 1"

type_synonym std_live = "(addr \<times> std_layout \<times> usize) set"

text \<open>The blocks the inner allocator knows of, and the bytes in use.\<close>

definition inner_live :: "std_live \<Rightarrow> live" where
  "inner_live Z = {(p, lay, n). (p, to_layout lay, n) \<in> Z \<and> lay_size lay \<noteq> 0}"

definition std_footprint :: "std_live \<Rightarrow> addr set" where
  "std_footprint Z = footprint (inner_live Z)"

definition std_inv :: "('a \<Rightarrow> mem \<Rightarrow> live \<Rightarrow> bool) \<Rightarrow> 'a std_compat \<Rightarrow> mem \<Rightarrow> std_live \<Rightarrow> bool" where
  "std_inv ainv w m Z \<longleftrightarrow> ainv (sc_inner w) m (inner_live Z) \<and>
     (\<forall>(p, l, n) \<in> Z. std_ok l \<and> (std_size l = 0 \<longrightarrow> n = 0))"

definition std_block_ok :: "std_layout \<Rightarrow> addr \<Rightarrow> usize \<Rightarrow> bool" where
  "std_block_ok l p n \<longleftrightarrow> p \<noteq> 0 \<and> no_wrap p n \<and> unat (std_align l) dvd unat p \<and> std_size l \<le> n"

definition std_alloc_post ::
  "('a \<Rightarrow> mem \<Rightarrow> live \<Rightarrow> bool) \<Rightarrow> std_live \<Rightarrow> std_layout \<Rightarrow> mem \<Rightarrow> block res \<times> 'a std_compat \<times> mem \<Rightarrow> bool" where
  "std_alloc_post ainv Z l m r \<longleftrightarrow>
     (case r of
        (Inl e, w', m') \<Rightarrow> std_size l \<noteq> 0 \<and> std_inv ainv w' m' Z \<and> same_on (std_footprint Z) m m'
      | (Inr (p, n), w', m') \<Rightarrow>
          std_block_ok l p n \<and> span p n \<inter> std_footprint Z = {} \<and>
          std_inv ainv w' m' (insert (p, l, n) Z) \<and> same_on (std_footprint Z) m m')"

definition std_dealloc_post ::
  "('a \<Rightarrow> mem \<Rightarrow> live \<Rightarrow> bool) \<Rightarrow> std_live \<Rightarrow> mem \<Rightarrow> ('a std_compat \<times> mem) outcome \<Rightarrow> bool" where
  "std_dealloc_post ainv Y m r \<longleftrightarrow>
     (case r of Panicked \<Rightarrow> False | Done (w', m') \<Rightarrow> std_inv ainv w' m' Y \<and> same_on (std_footprint Y) m m')"

definition std_resize_post ::
  "('a \<Rightarrow> mem \<Rightarrow> live \<Rightarrow> bool) \<Rightarrow> std_live \<Rightarrow> std_live \<Rightarrow> addr \<Rightarrow> usize \<Rightarrow> std_layout \<Rightarrow> mem \<Rightarrow>
     (block res \<times> 'a std_compat \<times> mem) outcome \<Rightarrow> bool" where
  "std_resize_post ainv Z Y p keep new m r \<longleftrightarrow>
     (case r of
        Panicked \<Rightarrow> False
      | Done (Inl e, w', m') \<Rightarrow> std_inv ainv w' m' Z \<and> same_on (std_footprint Z) m m'
      | Done (Inr (q, n), w', m') \<Rightarrow>
          std_block_ok new q n \<and> span q n \<inter> std_footprint Y = {} \<and>
          std_inv ainv w' m' (insert (q, new, n) Y) \<and> same_on (std_footprint Y) m m' \<and>
          (\<forall>i < keep. m' (q + i) = m (p + i)))"

lemma compat_put_inner [simp]: "sc_inner (compat_put i w) = i"
  by (simp add: compat_put_def)

text \<open>A layout is refused by the conversion exactly when its size is zero.\<close>

lemma try_from_Inr:
  "try_from_layout l = Inr nz \<longleftrightarrow> valid_layout nz \<and> to_layout nz = l"
  by (cases l, cases nz) (auto simp: try_from_layout_def from_size_align_Inr to_layout_def)

lemma try_from_cases:
  assumes "std_ok l"
  obtains (zero) "std_size l = 0" "try_from_layout l = Inl LayoutError"
    | (pos) nz where "std_size l \<noteq> 0" "try_from_layout l = Inr nz" "valid_layout nz" "to_layout nz = l"
        "lay_size nz = std_size l" "lay_align nz = std_align l"
proof (cases "std_size l = 0")
  case True
  then show ?thesis by (intro zero) (simp_all add: try_from_layout_def from_size_align_def)
next
  case False
  let ?nz = "\<lparr>lay_size = std_size l, lay_align = std_align l\<rparr>"
  have "valid_layout ?nz" "to_layout ?nz = l" using False assms by (simp_all add: valid_layout_def std_ok_def to_layout_def)
  then show ?thesis using False by (intro pos [of ?nz]) (simp_all add: try_from_Inr)
qed

lemma to_layout_inject: "to_layout a = to_layout b \<longleftrightarrow> a = b"
  by (cases a, cases b) (auto simp: to_layout_def)

lemma inner_live_empty [simp]: "inner_live {} = {}"
  by (simp add: inner_live_def)

lemma inner_live_insert:
  "lay_size nz \<noteq> 0 \<Longrightarrow> inner_live (insert (p, to_layout nz, n) Z) = insert (p, nz, n) (inner_live Z)"
  "std_size l = 0 \<Longrightarrow> inner_live (insert (p, l, n) Z) = inner_live Z"
  by (auto simp: inner_live_def to_layout_inject) (auto simp: to_layout_def)

lemma inner_live_remove:
  "inner_live (Z - {(p, to_layout nz, n)}) = inner_live Z - {(p, nz, n)}"
  "std_size l = 0 \<Longrightarrow> inner_live (Z - {(p, l, n)}) = inner_live Z"
  by (auto simp: inner_live_def to_layout_inject) (auto simp: to_layout_def)

lemma inner_live_mem: "(p, to_layout nz, n) \<in> Z \<Longrightarrow> lay_size nz \<noteq> 0 \<Longrightarrow> (p, nz, n) \<in> inner_live Z"
  by (simp add: inner_live_def)

lemma std_block_ok_zero: "std_ok l \<Longrightarrow> std_size l = 0 \<Longrightarrow> std_block_ok l (std_align l) 0"
  using unat_64_less [of "std_align l"] by (auto simp: std_block_ok_def std_ok_def no_wrap_def dest: is_pow2_nz)

lemma std_block_ok_nz: "block_ok nz p n \<Longrightarrow> std_block_ok (to_layout nz) p n"
  by (simp add: block_ok_def std_block_ok_def to_layout_def)

lemma std_inv_zero:
  assumes "std_inv ainv w m Z" "std_ok l" "std_size l = 0"
  shows "std_inv ainv w m (insert (p, l, 0) Z)" "std_inv ainv w m (Z - {(q, l, n)})"
  using assms by (auto simp: std_inv_def inner_live_insert(2) inner_live_remove(2))

context allocator_contract
begin

lemma compat_allocate_post:
  assumes inv: "std_inv ainv w m Z" and l: "std_ok l"
  shows "std_alloc_post ainv Z l m (compat_allocate A l (w, m))"
  using l
proof (cases rule: try_from_cases)
  case zero
  then show ?thesis
    using std_inv_zero(1) [OF inv l] std_block_ok_zero [OF l]
    by (simp add: compat_allocate_def std_alloc_post_def dangling_for_align_def span_def)
next
  case (pos nz)
  obtain r i m1 where al: "al_allocate A nz (sc_inner w, m) = (r, i, m1)"
    by (cases "al_allocate A nz (sc_inner w, m)") auto
  have "alloc_post ainv (inner_live Z) nz m (r, i, m1)"
    using allocate [of "sc_inner w" m "inner_live Z" nz] inv pos(3) al by (simp add: std_inv_def)
  then show ?thesis
    using inv pos(1) l inner_live_insert(1) [where nz = nz and Z = Z] std_block_ok_nz [of nz]
    by (cases r)
      (auto simp: compat_allocate_def pos(2,4,5) via_def al std_alloc_post_def alloc_post_def std_inv_def std_footprint_def)
qed

lemma compat_deallocate_post:
  assumes inv: "std_inv ainv w m Z" and mem: "(p, l, n) \<in> Z"
  shows "std_dealloc_post ainv (Z - {(p, l, n)}) m (compat_deallocate A p l (w, m))"
proof -
  have l: "std_ok l" using inv mem by (auto simp: std_inv_def)
  then show ?thesis
  proof (cases rule: try_from_cases)
    case zero
    then show ?thesis
      using std_inv_zero(2) [OF inv l] by (simp add: compat_deallocate_def std_dealloc_post_def)
  next
    case (pos nz)
    have "dealloc_post ainv (inner_live (Z - {(p, l, n)})) m (al_deallocate A p nz (sc_inner w, m))"
      using deallocate [of "sc_inner w" m "inner_live Z" p nz n] inner_live_mem [of p nz n Z] inv mem pos(1,4,5)
        inner_live_remove(1) [of Z p nz n]
      by (simp add: std_inv_def)
    then show ?thesis
      using inv by (auto simp: compat_deallocate_def pos(2) via_out_def std_dealloc_post_def dealloc_post_def
          std_inv_def std_footprint_def split: outcome.splits)
  qed
qed

text \<open>A resize of a block the inner allocator knows.\<close>

lemma compat_resize_post:
  assumes inv: "std_inv ainv w m Z" and mem: "(p, to_layout old, n) \<in> Z" and nz: "lay_size old \<noteq> 0"
    and new: "valid_layout new"
    and post: "resize_post ainv (inner_live Z) (inner_live Z - {(p, old, n)}) p keep new m (f (sc_inner w, m))"
  shows "std_resize_post ainv Z (Z - {(p, to_layout old, n)}) p keep (to_layout new) m (via_resize sc_inner compat_put f (w, m))"
proof -
  let ?Y = "Z - {(p, to_layout old, n)}"
  have new0: "lay_size new \<noteq> 0" and nok: "std_ok (to_layout new)" and ns: "std_size (to_layout new) \<noteq> 0"
    using new by (auto simp: valid_layout_def std_ok_def to_layout_def)
  have Y: "inner_live ?Y = inner_live Z - {(p, old, n)}" by (rule inner_live_remove(1))
  show ?thesis
  proof (cases "f (sc_inner w, m)")
    case Panicked
    then show ?thesis using post by (simp add: resize_post_def)
  next
    case (Done x)
    obtain r i m1 where x: "x = (r, i, m1)" by (cases x)
    show ?thesis
    proof (cases r)
      case (Inl e)
      then show ?thesis
        using post Done x inv
        by (auto simp: resize_post_def std_resize_post_def via_resize_def std_inv_def std_footprint_def)
    next
      case (Inr b)
      obtain q k where b: "b = (q, k)" by (cases b)
      have r: "block_ok new q k" "span q k \<inter> footprint (inner_live ?Y) = {}" "ainv i m1 (insert (q, new, k) (inner_live ?Y))"
        "same_on (footprint (inner_live ?Y)) m m1" "\<forall>i < keep. m1 (q + i) = m (p + i)"
        using post Done x Inr b by (simp_all add: resize_post_def Y)
      then have "std_inv ainv (compat_put i w) m1 (insert (q, to_layout new, k) ?Y)"
        using inv nok ns by (auto simp: std_inv_def inner_live_insert(1) [OF new0])
      then show ?thesis
        using r std_block_ok_nz [OF r(1)] Done x Inr b
        by (simp add: std_resize_post_def via_resize_def std_footprint_def)
    qed
  qed
qed

lemma compat_grow_post:
  assumes inv: "std_inv ainv w m Z" and mem: "(p, old, n) \<in> Z" and new: "std_ok new"
    and sizes: "std_size old \<le> std_size new" "std_align new = std_align old"
  shows "std_resize_post ainv Z (Z - {(p, old, n)}) p (std_size old) new m (compat_grow A p old new (w, m))"
proof -
  have old: "std_ok old" using inv mem by (auto simp: std_inv_def)
  then show ?thesis
  proof (cases rule: try_from_cases)
    case o: zero
    have Y: "std_inv ainv w m (Z - {(p, old, n)})" "std_footprint (Z - {(p, old, n)}) = std_footprint Z"
      using std_inv_zero(2) [OF inv old o(1)] inner_live_remove(2) [OF o(1)] by (auto simp: std_footprint_def)
    have al: "compat_grow A p old new (w, m) = Done (compat_allocate A new (w, m))"
      by (simp add: compat_grow_def compat_allocate_def o(2) split: sum.splits)
    show ?thesis
      using compat_allocate_post [OF Y(1) new] compat_allocate_post [OF inv new] Y(2) unfolding al
      by (auto simp: std_resize_post_def std_alloc_post_def o(1) split: prod.splits sum.splits)
  next
    case o: (pos nzo)
    have "std_size new \<noteq> 0" using o(1) sizes(1) by (auto simp: word_le_nat_alt unat_eq_0)
    then obtain nzn where w: "try_from_layout new = Inr nzn" "valid_layout nzn" "to_layout nzn = new"
      "lay_size nzn = std_size new" "lay_align nzn = std_align new"
      using try_from_cases [OF new] by metis
    have "resize_post ainv (inner_live Z) (inner_live Z - {(p, nzo, n)}) p (std_size old) nzn m
        (al_grow A p nzo nzn (sc_inner w, m))"
      using grow [of "sc_inner w" m "inner_live Z" p nzo n nzn] inv inner_live_mem [of p nzo n Z] mem o sizes w
      by (simp add: std_inv_def)
    from compat_resize_post [where f = "al_grow A p nzo nzn", OF inv _ _ w(2) this] show ?thesis
      using mem o w by (simp add: compat_grow_def)
  qed
qed

lemma compat_shrink_post:
  assumes inv: "std_inv ainv w m Z" and mem: "(p, old, n) \<in> Z" and new: "std_ok new"
    and sizes: "std_size new \<le> std_size old" "std_align new = std_align old"
  shows "std_resize_post ainv Z (Z - {(p, old, n)}) p (std_size new) new m (compat_shrink A p old new (w, m))"
proof -
  have old: "std_ok old" using inv mem by (auto simp: std_inv_def)
  show ?thesis using new
  proof (cases rule: try_from_cases)
    case c: zero
    have sh: "compat_shrink A p old new (w, m) =
        outcome_bind (compat_deallocate A p old (w, m)) (\<lambda>st'. Done (Inr (std_align new, 0), st'))"
      by (simp add: compat_shrink_def compat_deallocate_def c(2) dangling_for_align_def split: sum.splits)
    have foot: "std_footprint (insert (q, new, 0) Y) = std_footprint Y" for q Y
      by (simp add: std_footprint_def inner_live_insert(2) [OF c(1)])
    show ?thesis
      using compat_deallocate_post [OF inv mem] std_inv_zero(1) [OF _ new c(1)] std_block_ok_zero [OF new c(1)] unfolding sh
      by (auto simp: std_resize_post_def std_dealloc_post_def c(1) span_def split: outcome.splits)
  next
    case w: (pos nzn)
    have "std_size old \<noteq> 0" using w(1) sizes(1) by (auto simp: word_le_nat_alt unat_eq_0)
    then obtain nzo where o: "try_from_layout old = Inr nzo" "valid_layout nzo" "to_layout nzo = old"
      "lay_size nzo = std_size old" "lay_align nzo = std_align old" "std_size old \<noteq> 0"
      using try_from_cases [OF old] by metis
    have "resize_post ainv (inner_live Z) (inner_live Z - {(p, nzo, n)}) p (std_size new) nzn m
        (al_shrink A p nzo nzn (sc_inner w, m))"
      using shrink [of "sc_inner w" m "inner_live Z" p nzo n nzn] inv inner_live_mem [of p nzo n Z] mem o sizes w
      by (simp add: std_inv_def)
    from compat_resize_post [where f = "al_shrink A p nzo nzn", OF inv _ _ w(3) this] show ?thesis
      using mem o w by (simp add: compat_shrink_def)
  qed
qed

end

end
