(* ===== verification/C_Interface.thy ===== *)
theory C_Interface
  imports Ownership Scrubbing
begin

text \<open>
  \<open>forge-alloc-capi/src/lib.rs\<close>: the C interface, a \<open>BumpArena\<close> over a caller's buffer behind opaque
  handles. \<open>handles\<close> maps the address of an initialised handle to the arena that lives in its storage.
  Null pointers are the address 0, and a C \<open>int\<close> is its value. A call that runs into undefined behaviour
  has no result, \<open>None\<close>: it builds a slice from null or of more than \<open>isize::MAX\<close> bytes, it writes through
  a null pointer or past the end of the address space, or it uses a handle that is null or whose storage
  holds no arena.
\<close>

type_synonym handles = "addr \<rightharpoonup> static_backed bump_arena"

text \<open>The raw operations the functions rest on, each with the case in which Rust leaves it undefined.\<close>

definition from_raw_parts_mut :: "addr \<Rightarrow> usize \<Rightarrow> (addr \<times> usize) option" where
  "from_raw_parts_mut p len = (if p = 0 \<or> len > isize_max \<or> \<not> no_wrap p len then None else Some (p, len))"

definition ptr_write_bytes :: "addr \<Rightarrow> u8 \<Rightarrow> usize \<Rightarrow> mem \<Rightarrow> mem option" where
  "ptr_write_bytes p v count m = (if p = 0 \<or> \<not> no_wrap p count then None else Some (write_bytes m p v count))"

definition handle_write :: "addr \<Rightarrow> static_backed bump_arena \<Rightarrow> handles \<Rightarrow> handles option" where
  "handle_write handle arena hs = (if handle = 0 then None else Some (hs(handle \<mapsto> arena)))"

definition forge_bump_init :: "addr \<Rightarrow> addr \<Rightarrow> usize \<Rightarrow> handles \<Rightarrow> (int \<times> handles) option" where
  "forge_bump_init handle buf len hs =
     (if handle = 0 \<or> buf = 0 \<or> len = 0 \<or> len > isize_max then Some (0, hs)
      else case from_raw_parts_mut buf len of
             None \<Rightarrow> None
           | Some region \<Rightarrow>
               (case bump_new static_range (static_new region) of
                  Inr arena \<Rightarrow> map_option (\<lambda>hs'. (1, hs')) (handle_write handle arena hs)
                | Inl e \<Rightarrow> Some (0, hs)))"

text \<open>The two allocating functions differ only in the method they call.\<close>

definition alloc_with ::
  "static_backed bump_arena alloc_fun \<Rightarrow> addr \<Rightarrow> usize \<Rightarrow> usize \<Rightarrow> handles \<times> mem \<Rightarrow> (addr \<times> handles \<times> mem) option" where
  "alloc_with method handle sz align st =
     (case st of (hs, m) \<Rightarrow>
        if handle = 0 then Some (0, hs, m)
        else case from_size_align sz align of
               Inl e \<Rightarrow> Some (0, hs, m)
             | Inr lay \<Rightarrow>
                 (case hs handle of
                    None \<Rightarrow> None
                  | Some arena \<Rightarrow>
                      (case method lay (arena, m) of
                         (Inr (p, n), arena', m') \<Rightarrow> Some (p, hs(handle \<mapsto> arena'), m')
                       | (Inl e, arena', m') \<Rightarrow> Some (0, hs(handle \<mapsto> arena'), m'))))"

definition forge_bump_alloc :: "addr \<Rightarrow> usize \<Rightarrow> usize \<Rightarrow> handles \<times> mem \<Rightarrow> (addr \<times> handles \<times> mem) option" where
  "forge_bump_alloc = alloc_with (al_allocate (bump_allocator static_range))"

definition forge_bump_alloc_zeroed ::
  "addr \<Rightarrow> usize \<Rightarrow> usize \<Rightarrow> handles \<times> mem \<Rightarrow> (addr \<times> handles \<times> mem) option" where
  "forge_bump_alloc_zeroed = alloc_with (al_allocate_zeroed (bump_allocator static_range))"

definition forge_bump_free :: "addr \<Rightarrow> addr \<Rightarrow> usize \<Rightarrow> usize \<Rightarrow> mem \<Rightarrow> mem option" where
  "forge_bump_free handle p sz align m =
     (if p = 0 \<or> sz = 0 then Some m else ptr_write_bytes p DEFAULT_POISON sz m)"

definition forge_bump_reset :: "addr \<Rightarrow> handles \<Rightarrow> (int \<times> handles) option" where
  "forge_bump_reset handle hs =
     (if handle = 0 then Some (0, hs)
      else case hs handle of None \<Rightarrow> None | Some arena \<Rightarrow> Some (1, hs(handle \<mapsto> bump_reset arena)))"

definition forge_bump_remaining :: "addr \<Rightarrow> handles \<Rightarrow> usize option" where
  "forge_bump_remaining handle hs = (if handle = 0 then Some 0 else map_option bump_remaining (hs handle))"

definition forge_bump_capacity :: "addr \<Rightarrow> handles \<Rightarrow> usize option" where
  "forge_bump_capacity handle hs = (if handle = 0 then Some 0 else map_option bump_capacity (hs handle))"

definition forge_bump_allocated :: "addr \<Rightarrow> handles \<Rightarrow> usize option" where
  "forge_bump_allocated handle hs = (if handle = 0 then Some 0 else map_option bump_allocated (hs handle))"

definition forge_bump_destroy :: "addr \<Rightarrow> handles \<Rightarrow> handles option" where
  "forge_bump_destroy handle hs =
     (if handle = 0 then Some hs
      else case hs handle of None \<Rightarrow> None | Some arena \<Rightarrow> Some (hs(handle := None)))"

section \<open>A C program\<close>

text \<open>
  The calls that change something, and the program's own writes. Ghost state: the blocks each handle has
  issued since it was last initialised or reset, and those of them that were freed. A free names its block
  by address and size, and its alignment may be anything.
\<close>

datatype c_call = Init addr addr usize | Alloc addr usize usize | Alloc_Zeroed addr usize usize
  | Free addr addr usize usize | Reset addr | Destroy addr | Write mem

record c_world =
  cw_handles :: handles
  cw_mem :: mem
  cw_issued :: "addr \<Rightarrow> live"
  cw_freed :: "addr \<Rightarrow> live"

definition c_live :: "c_world \<Rightarrow> addr \<Rightarrow> live" where
  "c_live w h = cw_issued w h - cw_freed w h"

definition issue :: "addr \<Rightarrow> usize \<Rightarrow> usize \<Rightarrow> addr \<times> handles \<times> mem \<Rightarrow> c_world \<Rightarrow> c_world" where
  "issue h sz align r w =
     (case r of (p, hs, m) \<Rightarrow>
        w\<lparr>cw_handles := hs, cw_mem := m,
          cw_issued := (if p = 0 then cw_issued w
            else (cw_issued w)(h := insert (p, \<lparr>lay_size = sz, lay_align = align\<rparr>, sz) (cw_issued w h)))\<rparr>)"

definition forget :: "addr \<Rightarrow> c_world \<Rightarrow> c_world" where
  "forget h w = w\<lparr>cw_issued := (cw_issued w)(h := {}), cw_freed := (cw_freed w)(h := {})\<rparr>"

definition named :: "addr \<Rightarrow> usize \<Rightarrow> live \<Rightarrow> live" where
  "named p sz L = {b \<in> L. fst b = p \<and> snd (snd b) = sz}"

fun c_exec :: "c_call \<Rightarrow> c_world \<Rightarrow> c_world option" where
  "c_exec (Init h buf len) w =
     map_option (\<lambda>(r, hs). if r = 1 then forget h (w\<lparr>cw_handles := hs\<rparr>) else w\<lparr>cw_handles := hs\<rparr>)
       (forge_bump_init h buf len (cw_handles w))"
| "c_exec (Alloc h sz align) w =
     map_option (\<lambda>r. issue h sz align r w) (forge_bump_alloc h sz align (cw_handles w, cw_mem w))"
| "c_exec (Alloc_Zeroed h sz align) w =
     map_option (\<lambda>r. issue h sz align r w) (forge_bump_alloc_zeroed h sz align (cw_handles w, cw_mem w))"
| "c_exec (Free h p sz align) w =
     map_option (\<lambda>m. w\<lparr>cw_mem := m, cw_freed := (cw_freed w)(h := cw_freed w h \<union> named p sz (cw_issued w h))\<rparr>)
       (forge_bump_free h p sz align (cw_mem w))"
| "c_exec (Reset h) w =
     map_option (\<lambda>(r, hs). forget h (w\<lparr>cw_handles := hs\<rparr>)) (forge_bump_reset h (cw_handles w))"
| "c_exec (Destroy h) w =
     map_option (\<lambda>hs. forget h (w\<lparr>cw_handles := hs\<rparr>)) (forge_bump_destroy h (cw_handles w))"
| "c_exec (Write m) w = Some (w\<lparr>cw_mem := m\<rparr>)"

text \<open>
  The safety contracts of the functions: what the C caller owes. Nothing keeps it from an \<open>init\<close> with null
  pointers or a length over \<open>isize::MAX\<close>, nor from a free of the null pointer, of size zero, or with an
  alignment the block was not issued for.
\<close>

fun c_allowed :: "c_call \<Rightarrow> c_world \<Rightarrow> bool" where
  "c_allowed (Init h buf len) w \<longleftrightarrow> (buf \<noteq> 0 \<longrightarrow> no_wrap buf len) \<and>
     (\<forall>h' a. h' \<noteq> h \<and> cw_handles w h' = Some a \<longrightarrow> span buf len \<inter> bump_own static_range a = {})"
| "c_allowed (Alloc h sz align) w \<longleftrightarrow> h = 0 \<or> cw_handles w h \<noteq> None"
| "c_allowed (Alloc_Zeroed h sz align) w \<longleftrightarrow> h = 0 \<or> cw_handles w h \<noteq> None"
| "c_allowed (Free h p sz align) w \<longleftrightarrow> p = 0 \<or> sz = 0 \<or> named p sz (c_live w h) \<noteq> {}"
| "c_allowed (Reset h) w \<longleftrightarrow> h = 0 \<or> cw_handles w h \<noteq> None"
| "c_allowed (Destroy h) w \<longleftrightarrow> h = 0 \<or> cw_handles w h \<noteq> None"
| "c_allowed (Write m) w \<longleftrightarrow> same_on (- (\<Union>h. footprint (c_live w h))) (cw_mem w) m"

inductive c_run :: "mem \<Rightarrow> c_world \<Rightarrow> bool" for m0 where
  start: "c_run m0 \<lparr>cw_handles = Map.empty, cw_mem = m0, cw_issued = (\<lambda>h. {}), cw_freed = (\<lambda>h. {})\<rparr>"
| call: "c_run m0 w \<Longrightarrow> c_allowed c w \<Longrightarrow> c_exec c w = Some w' \<Longrightarrow> c_run m0 w'"

section \<open>The invariant\<close>

lemmas arena_core = fixed_range_contract.bump_core [OF static.fixed_range_contract_axioms]

text \<open>Distinct handles own distinct buffers; a freed block is poisoned to its last byte.\<close>

definition c_inv :: "c_world \<Rightarrow> bool" where
  "c_inv w \<longleftrightarrow>
     (\<forall>h a. cw_handles w h = Some a \<longrightarrow> h \<noteq> 0 \<and> bump_inv static_range static_ok a (cw_mem w) (cw_issued w h)) \<and>
     (\<forall>h. cw_handles w h = None \<longrightarrow> cw_issued w h = {}) \<and>
     (\<forall>h h' a a'. h \<noteq> h' \<and> cw_handles w h = Some a \<and> cw_handles w h' = Some a' \<longrightarrow>
        bump_own static_range a \<inter> bump_own static_range a' = {}) \<and>
     (\<forall>h. cw_freed w h \<subseteq> cw_issued w h) \<and>
     (\<forall>h p lay n. (p, lay, n) \<in> cw_issued w h \<longrightarrow> n = lay_size lay) \<and>
     (\<forall>h p lay n. (p, lay, n) \<in> cw_freed w h \<longrightarrow> (\<forall>x \<in> span p n. cw_mem w x = DEFAULT_POISON))"

lemma c_invD:
  assumes "c_inv w"
  shows "cw_handles w h = Some a \<Longrightarrow> h \<noteq> 0"
    "cw_handles w h = Some a \<Longrightarrow> bump_inv static_range static_ok a (cw_mem w) (cw_issued w h)"
    "cw_handles w h = None \<Longrightarrow> cw_issued w h = {}"
    "h \<noteq> h' \<Longrightarrow> cw_handles w h = Some a \<Longrightarrow> cw_handles w h' = Some a' \<Longrightarrow>
       bump_own static_range a \<inter> bump_own static_range a' = {}"
    "b \<in> cw_freed w h \<Longrightarrow> b \<in> cw_issued w h"
    "(p, lay, n) \<in> cw_issued w h \<Longrightarrow> n = lay_size lay"
    "(p, lay, n) \<in> cw_freed w h \<Longrightarrow> x \<in> span p n \<Longrightarrow> cw_mem w x = DEFAULT_POISON"
  using assms unfolding c_inv_def by blast+

lemma arena_mono:
  "bump_inv static_range static_ok a m I \<Longrightarrow> bump_inv static_range static_ok a m' I"
  by (rule fixed_range_contract.bump_inv_mono [OF static.fixed_range_contract_axioms _ order_refl])

lemma c_inv_block:
  assumes "c_inv w" "(p, lay, n) \<in> cw_issued w h"
  obtains a where "cw_handles w h = Some a" "h \<noteq> 0" "bump_inv static_range static_ok a (cw_mem w) (cw_issued w h)"
    "span p n \<subseteq> bump_own static_range a" "block_ok lay p n" "n = lay_size lay"
proof -
  obtain a where a: "cw_handles w h = Some a" using assms unfolding c_inv_def by fastforce
  have i: "h \<noteq> 0" "bump_inv static_range static_ok a (cw_mem w) (cw_issued w h)" "n = lay_size lay"
    using assms a unfolding c_inv_def by blast+
  have own: "footprint (cw_issued w h) \<subseteq> bump_own static_range a"
    by (rule owned_contract.own_live [OF static.bump_owned i(2)])
  show thesis
  proof (rule that [OF a i(1,2) _ _ i(3)])
    show "span p n \<subseteq> bump_own static_range a" using own span_footprint [OF assms(2)] by blast
    show "block_ok lay p n"
      using allocator_core.inv_live [OF arena_core i(2)] assms(2) by (rule live_okD)
  qed
qed

text \<open>Two issued blocks, of one handle or of two, are apart.\<close>

lemma c_inv_disjoint:
  assumes "c_inv w" "(p, lay, n) \<in> cw_issued w h" "(q, lay', k) \<in> cw_issued w h'" "(h, p, lay, n) \<noteq> (h', q, lay', k)"
  shows "span p n \<inter> span q k = {}"
proof -
  obtain a where a: "cw_handles w h = Some a" "bump_inv static_range static_ok a (cw_mem w) (cw_issued w h)"
    "span p n \<subseteq> bump_own static_range a" using c_inv_block [OF assms(1,2)] by metis
  obtain a' where a': "cw_handles w h' = Some a'" "span q k \<subseteq> bump_own static_range a'"
    using c_inv_block [OF assms(1,3)] by metis
  show ?thesis
  proof (cases "h = h'")
    case True
    have "live_ok (cw_issued w h)" by (rule allocator_core.inv_live [OF arena_core a(2)])
    from live_ok_disjoint [OF this assms(2)] show ?thesis using assms(3,4) True by blast
  next
    case False
    then have "bump_own static_range a \<inter> bump_own static_range a' = {}"
      using assms(1) a(1) a'(1) unfolding c_inv_def by blast
    then show ?thesis using a(3) a'(2) by blast
  qed
qed

text \<open>Putting an arena, with its issued and freed blocks, in the storage of a handle.\<close>

lemma c_inv_upd:
  assumes inv: "c_inv w" and h: "h \<noteq> 0" and a: "bump_inv static_range static_ok a m I"
    and apart: "\<And>h' a'. h' \<noteq> h \<Longrightarrow> cw_handles w h' = Some a' \<Longrightarrow> bump_own static_range a \<inter> bump_own static_range a' = {}"
    and F: "F \<subseteq> I" "\<And>p lay n. (p, lay, n) \<in> F \<Longrightarrow> \<forall>x \<in> span p n. m x = DEFAULT_POISON"
    and I: "\<And>p lay n. (p, lay, n) \<in> I \<Longrightarrow> n = lay_size lay"
    and m: "\<And>h' p lay n. h' \<noteq> h \<Longrightarrow> (p, lay, n) \<in> cw_freed w h' \<Longrightarrow> same_on (span p n) (cw_mem w) m"
  shows "c_inv (w\<lparr>cw_handles := (cw_handles w)(h \<mapsto> a), cw_mem := m, cw_issued := (cw_issued w)(h := I),
    cw_freed := (cw_freed w)(h := F)\<rparr>)"
proof -
  note i = c_invD [OF inv]
  have other: "h' \<noteq> 0 \<and> bump_inv static_range static_ok a' m (cw_issued w h')" if "cw_handles w h' = Some a'" for h' a'
    using i(1) [OF that] arena_mono [OF i(2) [OF that]] by blast
  have poison: "\<forall>x \<in> span p n. m x = DEFAULT_POISON" if "h' \<noteq> h" "(p, lay, n) \<in> cw_freed w h'" for h' p lay n
    using i(7) [OF that(2)] m [OF that] unfolding same_on_def by metis
  show ?thesis
    unfolding c_inv_def
    using h a other i(3,6) F I poison apart
    by (simp add: Int_commute [of _ "bump_own static_range a"]) (intro conjI allI impI subsetI; (elim conjE)?; (erule (2) i(4) | erule i(5)))
qed

text \<open>One call of the arena.\<close>

lemma arena_call:
  assumes inv: "bump_inv static_range static_ok a m I" and lay: "valid_layout lay"
    and meth: "meth = al_allocate (bump_allocator static_range) \<or> meth = al_allocate_zeroed (bump_allocator static_range)"
    and c: "meth lay (a, m) = (r, a', m')"
  shows "bump_own static_range a' = bump_own static_range a \<and>
    (case r of
       Inl e \<Rightarrow> bump_inv static_range static_ok a' m' I \<and> m' = m
     | Inr (p, n) \<Rightarrow> n = lay_size lay \<and> block_ok lay p n \<and> span p n \<inter> footprint I = {} \<and>
         bump_inv static_range static_ok a' m' (insert (p, lay, n) I) \<and> same_on (- span p n) m m')"
proof -
  note own = owned_contract.own_allocate [OF static.bump_owned inv lay] owned_contract.own_zeroed [OF static.bump_owned inv lay]
  obtain r1 a1 m1 where al: "bump_allocate static_range lay (a, m) = (r1, a1, m1)"
    by (cases "bump_allocate static_range lay (a, m)") auto
  have m1: "m1 = m" and n: "r1 = Inr (p, k) \<Longrightarrow> k = lay_size lay" for p k
    using al by (auto simp: bump_allocate_def split: prod.splits sum.splits)
  have post: "alloc_post (bump_inv static_range static_ok) I lay m (r1, a1, m)"
    using fixed_range_contract.bump_allocate_post [OF static.fixed_range_contract_axioms inv lay] al m1 by simp
  have zeroed: "al_allocate_zeroed (bump_allocator static_range) lay (a, m) =
      (r1, a1, case r1 of Inl e \<Rightarrow> m | Inr (p, k) \<Rightarrow> write_bytes m p 0 (lay_size lay))"
    using al m1 by (simp add: bump_allocator_def default_allocate_zeroed_def split: sum.splits)
  from meth show ?thesis
  proof
    assume e: "meth = al_allocate (bump_allocator static_range)"
    then have eq: "r = r1" "a' = a1" "m' = m" using c al m1 by (simp_all add: bump_allocator_def)
    show ?thesis
      using post own(1) [of r a' m'] c n unfolding e eq by (auto simp: alloc_post_def split: sum.splits)
  next
    assume e: "meth = al_allocate_zeroed (bump_allocator static_range)"
    then have eq: "r = r1" "a' = a1" "m' = (case r1 of Inl e \<Rightarrow> m | Inr (p, k) \<Rightarrow> write_bytes m p 0 (lay_size lay))"
      using c zeroed by auto
    have "same_on (- span p (lay_size lay)) m (write_bytes m p 0 (lay_size lay))" for p
      by (auto simp: same_on_def intro!: write_bytes_other)
    then show ?thesis
      using post own(2) [of r a' m'] c n arena_mono unfolding e eq by (auto simp: alloc_post_def split: sum.splits)
  qed
qed

section \<open>Every call keeps it\<close>

text \<open>
  What a call gives: an invariant state, the blocks that stay live unchanged, and no write outside the
  buffers of the initialised handles.
\<close>

definition c_buffers :: "c_world \<Rightarrow> addr set" where
  "c_buffers w = (\<Union>a \<in> ran (cw_handles w). bump_own static_range a)"

definition c_kept :: "c_world \<Rightarrow> c_world \<Rightarrow> bool" where
  "c_kept w w' \<longleftrightarrow> c_inv w' \<and> (\<forall>h. same_on (footprint (c_live w h \<inter> c_live w' h)) (cw_mem w) (cw_mem w')) \<and>
     same_on (- c_buffers w) (cw_mem w) (cw_mem w')"

lemma c_kept_same: "c_inv w' \<Longrightarrow> cw_mem w' = cw_mem w \<Longrightarrow> c_kept w w'"
  by (simp add: c_kept_def)

lemma footprint_off:
  "(\<And>p lay n. (p, lay, n) \<in> K \<Longrightarrow> span p n \<inter> S = {}) \<Longrightarrow> same_on (- S) m m' \<Longrightarrow> same_on (footprint K) m m'"
  by (fastforce simp: footprint_def same_on_def)

lemma c_init_step:
  assumes "c_inv w" "c_allowed (Init h buf len) w"
  shows "\<exists>w'. c_exec (Init h buf len) w = Some w' \<and> c_kept w w'"
proof (cases "\<exists>a. h \<noteq> 0 \<and> buf \<noteq> 0 \<and> bump_new static_range (static_new (buf, len)) = Inr a \<and>
    forge_bump_init h buf len (cw_handles w) = Some (1, (cw_handles w)(h \<mapsto> a))")
  case False
  then have "forge_bump_init h buf len (cw_handles w) = Some (0, cw_handles w)"
    using assms(2)
    by (auto simp: forge_bump_init_def from_raw_parts_mut_def handle_write_def split: sum.splits if_splits)
  then show ?thesis using assms(1) by (simp add: c_kept_same)
next
  case True
  then obtain a where a: "h \<noteq> 0" "buf \<noteq> 0" "bump_new static_range (static_new (buf, len)) = Inr a"
    "forge_bump_init h buf len (cw_handles w) = Some (1, (cw_handles w)(h \<mapsto> a))" by blast
  have ok: "static_ok (static_new (buf, len))" using a(2) assms(2) by (simp add: static_ok_def static_new_def)
  have own: "bump_own static_range a = span buf len"
    using a(3) by (auto simp: bump_new_def bump_own_def static_range_def static_new_def Let_def split: option.splits if_splits)
  have i: "bump_inv static_range static_ok a (cw_mem w) {}"
    by (rule fixed_range_contract.bump_new_inv [OF static.fixed_range_contract_axioms ok a(3)])
  have "c_inv (w\<lparr>cw_handles := (cw_handles w)(h \<mapsto> a), cw_mem := cw_mem w, cw_issued := (cw_issued w)(h := {}),
      cw_freed := (cw_freed w)(h := {})\<rparr>)"
    by (rule c_inv_upd [OF assms(1) a(1) i]) (use own assms(2) in auto)
  then show ?thesis by (simp add: a(4) forget_def c_kept_same)
qed

lemma c_alloc_step:
  assumes inv: "c_inv w" and h: "h = 0 \<or> cw_handles w h \<noteq> None"
    and meth: "meth = al_allocate (bump_allocator static_range) \<or> meth = al_allocate_zeroed (bump_allocator static_range)"
  shows "\<exists>w'. map_option (\<lambda>r. issue h sz align r w) (alloc_with meth h sz align (cw_handles w, cw_mem w)) = Some w' \<and> c_kept w w'"
proof (cases "h = 0 \<or> (\<exists>e. from_size_align sz align = Inl e)")
  case True
  then have "alloc_with meth h sz align (cw_handles w, cw_mem w) = Some (0, cw_handles w, cw_mem w)"
    by (auto simp: alloc_with_def)
  then show ?thesis using inv by (simp add: issue_def c_kept_same)
next
  case False
  then obtain lay a where h0: "h \<noteq> 0" and l: "from_size_align sz align = Inr lay" and a: "cw_handles w h = Some a"
    using h by (cases "from_size_align sz align") auto
  have lay: "valid_layout lay" "lay = \<lparr>lay_size = sz, lay_align = align\<rparr>" "lay_size lay = sz"
    using l by (auto simp: from_size_align_Inr)
  note i = c_invD [OF inv]
  obtain r a' m' where c: "meth lay (a, cw_mem w) = (r, a', m')" by (cases "meth lay (a, cw_mem w)") auto
  note ac = arena_call [OF i(2) [OF a] lay(1) meth c]
  have apart: "bump_own static_range a' \<inter> bump_own static_range b = {}" if "h' \<noteq> h" "cw_handles w h' = Some b" for h' b
    using ac i(4) [OF that(1) [symmetric] a that(2)] by simp
  show ?thesis
  proof (cases r)
    case (Inl e)
    have "c_inv (w\<lparr>cw_handles := (cw_handles w)(h \<mapsto> a'), cw_mem := cw_mem w, cw_issued := (cw_issued w)(h := cw_issued w h),
        cw_freed := (cw_freed w)(h := cw_freed w h)\<rparr>)"
      by (rule c_inv_upd [OF inv h0 _ apart]) (use ac Inl i(5-7) in auto)
    then show ?thesis
      using ac Inl c h0 a l by (simp add: alloc_with_def issue_def c_kept_same)
  next
    case (Inr x)
    obtain p n where x: "x = (p, n)" by (cases x)
    have n: "n = sz" "block_ok lay p n" "span p n \<inter> footprint (cw_issued w h) = {}"
      "bump_inv static_range static_ok a' m' (insert (p, lay, n) (cw_issued w h))" "same_on (- span p n) (cw_mem w) m'"
      using ac Inr x lay(3) by auto
    have sub: "span p n \<subseteq> bump_own static_range a"
      using owned_contract.own_live [OF static.bump_owned n(4)] ac by auto
    have off: "span q k \<inter> span p n = {}" if q: "(q, lay', k) \<in> cw_issued w h'" for q lay' k h'
    proof (cases "h' = h")
      case True
      then show ?thesis using n(3) span_footprint [OF q] by blast
    next
      case False
      obtain b where "cw_handles w h' = Some b" "span q k \<subseteq> bump_own static_range b"
        using c_inv_block [OF inv q] by metis
      then show ?thesis using i(4) [OF False _ a] sub by blast
    qed
    have keep: "same_on (span q k) (cw_mem w) m'" if "(q, lay', k) \<in> cw_issued w h'" for q lay' k h'
      using off [OF that] n(5) by (auto simp: same_on_def)
    let ?w = "w\<lparr>cw_handles := (cw_handles w)(h \<mapsto> a'), cw_mem := m', cw_issued := (cw_issued w)(h := insert (p, lay, n) (cw_issued w h)),
        cw_freed := (cw_freed w)(h := cw_freed w h)\<rparr>"
    have poison: "\<forall>x \<in> span q k. m' x = DEFAULT_POISON" if "(q, lay', k) \<in> cw_freed w h" for q lay' k
      using keep [OF i(5) [OF that]] i(7) [OF that] unfolding same_on_def by metis
    have "c_inv ?w"
    proof (rule c_inv_upd [OF inv h0 n(4) apart])
      show "cw_freed w h \<subseteq> insert (p, lay, n) (cw_issued w h)" using i(5) by blast
      show "\<forall>x \<in> span q k. m' x = DEFAULT_POISON" if "(q, lay', k) \<in> cw_freed w h" for q lay' k
        by (rule poison [OF that])
      show "k = lay_size lay'" if "(q, lay', k) \<in> insert (p, lay, n) (cw_issued w h)" for q lay' k
        using that i(6) n(1) lay(3) by blast
      show "same_on (span q k) (cw_mem w) m'" if "(q, lay', k) \<in> cw_freed w h'" for h' q lay' k
        by (rule keep [OF i(5) [OF that]])
    qed
    moreover have "same_on (footprint (c_live w h')) (cw_mem w) m'" for h'
      by (rule footprint_off [OF _ n(5)]) (metis off c_live_def DiffD1)
    then have "same_on (footprint (c_live w h' \<inter> c_live ?w h')) (cw_mem w) (cw_mem ?w)" for h'
      using same_on_mono [OF _ footprint_mono [OF Int_lower1]] by simp
    moreover have "same_on (- c_buffers w) (cw_mem w) m'"
      by (rule same_on_mono [OF n(5)]) (use sub a in \<open>auto simp: c_buffers_def ran_def\<close>)
    ultimately have "c_kept w ?w" unfolding c_kept_def by simp
    moreover have "alloc_with meth h sz align (cw_handles w, cw_mem w) = Some (p, (cw_handles w)(h \<mapsto> a'), m')"
      using c h0 a l Inr x by (simp add: alloc_with_def)
    moreover have "issue h sz align (p, (cw_handles w)(h \<mapsto> a'), m') w = ?w"
      using block_okD(2) [OF n(2)] n(1) lay(2) by (simp add: issue_def)
    ultimately show ?thesis by simp
  qed
qed

text \<open>An address and a size name at most one block.\<close>

lemma named_unique:
  assumes "c_inv w" "(p, lay, sz) \<in> cw_issued w h"
  shows "named p sz (cw_issued w h) = {(p, lay, sz)}"
proof -
  have same: "lay' = lay" if b: "(p, lay', sz) \<in> cw_issued w h" for lay'
  proof (rule ccontr)
    assume "lay' \<noteq> lay"
    then have "span p sz \<inter> span p sz = {}" using c_inv_disjoint [OF assms(1) b assms(2)] by blast
    moreover have "sz \<noteq> 0" by (rule c_inv_block [OF assms]) (rule block_okD(7))
    ultimately show False using span_base [of sz p] by blast
  qed
  show ?thesis
  proof (intro equalityI subsetI)
    fix b assume "b \<in> named p sz (cw_issued w h)"
    then obtain lay' where b: "b = (p, lay', sz)" "(p, lay', sz) \<in> cw_issued w h"
      by (cases b) (simp add: named_def)
    from same [OF b(2)] b(1) show "b \<in> {(p, lay, sz)}" by simp
  qed (use assms(2) in \<open>simp add: named_def\<close>)
qed

lemma named_nothing:
  assumes "c_inv w" "p = 0 \<or> sz = 0"
  shows "named p sz (cw_issued w h) = {}"
proof -
  have "q \<noteq> 0 \<and> n \<noteq> 0" if "(q, lay, n) \<in> cw_issued w h" for q lay n
    by (rule c_inv_block [OF assms(1) that]) (simp add: block_okD(2,7))
  then show ?thesis using assms(2) by (fastforce simp: named_def)
qed

lemma c_free_live_step:
  assumes inv: "c_inv w" and live: "(p, lay, lay_size lay) \<in> c_live w h"
  shows "\<exists>w'. c_exec (Free h p (lay_size lay) align) w = Some w' \<and> c_kept w w'"
proof -
  note i = c_invD [OF inv]
  have mem: "(p, lay, lay_size lay) \<in> cw_issued w h" "(p, lay, lay_size lay) \<notin> cw_freed w h" using live by (auto simp: c_live_def)
  obtain a where a: "cw_handles w h = Some a" "h \<noteq> 0" "bump_inv static_range static_ok a (cw_mem w) (cw_issued w h)"
    "span p (lay_size lay) \<subseteq> bump_own static_range a"
    "block_ok lay p (lay_size lay)" using c_inv_block [OF inv mem(1)] by metis
  let ?m = "write_bytes (cw_mem w) p DEFAULT_POISON (lay_size lay)"
  have m: "forge_bump_free h p (lay_size lay) align (cw_mem w) = Some ?m"
    using block_okD(2,3,7) [OF a(5)] by (simp add: forge_bump_free_def ptr_write_bytes_def)
  have off: "same_on (- span p (lay_size lay)) (cw_mem w) ?m"
    by (auto simp: same_on_def intro!: write_bytes_other)
  have keep: "same_on (span q k) (cw_mem w) ?m"
    if "(q, lay', k) \<in> cw_issued w h'" "(h, p, lay, lay_size lay) \<noteq> (h', q, lay', k)" for q lay' k h'
    by (rule same_on_mono [OF off]) (use c_inv_disjoint [OF inv mem(1) that] in blast)
  let ?w = "w\<lparr>cw_handles := (cw_handles w)(h \<mapsto> a), cw_mem := ?m, cw_issued := (cw_issued w)(h := cw_issued w h),
      cw_freed := (cw_freed w)(h := insert (p, lay, lay_size lay) (cw_freed w h))\<rparr>"
  have poison: "\<forall>x \<in> span q k. ?m x = DEFAULT_POISON" if "(q, lay', k) \<in> insert (p, lay, lay_size lay) (cw_freed w h)" for q lay' k
  proof (cases "(q, lay', k) = (p, lay, lay_size lay)")
    case True
    then show ?thesis by (auto simp: write_bytes_in)
  next
    case False
    then have f: "(q, lay', k) \<in> cw_freed w h" using that by blast
    show ?thesis using keep [OF i(5) [OF f]] False i(7) [OF f] unfolding same_on_def by (metis prod.inject)
  qed
  have "c_inv ?w"
  proof (rule c_inv_upd [OF inv a(2) arena_mono [OF a(3)]])
    show "same_on (span q k) (cw_mem w) ?m" if "h' \<noteq> h" "(q, lay', k) \<in> cw_freed w h'" for h' q lay' k
      by (rule keep [OF i(5) [OF that(2)]]) (use that(1) in blast)
    show "bump_own static_range a \<inter> bump_own static_range b = {}" if "h' \<noteq> h" "cw_handles w h' = Some b" for h' b
      by (rule i(4) [OF that(1) [symmetric] a(1) that(2)])
    show "insert (p, lay, lay_size lay) (cw_freed w h) \<subseteq> cw_issued w h" using mem(1) i(5) by blast
    show "k = lay_size lay'" if "(q, lay', k) \<in> cw_issued w h" for q lay' k by (rule i(6) [OF that])
  qed (rule poison)
  moreover have "same_on (footprint (c_live w h' \<inter> c_live ?w h')) (cw_mem w) ?m" for h'
  proof (rule footprint_off [OF _ off])
    fix q lay' k assume q: "(q, lay', k) \<in> c_live w h' \<inter> c_live ?w h'"
    then have "(q, lay', k) \<in> cw_issued w h'" "(h, p, lay, lay_size lay) \<noteq> (h', q, lay', k)"
      by (auto simp: c_live_def split: if_splits)
    from c_inv_disjoint [OF inv mem(1) this] show "span q k \<inter> span p (lay_size lay) = {}" by blast
  qed
  moreover have "same_on (- c_buffers w) (cw_mem w) ?m"
    by (rule same_on_mono [OF off]) (use a in \<open>auto simp: c_buffers_def ran_def\<close>)
  ultimately have "c_kept w ?w" unfolding c_kept_def by simp
  moreover have "c_exec (Free h p (lay_size lay) align) w = Some ?w"
    using a(1) by (simp add: m map_upd_triv named_unique [OF inv mem(1)])
  ultimately show ?thesis by blast
qed

lemma c_free_step:
  assumes inv: "c_inv w" and ok: "c_allowed (Free h p sz align) w"
  shows "\<exists>w'. c_exec (Free h p sz align) w = Some w' \<and> c_kept w w'"
proof (cases "p = 0 \<or> sz = 0")
  case True
  then have "c_exec (Free h p sz align) w = Some w"
    by (auto simp: forge_bump_free_def named_nothing [OF inv])
  then show ?thesis using c_kept_same [OF inv refl] by blast
next
  case False
  then obtain lay where lay: "(p, lay, sz) \<in> c_live w h" using ok by (auto simp: named_def)
  then have "sz = lay_size lay" using c_invD(6) [OF inv] by (auto simp: c_live_def)
  then show ?thesis using c_free_live_step [OF inv] lay by blast
qed

lemma c_reset_step:
  assumes inv: "c_inv w" and h: "h = 0 \<or> cw_handles w h \<noteq> None"
  shows "\<exists>w'. c_exec (Reset h) w = Some w' \<and> c_kept w w'"
proof (cases "h = 0")
  case True
  note i = c_invD [OF inv]
  have none: "cw_handles w 0 = None" using i(1) [of 0] by fastforce
  have e: "cw_issued w 0 = {}" by (rule i(3) [OF none])
  moreover have "cw_freed w 0 = {}" using i(5) [of _ 0] unfolding e by fast
  ultimately have "forget 0 w = w" by (simp add: forget_def fun_upd_idem)
  then show ?thesis using inv True by (simp add: forge_bump_reset_def c_kept_same)
next
  case False
  then obtain a where a: "cw_handles w h = Some a" using h by auto
  note i = c_invD [OF inv]
  have own: "bump_own static_range (bump_reset a) = bump_own static_range a"
    by (simp add: bump_own_def bump_reset_def)
  have apart: "bump_own static_range (bump_reset a) \<inter> bump_own static_range b = {}" if "h' \<noteq> h" "cw_handles w h' = Some b" for h' b
    unfolding own by (rule i(4) [OF that(1) [symmetric] a that(2)])
  have r: "bump_inv static_range static_ok (bump_reset a) (cw_mem w) {}"
    by (rule fixed_range_contract.bump_reset_inv [OF static.fixed_range_contract_axioms i(2) [OF a]])
  have "c_inv (w\<lparr>cw_handles := (cw_handles w)(h \<mapsto> bump_reset a), cw_mem := cw_mem w, cw_issued := (cw_issued w)(h := {}),
      cw_freed := (cw_freed w)(h := {})\<rparr>)"
    by (rule c_inv_upd [OF inv False r apart]) auto
  then show ?thesis using a False by (simp add: forge_bump_reset_def forget_def c_kept_same)
qed

lemma c_destroy_step:
  assumes inv: "c_inv w" and h: "h = 0 \<or> cw_handles w h \<noteq> None"
  shows "\<exists>w'. c_exec (Destroy h) w = Some w' \<and> c_kept w w'"
proof -
  note i = c_invD [OF inv]
  have eq: "c_exec (Destroy h) w = Some (forget h (w\<lparr>cw_handles := (cw_handles w)(h := None)\<rparr>))"
  proof (cases "h = 0")
    case True
    have "cw_handles w 0 = None" using i(1) [of 0] by fastforce
    then show ?thesis using True by (simp add: forge_bump_destroy_def fun_upd_idem)
  qed (use h in \<open>auto simp: forge_bump_destroy_def\<close>)
  have "c_inv (forget h (w\<lparr>cw_handles := (cw_handles w)(h := None)\<rparr>))"
    unfolding c_inv_def forget_def
    by (simp add: i(1-3,6)) (intro conjI allI impI subsetI ballI; (elim conjE)?; (erule (2) i(4) | erule i(5) | erule (1) i(7)))
  from c_kept_same [OF this, of w] show ?thesis using eq by (intro exI conjI) (auto simp: forget_def)
qed

lemma c_write_step:
  assumes inv: "c_inv w" and m: "same_on (- (\<Union>h. footprint (c_live w h))) (cw_mem w) m"
  shows "c_inv (w\<lparr>cw_mem := m\<rparr>)"
proof -
  note i = c_invD [OF inv]
  have "m x = DEFAULT_POISON" if f: "(p, lay, n) \<in> cw_freed w h" and x: "x \<in> span p n" for h p lay n x
  proof -
    have "x \<notin> footprint (c_live w h')" for h'
    proof
      assume "x \<in> footprint (c_live w h')"
      then obtain q lay' k where q: "(q, lay', k) \<in> cw_issued w h'" "(q, lay', k) \<notin> cw_freed w h'" "x \<in> span q k"
        by (force simp: footprint_def c_live_def)
      then have "(h, p, lay, n) \<noteq> (h', q, lay', k)" using f by blast
      from c_inv_disjoint [OF inv i(5) [OF f] q(1) this] show False using q(3) x by blast
    qed
    then show ?thesis using m i(7) [OF f x] by (auto simp: same_on_def)
  qed
  moreover have "h \<noteq> 0 \<and> bump_inv static_range static_ok a m (cw_issued w h)" if "cw_handles w h = Some a" for h a
    using i(1) [OF that] arena_mono [OF i(2) [OF that]] by blast
  ultimately show ?thesis
    unfolding c_inv_def
    by (simp add: i(3,6)) (intro conjI allI impI subsetI; (elim conjE)?; (erule (2) i(4) | erule i(5)))
qed

lemma c_step:
  assumes "c_inv w" "c_allowed c w"
  shows "\<exists>w'. c_exec c w = Some w' \<and> c_inv w' \<and> ((\<forall>m. c \<noteq> Write m) \<longrightarrow> c_kept w w')"
proof (cases c)
  case (Init h buf len)
  then show ?thesis using c_init_step [OF assms(1)] assms(2) unfolding c_kept_def by blast
next
  case (Alloc h sz align)
  then show ?thesis
    using c_alloc_step [OF assms(1) _ disjI1 [OF refl], of h sz align] assms(2)
    by (auto simp: forge_bump_alloc_def c_kept_def)
next
  case (Alloc_Zeroed h sz align)
  then show ?thesis
    using c_alloc_step [OF assms(1) _ disjI2 [OF refl], of h sz align] assms(2)
    by (auto simp: forge_bump_alloc_zeroed_def c_kept_def)
next
  case (Free h p sz align)
  then show ?thesis using c_free_step [OF assms(1), of h p sz align] assms(2) unfolding c_kept_def by blast
next
  case (Reset h)
  then show ?thesis using c_reset_step [OF assms(1)] assms(2) unfolding c_kept_def by auto
next
  case (Destroy h)
  then show ?thesis using c_destroy_step [OF assms(1)] assms(2) unfolding c_kept_def by auto
next
  case (Write m)
  then show ?thesis using c_write_step [OF assms(1)] assms(2) by simp
qed

lemma c_run_inv: "c_run m0 w \<Longrightarrow> c_inv w"
proof (induction rule: c_run.induct)
  case start
  then show ?case by (simp add: c_inv_def)
next
  case (call w c w')
  then show ?case using c_step [of w c] by auto
qed

end
