(* ===== verification/Conformance.thy ===== *)
theory Conformance
  imports Alloc_Traits
begin

text \<open>
  \<open>forge-alloc-core/src/testing.rs\<close>: the conformance checks that a custom allocator's tests can call, and
  their soundness: an allocator that meets the contract passes them. A check panics with a message; the
  messages are the type \<open>failure\<close>, and \<open>Free_Panicked\<close> is a panic inside the allocator.
  The ends of the probed blocks are computed as a release build does; a debug build panics on the sum for a
  block that ends at the very top of the address space, where Rust has no allocation.
\<close>

section \<open>The checks\<close>

datatype failure = Base_Moved | Size_Moved | Base_Outside | Last_Outside | End_Inside | Refused
  | Under_Aligned | Too_Short | Overlap | Write_Lost | Not_Zeroed | Issued_Outside | Far_Inside | Free_Panicked

definition assert_fixed_range_invariants :: "'b fixed_range \<Rightarrow> 'b \<Rightarrow> failure + unit" where
  "assert_fixed_range_invariants R r =
     (let b1 = fr_base R r; b2 = fr_base R r; s1 = fr_size R r; s2 = fr_size R r; past_addr = b1 + s1
      in if b1 \<noteq> b2 then Inl Base_Moved
         else if s1 \<noteq> s2 then Inl Size_Moved
         else if s1 > 0 \<and> \<not> fr_contains R r b1 then Inl Base_Outside
         else if s1 > 0 \<and> \<not> fr_contains R r (b1 + (s1 - 1)) then Inl Last_Outside
         else if past_addr \<noteq> 0 \<and> fr_contains R r past_addr then Inl End_Inside
         else Inr ())"

text \<open>The layout of 64 bytes at alignment 8, and the bytes written to the first block.\<close>

definition probe_layout :: layout where
  "probe_layout = \<lparr>lay_size = 64, lay_align = 8\<rparr>"

definition probe_pattern :: "u8 list" where
  "probe_pattern = map (\<lambda>i. xor 0xCC (word_of_nat i)) [0..<64]"

fun free_all :: "'a allocator \<Rightarrow> layout \<Rightarrow> addr list \<Rightarrow> 'a \<times> mem \<Rightarrow> failure + 'a \<times> mem" where
  "free_all A lay [] st = Inr st"
| "free_all A lay (p # ps) st =
     (case al_deallocate A p lay st of Panicked \<Rightarrow> Inl Free_Panicked | Done st' \<Rightarrow> free_all A lay ps st')"

definition assert_allocator_basic_round_trip :: "'a allocator \<Rightarrow> 'a \<times> mem \<Rightarrow> failure + 'a \<times> mem" where
  "assert_allocator_basic_round_trip A st =
     (case al_allocate A probe_layout st of
        (Inl e, st1) \<Rightarrow> Inl Refused
      | (Inr (p1, n1), st1) \<Rightarrow>
          if p1 mod 8 \<noteq> 0 then Inl Under_Aligned
          else if n1 < 64 then Inl Too_Short
          else (case al_allocate A probe_layout st1 of
                  (Inl e, st2) \<Rightarrow> Inl Refused
                | (Inr (p2, n2), s2, m2) \<Rightarrow>
                    if \<not> (p1 + 64 \<le> p2 \<or> p2 + 64 \<le> p1) then Inl Overlap
                    else let m3 = write_list m2 p1 probe_pattern
                         in if read_list m3 p1 64 \<noteq> probe_pattern then Inl Write_Lost
                            else (case al_allocate_zeroed A probe_layout (s2, m3) of
                                    (Inl e, st4) \<Rightarrow> Inl Refused
                                  | (Inr (p3, n3), s4, m4) \<Rightarrow>
                                      if read_list m4 p3 64 \<noteq> replicate 64 0 then Inl Not_Zeroed
                                      else free_all A probe_layout [p1, p2, p3] (s4, m4))))"

text \<open>One alignment, and all of them from 1 to 512.\<close>

definition probe_alignment :: "'a allocator \<Rightarrow> usize \<Rightarrow> 'a \<times> mem \<Rightarrow> failure + 'a \<times> mem" where
  "probe_alignment A align st =
     (let lay = \<lparr>lay_size = 64, lay_align = align\<rparr>
      in case al_allocate A lay st of
           (Inl e, st1) \<Rightarrow> Inr st1
         | (Inr (p, n), st1) \<Rightarrow> if p mod align \<noteq> 0 then Inl Under_Aligned else free_all A lay [p] st1)"

fun probe_alignments :: "'a allocator \<Rightarrow> nat list \<Rightarrow> 'a \<times> mem \<Rightarrow> failure + 'a \<times> mem" where
  "probe_alignments A [] st = Inr st"
| "probe_alignments A (k # ks) st =
     (case probe_alignment A (push_bit k 1) st of Inl f \<Rightarrow> Inl f | Inr st' \<Rightarrow> probe_alignments A ks st')"

definition assert_allocator_respects_alignment :: "'a allocator \<Rightarrow> 'a \<times> mem \<Rightarrow> failure + 'a \<times> mem" where
  "assert_allocator_respects_alignment A st = probe_alignments A [0..<10] st"

definition assert_combined_invariants ::
  "'a allocator \<Rightarrow> 'a fixed_range \<Rightarrow> 'a \<times> mem \<Rightarrow> failure + 'a \<times> mem" where
  "assert_combined_invariants A R st =
     (case assert_fixed_range_invariants R (fst st) of
        Inl f \<Rightarrow> Inl f
      | Inr u \<Rightarrow>
          (case al_allocate A probe_layout st of
             (Inl e, st1) \<Rightarrow> Inl Refused
           | (Inr (p, n), st1) \<Rightarrow>
               if \<not> fr_contains R (fst st1) p then Inl Issued_Outside
               else let outside = fr_base R (fst st1) + usize_max div 2
                    in if outside \<noteq> 0 \<and> fr_contains R (fst st1) outside then Inl Far_Inside
                       else case free_all A probe_layout [p] st1 of
                              Inl f \<Rightarrow> Inl f
                            | Inr st2 \<Rightarrow> assert_allocator_basic_round_trip A st2))"

section \<open>Soundness\<close>

text \<open>What a passed check leaves behind: the live blocks from before, untouched.\<close>

definition check_post ::
  "('a \<Rightarrow> mem \<Rightarrow> live \<Rightarrow> bool) \<Rightarrow> live \<Rightarrow> mem \<Rightarrow> failure set \<Rightarrow> failure + 'a \<times> mem \<Rightarrow> bool" where
  "check_post ainv L m fs r \<longleftrightarrow>
     (case r of Inl f \<Rightarrow> f \<in> fs | Inr (s', m') \<Rightarrow> ainv s' m' L \<and> same_on (footprint L) m m')"

lemma check_post_trans:
  "same_on (footprint L) m m1 \<Longrightarrow> check_post ainv L m1 fs r \<Longrightarrow> check_post ainv L m fs r"
  by (auto simp: check_post_def intro: same_on_trans split: sum.splits)

lemma fixed_range_passes: "assert_fixed_range_invariants R r = Inr ()"
  by (simp add: assert_fixed_range_invariants_def Let_def fr_contains_span span_def)
    (auto simp: word_less_nat_alt unat_minus_one unat_gt_0)

lemma is_pow2_probe: "k < 64 \<Longrightarrow> is_pow2 (push_bit k 1)"
  by (intro is_pow2I [of k]) simp_all

lemma probe_layout_valid: "valid_layout probe_layout"
  using is_pow2I [of 3 8] by (simp add: probe_layout_def valid_layout_def)

lemma aligned_mod: "is_pow2 a \<Longrightarrow> unat a dvd unat p \<Longrightarrow> p mod a = (0 :: addr)"
  by (simp add: unat_eq_0 [symmetric] unat_mod dvd_eq_mod_eq_0)

context allocator_contract
begin

lemma free_all_passes:
  assumes "ainv s m (L \<union> B)" "finite B" "map (\<lambda>p. p) ps = map fst bs" "distinct bs" "B = set bs" "L \<inter> B = {}"
    "\<And>b. b \<in> set bs \<Longrightarrow> fst (snd b) = lay"
  shows "check_post ainv L m {} (free_all A lay ps (s, m))"
  using assms
proof (induction bs arbitrary: ps B s m)
  case Nil
  then show ?case by (simp add: check_post_def)
next
  case (Cons b bs)
  obtain p l n where b: "b = (p, l, n)" by (cases b)
  have l: "l = lay" using Cons.prems(7) [of b] b by simp
  obtain qs where ps: "ps = p # qs" "map (\<lambda>p. p) qs = map fst bs" using Cons.prems(3) b by (cases ps) auto
  have mem: "(p, lay, n) \<in> L \<union> B" using Cons.prems(5) b l by simp
  have K: "(L \<union> B) - {(p, lay, n)} = L \<union> set bs" using Cons.prems(4-6) b l by auto
  obtain s1 m1 where d: "al_deallocate A p lay (s, m) = Done (s1, m1)" "ainv s1 m1 (L \<union> set bs)"
    "same_on (footprint (L \<union> set bs)) m m1"
    using deallocate [OF Cons.prems(1) mem] unfolding K by (auto simp: dealloc_post_def split: outcome.splits)
  have "check_post ainv L m1 {} (free_all A lay qs (s1, m1))"
    by (rule Cons.IH [OF d(2) _ ps(2)]) (use Cons.prems(4-7) in auto)
  moreover have "same_on (footprint L) m m1" using d(3) by (auto simp: same_on_def)
  ultimately show ?case using d(1) check_post_trans by (fastforce simp: ps(1))
qed

lemma free_one_passes:
  assumes "ainv s m (insert (p, lay, n) L)" "(p, lay, n) \<notin> L"
  shows "check_post ainv L m {} (free_all A lay [p] (s, m))"
  by (rule free_all_passes [where bs = "[(p, lay, n)]" and B = "{(p, lay, n)}"]) (use assms in auto)

lemma probe_alignment_passes:
  assumes "ainv s m L" "is_pow2 align" "unat align \<le> 512"
  shows "check_post ainv L m {} (probe_alignment A align (s, m))"
proof -
  let ?lay = "\<lparr>lay_size = 64, lay_align = align\<rparr>"
  have lay: "valid_layout ?lay" using assms(2,3) by (simp add: valid_layout_def)
  obtain r s1 m1 where al: "al_allocate A ?lay (s, m) = (r, s1, m1)" by (cases "al_allocate A ?lay (s, m)") auto
  note post = allocate [OF assms(1) lay, unfolded al]
  show ?thesis
  proof (cases r)
    case (Inl e)
    then show ?thesis using post al by (simp add: probe_alignment_def check_post_def alloc_post_def)
  next
    case (Inr x)
    obtain p n where x: "x = (p, n)" by (cases x)
    have p: "block_ok ?lay p n" "span p n \<inter> footprint L = {}" "ainv s1 m1 (insert (p, ?lay, n) L)" "same_on (footprint L) m m1"
      using post Inr x by (simp_all add: alloc_post_def)
    have "p mod align = 0" using aligned_mod [OF assms(2)] block_okD(5) [OF p(1)] by simp
    then show ?thesis
      using check_post_trans [OF p(4) free_one_passes [OF p(3) fresh_block [OF p(1,2)]]] al Inr x
      by (simp add: probe_alignment_def Let_def)
  qed
qed

lemma probe_alignments_pass:
  "ainv s m L \<Longrightarrow> (\<And>k. k \<in> set ks \<Longrightarrow> k < 10) \<Longrightarrow> check_post ainv L m {} (probe_alignments A ks (s, m))"
proof (induction ks arbitrary: s m)
  case Nil
  then show ?case by (simp add: check_post_def)
next
  case (Cons k ks)
  have k: "k < 10" using Cons.prems(2) by simp
  have le: "(2 :: nat) ^ k \<le> 2 ^ 9" using k by (intro power_increasing) auto
  have "unat (word_of_nat (2 ^ k) :: usize) = 2 ^ k" by (intro unat_word_of_nat) (use le in simp)
  then have u: "unat (2 ^ k :: usize) = 2 ^ k" by simp
  have "check_post ainv L m {} (probe_alignment A (push_bit k 1) (s, m))"
    using k by (intro probe_alignment_passes Cons.prems(1) is_pow2_probe) (use le in \<open>simp_all add: u\<close>)
  then obtain s1 m1 where s1: "probe_alignment A (push_bit k 1) (s, m) = Inr (s1, m1)" "ainv s1 m1 L" "same_on (footprint L) m m1"
    by (auto simp: check_post_def split: sum.splits)
  show ?case
    using check_post_trans [OF s1(3) Cons.IH [OF s1(2) Cons.prems(2)]] s1(1) by simp
qed

lemma alignment_check_passes:
  "ainv s m L \<Longrightarrow> check_post ainv L m {} (assert_allocator_respects_alignment A (s, m))"
  unfolding assert_allocator_respects_alignment_def by (rule probe_alignments_pass) auto

text \<open>The two 64-byte probes do not overlap, whatever wraps around at the top of the address space.\<close>

lemma no_overlap:
  assumes "block_ok probe_layout p n" "block_ok probe_layout q k" "span p n \<inter> span q k = {}"
  shows "p + 64 \<le> q \<or> q + 64 \<le> p"
proof -
  have nw: "no_wrap p n" "no_wrap q k" "n \<noteq> 0" "k \<noteq> 0" "64 \<le> unat n" "64 \<le> unat k"
    using block_okD [OF assms(1)] block_okD [OF assms(2)] by (auto simp: probe_layout_def)
  have "unat p + unat n \<le> unat q \<or> unat q + unat k \<le> unat p"
    using assms(3) by (simp add: span_disjoint_iff nw(1-4))
  then show ?thesis using nw(5,6) by (auto simp: word_le_nat_alt unat_plus_if')
qed

lemma round_trip_passes:
  assumes inv: "ainv s m L"
  shows "check_post ainv L m {Refused} (assert_allocator_basic_round_trip A (s, m))"
proof -
  note v = probe_layout_valid
  have len: "length probe_pattern = 64" by (simp add: probe_pattern_def)
  obtain r1 s1 m1 where a1: "al_allocate A probe_layout (s, m) = (r1, s1, m1)" by (cases "al_allocate A probe_layout (s, m)") auto
  show ?thesis
  proof (cases r1)
    case (Inl e)
    then show ?thesis using a1 by (simp add: assert_allocator_basic_round_trip_def check_post_def)
  next
    case r1: (Inr x)
    obtain p1 n1 where x: "x = (p1, n1)" by (cases x)
    have p1: "block_ok probe_layout p1 n1" "span p1 n1 \<inter> footprint L = {}" "ainv s1 m1 (insert (p1, probe_layout, n1) L)"
      "same_on (footprint L) m m1"
      using allocate [OF inv v, unfolded a1] r1 x by (simp_all add: alloc_post_def)
    have al1: "p1 mod 8 = 0" "\<not> n1 < 64"
      using aligned_mod [of 8 p1] is_pow2I [of 3 8] block_okD(4,5) [OF p1(1)]
      by (simp_all add: probe_layout_def word_less_nat_alt)
    obtain r2 s2 m2 where a2: "al_allocate A probe_layout (s1, m1) = (r2, s2, m2)" by (cases "al_allocate A probe_layout (s1, m1)") auto
    show ?thesis
    proof (cases r2)
      case (Inl e)
      then show ?thesis using a1 r1 x al1 a2 by (simp add: assert_allocator_basic_round_trip_def check_post_def)
    next
      case r2: (Inr y)
      obtain p2 n2 where y: "y = (p2, n2)" by (cases y)
      let ?L1 = "insert (p1, probe_layout, n1) L"
      let ?L2 = "insert (p2, probe_layout, n2) ?L1"
      have p2: "block_ok probe_layout p2 n2" "span p2 n2 \<inter> footprint ?L1 = {}" "ainv s2 m2 ?L2" "same_on (footprint ?L1) m1 m2"
        using allocate [OF p1(3) v, unfolded a2] r2 y by (simp_all add: alloc_post_def)
      have ov: "p1 + 64 \<le> p2 \<or> p2 + 64 \<le> p1" by (rule no_overlap [OF p1(1) p2(1)]) (use p2(2) in auto)
      let ?m3 = "write_list m2 p1 probe_pattern"
      have rd: "read_list ?m3 p1 64 = probe_pattern" using read_write_list [of probe_pattern m2 p1] len by simp
      have sub: "span p1 64 \<subseteq> span p1 n1" using block_ok_prefix(2) [OF p1(1)] by (simp add: probe_layout_def)
      have w: "same_on (- span p1 64) m2 ?m3"
        unfolding same_on_def using write_list_other [of _ p1 probe_pattern m2] len by (auto simp: span_def)
      have i3: "ainv s2 ?m3 ?L2" by (rule user_write [OF p2(3) same_on_mono [OF w]]) (use sub in auto)
      obtain r3 s4 m4 where a3: "al_allocate_zeroed A probe_layout (s2, ?m3) = (r3, s4, m4)"
        by (cases "al_allocate_zeroed A probe_layout (s2, ?m3)") auto
      show ?thesis
      proof (cases r3)
        case (Inl e)
        then show ?thesis
          using a1 r1 x al1 a2 r2 y ov rd a3 by (simp add: assert_allocator_basic_round_trip_def check_post_def Let_def)
      next
        case r3: (Inr z)
        obtain p3 n3 where z: "z = (p3, n3)" by (cases z)
        have p3: "block_ok probe_layout p3 n3" "span p3 n3 \<inter> footprint ?L2 = {}"
          "ainv s4 m4 (insert (p3, probe_layout, n3) ?L2)" "same_on (footprint ?L2) ?m3 m4" "\<forall>a \<in> span p3 64. m4 a = 0"
          using allocate_zeroed [OF i3 v, unfolded a3] r3 z by (simp_all add: alloc_post_def zeroed_post_def probe_layout_def)
        have zero: "read_list m4 p3 64 = replicate 64 0"
        proof (rule nth_equalityI)
          fix i assume i: "i < length (read_list m4 p3 64)"
          have "p3 + word_of_nat i \<in> span p3 64" using i by (simp add: span_def word_less_nat_alt unat_word_of_nat)
          then show "read_list m4 p3 64 ! i = replicate 64 0 ! i" using i p3(5) by (simp add: read_list_def)
        qed simp
        have ne: "(p1, probe_layout, n1) \<notin> L" "(p2, probe_layout, n2) \<notin> ?L1" "(p3, probe_layout, n3) \<notin> ?L2"
          by (rule fresh_block [OF p1(1,2)] fresh_block [OF p2(1,2)] fresh_block [OF p3(1,2)])+
        have fr: "check_post ainv L m4 {} (free_all A probe_layout [p1, p2, p3] (s4, m4))"
          by (rule free_all_passes [where bs = "[(p1, probe_layout, n1), (p2, probe_layout, n2), (p3, probe_layout, n3)]"
                and B = "{(p1, probe_layout, n1), (p2, probe_layout, n2), (p3, probe_layout, n3)}"])
            (use ne p3(3) in \<open>auto simp: insert_commute\<close>)
        have "footprint L \<subseteq> - span p1 64" using p1(2) sub by blast
        then have "same_on (footprint L) m m4"
          using p1(4) p2(4) same_on_mono [OF w] p3(4) by (auto simp: same_on_def)
        from check_post_trans [OF this fr] have "check_post ainv L m {Refused} (free_all A probe_layout [p1, p2, p3] (s4, m4))"
          by (auto simp: check_post_def split: sum.splits)
        then show ?thesis
          using a1 r1 x al1 a2 r2 y ov rd a3 r3 z zero
          by (simp add: assert_allocator_basic_round_trip_def Let_def del: free_all.simps) (use ov in blast)
      qed
    qed
  qed
qed

end

context ranged_contract
begin

lemma combined_check_passes:
  assumes inv: "ainv s m L" and size: "fr_size R s \<le> isize_max"
  shows "check_post ainv L m {Refused} (assert_combined_invariants A R (s, m))"
proof -
  obtain r s1 m1 where al: "al_allocate A probe_layout (s, m) = (r, s1, m1)" by (cases "al_allocate A probe_layout (s, m)") auto
  note post = allocate [OF inv probe_layout_valid, unfolded al]
  show ?thesis
  proof (cases r)
    case (Inl e)
    then show ?thesis using al by (simp add: assert_combined_invariants_def fixed_range_passes check_post_def)
  next
    case (Inr x)
    obtain p n where x: "x = (p, n)" by (cases x)
    have p: "block_ok probe_layout p n" "span p n \<inter> footprint L = {}" "ainv s1 m1 (insert (p, probe_layout, n) L)"
      "same_on (footprint L) m m1"
      using post Inr x by (simp_all add: alloc_post_def)
    have "p \<in> span (fr_base R s1) (fr_size R s1)"
      using in_range [OF p(3)] span_base [OF block_okD(7) [OF p(1)]] by auto
    then have inside: "fr_contains R s1 p" by (simp add: fr_contains_span)
    have "fr_size R s1 = fr_size R s" using allocate_range [OF inv probe_layout_valid al] by simp
    then have "\<not> usize_max div 2 < fr_size R s1"
      using size by (simp add: not_less isize_max_def)
    then have far: "\<not> fr_contains R s1 (fr_base R s1 + usize_max div 2)"
      by (simp add: fr_contains_span span_def)
    have "check_post ainv L m {} (free_all A probe_layout [p] (s1, m1))"
      by (rule check_post_trans [OF p(4) free_one_passes [OF p(3) fresh_block [OF p(1,2)]]])
    then obtain s2 m2 where f: "free_all A probe_layout [p] (s1, m1) = Inr (s2, m2)" "ainv s2 m2 L" "same_on (footprint L) m m2"
      by (auto simp: check_post_def split: sum.splits simp del: free_all.simps)
    show ?thesis
      using check_post_trans [OF f(3) round_trip_passes [OF f(2)]] al Inr x inside far f(1)
      by (simp add: assert_combined_invariants_def fixed_range_passes Let_def del: free_all.simps)
  qed
qed

end

end
