(* ===== verification/Interface_Properties.thy ===== *)
theory Interface_Properties
  imports Examples Std_Compat C_Interface Conformance
begin

text \<open>
  The properties of the library's edges: the \<open>StdCompat\<close> adapter, the C interface and the conformance
  checks for other allocators.
\<close>

section \<open>StdCompat\<close>

text \<open>
  C28. Over any allocator that meets the contract, \<open>StdCompat\<close> meets the contract of
  \<open>allocator_api2\<close>, whose layouts may have size zero: requests of size zero succeed at an aligned address
  without reaching the inner allocator, every block goes back with the layout it was issued for, and
  growing and shrinking, to and from size zero as well, keep the contents, as long as the alignment stays.
\<close>

theorem std_compat_correct:
  assumes "allocator_contract A ainv" "std_inv ainv w m Z"
  shows "(\<forall>l. std_ok l \<longrightarrow> std_alloc_post ainv Z l m (compat_allocate A l (w, m)) \<and>
      (std_size l = 0 \<longrightarrow> compat_allocate A l (w, m) = (Inr (std_align l, 0), w, m))) \<and>
    (\<forall>(p, l, n) \<in> Z. std_dealloc_post ainv (Z - {(p, l, n)}) m (compat_deallocate A p l (w, m))) \<and>
    (\<forall>(p, old, n) \<in> Z. \<forall>new. std_ok new \<and> std_align new = std_align old \<longrightarrow>
      (std_size old \<le> std_size new \<longrightarrow>
         std_resize_post ainv Z (Z - {(p, old, n)}) p (std_size old) new m (compat_grow A p old new (w, m))) \<and>
      (std_size new \<le> std_size old \<longrightarrow>
         std_resize_post ainv Z (Z - {(p, old, n)}) p (std_size new) new m (compat_shrink A p old new (w, m))))"
proof (intro conjI allI impI ballI; (elim conjE)?)
  fix l assume l: "std_ok l"
  show "std_alloc_post ainv Z l m (compat_allocate A l (w, m))"
    by (rule allocator_contract.compat_allocate_post [OF assms l])
  show "compat_allocate A l (w, m) = (Inr (std_align l, 0), w, m)" if "std_size l = 0"
    using that by (simp add: compat_allocate_def try_from_layout_def from_size_align_def dangling_for_align_def)
next
  fix b assume "b \<in> Z"
  then show "case b of (p, l, n) \<Rightarrow> std_dealloc_post ainv (Z - {(p, l, n)}) m (compat_deallocate A p l (w, m))"
    using allocator_contract.compat_deallocate_post [OF assms] by auto
next
  fix b assume "b \<in> Z"
  then show "case b of (p, old, n) \<Rightarrow> \<forall>new. std_ok new \<and> std_align new = std_align old \<longrightarrow>
      (std_size old \<le> std_size new \<longrightarrow>
         std_resize_post ainv Z (Z - {(p, old, n)}) p (std_size old) new m (compat_grow A p old new (w, m))) \<and>
      (std_size new \<le> std_size old \<longrightarrow>
         std_resize_post ainv Z (Z - {(p, old, n)}) p (std_size new) new m (compat_shrink A p old new (w, m)))"
    using allocator_contract.compat_grow_post [OF assms] allocator_contract.compat_shrink_post [OF assms] by auto
qed

definition demo_zst :: std_layout where
  "demo_zst = \<lparr>std_size = 0, std_align = 8\<rparr>"

lemma demo_compat_ok: "std_inv (inline_inv 256) (compat_new demo_inline) m {}"
  using demo_inline_ok by (simp add: std_inv_def compat_new_def)

theorem std_compat_correct_witness:
  "std_alloc_post (inline_inv 256) {} demo_zst zero_mem (compat_allocate (inline_allocator 256) demo_zst (compat_new demo_inline, zero_mem)) \<and>
   compat_allocate (inline_allocator 256) demo_zst (compat_new demo_inline, zero_mem) = (Inr (8, 0), compat_new demo_inline, zero_mem)"
proof -
  have z: "std_ok demo_zst" "std_size demo_zst = 0" "std_align demo_zst = 8"
    by (simp_all add: std_ok_def demo_zst_def)
  from conjunct1 [OF std_compat_correct [OF inline.allocator_contract_axioms demo_compat_ok, of zero_mem],
      THEN spec, THEN mp, OF z(1)]
  show ?thesis unfolding z(2,3) by blast
qed

text \<open>
  C35. \<open>allocator_api2\<close> lets \<open>grow\<close> change the alignment, the crate's own \<open>Allocator::grow\<close> does not, and
  the adapter forwards the one to the other, for every inner allocator and every pair of layouts of non-zero
  size, without looking at the alignments. Over a \<open>BumpArena\<close> on any backing, growing the last block when
  there is room returns the block where it is: the result is the block asked for only if the old address
  happens to be a multiple of the new alignment. That is a release build; in a debug build the assertion of
  \<open>BumpArena::grow\<close> panics on such a call when the alignments differ.
\<close>

theorem std_compat_grow_misaligns:
  assumes "fixed_range_contract R rinv" "bump_inv R rinv a m L" "(p, old, n) \<in> L" "std_ok new"
    "lay_size old \<le> std_size new"
    "unat p + unat (lay_size old) = unat (fr_base R (ba_backing a)) + unat (ba_cursor a)"
    "unat p + unat (std_size new) \<le> unat (fr_base R (ba_backing a)) + unat (ba_capacity a)"
    "fst (fr_commit R (ba_backing a) (p - fr_base R (ba_backing a)) (std_size new)) = Inr ()"
  shows "(\<forall>(A :: 'a allocator) q l l' st. valid_layout l \<and> valid_layout l' \<longrightarrow>
      compat_grow A q (to_layout l) (to_layout l') st = via_resize sc_inner compat_put (al_grow A q l l') st) \<and>
    (\<exists>w. compat_grow (bump_allocator R) p (to_layout old) new (compat_new a, m) = Done (Inr (p, std_size new), w, m)) \<and>
    (std_block_ok new p (std_size new) \<longleftrightarrow> unat (std_align new) dvd unat p) \<and>
    (std_align new \<noteq> lay_align old \<longrightarrow>
      compat_grow (bump_allocator_debug R) p (to_layout old) new (compat_new a, m) = Panicked)"
proof -
  have old: "block_ok old p n"
    using assms(2,3) by (auto simp: bump_inv_def bump_live_def dest: live_okD)
  then have vo: "valid_layout old" by (rule block_okD(1))
  have "std_size new \<noteq> 0" using assms(5) vo by (auto simp: valid_layout_def)
  then obtain nz where nz: "valid_layout nz" "to_layout nz = new" "lay_size nz = std_size new" "lay_align nz = std_align new"
    using try_from_cases [OF assms(4)] by metis
  have fwd: "compat_grow A q (to_layout l) (to_layout l') st = via_resize sc_inner compat_put (al_grow A q l l') st"
    if "valid_layout l" "valid_layout l'" for A :: "'z allocator" and q l l' st
    using that try_from_Inr [of "to_layout l" l] try_from_Inr [of "to_layout l'" l'] by (simp add: compat_grow_def)
  note g = fixed_range_contract.bump_grow_last [OF assms(1-3,6), of nz, unfolded nz(3), OF assms(7,8)]
  obtain a' where a': "bump_grow R p old nz (a, m) = Done (Inr (p, std_size new), a', m)" using g(1) by blast
  show ?thesis
  proof (intro conjI allI impI; (elim conjE)?)
    show "\<exists>w. compat_grow (bump_allocator R) p (to_layout old) new (compat_new a, m) = Done (Inr (p, std_size new), w, m)"
      using fwd [OF vo nz(1), of "bump_allocator R"] a' nz(2)
      by (simp add: via_resize_def bump_allocator_def compat_new_def compat_put_def)
    show "std_block_ok new p (std_size new) \<longleftrightarrow> unat (std_align new) dvd unat p"
      using g(2) block_okD(2) [OF old] by (simp add: std_block_ok_def)
    show "compat_grow (bump_allocator_debug R) p (to_layout old) new (compat_new a, m) = Panicked"
      if "std_align new \<noteq> lay_align old"
      using fwd [OF vo nz(1), of "bump_allocator_debug R"] that nz
      by (simp add: via_resize_def bump_allocator_debug_def bump_grow_debug_def)
  qed (rule fwd)
qed

definition odd_layout :: layout where
  "odd_layout = \<lparr>lay_size = 8, lay_align = 1\<rparr>"

definition odd_arena :: "static_backed bump_arena" where
  "odd_arena = demo_arena\<lparr>ba_cursor := 9\<rparr>"

lemma odd_arena_ok: "bump_inv static_range static_ok odd_arena m {(4097, odd_layout, 8)}"
  by (simp add: bump_inv_def bump_live_def live_ok_def block_ok_def odd_arena_def odd_layout_def demo_arena_def
      demo_buf_def static_new_def static_range_def static_ok_def no_wrap_def valid_layout_def)

theorem std_compat_grow_misaligns_witness:
  "(\<exists>w. compat_grow (bump_allocator static_range) 4097 \<lparr>std_size = 8, std_align = 1\<rparr> \<lparr>std_size = 16, std_align = 8\<rparr>
      (compat_new odd_arena, zero_mem) = Done (Inr (4097, 16), w, zero_mem)) \<and>
   \<not> std_block_ok \<lparr>std_size = 16, std_align = 8\<rparr> 4097 16 \<and>
   compat_grow (bump_allocator_debug static_range) 4097 \<lparr>std_size = 8, std_align = 1\<rparr> \<lparr>std_size = 16, std_align = 8\<rparr>
      (compat_new odd_arena, zero_mem) = Panicked"
proof -
  have "std_ok \<lparr>std_size = 16, std_align = 8\<rparr>" by (simp add: std_ok_def)
  note t = std_compat_grow_misaligns [OF static.fixed_range_contract_axioms odd_arena_ok [of zero_mem] singletonI this]
  have f: "fr_base static_range (ba_backing odd_arena) = 4096" "ba_capacity odd_arena = 64" "ba_cursor odd_arena = 9"
    "fst (fr_commit static_range (ba_backing odd_arena) x y) = Inr ()" for x y
    by (simp_all add: odd_arena_def demo_arena_def demo_buf_def static_new_def static_range_def default_commit_def)
  show ?thesis
    using t [THEN conjunct2] by (simp add: f odd_layout_def to_layout_def)
qed

section \<open>The C interface\<close>

text \<open>
  C27. A C program that keeps the functions' safety contracts, with any number of handles over buffers
  that do not overlap, never meets undefined behaviour in the library: whatever it passes where the
  contracts ask for nothing, null pointers, lengths over \<open>isize::MAX\<close>, sizes of zero and any alignment
  included, every call has a result. Every block issued since its handle's last reset lies in that
  handle's buffer, aligned, of the size asked for and apart from every other block, no call changes a
  block that stays live or writes outside the buffers, and a freed block reads as the poison pattern, for
  whatever alignment it was freed, until its handle is reset.
\<close>

theorem c_interface_correct:
  assumes "c_run m0 w" "c_allowed c w"
  shows "(\<exists>w'. c_exec c w = Some w' \<and>
      ((\<forall>m. c \<noteq> Write m) \<longrightarrow>
         (\<forall>h. same_on (footprint (c_live w h \<inter> c_live w' h)) (cw_mem w) (cw_mem w')) \<and>
         same_on (- c_buffers w) (cw_mem w) (cw_mem w'))) \<and>
    (\<forall>h p lay n. (p, lay, n) \<in> cw_issued w h \<longrightarrow>
      (\<exists>a. cw_handles w h = Some a \<and> span p n \<subseteq> bump_own static_range a \<and> block_ok lay p n \<and> n = lay_size lay)) \<and>
    (\<forall>h h' p lay n q lay' k. (p, lay, n) \<in> cw_issued w h \<and> (q, lay', k) \<in> cw_issued w h' \<and>
      (h, p, lay, n) \<noteq> (h', q, lay', k) \<longrightarrow> span p n \<inter> span q k = {}) \<and>
    (\<forall>h p lay n. (p, lay, n) \<in> cw_freed w h \<longrightarrow> (\<forall>x \<in> span p n. cw_mem w x = 0xDE))"
proof -
  have inv: "c_inv w" by (rule c_run_inv [OF assms(1)])
  have "\<forall>h p lay n. (p, lay, n) \<in> cw_issued w h \<longrightarrow>
      (\<exists>a. cw_handles w h = Some a \<and> span p n \<subseteq> bump_own static_range a \<and> block_ok lay p n \<and> n = lay_size lay)"
    using c_inv_block [OF inv] by metis
  moreover have "\<forall>h h' p lay n q lay' k. (p, lay, n) \<in> cw_issued w h \<and> (q, lay', k) \<in> cw_issued w h' \<and>
      (h, p, lay, n) \<noteq> (h', q, lay', k) \<longrightarrow> span p n \<inter> span q k = {}"
    using c_inv_disjoint [OF inv] by blast
  moreover have "\<forall>h p lay n. (p, lay, n) \<in> cw_freed w h \<longrightarrow> (\<forall>x \<in> span p n. cw_mem w x = 0xDE)"
    using c_invD(7) [OF inv] by (simp add: DEFAULT_POISON_def)
  ultimately show ?thesis using c_step [OF inv assms(2)] unfolding c_kept_def by blast
qed

definition c_demo :: "mem \<Rightarrow> c_world" where
  "c_demo m = \<lparr>cw_handles = Map.empty, cw_mem = m, cw_issued = (\<lambda>h. {}), cw_freed = (\<lambda>h. {})\<rparr>"

definition c_demo_init :: "mem \<Rightarrow> c_world" where
  "c_demo_init m = (c_demo m)\<lparr>cw_handles := [256 \<mapsto> demo_arena]\<rparr>"

definition c_demo_block :: "mem \<Rightarrow> c_world" where
  "c_demo_block m = (c_demo m)\<lparr>cw_handles := [256 \<mapsto> demo_arena\<lparr>ba_cursor := 8\<rparr>],
     cw_issued := (\<lambda>h. {})(256 := {(4096, demo_layout, 8)})\<rparr>"

lemma c_demo_calls:
  "c_exec (Init 256 4096 64) (c_demo m) = Some (c_demo_init m)"
  "c_exec (Alloc 256 8 8) (c_demo_init m) = Some (c_demo_block m)"
proof -
  show "c_exec (Init 256 4096 64) (c_demo m) = Some (c_demo_init m)"
    by (simp add: forge_bump_init_def from_raw_parts_mut_def handle_write_def no_wrap_def isize_max_def bump_new_def static_range_def static_new_def checked_add_def
        forget_def c_demo_def c_demo_init_def demo_arena_def demo_buf_def fun_eq_iff)
  have "from_size_align 8 8 = Inr demo_layout"
    by (simp add: from_size_align_Inr demo_layout_ok) (simp add: demo_layout_def)
  then show "c_exec (Alloc 256 8 8) (c_demo_init m) = Some (c_demo_block m)"
    by (simp add: forge_bump_alloc_def alloc_with_def c_demo_init_def c_demo_block_def c_demo_def bump_allocator_def
        bump_allocate_def bump_defs demo_arena_def demo_buf_def static_new_def static_range_def default_commit_def
        demo_layout_def issue_def fun_eq_iff)
qed

theorem c_interface_correct_witness:
  "(\<exists>w'. c_exec (Free 256 4096 8 3) (c_demo_block zero_mem) = Some w') \<and>
   (\<exists>w'. c_exec (Init 512 4096 (2 ^ 63)) (c_demo zero_mem) = Some w')"
proof -
  have s: "c_run zero_mem (c_demo zero_mem)" unfolding c_demo_def by (rule c_run.start)
  then have "c_run zero_mem (c_demo_init zero_mem)"
    by (rule c_run.call [OF _ _ c_demo_calls(1)]) (simp add: no_wrap_def c_demo_def)
  then have r: "c_run zero_mem (c_demo_block zero_mem)"
    by (rule c_run.call [OF _ _ c_demo_calls(2)]) (simp add: c_demo_init_def)
  have l: "c_allowed (Free 256 4096 8 3) (c_demo_block zero_mem)"
    by (simp add: named_def c_live_def c_demo_block_def c_demo_def)
  have n: "c_allowed (Init 512 4096 (2 ^ 63)) (c_demo zero_mem)"
    by (simp add: no_wrap_def c_demo_def)
  from conjunct1 [OF c_interface_correct [OF r l]] conjunct1 [OF c_interface_correct [OF s n]] show ?thesis
    by (elim exE conjE) (intro conjI exI)
qed

section \<open>Conformance checks\<close>

text \<open>
  C39. The conformance checks raise no false alarm: run on any allocator that meets the contract, in any
  state, they pass and leave its live blocks as they were; the only panic left is that of a probe the
  allocator refused, and the alignment check has none.
\<close>

theorem conformance_sound:
  assumes "ranged_contract A ainv R" "ainv s m L" "fr_size R s \<le> isize_max"
  shows "assert_fixed_range_invariants R s = Inr () \<and>
    check_post ainv L m {} (assert_allocator_respects_alignment A (s, m)) \<and>
    check_post ainv L m {Refused} (assert_allocator_basic_round_trip A (s, m)) \<and>
    check_post ainv L m {Refused} (assert_combined_invariants A R (s, m))"
proof -
  have A: "allocator_contract A ainv" by (rule ranged_contract.axioms(1) [OF assms(1)])
  show ?thesis
    by (intro conjI fixed_range_passes ranged_contract.combined_check_passes [OF assms]
        allocator_contract.alignment_check_passes [OF A assms(2)] allocator_contract.round_trip_passes [OF A assms(2)])
qed

theorem conformance_sound_witness:
  "check_post (inline_inv 256) {} zero_mem {Refused}
     (assert_combined_invariants (inline_allocator 256) (inline_range 256) (demo_inline, zero_mem))"
proof -
  have "fr_size (inline_range 256) demo_inline \<le> isize_max" by (simp add: inline_range_def isize_max_def)
  from conformance_sound [OF inline.ranged_contract_axioms demo_inline_ok this] show ?thesis by blast
qed

end
