(* ===== verification/Spec2Isabelle.thy ===== *)
theory Spec2Isabelle
  imports Layout_Properties Hardening_Properties Instrument_Properties Pool_Properties Class_Properties
    Concurrent_Properties Mapping_Properties Owner_Properties Secure_Properties Jitter_Properties Recycling_Properties
    Column_Properties Page_Properties Interface_Properties
begin

text \<open>
  A model of \<open>forge-alloc\<close>, a library of composable memory allocators in Rust. The crate
  \<open>forge-alloc-core\<close> defines the traits; \<open>forge-alloc\<close> implements them for backings (which own a
  range of memory), layouts (which cut a backing into blocks) and hardening wrappers (which forward to
  an inner allocator and add a check). A user composes the types; a call passes from the outermost
  wrapper to the backing.

  Conventions.
  \<^item> The target has 64-bit pointers: \<open>usize\<close> and addresses are 64-bit words that wrap, with
    \<open>checked_*\<close> and \<open>saturating_*\<close> written out. The build is a release build: \<open>debug_assert!\<close> is not
    modelled, but for the two assertions of \<open>BumpArena::grow\<close> (\<open>bump_grow_debug\<close>). Memory is a function from addresses to bytes, read and written little-endian.
  \<^item> A trait is a record of its methods over the state of the implementor (\<open>allocator\<close>,
    \<open>fixed_range\<close>, \<open>os_backed\<close>, \<open>protection\<close>), an \<open>impl\<close> is a value of that record, and a generic
    wrapper is a function from the record of its parameter to its own. Interior mutation through
    \<open>&self\<close> is state passing.
  \<^item> \<open>Result\<close> is \<open>'a res\<close>, a sum with the error on the left; a call that may panic returns an
    \<open>outcome\<close>.
  \<^item> Code that is not in the repository is a parameter: the operating system (\<open>kernel\<close>), the global
    allocator, the SipHash function, the random seeds.

  The contract. \<open>Alloc_Traits\<close> states the numbered safety rules of the \<open>Allocator\<close> documentation as
  locales over a ghost set of live blocks, each an address, the layout asked for and the extent
  returned: \<open>allocator_core\<close> and \<open>allocator_contract\<close> (every block aligned, large enough and disjoint from
  the live ones, live bytes untouched by every call, resizing keeps the contents),
  \<open>fixed_range_contract\<close> and \<open>ranged_contract\<close> (blocks lie in one stable range); \<open>Ownership\<close> adds
  \<open>owned_contract\<close> (the memory an allocator may touch). Each implementor's theory proves that it meets the
  contract when its parameter does, so that a composition's correctness is a composition of theorems.

  The theories, with the files of the repository they follow (under \<open>crates/\<close>; \<open>core\<close> is
  \<open>forge-alloc-core/src\<close>, the rest \<open>forge-alloc/src\<close>).
  \<^item> \<open>Rust_Prelude\<close>: machine arithmetic, memory, errors; \<open>NonZero_Layout\<close>: \<open>core/traits/non_zero_layout.rs\<close>;
    \<open>Alloc_Traits\<close>: \<open>allocator.rs\<close>, \<open>fixed_range.rs\<close>, \<open>os_backed.rs\<close>; \<open>Freelist_Protection\<close>:
    \<open>freelist_protection.rs\<close>.
  \<^item> \<open>Bump_Carve\<close>: the cursor arithmetic shared by \<open>Bump_Arena\<close> and \<open>Bump_Scope\<close> (\<open>layout/bump.rs\<close>),
    \<open>Stack_Allocator\<close> (\<open>stack_alloc.rs\<close>), \<open>Shared_Bump\<close> (\<open>shared_bump.rs\<close>), \<open>Backings\<close> (\<open>backing/inline.rs\<close>,
    \<open>static_buf.rs\<close>, \<open>heap.rs\<close>, \<open>system.rs\<close>) and \<open>Mmap_Backed\<close> (\<open>backing/mmap.rs\<close>).
  \<^item> \<open>Slot_Region\<close>: slots of equal size and free chains through them, shared by \<open>Slab\<close> (\<open>layout/slab.rs\<close>),
    \<open>Untyped_Slab\<close>, \<open>Class_Table\<close> and \<open>Size_Classed\<close> (\<open>size_classed.rs\<close>), \<open>Generational\<close> (\<open>generational.rs\<close>),
    \<open>Extendable_Slab\<close>, \<open>Extendable_Growth\<close> and \<open>Extendable_Threads\<close> (\<open>extendable_slab.rs\<close>).
  \<^item> \<open>Arena_Pool\<close>: \<open>layout/arena_pool.rs\<close>, over any factory of backings; \<open>pool_step\<close> interleaves the pool's
    operations with the clients of the arenas it has handed out.
  \<^item> \<open>Slab_Owner\<close>: the operations of \<open>layout/slab_owner.rs\<close> (a slab with a queue of blocks freed by
    other threads, drained by an adaptive policy); \<open>Owner_Threads\<close>: the owner and any number of remotes,
    one step per critical section of the queue.
  \<^item> \<open>Fallback\<close> (\<open>layout/fallback.rs\<close>); \<open>Pass_Through\<close>: what wrappers share; \<open>Quarantine\<close>,
    \<open>Scrubbing\<close> (\<open>poison.rs\<close>, \<open>zeroize.rs\<close>), \<open>Faulty\<close> (with \<open>alloc_fault_policy.rs\<close>), \<open>Instrumentation\<close>
    (\<open>statistics.rs\<close>) and \<open>Watermark\<close> (\<open>hardening/\<close>); \<open>Hosted_Blocks\<close>: blocks placed inside larger blocks of
    the inner allocator, shared by \<open>Canary\<close> and \<open>Cache_Jitter\<close> (\<open>cache_jitter.rs\<close>).
  \<^item> \<open>Guard_Page\<close> (\<open>guard_page.rs\<close>) and \<open>Secure_Regions\<close>: \<open>split_metadata.rs\<close>, \<open>backing/locked_mmap.rs\<close> and
    the \<open>CryptoSlab\<close> of \<open>lib.rs\<close> built from them. \<open>GuardPage::new\<close> takes the page size from its caller and
    does not compare it with the system's; the theorems ask for a multiple of it.
  \<^item> \<open>Huge_Pages\<close>: \<open>backing/huge_page_backed.rs\<close> and \<open>hardening/huge_page.rs\<close>; \<open>Numa_Local\<close>: \<open>numa.rs\<close>. The
    mapping and \<open>mbind\<close> calls are parameters that see the flags and masks the code computes.
  \<^item> The edges of the library: \<open>Std_Compat\<close>, the adapter of \<open>non_zero_layout.rs\<close> onto \<open>allocator_api2\<close>;
    \<open>C_Interface\<close>, the functions of \<open>forge-alloc-capi/src/lib.rs\<close>, where undefined behaviour is a missing
    result, with the C programs that may call them (\<open>c_run\<close>); \<open>Conformance\<close>, the checks of \<open>core/testing.rs\<close>.
  \<^item> \<open>Aligned_Column\<close>: the growable byte buffer of \<open>forge-containers/src/aligned_col.rs\<close>, over the global
    allocator.
  \<^item> \<open>Client_Runs\<close>: runs of a client and the abstract allocator they refine; \<open>Examples\<close>: concrete
    states; the \<open>_Properties\<close> theories: the properties, grouped by component; this theory: the composition
    of \<open>examples/auth_service.rs\<close>.

  What the lemmas show. For each allocator: an invariant that relates its state, the memory and the
  live blocks, kept by every operation, and from it the contract; constructors establish it, \<open>Drop\<close>
  gives back what was taken; refusals happen only when they must (a full slab, a refusing kernel). Where an
  allocator routes by address (\<open>routed_to\<close>, \<open>sc_routed_to\<close>), every live block is routed to its issuer; a
  resize that is the trait's default allocates anew and frees the old block at its issuer.
  For the hardening wrappers: what each detects or delays. For the attacker who overwrites freed
  memory: a slab with a keyed protection hands out only its own slots, and abandons a tampered chain. For
  the parts shared between threads: step relations (\<open>sb_step\<close>, \<open>ext_step\<close>, \<open>own_step\<close>) with invariants by rule
  induction over runs, in which relaxed loads may be stale and weak exchanges may fail.

  Bounds and fuel. \<open>shared_bump_loop\<close> counts spurious failures down and terminates by a measure; every
  other loop is structural recursion over a list or a count. Counters of bytes and events wrap as the
  code's do; the theorems that count say up to which bound.

  Not modelled. Poisoned mutexes, the other debug assertions and the debug builds' extra checks; unwinding, that is
  the drops of the parts already built when the construction of a composition fails; \<open>PacMAC\<close>, whose
  bodies are \<open>todo!()\<close>; the struct padding of \<open>cache_padded.rs\<close>; the language items that
  \<open>forge-alloc-capi\<close> adds for a stand-alone library; the benchmarks, the fuzz targets and the tests.
\<close>

section \<open>A whole composition\<close>

text \<open>
  \<open>TokenPool\<close> of \<open>examples/auth_service.rs\<close>: a slab behind a quarantine of four, a watermark and a
  statistics wrapper, over any ranged backing.
\<close>

definition token_pool :: "'b fixed_range \<Rightarrow> type_layout \<Rightarrow>
    'b slab quarantine watermark statistics allocator" where
  "token_pool R T =
     statistics_allocator (watermark_allocator (quarantine_allocator 4 (slab_allocator R NoProtection T)))"

definition build_pool :: "'b allocator \<Rightarrow> 'b fixed_range \<Rightarrow> type_layout \<Rightarrow> usize \<Rightarrow> 'b \<times> mem \<Rightarrow>
    'b slab quarantine watermark statistics res \<times> 'b \<times> mem" where
  "build_pool B R T capacity st =
     (case slab_with_protection B R T capacity st of
        (Inl e, b, m) \<Rightarrow> (Inl e, b, m)
      | (Inr s, b, m) \<Rightarrow>
          (Inr (statistics_new (watermark_new (quarantine_allocator 4 (slab_allocator R NoProtection T))
             (quarantine_new 4 s))), b, m))"

definition token_inv :: "('b \<Rightarrow> mem \<Rightarrow> live \<Rightarrow> bool) \<Rightarrow> 'b fixed_range \<Rightarrow> type_layout \<Rightarrow>
    'b slab quarantine watermark statistics \<Rightarrow> mem \<Rightarrow> live \<Rightarrow> bool" where
  "token_inv binv R T = statistics_inv (watermark_inv (quarantine_inv 4 (slab_inv True binv R NoProtection T)))"

lemma token_pool_contract:
  assumes "ranged_contract B binv R"
  shows "allocator_contract (token_pool R T) (token_inv binv R T)"
  unfolding token_pool_def token_inv_def
  using ranged_contract.slab_contract [OF assms no_protection.freelist_protection_axioms]
  by (intro allocator_contract.statistics_contract allocator_contract.watermark_contract
      allocator_contract.quarantine_contract) simp_all

lemma build_pool_inv:
  assumes "ranged_contract B binv R" "type_ok T" "binv b m {}"
    "build_pool B R T capacity (b, m) = (Inr w, b', m')"
  shows "token_inv binv R T w m' {}"
proof -
  obtain s where s: "slab_with_protection B R T capacity (b, m) = (Inr s, b', m')"
    "w = statistics_new (watermark_new (quarantine_allocator 4 (slab_allocator R NoProtection T))
       (quarantine_new 4 s))"
    using assms(4) by (auto simp: build_pool_def split: prod.splits sum.splits)
  have "slab_inv True binv R NoProtection T s m' {}"
    by (rule ranged_contract.slab_new_inv(1) [OF assms(1) s(1) assms(3,2)])
  then show ?thesis
    by (simp add: token_inv_def s(2) statistics_inv_def statistics_new_def stats_exact_def
        alloc_stats_new_def watermark_inv_def watermark_new_def watermark_with_thresholds_def
        quarantine_inv_def quarantine_new_def ring_blocks_def live_bytes_def replicate_4 Let_def)
qed

text \<open>
  C2. A whole composition refines the abstract allocator: every run of a well-behaved client on a
  freshly built token pool is, with the pool's own state forgotten, a run of the specification
  that knows only the memory and the live blocks; all live blocks are valid and disjoint and the
  reported byte count is theirs.
\<close>

theorem token_pool_refines_spec:
  assumes "ranged_contract B binv R" "type_ok T" "binv b m {}"
    "build_pool B R T capacity (b, m) = (Inr w, b', m')"
    "client_run (token_pool R T) (w, m', {}) k (w', m'', L)"
  shows "spec_run (m', {}) k (m'', L) \<and> live_ok L \<and>
    unat (stats_current_bytes (sx_stats w')) = live_bytes L"
proof -
  note c = token_pool_contract [OF assms(1), of T]
  note i = build_pool_inv [OF assms(1-4)]
  show ?thesis
    using allocator_contract.client_run_refines [OF c assms(5) i]
      allocator_contract.client_run_safe [OF c assms(5) i]
    by (simp add: token_inv_def statistics_inv_def stats_exact_def stats_current_bytes_def)
qed

definition demo_pool :: "inline_backed slab quarantine watermark statistics" where
  "demo_pool = statistics_new (watermark_new (quarantine_allocator 4
     (slab_allocator (inline_range 256) NoProtection demo_type)) (quarantine_new 4 demo_slab))"

lemma demo_pool_new:
  "build_pool (inline_allocator 256) (inline_range 256) demo_type 4 (demo_inline, m) =
     (Inr demo_pool, \<lparr>ib_addr = 4096, ib_cursor = 64\<rparr>, m)"
  by (simp add: build_pool_def demo_slab_new demo_pool_def)

lemma demo_pool_run:
  "\<exists>w'. client_run (token_pool (inline_range 256) demo_type) (demo_pool, zero_mem, {}) 0
     (w', zero_mem, demo_live)"
proof -
  let ?A = "token_pool (inline_range 256) demo_type"
  have "al_allocate ?A demo_layout (demo_pool, zero_mem) =
      (Inr (4096, 16), fst (snd (al_allocate ?A demo_layout (demo_pool, zero_mem))), zero_mem)"
    by (simp add: token_pool_def statistics_allocator_def statistics_allocate_def via_def Let_def
        watermark_allocator_def watermark_allocate_def quarantine_allocator_def quarantine_lift_def
        slab_allocator_def demo_pool_def statistics_new_def watermark_new_def
        watermark_with_thresholds_def quarantine_new_def demo_slab1_allocate)
  from client_step.alloc_ok [OF demo_layout_ok this, of "{}"]
  have r: "client_run ?A (demo_pool, zero_mem, {}) 0
      (fst (snd (al_allocate ?A demo_layout (demo_pool, zero_mem))), zero_mem, demo_live)"
    using client_run.snoc [OF client_run.nil] by (fastforce simp: demo_live_def)
  then show ?thesis by blast
qed

theorem token_pool_refines_spec_witness:
  "\<exists>w'. client_run (token_pool (inline_range 256) demo_type) (demo_pool, zero_mem, {}) 0
       (w', zero_mem, demo_live) \<and> spec_run (zero_mem, {}) 0 (zero_mem, demo_live)"
proof -
  obtain w' where r: "client_run (token_pool (inline_range 256) demo_type) (demo_pool, zero_mem, {}) 0
      (w', zero_mem, demo_live)"
    using demo_pool_run by blast
  show ?thesis
    using r token_pool_refines_spec [OF inline.ranged_contract_axioms demo_type_ok demo_inline_ok
        demo_pool_new r] by blast
qed

text \<open>
  A client that frees and resizes only what it owns never makes the pool panic: in every
  reachable state each such call returns.
\<close>

theorem token_pool_never_panics:
  assumes "ranged_contract B binv R" "type_ok T" "binv b m {}"
    "build_pool B R T capacity (b, m) = (Inr w, b', m')"
    "client_run (token_pool R T) (w, m', {}) k (w', m'', L)" "(p, lay, n) \<in> L"
  shows "al_deallocate (token_pool R T) p lay (w', m'') \<noteq> Panicked \<and>
    (valid_layout new \<and> lay_align new = lay_align lay \<and> lay_size lay \<le> lay_size new \<longrightarrow>
       al_grow (token_pool R T) p lay new (w', m'') \<noteq> Panicked) \<and>
    (valid_layout new \<and> lay_align new = lay_align lay \<and> lay_size new \<le> lay_size lay \<longrightarrow>
       al_shrink (token_pool R T) p lay new (w', m'') \<noteq> Panicked)"
proof -
  note c = token_pool_contract [OF assms(1), of T]
  have "token_inv binv R T w' m'' L"
    using allocator_contract.client_run_inv [OF c assms(5) build_pool_inv [OF assms(1-4)]] by simp
  from allocator_contract.client_never_panics [OF c this] assms(6) show ?thesis by blast
qed

theorem token_pool_never_panics_witness:
  "\<exists>w'. client_run (token_pool (inline_range 256) demo_type) (demo_pool, zero_mem, {}) 0
       (w', zero_mem, demo_live) \<and>
     al_deallocate (token_pool (inline_range 256) demo_type) 4096 demo_layout (w', zero_mem) \<noteq> Panicked"
proof -
  obtain w' where r: "client_run (token_pool (inline_range 256) demo_type) (demo_pool, zero_mem, {}) 0
      (w', zero_mem, demo_live)"
    using demo_pool_run by blast
  have "(4096, demo_layout, 16) \<in> demo_live" by (simp add: demo_live_def)
  then show ?thesis
    using r token_pool_never_panics [OF inline.ranged_contract_axioms demo_type_ok demo_inline_ok
        demo_pool_new r] by blast
qed

end
